(* ===== verification/Prelude.thy ===== *)
theory Prelude
  imports Main "HOL-Library.Word"
begin

text \<open>
  Shared vocabulary of the development: the types that stand for the C types of the agent
  (bytes, stream symbols, error codes), results of code that may raise an exception, and the
  generic lemmas on lists, results and words that the component theories use.

  The agent signals errors with \<open>exception(no)\<close> (a \<open>longjmp\<close> to the nearest trap, see
  src/agent/tcf/framework/exceptions.c) or by returning -1 with \<open>errno\<close> set. Both are the
  left side of a sum: a value of type \<open>'a result\<close> is \<open>Inl err\<close> or \<open>Inr value\<close>. The message
  text that \<open>str_exception\<close> attaches to an error code is not kept.
\<close>

unbundle bit_operations_syntax

section \<open>Types\<close>

type_synonym byte = "8 word"
type_synonym u16 = "16 word"
type_synonym u32 = "32 word"
type_synonym u64 = "64 word"

text \<open>
  A stream symbol is what \<open>read_stream\<close> returns: a byte 0..255 or one of the negative
  markers of streams.h. The C type is \<open>int\<close>.
\<close>

type_synonym sym = int
type_synonym istream = "sym list"
type_synonym ostream = "sym list"

text \<open>The standard error codes of errors.h, in the order of their numbers there.\<close>

datatype tcf_error =
    ERR_OTHER | ERR_JSON_SYNTAX | ERR_PROTOCOL | ERR_BUFFER_OVERFLOW
  | ERR_CHANNEL_CLOSED | ERR_COMMAND_CANCELLED | ERR_UNKNOWN_PEER | ERR_BASE64 | ERR_EOF
  | ERR_ALREADY_STOPPED | ERR_ALREADY_EXITED | ERR_ALREADY_RUNNING | ERR_ALREADY_ATTACHED
  | ERR_IS_RUNNING | ERR_INV_DATA_SIZE | ERR_INV_CONTEXT | ERR_INV_ADDRESS
  | ERR_INV_EXPRESSION | ERR_INV_FORMAT | ERR_INV_NUMBER | ERR_INV_DWARF
  | ERR_SYM_NOT_FOUND | ERR_UNSUPPORTED | ERR_INV_DATA_TYPE | ERR_INV_COMMAND
  | ERR_INV_TRANSPORT | ERR_CACHE_MISS | ERR_NOT_ACTIVE | ERR_INV_CONT_OBJ

type_synonym 'a result = "tcf_error + 'a"

section \<open>Sequencing code that may raise an exception\<close>

definition bindE :: "'e + 'a \<Rightarrow> ('a \<Rightarrow> 'e + 'b) \<Rightarrow> 'e + 'b" where
  "bindE r f = (case r of Inl e \<Rightarrow> Inl e | Inr x \<Rightarrow> f x)"

lemma bindE_simps [simp]:
  "bindE (Inl e) f = Inl e"
  "bindE (Inr x) f = f x"
  by (simp_all add: bindE_def)

lemma bindE_Inr_iff: "bindE r f = Inr y \<longleftrightarrow> (\<exists>x. r = Inr x \<and> f x = Inr y)"
  by (cases r) auto

lemma bindE_Inl_iff: "bindE r f = Inl e \<longleftrightarrow> r = Inl e \<or> (\<exists>x. r = Inr x \<and> f x = Inl e)"
  by (cases r) auto

lemma bindE_assoc: "bindE (bindE r f) g = bindE r (\<lambda>x. bindE (f x) g)"
  by (cases r) simp_all

lemma bindE_cong [fundef_cong]:
  "r = r' \<Longrightarrow> (\<And>x. r' = Inr x \<Longrightarrow> f x = f' x) \<Longrightarrow> bindE r f = bindE r' f'"
  by (cases r') simp_all

text \<open>The same for code that may also fail to return: \<open>None\<close> is "did not return".\<close>

definition bindOE :: "('e + 'a) option \<Rightarrow> ('a \<Rightarrow> ('e + 'b) option) \<Rightarrow> ('e + 'b) option" where
  "bindOE r f = (case r of None \<Rightarrow> None | Some (Inl e) \<Rightarrow> Some (Inl e) | Some (Inr x) \<Rightarrow> f x)"

lemma bindOE_simps [simp]:
  "bindOE None f = None"
  "bindOE (Some (Inl e)) f = Some (Inl e)"
  "bindOE (Some (Inr x)) f = f x"
  by (simp_all add: bindOE_def)

lemma bindOE_cong [fundef_cong]:
  "r = r' \<Longrightarrow> (\<And>x. r' = Some (Inr x) \<Longrightarrow> f x = f' x) \<Longrightarrow> bindOE r f = bindOE r' f'"
  by (auto simp: bindOE_def split: option.splits sum.splits)

lemma bindOE_Inr_iff:
  "bindOE r f = Some (Inr y) \<longleftrightarrow> (\<exists>x. r = Some (Inr x) \<and> f x = Some (Inr y))"
  by (auto simp: bindOE_def split: option.splits sum.splits)

lemma bindOE_not_None:
  "r \<noteq> None \<Longrightarrow> (\<And>x. r = Some (Inr x) \<Longrightarrow> f x \<noteq> None) \<Longrightarrow> bindOE r f \<noteq> None"
  by (auto simp: bindOE_def split: option.splits sum.splits)

section \<open>Collections of rules\<close>

named_theorems stream_simps \<open>unfolding rules for the operations on streams\<close>
named_theorems append_form \<open>writers as appending an encoding to what was written before\<close>
named_theorems inv_intros \<open>preservation of component invariants\<close>

section \<open>Characters and bytes as stream symbols\<close>

definition chr :: "char \<Rightarrow> sym" where
  "chr c = of_char c"

definition byte_sym :: "byte \<Rightarrow> sym" where
  "byte_sym b = uint b"

definition sym_byte :: "sym \<Rightarrow> byte" where
  "sym_byte x = word_of_int x"

text \<open>The symbols a stream can deliver: a byte or a marker.\<close>

definition is_byte :: "sym \<Rightarrow> bool" where
  "is_byte x \<longleftrightarrow> 0 \<le> x \<and> x < 256"

lemma byte_sym_range [simp]: "0 \<le> byte_sym b" "byte_sym b < 256" "is_byte (byte_sym b)"
proof -
  have "uint b < 2 ^ LENGTH(8)" by (rule uint_bounded)
  then show "0 \<le> byte_sym b" "byte_sym b < 256" "is_byte (byte_sym b)"
    by (simp_all add: byte_sym_def is_byte_def)
qed

lemma sym_byte_inverse [simp]: "sym_byte (byte_sym b) = b"
  by (simp add: sym_byte_def byte_sym_def)

lemma byte_sym_inverse: "is_byte x \<Longrightarrow> byte_sym (sym_byte x) = x"
  by (simp add: sym_byte_def byte_sym_def is_byte_def uint_word_of_int take_bit_eq_mod)

lemma byte_sym_inj [simp]: "byte_sym a = byte_sym b \<longleftrightarrow> a = b"
  by (metis sym_byte_inverse)

lemma is_byte_nonneg [dest]: "is_byte x \<Longrightarrow> 0 \<le> x \<and> x < 256"
  by (simp add: is_byte_def)

lemma chr_eval [simp]: "chr (Char b0 b1 b2 b3 b4 b5 b6 b7) = of_char (Char b0 b1 b2 b3 b4 b5 b6 b7)"
  by (simp add: chr_def)

lemma map_sym_byte_inverse: "list_all is_byte xs \<Longrightarrow> map byte_sym (map sym_byte xs) = xs"
  by (induction xs) (auto simp: byte_sym_inverse)

section \<open>Lists\<close>

lemma take_drop_split: "n \<le> length xs \<Longrightarrow> xs = take n xs @ drop n xs"
  by simp

lemma drop_Cons_nth: "i < length xs \<Longrightarrow> drop i xs = xs ! i # drop (Suc i) xs"
  by (rule Cons_nth_drop_Suc [symmetric])

lemma dropWhile_Cons_length: "dropWhile P xs = y # ys \<Longrightarrow> length ys < length xs"
  using length_dropWhile_le [of P xs] by simp

text \<open>\<open>memcpy\<close> into a byte array: the bytes at \<open>pos\<close> are replaced, the rest stays.\<close>

definition blit :: "'a list \<Rightarrow> nat \<Rightarrow> 'a list \<Rightarrow> 'a list" where
  "blit dst pos src = take pos dst @ src @ drop (pos + length src) dst"

lemma length_blit [simp]: "pos + length src \<le> length dst \<Longrightarrow> length (blit dst pos src) = length dst"
  by (simp add: blit_def)

lemma blit_Nil [simp]: "pos \<le> length dst \<Longrightarrow> blit dst pos [] = dst"
  by (simp add: blit_def)

lemma nth_blit:
  assumes "pos + length src \<le> length dst" and "i < length dst"
  shows "blit dst pos src ! i =
    (if pos \<le> i \<and> i < pos + length src then src ! (i - pos) else dst ! i)"
  using assms by (auto simp: blit_def nth_append)

lemma take_blit: "pos \<le> length dst \<Longrightarrow> take (pos + length src) (blit dst pos src) = take pos dst @ src"
  by (simp add: blit_def)

lemma take_blit_less: "n \<le> pos \<Longrightarrow> pos \<le> length dst \<Longrightarrow> take n (blit dst pos src) = take n dst"
  by (simp add: blit_def min_def)

section \<open>Groups of seven bits\<close>

lemma unat_and_7f: "unat (b AND 0x7f :: byte) = unat b mod 128"
proof -
  have "b AND 0x7f = take_bit 7 b" by (simp add: take_bit_eq_mask mask_eq_exp_minus_1)
  then show ?thesis using unsigned_take_bit_eq [of 7 b, where ?'a = nat] by (simp add: take_bit_eq_mod)
qed

lemma and_80_zero: "(b AND 0x80 = (0 :: byte)) \<longleftrightarrow> unat b < 128"
proof -
  have "b AND 0x80 = 0 \<longleftrightarrow> \<not> bit b 7"
    using bit_iff_and_push_bit_not_eq_0 [of b 7] by simp
  also have "bit b 7 \<longleftrightarrow> odd (unat b div 128)"
    by (simp add: bit_iff_odd [of "unat b" 7, simplified, symmetric] bit_unsigned_iff)
  also have "odd (unat b div 128) \<longleftrightarrow> \<not> unat b < 128"
  proof -
    have "unat b < 256" using unsigned_less [of b, where ?'a = nat] by simp
    then have "unat b div 128 = (if unat b < 128 then 0 else 1)" by auto
    then show ?thesis by simp
  qed
  finally show ?thesis by simp
qed

end
