(* ===== verification/Streams.thy ===== *)
theory Streams
  imports Prelude
begin

text \<open>
  Streams: src/agent/tcf/framework/streams.c and streams.h.

  In the agent an \<open>InputStream\<close> or \<open>OutputStream\<close> is a pair of pointers into a buffer (the
  fast path) and function pointers (the slow path). Code that only uses a stream, such as
  the JSON reader, depends on nothing but the sequence of symbols it delivers or accepts.
  That sequence is the abstract stream of this theory: \<open>istream\<close> is what is still to be read,
  \<open>ostream\<close> what was written so far. The locales \<open>input_stream\<close> and \<open>output_stream\<close> say what
  an implementation promises with respect to the abstract one; the byte array streams of
  streams.c interpret them here, the TCP channel in theory Channel_TCP, its input
  buffer in theory InputBuf.
\<close>

unbundle bit_operations_syntax

section \<open>Markers\<close>

definition MARKER_EOM :: sym where "MARKER_EOM = -1"
definition MARKER_EOS :: sym where "MARKER_EOS = -2"
definition MARKER_EOA :: sym where "MARKER_EOA = 0"
definition ESC :: sym where "ESC = 3"

lemmas marker_defs [simp] = MARKER_EOM_def MARKER_EOS_def MARKER_EOA_def ESC_def

section \<open>The abstract streams\<close>

fun read_stream :: "istream \<Rightarrow> sym \<times> istream" where
  "read_stream [] = (MARKER_EOS, [])"
| "read_stream (x # xs) = (x, xs)"

fun peek_stream :: "istream \<Rightarrow> sym" where
  "peek_stream [] = MARKER_EOS"
| "peek_stream (x # xs) = x"

definition write_stream :: "ostream \<Rightarrow> sym \<Rightarrow> ostream" where
  "write_stream out b = out @ [b]"

definition write_block_stream :: "ostream \<Rightarrow> byte list \<Rightarrow> ostream" where
  "write_block_stream out bytes = out @ map byte_sym bytes"

lemma write_stream_append [append_form, simp]: "write_stream out b = out @ [b]"
  by (simp add: write_stream_def)

lemma write_block_stream_append [append_form, simp]:
  "write_block_stream out bytes = out @ map byte_sym bytes"
  by (simp add: write_block_stream_def)

lemma read_stream_peek: "fst (read_stream inp) = peek_stream inp"
  by (cases inp) simp_all

lemma read_stream_length: "length (snd (read_stream inp)) = length inp - 1"
  by (cases inp) simp_all

section \<open>The interface of an input stream\<close>

text \<open>
  \<open>rd\<close> and \<open>pk\<close> are the \<open>read\<close> and \<open>peek\<close> members of the struct; peeking may move
  data in an implementation, so it returns a state too. \<open>view\<close> is the sequence still to
  be delivered.
\<close>

locale symbol_source =
  fixes rd :: "'s \<Rightarrow> sym \<times> 's"
    and pk :: "'s \<Rightarrow> sym \<times> 's"
    and view :: "'s \<Rightarrow> istream"
    and inv :: "'s \<Rightarrow> bool"
  assumes next_value: "inv s \<Longrightarrow> view s \<noteq> [] \<Longrightarrow> fst (rd s) = hd (view s)"
    and next_view: "inv s \<Longrightarrow> view s \<noteq> [] \<Longrightarrow> view (snd (rd s)) = tl (view s)"
    and next_inv: "inv s \<Longrightarrow> view s \<noteq> [] \<Longrightarrow> inv (snd (rd s))"
    and peek_value: "inv s \<Longrightarrow> view s \<noteq> [] \<Longrightarrow> fst (pk s) = hd (view s)"
    and peek_view: "inv s \<Longrightarrow> view s \<noteq> [] \<Longrightarrow> view (snd (pk s)) = view s"
    and peek_inv: "inv s \<Longrightarrow> view s \<noteq> [] \<Longrightarrow> inv (snd (pk s))"
begin

primrec rd_n :: "nat \<Rightarrow> 's \<Rightarrow> sym list \<times> 's" where
  "rd_n 0 s = ([], s)"
| "rd_n (Suc n) s = (let (x, s1) = rd s; (xs, s2) = rd_n n s1 in (x # xs, s2))"

lemma rd_n_prefix:
  "inv s \<Longrightarrow> view s = xs @ ys \<Longrightarrow> fst (rd_n (length xs) s) = xs
     \<and> view (snd (rd_n (length xs) s)) = ys \<and> inv (snd (rd_n (length xs) s))"
proof (induction xs arbitrary: s)
  case Nil
  then show ?case by simp
next
  case (Cons x xs)
  obtain y s1 where s1: "rd s = (y, s1)" by (cases "rd s")
  have ne: "view s \<noteq> []" using Cons.prems(2) by simp
  have "y = x" "view s1 = xs @ ys" "inv s1"
    using next_value [OF Cons.prems(1) ne] next_view [OF Cons.prems(1) ne] next_inv [OF Cons.prems(1) ne]
      Cons.prems(2) s1 by simp_all
  with Cons.IH [of s1] s1 show ?case by (auto split: prod.splits)
qed

lemma peek_then_read: "inv s \<Longrightarrow> view s \<noteq> [] \<Longrightarrow> fst (rd (snd (pk s))) = fst (pk s)"
  by (simp add: peek_value peek_view peek_inv next_value)

end

text \<open>A stream that also reports its end, again and again, is a complete input stream.\<close>

locale input_stream =
  fixes rd :: "'s \<Rightarrow> sym \<times> 's"
    and pk :: "'s \<Rightarrow> sym \<times> 's"
    and view :: "'s \<Rightarrow> istream"
    and inv :: "'s \<Rightarrow> bool"
  assumes rd_value: "inv s \<Longrightarrow> fst (rd s) = fst (read_stream (view s))"
    and rd_view: "inv s \<Longrightarrow> view (snd (rd s)) = snd (read_stream (view s))"
    and rd_inv: "inv s \<Longrightarrow> inv (snd (rd s))"
    and pk_value: "inv s \<Longrightarrow> fst (pk s) = peek_stream (view s)"
    and pk_view: "inv s \<Longrightarrow> view (snd (pk s)) = view s"
    and pk_inv: "inv s \<Longrightarrow> inv (snd (pk s))"

lemma read_stream_hd_tl: "inp \<noteq> [] \<Longrightarrow> read_stream inp = (hd inp, tl inp)" "inp \<noteq> [] \<Longrightarrow> peek_stream inp = hd inp"
  by (cases inp; simp)+

sublocale input_stream \<subseteq> symbol_source
  by unfold_locales (simp_all add: rd_value rd_view rd_inv pk_value pk_view pk_inv read_stream_hd_tl)

section \<open>The interface of an output stream\<close>

text \<open>
  \<open>wr\<close> and \<open>wr_block\<close> are the \<open>write\<close> and \<open>write_block\<close> members of the struct, \<open>ok\<close> says which
  symbols the stream accepts and \<open>view\<close> what it has accepted so far.
\<close>

locale output_stream =
  fixes wr :: "sym \<Rightarrow> 'o \<Rightarrow> 'o"
    and wr_block :: "byte list \<Rightarrow> 'o \<Rightarrow> 'o"
    and ok :: "sym \<Rightarrow> bool"
    and view :: "'o \<Rightarrow> ostream"
    and inv :: "'o \<Rightarrow> bool"
  assumes wr_view: "inv s \<Longrightarrow> ok b \<Longrightarrow> view (wr b s) = write_stream (view s) b"
    and wr_inv: "inv s \<Longrightarrow> ok b \<Longrightarrow> inv (wr b s)"
    and wr_block_view: "inv s \<Longrightarrow> view (wr_block bs s) = write_block_stream (view s) bs"
    and wr_block_inv: "inv s \<Longrightarrow> inv (wr_block bs s)"
    and ok_byte: "is_byte b \<Longrightarrow> ok b"
begin

lemma fold_wr: "inv s \<Longrightarrow> list_all ok bs \<Longrightarrow> view (fold wr bs s) = view s @ bs \<and> inv (fold wr bs s)"
  by (induction bs arbitrary: s) (auto simp: wr_view wr_inv)

lemma wr_block_is_fold: "inv s \<Longrightarrow> view (wr_block bs s) = view (fold wr (map byte_sym bs) s)"
  using fold_wr [of s "map byte_sym bs"] ok_byte
  by (auto simp: wr_block_view list_all_iff)

end

section \<open>Strings: write\_string and write\_stringz\<close>

text \<open>
  The members of \<open>struct OutputStream\<close> that these two functions use. \<open>os_cur_null\<close> is the test
  \<open>out->cur == NULL\<close>, \<open>os_room\<close> is \<open>end - cur\<close> and \<open>os_put\<close> is \<open>*cur++ = ch\<close>. A C string is the
  list of its bytes before the terminating zero.
\<close>

record 'o OutputStream =
  os_cur_null :: "'o \<Rightarrow> bool"
  os_room :: "'o \<Rightarrow> nat"
  os_put :: "byte \<Rightarrow> 'o \<Rightarrow> 'o"
  os_write :: "sym \<Rightarrow> 'o \<Rightarrow> 'o"
  os_write_block :: "byte list \<Rightarrow> 'o \<Rightarrow> 'o"

definition os_write_stream :: "'o OutputStream \<Rightarrow> 'o \<Rightarrow> sym \<Rightarrow> 'o" where
  "os_write_stream ops out b =
     (if b > ESC \<and> os_room ops out > 0 then os_put ops (sym_byte b) out else os_write ops b out)"

fun write_string_loop :: "'o OutputStream \<Rightarrow> byte list \<Rightarrow> 'o \<Rightarrow> 'o" where
  "write_string_loop ops [] out = out"
| "write_string_loop ops (ch # str) out =
     (if byte_sym ch \<noteq> ESC \<and> os_room ops out > 0
      then write_string_loop ops str (os_put ops ch out)
      else write_string_loop ops str (os_write ops (byte_sym ch) out))"

definition write_string :: "'o OutputStream \<Rightarrow> 'o \<Rightarrow> byte list \<Rightarrow> 'o" where
  "write_string ops out str =
     (if os_cur_null ops out then os_write_block ops str out
      else write_string_loop ops str out)"

fun write_stringz_loop :: "'o OutputStream \<Rightarrow> byte list \<Rightarrow> 'o \<Rightarrow> 'o" where
  "write_stringz_loop ops [] out =
     (if os_room ops out > 0 then os_put ops 0 out else os_write ops 0 out)"
| "write_stringz_loop ops (ch # str) out =
     (if byte_sym ch \<noteq> ESC \<and> os_room ops out > 0
      then write_stringz_loop ops str (os_put ops ch out)
      else write_stringz_loop ops str (os_write ops (byte_sym ch) out))"

definition write_stringz :: "'o OutputStream \<Rightarrow> 'o \<Rightarrow> byte list \<Rightarrow> 'o" where
  "write_stringz ops out str =
     (if os_cur_null ops out then os_write_block ops (str @ [0]) out
      else write_stringz_loop ops str out)"

text \<open>
  A stream with a buffer window: storing a byte other than ESC through \<open>cur\<close> while there is
  room is the same as writing it.
\<close>

locale windowed_stream =
  output_stream "os_write ops" "os_write_block ops" ok view inv
  for ops :: "'o OutputStream"
    and ok :: "sym \<Rightarrow> bool"
    and view :: "'o \<Rightarrow> ostream"
    and inv :: "'o \<Rightarrow> bool" +
  assumes put_view: "inv s \<Longrightarrow> os_room ops s > 0 \<Longrightarrow> byte_sym b \<noteq> ESC \<Longrightarrow>
      view (os_put ops b s) = view s @ [byte_sym b]"
    and put_inv: "inv s \<Longrightarrow> os_room ops s > 0 \<Longrightarrow> byte_sym b \<noteq> ESC \<Longrightarrow> inv (os_put ops b s)"
begin

lemma write_step:
  assumes "inv s"
  shows "view (os_write ops (byte_sym b) s) = view s @ [byte_sym b]" "inv (os_write ops (byte_sym b) s)"
  using assms ok_byte by (simp_all add: wr_view wr_inv)

lemma os_write_stream_ok:
  assumes "inv s" "ok b" "b < 256"
  shows "view (os_write_stream ops s b) = view s @ [b] \<and> inv (os_write_stream ops s b)"
proof (cases "b > ESC \<and> os_room ops s > 0")
  case True
  then have "byte_sym (sym_byte b) = b"
    using assms(3) by (intro byte_sym_inverse) (simp add: is_byte_def)
  with True assms put_view [of s "sym_byte b"] put_inv [of s "sym_byte b"]
  show ?thesis by (auto simp: os_write_stream_def)
next
  case False
  with assms show ?thesis by (auto simp: os_write_stream_def wr_view wr_inv)
qed

lemma write_string_loop_ok:
  "inv s \<Longrightarrow> view (write_string_loop ops str s) = view s @ map byte_sym str
     \<and> inv (write_string_loop ops str s)"
  by (induction str arbitrary: s) (auto simp: write_step put_view put_inv)

lemma write_stringz_loop_ok:
  "inv s \<Longrightarrow> view (write_stringz_loop ops str s) = view s @ map byte_sym str @ [0]
     \<and> inv (write_stringz_loop ops str s)"
proof (induction str arbitrary: s)
  case Nil
  then show ?case
    using put_view [of s 0] put_inv [of s 0] write_step [of s 0] by (simp add: byte_sym_def)
next
  case (Cons ch str)
  then show ?case by (auto simp: write_step put_view put_inv)
qed

lemma write_string_ok:
  "inv s \<Longrightarrow> view (write_string ops s str) = view s @ map byte_sym str
     \<and> inv (write_string ops s str)"
  by (simp add: write_string_def write_string_loop_ok wr_block_view wr_block_inv)

lemma write_stringz_ok:
  "inv s \<Longrightarrow> view (write_stringz ops s str) = view s @ map byte_sym str @ [0]
     \<and> inv (write_stringz ops s str)"
  by (simp add: write_stringz_def write_stringz_loop_ok wr_block_view wr_block_inv byte_sym_def)

end

section \<open>ByteArrayOutputStream\<close>

text \<open>
  \<open>buf\<close> is the inline array of 256 bytes, \<open>mem\<close> the heap block that replaces it once it is
  full (\<open>None\<close> is the NULL pointer), \<open>pos\<close> the number of bytes written and \<open>max\<close> the size
  of the heap block. Fresh memory has unspecified contents in C; \<open>loc_alloc\<close> fills it with
  zeros here, which no statement below depends on.
\<close>

definition BA_BUF :: nat where "BA_BUF = 256"

record ByteArrayOutputStream =
  ba_buf :: "byte list"
  ba_mem :: "byte list option"
  ba_pos :: nat
  ba_max :: nat

definition loc_alloc :: "nat \<Rightarrow> byte list" where
  "loc_alloc n = replicate n 0"

definition loc_realloc :: "byte list \<Rightarrow> nat \<Rightarrow> byte list" where
  "loc_realloc m n = take n m @ replicate (n - length m) 0"

definition create_byte_array_output_stream :: ByteArrayOutputStream where
  "create_byte_array_output_stream =
     \<lparr>ba_buf = replicate BA_BUF 0, ba_mem = None, ba_pos = 0, ba_max = 0\<rparr>"

definition write_byte_array_output_stream ::
  "sym \<Rightarrow> ByteArrayOutputStream \<Rightarrow> ByteArrayOutputStream" where
  "write_byte_array_output_stream byte s =
     (if ba_pos s < BA_BUF
      then s\<lparr>ba_buf := (ba_buf s)[ba_pos s := sym_byte byte], ba_pos := Suc (ba_pos s)\<rparr>
      else
        (case ba_mem s of
           None \<Rightarrow>
             (let m = blit (loc_alloc (ba_pos s * 2)) 0 (take (ba_pos s) (ba_buf s))
              in s\<lparr>ba_max := ba_pos s * 2, ba_mem := Some (m[ba_pos s := sym_byte byte]),
                   ba_pos := Suc (ba_pos s)\<rparr>)
         | Some m \<Rightarrow>
             (if ba_pos s \<ge> ba_max s
              then s\<lparr>ba_max := ba_max s * 2,
                     ba_mem := Some ((loc_realloc m (ba_max s * 2))[ba_pos s := sym_byte byte]),
                     ba_pos := Suc (ba_pos s)\<rparr>
              else s\<lparr>ba_mem := Some (m[ba_pos s := sym_byte byte]), ba_pos := Suc (ba_pos s)\<rparr>)))"

text \<open>One round of the copying loop: how much is copied, and the stream after it.\<close>

definition ba_block_step :: "byte list \<Rightarrow> ByteArrayOutputStream \<Rightarrow> nat \<times> ByteArrayOutputStream" where
  "ba_block_step bytes s =
     (let n = length bytes in
      case ba_mem s of
        None \<Rightarrow>
          (let m = blit (loc_alloc ((ba_pos s + n) * 2)) 0 (take (ba_pos s) (ba_buf s))
           in (n, s\<lparr>ba_max := (ba_pos s + n) * 2, ba_mem := Some (blit m (ba_pos s) bytes),
                    ba_pos := ba_pos s + n\<rparr>))
      | Some m \<Rightarrow>
          (if ba_pos s \<ge> ba_max s
           then (n, s\<lparr>ba_max := (ba_pos s + n) * 2,
                      ba_mem := Some (blit (loc_realloc m ((ba_pos s + n) * 2)) (ba_pos s) bytes),
                      ba_pos := ba_pos s + n\<rparr>)
           else
             (let k = (if n > ba_max s - ba_pos s then ba_max s - ba_pos s else n)
              in (k, s\<lparr>ba_mem := Some (blit m (ba_pos s) (take k bytes)), ba_pos := ba_pos s + k\<rparr>))))"

lemma ba_block_step_progress:
  "bytes \<noteq> [] \<Longrightarrow> 0 < fst (ba_block_step bytes s)"
  by (auto simp: ba_block_step_def Let_def split: option.splits)

function ba_block_loop :: "byte list \<Rightarrow> ByteArrayOutputStream \<Rightarrow> ByteArrayOutputStream" where
  "ba_block_loop bytes s =
     (if bytes = [] then s
      else let (n, s') = ba_block_step bytes s in ba_block_loop (drop n bytes) s')"
  by pat_completeness auto
termination
proof (relation "measure (\<lambda>(bytes, s). length bytes)", goal_cases)
  case 1
  show ?case by simp
next
  case (2 bytes s r n s')
  then have "0 < n" using ba_block_step_progress [of bytes s] by (metis fst_conv)
  with 2 show ?case by (simp add: diff_less)
qed

declare ba_block_loop.simps [simp del]

definition write_block_byte_array_output_stream ::
  "byte list \<Rightarrow> ByteArrayOutputStream \<Rightarrow> ByteArrayOutputStream" where
  "write_block_byte_array_output_stream bytes s =
     (if ba_pos s + length bytes \<le> BA_BUF
      then s\<lparr>ba_buf := blit (ba_buf s) (ba_pos s) bytes, ba_pos := ba_pos s + length bytes\<rparr>
      else ba_block_loop bytes s)"

definition get_byte_array_output_stream_data ::
  "ByteArrayOutputStream \<Rightarrow> (byte list \<times> nat) \<times> ByteArrayOutputStream" where
  "get_byte_array_output_stream_data s =
     (let mem = (case ba_mem s of
                   None \<Rightarrow> blit (loc_alloc (ba_pos s)) 0 (take (ba_pos s) (ba_buf s))
                 | Some m \<Rightarrow> m)
      in ((mem, ba_pos s), s\<lparr>ba_mem := None, ba_max := 0, ba_pos := 0\<rparr>))"

subsection \<open>It is an output stream\<close>

text \<open>The array in use; the invariant bounds every index the code writes to.\<close>

definition ba_data :: "ByteArrayOutputStream \<Rightarrow> byte list" where
  "ba_data s = take (ba_pos s) (case ba_mem s of None \<Rightarrow> ba_buf s | Some m \<Rightarrow> m)"

definition ba_view :: "ByteArrayOutputStream \<Rightarrow> ostream" where
  "ba_view s = map byte_sym (ba_data s)"

definition ba_inv :: "ByteArrayOutputStream \<Rightarrow> bool" where
  "ba_inv s \<longleftrightarrow> length (ba_buf s) = BA_BUF \<and>
     (case ba_mem s of None \<Rightarrow> ba_pos s \<le> BA_BUF
      | Some m \<Rightarrow> length m = ba_max s \<and> BA_BUF < ba_pos s \<and> ba_pos s \<le> ba_max s)"

lemma length_ba_data: "ba_inv s \<Longrightarrow> length (ba_data s) = ba_pos s"
  by (auto simp: ba_inv_def ba_data_def split: option.splits)

lemma take_Suc_update: "i < length xs \<Longrightarrow> take (Suc i) (xs[i := x]) = take i xs @ [x]"
  by (simp add: take_Suc_conv_app_nth)

lemma ba_write_ok:
  assumes "ba_inv s"
  shows "ba_inv (write_byte_array_output_stream b s)"
    and "ba_data (write_byte_array_output_stream b s) = ba_data s @ [sym_byte b]"
  using assms
  by (auto simp: ba_inv_def ba_data_def write_byte_array_output_stream_def BA_BUF_def Let_def
      loc_alloc_def loc_realloc_def blit_def take_Suc_update split: option.splits)

lemma ba_step_ok:
  assumes "ba_inv s" "bytes \<noteq> []" "BA_BUF < ba_pos s + length bytes \<or> ba_mem s \<noteq> None"
    and step: "ba_block_step bytes s = (n, s')"
  shows "ba_inv s'" "ba_data s' = ba_data s @ take n bytes" "ba_mem s' \<noteq> None" "0 < n"
    "n \<le> length bytes"
  using assms
  by (auto simp: ba_inv_def ba_data_def ba_block_step_def Let_def loc_alloc_def loc_realloc_def
      blit_def min_def split: option.splits if_splits)

lemma ba_loop_ok:
  assumes "ba_inv s" "BA_BUF < ba_pos s + length bytes \<or> ba_mem s \<noteq> None"
  shows "ba_inv (ba_block_loop bytes s) \<and> ba_data (ba_block_loop bytes s) = ba_data s @ bytes"
  using assms
proof (induction bytes s rule: ba_block_loop.induct)
  case (1 bytes s)
  show ?case
  proof (cases "bytes = []")
    case True
    with 1(2) show ?thesis by (simp add: ba_block_loop.simps [of "[]" s])
  next
    case False
    obtain n s' where step: "ba_block_step bytes s = (n, s')" by (cases "ba_block_step bytes s")
    note ok = ba_step_ok [OF 1(2) False 1(3) step]
    have "ba_inv (ba_block_loop (drop n bytes) s') \<and>
        ba_data (ba_block_loop (drop n bytes) s') = ba_data s' @ drop n bytes"
      using 1(1) [OF False, of "(n, s')" n s'] step ok by simp
    with False step ok show ?thesis by (simp add: ba_block_loop.simps [of bytes s])
  qed
qed

lemma ba_write_block_ok:
  assumes "ba_inv s"
  shows "ba_inv (write_block_byte_array_output_stream bs s)"
    and "ba_data (write_block_byte_array_output_stream bs s) = ba_data s @ bs"
proof -
  have small: "ba_inv (s\<lparr>ba_buf := blit (ba_buf s) (ba_pos s) bs, ba_pos := ba_pos s + length bs\<rparr>) \<and>
      ba_data (s\<lparr>ba_buf := blit (ba_buf s) (ba_pos s) bs, ba_pos := ba_pos s + length bs\<rparr>)
        = ba_data s @ bs" if "ba_pos s + length bs \<le> BA_BUF"
    using that assms
    by (auto simp: ba_inv_def ba_data_def take_blit BA_BUF_def split: option.splits)
  show "ba_inv (write_block_byte_array_output_stream bs s)"
    "ba_data (write_block_byte_array_output_stream bs s) = ba_data s @ bs"
    using small ba_loop_ok [OF assms, of bs]
    by (auto simp: write_block_byte_array_output_stream_def)
qed

definition byte_array_ops :: "ByteArrayOutputStream OutputStream" where
  "byte_array_ops =
     \<lparr>os_cur_null = (\<lambda>_. True), os_room = (\<lambda>_. 0), os_put = (\<lambda>_ s. s),
      os_write = write_byte_array_output_stream,
      os_write_block = write_block_byte_array_output_stream\<rparr>"

interpretation ba: windowed_stream byte_array_ops is_byte ba_view ba_inv
  by unfold_locales
    (auto simp: byte_array_ops_def ba_view_def ba_write_ok ba_write_block_ok byte_sym_inverse)

lemma ba_create: "ba_inv create_byte_array_output_stream" "ba_view create_byte_array_output_stream = []"
  by (simp_all add: ba_inv_def ba_view_def ba_data_def create_byte_array_output_stream_def BA_BUF_def)

lemma ba_get_data:
  assumes "ba_inv s" "get_byte_array_output_stream_data s = ((mem, sz), s')"
  shows "sz = length (ba_data s)" "take sz mem = ba_data s" "sz \<le> length mem"
    "ba_inv s'" "ba_view s' = []"
  using assms
  by (auto simp: get_byte_array_output_stream_data_def ba_inv_def ba_data_def ba_view_def blit_def
      loc_alloc_def BA_BUF_def Let_def split: option.splits)

section \<open>ByteArrayInputStream\<close>

record ByteArrayInputStream =
  bi_buf :: "byte list"
  bi_cur :: nat
  bi_end :: nat

definition create_byte_array_input_stream :: "byte list \<Rightarrow> nat \<Rightarrow> ByteArrayInputStream" where
  "create_byte_array_input_stream data sz = \<lparr>bi_buf = data, bi_cur = 0, bi_end = sz\<rparr>"

definition read_byte_array_input_stream :: "ByteArrayInputStream \<Rightarrow> sym \<times> ByteArrayInputStream" where
  "read_byte_array_input_stream s =
     (if bi_cur s \<ge> bi_end s then (MARKER_EOS, s)
      else (byte_sym (bi_buf s ! bi_cur s), s\<lparr>bi_cur := Suc (bi_cur s)\<rparr>))"

definition peek_byte_array_input_stream :: "ByteArrayInputStream \<Rightarrow> sym" where
  "peek_byte_array_input_stream s =
     (if bi_cur s \<ge> bi_end s then MARKER_EOS else byte_sym (bi_buf s ! bi_cur s))"

definition bi_view :: "ByteArrayInputStream \<Rightarrow> istream" where
  "bi_view s = map byte_sym (drop (bi_cur s) (take (bi_end s) (bi_buf s)))"

definition bi_inv :: "ByteArrayInputStream \<Rightarrow> bool" where
  "bi_inv s \<longleftrightarrow> bi_cur s \<le> bi_end s \<and> bi_end s \<le> length (bi_buf s)"

lemma bi_view_step:
  assumes "bi_inv s" "bi_cur s < bi_end s"
  shows "bi_view s = byte_sym (bi_buf s ! bi_cur s) # bi_view (s\<lparr>bi_cur := Suc (bi_cur s)\<rparr>)"
  using assms by (simp add: bi_view_def bi_inv_def drop_Cons_nth)

lemma bi_view_end: "bi_inv s \<Longrightarrow> bi_end s \<le> bi_cur s \<Longrightarrow> bi_view s = []"
  by (simp add: bi_view_def bi_inv_def)

interpretation bi: input_stream read_byte_array_input_stream
  "\<lambda>s. (peek_byte_array_input_stream s, s)" bi_view bi_inv
proof unfold_locales
  fix s assume inv: "bi_inv s"
  consider (data) "bi_cur s < bi_end s" | (eos) "bi_end s \<le> bi_cur s" by linarith
  then show "fst (read_byte_array_input_stream s) = fst (read_stream (bi_view s))"
    "bi_view (snd (read_byte_array_input_stream s)) = snd (read_stream (bi_view s))"
    "bi_inv (snd (read_byte_array_input_stream s))"
    "fst (peek_byte_array_input_stream s, s) = peek_stream (bi_view s)"
    using inv
    by (cases; simp add: read_byte_array_input_stream_def peek_byte_array_input_stream_def
        bi_view_step bi_view_end bi_inv_def)+
qed simp_all

section \<open>ForwardingInputStream\<close>

text \<open>
  A stream that copies what is read from \<open>inp\<close> to \<open>out\<close>. The two streams it connects are
  the abstract ones.
\<close>

record ForwardingInputStream =
  fw_inp :: istream
  fw_out :: ostream

definition read_forwarding_input_stream :: "ForwardingInputStream \<Rightarrow> sym \<times> ForwardingInputStream" where
  "read_forwarding_input_stream s =
     (let (ch, inp) = read_stream (fw_inp s)
      in (ch, s\<lparr>fw_inp := inp, fw_out := (if ch \<noteq> MARKER_EOS then write_stream (fw_out s) ch else fw_out s)\<rparr>))"

definition peek_forwarding_input_stream :: "ForwardingInputStream \<Rightarrow> sym" where
  "peek_forwarding_input_stream s = peek_stream (fw_inp s)"

interpretation fw: input_stream read_forwarding_input_stream
  "\<lambda>s. (peek_forwarding_input_stream s, s)" fw_inp "\<lambda>_. True"
  by unfold_locales
    (auto simp: read_forwarding_input_stream_def peek_forwarding_input_stream_def split: prod.splits)

lemma forwarding_copies:
  assumes "MARKER_EOS \<notin> set xs"
  shows "fw_inp s = xs @ ys \<Longrightarrow> fw_out (snd (fw.rd_n (length xs) s)) = fw_out s @ xs"
  using assms
proof (induction xs arbitrary: s)
  case Nil
  then show ?case by simp
next
  case (Cons x xs)
  define t where "t = s\<lparr>fw_inp := xs @ ys, fw_out := fw_out s @ [x]\<rparr>"
  have "read_forwarding_input_stream s = (x, t)"
    using Cons.prems by (simp add: read_forwarding_input_stream_def t_def)
  with Cons.IH [of t] Cons.prems show ?case by (auto simp: t_def split: prod.splits)
qed

section \<open>Properties\<close>

lemma byte_sym_inj_on: "inj byte_sym"
  by (rule injI) simp

lemma byte_sym_0: "byte_sym 0 = 0"
  by (simp add: byte_sym_def)

text \<open>
  A \<open>ByteArrayOutputStream\<close> delivers, in order, every byte of every block, string and zero
  terminated string written to it, whatever mixture of inline buffer, first heap block and
  reallocation the sizes cause, and is empty and ready for use again afterwards.
\<close>

theorem byte_array_stream_delivers:
  assumes "get_byte_array_output_stream_data
      (write_stringz byte_array_ops
        (fold write_block_byte_array_output_stream blocks create_byte_array_output_stream) str)
      = ((mem, sz), s')"
  shows "take sz mem = concat blocks @ str @ [0] \<and> sz \<le> length mem \<and> ba_inv s' \<and> ba_view s' = []"
proof -
  let ?f = "fold write_block_byte_array_output_stream blocks create_byte_array_output_stream"
  have "ba_inv (fold write_block_byte_array_output_stream blocks s) \<and>
      ba_data (fold write_block_byte_array_output_stream blocks s) = ba_data s @ concat blocks"
    if "ba_inv s" for s
    using that by (induction blocks arbitrary: s) (simp_all add: ba_write_block_ok)
  from this [OF ba_create(1)] have f: "ba_inv ?f" "ba_data ?f = concat blocks"
    using ba_create(2) by (simp_all add: ba_view_def)
  from ba.write_stringz_ok [OF f(1), of str] have z: "ba_inv (write_stringz byte_array_ops ?f str)"
      "ba_data (write_stringz byte_array_ops ?f str) = concat blocks @ str @ [0]"
    using f(2) inj_map_eq_map [OF byte_sym_inj_on, of _ "concat blocks @ str @ [0]"]
    by (auto simp: ba_view_def byte_sym_0)
  from ba_get_data [OF z(1) assms] z(2) show ?thesis by simp
qed

theorem byte_array_stream_delivers_witness:
  "\<exists>mem sz s'. get_byte_array_output_stream_data
      (write_stringz byte_array_ops
        (fold write_block_byte_array_output_stream [[1, 2], [3]] create_byte_array_output_stream) [4])
      = ((mem, sz), s') \<and> take sz mem = [1, 2, 3, 4, 0]"
proof -
  obtain mem sz s' where r: "get_byte_array_output_stream_data
      (write_stringz byte_array_ops
        (fold write_block_byte_array_output_stream [[1, 2], [3]] create_byte_array_output_stream) [4])
      = ((mem, sz), s')" by (metis prod.collapse)
  from byte_array_stream_delivers [OF r] r show ?thesis by simp
qed

end
