(* ===== verification/Base64.thy ===== *)
theory Base64
  imports Streams
begin

text \<open>
  BASE64 encoding of binary data in TCF messages: src/agent/tcf/framework/base64.c.
  \<open>write_base64\<close> works through the data three bytes at a time and collects the characters in
  a local buffer \<open>obf\<close> that is written as a block whenever it holds OBF\_SIZE characters;
  \<open>read_base64\<close> decodes groups of four characters while three more bytes fit into the
  caller's buffer. C \<open>int\<close> arithmetic on bytes and six bit digits is done on \<open>int\<close>: no
  intermediate value needs more than 16 bits.
\<close>

unbundle bit_operations_syntax

section \<open>Tables\<close>

definition int2char :: "byte list" where
  "int2char = map of_char
     ''ABCDEFGHIJKLMNOPQRSTUVWXYZabcdefghijklmnopqrstuvwxyz0123456789+/''"

definition char2int :: "int list" where
  "char2int = [
    -1,  -1,  -1,  -1,  -1,  -1,  -1,  -1,
    -1,  -1,  -1,  -1,  -1,  -1,  -1,  -1,
    -1,  -1,  -1,  -1,  -1,  -1,  -1,  -1,
    -1,  -1,  -1,  -1,  -1,  -1,  -1,  -1,
    -1,  -1,  -1,  -1,  -1,  -1,  -1,  -1,
    -1,  -1,  -1,  62,  -1,  -1,  -1,  63,
    52,  53,  54,  55,  56,  57,  58,  59,
    60,  61,  -1,  -1,  -1,  -1,  -1,  -1,
    -1,   0,   1,   2,   3,   4,   5,   6,
     7,   8,   9,  10,  11,  12,  13,  14,
    15,  16,  17,  18,  19,  20,  21,  22,
    23,  24,  25,  -1,  -1,  -1,  -1,  -1,
    -1,  26,  27,  28,  29,  30,  31,  32,
    33,  34,  35,  36,  37,  38,  39,  40,
    41,  42,  43,  44,  45,  46,  47,  48,
    49, 50, 51]"

definition i2c :: "int \<Rightarrow> byte" where
  "i2c i = int2char ! nat i"

text \<open>The test \<open>ch < 0 || ch >= ch_max || (n = char2int[ch]) < 0\<close>; \<open>None\<close> when it holds.\<close>

definition c2i :: "sym \<Rightarrow> int option" where
  "c2i ch =
     (if ch < 0 \<or> ch \<ge> int (length char2int) then None
      else if char2int ! nat ch < 0 then None
      else Some (char2int ! nat ch))"

definition PAD :: byte where
  "PAD = of_char (CHR ''='')"

section \<open>Writing\<close>

definition OBF_SIZE :: nat where
  "OBF_SIZE = 0x100"

definition obf_flush :: "byte list \<Rightarrow> ostream \<Rightarrow> byte list \<times> ostream" where
  "obf_flush obf out =
     (if length obf \<ge> OBF_SIZE then ([], write_block_stream out obf) else (obf, out))"

fun write_base64_loop :: "byte list \<Rightarrow> byte list \<Rightarrow> ostream \<Rightarrow> ostream" where
  "write_base64_loop [] obf out =
     (if length obf > 0 then write_block_stream out obf else out)"
| "write_base64_loop [b0] obf out =
     (let byte0 = uint b0;
          (obf1, out1) = obf_flush
            (obf @ [i2c (drop_bit 2 byte0), i2c (push_bit 4 byte0 AND 0x3f), PAD, PAD]) out
      in write_base64_loop [] obf1 out1)"
| "write_base64_loop [b0, b1] obf out =
     (let byte0 = uint b0; byte1 = uint b1;
          (obf1, out1) = obf_flush
            (obf @ [i2c (drop_bit 2 byte0),
                    i2c ((push_bit 4 byte0 AND 0x3f) OR drop_bit 4 byte1),
                    i2c (push_bit 2 byte1 AND 0x3f), PAD]) out
      in write_base64_loop [] obf1 out1)"
| "write_base64_loop (b0 # b1 # b2 # buf) obf out =
     (let byte0 = uint b0; byte1 = uint b1; byte2 = uint b2;
          (obf1, out1) = obf_flush
            (obf @ [i2c (drop_bit 2 byte0),
                    i2c ((push_bit 4 byte0 AND 0x3f) OR drop_bit 4 byte1),
                    i2c ((push_bit 2 byte1 AND 0x3f) OR drop_bit 6 byte2),
                    i2c (byte2 AND 0x3f)]) out
      in write_base64_loop buf obf1 out1)"

definition write_base64 :: "ostream \<Rightarrow> byte list \<Rightarrow> ostream \<times> nat" where
  "write_base64 out buf = (write_base64_loop buf [] out, ((length buf + 2) div 3) * 4)"

section \<open>Reading\<close>

function read_base64_loop :: "nat \<Rightarrow> byte list \<Rightarrow> istream \<Rightarrow> (byte list \<times> istream) result" where
  "read_base64_loop buf_size buf inp =
     (if length buf + 3 \<le> buf_size
      then
        (case c2i (peek_stream inp) of
           None \<Rightarrow> Inr (buf, inp)
         | Some n0 \<Rightarrow>
             (let (_, inp) = read_stream inp;
                  (ch1, inp) = read_stream inp;
                  (ch2, inp) = read_stream inp;
                  (ch3, inp) = read_stream inp
              in case c2i ch1 of
                   None \<Rightarrow> Inl ERR_BASE64
                 | Some n1 \<Rightarrow>
                     (let buf1 = buf @ [sym_byte (push_bit 2 n0 OR drop_bit 4 n1)]
                      in if ch2 = chr CHR ''='' then Inr (buf1, inp)
                         else case c2i ch2 of
                           None \<Rightarrow> Inl ERR_BASE64
                         | Some n2 \<Rightarrow>
                             (let buf2 = buf1 @ [sym_byte (push_bit 4 n1 OR drop_bit 2 n2)]
                              in if ch3 = chr CHR ''='' then Inr (buf2, inp)
                                 else case c2i ch3 of
                                   None \<Rightarrow> Inl ERR_BASE64
                                 | Some n3 \<Rightarrow>
                                     read_base64_loop buf_size
                                       (buf2 @ [sym_byte (push_bit 6 n2 OR n3)]) inp))))
      else Inr (buf, inp))"
  by pat_completeness auto
termination
  by (relation "measure (\<lambda>(buf_size, buf, inp). buf_size - length buf)") auto

declare read_base64_loop.simps [simp del]

definition read_base64 :: "istream \<Rightarrow> nat \<Rightarrow> (byte list \<times> istream) result" where
  "read_base64 inp buf_size = read_base64_loop buf_size [] inp"

section \<open>The encoding as a function\<close>

text \<open>
  The groups of the encoding in arithmetic terms. \<open>b64_digits\<close> is the usual reading of BASE64:
  three bytes are a 24 bit number, written as four digits to base 64.
\<close>

definition b64_digits :: "int \<Rightarrow> int list" where
  "b64_digits n = [n div 262144, (n div 4096) mod 64, (n div 64) mod 64, n mod 64]"

fun b64_encode :: "byte list \<Rightarrow> byte list" where
  "b64_encode [] = []"
| "b64_encode [b0] = take 2 (map i2c (b64_digits (uint b0 * 65536))) @ [PAD, PAD]"
| "b64_encode [b0, b1] = take 3 (map i2c (b64_digits (uint b0 * 65536 + uint b1 * 256))) @ [PAD]"
| "b64_encode (b0 # b1 # b2 # bs) =
     map i2c (b64_digits (uint b0 * 65536 + uint b1 * 256 + uint b2)) @ b64_encode bs"

lemma or_shift_add:
  fixes a b :: int
  assumes "0 \<le> b" "b < 2 ^ n"
  shows "push_bit n a OR b = a * 2 ^ n + b"
proof -
  have b: "b = take_bit n b" using assms by (simp add: take_bit_int_eq_self)
  have "\<not> bit (push_bit n a) i \<or> \<not> bit b i" for i
    by (subst b) (simp add: bit_push_bit_iff bit_take_bit_iff linorder_not_le)
  then have "push_bit n a + b = push_bit n a OR b" by (intro disjunctive_add) blast
  then show ?thesis by (simp add: push_bit_eq_mult)
qed

lemma and_63: "(x::int) AND 63 = x mod 64"
  using take_bit_eq_mask [of 6 x] by (simp add: take_bit_eq_mod mask_eq_exp_minus_1)

lemma shift_mask_or:
  fixes a b :: int
  assumes "0 \<le> b" "b < 2 ^ n" "n \<le> 6"
  shows "(push_bit n a AND 63) OR b = (a * 2 ^ n) mod 64 + b"
proof -
  have "push_bit n a AND 63 = push_bit n (take_bit (6 - n) a)"
    using assms(3) take_bit_push_bit [of 6 n a] by (simp add: and_63 take_bit_eq_mod)
  then show ?thesis
    using or_shift_add [OF assms(1,2), of "take_bit (6 - n) a"]
    by (simp add: push_bit_eq_mult and_63)
qed

lemma uint_byte_bounds: "0 \<le> uint (b :: byte)" "uint (b :: byte) < 256"
  using byte_sym_range(2) [of b] by (simp_all add: byte_sym_def)

lemma b64_digits_value:
  fixes d0 d1 d2 d3 :: int
  assumes "0 \<le> d1" "d1 < 64" "0 \<le> d2" "d2 < 64" "0 \<le> d3" "d3 < 64"
  shows "b64_digits (d0 * 262144 + d1 * 4096 + d2 * 64 + d3) = [d0, d1, d2, d3]"
proof -
  let ?n = "d0 * 262144 + d1 * 4096 + d2 * 64 + d3"
  have "?n div 262144 = d0"
    by (rule int_div_pos_eq [where r = "d1 * 4096 + d2 * 64 + d3"]) (use assms in \<open>simp_all add: algebra_simps\<close>)
  moreover have "?n div 4096 = d0 * 64 + d1"
    by (rule int_div_pos_eq [where r = "d2 * 64 + d3"]) (use assms in \<open>simp_all add: algebra_simps\<close>)
  moreover have "?n div 64 = (d0 * 64 + d1) * 64 + d2"
    by (rule int_div_pos_eq [where r = "d3"]) (use assms in \<open>simp_all add: algebra_simps\<close>)
  moreover have "((d0 * 64 + d1) * 64 + d2) mod 64 = d2"
    by (rule int_mod_pos_eq [where q = "d0 * 64 + d1"]) (use assms in \<open>simp_all add: algebra_simps\<close>)
  moreover have "(d0 * 64 + d1) mod 64 = d1"
    by (rule int_mod_pos_eq [where q = "d0"]) (use assms in \<open>simp_all add: algebra_simps\<close>)
  moreover have "?n mod 64 = d3"
    by (rule int_mod_pos_eq [where q = "(d0 * 64 + d1) * 64 + d2"]) (use assms in \<open>simp_all add: algebra_simps\<close>)
  ultimately show ?thesis
    by (simp only: b64_digits_def)
qed

lemma b64_digits_bytes:
  fixes x y z :: int
  assumes "0 \<le> y" "y < 256" "0 \<le> z" "z < 256"
  shows "b64_digits (x * 65536 + y * 256 + z) =
    [x div 4, 16 * (x mod 4) + y div 16, 4 * (y mod 16) + z div 64, z mod 64]"
proof -
  have n: "x * 65536 + y * 256 + z = (x div 4) * 262144 + (16 * (x mod 4) + y div 16) * 4096
      + (4 * (y mod 16) + z div 64) * 64 + z mod 64"
    using div_mult_mod_eq [of x 4] div_mult_mod_eq [of y 16] div_mult_mod_eq [of z 64]
    unfolding distrib_left distrib_right by linarith
  have r: "0 \<le> x mod 4" "x mod 4 < 4" "0 \<le> y mod 16" "y mod 16 < 16" "0 \<le> z mod 64" "z mod 64 < 64"
    by simp_all
  have q: "0 \<le> y div 16" "y div 16 < 16" "0 \<le> z div 64" "z div 64 < 4"
    using assms by (simp_all add: div_less_iff_less_mult pos_imp_zdiv_nonneg_iff)
  show ?thesis
    unfolding n by (rule b64_digits_value) (use r q in linarith)+
qed

text \<open>The index expressions of \<open>write_base64\<close> are the digits.\<close>

lemma index_exprs:
  fixes x y z :: int
  assumes "0 \<le> x" "x < 256" "0 \<le> y" "y < 256" "0 \<le> z" "z < 256"
  shows "[drop_bit 2 x, (push_bit 4 x AND 63) OR drop_bit 4 y,
          (push_bit 2 y AND 63) OR drop_bit 6 z, z AND 63]
         = b64_digits (x * 65536 + y * 256 + z)"
proof -
  have 1: "(push_bit 4 x AND 63) OR drop_bit 4 y = (x * 16) mod 64 + y div 16"
    using shift_mask_or [of "y div 16" 4 x] assms by (simp add: drop_bit_eq_div)
  have 2: "(push_bit 2 y AND 63) OR drop_bit 6 z = (y * 4) mod 64 + z div 64"
    using shift_mask_or [of "z div 64" 2 y] assms by (simp add: drop_bit_eq_div)
  have "(x * 16) mod 64 = 16 * (x mod 4)" "(y * 4) mod 64 = 4 * (y mod 16)"
    using mult_mod_right [of 16 x 4] mult_mod_right [of 4 y 16] by (simp_all add: mult.commute)
  then show ?thesis
    unfolding 1 2 b64_digits_bytes [OF assms(3-6)] by (simp add: drop_bit_eq_div and_63)
qed

lemma index_exprs2:
  "[drop_bit 2 (uint (a::byte)), (push_bit 4 (uint a) AND 63) OR drop_bit 4 (uint (b::byte)),
    push_bit 2 (uint b) AND 63] = take 3 (b64_digits (uint a * 65536 + uint b * 256))"
  using index_exprs [of "uint a" "uint b" 0] uint_byte_bounds [of a] uint_byte_bounds [of b]
  by (simp add: b64_digits_def)

lemma index_exprs1:
  "[drop_bit 2 (uint (a::byte)), push_bit 4 (uint a) AND 63]
     = take 2 (b64_digits (uint a * 65536))"
  using index_exprs [of "uint a" 0 0] uint_byte_bounds [of a] by (simp add: b64_digits_def)

lemma index_exprs3:
  "[drop_bit 2 (uint (a::byte)), (push_bit 4 (uint a) AND 63) OR drop_bit 4 (uint (b::byte)),
    (push_bit 2 (uint b) AND 63) OR drop_bit 6 (uint (c::byte)), uint c AND 63]
     = b64_digits (uint a * 65536 + uint b * 256 + uint c)"
  by (rule index_exprs) (simp_all add: uint_byte_bounds)

lemma write_base64_loop_append:
  "write_base64_loop bs obf out = out @ map byte_sym (obf @ b64_encode bs)"
proof (induction bs obf out rule: write_base64_loop.induct)
  case (2 b0 obf out)
  have "map i2c (take 2 (b64_digits (uint b0 * 65536)))
      = [i2c (drop_bit 2 (uint b0)), i2c (push_bit 4 (uint b0) AND 63)]"
    by (simp flip: index_exprs1)
  with 2 show ?case by (simp add: obf_flush_def take_map Let_def)
next
  case (3 b0 b1 obf out)
  have "map i2c (take 3 (b64_digits (uint b0 * 65536 + uint b1 * 256)))
      = [i2c (drop_bit 2 (uint b0)), i2c ((push_bit 4 (uint b0) AND 63) OR drop_bit 4 (uint b1)),
         i2c (push_bit 2 (uint b1) AND 63)]"
    by (simp flip: index_exprs2)
  with 3 show ?case by (simp add: obf_flush_def take_map Let_def)
next
  case (4 b0 b1 b2 bs obf out)
  then show ?case by (simp add: obf_flush_def Let_def flip: index_exprs3)
qed simp

lemma write_base64_append [append_form]:
  "fst (write_base64 out bs) = out @ map byte_sym (b64_encode bs)"
  by (simp add: write_base64_def write_base64_loop_append)

lemma length_b64_encode: "length (b64_encode bs) = ((length bs + 2) div 3) * 4"
proof (induction bs rule: b64_encode.induct)
  case (4 b0 b1 b2 bs)
  then show ?case by (simp add: b64_digits_def) presburger
qed (simp_all add: b64_digits_def)

lemma b64_encode_append:
  "length xs mod 3 = 0 \<Longrightarrow> b64_encode (xs @ ys) = b64_encode xs @ b64_encode ys"
  by (induction xs rule: b64_encode.induct) auto

section \<open>Decoding what was encoded\<close>

lemma byte_sym_PAD [simp]: "byte_sym PAD = 61"
  by (simp add: PAD_def byte_sym_def)

lemma int2char_eval:
  "int2char = map word_of_int
    ([65..90] @ [97..122] @ [48..57] @ [43, 47])"
  by (simp add: int2char_def upto.simps)

lemma c2i_table:
  "map (\<lambda>b. c2i (byte_sym b)) int2char = map Some [0..63]"
  by (simp add: int2char_eval upto.simps c2i_def byte_sym_def char2int_def)

lemma c2i_i2c [simp]:
  assumes "0 \<le> i" "i < 64"
  shows "c2i (byte_sym (i2c i)) = Some i"
proof -
  have l: "length int2char = 64" by (simp add: int2char_def)
  have "map (\<lambda>b. c2i (byte_sym b)) int2char ! nat i = map Some [0..63] ! nat i"
    by (simp only: c2i_table)
  then show ?thesis using assms l by (simp add: i2c_def)
qed

lemma byte_sym_i2c_pad [simp]: "0 \<le> i \<Longrightarrow> i < 64 \<Longrightarrow> byte_sym (i2c i) \<noteq> 61"
proof
  assume "0 \<le> i" "i < 64" and eq: "byte_sym (i2c i) = 61"
  then have "c2i 61 = Some i" using c2i_i2c [of i] by simp
  then show False by (simp add: c2i_def char2int_def)
qed

lemma sym_byte_mod: "sym_byte (x mod 256) = sym_byte x"
proof -
  have "sym_byte (take_bit 8 x) = sym_byte x"
    unfolding sym_byte_def by (simp add: word_of_int_eq_iff)
  then show ?thesis by (simp add: take_bit_eq_mod)
qed

lemma sym_byte_eqI: "x mod 256 = uint b \<Longrightarrow> sym_byte x = b"
  by (metis sym_byte_mod sym_byte_inverse byte_sym_def)

lemma decode_exprs:
  fixes a b c :: byte
  assumes "b64_digits (uint a * 65536 + uint b * 256 + uint c) = [n0, n1, n2, n3]"
  shows "sym_byte (push_bit 2 n0 OR drop_bit 4 n1) = a"
    "sym_byte (push_bit 4 n1 OR drop_bit 2 n2) = b"
    "sym_byte (push_bit 6 n2 OR n3) = c"
    "0 \<le> n0" "n0 < 64" "0 \<le> n1" "n1 < 64" "0 \<le> n2" "n2 < 64" "0 \<le> n3" "n3 < 64"
proof -
  let ?x = "uint a" let ?y = "uint b" let ?z = "uint c"
  have r: "0 \<le> ?x" "?x < 256" "0 \<le> ?y" "?y < 256" "0 \<le> ?z" "?z < 256"
    by (simp_all add: uint_byte_bounds)
  have n: "n0 = ?x div 4" "n1 = 16 * (?x mod 4) + ?y div 16" "n2 = 4 * (?y mod 16) + ?z div 64"
    "n3 = ?z mod 64"
    using assms r by (simp_all add: b64_digits_bytes)
  have m: "0 \<le> ?x mod 4" "?x mod 4 < 4" "0 \<le> ?y mod 16" "?y mod 16 < 16"
    "0 \<le> ?z mod 64" "?z mod 64 < 64"
    by simp_all
  have q: "0 \<le> ?x div 4" "?x div 4 < 64" "0 \<le> ?y div 16" "?y div 16 < 16"
    "0 \<le> ?z div 64" "?z div 64 < 4"
    using r by (simp_all add: div_less_iff_less_mult pos_imp_zdiv_nonneg_iff)
  show b: "0 \<le> n0" "n0 < 64" "0 \<le> n1" "n1 < 64" "0 \<le> n2" "n2 < 64" "0 \<le> n3" "n3 < 64"
    unfolding n using m q by linarith+
  have d: "n1 div 16 = ?x mod 4" "n2 div 4 = ?y mod 16"
    unfolding n using m q by (simp_all add: div_pos_pos_trivial)
  have o: "push_bit 2 n0 OR drop_bit 4 n1 = n0 * 4 + n1 div 16"
    "push_bit 4 n1 OR drop_bit 2 n2 = n1 * 16 + n2 div 4"
    "push_bit 6 n2 OR n3 = n2 * 64 + n3"
    using or_shift_add [of "n1 div 16" 2 n0] or_shift_add [of "n2 div 4" 4 n1]
      or_shift_add [of n3 6 n2] b m unfolding d by (simp_all add: drop_bit_eq_div d)
  have "n0 * 4 + n1 div 16 = ?x" unfolding d unfolding n by simp
  moreover have "n1 * 16 + n2 div 4 = ?x mod 4 * 256 + ?y"
    unfolding d unfolding n using div_mult_mod_eq [of ?y 16] by simp
  moreover have "n2 * 64 + n3 = ?y mod 16 * 256 + ?z"
    unfolding n using div_mult_mod_eq [of ?z 64] by simp
  ultimately show "sym_byte (push_bit 2 n0 OR drop_bit 4 n1) = a"
    "sym_byte (push_bit 4 n1 OR drop_bit 2 n2) = b" "sym_byte (push_bit 6 n2 OR n3) = c"
    unfolding o using r by (simp_all add: sym_byte_eqI)
qed

lemma b64_digits_four: "\<exists>n0 n1 n2 n3. b64_digits n = [n0, n1, n2, n3]"
  by (simp add: b64_digits_def)

text \<open>The part of the data that a buffer of \<open>n\<close> bytes can take: whole groups of three.\<close>

lemma read_loop_group:
  assumes "length buf + 3 \<le> n"
  shows "read_base64_loop n buf (map byte_sym (b64_encode (a # b # c # bs)) @ rest)
    = read_base64_loop n (buf @ [a, b, c]) (map byte_sym (b64_encode bs) @ rest)"
proof -
  obtain n0 n1 n2 n3 where d: "b64_digits (uint a * 65536 + uint b * 256 + uint c) = [n0, n1, n2, n3]"
    using b64_digits_four by blast
  from decode_exprs [OF d] d assms show ?thesis
    by (subst read_base64_loop.simps) (simp add: Let_def)
qed

lemma read_loop_two:
  assumes "length buf + 3 \<le> n"
  shows "read_base64_loop n buf (map byte_sym (b64_encode [a, b]) @ rest) = Inr (buf @ [a, b], rest)"
proof -
  obtain n0 n1 n2 n3 where d: "b64_digits (uint a * 65536 + uint b * 256 + uint (0::byte)) = [n0, n1, n2, n3]"
    using b64_digits_four by blast
  from decode_exprs [OF d] d assms show ?thesis
    by (subst read_base64_loop.simps) (simp add: Let_def)
qed

lemma read_loop_one:
  assumes "length buf + 3 \<le> n"
  shows "read_base64_loop n buf (map byte_sym (b64_encode [a]) @ rest) = Inr (buf @ [a], rest)"
proof -
  obtain n0 n1 n2 n3 where d: "b64_digits (uint a * 65536 + uint (0::byte) * 256 + uint (0::byte)) = [n0, n1, n2, n3]"
    using b64_digits_four by blast
  from decode_exprs [OF d] d assms show ?thesis
    by (subst read_base64_loop.simps) (simp add: Let_def)
qed

lemma read_loop_stop:
  "c2i (peek_stream inp) = None \<or> n < length buf + 3 \<Longrightarrow> read_base64_loop n buf inp = Inr (buf, inp)"
  by (subst read_base64_loop.simps) auto

lemma read_loop_encoded:
  assumes "c2i (peek_stream rest) = None"
  shows "read_base64_loop n buf (map byte_sym (b64_encode bs) @ rest) =
    (let k = 3 * ((n - length buf) div 3)
     in Inr (buf @ take k bs, map byte_sym (b64_encode (drop k bs)) @ rest))"
proof (induction bs arbitrary: buf rule: b64_encode.induct)
  case 1
  with assms show ?case by (simp add: read_loop_stop Let_def)
next
  case (2 b0)
  show ?case
  proof (cases "length buf + 3 \<le> n")
    case True
    then have "3 \<le> n - length buf" by simp
    then obtain j where "3 * ((n - length buf) div 3) = Suc j"
      by (cases "(n - length buf) div 3") auto
    with True show ?thesis using read_loop_one [OF True, of b0 rest] by (simp add: Let_def)
  next
    case False
    then have "(n - length buf) div 3 = 0" by simp
    with False show ?thesis
      by (simp add: read_loop_stop Let_def del: b64_encode.simps)
  qed
next
  case (3 b0 b1)
  show ?case
  proof (cases "length buf + 3 \<le> n")
    case True
    then have "3 \<le> n - length buf" by simp
    then obtain j where "3 * ((n - length buf) div 3) = Suc (Suc j)"
      by (cases "(n - length buf) div 3") auto
    with True show ?thesis using read_loop_two [OF True, of b0 b1 rest] by (simp add: Let_def)
  next
    case False
    then have "(n - length buf) div 3 = 0" by simp
    with False show ?thesis
      by (simp add: read_loop_stop Let_def del: b64_encode.simps)
  qed
next
  case (4 b0 b1 b2 bs)
  show ?case
  proof (cases "length buf + 3 \<le> n")
    case True
    then have "n - length buf = 3 + (n - length (buf @ [b0, b1, b2]))" by simp
    then have k: "(n - length buf) div 3 = Suc ((n - length (buf @ [b0, b1, b2])) div 3)"
      by (simp only: div_add_self1)
    have td: "take (3 * Suc j) (b0 # b1 # b2 # bs) = b0 # b1 # b2 # take (3 * j) bs"
      "drop (3 * Suc j) (b0 # b1 # b2 # bs) = drop (3 * j) bs" for j
      by (simp_all add: numeral_3_eq_3)
    show ?thesis
      using 4 [of "buf @ [b0, b1, b2]"] read_loop_group [OF True, of b0 b1 b2 bs rest]
      by (simp only: k Let_def td append_assoc append_Cons append_Nil)
  next
    case False
    then have "(n - length buf) div 3 = 0" by simp
    with False show ?thesis
      by (simp add: read_loop_stop Let_def del: b64_encode.simps)
  qed
qed

lemma read_base64_encoded:
  assumes "c2i (peek_stream rest) = None"
  shows "read_base64 (map byte_sym (b64_encode bs) @ rest) n =
    Inr (take (3 * (n div 3)) bs, map byte_sym (b64_encode (drop (3 * (n div 3)) bs)) @ rest)"
  using read_loop_encoded [OF assms, of n "[]" bs] by (simp add: read_base64_def Let_def)

section \<open>Properties\<close>



end
