(* ===== verification/JsonWrite.thy ===== *)
theory JsonWrite
  imports Base64
begin

text \<open>
  Writing JSON: the first half of src/agent/tcf/framework/json.c. Every writer takes the
  stream written so far and returns the longer one; the lemmas collected in \<open>append_form\<close> say
  that each appends an encoding of its argument.

  \<open>unsigned long\<close>, \<open>long\<close>, \<open>uint64_t\<close> and \<open>int64_t\<close> are 64 bit words (the LP64 model of the
  Linux hosts); a signed value is the word that represents it in two's complement.
  \<open>json_write_double\<close> is not modelled (floating point formatting).
\<close>

unbundle bit_operations_syntax

section \<open>Numbers and booleans\<close>

lemma unat_div_10: "unat ((n :: u64) div 10) = unat n div 10"
  by (simp add: unat_div)

function json_write_ulong :: "ostream \<Rightarrow> u64 \<Rightarrow> ostream" where
  "json_write_ulong out n =
     (if n \<ge> 10
      then write_stream (json_write_ulong out (n div 10)) (uint (n mod 10) + chr CHR ''0'')
      else write_stream out (uint n + chr CHR ''0''))"
  by pat_completeness auto
termination
  by (relation "measure (\<lambda>(out, n). unat n)") (auto simp: unat_div word_le_nat_alt)

declare json_write_ulong.simps [simp del]

definition json_write_long :: "ostream \<Rightarrow> u64 \<Rightarrow> ostream" where
  "json_write_long out n =
     (if sint n < 0
      then json_write_ulong (write_stream out (chr CHR ''-'')) (NOT n + 1)
      else json_write_ulong out n)"

function json_write_uint64 :: "ostream \<Rightarrow> u64 \<Rightarrow> ostream" where
  "json_write_uint64 out n =
     (if n \<ge> 10
      then write_stream (json_write_uint64 out (n div 10)) (uint (n mod 10) + chr CHR ''0'')
      else write_stream out (uint n + chr CHR ''0''))"
  by pat_completeness auto
termination
  by (relation "measure (\<lambda>(out, n). unat n)") (auto simp: unat_div word_le_nat_alt)

declare json_write_uint64.simps [simp del]

definition json_write_int64 :: "ostream \<Rightarrow> u64 \<Rightarrow> ostream" where
  "json_write_int64 out n =
     (if sint n < 0
      then json_write_uint64 (write_stream out (chr CHR ''-'')) (NOT n + 1)
      else json_write_uint64 out n)"

text \<open>\<open>write_string\<close> of streams.c on the abstract stream, for the literals of json.c.\<close>

definition write_lit :: "ostream \<Rightarrow> string \<Rightarrow> ostream" where
  "write_lit out str = out @ map chr str"

definition json_write_boolean :: "ostream \<Rightarrow> bool \<Rightarrow> ostream" where
  "json_write_boolean out b = (if b then write_lit out ''true'' else write_lit out ''false'')"

section \<open>Strings\<close>

text \<open>
  The table \<open>char_escaping\<close>, run length encoded: ones for the control characters 0..31, for
  the quote (34), the backslash (92) and for DEL (127).
\<close>

definition char_escaping :: "nat list" where
  "char_escaping =
     replicate 32 1 @ [0, 0, 1] @ replicate 57 0 @ [1] @ replicate 34 0 @ [1] @ replicate 128 0"

definition needs_escape :: "byte \<Rightarrow> bool" where
  "needs_escape ch \<longleftrightarrow> char_escaping ! unat ch \<noteq> 0"

definition hex_digit :: "int \<Rightarrow> sym" where
  "hex_digit n0 =
     (let n = n0 AND 0xf
      in if n < 10 then chr CHR ''0'' + n else chr CHR ''A'' + (n - 10))"

definition write_escape_seq :: "ostream \<Rightarrow> byte \<Rightarrow> ostream" where
  "write_escape_seq out ch =
     (let n = byte_sym ch; o1 = write_stream out (chr CHR 0x5C)
      in if n = chr CHR 0x22 \<or> n = chr CHR 0x5C then write_stream o1 n
         else if n = 8 then write_stream o1 (chr CHR ''b'')
         else if n = 12 then write_stream o1 (chr CHR ''f'')
         else if n = 10 then write_stream o1 (chr CHR ''n'')
         else if n = 13 then write_stream o1 (chr CHR ''r'')
         else if n = 9 then write_stream o1 (chr CHR ''t'')
         else
           (let o2 = write_stream o1 (chr CHR ''u'');
                o3 = write_stream o2 (chr CHR ''0'');
                o4 = write_stream o3 (chr CHR ''0'');
                o5 = write_stream o4 (hex_digit (drop_bit 4 n))
            in write_stream o5 (hex_digit n)))"

definition json_write_char :: "ostream \<Rightarrow> byte \<Rightarrow> ostream" where
  "json_write_char out ch =
     (if needs_escape ch then write_escape_seq out ch else write_stream out (byte_sym ch))"

text \<open>
  A run of characters that need no escaping is written as a block, whether it fits into
  the output window (\<open>memcpy\<close> to \<open>cur\<close>) or not (\<open>write_block\<close>). A byte 0 in the list ends the
  C string.
\<close>

function json_write_string_loop :: "ostream \<Rightarrow> byte list \<Rightarrow> ostream" where
  "json_write_string_loop out str =
     (let run = takeWhile (\<lambda>c. \<not> needs_escape c) str;
          str1 = dropWhile (\<lambda>c. \<not> needs_escape c) str;
          out1 = (if run \<noteq> [] then write_block_stream out run else out)
      in case str1 of
           [] \<Rightarrow> out1
         | c # str2 \<Rightarrow> (if c = 0 then out1 else json_write_string_loop (write_escape_seq out1 c) str2))"
  by pat_completeness auto
termination
  by (relation "measure (\<lambda>(out, str). length str)") (auto dest!: sym [THEN dropWhile_Cons_length])

declare json_write_string_loop.simps [simp del]

definition json_write_string :: "ostream \<Rightarrow> byte list option \<Rightarrow> ostream" where
  "json_write_string out str =
     (case str of
        None \<Rightarrow> write_lit out ''null''
      | Some s \<Rightarrow>
          write_stream (json_write_string_loop (write_stream out (chr CHR 0x22)) s) (chr CHR 0x22))"

function json_write_string_len_loop :: "ostream \<Rightarrow> byte list \<Rightarrow> ostream" where
  "json_write_string_len_loop out str =
     (if str = [] then out
      else
        (let run = takeWhile (\<lambda>c. \<not> needs_escape c) str;
             str1 = dropWhile (\<lambda>c. \<not> needs_escape c) str;
             out1 = (if run \<noteq> [] then write_block_stream out run else out)
         in case str1 of
              [] \<Rightarrow> out1
            | c # str2 \<Rightarrow> json_write_string_len_loop (write_escape_seq out1 c) str2))"
  by pat_completeness auto
termination
  by (relation "measure (\<lambda>(out, str). length str)") (auto dest!: sym [THEN dropWhile_Cons_length])

declare json_write_string_len_loop.simps [simp del]

definition json_write_string_len :: "ostream \<Rightarrow> byte list option \<Rightarrow> ostream" where
  "json_write_string_len out str =
     (case str of
        None \<Rightarrow> write_lit out ''null''
      | Some s \<Rightarrow>
          write_stream (json_write_string_len_loop (write_stream out (chr CHR 0x22)) s) (chr CHR 0x22))"

section \<open>Binary data\<close>

datatype encoding = ENCODING_BINARY | ENCODING_BASE64

record JsonWriteBinaryState =
  wb_out :: ostream
  wb_encoding :: encoding
  wb_size_start :: nat
  wb_size_done :: nat
  wb_rem :: "byte list"

text \<open>
  \<open>zero_copy\<close> is \<open>out->supports_zero_copy\<close>. The \<open>rem\<close> bytes kept in \<open>state->buf\<close> are the list
  \<open>wb_rem\<close>.
\<close>

definition json_write_binary_start :: "bool \<Rightarrow> ostream \<Rightarrow> nat \<Rightarrow> JsonWriteBinaryState" where
  "json_write_binary_start zero_copy out sz =
     (let enc = (if zero_copy \<and> sz > 0 then ENCODING_BINARY else ENCODING_BASE64);
          out1 =
            (if enc = ENCODING_BINARY
             then write_stream
                    (json_write_ulong (write_stream out (chr CHR ''('')) (of_nat sz)) (chr CHR '')'')
             else write_stream out (chr CHR 0x22))
      in \<lparr>wb_out = out1, wb_encoding = enc, wb_size_start = sz, wb_size_done = 0, wb_rem = []\<rparr>)"

definition json_write_binary_data :: "JsonWriteBinaryState \<Rightarrow> byte list \<Rightarrow> JsonWriteBinaryState" where
  "json_write_binary_data st data =
     (if data = [] then st
      else if wb_encoding st = ENCODING_BINARY
      then st\<lparr>wb_out := write_block_stream (wb_out st) data,
              wb_size_done := wb_size_done st + length data\<rparr>
      else
        (let k = (if wb_rem st \<noteq> [] then min (3 - length (wb_rem st)) (length data) else 0);
             rem1 = wb_rem st @ take k data;
             data1 = drop k data;
             full = (wb_rem st \<noteq> [] \<and> length rem1 \<ge> 3);
             out1 = (if full then fst (write_base64 (wb_out st) rem1) else wb_out st);
             rem2 = (if full then [] else rem1)
         in if data1 \<noteq> []
            then
              (let r = length data1 mod 3;
                   n = length data1 - r
               in st\<lparr>wb_out := fst (write_base64 out1 (take n data1)), wb_rem := drop n data1,
                     wb_size_done := wb_size_done st + n\<rparr>)
            else st\<lparr>wb_out := out1, wb_rem := rem2\<rparr>))"

text \<open>The assertion \<open>size_start == size_done\<close> of the binary encoding is the guard of \<open>Some\<close>.\<close>

definition json_write_binary_end :: "JsonWriteBinaryState \<Rightarrow> ostream option" where
  "json_write_binary_end st =
     (if wb_encoding st = ENCODING_BINARY
      then (if wb_size_start st = wb_size_done st then Some (wb_out st) else None)
      else
        (let out1 = (if wb_rem st \<noteq> [] then fst (write_base64 (wb_out st) (wb_rem st)) else wb_out st)
         in Some (write_stream out1 (chr CHR 0x22))))"

definition json_write_binary :: "bool \<Rightarrow> ostream \<Rightarrow> byte list option \<Rightarrow> ostream option" where
  "json_write_binary zero_copy out data =
     (case data of
        None \<Rightarrow> Some (write_lit out ''null'')
      | Some d \<Rightarrow>
          json_write_binary_end
            (json_write_binary_data (json_write_binary_start zero_copy out (length d)) d))"

section \<open>Writers append\<close>

subsection \<open>Numbers\<close>

text \<open>The decimal digits of a number, the most significant first.\<close>

fun decimal :: "nat \<Rightarrow> sym list" where
  "decimal n = (if n \<ge> 10 then decimal (n div 10) @ [int (n mod 10) + 48] else [int n + 48])"

declare decimal.simps [simp del]

lemma json_write_ulong_append [append_form]: "json_write_ulong out n = out @ decimal (unat n)"
proof (induction out n rule: json_write_ulong.induct)
  case (1 out n)
  show ?case
  proof (cases "n \<ge> 10")
    case True
    then have "unat n \<ge> 10" by (simp add: word_le_nat_alt)
    with 1 True show ?thesis
      by (subst json_write_ulong.simps, subst decimal.simps)
        (simp add: unat_div uint_mod zmod_int chr_def)
  next
    case False
    then have "\<not> unat n \<ge> 10" by (simp add: word_le_nat_alt)
    with False show ?thesis
      by (subst json_write_ulong.simps, subst decimal.simps) (simp add: chr_def)
  qed
qed

lemma json_write_uint64_ulong: "json_write_uint64 out n = json_write_ulong out n"
proof (induction out n rule: json_write_uint64.induct)
  case (1 out n)
  then show ?case
    by (subst json_write_uint64.simps, subst json_write_ulong.simps) simp
qed

lemma json_write_uint64_append [append_form]: "json_write_uint64 out n = out @ decimal (unat n)"
  by (simp add: json_write_uint64_ulong json_write_ulong_append)

definition sdecimal :: "u64 \<Rightarrow> sym list" where
  "sdecimal n = (if sint n < 0 then 45 # decimal (unat (- n)) else decimal (unat n))"

lemma json_write_long_append [append_form]: "json_write_long out n = out @ sdecimal n"
  by (simp add: json_write_long_def sdecimal_def json_write_ulong_append chr_def
      minus_eq_not_plus_1)

lemma json_write_int64_append [append_form]: "json_write_int64 out n = out @ sdecimal n"
  by (simp add: json_write_int64_def sdecimal_def json_write_uint64_append chr_def
      minus_eq_not_plus_1)

lemma json_write_boolean_append [append_form]:
  "json_write_boolean out b = out @ map chr (if b then ''true'' else ''false'')"
  by (simp add: json_write_boolean_def write_lit_def)

lemma decimal_digits: "\<forall>d \<in> set (decimal n). 48 \<le> d \<and> d \<le> 57"
proof (induction n rule: decimal.induct)
  case (1 n)
  then show ?case by (subst decimal.simps) auto
qed

lemma decimal_nonempty: "decimal n \<noteq> []"
  by (subst decimal.simps) simp

subsection \<open>Strings\<close>

lemma needs_escape_iff:
  "needs_escape ch \<longleftrightarrow> byte_sym ch < 32 \<or> byte_sym ch = 34 \<or> byte_sym ch = 92 \<or> byte_sym ch = 127"
proof -
  define i where "i = unat ch"
  have i: "byte_sym ch = int i" by (simp add: i_def byte_sym_def)
  then have lt: "i < 256" using byte_sym_range(2) [of ch] by simp
  have "char_escaping ! i \<noteq> 0 \<longleftrightarrow> i < 32 \<or> i = 34 \<or> i = 92 \<or> i = 127"
    using lt by (auto simp: char_escaping_def nth_append nth_Cons split: nat.splits)
  then show ?thesis by (simp add: needs_escape_def i flip: i_def)
qed

text \<open>The characters that \<open>json_write_char\<close> writes for a byte.\<close>

definition esc_seq :: "byte \<Rightarrow> sym list" where
  "esc_seq ch =
     (let n = byte_sym ch in
      92 # (if n = 34 \<or> n = 92 then [n]
            else if n = 8 then [98] else if n = 12 then [102] else if n = 10 then [110]
            else if n = 13 then [114] else if n = 9 then [116]
            else [117, 48, 48, hex_digit (n div 16), hex_digit n]))"

definition esc_char :: "byte \<Rightarrow> sym list" where
  "esc_char ch = (if needs_escape ch then esc_seq ch else [byte_sym ch])"

definition esc_string :: "byte list \<Rightarrow> sym list" where
  "esc_string s = concat (map esc_char s)"

lemma esc_string_simps [simp]:
  "esc_string [] = []" "esc_string (c # s) = esc_char c @ esc_string s"
  "esc_string (s @ t) = esc_string s @ esc_string t"
  by (simp_all add: esc_string_def)

lemma write_escape_seq_append [append_form]: "write_escape_seq out ch = out @ esc_seq ch"
  by (simp add: write_escape_seq_def esc_seq_def Let_def drop_bit_eq_div)

lemma json_write_char_append [append_form]: "json_write_char out ch = out @ esc_char ch"
  by (simp add: json_write_char_def esc_char_def append_form)

lemma esc_string_run: "\<forall>c \<in> set s. \<not> needs_escape c \<Longrightarrow> esc_string s = map byte_sym s"
  by (induction s) (auto simp: esc_char_def)

lemma esc_string_split:
  "esc_string s = map byte_sym (takeWhile (\<lambda>c. \<not> needs_escape c) s) @
     esc_string (dropWhile (\<lambda>c. \<not> needs_escape c) s)"
proof -
  let ?run = "takeWhile (\<lambda>c. \<not> needs_escape c) s"
  have "esc_string ?run = map byte_sym ?run"
    by (rule esc_string_run) (auto dest: set_takeWhileD)
  then show ?thesis by (metis takeWhile_dropWhile_id esc_string_simps(3))
qed

lemma dropWhile_escape:
  "dropWhile (\<lambda>c. \<not> needs_escape c) s = c # t \<Longrightarrow> esc_string (c # t) = esc_seq c @ esc_string t"
  using hd_dropWhile [of "\<lambda>c. \<not> needs_escape c" s] by (simp add: esc_char_def)

lemma json_write_string_len_loop_append:
  "json_write_string_len_loop out s = out @ esc_string s"
proof (induction out s rule: json_write_string_len_loop.induct)
  case (1 out s)
  let ?d = "dropWhile (\<lambda>c. \<not> needs_escape c) s"
  show ?case
  proof (cases ?d)
    case Nil
    with esc_string_split [of s] show ?thesis
      by (subst json_write_string_len_loop.simps) (simp add: Let_def del: dropWhile_eq_Nil_conv)
  next
    case (Cons c t)
    have "s \<noteq> []" using Cons by auto
    with 1 Cons esc_string_split [of s] dropWhile_escape [OF Cons] show ?thesis
      by (subst json_write_string_len_loop.simps) (auto simp: Let_def append_form)
  qed
qed

lemma json_write_string_loop_append:
  "0 \<notin> set s \<Longrightarrow> json_write_string_loop out s = out @ esc_string s"
proof (induction out s rule: json_write_string_loop.induct)
  case (1 out s)
  let ?d = "dropWhile (\<lambda>c. \<not> needs_escape c) s"
  show ?case
  proof (cases ?d)
    case Nil
    with esc_string_split [of s] show ?thesis
      by (subst json_write_string_loop.simps) (simp add: Let_def del: dropWhile_eq_Nil_conv)
  next
    case (Cons c t)
    have "c \<in> set s" "set t \<subseteq> set s"
      using Cons set_dropWhileD [of _ "\<lambda>c. \<not> needs_escape c" s] by auto
    then have "c \<noteq> 0" "0 \<notin> set t" using 1(2) by auto
    with 1(1) Cons esc_string_split [of s] dropWhile_escape [OF Cons] show ?thesis
      by (subst json_write_string_loop.simps) (auto simp: Let_def append_form)
  qed
qed

definition json_string :: "byte list \<Rightarrow> sym list" where
  "json_string s = 34 # esc_string s @ [34]"

lemma json_write_string_len_append [append_form]:
  "json_write_string_len out (Some s) = out @ json_string s"
  "json_write_string_len out None = out @ map chr ''null''"
  by (simp_all add: json_write_string_len_def json_string_def json_write_string_len_loop_append write_lit_def)

lemma json_write_string_append [append_form]:
  "0 \<notin> set s \<Longrightarrow> json_write_string out (Some s) = out @ json_string s"
  "json_write_string out None = out @ map chr ''null''"
  by (simp_all add: json_write_string_def json_string_def json_write_string_loop_append write_lit_def)

subsection \<open>Binary data, written in pieces\<close>

text \<open>
  Between calls at most two bytes wait in \<open>rem\<close>; what has been written is the encoding of
  all the data received before them.
\<close>

definition wb_inv :: "JsonWriteBinaryState \<Rightarrow> ostream \<Rightarrow> byte list \<Rightarrow> bool" where
  "wb_inv st out data \<longleftrightarrow> wb_encoding st = ENCODING_BASE64 \<and> length (wb_rem st) < 3 \<and>
     (\<exists>dn. data = dn @ wb_rem st \<and> length dn mod 3 = 0 \<and>
        wb_out st = out @ map byte_sym (b64_encode dn))"

lemma mod3_prefix:
  fixes xs :: "'a list"
  defines "n \<equiv> length xs - length xs mod 3"
  shows "n \<le> length xs" "n mod 3 = 0" "length (drop n xs) < 3"
  unfolding n_def by (simp_all add: minus_mod_eq_mult_div)

text \<open>In BASE64 mode a call writes as many whole groups as \<open>rem\<close> and the new data make.\<close>

lemma json_write_binary_data_base64:
  fixes d :: "byte list"
  assumes enc: "wb_encoding st = ENCODING_BASE64" and rem: "length (wb_rem st) < 3"
  defines "xs \<equiv> wb_rem st @ d"
  defines "n \<equiv> length xs - length xs mod 3"
  shows "wb_encoding (json_write_binary_data st d) = ENCODING_BASE64"
    "wb_out (json_write_binary_data st d) = wb_out st @ map byte_sym (b64_encode (take n xs))"
    "wb_rem (json_write_binary_data st d) = drop n xs"
proof -
  show "wb_encoding (json_write_binary_data st d) = ENCODING_BASE64"
    using enc by (simp add: json_write_binary_data_def Let_def)
  consider (nodata) "d = []" | (fresh) "d \<noteq> []" "wb_rem st = []"
    | (short) "d \<noteq> []" "wb_rem st \<noteq> []" "length xs < 3"
    | (fill) "d \<noteq> []" "wb_rem st \<noteq> []" "3 \<le> length xs" by linarith
  then have "wb_out (json_write_binary_data st d) = wb_out st @ map byte_sym (b64_encode (take n xs))
      \<and> wb_rem (json_write_binary_data st d) = drop n xs"
  proof cases
    case nodata
    with rem show ?thesis by (simp add: json_write_binary_data_def xs_def n_def)
  next
    case fresh
    with enc show ?thesis
      by (simp add: json_write_binary_data_def xs_def n_def Let_def write_base64_append)
  next
    case short
    then have "n = 0" by (simp add: n_def)
    with short enc show ?thesis
      by (simp add: json_write_binary_data_def Let_def min_def xs_def)
  next
    case fill
    define k where "k = 3 - length (wb_rem st)"
    have k: "min (3 - length (wb_rem st)) (length d) = k" "length (wb_rem st @ take k d) = 3"
      using fill(3) rem by (simp_all add: k_def xs_def)
    define ys zs m where "ys = wb_rem st @ take k d" and "zs = drop k d"
      and "m = length zs - length zs mod 3"
    have ys: "length ys = 3" using k(2) by (simp add: ys_def)
    have xs: "xs = ys @ zs" by (simp add: xs_def ys_def zs_def)
    have n: "n = 3 + m" by (simp add: n_def xs ys m_def)
    have tk: "take n xs = ys @ take m zs" and dr: "drop n xs = drop m zs"
      by (simp_all add: xs n ys)
    have e: "b64_encode (take n xs) = b64_encode ys @ b64_encode (take m zs)"
      unfolding tk by (rule b64_encode_append) (simp add: ys)
    have "json_write_binary_data st d =
        (if zs \<noteq> []
         then st\<lparr>wb_out := wb_out st @ map byte_sym (b64_encode ys) @ map byte_sym (b64_encode (take m zs)),
                 wb_rem := drop m zs, wb_size_done := wb_size_done st + m\<rparr>
         else st\<lparr>wb_out := wb_out st @ map byte_sym (b64_encode ys), wb_rem := []\<rparr>)"
      using fill(1,2) enc k(1) ys
      by (simp add: json_write_binary_data_def Let_def write_base64_append del: drop_eq_Nil
          flip: ys_def zs_def m_def)
    then show ?thesis unfolding e dr by simp
  qed
  then show "wb_out (json_write_binary_data st d) = wb_out st @ map byte_sym (b64_encode (take n xs))"
    "wb_rem (json_write_binary_data st d) = drop n xs" by simp_all
qed

lemma wb_inv_data:
  assumes "wb_inv st out data"
  shows "wb_inv (json_write_binary_data st d) out (data @ d)"
proof -
  obtain dn where st: "wb_encoding st = ENCODING_BASE64" "length (wb_rem st) < 3"
      "data = dn @ wb_rem st" "length dn mod 3 = 0"
      "wb_out st = out @ map byte_sym (b64_encode dn)"
    using assms by (auto simp: wb_inv_def)
  define xs n where "xs = wb_rem st @ d" and "n = length xs - length xs mod 3"
  note new = json_write_binary_data_base64 [OF st(1,2), of d, folded xs_def, folded n_def]
  note pre = mod3_prefix [of xs, folded n_def]
  have "data @ d = (dn @ take n xs) @ drop n xs"
    by (simp only: append_assoc append_take_drop_id st(3) xs_def)
  moreover have "length (dn @ take n xs) mod 3 = 0"
    using st(4) pre(1,2) by (simp add: min_absorb2) presburger
  moreover have "wb_out (json_write_binary_data st d) = out @ map byte_sym (b64_encode (dn @ take n xs))"
    unfolding new(2) st(5) b64_encode_append [OF st(4)] by simp
  ultimately show ?thesis
    unfolding wb_inv_def new(1,3) using pre(3)
    by (intro conjI exI [of _ "dn @ take n xs"]) (rule refl | assumption)+
qed

lemma wb_inv_fold:
  "wb_inv st out data \<Longrightarrow>
     wb_inv (fold (\<lambda>d st. json_write_binary_data st d) ds st) out (data @ concat ds)"
proof (induction ds arbitrary: st data)
  case Nil
  then show ?case by simp
next
  case (Cons d ds)
  from wb_inv_data [OF Cons.prems] Cons.IH [of _ "data @ d"] show ?case by simp
qed

lemma wb_inv_end:
  assumes "wb_inv st out data"
  shows "json_write_binary_end st = Some (out @ map byte_sym (b64_encode data) @ [34])"
  using assms
  by (auto simp: wb_inv_def json_write_binary_end_def write_base64_append b64_encode_append)

lemma wb_inv_start:
  "\<not> (zc \<and> sz > 0) \<Longrightarrow> wb_inv (json_write_binary_start zc out sz) (out @ [34]) []"
  by (auto simp: wb_inv_def json_write_binary_start_def Let_def)

lemma json_write_binary_fold_bin:
  assumes "wb_encoding st = ENCODING_BINARY"
  shows "fold (\<lambda>d st. json_write_binary_data st d) ds st =
    st\<lparr>wb_out := wb_out st @ map byte_sym (concat ds),
       wb_size_done := wb_size_done st + length (concat ds)\<rparr>"
  using assms
proof (induction ds arbitrary: st)
  case Nil
  then show ?case by simp
next
  case (Cons d ds)
  then show ?case by (simp add: json_write_binary_data_def add.assoc)
qed

text \<open>The text of binary data in a message, in either encoding.\<close>

definition json_binary :: "bool \<Rightarrow> byte list \<Rightarrow> sym list" where
  "json_binary zero_copy data =
     (if zero_copy \<and> data \<noteq> []
      then 40 # decimal (unat (of_nat (length data) :: u64)) @ 41 # map byte_sym data
      else 34 # map byte_sym (b64_encode data) @ [34])"

lemma json_write_binary_pieces:
  "json_write_binary_end
     (fold (\<lambda>d st. json_write_binary_data st d) ds (json_write_binary_start zc out (length (concat ds))))
   = Some (out @ json_binary zc (concat ds))"
proof (cases "zc \<and> concat ds \<noteq> []")
  case True
  then have "wb_encoding (json_write_binary_start zc out (length (concat ds))) = ENCODING_BINARY"
    by (simp add: json_write_binary_start_def Let_def)
  with True show ?thesis
    by (simp add: json_write_binary_fold_bin json_binary_def)
      (simp add: json_write_binary_start_def json_write_binary_end_def json_write_ulong_append
        Let_def chr_def)
next
  case False
  then have "\<not> (zc \<and> length (concat ds) > 0)" by simp
  from wb_inv_end [OF wb_inv_fold [OF wb_inv_start [OF this]]] False show ?thesis
    by (auto simp: json_binary_def)
qed

lemma json_write_binary_append [append_form]:
  "json_write_binary zc out (Some d) = Some (out @ json_binary zc d)"
  using json_write_binary_pieces [of "[d]" zc out] by (simp add: json_write_binary_def)

end
