(* ===== verification/JsonRead.thy ===== *)
theory JsonRead
  imports JsonWrite
begin

text \<open>
  Reading JSON: the second half of src/agent/tcf/framework/json.c. A reader takes the symbols
  still to be read and returns an error (\<open>exception\<close>) or a value with the symbols left.
  The static buffer \<open>tmp_buf\<close>, which grows as needed, is the list of the bytes stored in it;
  signed overflow in \<open>json_read_long\<close> and \<open>json_read_int64\<close> (undefined in C) is the
  wrap-around of the machine. \<open>json_read_double\<close> is not modelled (floating point parsing).
\<close>

unbundle bit_operations_syntax

section \<open>White space and single characters\<close>

definition isspace :: "sym \<Rightarrow> bool" where
  "isspace c \<longleftrightarrow> c = 32 \<or> (9 \<le> c \<and> c \<le> 13)"

fun read_no_whitespace :: "istream \<Rightarrow> sym \<times> istream" where
  "read_no_whitespace [] = (MARKER_EOS, [])"
| "read_no_whitespace (c # inp) = (if c > 0 \<and> isspace c then read_no_whitespace inp else (c, inp))"

fun skip_whitespace :: "istream \<Rightarrow> istream" where
  "skip_whitespace [] = []"
| "skip_whitespace (c # inp) = (if c > 0 \<and> isspace c then skip_whitespace inp else c # inp)"

definition json_peek :: "istream \<Rightarrow> sym \<times> istream" where
  "json_peek inp = (let inp1 = skip_whitespace inp in (peek_stream inp1, inp1))"

definition check_char :: "sym \<Rightarrow> sym \<Rightarrow> unit result" where
  "check_char ch ex = (if ex = ch then Inr () else Inl ERR_JSON_SYNTAX)"

definition json_test_char :: "istream \<Rightarrow> sym \<Rightarrow> istream result" where
  "json_test_char inp x =
     (let inp1 = (if x \<in> {chr CHR '':'', chr CHR '','', chr CHR ''{'', chr CHR ''}'',
                          chr CHR ''['', chr CHR '']'', MARKER_EOA}
                  then skip_whitespace inp else inp);
          (ch, inp2) = read_stream inp1
      in bindE (check_char ch x) (\<lambda>_. Inr inp2))"

text \<open>The runs of \<open>json_test_char\<close> that read the rest of a literal such as \<open>null\<close>.\<close>

fun json_test_chars :: "istream \<Rightarrow> string \<Rightarrow> istream result" where
  "json_test_chars inp [] = Inr inp"
| "json_test_chars inp (c # cs) = bindE (json_test_char inp (chr c)) (\<lambda>inp1. json_test_chars inp1 cs)"

section \<open>Strings\<close>

definition read_hex_digit :: "istream \<Rightarrow> (int \<times> istream) result" where
  "read_hex_digit inp =
     (let (ch, inp1) = read_stream inp in
      if chr CHR ''0'' \<le> ch \<and> ch \<le> chr CHR ''9'' then Inr (ch - chr CHR ''0'', inp1)
      else if chr CHR ''A'' \<le> ch \<and> ch \<le> chr CHR ''F'' then Inr (ch - chr CHR ''A'' + 10, inp1)
      else if chr CHR ''a'' \<le> ch \<and> ch \<le> chr CHR ''f'' then Inr (ch - chr CHR ''a'' + 10, inp1)
      else Inl ERR_JSON_SYNTAX)"

definition read_hex_char :: "istream \<Rightarrow> (int \<times> istream) result" where
  "read_hex_char inp =
     bindE (read_hex_digit inp) (\<lambda>(d0, inp).
     bindE (read_hex_digit inp) (\<lambda>(d1, inp).
     bindE (read_hex_digit inp) (\<lambda>(d2, inp).
     bindE (read_hex_digit inp) (\<lambda>(d3, inp).
       Inr (push_bit 12 d0 OR push_bit 8 d1 OR push_bit 4 d2 OR d3, inp)))))"

text \<open>The conversion of a character code to its UTF-8 bytes.\<close>

definition utf8_bytes :: "int \<Rightarrow> byte list" where
  "utf8_bytes ch =
     (if ch < 0x80 then [sym_byte ch]
      else if ch < 0x800
      then [sym_byte (drop_bit 6 ch OR 0xc0), sym_byte ((ch AND 0x3f) OR 0x80)]
      else [sym_byte (drop_bit 12 ch OR 0xe0), sym_byte ((drop_bit 6 ch AND 0x3f) OR 0x80),
            sym_byte ((ch AND 0x3f) OR 0x80)])"

definition read_esc_char :: "istream \<Rightarrow> (byte list \<times> istream) result" where
  "read_esc_char inp =
     (let (ch, inp1) = read_stream inp;
          code =
            (if ch = chr CHR 0x22 \<or> ch = chr CHR 0x5C \<or> ch = chr CHR ''/'' then Inr (ch, inp1)
             else if ch = chr CHR ''b'' then Inr (8, inp1)
             else if ch = chr CHR ''f'' then Inr (12, inp1)
             else if ch = chr CHR ''n'' then Inr (10, inp1)
             else if ch = chr CHR ''r'' then Inr (13, inp1)
             else if ch = chr CHR ''t'' then Inr (9, inp1)
             else if ch = chr CHR ''u'' then read_hex_char inp1
             else Inl ERR_JSON_SYNTAX)
      in bindE code (\<lambda>(c, inp2). Inr (utf8_bytes c, inp2)))"

lemma read_hex_digit_length: "read_hex_digit inp = Inr (d, inp') \<Longrightarrow> length inp' \<le> length inp"
  by (cases inp) (auto simp: read_hex_digit_def split: if_splits)

lemma read_hex_char_length: "read_hex_char inp = Inr (d, inp') \<Longrightarrow> length inp' \<le> length inp"
  by (auto simp: read_hex_char_def bindE_Inr_iff dest!: read_hex_digit_length)

lemma read_esc_char_length: "read_esc_char inp = Inr (u, inp') \<Longrightarrow> length inp' \<le> length inp"
  by (cases inp)
    (auto simp: read_esc_char_def bindE_Inr_iff Let_def split: if_splits dest!: read_hex_char_length)

text \<open>
  The characters of a string up to the closing quote, appended to \<open>tmp_buf\<close>: the loop that
  \<open>json_read_alloc_string\<close> and \<open>json_read_alloc_string_array\<close> share.
\<close>

function read_string_chars :: "byte list \<Rightarrow> istream \<Rightarrow> (byte list \<times> istream) result" where
  "read_string_chars tmp inp =
     (case inp of
        [] \<Rightarrow> Inl ERR_JSON_SYNTAX
      | ch # inp1 \<Rightarrow>
          (if ch < 0 then Inl ERR_JSON_SYNTAX
           else if ch = chr CHR 0x22 then Inr (tmp, inp1)
           else if ch = chr CHR 0x5C
           then bindE (read_esc_char inp1) (\<lambda>(utf8, inp2). read_string_chars (tmp @ utf8) inp2)
           else read_string_chars (tmp @ [sym_byte ch]) inp1))"
  by pat_completeness auto
termination
  by (relation "measure (\<lambda>(tmp, inp). length inp)") (auto dest!: read_esc_char_length)

declare read_string_chars.simps [simp del]

definition json_read_alloc_string :: "istream \<Rightarrow> (byte list option \<times> istream) result" where
  "json_read_alloc_string inp =
     (let (ch, inp1) = read_no_whitespace inp in
      if ch = chr CHR ''n'' then bindE (json_test_chars inp1 ''ull'') (\<lambda>inp2. Inr (None, inp2))
      else if ch \<noteq> chr CHR 0x22 then Inl ERR_PROTOCOL
      else bindE (read_string_chars [] inp1) (\<lambda>(s, inp2). Inr (Some s, inp2)))"

text \<open>
  \<open>json_read_string\<close> stores into a buffer of \<open>sz\<close> bytes: characters beyond \<open>sz - 1\<close> are counted
  but dropped. \<open>str\<close> holds the bytes stored, without the terminating zero. A buffer has
  room for that zero: \<open>sz\<close> is positive.
\<close>

fun str_store :: "nat \<Rightarrow> nat \<times> byte list \<Rightarrow> byte list \<Rightarrow> nat \<times> byte list" where
  "str_store sz (i, str) [] = (i, str)"
| "str_store sz (i, str) (c # cs) =
     str_store sz (Suc i, if i < sz - 1 then str @ [c] else str) cs"

function json_read_string_loop ::
  "nat \<Rightarrow> nat \<times> byte list \<Rightarrow> istream \<Rightarrow> ((nat \<times> byte list) \<times> istream) result" where
  "json_read_string_loop sz st inp =
     (case inp of
        [] \<Rightarrow> Inl ERR_JSON_SYNTAX
      | ch # inp1 \<Rightarrow>
          (if ch < 0 then Inl ERR_JSON_SYNTAX
           else if ch = chr CHR 0x22 then Inr (st, inp1)
           else if ch = chr CHR 0x5C
           then bindE (read_esc_char inp1) (\<lambda>(utf8, inp2).
                  json_read_string_loop sz (str_store sz st utf8) inp2)
           else json_read_string_loop sz (str_store sz st [sym_byte ch]) inp1))"
  by pat_completeness auto
termination
  by (relation "measure (\<lambda>(sz, st, inp). length inp)") (auto dest!: read_esc_char_length)

declare json_read_string_loop.simps [simp del]

definition json_read_string :: "istream \<Rightarrow> nat \<Rightarrow> (int \<times> byte list \<times> istream) result" where
  "json_read_string inp sz =
     (let (ch, inp1) = read_no_whitespace inp in
      if ch = chr CHR ''n'' then bindE (json_test_chars inp1 ''ull'') (\<lambda>inp2. Inr (-1, [], inp2))
      else if ch \<noteq> chr CHR 0x22 then Inl ERR_PROTOCOL
      else bindE (json_read_string_loop sz (0, []) inp1) (\<lambda>((i, str), inp2). Inr (int i, str, inp2)))"

section \<open>Booleans and numbers\<close>

definition json_read_boolean :: "istream \<Rightarrow> (bool \<times> istream) result" where
  "json_read_boolean inp =
     (let (ch, inp1) = read_no_whitespace inp in
      if ch = chr CHR ''t'' then bindE (json_test_chars inp1 ''rue'') (\<lambda>inp2. Inr (True, inp2))
      else if ch = chr CHR ''f'' then bindE (json_test_chars inp1 ''alse'') (\<lambda>inp2. Inr (False, inp2))
      else Inl ERR_JSON_SYNTAX)"

fun read_digits :: "u64 \<Rightarrow> istream \<Rightarrow> u64 \<times> istream" where
  "read_digits res [] = (res, [])"
| "read_digits res (ch # inp) =
     (if ch < chr CHR ''0'' \<or> ch > chr CHR ''9'' then (res, ch # inp)
      else read_digits (res * 10 + word_of_int (ch - chr CHR ''0'')) inp)"

text \<open>The sign and the first digit, as all four integer readers take them.\<close>

definition read_sign_digit :: "istream \<Rightarrow> (bool \<times> u64 \<times> istream) result" where
  "read_sign_digit inp =
     (let (ch, inp1) = read_no_whitespace inp;
          neg = (ch = chr CHR ''-'');
          (ch, inp2) = (if neg then read_stream inp1 else (ch, inp1))
      in if ch < chr CHR ''0'' \<or> ch > chr CHR ''9'' then Inl ERR_JSON_SYNTAX
         else Inr (neg, word_of_int (ch - chr CHR ''0''), inp2))"

definition json_read_long :: "istream \<Rightarrow> (u64 \<times> istream) result" where
  "json_read_long inp =
     bindE (read_sign_digit inp) (\<lambda>(neg, res, inp1).
       let (res1, inp2) = read_digits res inp1 in Inr (if neg then - res1 else res1, inp2))"

definition json_read_ulong :: "istream \<Rightarrow> (u64 \<times> istream) result" where
  "json_read_ulong inp =
     bindE (read_sign_digit inp) (\<lambda>(neg, res, inp1).
       let (res1, inp2) = read_digits res inp1 in Inr (if neg then NOT res1 + 1 else res1, inp2))"

definition json_read_int64 :: "istream \<Rightarrow> (u64 \<times> istream) result" where
  "json_read_int64 inp =
     bindE (read_sign_digit inp) (\<lambda>(neg, res, inp1).
       let (res1, inp2) = read_digits res inp1 in Inr (if neg then - res1 else res1, inp2))"

definition json_read_uint64 :: "istream \<Rightarrow> (u64 \<times> istream) result" where
  "json_read_uint64 inp =
     bindE (read_sign_digit inp) (\<lambda>(neg, res, inp1).
       let (res1, inp2) = read_digits res inp1 in Inr (if neg then NOT res1 + 1 else res1, inp2))"

section \<open>Structures and arrays\<close>

text \<open>
  The call back reads one member from the stream and updates its argument \<open>'s\<close>. Nothing
  stops a call back from pushing symbols back, so the loops are partial functions:
  \<open>None\<close> is a loop that never ends. \<open>json_read_struct\<close> and \<open>json_read_array\<close> return \<open>False\<close> for
  \<open>null\<close>.
\<close>

partial_function (option) json_struct_loop ::
  "(byte list \<Rightarrow> 's \<Rightarrow> istream \<Rightarrow> ('s \<times> istream) result) \<Rightarrow> 's \<Rightarrow> istream \<Rightarrow>
     ('s \<times> istream) result option" where
  "json_struct_loop call_back arg inp =
     (case json_read_string inp 256 of
        Inl e \<Rightarrow> Some (Inl e)
      | Inr (_, nm, inp1) \<Rightarrow>
          (case json_test_char inp1 (chr CHR '':'') of
             Inl e \<Rightarrow> Some (Inl e)
           | Inr inp2 \<Rightarrow>
               (case call_back nm arg inp2 of
                  Inl e \<Rightarrow> Some (Inl e)
                | Inr (arg1, inp3) \<Rightarrow>
                    (case read_no_whitespace inp3 of
                       (ch, inp4) \<Rightarrow>
                         (if ch = chr CHR '','' then json_struct_loop call_back arg1 inp4
                          else if ch = chr CHR ''}'' then Some (Inr (arg1, inp4))
                          else Some (Inl ERR_JSON_SYNTAX))))))"

definition json_read_struct ::
  "(byte list \<Rightarrow> 's \<Rightarrow> istream \<Rightarrow> ('s \<times> istream) result) \<Rightarrow> 's \<Rightarrow> istream \<Rightarrow>
     (bool \<times> 's \<times> istream) result option" where
  "json_read_struct call_back arg inp =
     (let (ch, inp1) = read_no_whitespace inp in
      if ch = chr CHR ''n''
      then Some (bindE (json_test_chars inp1 ''ull'') (\<lambda>inp2. Inr (False, arg, inp2)))
      else if ch \<noteq> chr CHR ''{'' then Some (Inl ERR_PROTOCOL)
      else
        (let (pk, inp2) = json_peek inp1 in
         if pk = chr CHR ''}'' then Some (Inr (True, arg, snd (read_stream inp2)))
         else bindOE (json_struct_loop call_back arg inp2)
                (\<lambda>(arg1, inp3). Some (Inr (True, arg1, inp3)))))"

partial_function (option) json_array_loop ::
  "('s \<Rightarrow> istream \<Rightarrow> ('s \<times> istream) result) \<Rightarrow> 's \<Rightarrow> istream \<Rightarrow> ('s \<times> istream) result option" where
  "json_array_loop call_back arg inp =
     (case call_back arg inp of
        Inl e \<Rightarrow> Some (Inl e)
      | Inr (arg1, inp1) \<Rightarrow>
          (case read_no_whitespace inp1 of
             (ch, inp2) \<Rightarrow>
               (if ch = chr CHR '','' then json_array_loop call_back arg1 inp2
                else if ch = chr CHR '']'' then Some (Inr (arg1, inp2))
                else Some (Inl ERR_JSON_SYNTAX))))"

definition json_read_array ::
  "('s \<Rightarrow> istream \<Rightarrow> ('s \<times> istream) result) \<Rightarrow> 's \<Rightarrow> istream \<Rightarrow>
     (bool \<times> 's \<times> istream) result option" where
  "json_read_array call_back arg inp =
     (let (ch, inp1) = read_no_whitespace inp in
      if ch = chr CHR ''n''
      then Some (bindE (json_test_chars inp1 ''ull'') (\<lambda>inp2. Inr (False, arg, inp2)))
      else if ch \<noteq> chr CHR ''['' then Some (Inl ERR_PROTOCOL)
      else
        (let (pk, inp2) = json_peek inp1 in
         if pk = chr CHR '']'' then Some (Inr (True, arg, snd (read_stream inp2)))
         else bindOE (json_array_loop call_back arg inp2)
                (\<lambda>(arg1, inp3). Some (Inr (True, arg1, inp3)))))"

section \<open>Arrays of strings\<close>

text \<open>
  The strings are collected in \<open>tmp_buf\<close>, each with a terminating zero, and their lengths
  in \<open>len_buf\<close>; the result array points into one block of memory. An element \<open>null\<close>
  becomes an empty string.
\<close>

lemma read_string_chars_length:
  "read_string_chars tmp inp = Inr (s, inp') \<Longrightarrow> length inp' < length inp"
proof (induction tmp inp rule: read_string_chars.induct)
  case (1 tmp inp)
  show ?case
  proof (cases inp)
    case Nil
    with 1(3) show ?thesis by (simp add: read_string_chars.simps [of tmp "[]"])
  next
    case (Cons ch inp1)
    consider (neg) "ch < 0" | (quote) "ch = 34" | (esc) "0 \<le> ch" "ch = 92"
      | (plain) "0 \<le> ch" "ch \<noteq> 34" "ch \<noteq> 92" by linarith
    then show ?thesis
    proof cases
      case esc
      with 1(3) Cons obtain u inp2 where u: "read_esc_char inp1 = Inr (u, inp2)"
          "read_string_chars (tmp @ u) inp2 = Inr (s, inp')"
        by (subst (asm) read_string_chars.simps) (auto simp: bindE_Inr_iff)
      have "length inp' < length inp2"
        using 1(1) [OF Cons, of "(u, inp2)" u inp2] esc u by simp
      with read_esc_char_length [OF u(1)] Cons show ?thesis by simp
    next
      case plain
      with 1(3) Cons have "read_string_chars (tmp @ [sym_byte ch]) inp1 = Inr (s, inp')"
        by (subst (asm) read_string_chars.simps) simp
      with 1(2) [OF Cons] plain Cons show ?thesis by simp
    qed (use 1(3) Cons read_string_chars.simps [of tmp inp] in simp_all)
  qed
qed

lemma read_no_whitespace_length:
  "read_no_whitespace inp = (ch, inp') \<Longrightarrow> ch \<noteq> MARKER_EOS \<Longrightarrow> length inp' < length inp"
  by (induction inp) (auto split: if_splits)

lemma skip_whitespace_length: "length (skip_whitespace inp) \<le> length inp"
  by (induction inp) auto

lemma json_test_char_length: "json_test_char inp x = Inr inp' \<Longrightarrow> length inp' \<le> length inp"
  using skip_whitespace_length [of inp]
  by (auto simp: json_test_char_def Let_def bindE_Inr_iff split: prod.splits if_splits
      dest!: arg_cong [of _ _ snd] simp: read_stream_length)

lemma json_test_chars_length: "json_test_chars inp cs = Inr inp' \<Longrightarrow> length inp' \<le> length inp"
proof (induction cs arbitrary: inp)
  case Nil
  then show ?case by simp
next
  case (Cons c cs)
  then show ?case by (force simp: bindE_Inr_iff dest: json_test_char_length)
qed

definition array_element :: "byte list \<Rightarrow> istream \<Rightarrow> (byte list \<times> nat \<times> istream) result" where
  "array_element tmp inp =
     (let (ch, inp1) = read_no_whitespace inp in
      if ch = chr CHR ''n'' then bindE (json_test_chars inp1 ''ull'') (\<lambda>inp2. Inr (tmp, 0, inp2))
      else if ch \<noteq> chr CHR 0x22 then Inl ERR_PROTOCOL
      else bindE (read_string_chars tmp inp1) (\<lambda>(tmp1, inp2). Inr (tmp1, length tmp1 - length tmp, inp2)))"

lemma array_element_length:
  assumes "array_element tmp inp = Inr (tmp1, len, inp')"
  shows "length inp' < length inp"
proof -
  obtain ch inp1 where rd: "read_no_whitespace inp = (ch, inp1)" by fastforce
  with assms have "ch \<noteq> MARKER_EOS" "length inp' \<le> length inp1"
    by (auto simp: array_element_def bindE_Inr_iff simp del: json_test_chars.simps split: if_splits
        dest: json_test_chars_length read_string_chars_length)
  with read_no_whitespace_length [OF rd] show ?thesis by simp
qed

function string_array_loop ::
  "byte list \<Rightarrow> nat list \<Rightarrow> istream \<Rightarrow> (byte list \<times> nat list \<times> istream) result" where
  "string_array_loop tmp len_buf inp =
     bindE (array_element tmp inp) (\<lambda>(tmp1, len, inp1).
       let (ch, inp2) = read_no_whitespace inp1 in
       if ch = chr CHR '','' then string_array_loop (tmp1 @ [0]) (len_buf @ [len]) inp2
       else bindE (check_char ch (chr CHR '']'')) (\<lambda>_. Inr (tmp1 @ [0], len_buf @ [len], inp2)))"
  by pat_completeness auto
termination
proof (relation "measure (\<lambda>(tmp, len_buf, inp). length inp)", goal_cases)
  case 1
  show ?case by simp
next
  case (2 tmp len_buf inp x tmp1 y len inp1 z ch inp2)
  then have "length inp1 < length inp" by (auto dest: array_element_length)
  moreover have "length inp2 < length inp1"
    using 2 read_no_whitespace_length [of inp1 ch inp2] by simp
  ultimately show ?case by simp
qed

declare string_array_loop.simps [simp del]

text \<open>The pointers \<open>arr[i] = str + j\<close>, and the C string a pointer designates.\<close>

fun array_ptrs :: "nat \<Rightarrow> nat list \<Rightarrow> nat list" where
  "array_ptrs j [] = []"
| "array_ptrs j (len # len_buf) = j # array_ptrs (j + len + 1) len_buf"

definition c_string :: "byte list \<Rightarrow> nat \<Rightarrow> byte list" where
  "c_string mem j = takeWhile (\<lambda>c. c \<noteq> 0) (drop j mem)"

definition json_read_alloc_string_array :: "istream \<Rightarrow> (byte list list option \<times> istream) result" where
  "json_read_alloc_string_array inp =
     (let (ch, inp1) = read_no_whitespace inp in
      if ch = chr CHR ''n'' then bindE (json_test_chars inp1 ''ull'') (\<lambda>inp2. Inr (None, inp2))
      else if ch \<noteq> chr CHR ''['' then Inl ERR_PROTOCOL
      else
        (let (pk, inp2) = json_peek inp1;
             elems = (if pk = chr CHR '']'' then Inr ([], [], snd (read_stream inp2))
                      else string_array_loop [] [] inp2)
         in bindE elems (\<lambda>(tmp, len_buf, inp3).
              let str = tmp @ [0] in Inr (Some (map (c_string str) (array_ptrs 0 len_buf)), inp3))))"

section \<open>Binary data\<close>

record JsonReadBinaryState =
  rb_inp :: istream
  rb_encoding :: encoding
  rb_size_start :: nat
  rb_size_done :: nat
  rb_rem :: "byte list"

definition json_read_binary_start :: "istream \<Rightarrow> JsonReadBinaryState result" where
  "json_read_binary_start inp =
     (let (ch, inp1) = read_no_whitespace inp;
          st = \<lparr>rb_inp = inp1, rb_encoding = ENCODING_BINARY, rb_size_start = 0, rb_size_done = 0, rb_rem = []\<rparr>
      in if ch = chr CHR ''(''
         then bindE (json_read_ulong inp1) (\<lambda>(n, inp2).
              bindE (json_test_char inp2 (chr CHR '')'')) (\<lambda>inp3.
                Inr (st\<lparr>rb_size_start := unat n, rb_inp := inp3\<rparr>)))
         else if ch = chr CHR 0x22 then Inr (st\<lparr>rb_encoding := ENCODING_BASE64\<rparr>)
         else if ch = chr CHR ''n''
         then bindE (json_test_chars inp1 ''ull'') (\<lambda>inp2. Inr (st\<lparr>rb_inp := inp2\<rparr>))
         else Inl ERR_JSON_SYNTAX)"

text \<open>\<open>n\<close> symbols as bytes; past the end of the stream the marker is cast to a byte.\<close>

fun read_bytes :: "nat \<Rightarrow> istream \<Rightarrow> byte list \<times> istream" where
  "read_bytes 0 inp = ([], inp)"
| "read_bytes (Suc n) inp =
     (let (ch, inp1) = read_stream inp; (bs, inp2) = read_bytes n inp1 in (sym_byte ch # bs, inp2))"

lemma read_base64_loop_bounds:
  "read_base64_loop n buf inp = Inr (bs, inp') \<Longrightarrow>
     length bs \<le> max n (length buf) \<and> length inp' + length bs \<le> length inp + length buf"
proof (induction n buf inp rule: read_base64_loop.induct)
  case (1 n buf inp)
  show ?case
  proof (cases "length buf + 3 \<le> n \<and> c2i (peek_stream inp) \<noteq> None")
    case False
    with 1(2) show ?thesis by (subst (asm) read_base64_loop.simps) (auto split: if_splits)
  next
    case True
    have none: "c2i MARKER_EOS = None" by (simp add: c2i_def)
    from True obtain x0 i1 where x0: "inp = x0 # i1"
      using none by (cases inp) auto
    show ?thesis
    proof (cases i1)
      case Nil
      with 1(2) True x0 none show ?thesis
        by (subst (asm) read_base64_loop.simps) (auto split: if_splits option.splits)
    next
      case (Cons x1 i2)
      show ?thesis
      proof (cases i2)
        case Nil
        with 1(2) True x0 none Cons show ?thesis
          by (subst (asm) read_base64_loop.simps) (auto simp: Let_def split: if_splits option.splits)
      next
        case cons2: (Cons x2 i3)
        obtain x3 i4 where x3: "read_stream i3 = (x3, i4)" "length i4 \<le> length i3"
          using read_stream_length [of i3] by (cases "read_stream i3") auto
        have pos: "x3 \<noteq> MARKER_EOS \<Longrightarrow> length i4 < length i3"
          using x3 by (cases i3) auto
        from 1(2) True x0 Cons cons2 x3 show ?thesis
          using pos none 1(1)
          by (subst (asm) read_base64_loop.simps)
            (fastforce simp: Let_def split: if_splits option.splits)
      qed
    qed
  qed
qed

lemma read_base64_bounds:
  assumes "read_base64 inp n = Inr (bs, inp')"
  shows "length bs \<le> n" "length inp' + length bs \<le> length inp"
  using read_base64_loop_bounds [of n "[]" inp bs inp'] assms by (simp_all add: read_base64_def)


text \<open>
  The BASE64 branch of \<open>json_read_binary_data\<close>: \<open>len\<close> more bytes are wanted, \<open>acc\<close> was delivered
  so far. When the caller takes less than a group, the rest of the group waits in \<open>rem\<close>.
  The last component says whether \<open>size_done\<close> is updated: the early return does not.
\<close>

function rb_base64_loop ::
  "nat \<Rightarrow> byte list \<Rightarrow> byte list \<Rightarrow> istream \<Rightarrow> (byte list \<times> byte list \<times> istream \<times> bool) result" where
  "rb_base64_loop len acc rem inp =
     (if len = 0 then Inr (acc, rem, inp, True)
      else
        (let i = min (length rem) len in
         if rem \<noteq> [] \<and> i < length rem then Inr (acc @ take i rem, drop i rem, inp, False)
         else
           (let acc1 = acc @ rem; len1 = len - i in
            if len1 \<ge> 3
            then bindE (read_base64 inp len1) (\<lambda>(bs, inp1).
                   if bs = [] then Inr (acc1, [], inp1, True)
                   else rb_base64_loop (len1 - length bs) (acc1 @ bs) [] inp1)
            else bindE (read_base64 inp 3) (\<lambda>(bs, inp1).
                   if bs = [] then Inr (acc1, [], inp1, True)
                   else rb_base64_loop len1 acc1 bs inp1))))"
  by pat_completeness auto
termination
  by (relation "measure (\<lambda>(len, acc, rem, inp). 2 * len + (if rem = [] then 1 else 0))")
    (auto split: if_splits simp flip: length_greater_0_conv)

declare rb_base64_loop.simps [simp del]

definition json_read_binary_data ::
  "JsonReadBinaryState \<Rightarrow> nat \<Rightarrow> (byte list \<times> JsonReadBinaryState) result" where
  "json_read_binary_data st len =
     (if rb_encoding st = ENCODING_BINARY
      then
        (let n = min len (rb_size_start st - rb_size_done st);
             (bs, inp1) = read_bytes n (rb_inp st)
         in Inr (bs, st\<lparr>rb_inp := inp1, rb_size_done := rb_size_done st + n\<rparr>))
      else
        bindE (rb_base64_loop len [] (rb_rem st) (rb_inp st)) (\<lambda>(bs, rem1, inp1, upd).
          Inr (bs, st\<lparr>rb_inp := inp1, rb_rem := rem1,
                      rb_size_done := (if upd then rb_size_done st + length bs else rb_size_done st)\<rparr>)))"

text \<open>The assertion on the size of binary data is the guard of \<open>Some\<close>.\<close>

definition json_read_binary_end :: "JsonReadBinaryState \<Rightarrow> istream result option" where
  "json_read_binary_end st =
     (if rb_rem st \<noteq> [] then Some (Inl ERR_JSON_SYNTAX)
      else if rb_encoding st = ENCODING_BINARY
      then (if rb_size_start st = rb_size_done st then Some (Inr (rb_inp st)) else None)
      else Some (json_test_char (rb_inp st) (chr CHR 0x22)))"

lemma length_read_bytes: "length (fst (read_bytes n inp)) = n"
proof (induction n arbitrary: inp)
  case (Suc n)
  then show ?case using Suc [of "snd (read_stream inp)"] by (simp add: split_beta Let_def)
qed simp

lemma rb_base64_loop_bounds:
  "rb_base64_loop len acc rem inp = Inr (bs, rem', inp', upd) \<Longrightarrow>
     length bs \<le> length acc + len \<and>
     length inp' + length rem' + length bs \<le> length inp + length rem + length acc"
proof (induction len acc rem inp rule: rb_base64_loop.induct)
  case (1 len acc rem inp)
  define i where "i = min (length rem) len"
  consider (stop) "len = 0" | (some) "len \<noteq> 0" "rem \<noteq> []" "i < length rem"
    | (big) "len \<noteq> 0" "\<not> (rem \<noteq> [] \<and> i < length rem)" "len - i \<ge> 3"
    | (small) "len \<noteq> 0" "\<not> (rem \<noteq> [] \<and> i < length rem)" "\<not> len - i \<ge> 3" by blast
  then show ?case
  proof cases
    case stop
    with 1(3) show ?thesis by (subst (asm) rb_base64_loop.simps) auto
  next
    case some
    then have "i = len" "len < length rem" by (simp_all add: i_def min_def split: if_splits)
    with some 1(3) show ?thesis by (subst (asm) rb_base64_loop.simps) (auto simp: i_def)
  next
    case big
    have i: "i = length rem" "length rem \<le> len" using big(2) by (auto simp: i_def)
    from 1(3) big obtain b inp1 where b: "read_base64 inp (len - i) = Inr (b, inp1)"
        "if b = [] then acc @ rem = bs \<and> rem' = [] \<and> inp1 = inp'
         else rb_base64_loop (len - i - length b) (acc @ rem @ b) [] inp1 = Inr (bs, rem', inp', upd)"
      by (subst (asm) rb_base64_loop.simps) (auto simp: bindE_Inr_iff i_def Let_def split: if_splits)
    note bb = read_base64_bounds [OF b(1)]
    show ?thesis
    proof (cases "b = []")
      case True
      with b(2) bb i show ?thesis by auto
    next
      case False
      with 1(1) [OF big(1) i_def big(2) refl refl big(3), of "(b, inp1)" b inp1] b
      show ?thesis using bb i by (simp add: i_def)
    qed
  next
    case small
    have i: "i = length rem" "length rem \<le> len" using small(2) by (auto simp: i_def)
    from 1(3) small obtain b inp1 where b: "read_base64 inp 3 = Inr (b, inp1)"
        "if b = [] then acc @ rem = bs \<and> rem' = [] \<and> inp1 = inp'
         else rb_base64_loop (len - i) (acc @ rem) b inp1 = Inr (bs, rem', inp', upd)"
      by (subst (asm) rb_base64_loop.simps) (auto simp: bindE_Inr_iff i_def Let_def split: if_splits)
    note bb = read_base64_bounds [OF b(1)]
    show ?thesis
    proof (cases "b = []")
      case True
      with b(2) bb i show ?thesis by auto
    next
      case False
      with 1(2) [OF small(1) i_def small(2) refl refl small(3), of "(b, inp1)" b inp1] b
      show ?thesis using bb i by (simp add: i_def)
    qed
  qed
qed

text \<open>
  \<open>realloc_tmp_buf\<close>: the size of \<open>tmp_buf\<close> after growing it; 0 is the NULL buffer.
  MEM\_HEAP\_LINK\_SIZE is 0x10.
\<close>

definition realloc_tmp_buf :: "nat \<Rightarrow> nat" where
  "realloc_tmp_buf sz = (if sz = 0 then 0x1000 - 0x10 else sz * 2 + 0x10)"

definition rb_measure :: "JsonReadBinaryState \<Rightarrow> nat" where
  "rb_measure st =
     (if rb_encoding st = ENCODING_BINARY then rb_size_start st - rb_size_done st
      else length (rb_inp st) + length (rb_rem st))"

lemma json_read_binary_data_measure:
  assumes "json_read_binary_data st len = Inr (bs, st')" "bs \<noteq> []"
  shows "rb_measure st' < rb_measure st"
proof (cases "rb_encoding st = ENCODING_BINARY")
  case True
  let ?n = "min len (rb_size_start st - rb_size_done st)"
  have "bs = fst (read_bytes ?n (rb_inp st))" "st' = st\<lparr>rb_inp := snd (read_bytes ?n (rb_inp st)),
      rb_size_done := rb_size_done st + ?n\<rparr>"
    using assms(1) True by (auto simp: json_read_binary_data_def split_beta Let_def)
  moreover have "0 < ?n"
    using assms(2) calculation(1) length_read_bytes [of ?n "rb_inp st"] by (metis length_greater_0_conv)
  ultimately show ?thesis using True by (auto simp: rb_measure_def min_def)
next
  case False
  then obtain rem1 inp1 upd where b: "rb_base64_loop len [] (rb_rem st) (rb_inp st) = Inr (bs, rem1, inp1, upd)"
      "rb_inp st' = inp1" "rb_rem st' = rem1" "rb_encoding st' = rb_encoding st"
    using assms(1) by (auto simp: json_read_binary_data_def bindE_Inr_iff)
  from rb_base64_loop_bounds [OF b(1)] assms(2) False b(2-4) show ?thesis
    by (auto simp: rb_measure_def simp flip: length_greater_0_conv)
qed

function alloc_binary_loop ::
  "nat \<Rightarrow> byte list \<Rightarrow> JsonReadBinaryState \<Rightarrow> (byte list \<times> JsonReadBinaryState) result" where
  "alloc_binary_loop tmp_size tmp st =
     (let tmp_size1 = (if length tmp \<ge> tmp_size then realloc_tmp_buf tmp_size else tmp_size)
      in bindE (json_read_binary_data st (tmp_size1 - length tmp)) (\<lambda>(bs, st1).
           if bs = [] then Inr (tmp, st1) else alloc_binary_loop tmp_size1 (tmp @ bs) st1))"
  by pat_completeness auto
termination
  by (relation "measure (\<lambda>(tmp_size, tmp, st). rb_measure st)")
    (auto dest: json_read_binary_data_measure)

declare alloc_binary_loop.simps [simp del]

text \<open>
  \<open>tmp_size\<close> is the size of \<open>tmp_buf\<close> before the call. The data is \<open>None\<close> for the NULL pointer of
  a JSON \<open>null\<close>; the outer option is \<open>None\<close> when an assertion fails.
\<close>

definition json_read_alloc_binary :: "nat \<Rightarrow> istream \<Rightarrow> (byte list option \<times> istream) result option" where
  "json_read_alloc_binary tmp_size inp =
     (let (pk, inp1) = json_peek inp in
      if pk = chr CHR ''n''
      then Some (bindE (json_test_chars (snd (read_stream inp1)) ''ull'') (\<lambda>inp2. Inr (None, inp2)))
      else
        bindOE (Some (json_read_binary_start inp1)) (\<lambda>st.
        bindOE (Some (alloc_binary_loop tmp_size [] st)) (\<lambda>(tmp, st1).
          if rb_size_start st1 = 0 \<or> length tmp = rb_size_start st1
          then bindOE (json_read_binary_end st1) (\<lambda>inp2. Some (Inr (Some tmp, inp2)))
          else None)))"

section \<open>Skipping over any JSON value\<close>

text \<open>
  \<open>skip_object\<close> copies the text of one value to \<open>tmp_buf\<close> and stops behind it. Its recursion
  and its loops are bounded by \<open>fuel\<close>: \<open>None\<close> is running out of it, which \<open>skip_object_fuel\<close>
  below excludes for the fuel that \<open>json_read_object\<close> provides.
\<close>

definition skip_char :: "byte list \<Rightarrow> istream \<Rightarrow> (sym \<times> byte list \<times> istream) result" where
  "skip_char tmp inp =
     (let (ch, inp1) = read_stream inp in
      if ch < 0 then Inl ERR_JSON_SYNTAX else Inr (ch, tmp @ [sym_byte ch], inp1))"

fun skip_chars :: "byte list \<Rightarrow> istream \<Rightarrow> string \<Rightarrow> (byte list \<times> istream) result" where
  "skip_chars tmp inp [] = Inr (tmp, inp)"
| "skip_chars tmp inp (c # cs) =
     bindE (skip_char tmp inp) (\<lambda>(ch, tmp1, inp1).
     bindE (check_char ch (chr c)) (\<lambda>_. skip_chars tmp1 inp1 cs))"

fun skip_string :: "byte list \<Rightarrow> istream \<Rightarrow> (byte list \<times> istream) result" where
  "skip_string tmp [] = Inl ERR_JSON_SYNTAX"
| "skip_string tmp (ch # inp) =
     (if ch < 0 then Inl ERR_JSON_SYNTAX
      else if ch = chr CHR 0x22 then Inr (tmp @ [sym_byte ch], inp)
      else if ch = chr CHR 0x5C
      then (case inp of
              [] \<Rightarrow> Inl ERR_JSON_SYNTAX
            | ch2 # inp2 \<Rightarrow>
                (if ch2 < 0 then Inl ERR_JSON_SYNTAX
                 else skip_string (tmp @ [sym_byte ch, sym_byte ch2]) inp2))
      else skip_string (tmp @ [sym_byte ch]) inp)"

definition number_char :: "sym \<Rightarrow> bool" where
  "number_char ch \<longleftrightarrow> \<not> ((ch < chr CHR ''0'' \<or> ch > chr CHR ''9'') \<and> ch \<noteq> chr CHR ''.''
     \<and> ch \<noteq> chr CHR ''e'' \<and> ch \<noteq> chr CHR ''E'' \<and> ch \<noteq> chr CHR ''-'' \<and> ch \<noteq> chr CHR ''+'')"

fun skip_number :: "byte list \<Rightarrow> istream \<Rightarrow> byte list \<times> istream" where
  "skip_number tmp [] = (tmp, [])"
| "skip_number tmp (ch # inp) =
     (if number_char ch then skip_number (tmp @ [sym_byte ch]) inp else (tmp, ch # inp))"

fun read_size :: "nat \<Rightarrow> istream \<Rightarrow> sym \<times> nat \<times> istream" where
  "read_size sz [] = (MARKER_EOS, sz, [])"
| "read_size sz (ch # inp) =
     (if ch < chr CHR ''0'' \<or> ch > chr CHR ''9'' then (ch, sz, inp)
      else read_size ((sz * 10 + nat (ch - chr CHR ''0'')) mod 2 ^ 64) inp)"

text \<open>Binary data is converted to a BASE64 string; its opening bracket is taken back.\<close>

definition skip_binary :: "byte list \<Rightarrow> istream \<Rightarrow> (byte list \<times> istream) result" where
  "skip_binary tmp inp =
     (let tmp1 = butlast tmp;
          (ch, sz, inp1) = read_size 0 inp
      in bindE (check_char ch (chr CHR '')'')) (\<lambda>_.
           let (cbf, inp2) = read_bytes sz inp1;
               buf = fst (write_base64 [chr CHR 0x22] cbf) @ [chr CHR 0x22]
           in Inr (tmp1 @ map sym_byte buf, inp2)))"

fun skip_object :: "nat \<Rightarrow> byte list \<Rightarrow> istream \<Rightarrow> (byte list \<times> istream) result option"
  and skip_array_loop :: "nat \<Rightarrow> byte list \<Rightarrow> istream \<Rightarrow> (byte list \<times> istream) result option"
  and skip_struct_loop :: "nat \<Rightarrow> byte list \<Rightarrow> istream \<Rightarrow> (byte list \<times> istream) result option" where
  "skip_object 0 tmp inp = None"
| "skip_object (Suc fuel) tmp inp =
     bindOE (Some (skip_char tmp (skip_whitespace inp))) (\<lambda>(ch, tmp1, inp1).
       if ch = chr CHR ''n'' then Some (skip_chars tmp1 inp1 ''ull'')
       else if ch = chr CHR ''f'' then Some (skip_chars tmp1 inp1 ''alse'')
       else if ch = chr CHR ''t'' then Some (skip_chars tmp1 inp1 ''rue'')
       else if ch = chr CHR 0x22 then Some (skip_string tmp1 inp1)
       else if ch = chr CHR ''-'' \<or> (chr CHR ''0'' \<le> ch \<and> ch \<le> chr CHR ''9'')
       then Some (Inr (skip_number tmp1 inp1))
       else if ch = chr CHR ''[''
       then (let (pk, inp2) = json_peek inp1 in
             if pk = chr CHR '']''
             then bindOE (Some (skip_char tmp1 inp2)) (\<lambda>(_, tmp2, inp3). Some (Inr (tmp2, inp3)))
             else skip_array_loop fuel tmp1 inp2)
       else if ch = chr CHR ''{''
       then (let (pk, inp2) = json_peek inp1 in
             if pk = chr CHR ''}''
             then bindOE (Some (skip_char tmp1 inp2)) (\<lambda>(_, tmp2, inp3). Some (Inr (tmp2, inp3)))
             else skip_struct_loop fuel tmp1 inp2)
       else if ch = chr CHR ''('' then Some (skip_binary tmp1 inp1)
       else Some (Inl ERR_JSON_SYNTAX))"
| "skip_array_loop 0 tmp inp = None"
| "skip_array_loop (Suc fuel) tmp inp =
     bindOE (skip_object fuel tmp inp) (\<lambda>(tmp1, inp1).
     bindOE (Some (skip_char tmp1 (skip_whitespace inp1))) (\<lambda>(ch, tmp2, inp2).
       if ch = chr CHR '','' then skip_array_loop fuel tmp2 inp2
       else if ch = chr CHR '']'' then Some (Inr (tmp2, inp2))
       else Some (Inl ERR_JSON_SYNTAX)))"
| "skip_struct_loop 0 tmp inp = None"
| "skip_struct_loop (Suc fuel) tmp inp =
     bindOE (skip_object fuel tmp inp) (\<lambda>(tmp1, inp1).
     bindOE (Some (skip_chars tmp1 (skip_whitespace inp1) '':'')) (\<lambda>(tmp2, inp2).
     bindOE (skip_object fuel tmp2 inp2) (\<lambda>(tmp3, inp3).
     bindOE (Some (skip_char tmp3 (skip_whitespace inp3))) (\<lambda>(ch, tmp4, inp4).
       if ch = chr CHR '','' then skip_struct_loop fuel tmp4 inp4
       else if ch = chr CHR ''}'' then Some (Inr (tmp4, inp4))
       else Some (Inl ERR_JSON_SYNTAX)))))"

definition json_read_object :: "istream \<Rightarrow> (byte list \<times> istream) result option" where
  "json_read_object inp = skip_object (Suc (2 * length inp)) [] inp"

definition json_skip_object :: "istream \<Rightarrow> istream result option" where
  "json_skip_object inp =
     bindOE (skip_object (Suc (2 * length inp)) [] inp) (\<lambda>(_, inp1). Some (Inr inp1))"

subsection \<open>The fuel is enough\<close>

lemma skip_char_length: "skip_char tmp inp = Inr (ch, tmp', inp') \<Longrightarrow> length inp' < length inp"
  by (cases inp) (auto simp: skip_char_def split: if_splits)

lemma skip_chars_length: "skip_chars tmp inp cs = Inr (tmp', inp') \<Longrightarrow> length inp' \<le> length inp"
proof (induction cs arbitrary: tmp inp)
  case (Cons c cs)
  then show ?case by (force simp: bindE_Inr_iff dest: skip_char_length)
qed simp

lemma skip_string_length: "skip_string tmp inp = Inr (tmp', inp') \<Longrightarrow> length inp' \<le> length inp"
  by (induction tmp inp rule: skip_string.induct) (force split: if_splits list.splits)+

lemma skip_number_length: "skip_number tmp inp = (tmp', inp') \<Longrightarrow> length inp' \<le> length inp"
  by (induction tmp inp rule: skip_number.induct) (auto split: if_splits)

lemma read_size_length: "read_size sz inp = (ch, sz', inp') \<Longrightarrow> length inp' \<le> length inp"
  by (induction sz inp rule: read_size.induct) (auto split: if_splits)

lemma read_bytes_length: "read_bytes n inp = (bs, inp') \<Longrightarrow> length inp' \<le> length inp"
proof (induction n arbitrary: inp bs)
  case (Suc n)
  obtain bs1 where "read_bytes n (snd (read_stream inp)) = (bs1, inp')"
    using Suc.prems by (auto simp: Let_def split: prod.splits)
  from Suc.IH [OF this] show ?case using read_stream_length [of inp] by simp
qed simp

lemma skip_binary_length: "skip_binary tmp inp = Inr (tmp', inp') \<Longrightarrow> length inp' \<le> length inp"
  by (auto simp: skip_binary_def Let_def bindE_Inr_iff split: prod.splits
      dest!: read_size_length read_bytes_length)

lemma json_peek_length: "json_peek inp = (pk, inp') \<Longrightarrow> length inp' \<le> length inp"
  using skip_whitespace_length [of inp] by (auto simp: json_peek_def Let_def)

lemma skip_shrinks:
  "skip_object fuel tmp inp = Some (Inr (tmp', inp')) \<Longrightarrow> length inp' < length inp"
  "skip_array_loop fuel tmp inp = Some (Inr (tmp', inp')) \<Longrightarrow> length inp' < length inp"
  "skip_struct_loop fuel tmp inp = Some (Inr (tmp', inp')) \<Longrightarrow> length inp' < length inp"
proof (induction fuel arbitrary: tmp inp tmp' inp')
  case (Suc fuel)
  { case 1
    then obtain ch tmp1 inp1 where sc: "skip_char tmp (skip_whitespace inp) = Inr (ch, tmp1, inp1)"
      by (auto simp: bindOE_Inr_iff)
    have "length inp1 < length inp"
      using skip_char_length [OF sc] skip_whitespace_length [of inp] by simp
    moreover have "length inp' \<le> length inp1"
      using 1 sc
      by (auto simp: bindOE_Inr_iff simp del: skip_chars.simps split: if_splits prod.splits
          dest!: skip_chars_length skip_string_length skip_number_length skip_binary_length
            json_peek_length skip_char_length Suc.IH(2) Suc.IH(3))
    ultimately show ?case by simp
  next
    case 2
    then obtain tmp1 inp1 ch tmp2 inp2 where r: "skip_object fuel tmp inp = Some (Inr (tmp1, inp1))"
        "skip_char tmp1 (skip_whitespace inp1) = Inr (ch, tmp2, inp2)"
      by (auto simp: bindOE_Inr_iff)
    have "length inp1 < length inp" "length inp2 < length inp1"
      using Suc.IH(1) [OF r(1)] skip_char_length [OF r(2)] skip_whitespace_length [of inp1] by simp_all
    moreover have "inp' = inp2 \<or> skip_array_loop fuel tmp2 inp2 = Some (Inr (tmp', inp'))"
      using 2 r by (auto split: if_splits)
    ultimately show ?case using Suc.IH(2) [of tmp2 inp2 tmp' inp'] by fastforce
  next
    case 3
    then obtain tmp1 inp1 tmp2 inp2 tmp3 inp3 ch tmp4 inp4 where r:
        "skip_object fuel tmp inp = Some (Inr (tmp1, inp1))"
        "skip_chars tmp1 (skip_whitespace inp1) '':'' = Inr (tmp2, inp2)"
        "skip_object fuel tmp2 inp2 = Some (Inr (tmp3, inp3))"
        "skip_char tmp3 (skip_whitespace inp3) = Inr (ch, tmp4, inp4)"
      by (auto simp: bindOE_Inr_iff simp del: skip_chars.simps)
    have "length inp1 < length inp" "length inp2 \<le> length inp1" "length inp3 < length inp2" "length inp4 < length inp3"
      using Suc.IH(1) [OF r(1)] skip_chars_length [OF r(2)] Suc.IH(1) [OF r(3)] skip_char_length [OF r(4)]
        skip_whitespace_length [of inp1] skip_whitespace_length [of inp3] by simp_all
    moreover have "inp' = inp4 \<or> skip_struct_loop fuel tmp4 inp4 = Some (Inr (tmp', inp'))"
      using 3 r by (auto simp del: skip_chars.simps split: if_splits)
    ultimately show ?case using Suc.IH(3) [of tmp4 inp4 tmp' inp'] by fastforce
  }
qed simp_all

lemma bindOE_returns:
  "r \<noteq> None \<Longrightarrow> (\<And>x y. r = Some (Inr (x, y)) \<Longrightarrow> f2 x y \<noteq> None) \<Longrightarrow>
     bindOE r (\<lambda>(x, y). f2 x y) \<noteq> None"
  "(\<And>x y. q = Inr (x, y) \<Longrightarrow> f2 x y \<noteq> None) \<Longrightarrow> bindOE (Some q) (\<lambda>(x, y). f2 x y) \<noteq> None"
  "(\<And>x y z. p = Inr (x, y, z) \<Longrightarrow> f3 x y z \<noteq> None) \<Longrightarrow>
     bindOE (Some p) (\<lambda>(x, y, z). f3 x y z) \<noteq> None"
  by (rule bindOE_not_None; auto)+

lemma skip_enough_fuel:
  "2 * length inp < fuel \<Longrightarrow> skip_object fuel tmp inp \<noteq> None"
  "2 * length inp + 1 < fuel \<Longrightarrow> skip_array_loop fuel tmp inp \<noteq> None"
  "2 * length inp + 1 < fuel \<Longrightarrow> skip_struct_loop fuel tmp inp \<noteq> None"
proof (induction fuel arbitrary: tmp inp)
  case (Suc fuel)
  { case 1
    have loops: "length inp2 < length inp \<Longrightarrow> skip_array_loop fuel tmp2 inp2 \<noteq> None"
        "length inp2 < length inp \<Longrightarrow> skip_struct_loop fuel tmp2 inp2 \<noteq> None" for tmp2 inp2
      using Suc.IH(2,3) [of inp2 tmp2] 1 by simp_all
    have pk: "json_peek inp1 = (pk, inp2) \<Longrightarrow> skip_char tmp (skip_whitespace inp) = Inr (ch, tmp1, inp1) \<Longrightarrow>
        length inp2 < length inp" for pk inp1 inp2 ch tmp1
      using skip_char_length [of tmp "skip_whitespace inp" ch tmp1 inp1] json_peek_length [of inp1 pk inp2]
        skip_whitespace_length [of inp] by simp
    show ?case
    proof (cases "skip_char tmp (skip_whitespace inp)")
      case (Inr r)
      then obtain ch tmp1 inp1 where r: "skip_char tmp (skip_whitespace inp) = Inr (ch, tmp1, inp1)"
        by (cases r) auto
      obtain pk2 inp2 where p: "json_peek inp1 = (pk2, inp2)" by fastforce
      show ?thesis
        using loops [OF pk [OF p r], of tmp1] r p
        by (auto simp: bindOE_def simp del: skip_chars.simps split: sum.splits)
    qed simp
  next
    case 2
    have ob: "skip_object fuel tmp inp \<noteq> None" using Suc.IH(1) [of inp tmp] 2 by simp
    have lo: "skip_object fuel tmp inp = Some (Inr (tmp1, inp1)) \<Longrightarrow>
        skip_char tmp1 (skip_whitespace inp1) = Inr (ch, tmp2, inp2) \<Longrightarrow>
        skip_array_loop fuel tmp2 inp2 \<noteq> None" for tmp1 inp1 ch tmp2 inp2
      using skip_shrinks(1) [of fuel tmp inp tmp1 inp1] skip_char_length [of tmp1 "skip_whitespace inp1" ch tmp2 inp2]
        skip_whitespace_length [of inp1] Suc.IH(2) [of inp2 tmp2] 2 by simp
    show ?case
      by (simp only: skip_array_loop.simps) (intro bindOE_returns ob; use lo in \<open>auto split: prod.splits\<close>)
  next
    case 3
    have ob: "skip_object fuel tmp inp \<noteq> None" using Suc.IH(1) [of inp tmp] 3 by simp
    have le: "length inp2 < length inp" if "skip_object fuel tmp inp = Some (Inr (tmp1, inp1))"
        "skip_chars tmp1 (skip_whitespace inp1) '':'' = Inr (tmp2, inp2)" for tmp1 inp1 tmp2 inp2
      using skip_shrinks(1) [OF that(1)] skip_chars_length [OF that(2)] skip_whitespace_length [of inp1] by simp
    have ob2: "skip_object fuel tmp2 inp2 \<noteq> None" if "length inp2 < length inp" for tmp2 inp2
      using that Suc.IH(1) [of inp2 tmp2] 3 by simp
    have lo: "skip_struct_loop fuel tmp4 inp4 \<noteq> None" if "length inp2 < length inp"
        "skip_object fuel tmp2 inp2 = Some (Inr (tmp3, inp3))"
        "skip_char tmp3 (skip_whitespace inp3) = Inr (ch, tmp4, inp4)" for tmp2 inp2 tmp3 inp3 ch tmp4 inp4
      using that(1) skip_shrinks(1) [OF that(2)] skip_char_length [OF that(3)]
        skip_whitespace_length [of inp3] Suc.IH(3) [of inp4 tmp4] 3 by simp
    show ?case
      by (simp only: skip_struct_loop.simps)
        (intro bindOE_returns ob; use ob2 [OF le] lo [OF le] in \<open>auto simp del: skip_chars.simps split: prod.splits\<close>)
  }
qed simp_all

lemma json_read_object_returns: "json_read_object inp \<noteq> None"
  by (simp only: json_read_object_def) (rule skip_enough_fuel(1), simp)

end
