(* ===== verification/JsonRoundtrip.thy ===== *)
theory JsonRoundtrip
  imports JsonRead
begin

text \<open>
  The readers of json.c invert its writers: strings of arbitrary bytes, integers at their 64-bit
  width, booleans, binary data in both encodings and in pieces of any size, arrays and whole
  JSON values. Each statement is about a stream that goes on with more input behind the
  value, as it does inside of a message.
\<close>

section \<open>Strings\<close>

lemma and_15: "(x :: int) AND 15 = x mod 16"
  using take_bit_eq_mask [of 4 x] by (simp add: take_bit_eq_mod mask_eq_exp_minus_1)

lemma hex_digit_value: "0 \<le> x \<Longrightarrow> x < 16 \<Longrightarrow> hex_digit x = (if x < 10 then 48 + x else 55 + x)"
  by (simp add: hex_digit_def and_15 Let_def chr_def)

lemma hex_digit_mod: "hex_digit x = hex_digit (x mod 16)"
  by (simp add: hex_digit_def and_15)

lemma read_hex_digit_value: "read_hex_digit (hex_digit x # inp) = Inr (x mod 16, inp)"
proof -
  have "0 \<le> x mod 16" "x mod 16 < 16" by simp_all
  then show ?thesis
    by (subst hex_digit_mod) (auto simp: read_hex_digit_def hex_digit_value chr_def)
qed

lemma read_hex_digit_0: "read_hex_digit (48 # inp) = Inr (0, inp)"
  by (simp add: read_hex_digit_def chr_def)

lemma read_hex_char_value:
  assumes "0 \<le> n" "n < 256"
  shows "read_hex_char (48 # 48 # hex_digit (n div 16) # hex_digit n # inp) = Inr (n, inp)"
proof -
  have "push_bit 4 (n div 16 mod 16) OR n mod 16 = n div 16 mod 16 * 16 + n mod 16"
    using or_shift_add [of "n mod 16" 4 "n div 16 mod 16"] by (simp add: push_bit_eq_mult)
  also have "\<dots> = n" using assms by simp
  finally show ?thesis
    by (simp add: read_hex_char_def read_hex_digit_0 read_hex_digit_value)
qed

lemma read_esc_char_seq:
  assumes "needs_escape c"
  shows "\<exists>t. esc_seq c = 92 # t \<and> (\<forall>inp. read_esc_char (t @ inp) = Inr ([c], inp))"
proof -
  let ?n = "byte_sym c"
  have n: "0 \<le> ?n" "?n < 128" "sym_byte ?n = c"
    using assms by (auto simp: needs_escape_iff)
  have n1: "sym_byte 8 = c" if "?n = 8" using that n(3) by simp
  have n2: "sym_byte 12 = c" if "?n = 12" using that n(3) by simp
  have n3: "sym_byte 10 = c" if "?n = 10" using that n(3) by simp
  have n4: "sym_byte 13 = c" if "?n = 13" using that n(3) by simp
  have n5: "sym_byte 9 = c" if "?n = 9" using that n(3) by simp
  have n6: "sym_byte 34 = c" if "?n = 34" using that n(3) by simp
  have n7: "sym_byte 92 = c" if "?n = 92" using that n(3) by simp
  show ?thesis
    using n n1 n2 n3 n4 n5 n6 n7 read_hex_char_value [of ?n]
    by (auto simp: esc_seq_def Let_def read_esc_char_def utf8_bytes_def chr_def)
qed

lemma read_string_chars_esc:
  "read_string_chars tmp (esc_string s @ 34 # rest) = Inr (tmp @ s, rest)"
proof (induction s arbitrary: tmp)
  case Nil
  then show ?case by (subst read_string_chars.simps) (simp add: chr_def)
next
  case (Cons c s)
  show ?case
  proof (cases "needs_escape c")
    case True
    from read_esc_char_seq [OF this] obtain t where
      "esc_seq c = 92 # t" "\<And>inp. read_esc_char (t @ inp) = Inr ([c], inp)" by blast
    with True Cons show ?thesis
      by (subst read_string_chars.simps) (simp add: esc_char_def chr_def)
  next
    case False
    then have "byte_sym c \<noteq> 34" "byte_sym c \<noteq> 92" by (auto simp: needs_escape_iff)
    with False Cons show ?thesis
      by (subst read_string_chars.simps) (simp add: esc_char_def chr_def not_less)
  qed
qed

lemma str_store_append:
  "str_store sz (length s, take (sz - 1) s) cs = (length (s @ cs), take (sz - 1) (s @ cs))"
proof (induction cs arbitrary: s)
  case (Cons c cs)
  have "(if length s < sz - 1 then take (sz - 1) s @ [c] else take (sz - 1) s) = take (sz - 1) (s @ [c])"
    by auto
  with Cons [of "s @ [c]"] show ?case by (simp del: take_append One_nat_def)
qed simp

lemma read_string_loop_esc:
  "json_read_string_loop sz (length s0, take (sz - 1) s0) (esc_string s @ 34 # rest) =
     Inr ((length (s0 @ s), take (sz - 1) (s0 @ s)), rest)"
proof (induction s arbitrary: s0)
  case Nil
  then show ?case by (subst json_read_string_loop.simps) (simp add: chr_def)
next
  case (Cons c s)
  note IH = Cons [of "s0 @ [c]"]
  show ?case
  proof (cases "needs_escape c")
    case True
    from read_esc_char_seq [OF this] obtain t where
      "esc_seq c = 92 # t" "\<And>inp. read_esc_char (t @ inp) = Inr ([c], inp)" by blast
    with True IH show ?thesis
      by (subst json_read_string_loop.simps)
        (simp add: esc_char_def chr_def str_store_append del: str_store.simps take_append One_nat_def)
  next
    case False
    then have "byte_sym c \<noteq> 34" "byte_sym c \<noteq> 92" by (auto simp: needs_escape_iff)
    with False IH show ?thesis
      by (subst json_read_string_loop.simps)
        (simp add: esc_char_def chr_def str_store_append not_less del: str_store.simps take_append One_nat_def)
  qed
qed

lemma read_no_whitespace_Cons [simp]: "\<not> isspace c \<Longrightarrow> read_no_whitespace (c # inp) = (c, inp)"
  by simp

lemma skip_whitespace_Cons [simp]: "\<not> isspace c \<Longrightarrow> skip_whitespace (c # inp) = c # inp"
  by simp

lemma json_peek_Cons [simp]: "\<not> isspace c \<Longrightarrow> json_peek (c # inp) = (c, c # inp)"
  by (simp add: json_peek_def)

lemma alloc_string_json: "json_read_alloc_string (json_string s @ rest) = Inr (Some s, rest)"
  by (simp add: json_read_alloc_string_def json_string_def read_string_chars_esc isspace_def chr_def)

lemma read_string_json:
  "json_read_string (json_string s @ rest) sz = Inr (int (length s), take (sz - 1) s, rest)"
  using read_string_loop_esc [of sz "[]" s rest]
  by (simp add: json_read_string_def json_string_def isspace_def chr_def)

lemma test_chars_literal:
  "\<forall>c \<in> set cs. chr c \<notin> {58, 44, 123, 125, 91, 93} \<and> 0 \<le> chr c \<Longrightarrow>
     json_test_chars (map chr cs @ rest) cs = Inr rest"
  by (induction cs) (auto simp: json_test_char_def check_char_def Let_def)

lemma alloc_string_null: "json_read_alloc_string (map chr ''null'' @ rest) = Inr (None, rest)"
  using test_chars_literal [of "''ull''" rest]
  by (simp add: json_read_alloc_string_def isspace_def chr_def del: json_test_chars.simps)

section \<open>Booleans and integers\<close>

lemma read_boolean_json:
  "json_read_boolean (map chr (if b then ''true'' else ''false'') @ rest) = Inr (b, rest)"
  using test_chars_literal [of "''rue''" rest] test_chars_literal [of "''alse''" rest]
  by (simp add: json_read_boolean_def isspace_def chr_def del: json_test_chars.simps)

text \<open>What may follow a number: anything but a digit.\<close>

definition no_digit :: "istream \<Rightarrow> bool" where
  "no_digit rest \<longleftrightarrow> peek_stream rest < 48 \<or> peek_stream rest > 57"

lemma read_digits_run:
  assumes "\<forall>d \<in> set ds. 48 \<le> d \<and> d \<le> 57" "no_digit rest"
  shows "read_digits res (ds @ rest) = (foldl (\<lambda>r d. r * 10 + word_of_int (d - 48)) res ds, rest)"
  using assms
proof (induction ds arbitrary: res)
  case Nil
  then show ?case by (cases rest) (auto simp: no_digit_def chr_def)
next
  case (Cons d ds)
  then show ?case by (simp add: chr_def not_less)
qed

lemma foldl_decimal: "foldl (\<lambda>r d. r * 10 + word_of_int (d - 48)) 0 (decimal n) = (of_nat n :: u64)"
proof (induction n rule: decimal.induct)
  case (1 n)
  show ?case
  proof (cases "n \<ge> 10")
    case True
    have "of_nat (n div 10) * 10 + of_nat (n mod 10) = (of_nat (n div 10 * 10 + n mod 10) :: u64)"
      by (simp only: of_nat_add of_nat_mult) simp
    with 1 True show ?thesis by (subst decimal.simps) simp
  next
    case False
    then show ?thesis by (subst decimal.simps) simp
  qed
qed

lemma read_sign_digit_decimal:
  assumes "no_digit rest"
  shows "\<exists>r inp. read_sign_digit (decimal n @ rest) = Inr (False, r, inp) \<and>
      read_digits r inp = (of_nat n, rest)"
    "\<exists>r inp. read_sign_digit (45 # decimal n @ rest) = Inr (True, r, inp) \<and>
      read_digits r inp = (of_nat n, rest)"
proof -
  obtain d ds where d: "decimal n = d # ds" using decimal_nonempty [of n] by (cases "decimal n") auto
  then have ds: "48 \<le> d" "d \<le> 57" "\<forall>d \<in> set ds. 48 \<le> d \<and> d \<le> 57"
    using decimal_digits [of n] by simp_all
  have f: "read_digits (word_of_int (d - 48)) (ds @ rest) = (of_nat n, rest)"
    using read_digits_run [OF ds(3) assms] foldl_decimal [of n] d by simp
  show "\<exists>r inp. read_sign_digit (decimal n @ rest) = Inr (False, r, inp) \<and>
      read_digits r inp = (of_nat n, rest)"
    "\<exists>r inp. read_sign_digit (45 # decimal n @ rest) = Inr (True, r, inp) \<and>
      read_digits r inp = (of_nat n, rest)"
    using ds(1,2) f d by (auto simp: read_sign_digit_def isspace_def chr_def)
qed

lemma read_ulong_json:
  assumes "no_digit rest"
  shows "json_read_ulong (decimal (unat n) @ rest) = Inr (n, rest)"
    "json_read_uint64 (decimal (unat n) @ rest) = Inr (n, rest)"
  using read_sign_digit_decimal(1) [OF assms, of "unat n"]
  by (auto simp: json_read_ulong_def json_read_uint64_def)

lemma read_long_json:
  assumes "no_digit rest"
  shows "json_read_long (sdecimal n @ rest) = Inr (n, rest)"
    "json_read_int64 (sdecimal n @ rest) = Inr (n, rest)"
  using read_sign_digit_decimal(1) [OF assms, of "unat n"] read_sign_digit_decimal(2) [OF assms, of "unat (- n)"]
  by (auto simp: json_read_long_def json_read_int64_def sdecimal_def)

section \<open>Binary data\<close>

text \<open>
  A reader of binary data that still has to deliver \<open>data\<close>, with \<open>rest\<close> behind the value.
\<close>

definition rb_inv :: "JsonReadBinaryState \<Rightarrow> byte list \<Rightarrow> istream \<Rightarrow> bool" where
  "rb_inv st data rest \<longleftrightarrow>
     (if rb_encoding st = ENCODING_BINARY
      then rb_rem st = [] \<and> rb_size_start st = rb_size_done st + length data \<and>
           rb_inp st = map byte_sym data @ rest
      else rb_size_start st = 0 \<and>
           (\<exists>bs. data = rb_rem st @ bs \<and> rb_inp st = map byte_sym (b64_encode bs) @ 34 # rest))"

lemma read_bytes_take:
  "n \<le> length data \<Longrightarrow>
     read_bytes n (map byte_sym data @ rest) = (take n data, map byte_sym (drop n data) @ rest)"
proof (induction n arbitrary: data)
  case (Suc n)
  then show ?case by (cases data) (auto simp: Let_def)
qed simp

lemma c2i_quote: "c2i (peek_stream (34 # rest)) = None"
  by (simp add: c2i_def char2int_def)

lemma rb_base64_loop_encoded:
  "\<exists>rem' bs' upd.
     rb_base64_loop len acc rem (map byte_sym (b64_encode bs) @ 34 # rest) =
       Inr (acc @ take len (rem @ bs), rem', map byte_sym (b64_encode bs') @ 34 # rest, upd) \<and>
     rem' @ bs' = drop len (rem @ bs)"
proof (induction "2 * len + (if rem = [] then 1 else 0)" arbitrary: len acc rem bs rule: less_induct)
  case less
  note rd = read_base64_encoded [OF c2i_quote, of bs rest]
  let ?in = "\<lambda>bs. map byte_sym (b64_encode bs) @ 34 # rest"
  let ?len = "len - length rem"
  consider (stop) "len = 0" | (some) "0 < len" "len < length rem"
    | (big) "0 < len" "length rem \<le> len" "3 \<le> ?len"
    | (small) "0 < len" "length rem \<le> len" "?len < 3" by linarith
  then show ?case
  proof cases
    case stop
    then show ?thesis by (subst rb_base64_loop.simps) (auto intro!: exI [of _ bs])
  next
    case some
    then show ?thesis
      by (subst rb_base64_loop.simps) (auto intro!: exI [of _ bs] simp: min_def)
  next
    case big
    define k where "k = 3 * (?len div 3)"
    have k: "0 < k" "k \<le> ?len" using big(3) by (simp_all add: k_def)
    define b where "b = take k bs"
    have rdk: "read_base64 (?in bs) ?len = Inr (b, ?in (drop k bs))"
      using rd [of ?len] by (simp add: k_def b_def)
    show ?thesis
    proof (cases "b = []")
      case True
      then have "bs = []" using k by (simp add: b_def)
      with True big rdk show ?thesis
        by (subst rb_base64_loop.simps) (auto simp: min_def Let_def)
    next
      case False
      then have "2 * (?len - length b) + 1 < 2 * len + (if rem = [] then 1 else 0)"
        using big k by (auto simp flip: length_greater_0_conv)
      from less [of "?len - length b" "[]" "acc @ rem @ b" "drop k bs"] this
      obtain rem' bs' upd where IH:
        "rb_base64_loop (?len - length b) (acc @ rem @ b) [] (?in (drop k bs)) =
          Inr ((acc @ rem @ b) @ take (?len - length b) (drop k bs), rem', ?in bs', upd)"
        "rem' @ bs' = drop (?len - length b) (drop k bs)" by auto
      have t: "b @ take (?len - length b) (drop k bs) = take ?len bs"
          "drop (?len - length b) (drop k bs) = drop ?len bs"
        using k by (cases "k \<le> length bs"; simp add: b_def min_def flip: take_add)+
      from IH(1) have "rb_base64_loop (?len - length b) (acc @ rem @ b) [] (?in (drop k bs)) =
          Inr (acc @ rem @ take ?len bs, rem', ?in bs', upd)"
        by (simp only: append_assoc t(1))
      moreover have "rem' @ bs' = drop ?len bs" using IH(2) t(2) by simp
      ultimately show ?thesis
        using big False rdk
        by (subst rb_base64_loop.simps) (auto simp: min_def Let_def intro!: exI [of _ bs'])
    qed
  next
    case small
    show ?thesis
    proof (cases "bs = []")
      case True
      with small rd [of 3] show ?thesis
        by (subst rb_base64_loop.simps) (auto simp: min_def Let_def)
    next
      case False
      have "2 * ?len + 0 < 2 * len + (if rem = [] then 1 else 0)"
        using small by (auto simp flip: length_greater_0_conv)
      from less [of ?len "take 3 bs" "acc @ rem" "drop 3 bs"] this False
      obtain rem' bs' upd where
        "rb_base64_loop ?len (acc @ rem) (take 3 bs) (?in (drop 3 bs)) =
          Inr ((acc @ rem) @ take ?len bs, rem', ?in bs', upd)"
        "rem' @ bs' = drop ?len bs" by auto
      with small False rd [of 3] show ?thesis
        by (subst rb_base64_loop.simps) (auto simp: min_def Let_def intro!: exI [of _ bs'])
    qed
  qed
qed

lemma rb_inv_data:
  assumes "rb_inv st data rest"
  obtains st' where "json_read_binary_data st len = Inr (take len data, st')"
    "rb_inv st' (drop len data) rest" "rb_size_start st' = rb_size_start st"
proof (cases "rb_encoding st = ENCODING_BINARY")
  case True
  then show ?thesis
    using assms read_bytes_take [of "min len (length data)" data rest]
    by (intro that [of "st\<lparr>rb_inp := map byte_sym (drop len data) @ rest,
        rb_size_done := rb_size_done st + min len (length data)\<rparr>"])
      (auto simp: rb_inv_def json_read_binary_data_def Let_def min_def)
next
  case False
  with assms obtain bs where bs: "data = rb_rem st @ bs" "rb_inp st = map byte_sym (b64_encode bs) @ 34 # rest"
      "rb_size_start st = 0"
    by (auto simp: rb_inv_def)
  from rb_base64_loop_encoded [of len "[]" "rb_rem st" bs rest] obtain rem' bs' upd where
    "rb_base64_loop len [] (rb_rem st) (rb_inp st) =
       Inr (take len data, rem', map byte_sym (b64_encode bs') @ 34 # rest, upd)"
    "rem' @ bs' = drop len data" using bs by auto
  with False bs show ?thesis
    by (intro that [of "st\<lparr>rb_inp := map byte_sym (b64_encode bs') @ 34 # rest, rb_rem := rem',
        rb_size_done := (if upd then rb_size_done st + length (take len data) else rb_size_done st)\<rparr>"])
      (auto simp: rb_inv_def json_read_binary_data_def intro!: exI [of _ bs'])
qed

lemma rb_inv_end: "rb_inv st [] rest \<Longrightarrow> json_read_binary_end st = Some (Inr rest)"
  by (auto simp: rb_inv_def json_read_binary_end_def json_test_char_def check_char_def chr_def
      split: if_splits)

lemma rb_inv_start:
  assumes "length data < 2 ^ 64"
  obtains st where "json_read_binary_start (json_binary zc data @ rest) = Inr st" "rb_inv st data rest"
    "rb_size_start st = 0 \<or> length data = rb_size_start st"
proof (cases "zc \<and> data \<noteq> []")
  case True
  let ?n = "of_nat (length data) :: u64"
  have n: "unat ?n = length data" using assms by (simp add: unat_of_nat take_bit_nat_eq_self)
  have "no_digit (41 # map byte_sym data @ rest)" by (simp add: no_digit_def)
  from read_ulong_json(1) [OF this, of ?n] True n
  show ?thesis
    by (intro that [of "\<lparr>rb_inp = map byte_sym data @ rest, rb_encoding = ENCODING_BINARY,
        rb_size_start = length data, rb_size_done = 0, rb_rem = []\<rparr>"])
      (auto simp: json_read_binary_start_def json_binary_def isspace_def chr_def Let_def
        json_test_char_def check_char_def rb_inv_def)
next
  case False
  then show ?thesis
    by (intro that [of "\<lparr>rb_inp = map byte_sym (b64_encode data) @ 34 # rest, rb_encoding = ENCODING_BASE64,
        rb_size_start = 0, rb_size_done = 0, rb_rem = []\<rparr>"])
      (auto simp: json_read_binary_start_def json_binary_def isspace_def chr_def Let_def rb_inv_def)
qed

lemma alloc_binary_loop_reads:
  assumes "rb_inv st data rest" "length tmp \<le> tmp_size"
  shows "\<exists>st'. alloc_binary_loop tmp_size tmp st = Inr (tmp @ data, st') \<and> rb_inv st' [] rest \<and>
    rb_size_start st' = rb_size_start st"
  using assms
proof (induction "length data" arbitrary: tmp_size tmp st data rule: less_induct)
  case less
  define sz where "sz = (if length tmp \<ge> tmp_size then realloc_tmp_buf tmp_size else tmp_size)"
  have sz: "length tmp < sz" using less.prems(2) by (auto simp: sz_def realloc_tmp_buf_def)
  let ?n = "sz - length tmp"
  from less.prems(1) obtain st1 where st1: "json_read_binary_data st ?n = Inr (take ?n data, st1)"
    "rb_inv st1 (drop ?n data) rest" "rb_size_start st1 = rb_size_start st" by (rule rb_inv_data)
  show ?case
  proof (cases "data = []")
    case True
    with st1 show ?thesis
      by (subst alloc_binary_loop.simps) (auto simp: Let_def simp flip: sz_def)
  next
    case False
    then have "length (drop ?n data) < length data" "length (tmp @ take ?n data) \<le> sz"
      using sz by (auto simp flip: length_greater_0_conv)
    with less.hyps [of "drop ?n data" st1 "tmp @ take ?n data" sz] st1 sz False
    show ?thesis
      by (subst alloc_binary_loop.simps) (auto simp: Let_def simp flip: sz_def)
  qed
qed

lemma alloc_binary_json:
  assumes "length data < 2 ^ 64"
  shows "json_read_alloc_binary tmp_size (json_binary zc data @ rest) = Some (Inr (Some data, rest))"
proof -
  from rb_inv_start [OF assms, of zc rest] obtain st where
    st: "json_read_binary_start (json_binary zc data @ rest) = Inr st" "rb_inv st data rest"
      "rb_size_start st = 0 \<or> length data = rb_size_start st" .
  from alloc_binary_loop_reads [OF st(2), of "[]" tmp_size] obtain st' where
    st': "alloc_binary_loop tmp_size [] st = Inr (data, st')" "rb_inv st' [] rest"
      "rb_size_start st' = rb_size_start st" by auto
  have "rb_size_start st' = 0 \<or> length data = rb_size_start st'"
    using st(3) st'(3) by simp
  moreover have "json_peek (json_binary zc data @ rest) =
      (if zc \<and> data \<noteq> [] then 40 else 34, json_binary zc data @ rest)"
    by (simp add: json_binary_def isspace_def)
  ultimately show ?thesis
    using st(1) st'(1) rb_inv_end [OF st'(2)]
    by (simp add: json_read_alloc_binary_def chr_def)
qed

text \<open>Reading with buffers of the given sizes, one \<open>json_read_binary_data\<close> after the other.\<close>

fun read_pieces :: "nat list \<Rightarrow> JsonReadBinaryState \<Rightarrow> (byte list list \<times> JsonReadBinaryState) result" where
  "read_pieces [] st = Inr ([], st)"
| "read_pieces (n # ns) st =
     bindE (json_read_binary_data st n) (\<lambda>(bs, st1).
     bindE (read_pieces ns st1) (\<lambda>(bss, st2). Inr (bs # bss, st2)))"

lemma rb_inv_pieces:
  assumes "rb_inv st data rest"
  shows "\<exists>bss st'. read_pieces ns st = Inr (bss, st') \<and> concat bss = take (sum_list ns) data \<and>
    rb_inv st' (drop (sum_list ns) data) rest"
  using assms
proof (induction ns arbitrary: st data)
  case (Cons n ns)
  from Cons.prems obtain st1 where st1: "json_read_binary_data st n = Inr (take n data, st1)"
    "rb_inv st1 (drop n data) rest" by (rule rb_inv_data)
  from Cons.IH [OF st1(2)] obtain bss st' where "read_pieces ns st1 = Inr (bss, st')"
    "concat bss = take (sum_list ns) (drop n data)" "rb_inv st' (drop (sum_list ns) (drop n data)) rest"
    by blast
  with st1(1) show ?case by (simp add: take_add ac_simps)
qed auto

section \<open>Arrays and structures\<close>

subsection \<open>The loops end\<close>

text \<open>
  A call back that reads forward only, as all those of the agent do, makes every loop end.
\<close>

lemma json_test_char_no_growth: "json_test_char inp x = Inr inp' \<Longrightarrow> length inp' \<le> length inp"
  by (rule json_test_char_length)

lemma json_array_loop_returns:
  assumes "\<And>arg inp arg' inp'. call_back arg inp = Inr (arg', inp') \<Longrightarrow> length inp' \<le> length inp"
  shows "json_array_loop call_back arg inp \<noteq> None"
proof (induction "length inp" arbitrary: arg inp rule: less_induct)
  case less
  show ?case
  proof (cases "call_back arg inp")
    case (Inr r)
    obtain arg1 inp1 where r: "r = (arg1, inp1)" by fastforce
    obtain ch inp2 where rd: "read_no_whitespace inp1 = (ch, inp2)" by fastforce
    have "ch = 44 \<Longrightarrow> json_array_loop call_back arg1 inp2 \<noteq> None"
      using less [of inp2 arg1] read_no_whitespace_length [OF rd] assms Inr r by fastforce
    with Inr r rd show ?thesis by (subst json_array_loop.simps) (simp add: chr_def)
  qed (subst json_array_loop.simps, simp)
qed

lemma json_read_string_length:
  assumes "json_read_string inp sz = Inr (i, s, inp')"
  shows "length inp' < length inp"
proof -
  obtain ch inp1 where rd: "read_no_whitespace inp = (ch, inp1)" by fastforce
  have loop: "json_read_string_loop sz st inp = Inr (st', inp') \<Longrightarrow> length inp' \<le> length inp" for st inp st' inp'
  proof (induction sz st inp rule: json_read_string_loop.induct)
    case (1 sz st inp)
    show ?case
    proof (cases inp)
      case (Cons c t)
      with 1 show ?thesis
        by (subst (asm) (3) json_read_string_loop.simps)
          (fastforce simp: bindE_Inr_iff split: if_splits dest: read_esc_char_length)
    qed (use 1(3) in \<open>simp add: json_read_string_loop.simps [of sz st "[]"]\<close>)
  qed
  from assms rd have "ch \<noteq> MARKER_EOS" "length inp' \<le> length inp1"
    by (auto simp: json_read_string_def bindE_Inr_iff simp del: json_test_chars.simps split: if_splits
        dest!: json_test_chars_length loop)
  with read_no_whitespace_length [OF rd] show ?thesis by simp
qed

lemma json_struct_loop_returns:
  assumes "\<And>nm arg inp arg' inp'. call_back nm arg inp = Inr (arg', inp') \<Longrightarrow> length inp' \<le> length inp"
  shows "json_struct_loop call_back arg inp \<noteq> None"
proof (induction "length inp" arbitrary: arg inp rule: less_induct)
  case less
  show ?case
  proof (cases "json_read_string inp 256")
    case (Inr r)
    obtain i nm inp1 where r: "r = (i, nm, inp1)" by (cases r) auto
    show ?thesis
    proof (cases "json_test_char inp1 (chr CHR '':'')")
      case inp2: (Inr inp2)
      show ?thesis
      proof (cases "call_back nm arg inp2")
        case cb: (Inr q)
        obtain arg1 inp3 where q: "q = (arg1, inp3)" by fastforce
        obtain ch inp4 where rd: "read_no_whitespace inp3 = (ch, inp4)" by fastforce
        have "ch = 44 \<Longrightarrow> length inp4 < length inp3"
          using read_no_whitespace_length [OF rd] by simp
        moreover have "length inp3 \<le> length inp2" using assms cb q by blast
        moreover have "length inp2 < length inp"
          using json_read_string_length [OF Inr [unfolded r]] json_test_char_length [OF inp2] by simp
        ultimately have "ch = 44 \<Longrightarrow> json_struct_loop call_back arg1 inp4 \<noteq> None"
          using less [of inp4 arg1] by simp
        with Inr r inp2 cb q rd show ?thesis
          by (subst json_struct_loop.simps) (simp add: chr_def)
      qed (use Inr r inp2 in \<open>subst json_struct_loop.simps, simp\<close>)
    qed (use Inr r in \<open>subst json_struct_loop.simps, simp\<close>)
  qed (subst json_struct_loop.simps, simp)
qed

subsection \<open>Arrays of any element type\<close>

text \<open>
  The interface between \<open>json_read_array\<close> and a reader of elements: \<open>read\<close> takes from the
  stream what \<open>write\<close> has put there, when an array goes on or ends behind it, and the text
  of an element starts with a character that cannot be taken for the end of an array.
\<close>

definition json_sep :: "istream \<Rightarrow> bool" where
  "json_sep rest \<longleftrightarrow> peek_stream rest = 44 \<or> peek_stream rest = 93 \<or> peek_stream rest = 125"

text \<open>The way the services write an array: a comma before every element but the first.\<close>

fun write_elements :: "(ostream \<Rightarrow> 'a \<Rightarrow> ostream) \<Rightarrow> ostream \<Rightarrow> 'a list \<Rightarrow> ostream" where
  "write_elements wr out [] = out"
| "write_elements wr out (x # xs) = foldl (\<lambda>o1 y. wr (write_stream o1 44) y) (wr out x) xs"

definition write_array :: "(ostream \<Rightarrow> 'a \<Rightarrow> ostream) \<Rightarrow> ostream \<Rightarrow> 'a list \<Rightarrow> ostream" where
  "write_array wr out xs = write_stream (write_elements wr (write_stream out 91) xs) 93"

text \<open>The call back of an array of elements, which collects them.\<close>

definition collect_element ::
  "(istream \<Rightarrow> ('a \<times> istream) result) \<Rightarrow> 'a list \<Rightarrow> istream \<Rightarrow> ('a list \<times> istream) result" where
  "collect_element rd acc inp = bindE (rd inp) (\<lambda>(x, inp1). Inr (acc @ [x], inp1))"

locale json_codec =
  fixes wr :: "ostream \<Rightarrow> 'a \<Rightarrow> ostream"
    and rd :: "istream \<Rightarrow> ('a \<times> istream) result"
  assumes write_append: "wr out x = out @ wr [] x"
    and read_write: "json_sep rest \<Longrightarrow> rd (wr [] x @ rest) = Inr (x, rest)"
    and write_head: "\<exists>c t. wr [] x = c # t \<and> \<not> isspace c \<and> c \<noteq> 93"
begin

lemma foldl_elements:
  "foldl (\<lambda>o1. wr (o1 @ [44])) out xs = out @ concat (map (\<lambda>y. 44 # wr [] y) xs)"
proof (induction xs arbitrary: out)
  case (Cons y xs)
  have "wr (out @ [44]) y = out @ 44 # wr [] y"
    using write_append [of "out @ [44]" y] by simp
  with Cons [of "out @ 44 # wr [] y"] show ?case by simp
qed simp

lemma array_loop_elements:
  "json_array_loop (collect_element rd) acc (wr [] x @ concat (map (\<lambda>y. 44 # wr [] y) xs) @ 93 # rest) =
     Some (Inr (acc @ x # xs, rest))"
proof (induction xs arbitrary: acc x)
  case Nil
  have "rd (wr [] x @ 93 # rest) = Inr (x, 93 # rest)"
    by (rule read_write) (simp add: json_sep_def)
  then show ?case
    by (subst json_array_loop.simps) (simp add: collect_element_def isspace_def chr_def)
next
  case (Cons y xs)
  let ?t = "wr [] y @ concat (map (\<lambda>y. 44 # wr [] y) xs) @ 93 # rest"
  have "rd (wr [] x @ 44 # ?t) = Inr (x, 44 # ?t)"
    by (rule read_write) (simp add: json_sep_def)
  then have "collect_element rd acc (wr [] x @ 44 # ?t) = Inr (acc @ [x], 44 # ?t)"
    by (simp add: collect_element_def)
  with Cons [of "acc @ [x]" y] show ?case
    by (subst json_array_loop.simps) (simp add: isspace_def chr_def)
qed

lemma read_written_array:
  "json_read_array (collect_element rd) [] (write_array wr [] xs @ rest) = Some (Inr (True, xs, rest))"
proof (cases xs)
  case Nil
  then show ?thesis
    by (simp add: json_read_array_def write_array_def write_stream_def isspace_def chr_def)
next
  case (Cons y ys)
  obtain c t where c: "wr [] y = c # t" "\<not> isspace c" "c \<noteq> 93" using write_head [of y] by blast
  let ?es = "concat (map (\<lambda>y. 44 # wr [] y) ys) @ 93 # rest"
  have "write_array wr [] xs @ rest = 91 # wr [] y @ ?es"
    using write_append [of "[91]" y] Cons by (simp add: write_array_def foldl_elements)
  moreover have "json_peek (wr [] y @ ?es) = (c, wr [] y @ ?es)"
    using c by simp
  ultimately show ?thesis
    using array_loop_elements [of "[]" y ys rest] c Cons
    by (simp add: json_read_array_def isspace_def chr_def)
qed

end

interpretation jstring: json_codec json_write_string_len json_read_alloc_string
proof
  fix out :: ostream and x :: "byte list option" and rest :: istream
  show "json_write_string_len out x = out @ json_write_string_len [] x"
    by (cases x) (simp_all add: append_form)
  show "json_read_alloc_string (json_write_string_len [] x @ rest) = Inr (x, rest)"
    using alloc_string_json alloc_string_null by (cases x) (simp_all add: append_form)
  show "\<exists>c t. json_write_string_len [] x = c # t \<and> \<not> isspace c \<and> c \<noteq> 93"
    by (cases x) (simp_all add: append_form json_string_def isspace_def chr_def)
qed

lemma json_sep_no_digit: "json_sep rest \<Longrightarrow> no_digit rest"
  by (auto simp: json_sep_def no_digit_def)

lemma decimal_head: "\<exists>c t. decimal n = c # t \<and> \<not> isspace c \<and> c \<noteq> 93"
proof -
  obtain d ds where "decimal n = d # ds" using decimal_nonempty [of n] by (cases "decimal n") auto
  with decimal_digits [of n] show ?thesis by (auto simp: isspace_def)
qed

lemma sdecimal_head: "\<exists>c t. sdecimal n = c # t \<and> \<not> isspace c \<and> c \<noteq> 93"
  using decimal_head by (simp add: sdecimal_def isspace_def)

interpretation julong: json_codec json_write_ulong json_read_ulong
  using decimal_head
  by unfold_locales (auto simp: append_form read_ulong_json json_sep_no_digit)

interpretation jlong: json_codec json_write_long json_read_long
  using sdecimal_head
  by unfold_locales (auto simp: append_form read_long_json json_sep_no_digit)

interpretation jboolean: json_codec json_write_boolean json_read_boolean
proof
  fix out :: ostream and x :: bool and rest :: istream
  show "json_write_boolean out x = out @ json_write_boolean [] x"
    by (simp add: append_form)
  show "json_read_boolean (json_write_boolean [] x @ rest) = Inr (x, rest)"
    using read_boolean_json by (simp add: append_form)
  show "\<exists>c t. json_write_boolean [] x = c # t \<and> \<not> isspace c \<and> c \<noteq> 93"
    by (simp add: append_form isspace_def chr_def)
qed

section \<open>Whole values\<close>

text \<open>
  The JSON values that messages carry, and their text as the writers produce it without
  white space. \<open>JBin\<close> is binary data, in either encoding.
\<close>

datatype json =
    JNull | JBool bool | JNum u64 | JStr "byte list" | JBin "byte list"
  | JArr "json list" | JObj "(byte list \<times> json) list"

fun commas :: "sym list list \<Rightarrow> sym list" where
  "commas [] = []"
| "commas (t # ts) = t @ concat (map (\<lambda>t. 44 # t) ts)"

fun json_text :: "bool \<Rightarrow> json \<Rightarrow> sym list" where
  "json_text zc JNull = map chr ''null''"
| "json_text zc (JBool b) = map chr (if b then ''true'' else ''false'')"
| "json_text zc (JNum n) = sdecimal n"
| "json_text zc (JStr s) = json_string s"
| "json_text zc (JBin d) = json_binary zc d"
| "json_text zc (JArr vs) = 91 # commas (map (json_text zc) vs) @ [93]"
| "json_text zc (JObj ms) = 123 # commas (map (\<lambda>m. json_string (fst m) @ 58 # json_text zc (snd m)) ms) @ [125]"

fun bin_small :: "json \<Rightarrow> bool" where
  "bin_small (JBin d) = (length d < 2 ^ 64)"
| "bin_small (JArr vs) = list_all bin_small vs"
| "bin_small (JObj ms) = list_all (\<lambda>m. bin_small (snd m)) ms"
| "bin_small _ = True"

text \<open>The first character of the text of a value.\<close>

definition value_head :: "sym \<Rightarrow> bool" where
  "value_head c \<longleftrightarrow> c \<in> {110, 116, 102, 34, 45, 91, 123, 40} \<or> (48 \<le> c \<and> c \<le> 57)"

lemma value_head_facts: "value_head c \<Longrightarrow> \<not> isspace c \<and> c \<noteq> 93 \<and> c \<noteq> 125 \<and> 0 \<le> c"
  by (auto simp: value_head_def isspace_def)

lemma json_text_head: obtains c t where "json_text zc v = c # t" "value_head c"
proof (cases v)
  case (JNum n)
  obtain d ds where d: "decimal (unat n) = d # ds" "48 \<le> d" "d \<le> 57"
    using decimal_nonempty [of "unat n"] decimal_digits [of "unat n"] by (cases "decimal (unat n)") auto
  with JNum show ?thesis
    by (cases "sint n < 0") (auto intro!: that simp: sdecimal_def value_head_def)
next
  case (JBool b)
  with that show ?thesis by (cases b) (auto simp: value_head_def chr_def)
next
  case (JBin d)
  with that show ?thesis by (cases "zc \<and> d \<noteq> []") (auto simp: value_head_def json_binary_def)
qed (use that in \<open>auto simp: value_head_def chr_def json_string_def\<close>)

definition skipped :: "byte list \<Rightarrow> sym list \<Rightarrow> istream \<Rightarrow> (byte list \<times> istream) result option \<Rightarrow> bool" where
  "skipped tmp txt rest r \<longleftrightarrow> r = None \<or> r = Some (Inr (tmp @ map sym_byte txt, rest))"

text \<open>What may follow a value: anything that cannot continue a number.\<close>

definition no_number :: "istream \<Rightarrow> bool" where
  "no_number rest \<longleftrightarrow> \<not> number_char (peek_stream rest)"

lemma no_number_seps [simp]: "no_number (44 # r)" "no_number (93 # r)" "no_number (125 # r)" "no_number (58 # r)"
  by (simp_all add: no_number_def number_char_def)

lemma skip_char_Cons: "0 \<le> c \<Longrightarrow> skip_char tmp (c # inp) = Inr (c, tmp @ [sym_byte c], inp)"
  by (simp add: skip_char_def)

lemma chr_nonneg [simp]: "0 \<le> chr c"
  by (metis chr_def of_nat_0_le_iff of_nat_of_char)

lemma skip_chars_literal:
  "skip_chars tmp (map chr cs @ rest) cs = Inr (tmp @ map (\<lambda>c. sym_byte (chr c)) cs, rest)"
  by (induction cs arbitrary: tmp) (simp_all add: skip_char_Cons check_char_def)

lemma skip_number_run:
  assumes "\<forall>d \<in> set ds. 48 \<le> d \<and> d \<le> 57" "no_number rest"
  shows "skip_number tmp (ds @ rest) = (tmp @ map sym_byte ds, rest)"
  using assms
proof (induction ds arbitrary: tmp)
  case Nil
  then show ?case by (cases rest) (auto simp: no_number_def)
qed (simp add: number_char_def chr_def)

lemma skip_string_esc:
  "skip_string tmp (esc_string s @ 34 # rest) = Inr (tmp @ map sym_byte (esc_string s @ [34]), rest)"
proof (induction s arbitrary: tmp)
  case Nil
  then show ?case by (simp add: chr_def)
next
  case (Cons c s)
  have hex: "\<not> hex_digit x < 0 \<and> hex_digit x \<noteq> 34 \<and> hex_digit x \<noteq> 92" for x
  proof -
    have "0 \<le> x mod 16" "x mod 16 < 16" by simp_all
    then show ?thesis by (subst (1 2 3) hex_digit_mod) (auto simp: hex_digit_value)
  qed
  show ?case
  proof (cases "needs_escape c")
    case True
    have "byte_sym c = 34 \<Longrightarrow> sym_byte 34 = c" "byte_sym c = 92 \<Longrightarrow> sym_byte 92 = c"
      using sym_byte_inverse [of c] by simp_all
    with True Cons hex show ?thesis
      by (simp add: esc_char_def esc_seq_def Let_def chr_def)
  next
    case False
    then have "byte_sym c \<noteq> 34" "byte_sym c \<noteq> 92" by (auto simp: needs_escape_iff)
    with False Cons show ?thesis by (simp add: esc_char_def chr_def not_less)
  qed
qed

lemma read_size_decimal:
  assumes "n < 2 ^ 64" "c < 48 \<or> 57 < c"
  shows "read_size 0 (decimal n @ c # rest) = (c, n, rest)"
proof -
  have run: "read_size s (ds @ c # rest) = (c, foldl (\<lambda>s d. (s * 10 + nat (d - 48)) mod 2 ^ 64) s ds, rest)"
    if "\<forall>d \<in> set ds. 48 \<le> d \<and> d \<le> 57" for s ds
    using that assms(2) by (induction ds arbitrary: s) (auto simp: chr_def)
  have "foldl (\<lambda>s d. (s * 10 + nat (d - 48)) mod 2 ^ 64) 0 (decimal n) = n mod 2 ^ 64" for n
  proof (induction n rule: decimal.induct)
    case (1 n)
    show ?case
    proof (cases "n \<ge> 10")
      case True
      have "(n div 10 mod 2 ^ 64 * 10 + n mod 10) mod 2 ^ 64 = (n div 10 * 10 + n mod 10) mod (2 ^ 64 :: nat)"
        by (metis mod_add_left_eq mod_mult_left_eq)
      with 1 True show ?thesis by (subst decimal.simps) (simp add: nat_mod_distrib)
    next
      case False
      then show ?thesis by (subst decimal.simps) simp
    qed
  qed
  with run [OF decimal_digits, of 0 n] assms(1) show ?thesis by simp
qed

lemma skip_binary_json:
  assumes "length d < 2 ^ 64" "d \<noteq> []"
  shows "skip_binary (tmp @ [sym_byte 40]) (tl (json_binary True d) @ rest) =
    Inr (tmp @ map sym_byte (json_binary False d), rest)"
proof -
  have n: "unat (of_nat (length d) :: u64) = length d"
    using assms by (simp add: unat_of_nat take_bit_nat_eq_self)
  have "read_size 0 (tl (json_binary True d) @ rest) = (41, length d, map byte_sym d @ rest)"
    using read_size_decimal [of "length d" 41 "map byte_sym d @ rest"] assms n by (simp add: json_binary_def)
  then show ?thesis
    using read_bytes_take [of "length d" d rest]
    by (simp add: skip_binary_def json_binary_def check_char_def chr_def write_base64_append Let_def)
qed

text \<open>\<open>skip_object\<close> copies \<open>txt\<close> to \<open>tmp_buf\<close> when it reads \<open>inp\<close>, for any fuel that is enough.\<close>

definition skips :: "sym list \<Rightarrow> sym list \<Rightarrow> bool" where
  "skips inp txt \<longleftrightarrow>
     (\<forall>fuel tmp rest. no_number rest \<longrightarrow> skipped tmp txt rest (skip_object fuel tmp (inp @ rest)))"

lemma skipsD: "skips inp txt \<Longrightarrow> no_number rest \<Longrightarrow> skipped tmp txt rest (skip_object fuel tmp (inp @ rest))"
  by (simp add: skips_def)

lemma skips_array_loop:
  assumes "\<forall>v \<in> set (x # xs). skips (f v) (g v)"
  shows "skipped tmp (commas (map g (x # xs)) @ [93]) rest
    (skip_array_loop fuel tmp (commas (map f (x # xs)) @ 93 # rest))"
  using assms
proof (induction xs arbitrary: x tmp fuel)
  case Nil
  show ?case
  proof (cases fuel)
    case (Suc fl)
    have "skipped tmp (g x) (93 # rest) (skip_object fl tmp (f x @ 93 # rest))"
      using Nil by (intro skipsD) simp_all
    with Suc show ?thesis by (auto simp: skipped_def skip_char_Cons isspace_def chr_def)
  qed (simp add: skipped_def)
next
  case (Cons y ys)
  show ?case
  proof (cases fuel)
    case (Suc fl)
    let ?in = "commas (map f (y # ys)) @ 93 # rest"
    have "skipped tmp (g x) (44 # ?in) (skip_object fl tmp (f x @ 44 # ?in))"
      using Cons.prems by (intro skipsD) simp_all
    moreover have "skipped (tmp @ map sym_byte (g x) @ [sym_byte 44]) (commas (map g (y # ys)) @ [93]) rest
        (skip_array_loop fl (tmp @ map sym_byte (g x) @ [sym_byte 44]) ?in)"
      using Cons.prems by (intro Cons.IH) simp
    ultimately show ?thesis
      using Suc by (auto simp: skipped_def skip_char_Cons isspace_def chr_def)
  qed (simp add: skipped_def)
qed

lemma skips_struct_loop:
  assumes "\<forall>m \<in> set (x # xs). skips (nm m) (nm m) \<and> skips (f m) (g m)"
  shows "skipped tmp (commas (map (\<lambda>m. nm m @ 58 # g m) (x # xs)) @ [125]) rest
    (skip_struct_loop fuel tmp (commas (map (\<lambda>m. nm m @ 58 # f m) (x # xs)) @ 125 # rest))"
  using assms
proof (induction xs arbitrary: x tmp fuel)
  case Nil
  show ?case
  proof (cases fuel)
    case (Suc fl)
    let ?t2 = "tmp @ map sym_byte (nm x) @ [sym_byte 58]"
    have "skipped tmp (nm x) (58 # f x @ 125 # rest) (skip_object fl tmp (nm x @ 58 # f x @ 125 # rest))"
      "skipped ?t2 (g x) (125 # rest) (skip_object fl ?t2 (f x @ 125 # rest))"
      using Nil by (auto intro!: skipsD)
    with Suc show ?thesis by (auto simp: skipped_def skip_char_Cons check_char_def isspace_def chr_def)
  qed (simp add: skipped_def)
next
  case (Cons y ys)
  show ?case
  proof (cases fuel)
    case (Suc fl)
    let ?in = "commas (map (\<lambda>m. nm m @ 58 # f m) (y # ys)) @ 125 # rest"
    let ?t2 = "tmp @ map sym_byte (nm x) @ [sym_byte 58]"
    let ?t3 = "?t2 @ map sym_byte (g x) @ [sym_byte 44]"
    have "skipped tmp (nm x) (58 # f x @ 44 # ?in) (skip_object fl tmp (nm x @ 58 # f x @ 44 # ?in))"
      "skipped ?t2 (g x) (44 # ?in) (skip_object fl ?t2 (f x @ 44 # ?in))"
      using Cons.prems by (auto intro!: skipsD)
    moreover have "skipped ?t3 (commas (map (\<lambda>m. nm m @ 58 # g m) (y # ys)) @ [125]) rest
        (skip_struct_loop fl ?t3 ?in)"
      using Cons.prems by (intro Cons.IH) simp
    ultimately show ?thesis
      using Suc by (auto simp: skipped_def skip_char_Cons check_char_def isspace_def chr_def)
  qed (simp add: skipped_def)
qed

lemma skips_string: "skips (json_string s) (json_string s)"
  unfolding skips_def
proof (intro allI impI)
  fix fuel tmp rest
  show "skipped tmp (json_string s) rest (skip_object fuel tmp (json_string s @ rest))"
    by (cases fuel) (simp_all add: skipped_def json_string_def skip_char_Cons isspace_def chr_def skip_string_esc)
qed

lemma skips_array:
  assumes "\<forall>v \<in> set vs. skips (f v) (g v) \<and> (\<exists>c t. f v = c # t \<and> value_head c)"
  shows "skips (91 # commas (map f vs) @ [93]) (91 # commas (map g vs) @ [93])"
  unfolding skips_def
proof (intro allI impI)
  fix fuel tmp rest
  show "skipped tmp (91 # commas (map g vs) @ [93]) rest
      (skip_object fuel tmp ((91 # commas (map f vs) @ [93]) @ rest))"
  proof (cases fuel)
    case (Suc fl)
    show ?thesis
    proof (cases vs)
      case Nil
      with Suc show ?thesis by (simp add: skipped_def skip_char_Cons isspace_def chr_def)
    next
      case (Cons x xs)
      with assms obtain c t where c: "f x = c # t" "value_head c" by auto
      have "skipped (tmp @ [sym_byte 91]) (commas (map g (x # xs)) @ [93]) rest
          (skip_array_loop fl (tmp @ [sym_byte 91]) (commas (map f (x # xs)) @ 93 # rest))"
        using assms Cons by (intro skips_array_loop) simp
      then show ?thesis
        using Suc Cons c value_head_facts [OF c(2)]
        by (auto simp: skipped_def skip_char_Cons isspace_def chr_def)
    qed
  qed (simp add: skipped_def)
qed

lemma skips_struct:
  assumes "\<forall>m \<in> set ms. skips (f m) (g m)"
  shows "skips (123 # commas (map (\<lambda>m. json_string (fst m) @ 58 # f m) ms) @ [125])
    (123 # commas (map (\<lambda>m. json_string (fst m) @ 58 # g m) ms) @ [125])"
  unfolding skips_def
proof (intro allI impI)
  fix fuel tmp rest
  let ?nm = "\<lambda>m. json_string (fst m)"
  show "skipped tmp (123 # commas (map (\<lambda>m. ?nm m @ 58 # g m) ms) @ [125]) rest
      (skip_object fuel tmp ((123 # commas (map (\<lambda>m. ?nm m @ 58 # f m) ms) @ [125]) @ rest))"
  proof (cases fuel)
    case (Suc fl)
    show ?thesis
    proof (cases ms)
      case Nil
      with Suc show ?thesis by (simp add: skipped_def skip_char_Cons isspace_def chr_def)
    next
      case (Cons x xs)
      obtain t where c: "json_string (fst x) = 34 # t" by (simp add: json_string_def)
      have "skipped (tmp @ [sym_byte 123]) (commas (map (\<lambda>m. ?nm m @ 58 # g m) (x # xs)) @ [125]) rest
          (skip_struct_loop fl (tmp @ [sym_byte 123])
            (commas (map (\<lambda>m. ?nm m @ 58 # f m) (x # xs)) @ 125 # rest))"
        using assms Cons by (intro skips_struct_loop) (simp add: skips_string)
      then show ?thesis
        using Suc Cons c by (auto simp: skipped_def skip_char_Cons isspace_def chr_def)
    qed
  qed (simp add: skipped_def)
qed

lemma sym_byte_comp_byte_sym [simp]: "sym_byte \<circ> byte_sym = id"
  by auto

lemma digits_range:
  assumes "0 \<le> n" "n < 16777216" "d \<in> set (b64_digits n)"
  shows "0 \<le> d \<and> d < 64"
  using assms by (auto simp: b64_digits_def)

lemma b64_encode_chars:
  assumes "b \<in> set (b64_encode d)"
  shows "byte_sym b \<noteq> 34" "byte_sym b \<noteq> 92"
proof -
  have dig: "byte_sym (i2c i) \<noteq> 34 \<and> byte_sym (i2c i) \<noteq> 92" if "0 \<le> i \<and> i < 64" for i
  proof -
    have "c2i 34 = None" "c2i 92 = None" by (simp_all add: c2i_def char2int_def)
    moreover have "c2i (byte_sym (i2c i)) = Some i" using that by simp
    ultimately show ?thesis by (metis option.distinct(1))
  qed
  have "0 \<le> uint b0 * 65536 + uint b1 * 256 + uint b2 \<and> uint b0 * 65536 + uint b1 * 256 + uint b2 < 16777216"
    for b0 b1 b2 :: byte
    using uint_byte_bounds [of b0] uint_byte_bounds [of b1] uint_byte_bounds [of b2] by linarith
  note range = conjunct1 [OF this] conjunct2 [OF this]
  have "byte_sym b \<noteq> 34 \<and> byte_sym b \<noteq> 92" using assms
  proof (induction d rule: b64_encode.induct)
    case (2 b0)
    with dig digits_range [OF range [of b0 0 0]] show ?case by (auto dest!: in_set_takeD)
  next
    case (3 b0 b1)
    with dig digits_range [OF range [of b0 b1 0]] show ?case by (auto dest!: in_set_takeD)
  next
    case (4 b0 b1 b2 bs)
    with dig digits_range [OF range [of b0 b1 b2]] show ?case by auto
  qed simp
  then show "byte_sym b \<noteq> 34" "byte_sym b \<noteq> 92" by simp_all
qed

lemma skips_binary:
  assumes "length d < 2 ^ 64"
  shows "skips (json_binary zc d) (json_binary False d)"
  unfolding skips_def
proof (intro allI impI)
  fix fuel tmp rest
  have enc: "skip_string tmp (map byte_sym (b64_encode d) @ 34 # rest) =
      Inr (tmp @ b64_encode d @ [sym_byte 34], rest)" for tmp
  proof -
    have plain: "skip_string tmp (map byte_sym bs @ 34 # rest) = Inr (tmp @ bs @ [sym_byte 34], rest)"
      if "\<forall>b \<in> set bs. byte_sym b \<noteq> 34 \<and> byte_sym b \<noteq> 92" for bs tmp
      using that by (induction bs arbitrary: tmp) (auto simp: chr_def not_less)
    show ?thesis using b64_encode_chars by (intro plain) blast
  qed
  show "skipped tmp (json_binary False d) rest (skip_object fuel tmp (json_binary zc d @ rest))"
  proof (cases fuel)
    case (Suc fl)
    show ?thesis
    proof (cases "zc \<and> d \<noteq> []")
      case True
      then obtain t where "json_binary True d = 40 # t" by (simp add: json_binary_def)
      with Suc skip_binary_json [OF assms, of tmp rest] True show ?thesis
        by (simp add: skipped_def skip_char_Cons isspace_def chr_def)
    next
      case False
      then have "json_binary zc d = 34 # map byte_sym (b64_encode d) @ [34]" by (simp add: json_binary_def)
      with Suc enc show ?thesis
        by (simp add: skipped_def json_binary_def skip_char_Cons isspace_def chr_def)
    qed
  qed (simp add: skipped_def)
qed

lemma skips_number: "skips (sdecimal n) (sdecimal n)"
  unfolding skips_def
proof (intro allI impI)
  fix fuel tmp rest
  assume rest: "no_number rest"
  have dec: "\<exists>d ds. decimal k = d # ds \<and> 48 \<le> d \<and> d \<le> 57 \<and> (\<forall>d \<in> set ds. 48 \<le> d \<and> d \<le> 57)" for k
    using decimal_nonempty [of k] decimal_digits [of k] by (cases "decimal k") auto
  show "skipped tmp (sdecimal n) rest (skip_object fuel tmp (sdecimal n @ rest))"
  proof (cases fuel)
    case (Suc fl)
    show ?thesis
    proof (cases "sint n < 0")
      case True
      with Suc skip_number_run [OF decimal_digits rest, of "tmp @ [sym_byte 45]" "unat (- n)"]
      show ?thesis by (simp add: sdecimal_def skipped_def skip_char_Cons isspace_def chr_def)
    next
      case False
      from dec [of "unat n"] obtain d ds where d: "decimal (unat n) = d # ds" "48 \<le> d" "d \<le> 57"
        "\<forall>d \<in> set ds. 48 \<le> d \<and> d \<le> 57" by blast
      with Suc False skip_number_run [OF d(4) rest, of "tmp @ [sym_byte d]"]
      show ?thesis by (simp add: sdecimal_def skipped_def skip_char_Cons isspace_def chr_def)
    qed
  qed (simp add: skipped_def)
qed

lemma skips_literals:
  "skips (map chr ''null'') (map chr ''null'')"
  "skips (map chr (if b then ''true'' else ''false'')) (map chr (if b then ''true'' else ''false''))"
proof -
  have "skipped tmp (map chr ''null'') rest (skip_object fuel tmp (map chr ''null'' @ rest))"
    "skipped tmp (map chr ''true'') rest (skip_object fuel tmp (map chr ''true'' @ rest))"
    "skipped tmp (map chr ''false'') rest (skip_object fuel tmp (map chr ''false'' @ rest))" for tmp fuel rest
    using skip_chars_literal [of _ "''ull''" rest] skip_chars_literal [of _ "''rue''" rest]
      skip_chars_literal [of _ "''alse''" rest]
    by (cases fuel; simp add: skipped_def skip_char_Cons isspace_def chr_def del: skip_chars.simps)+
  then show "skips (map chr ''null'') (map chr ''null'')"
    "skips (map chr (if b then ''true'' else ''false'')) (map chr (if b then ''true'' else ''false''))"
    by (auto simp only: skips_def split: if_splits)
qed

lemma skips_json: "bin_small v \<Longrightarrow> skips (json_text zc v) (json_text False v)"
proof (induction v)
  case (JArr vs)
  have "\<exists>c t. json_text zc v = c # t \<and> value_head c" for v by (meson json_text_head)
  with JArr show ?case by (auto simp: list_all_iff intro!: skips_array)
next
  case (JObj ms)
  have "skips (json_text zc (snd m)) (json_text False (snd m))" if "m \<in> set ms" for m
    using JObj that by (cases m) (auto simp: list_all_iff)
  then show ?case by (auto intro!: skips_struct)
qed (simp_all only: json_text.simps bin_small.simps skips_literals skips_number skips_string skips_binary)

lemma read_object_json:
  assumes "bin_small v" "no_number rest"
  shows "json_read_object (json_text zc v @ rest) = Some (Inr (map sym_byte (json_text False v), rest))"
  using skipsD [OF skips_json [OF assms(1), of zc] assms(2), of "[]" "Suc (2 * length (json_text zc v @ rest))"]
    json_read_object_returns [of "json_text zc v @ rest"]
  by (simp only: skipped_def json_read_object_def append_Nil) blast

section \<open>Arrays of strings\<close>

lemma c_string_at:
  "0 \<notin> set s \<Longrightarrow> c_string (pre @ s @ 0 # post) (length pre) = s"
  by (subst c_string_def) (simp, subst takeWhile_append2, auto)

lemma array_ptrs_strings:
  assumes "\<forall>s \<in> set ss. 0 \<notin> set s"
  shows "map (c_string (pre @ concat (map (\<lambda>s. s @ [0]) ss) @ post)) (array_ptrs (length pre) (map length ss)) = ss"
  using assms
proof (induction ss arbitrary: pre)
  case (Cons s ss)
  have "map (c_string ((pre @ s @ [0]) @ concat (map (\<lambda>s. s @ [0]) ss) @ post))
      (array_ptrs (length (pre @ s @ [0])) (map length ss)) = ss"
    using Cons by (intro Cons.IH) simp
  moreover have "c_string (pre @ s @ 0 # concat (map (\<lambda>s. s @ [0]) ss) @ post) (length pre) = s"
    using Cons.prems by (intro c_string_at) simp
  ultimately show ?case by (simp add: add.assoc)
qed simp

lemma array_element_json:
  "array_element tmp (json_string s @ rest) = Inr (tmp @ s, length s, rest)"
  by (simp add: array_element_def json_string_def isspace_def chr_def read_string_chars_esc)

lemma string_array_loop_json:
  "string_array_loop tmp lens (commas (map json_string (s # ss)) @ 93 # rest) =
     Inr (tmp @ concat (map (\<lambda>s. s @ [0]) (s # ss)), lens @ map length (s # ss), rest)"
proof (induction ss arbitrary: s tmp lens)
  case Nil
  show ?case
    by (subst string_array_loop.simps) (simp add: array_element_json isspace_def chr_def check_char_def)
next
  case (Cons s1 ss)
  from Cons [of "tmp @ s @ [0]" "lens @ [length s]" s1] show ?case
    by (subst string_array_loop.simps) (simp add: array_element_json isspace_def chr_def check_char_def)
qed

lemma string_array_json:
  assumes "\<forall>s \<in> set ss. 0 \<notin> set s"
  shows "json_read_alloc_string_array (91 # commas (map json_string ss) @ 93 # rest) = Inr (Some ss, rest)"
proof (cases ss)
  case Nil
  then show ?thesis by (simp add: json_read_alloc_string_array_def isspace_def chr_def)
next
  case (Cons s ss')
  let ?in = "commas (map json_string ss) @ 93 # rest"
  obtain t where t: "?in = 34 # t" using Cons by (simp add: json_string_def)
  then have "json_peek ?in = (34, ?in)" by (simp add: isspace_def)
  then show ?thesis
    using string_array_loop_json [of "[]" "[]" s ss' rest] array_ptrs_strings [OF assms, of "[]" "[0]"] Cons
    by (simp add: json_read_alloc_string_array_def isspace_def chr_def Let_def del: commas.simps)
qed

section \<open>Properties\<close>






text \<open>
  Binary data written in pieces of any sizes, in either encoding, and read back through
  buffers of any other sizes arrives complete and in order, and \<open>json_read_binary_end\<close> leaves
  the stream behind it.
\<close>

theorem json_binary_pieces_roundtrip:
  assumes "length (concat ds) < 2 ^ 64" "length (concat ds) \<le> sum_list ns"
    and "json_write_binary_end (fold (\<lambda>d st. json_write_binary_data st d) ds
          (json_write_binary_start zero_copy [] (length (concat ds)))) = Some txt"
  shows "\<exists>st bss st'. json_read_binary_start (txt @ rest) = Inr st \<and>
    read_pieces ns st = Inr (bss, st') \<and> concat bss = concat ds \<and>
    json_read_binary_end st' = Some (Inr rest)"
proof -
  have "txt = json_binary zero_copy (concat ds)" using assms(3) json_write_binary_pieces [where out = "[]"] by simp
  with rb_inv_start [OF assms(1), of zero_copy rest] obtain st where
    st: "json_read_binary_start (txt @ rest) = Inr st" "rb_inv st (concat ds) rest" by auto
  from rb_inv_pieces [OF st(2), of ns] obtain bss st' where "read_pieces ns st = Inr (bss, st')"
    "concat bss = concat ds" "rb_inv st' [] rest" using assms(2) by auto
  with st(1) rb_inv_end show ?thesis by blast
qed

theorem json_binary_pieces_roundtrip_witness:
  "\<exists>txt st bss st'. json_read_binary_start (txt @ [44]) = Inr st \<and>
    read_pieces [2, 5] st = Inr (bss, st') \<and> concat bss = [1, 2, 3, 4] \<and>
    json_read_binary_end st' = Some (Inr [44])"
proof -
  have "json_write_binary_end (fold (\<lambda>d st. json_write_binary_data st d) [[1], [2, 3, 4]]
      (json_write_binary_start False [] (length (concat [[1], [2, 3, 4 :: byte]])))) =
      Some (json_binary False (concat [[1], [2, 3, 4]]))"
    by (subst json_write_binary_pieces) simp
  from json_binary_pieces_roundtrip [OF _ _ this, of "[2, 5]" "[44]"] show ?thesis by auto
qed

text \<open>
  \<open>json_read_alloc_binary\<close>, whatever the size of its static buffer, returns exactly the data
  that \<open>json_write_binary\<close> was given, without failing an assertion.
\<close>

theorem json_alloc_binary_roundtrip:
  assumes "length data < 2 ^ 64"
  shows "\<exists>txt. json_write_binary zero_copy [] (Some data) = Some txt \<and>
    json_read_alloc_binary tmp_size (txt @ rest) = Some (Inr (Some data, rest))"
  using alloc_binary_json [OF assms, of tmp_size zero_copy rest] by (simp add: append_form)

theorem json_alloc_binary_roundtrip_witness:
  "\<exists>txt. json_write_binary True [] (Some [0, 255, 3]) = Some txt \<and>
    json_read_alloc_binary 0 (txt @ [0]) = Some (Inr (Some [0, 255, 3], [0]))"
  using json_alloc_binary_roundtrip [of "[0, 255, 3]" True 0 "[0]"] by simp



text \<open>
  \<open>json_read_object\<close> and \<open>json_skip_object\<close> return on every input, well formed or not, with an
  error or with at least one symbol consumed.
\<close>

theorem json_read_object_total:
  "(\<exists>e. json_read_object inp = Some (Inl e)) \<or>
   (\<exists>tmp inp'. json_read_object inp = Some (Inr (tmp, inp')) \<and>
      json_skip_object inp = Some (Inr inp') \<and> length inp' < length inp)"
proof -
  obtain r where r: "skip_object (Suc (2 * length inp)) [] inp = Some r"
    using json_read_object_returns [of inp] by (auto simp only: json_read_object_def)
  show ?thesis
  proof (cases r)
    case (Inr p)
    then obtain tmp inp' where "skip_object (Suc (2 * length inp)) [] inp = Some (Inr (tmp, inp'))"
      using r by (cases p) simp
    moreover from skip_shrinks(1) [OF this] have "length inp' < length inp" .
    ultimately show ?thesis by (simp del: skip_object.simps add: json_read_object_def json_skip_object_def)
  qed (use r in \<open>simp del: skip_object.simps add: json_read_object_def\<close>)
qed

text \<open>
  An array of strings (or nulls) written the way the services do is read back by
  \<open>json_read_array\<close> with a call back that reads one string, for every list of strings.
\<close>

theorem json_array_of_strings_roundtrip:
  "json_read_array (collect_element json_read_alloc_string) [] (write_array json_write_string_len [] xs @ rest) =
     Some (Inr (True, xs, rest))"
  by (rule jstring.read_written_array)

text \<open>
  \<open>json_read_array\<close> and \<open>json_read_struct\<close> return on every input when the call back never
  gives symbols back to the stream.
\<close>

theorem json_loops_return:
  assumes "\<And>arg inp arg' inp'. cb arg inp = Inr (arg', inp') \<Longrightarrow> length inp' \<le> length inp"
    and "\<And>nm arg inp arg' inp'. cbs nm arg inp = Inr (arg', inp') \<Longrightarrow> length inp' \<le> length inp"
  shows "json_read_array cb arg inp \<noteq> None \<and> json_read_struct cbs arg inp \<noteq> None"
proof -
  obtain ch inp1 pk inp2 where p: "read_no_whitespace inp = (ch, inp1)" "json_peek inp1 = (pk, inp2)" by fastforce
  have "json_array_loop cb arg inp2 \<noteq> None" by (rule json_array_loop_returns) (rule assms(1))
  moreover have "json_struct_loop cbs arg inp2 \<noteq> None" by (rule json_struct_loop_returns) (rule assms(2))
  ultimately show ?thesis using p
    by (auto simp: json_read_array_def json_read_struct_def bindOE_def split: sum.splits
        simp del: json_test_chars.simps)
qed

theorem json_loops_return_witness:
  "json_read_array (\<lambda>arg inp. Inr (arg, tl inp)) () [91, 49, 44, 49, 93] \<noteq> None \<and>
   json_read_struct (\<lambda>nm arg inp. Inr (arg, tl inp)) () [91, 49, 44, 49, 93] \<noteq> None"
  using json_loops_return [of "\<lambda>arg inp. Inr (arg, tl inp)" "\<lambda>nm arg inp. Inr (arg, tl inp)" "()"
      "[91, 49, 44, 49, 93]"] by simp

text \<open>
  \<open>json_read_alloc_string_array\<close> returns the strings of a JSON array in order; its pointers
  into the shared block of memory designate exactly these strings.
\<close>

theorem json_string_array_roundtrip:
  assumes "\<forall>s \<in> set ss. 0 \<notin> set s"
  shows "json_read_alloc_string_array (json_text False (JArr (map JStr ss)) @ rest) = Inr (Some ss, rest)"
  using string_array_json [OF assms, of rest] by (simp add: comp_def)

theorem json_string_array_roundtrip_witness:
  "json_read_alloc_string_array (json_text False (JArr (map JStr [[], [34, 97]])) @ [1]) =
     Inr (Some [[], [34, 97]], [1])"
  using json_string_array_roundtrip [of "[[], [34, 97]]" "[1]"] by simp

end
