(* ===== verification/OutputBuf.thy ===== *)
theory OutputBuf
  imports Prelude
begin

text \<open>
  The output queue of a channel: src/agent/tcf/framework/outputbuf.c. Buffers are appended to a
  queue; the first one is being written by an asynchronous request, and its completion
  is reported by \<open>output_queue_done\<close>. Free buffers are kept in a pool of limited size.

  The static pool and the queue are one record here. \<open>LINK\<close> lists are lists. The call back
  \<open>post_io_request\<close> starts an asynchronous write of the bytes \<open>buf_pos .. buf_len\<close> of a buffer:
  \<open>oq_pending\<close> holds the outstanding requests with these bytes, and the completion of
  one removes it.
\<close>

definition OUTPUT_QUEUE_BUF_SIZE :: nat where "OUTPUT_QUEUE_BUF_SIZE = 0x4000"
definition MAX_POOL_SIZE :: nat where "MAX_POOL_SIZE = 32"

record OutputBuffer =
  ob_buf :: "byte list"
  ob_len :: nat
  ob_pos :: nat

record OutputQueue =
  oq_error :: int
  oq_queue :: "OutputBuffer list"
  oq_pool :: "OutputBuffer list"
  oq_pool_size :: nat
  oq_pending :: "byte list list"

text \<open>The bytes of a buffer that wait to be written.\<close>

definition ob_data :: "OutputBuffer \<Rightarrow> byte list" where
  "ob_data bf = drop (ob_pos bf) (take (ob_len bf) (ob_buf bf))"

definition post_io_request :: "OutputBuffer \<Rightarrow> OutputQueue \<Rightarrow> OutputQueue" where
  "post_io_request bf q = q\<lparr>oq_pending := oq_pending q @ [ob_data bf]\<rparr>"

definition output_queue_ini :: "OutputQueue \<Rightarrow> OutputQueue" where
  "output_queue_ini q = q\<lparr>oq_queue := []\<rparr>"

definition output_queue_alloc_obuf :: "OutputQueue \<Rightarrow> OutputBuffer \<times> OutputQueue" where
  "output_queue_alloc_obuf q =
     (case oq_pool q of
        [] \<Rightarrow> (\<lparr>ob_buf = replicate OUTPUT_QUEUE_BUF_SIZE 0, ob_len = 0, ob_pos = 0\<rparr>, q)
      | bf # pool \<Rightarrow>
          (bf\<lparr>ob_pos := 0, ob_len := 0\<rparr>, q\<lparr>oq_pool := pool, oq_pool_size := oq_pool_size q - 1\<rparr>))"

definition output_queue_free_obuf :: "OutputBuffer \<Rightarrow> OutputQueue \<Rightarrow> OutputQueue" where
  "output_queue_free_obuf bf q =
     (if oq_pool_size q < MAX_POOL_SIZE
      then q\<lparr>oq_pool := oq_pool q @ [bf], oq_pool_size := oq_pool_size q + 1\<rparr>
      else q)"

text \<open>
  The test \<open>q->queue.next != q->queue.prev\<close> holds when the queue has two buffers or more.
  \<open>add_last\<close> is \<open>list_add_last\<close> and the posting of a request for a buffer that became the first.
\<close>

definition add_last :: "OutputBuffer \<Rightarrow> OutputQueue \<Rightarrow> OutputQueue" where
  "add_last bf q =
     (let q1 = q\<lparr>oq_queue := oq_queue q @ [bf]\<rparr>
      in if oq_queue q = [] then post_io_request bf q1 else q1)"

definition output_queue_add_obuf :: "OutputBuffer \<Rightarrow> OutputQueue \<Rightarrow> OutputQueue" where
  "output_queue_add_obuf bf q =
     (if length (oq_queue q) \<ge> 2 \<and> OUTPUT_QUEUE_BUF_SIZE - ob_len (last (oq_queue q)) \<ge> ob_len bf
      then
        (let bp = last (oq_queue q);
             bp1 = bp\<lparr>ob_buf := blit (ob_buf bp) (ob_len bp) (take (ob_len bf) (ob_buf bf)),
                      ob_len := ob_len bp + ob_len bf\<rparr>
         in output_queue_free_obuf bf (q\<lparr>oq_queue := butlast (oq_queue q) @ [bp1]\<rparr>))
      else add_last (bf\<lparr>ob_pos := 0\<rparr>) q)"

text \<open>The loop of \<open>output_queue_add\<close> that fills new buffers.\<close>

function add_loop :: "byte list \<Rightarrow> OutputQueue \<Rightarrow> OutputQueue" where
  "add_loop bs q =
     (if bs = [] then q
      else
        (let len = min (length bs) OUTPUT_QUEUE_BUF_SIZE;
             (bf, q1) = output_queue_alloc_obuf q;
             bf1 = bf\<lparr>ob_pos := 0, ob_len := len, ob_buf := blit (ob_buf bf) 0 (take len bs)\<rparr>
         in add_loop (drop len bs) (add_last bf1 q1)))"
  by pat_completeness auto
termination
  by (relation "measure (\<lambda>(bs, q). length bs)") (auto simp: OUTPUT_QUEUE_BUF_SIZE_def)

declare add_loop.simps [simp del]

definition output_queue_add :: "byte list \<Rightarrow> OutputQueue \<Rightarrow> OutputQueue" where
  "output_queue_add bs q =
     (if oq_error q \<noteq> 0 then q
      else if length (oq_queue q) \<ge> 2
      then
        (let bf = last (oq_queue q);
             gap = OUTPUT_QUEUE_BUF_SIZE - ob_len bf;
             len = min (length bs) gap;
             bf1 = bf\<lparr>ob_buf := blit (ob_buf bf) (ob_len bf) (take len bs), ob_len := ob_len bf + len\<rparr>
         in if gap > 0 then add_loop (drop len bs) (q\<lparr>oq_queue := butlast (oq_queue q) @ [bf1]\<rparr>)
            else add_loop bs q)
      else add_loop bs q)"

fun clear_loop :: "OutputBuffer list \<Rightarrow> OutputQueue \<Rightarrow> OutputQueue" where
  "clear_loop [] q = q"
| "clear_loop (bf # bfs) q = clear_loop bfs (output_queue_free_obuf bf (q\<lparr>oq_queue := bfs\<rparr>))"

definition output_queue_clear :: "OutputQueue \<Rightarrow> OutputQueue" where
  "output_queue_clear q = clear_loop (oq_queue q) q"

text \<open>
  \<open>output_queue_done\<close> is called when the outstanding request has completed: with an error
  or with the number of bytes written.
\<close>

definition output_queue_done :: "int \<Rightarrow> nat \<Rightarrow> OutputQueue \<Rightarrow> OutputQueue" where
  "output_queue_done error sz q0 =
     (let q = q0\<lparr>oq_pending := tl (oq_pending q0)\<rparr>;
          q1 =
            (if error \<noteq> 0 then output_queue_clear (q\<lparr>oq_error := error\<rparr>)
             else
               (case oq_queue q of
                  [] \<Rightarrow> q
                | bf # bfs \<Rightarrow>
                    (let bf1 = bf\<lparr>ob_pos := ob_pos bf + sz\<rparr>
                     in if ob_pos bf1 < ob_len bf1 then q\<lparr>oq_queue := bf1 # bfs\<rparr>
                        else output_queue_free_obuf bf1 (q\<lparr>oq_queue := bfs\<rparr>))))
      in case oq_queue q1 of [] \<Rightarrow> q1 | bf # _ \<Rightarrow> post_io_request bf q1)"

section \<open>The interface: a queue of bytes with one request in flight\<close>

text \<open>
  What a channel relies on: bytes are added at the end; as long as there are bytes, exactly
  one request is in flight, for a non-empty prefix of them; its completion removes
  the bytes that were written.
\<close>

locale byte_queue =
  fixes add :: "byte list \<Rightarrow> 'q \<Rightarrow> 'q"
    and sent :: "nat \<Rightarrow> 'q \<Rightarrow> 'q"
    and inflight :: "'q \<Rightarrow> byte list list"
    and view :: "'q \<Rightarrow> byte list"
    and inv :: "'q \<Rightarrow> bool"
  assumes add_inv: "inv q \<Longrightarrow> inv (add bs q)"
    and add_view: "inv q \<Longrightarrow> view (add bs q) = view q @ bs"
    and inflight_one: "inv q \<Longrightarrow> inflight q = (if view q = [] then [] else [hd (inflight q)])"
    and inflight_prefix: "inv q \<Longrightarrow> view q \<noteq> [] \<Longrightarrow>
        hd (inflight q) \<noteq> [] \<and> (\<exists>t. view q = hd (inflight q) @ t)"
    and add_keeps: "inv q \<Longrightarrow> view q \<noteq> [] \<Longrightarrow> inflight (add bs q) = inflight q"
    and sent_inv: "inv q \<Longrightarrow> view q \<noteq> [] \<Longrightarrow> n \<le> length (hd (inflight q)) \<Longrightarrow> inv (sent n q)"
    and sent_view: "inv q \<Longrightarrow> view q \<noteq> [] \<Longrightarrow> n \<le> length (hd (inflight q)) \<Longrightarrow> view (sent n q) = drop n (view q)"
begin

text \<open>
  A run of the queue: the client adds bytes, the system completes a request after some of
  its bytes. The pair collects what has gone to the wire.
\<close>

fun run :: "(byte list + nat) list \<Rightarrow> byte list \<times> 'q \<Rightarrow> byte list \<times> 'q" where
  "run [] s = s"
| "run (Inl bs # es) (wire, q) = run es (wire, add bs q)"
| "run (Inr n # es) (wire, q) =
     (if view q = [] then run es (wire, q)
      else let k = min n (length (hd (inflight q)))
           in run es (wire @ take k (hd (inflight q)), sent k q))"

lemma run_conserves:
  "inv q \<Longrightarrow> run es (wire, q) = (wire', q') \<Longrightarrow>
     inv q' \<and> wire' @ view q' = wire @ view q @ concat (map (case_sum id (\<lambda>_. [])) es)"
proof (induction es "(wire, q)" arbitrary: wire q rule: run.induct)
  case (2 bs es wire q)
  then show ?case using add_inv add_view by fastforce
next
  case (3 n es wire q)
  show ?case
  proof (cases "view q = []")
    case True
    with 3 show ?thesis by simp
  next
    case False
    let ?r = "hd (inflight q)"
    let ?k = "min n (length ?r)"
    obtain t where t: "view q = ?r @ t" using inflight_prefix [OF 3(3) False] by blast
    have "inv (sent ?k q)" "view (sent ?k q) = drop ?k (view q)"
      using sent_inv [OF 3(3) False, of ?k] sent_view [OF 3(3) False, of ?k] by simp_all
    moreover have "take ?k ?r @ drop ?k (view q) = view q"
      by (metis append_take_drop_id min.cobounded2 t take_append diff_is_0_eq take0 append_Nil2)
    ultimately show ?thesis using 3(2) [OF False refl] 3(4) False by (simp add: Let_def)
  qed
qed simp

text \<open>When every completion makes progress, as many of them as there are bytes empty the queue.\<close>

lemma run_drains:
  assumes "inv q" "length (view q) \<le> length ns" "\<forall>n \<in> set ns. 0 < n"
  shows "view (snd (run (map Inr ns) (wire, q))) = []"
  using assms
proof (induction ns arbitrary: q wire)
  case (Cons n ns)
  show ?case
  proof (cases "view q = []")
    case True
    have stop: "view q = [] \<Longrightarrow> run (map Inr ns) (wire, q) = (wire, q)" for ns wire q
      by (induction ns) auto
    from True stop [OF True, of "n # ns" wire] show ?thesis by simp
  next
    case False
    let ?r = "hd (inflight q)"
    let ?k = "min n (length ?r)"
    have k: "0 < ?k" using Cons.prems(3) inflight_prefix [OF Cons.prems(1) False] by simp
    have i: "inv (sent ?k q)" "view (sent ?k q) = drop ?k (view q)"
      using sent_inv [OF Cons.prems(1) False, of ?k] sent_view [OF Cons.prems(1) False, of ?k] by simp_all
    have "length (view (sent ?k q)) \<le> length ns" using k Cons.prems(2) unfolding i(2) length_drop list.size by linarith
    with Cons.IH [OF i(1), of "wire @ take ?k ?r"] Cons.prems(3) False show ?thesis
      by (simp add: Let_def)
  qed
qed simp

end

section \<open>The output queue is such a queue\<close>

definition oq_view :: "OutputQueue \<Rightarrow> byte list" where
  "oq_view q = concat (map ob_data (oq_queue q))"

definition ob_ok :: "OutputBuffer \<Rightarrow> bool" where
  "ob_ok bf \<longleftrightarrow> length (ob_buf bf) = OUTPUT_QUEUE_BUF_SIZE \<and> ob_pos bf < ob_len bf
     \<and> ob_len bf \<le> OUTPUT_QUEUE_BUF_SIZE"

text \<open>The assertions \<open>bp->buf_pos == 0\<close> are the third conjunct.\<close>

definition oq_inv :: "OutputQueue \<Rightarrow> bool" where
  "oq_inv q \<longleftrightarrow> oq_error q = 0 \<and> list_all ob_ok (oq_queue q) \<and>
     list_all (\<lambda>bf. ob_pos bf = 0) (tl (oq_queue q)) \<and>
     oq_pool_size q = length (oq_pool q) \<and> oq_pool_size q \<le> MAX_POOL_SIZE \<and>
     list_all (\<lambda>bf. length (ob_buf bf) = OUTPUT_QUEUE_BUF_SIZE) (oq_pool q) \<and>
     oq_pending q = (case oq_queue q of [] \<Rightarrow> [] | bf # _ \<Rightarrow> [ob_data bf])"

lemma ob_data_length: "ob_ok bf \<Longrightarrow> length (ob_data bf) = ob_len bf - ob_pos bf"
  by (simp add: ob_data_def ob_ok_def)

lemma ob_data_nonempty: "ob_ok bf \<Longrightarrow> ob_data bf \<noteq> []"
  using ob_data_length [of bf] by (auto simp: ob_ok_def)

lemma oq_view_empty: "oq_inv q \<Longrightarrow> oq_view q = [] \<longleftrightarrow> oq_queue q = []"
  by (cases "oq_queue q") (auto simp: oq_inv_def oq_view_def ob_data_nonempty)

lemma alloc_obuf_ok:
  assumes "oq_inv q" "output_queue_alloc_obuf q = (bf, q')"
  shows "oq_inv q'" "oq_queue q' = oq_queue q" "length (ob_buf bf) = OUTPUT_QUEUE_BUF_SIZE"
    "ob_len bf = 0" "ob_pos bf = 0"
  using assms by (auto simp: output_queue_alloc_obuf_def oq_inv_def split: list.splits)

lemma free_obuf_ok:
  assumes "oq_inv q" "length (ob_buf bf) = OUTPUT_QUEUE_BUF_SIZE"
  shows "oq_inv (output_queue_free_obuf bf q)" "oq_queue (output_queue_free_obuf bf q) = oq_queue q"
  using assms by (auto simp: output_queue_free_obuf_def oq_inv_def)

lemma add_last_ok:
  assumes "oq_inv q" "ob_ok bf" "ob_pos bf = 0"
  shows "oq_inv (add_last bf q)" "oq_view (add_last bf q) = oq_view q @ ob_data bf"
    "oq_queue q \<noteq> [] \<Longrightarrow> oq_pending (add_last bf q) = oq_pending q"
  using assms
  by (auto simp: add_last_def oq_inv_def oq_view_def post_io_request_def Let_def split: list.splits)

text \<open>Appending to the last buffer, when it is not the one being written.\<close>

lemma append_to_last:
  assumes inv: "oq_inv q" and two: "length (oq_queue q) \<ge> 2"
    and bs: "ob_len (last (oq_queue q)) + length bs \<le> OUTPUT_QUEUE_BUF_SIZE"
  defines "bf1 \<equiv> (last (oq_queue q))\<lparr>ob_buf := blit (ob_buf (last (oq_queue q))) (ob_len (last (oq_queue q))) bs,
      ob_len := ob_len (last (oq_queue q)) + length bs\<rparr>"
  shows "oq_inv (q\<lparr>oq_queue := butlast (oq_queue q) @ [bf1]\<rparr>)"
    "oq_view (q\<lparr>oq_queue := butlast (oq_queue q) @ [bf1]\<rparr>) = oq_view q @ bs"
proof -
  obtain b0 bfs lb where q: "oq_queue q = b0 # bfs @ [lb]"
    using two by (cases "oq_queue q"; cases "tl (oq_queue q)" rule: rev_cases) auto
  have lb: "ob_ok lb" "ob_pos lb = 0" using inv q by (simp_all add: oq_inv_def)
  have lb1: "last (oq_queue q) = lb" "butlast (oq_queue q) = b0 # bfs" using q by (simp_all add: butlast_append)
  have ok: "ob_ok bf1" "ob_pos bf1 = 0" "ob_data bf1 = ob_data lb @ bs"
    using lb bs by (auto simp: bf1_def lb1 ob_ok_def ob_data_def take_blit)
  show "oq_inv (q\<lparr>oq_queue := butlast (oq_queue q) @ [bf1]\<rparr>)"
    "oq_view (q\<lparr>oq_queue := butlast (oq_queue q) @ [bf1]\<rparr>) = oq_view q @ bs"
    using inv q ok by (simp_all add: lb1 oq_inv_def oq_view_def)
qed

lemma add_loop_ok:
  "oq_inv q \<Longrightarrow> oq_inv (add_loop bs q) \<and> oq_view (add_loop bs q) = oq_view q @ bs \<and>
     (oq_queue q \<noteq> [] \<longrightarrow> oq_pending (add_loop bs q) = oq_pending q)"
proof (induction bs q rule: add_loop.induct)
  case (1 bs q)
  show ?case
  proof (cases "bs = []")
    case True
    with 1(2) show ?thesis by (simp add: add_loop.simps [of "[]"])
  next
    case False
    define len where "len = min (length bs) OUTPUT_QUEUE_BUF_SIZE"
    have len: "0 < len" "len \<le> length bs" "len \<le> OUTPUT_QUEUE_BUF_SIZE"
      using False by (auto simp: len_def OUTPUT_QUEUE_BUF_SIZE_def)
    obtain bf q1 where al: "output_queue_alloc_obuf q = (bf, q1)" by fastforce
    note ok = alloc_obuf_ok [OF 1(2) al]
    let ?bf1 = "bf\<lparr>ob_pos := 0, ob_len := len, ob_buf := blit (ob_buf bf) 0 (take len bs)\<rparr>"
    have bf1: "ob_ok ?bf1" "ob_pos ?bf1 = 0" "ob_data ?bf1 = take len bs"
      using ok len take_blit [of 0 "ob_buf bf" "take len bs"] by (auto simp: ob_ok_def ob_data_def)
    note al2 = add_last_ok [OF ok(1) bf1(1,2)]
    have pend: "oq_pending q1 = oq_pending q" using 1(2) ok(1,2) by (simp add: oq_inv_def)
    have "add_loop bs q = add_loop (drop len bs) (add_last ?bf1 q1)"
      using False al by (subst add_loop.simps) (simp add: Let_def flip: len_def)
    moreover have "oq_view q1 = oq_view q" using ok(2) by (simp add: oq_view_def)
    moreover have "oq_queue (add_last ?bf1 q1) \<noteq> []"
      by (simp add: add_last_def post_io_request_def Let_def)
    ultimately show ?thesis
      using 1(1) [OF False len_def, of "(bf, q1)" bf q1 ?bf1] al al2 ok(2) bf1(3) pend by auto
  qed
qed

lemma output_queue_add_ok:
  assumes "oq_inv q"
  shows "oq_inv (output_queue_add bs q)" "oq_view (output_queue_add bs q) = oq_view q @ bs"
    "oq_queue q \<noteq> [] \<Longrightarrow> oq_pending (output_queue_add bs q) = oq_pending q"
proof -
  have "oq_inv (output_queue_add bs q) \<and> oq_view (output_queue_add bs q) = oq_view q @ bs \<and>
      (oq_queue q \<noteq> [] \<longrightarrow> oq_pending (output_queue_add bs q) = oq_pending q)"
  proof (cases "length (oq_queue q) \<ge> 2 \<and> OUTPUT_QUEUE_BUF_SIZE - ob_len (last (oq_queue q)) > 0")
    case True
    define len where "len = min (length bs) (OUTPUT_QUEUE_BUF_SIZE - ob_len (last (oq_queue q)))"
    let ?bf1 = "(last (oq_queue q))\<lparr>ob_buf := blit (ob_buf (last (oq_queue q))) (ob_len (last (oq_queue q))) (take len bs),
        ob_len := ob_len (last (oq_queue q)) + len\<rparr>"
    have len: "len \<le> length bs" "ob_len (last (oq_queue q)) + len \<le> OUTPUT_QUEUE_BUF_SIZE"
      using True by (auto simp: len_def)
    have tl: "length (take len bs) = len" using len(1) by simp
    note al = append_to_last [OF assms, of "take len bs", unfolded tl, OF conjunct1 [OF True] len(2)]
    have "output_queue_add bs q = add_loop (drop len bs) (q\<lparr>oq_queue := butlast (oq_queue q) @ [?bf1]\<rparr>)"
      using True assms by (simp add: output_queue_add_def oq_inv_def Let_def flip: len_def)
    with add_loop_ok [OF al(1), of "drop len bs"] al(2) show ?thesis by simp
  next
    case False
    with assms have "output_queue_add bs q = add_loop bs q"
      by (auto simp: output_queue_add_def oq_inv_def Let_def)
    with add_loop_ok [OF assms, of bs] show ?thesis by simp
  qed
  then show "oq_inv (output_queue_add bs q)" "oq_view (output_queue_add bs q) = oq_view q @ bs"
    "oq_queue q \<noteq> [] \<Longrightarrow> oq_pending (output_queue_add bs q) = oq_pending q" by simp_all
qed

lemma output_queue_add_obuf_ok:
  assumes inv: "oq_inv q" and bf: "length (ob_buf bf) = OUTPUT_QUEUE_BUF_SIZE" "0 < ob_len bf"
    "ob_len bf \<le> OUTPUT_QUEUE_BUF_SIZE"
  shows "oq_inv (output_queue_add_obuf bf q)"
    "oq_view (output_queue_add_obuf bf q) = oq_view q @ take (ob_len bf) (ob_buf bf)"
proof -
  have "oq_inv (output_queue_add_obuf bf q) \<and>
    oq_view (output_queue_add_obuf bf q) = oq_view q @ take (ob_len bf) (ob_buf bf)"
  proof (cases "length (oq_queue q) \<ge> 2 \<and> OUTPUT_QUEUE_BUF_SIZE - ob_len (last (oq_queue q)) \<ge> ob_len bf")
    case True
    then have "ob_len (last (oq_queue q)) + length (take (ob_len bf) (ob_buf bf)) \<le> OUTPUT_QUEUE_BUF_SIZE"
      using bf by auto
    from append_to_last [OF inv _ this] True bf show ?thesis
      by (simp add: output_queue_add_obuf_def Let_def free_obuf_ok oq_view_def)
  next
    case False
    have "ob_ok (bf\<lparr>ob_pos := 0\<rparr>)" "ob_data (bf\<lparr>ob_pos := 0\<rparr>) = take (ob_len bf) (ob_buf bf)"
      using bf by (simp_all add: ob_ok_def ob_data_def)
    with add_last_ok [OF inv this(1)] False show ?thesis by (auto simp: output_queue_add_obuf_def)
  qed
  then show "oq_inv (output_queue_add_obuf bf q)"
    "oq_view (output_queue_add_obuf bf q) = oq_view q @ take (ob_len bf) (ob_buf bf)" by simp_all
qed

lemma output_queue_done_ok:
  assumes inv: "oq_inv q" and ne: "oq_queue q \<noteq> []" and n: "n \<le> length (hd (oq_pending q))"
  shows "oq_inv (output_queue_done 0 n q)" "oq_view (output_queue_done 0 n q) = drop n (oq_view q)"
proof -
  obtain bf bfs where q: "oq_queue q = bf # bfs" using ne by (cases "oq_queue q") auto
  have bf: "ob_ok bf" "list_all ob_ok bfs" "list_all (\<lambda>bf. ob_pos bf = 0) bfs" "oq_pending q = [ob_data bf]"
    using inv q by (auto simp: oq_inv_def)
  have le: "n \<le> ob_len bf - ob_pos bf" using n bf ob_data_length [of bf] by simp
  show "oq_inv (output_queue_done 0 n q)" "oq_view (output_queue_done 0 n q) = drop n (oq_view q)"
    using inv q bf le ob_data_length [OF bf(1)]
    by (auto simp: output_queue_done_def Let_def oq_inv_def oq_view_def post_io_request_def
        output_queue_free_obuf_def ob_ok_def ob_data_def drop_append add.commute [of n] split: list.splits)
qed

interpretation oq: byte_queue output_queue_add "output_queue_done 0" oq_pending oq_view oq_inv
proof
  fix q bs n
  assume inv: "oq_inv q"
  show "oq_inv (output_queue_add bs q)" "oq_view (output_queue_add bs q) = oq_view q @ bs"
    using output_queue_add_ok [OF inv] by simp_all
  show "oq_pending q = (if oq_view q = [] then [] else [hd (oq_pending q)])"
    using inv oq_view_empty [OF inv] by (auto simp: oq_inv_def split: list.splits)
  assume ne: "oq_view q \<noteq> []"
  then have qne: "oq_queue q \<noteq> []" using oq_view_empty [OF inv] by simp
  show "hd (oq_pending q) \<noteq> [] \<and> (\<exists>t. oq_view q = hd (oq_pending q) @ t)"
    using inv qne by (cases "oq_queue q") (auto simp: oq_inv_def oq_view_def ob_data_nonempty)
  show "oq_pending (output_queue_add bs q) = oq_pending q"
    using output_queue_add_ok(3) [OF inv qne] .
  assume "n \<le> length (hd (oq_pending q))"
  then show "oq_inv (output_queue_done 0 n q)" "oq_view (output_queue_done 0 n q) = drop n (oq_view q)"
    using output_queue_done_ok [OF inv qne] by simp_all
qed

lemma clear_loop_ok:
  assumes "oq_pool_size q = length (oq_pool q)" "oq_pool_size q \<le> MAX_POOL_SIZE"
  shows "oq_pool_size (clear_loop bfs q) = length (oq_pool (clear_loop bfs q)) \<and>
    oq_pool_size (clear_loop bfs q) \<le> MAX_POOL_SIZE \<and>
    oq_error (clear_loop bfs q) = oq_error q \<and> oq_pending (clear_loop bfs q) = oq_pending q \<and>
    oq_queue (clear_loop bfs q) = (if bfs = [] then oq_queue q else [])"
  using assms
proof (induction bfs q rule: clear_loop.induct)
  case (2 bf bfs q)
  let ?q1 = "output_queue_free_obuf bf (q\<lparr>oq_queue := bfs\<rparr>)"
  have "oq_pool_size ?q1 = length (oq_pool ?q1)" "oq_pool_size ?q1 \<le> MAX_POOL_SIZE"
    "oq_error ?q1 = oq_error q" "oq_pending ?q1 = oq_pending q" "oq_queue ?q1 = bfs"
    using 2(2,3) by (simp_all add: output_queue_free_obuf_def)
  with 2(1) show ?case by (cases "bfs = []") simp_all
qed simp

section \<open>Properties\<close>

text \<open>
  C29: Whatever interleaving of added data and of complete or partial writes happens, the bytes that
  went to the wire followed by the bytes still queued are exactly the bytes that were added,
  in order; there is a write request in flight exactly when bytes are queued, it covers
  the bytes at the front, and the buffer pool keeps its bound.
\<close>

theorem output_queue_fifo:
  assumes "oq_inv q" "oq.run es ([], q) = (wire, q')"
  shows "wire @ oq_view q' = oq_view q @ concat (map (case_sum id (\<lambda>_. [])) es) \<and>
    oq_pending q' = (if oq_view q' = [] then [] else [hd (oq_pending q')]) \<and>
    (oq_view q' \<noteq> [] \<longrightarrow> (\<exists>t. oq_view q' = hd (oq_pending q') @ t)) \<and>
    length (oq_pool q') \<le> MAX_POOL_SIZE"
proof -
  note r = oq.run_conserves [OF assms]
  then have i: "oq_inv q'" by simp
  moreover have "length (oq_pool q') \<le> MAX_POOL_SIZE" using i by (simp add: oq_inv_def)
  ultimately show ?thesis using r oq.inflight_one [OF i] oq.inflight_prefix [OF i] by auto
qed

definition oq_empty :: OutputQueue where
  "oq_empty = output_queue_ini \<lparr>oq_error = 0, oq_queue = [], oq_pool = [], oq_pool_size = 0, oq_pending = []\<rparr>"

lemma oq_empty_ok: "oq_inv oq_empty" "oq_view oq_empty = []"
  by (simp_all add: oq_inv_def oq_empty_def output_queue_ini_def oq_view_def)

theorem output_queue_fifo_witness:
  "\<exists>wire q'. oq.run [Inl [1, 2, 3], Inr 1, Inl [4]] ([], oq_empty) = (wire, q') \<and>
     wire @ oq_view q' = [1, 2, 3, 4]"
proof -
  obtain wire q' where r: "oq.run [Inl [1, 2, 3], Inr 1, Inl [4]] ([], oq_empty) = (wire, q')" by fastforce
  from output_queue_fifo [OF oq_empty_ok(1) r] r show ?thesis by (auto simp: oq_empty_ok)
qed

text \<open>
  Completions that each write at least one byte empty the queue: as many of them as there are
  bytes queued are enough.
\<close>

theorem output_queue_drains:
  assumes "oq_inv q" "length (oq_view q) \<le> length ns" "\<forall>n \<in> set ns. 0 < n"
  shows "oq_view (snd (oq.run (map Inr ns) (wire, q))) = []"
  by (rule oq.run_drains [OF assms])

theorem output_queue_drains_witness:
  "oq_view (snd (oq.run (map Inr [1, 5]) ([], output_queue_add [7, 8] oq_empty))) = []"
  using output_queue_drains [of "output_queue_add [7, 8] oq_empty" "[1, 5]" "[]"]
    output_queue_add_ok [OF oq_empty_ok(1), of "[7, 8]"] by (simp add: oq_empty_ok)

text \<open>
  A write error empties the queue, leaves no request in flight and keeps the bound of the pool; from
  then on added data is dropped without any effect.
\<close>

theorem output_queue_error:
  assumes "oq_inv q" "err \<noteq> 0"
  shows "oq_queue (output_queue_done err n q) = [] \<and> oq_pending (output_queue_done err n q) = [] \<and>
    length (oq_pool (output_queue_done err n q)) \<le> MAX_POOL_SIZE \<and>
    oq_error (output_queue_done err n q) = err \<and>
    output_queue_add bs (output_queue_done err n q) = output_queue_done err n q"
proof -
  let ?q = "q\<lparr>oq_pending := tl (oq_pending q), oq_error := err\<rparr>"
  have "oq_pool_size ?q = length (oq_pool ?q)" "oq_pool_size ?q \<le> MAX_POOL_SIZE" "tl (oq_pending q) = []"
    using assms(1) by (auto simp: oq_inv_def split: list.splits)
  with clear_loop_ok [of ?q "oq_queue q"] assms(2) show ?thesis
    by (auto simp: output_queue_done_def output_queue_clear_def output_queue_add_def Let_def split: if_splits)
qed

theorem output_queue_error_witness:
  "oq_queue (output_queue_done 5 0 (output_queue_add [7, 8] oq_empty)) = []"
  using output_queue_error [of "output_queue_add [7, 8] oq_empty" 5 0 "[1]"]
    output_queue_add_ok [OF oq_empty_ok(1), of "[7, 8]"] by simp

end
