(* ===== verification/Framing.thy ===== *)
theory Framing
  imports Streams
begin

text \<open>
  The byte level encoding of a channel: what the bytes on the wire mean. ESC (3) introduces
  an escape sequence: \<open>3 0\<close> is the byte 3, \<open>3 1\<close> the end of a message, \<open>3 2\<close> the end of the stream
  and \<open>3 3\<close> a block of binary data, preceded by its size in groups of seven bits, the least
  significant first. This is the specification that the writer (theory Channel_TCP) and the reader
  (theory InputBuf) are proved against; its state is the one that both keep in the
  \<open>esc\<close>, \<open>size_mode\<close> and \<open>data_size\<close> members of their structs.
\<close>

unbundle bit_operations_syntax

record decoder =
  d_esc :: bool
  d_mode :: nat
  d_size :: nat

definition d0 :: decoder where
  "d0 = \<lparr>d_esc = False, d_mode = 0, d_size = 0\<rparr>"

text \<open>
  The term \<open>(ch & 0x7f) << (size_mode - 1) * 7\<close>. In C it has the type \<open>int\<close>: with more than four
  size bytes the shift overflows, which C leaves undefined.
\<close>

definition size_bits :: "nat \<Rightarrow> byte \<Rightarrow> nat" where
  "size_bits mode b = push_bit ((mode - 1) * 7) (unat (b AND 0x7f))"

text \<open>What an escape sequence other than the four above stands for; the reader treats it as the end of the stream.\<close>

definition BAD_SYM :: sym where "BAD_SYM = -4"

definition dstep :: "decoder \<Rightarrow> byte \<Rightarrow> sym list \<times> decoder" where
  "dstep d b =
     (if d_mode d > 0
      then ([], d\<lparr>d_size := d_size d OR size_bits (d_mode d) b,
                  d_mode := (if b AND 0x80 = 0 then 0 else d_mode d + 1)\<rparr>)
      else if d_size d > 0 then ([byte_sym b], d\<lparr>d_size := d_size d - 1\<rparr>)
      else if d_esc d
      then (if b = 0 then ([ESC], d\<lparr>d_esc := False\<rparr>)
            else if b = 1 then ([MARKER_EOM], d\<lparr>d_esc := False\<rparr>)
            else if b = 2 then ([MARKER_EOS], d\<lparr>d_esc := False\<rparr>)
            else if b = 3 then ([], d\<lparr>d_esc := False, d_mode := 1, d_size := 0\<rparr>)
            else ([BAD_SYM], d\<lparr>d_esc := False\<rparr>))
      else if b = 3 then ([], d\<lparr>d_esc := True\<rparr>)
      else ([byte_sym b], d))"

fun decode :: "decoder \<Rightarrow> byte list \<Rightarrow> sym list \<times> decoder" where
  "decode d [] = ([], d)"
| "decode d (b # bs) =
     (let (xs, d1) = dstep d b; (ys, d2) = decode d1 bs in (xs @ ys, d2))"

definition bad_step :: "decoder \<Rightarrow> byte \<Rightarrow> bool" where
  "bad_step d b \<longleftrightarrow> d_mode d = 0 \<and> d_size d = 0 \<and> d_esc d \<and> unat b > 3"

fun good :: "decoder \<Rightarrow> byte list \<Rightarrow> bool" where
  "good d [] = True"
| "good d (b # bs) = (\<not> bad_step d b \<and> good (snd (dstep d b)) bs)"

abbreviation syms :: "byte list \<Rightarrow> sym list" where
  "syms bs \<equiv> fst (decode d0 bs)"

lemma decode_append:
  "decode d (xs @ ys) =
     (fst (decode d xs) @ fst (decode (snd (decode d xs)) ys), snd (decode (snd (decode d xs)) ys))"
  by (induction xs arbitrary: d) (auto simp: split_beta Let_def)

lemma good_append: "good d (xs @ ys) \<longleftrightarrow> good d xs \<and> good (snd (decode d xs)) ys"
  by (induction xs arbitrary: d) (auto simp: split_beta Let_def)

lemma not_bad_step: "BAD_SYM \<notin> set (fst (dstep d b)) \<Longrightarrow> \<not> bad_step d b"
proof -
  have "b \<noteq> 0 \<and> b \<noteq> 1 \<and> b \<noteq> 2 \<and> b \<noteq> 3" if "3 < unat b" using that by auto
  then show "BAD_SYM \<notin> set (fst (dstep d b)) \<Longrightarrow> \<not> bad_step d b"
    by (auto simp: bad_step_def dstep_def)
qed

lemma decode_good: "BAD_SYM \<notin> set (fst (decode d bs)) \<Longrightarrow> good d bs"
  by (induction bs arbitrary: d) (auto simp: Let_def split_beta dest: not_bad_step)

lemma d0_simps [simp]: "d_esc d0 = False" "d_mode d0 = 0" "d_size d0 = 0"
  by (simp_all add: d0_def)

text \<open>Inside of a block there is no escape sequence.\<close>

definition d_wf :: "decoder \<Rightarrow> bool" where
  "d_wf d \<longleftrightarrow> (d_mode d > 0 \<or> d_size d > 0 \<longrightarrow> \<not> d_esc d)"

lemma d0_wf [simp]: "d_wf d0"
  by (simp add: d_wf_def)

lemma decode_wf: "d_wf d \<Longrightarrow> d_wf (snd (decode d bs))"
proof (induction bs arbitrary: d)
  case (Cons b bs)
  then have "d_wf (snd (dstep d b))" by (auto simp: d_wf_def dstep_def)
  with Cons.IH show ?case by (simp add: Let_def split_beta)
qed simp

lemma decode_plain: "b \<noteq> 3 \<Longrightarrow> decode d0 [b] = ([byte_sym b], d0)"
  by (simp add: dstep_def)

lemma decode_esc [simp]:
  "decode d0 [3, 0] = ([3], d0)" "decode d0 [3, 1] = ([-1], d0)" "decode d0 [3, 2] = ([-2], d0)"
  by (simp_all add: dstep_def d0_def)

lemma decode_data:
  "length data \<le> n \<Longrightarrow>
     decode \<lparr>d_esc = False, d_mode = 0, d_size = n\<rparr> data =
       (map byte_sym data, \<lparr>d_esc = False, d_mode = 0, d_size = n - length data\<rparr>)"
  by (induction data arbitrary: n) (auto simp: dstep_def)

lemma or_mod_div_128: "(n :: nat) mod 128 OR n div 128 * 128 = n"
proof -
  have "n mod 128 OR n div 128 * 128 = take_bit 7 n OR push_bit 7 (drop_bit 7 n)"
    by (simp add: take_bit_eq_mod push_bit_eq_mult drop_bit_eq_div)
  also have "\<dots> = n"
  proof (rule bit_eqI)
    fix i
    show "bit (take_bit 7 n OR push_bit 7 (drop_bit 7 n)) i \<longleftrightarrow> bit n i"
      by (cases "i < 7") (auto simp: bit_or_iff bit_take_bit_iff bit_push_bit_iff bit_drop_bit_eq)
  qed
  finally show ?thesis .
qed

lemma size_two_bytes:
  assumes "n < 0x4000"
  shows "decode d0 [3, 3, of_nat (n mod 128 + 128), of_nat (n div 128)] =
    ([], \<lparr>d_esc = False, d_mode = 0, d_size = n\<rparr>)"
proof -
  have b: "n mod 128 + 128 < 256" "n div 128 < 128" using assms by auto
  have u: "unat (of_nat (n mod 128 + 128) :: byte) = n mod 128 + 128" "unat (of_nat (n div 128) :: byte) = n div 128"
    using b by (simp_all only: unat_of_nat take_bit_nat_eq_self_iff) (auto simp: take_bit_nat_eq_self_iff)
  have lo: "size_bits 1 (of_nat (n mod 128 + 128)) = n mod 128"
    using u(1) by (simp add: size_bits_def unat_and_7f)
  have hi: "size_bits (Suc (Suc 0)) (of_nat (n div 128)) = n div 128 * 128"
    using u(2) b(2) by (simp add: size_bits_def unat_and_7f push_bit_eq_mult)
  have "n mod 128 OR n div 128 * 128 = n"
    by (rule or_mod_div_128)
  with lo hi u b show ?thesis by (simp add: dstep_def d0_def and_80_zero)
qed

lemma byte_small: "unat (b :: byte) = n \<Longrightarrow> b = of_nat n"
  by auto

lemma step_symbols: "\<not> bad_step d b \<Longrightarrow> x \<in> set (fst (dstep d b)) \<Longrightarrow> is_byte x \<or> x = MARKER_EOM \<or> x = MARKER_EOS"
proof -
  have "unat b > 3" if "b \<noteq> 0" "b \<noteq> 1" "b \<noteq> 2" "b \<noteq> 3"
  proof (rule ccontr)
    assume "\<not> unat b > 3"
    then have "unat b = 0 \<or> unat b = 1 \<or> unat b = 2 \<or> unat b = 3" by auto
    then have "b = 0 \<or> b = 1 \<or> b = 2 \<or> b = 3" by (auto dest: byte_small)
    with that show False by blast
  qed
  then show "\<not> bad_step d b \<Longrightarrow> x \<in> set (fst (dstep d b)) \<Longrightarrow> is_byte x \<or> x = MARKER_EOM \<or> x = MARKER_EOS"
    by (auto simp: dstep_def bad_step_def is_byte_def ESC_def split: if_splits)
qed

lemma good_symbols: "good d bs \<Longrightarrow> x \<in> set (fst (decode d bs)) \<Longrightarrow> is_byte x \<or> x = MARKER_EOM \<or> x = MARKER_EOS"
  by (induction bs arbitrary: d) (auto simp: Let_def split_beta dest: step_symbols)

end
