(* ===== verification/Channel_TCP.thy ===== *)
theory Channel_TCP
  imports OutputBuf Framing
begin

text \<open>
  The output side of a TCP channel: src/agent/tcf/framework/channel_tcp.c. The channel collects
  bytes in an \<open>OutputBuffer\<close>; \<open>out.cur\<close> is the number of bytes in it. When the peer
  supports zero copy, a byte that is written while there is room starts a block of binary data,
  whose header is completed when the block ends. A full buffer, or the end of a message, sends the
  buffer to the output queue.

  \<open>to_wire\<close> are the bytes the socket has accepted so far. Assertions about the thread and the
  magic number are left out; so are the SSL and splice variants. The flush event that is posted
  with \<open>post_event_with_delay\<close> is outstanding as often as \<open>out_flush_cnt\<close> says.
\<close>

unbundle bit_operations_syntax

record TcpOut =
  to_zero_copy :: bool
  to_obuf :: OutputBuffer
  to_cur :: nat
  to_bin_block :: "nat option"
  to_queue :: OutputQueue
  to_errno :: int
  to_flush_cnt :: nat
  to_eom_cnt :: nat
  to_lock_cnt :: nat
  to_disconnected :: bool
  to_wire :: "byte list"

abbreviation OUT_END :: nat where
  "OUT_END \<equiv> OUTPUT_QUEUE_BUF_SIZE"

text \<open>\<open>*c->chan->out.cur++ = b\<close>\<close>

definition put_byte :: "byte \<Rightarrow> TcpOut \<Rightarrow> TcpOut" where
  "put_byte b c =
     c\<lparr>to_obuf := (to_obuf c)\<lparr>ob_buf := (ob_buf (to_obuf c))[to_cur c := b]\<rparr>, to_cur := Suc (to_cur c)\<rparr>"

text \<open>Each request posted by an operation on the queue locks the channel (\<open>post_write_request\<close>).\<close>

definition with_queue :: "OutputQueue \<Rightarrow> TcpOut \<Rightarrow> TcpOut" where
  "with_queue q c =
     c\<lparr>to_queue := q, to_lock_cnt := to_lock_cnt c + (length (oq_pending q) - length (oq_pending (to_queue c)))\<rparr>"

definition tcp_flush_with_flags :: "TcpOut \<Rightarrow> TcpOut" where
  "tcp_flush_with_flags c =
     (if to_cur c = 0 then c
      else
        (let c1 =
               (if \<not> to_disconnected c \<and> to_errno c = 0
                then
                  (let q1 = output_queue_add_obuf ((to_obuf c)\<lparr>ob_len := to_cur c\<rparr>) (to_queue c);
                       (bf, q2) = output_queue_alloc_obuf q1
                   in (with_queue q2 c)\<lparr>to_obuf := bf\<rparr>)
                else c)
         in c1\<lparr>to_cur := 0, to_eom_cnt := 0\<rparr>))"

definition tcp_flush_event :: "TcpOut \<Rightarrow> TcpOut" where
  "tcp_flush_event c =
     (let c1 = c\<lparr>to_flush_cnt := to_flush_cnt c - 1\<rparr> in
      if to_flush_cnt c1 = 0
      then (let c2 = tcp_flush_with_flags c1 in c2\<lparr>to_lock_cnt := to_lock_cnt c2 - 1\<rparr>)
      else if to_eom_cnt c1 > 3 then tcp_flush_with_flags c1
      else c1)"

definition tcp_bin_block_start :: "TcpOut \<Rightarrow> TcpOut" where
  "tcp_bin_block_start c =
     (let c1 = put_byte 0 (put_byte 0 (put_byte 3 (put_byte (sym_byte ESC) c)))
      in c1\<lparr>to_bin_block := Some (to_cur c1)\<rparr>)"

definition tcp_bin_block_end :: "nat \<Rightarrow> TcpOut \<Rightarrow> TcpOut" where
  "tcp_bin_block_end p c =
     (let len = to_cur c - p;
          c1 = (if len = 0 then c\<lparr>to_cur := to_cur c - 4\<rparr>
                else
                  (let b = ob_buf (to_obuf c);
                       b1 = b[p - 2 := of_nat ((len AND 0x7f) OR 0x80)];
                       b2 = b1[p - 1 := of_nat (drop_bit 7 len)]
                   in c\<lparr>to_obuf := (to_obuf c)\<lparr>ob_buf := b2\<rparr>\<rparr>))
      in c1\<lparr>to_bin_block := None\<rparr>)"

text \<open>The closing of an open block, and making room for at least one byte.\<close>

definition end_open_block :: "TcpOut \<Rightarrow> TcpOut" where
  "end_open_block c = (case to_bin_block c of None \<Rightarrow> c | Some p \<Rightarrow> tcp_bin_block_end p c)"

definition flush_if_full :: "TcpOut \<Rightarrow> TcpOut" where
  "flush_if_full c = (if to_cur c = OUT_END then tcp_flush_with_flags c else c)"

definition eom_posted :: "TcpOut \<Rightarrow> TcpOut" where
  "eom_posted c =
     (let c1 = c\<lparr>to_eom_cnt := to_eom_cnt c + 1\<rparr> in
      if to_flush_cnt c1 < 2
      then c1\<lparr>to_lock_cnt := (if to_flush_cnt c1 = 0 then to_lock_cnt c1 + 1 else to_lock_cnt c1),
              to_flush_cnt := to_flush_cnt c1 + 1\<rparr>
      else c1)"

text \<open>For a symbol below \<open>MARKER_EOS\<close> the code has \<open>assert(0)\<close>; no caller passes one.\<close>

definition tcp_write_stream :: "sym \<Rightarrow> TcpOut \<Rightarrow> TcpOut" where
  "tcp_write_stream byte c =
     (if \<not> to_zero_copy c \<or> to_cur c \<ge> OUT_END - 32 \<or> byte < 0
      then
        (let c1 = flush_if_full (end_open_block c) in
         if byte < 0 \<or> byte = ESC
         then
           (let esc = (if byte = ESC then 0 else if byte = MARKER_EOM then 1 else 2);
                c2 = put_byte esc (flush_if_full (put_byte (sym_byte ESC) c1))
            in if byte = MARKER_EOM then eom_posted c2 else c2)
         else put_byte (sym_byte byte) c1)
      else
        put_byte (sym_byte byte) (if to_bin_block c = None then tcp_bin_block_start c else c))"

text \<open>\<open>memcpy\<close> of bytes to \<open>out.cur\<close>, which also the loop for plain bytes does.\<close>

definition copy_bytes :: "byte list \<Rightarrow> TcpOut \<Rightarrow> TcpOut" where
  "copy_bytes bs c =
     c\<lparr>to_obuf := (to_obuf c)\<lparr>ob_buf := blit (ob_buf (to_obuf c)) (to_cur c) bs\<rparr>, to_cur := to_cur c + length bs\<rparr>"

function tcp_write_block_stream :: "byte list \<Rightarrow> TcpOut \<Rightarrow> TcpOut" where
  "tcp_write_block_stream src c =
     (if src = [] then c
      else
        (let n = min (OUT_END - to_cur c) (length src) in
         if n = 0 then tcp_write_block_stream (tl src) (tcp_write_stream (byte_sym (hd src)) c)
         else if to_bin_block c \<noteq> None
         then tcp_write_block_stream (drop n src) (copy_bytes (take n src) c)
         else if byte_sym (hd src) \<noteq> ESC
         then (let run = takeWhile (\<lambda>ch. byte_sym ch \<noteq> ESC) (take n src)
               in tcp_write_block_stream (drop (length run) src) (copy_bytes run c))
         else tcp_write_block_stream (tl src) (tcp_write_stream (byte_sym (hd src)) c)))"
  by pat_completeness auto
termination
proof (relation "measure (\<lambda>(src, c). length src)", goal_cases)
  case (4 src c n run)
  have "take n src = hd src # take (n - 1) (tl src)" using 4(1,3) by (cases src; cases n) auto
  then have "run \<noteq> []" using 4(5,6) by simp
  with 4 show ?case by (simp add: diff_less)
qed auto

declare tcp_write_block_stream.simps [simp del]

text \<open>
  Completion of a write request (\<open>done_write_request\<close>): the socket has accepted \<open>n\<close> bytes, or
  failed.
\<close>

definition done_write_request :: "int \<Rightarrow> nat \<Rightarrow> TcpOut \<Rightarrow> TcpOut" where
  "done_write_request error n c0 =
     (let c = (if error = 0 then c0\<lparr>to_wire := to_wire c0 @ take n (hd (oq_pending (to_queue c0)))\<rparr> else c0);
          q = output_queue_done error (if error = 0 then n else 0) (to_queue c);
          c1 = c\<lparr>to_queue := q, to_lock_cnt := to_lock_cnt c + length (oq_pending q)\<rparr>;
          c2 = (if error \<noteq> 0 then c1\<lparr>to_errno := error\<rparr> else c1)
      in c2\<lparr>to_lock_cnt := to_lock_cnt c2 - 1\<rparr>)"

section \<open>Bytes\<close>

lemma header_update:
  "(pre @ [a, b, x, y] @ data)[length pre + 2 := l, length pre + 3 := h] = pre @ [a, b, l, h] @ data"
  by (simp add: list_update_append numeral_3_eq_3)

lemma low_bits_or_80: "(n AND 0x7f) OR 0x80 = n mod 128 + (128 :: nat)"
proof -
  have m: "n AND 0x7f = take_bit 7 n"
    by (simp add: take_bit_eq_mask mask_eq_exp_minus_1)
  have "take_bit 7 n OR push_bit 7 1 = take_bit 7 n + push_bit 7 1"
    by (rule disjunctive_add [symmetric], unfold bit_take_bit_iff bit_push_bit_iff) auto
  with m show ?thesis by (simp add: take_bit_eq_mod)
qed

text \<open>The bytes in the buffer, and all the bytes that were put so far.\<close>

definition cur_bytes :: "TcpOut \<Rightarrow> byte list" where
  "cur_bytes c = take (to_cur c) (ob_buf (to_obuf c))"

definition gone :: "TcpOut \<Rightarrow> byte list" where
  "gone c = to_wire c @ oq_view (to_queue c)"

definition raw_inv :: "TcpOut \<Rightarrow> bool" where
  "raw_inv c \<longleftrightarrow> oq_inv (to_queue c) \<and> \<not> to_disconnected c \<and> to_errno c = 0 \<and>
     length (ob_buf (to_obuf c)) = OUT_END \<and> to_cur c \<le> OUT_END"

lemma length_cur_bytes: "raw_inv c \<Longrightarrow> length (cur_bytes c) = to_cur c"
  by (simp add: raw_inv_def cur_bytes_def)

lemma put_byte_ok:
  assumes "raw_inv c" "to_cur c < OUT_END"
  shows "raw_inv (put_byte b c)" "cur_bytes (put_byte b c) = cur_bytes c @ [b]" "gone (put_byte b c) = gone c"
    "to_cur (put_byte b c) = Suc (to_cur c)" "to_bin_block (put_byte b c) = to_bin_block c"
    "to_zero_copy (put_byte b c) = to_zero_copy c"
  using assms by (auto simp: raw_inv_def cur_bytes_def gone_def put_byte_def take_Suc_update)

lemma copy_bytes_ok:
  assumes "raw_inv c" "to_cur c + length bs \<le> OUT_END"
  shows "raw_inv (copy_bytes bs c)" "cur_bytes (copy_bytes bs c) = cur_bytes c @ bs" "gone (copy_bytes bs c) = gone c"
    "to_bin_block (copy_bytes bs c) = to_bin_block c" "to_zero_copy (copy_bytes bs c) = to_zero_copy c"
  using assms by (auto simp: raw_inv_def cur_bytes_def gone_def copy_bytes_def take_blit)

lemma flush_ok:
  assumes "raw_inv c"
  shows "raw_inv (tcp_flush_with_flags c)"
    "gone (tcp_flush_with_flags c) = gone c @ cur_bytes c"
    "cur_bytes (tcp_flush_with_flags c) = []" "to_cur (tcp_flush_with_flags c) = 0"
    "to_bin_block (tcp_flush_with_flags c) = to_bin_block c"
    "to_zero_copy (tcp_flush_with_flags c) = to_zero_copy c"
    "to_wire (tcp_flush_with_flags c) = to_wire c"
proof -
  have "raw_inv (tcp_flush_with_flags c) \<and> gone (tcp_flush_with_flags c) = gone c @ cur_bytes c \<and>
      cur_bytes (tcp_flush_with_flags c) = [] \<and> to_cur (tcp_flush_with_flags c) = 0 \<and>
      to_bin_block (tcp_flush_with_flags c) = to_bin_block c \<and>
      to_zero_copy (tcp_flush_with_flags c) = to_zero_copy c \<and> to_wire (tcp_flush_with_flags c) = to_wire c"
  proof (cases "to_cur c = 0")
    case True
    then show ?thesis using assms by (simp add: tcp_flush_with_flags_def cur_bytes_def)
  next
    case False
    let ?bf = "(to_obuf c)\<lparr>ob_len := to_cur c\<rparr>"
    have q1: "oq_inv (output_queue_add_obuf ?bf (to_queue c))"
        "oq_view (output_queue_add_obuf ?bf (to_queue c)) = oq_view (to_queue c) @ cur_bytes c"
      using output_queue_add_obuf_ok [of "to_queue c" ?bf] assms False
      by (simp_all add: raw_inv_def cur_bytes_def)
    obtain bf q2 where al: "output_queue_alloc_obuf (output_queue_add_obuf ?bf (to_queue c)) = (bf, q2)"
      by fastforce
    note q2 = alloc_obuf_ok [OF q1(1) al]
    then have "oq_view q2 = oq_view (to_queue c) @ cur_bytes c" using q1(2) by (simp add: oq_view_def)
    with q2 al assms False show ?thesis
      by (simp add: tcp_flush_with_flags_def raw_inv_def cur_bytes_def gone_def with_queue_def)
  qed
  then show "raw_inv (tcp_flush_with_flags c)"
    "gone (tcp_flush_with_flags c) = gone c @ cur_bytes c"
    "cur_bytes (tcp_flush_with_flags c) = []" "to_cur (tcp_flush_with_flags c) = 0"
    "to_bin_block (tcp_flush_with_flags c) = to_bin_block c"
    "to_zero_copy (tcp_flush_with_flags c) = to_zero_copy c"
    "to_wire (tcp_flush_with_flags c) = to_wire c" by simp_all
qed

lemma flush_if_full_ok:
  assumes "raw_inv c"
  shows "raw_inv (flush_if_full c)"
    "gone (flush_if_full c) @ cur_bytes (flush_if_full c) = gone c @ cur_bytes c"
    "to_cur (flush_if_full c) < OUT_END" "to_bin_block (flush_if_full c) = to_bin_block c"
    "to_zero_copy (flush_if_full c) = to_zero_copy c"
  using assms flush_ok [OF assms]
  by (auto simp: flush_if_full_def raw_inv_def OUTPUT_QUEUE_BUF_SIZE_def)

section \<open>The channel is an output stream\<close>

text \<open>
  The symbols written so far. While a block of binary data is open, its four header
  bytes stand at \<open>p - 4\<close>, with the size still to be filled in.
\<close>

definition all_bytes :: "TcpOut \<Rightarrow> byte list" where
  "all_bytes c = gone c @ cur_bytes c"

definition tcp_view :: "TcpOut \<Rightarrow> ostream" where
  "tcp_view c =
     (case to_bin_block c of
        None \<Rightarrow> syms (all_bytes c)
      | Some p \<Rightarrow> syms (gone c @ take (p - 4) (cur_bytes c)) @ map byte_sym (drop p (cur_bytes c)))"

definition tcp_inv :: "TcpOut \<Rightarrow> bool" where
  "tcp_inv c \<longleftrightarrow> raw_inv c \<and>
     (case to_bin_block c of
        None \<Rightarrow> snd (decode d0 (all_bytes c)) = d0
      | Some p \<Rightarrow> 4 \<le> p \<and> p \<le> to_cur c \<and>
          (\<exists>h0 h1. take p (cur_bytes c) = take (p - 4) (cur_bytes c) @ [3, 3, h0, h1]) \<and>
          snd (decode d0 (gone c @ take (p - 4) (cur_bytes c))) = d0)"

text \<open>Bytes that follow when no block is open.\<close>

lemma view_closed:
  assumes "to_bin_block c = None" "all_bytes c' = all_bytes c @ bs" "to_bin_block c' = None"
    "tcp_inv c" "raw_inv c'" "decode d0 bs = (xs, d0)"
  shows "tcp_inv c'" "tcp_view c' = tcp_view c @ xs"
  using assms by (auto simp: tcp_inv_def tcp_view_def decode_append)

lemma view_open:
  assumes "to_bin_block c = Some p" "gone c' = gone c" "cur_bytes c' = cur_bytes c @ bs" "to_bin_block c' = Some p"
    "tcp_inv c" "raw_inv c'"
  shows "tcp_inv c'" "tcp_view c' = tcp_view c @ map byte_sym bs"
proof -
  have p: "4 \<le> p" "p \<le> length (cur_bytes c)"
    using assms(1,5) length_cur_bytes [of c] by (auto simp: tcp_inv_def)
  have t: "take p (cur_bytes c @ bs) = take p (cur_bytes c)"
    "take (p - 4) (cur_bytes c @ bs) = take (p - 4) (cur_bytes c)"
    "drop p (cur_bytes c @ bs) = drop p (cur_bytes c) @ bs"
    using p by simp_all
  have "length (cur_bytes c') = to_cur c'" using assms(6) by (rule length_cur_bytes)
  then have "p \<le> to_cur c'" using p assms(3) by simp
  then show "tcp_inv c'" "tcp_view c' = tcp_view c @ map byte_sym bs"
    using assms t by (auto simp: tcp_inv_def tcp_view_def)
qed

lemma bin_block_end_ok:
  assumes inv: "tcp_inv c" and p: "to_bin_block c = Some p"
  defines "c' \<equiv> tcp_bin_block_end p c"
  shows "tcp_inv c'" "tcp_view c' = tcp_view c" "to_bin_block c' = None"
    "to_zero_copy c' = to_zero_copy c"
proof -
  let ?len = "to_cur c - p"
  let ?pre = "take (p - 4) (cur_bytes c)"
  let ?data = "drop p (cur_bytes c)"
  obtain h0 h1 where r: "raw_inv c" "4 \<le> p" "p \<le> to_cur c" "take p (cur_bytes c) = ?pre @ [3, 3, h0, h1]"
      "snd (decode d0 (gone c @ ?pre)) = d0"
    using inv p by (auto simp: tcp_inv_def)
  have lc: "length (cur_bytes c) = to_cur c" by (rule length_cur_bytes [OF r(1)])
  have cb: "cur_bytes c = ?pre @ [3, 3, h0, h1] @ ?data" using r(4) append_take_drop_id [of p "cur_bytes c"] by simp
  have lp: "length ?pre = p - 4" "length ?data = ?len" using r(2,3) lc by simp_all
  show none: "to_bin_block c' = None" and "to_zero_copy c' = to_zero_copy c"
    by (simp_all add: c'_def tcp_bin_block_end_def Let_def)
  have "tcp_inv c' \<and> tcp_view c' = tcp_view c"
  proof (cases "?len = 0")
    case True
    then have c': "gone c' = gone c" "cur_bytes c' = ?pre" "raw_inv c'"
      using r(1,2,3) by (auto simp: c'_def tcp_bin_block_end_def gone_def cur_bytes_def raw_inv_def min_def)
    with True r(5) p none lc show ?thesis by (simp add: tcp_inv_def tcp_view_def all_bytes_def)
  next
    case False
    let ?lo = "of_nat (?len mod 128 + 128) :: byte"
    let ?hi = "of_nat (?len div 128) :: byte"
    have len: "?len < 0x4000" using r(1,2) by (auto simp: raw_inv_def OUTPUT_QUEUE_BUF_SIZE_def)
    have hdr: "of_nat ((?len AND 0x7f) OR 0x80) = ?lo" "of_nat (drop_bit 7 ?len) = ?hi"
      by (simp_all add: low_bits_or_80 drop_bit_eq_div)
    have "cur_bytes c' = (cur_bytes c)[p - 2 := ?lo, p - 1 := ?hi]"
      using False by (simp add: c'_def tcp_bin_block_end_def Let_def cur_bytes_def hdr take_update_swap)
    also have "\<dots> = ?pre @ [3, 3, ?lo, ?hi] @ ?data"
    proof -
      have ix: "p - 2 = length ?pre + 2" "p - 1 = length ?pre + 3" using lp(1) r(2) by simp_all
      have "(cur_bytes c)[p - 2 := ?lo, p - 1 := ?hi] =
          (?pre @ [3, 3, h0, h1] @ ?data)[length ?pre + 2 := ?lo, length ?pre + 3 := ?hi]"
        by (simp only: ix flip: cb)
      then show ?thesis by (simp only: header_update)
    qed
    finally have cb': "cur_bytes c' = ?pre @ [3, 3, ?lo, ?hi] @ ?data" .
    have c': "gone c' = gone c" "raw_inv c'"
      using r(1) False by (auto simp: c'_def tcp_bin_block_end_def gone_def raw_inv_def Let_def)
    have "decode d0 ([3, 3, ?lo, ?hi] @ ?data) = (map byte_sym ?data, d0)"
    proof -
      have "decode \<lparr>d_esc = False, d_mode = 0, d_size = ?len\<rparr> ?data = (map byte_sym ?data, d0)"
        using decode_data [of ?data ?len] lp(2) by (simp add: d0_def)
      then show ?thesis
        by (simp only: decode_append size_two_bytes [OF len] fst_conv snd_conv append_Nil)
    qed
    then have "decode d0 (gone c' @ cur_bytes c') =
        (syms (gone c @ ?pre) @ map byte_sym ?data, d0)"
      using c'(1) cb' r(5) decode_append [of d0 "gone c @ ?pre" "[3, 3, ?lo, ?hi] @ ?data"]
      by (simp del: decode.simps of_nat_add)
    then show ?thesis using none p c'(2) by (simp add: tcp_inv_def tcp_view_def all_bytes_def)
  qed
  then show "tcp_inv c'" "tcp_view c' = tcp_view c" by simp_all
qed

lemma end_open_block_ok:
  assumes "tcp_inv c"
  shows "tcp_inv (end_open_block c)" "tcp_view (end_open_block c) = tcp_view c"
    "to_bin_block (end_open_block c) = None" "to_zero_copy (end_open_block c) = to_zero_copy c"
  using assms bin_block_end_ok [OF assms]
  by (cases "to_bin_block c"; simp add: end_open_block_def)+

lemma tcp_inv_raw: "tcp_inv c \<Longrightarrow> raw_inv c"
  by (simp add: tcp_inv_def)

lemma flush_closed_ok:
  assumes "tcp_inv c" "to_bin_block c = None"
  shows "tcp_inv (flush_if_full c)" "tcp_view (flush_if_full c) = tcp_view c"
    "tcp_inv (tcp_flush_with_flags c)" "tcp_view (tcp_flush_with_flags c) = tcp_view c"
  using assms flush_if_full_ok [OF tcp_inv_raw [OF assms(1)]] flush_ok [OF tcp_inv_raw [OF assms(1)]]
  by (simp_all add: tcp_inv_def tcp_view_def all_bytes_def)

lemma bin_block_start_ok:
  assumes inv: "tcp_inv c" and none: "to_bin_block c = None" and room: "to_cur c < OUT_END - 32"
  shows "tcp_inv (tcp_bin_block_start c)" "tcp_view (tcp_bin_block_start c) = tcp_view c"
    "to_bin_block (tcp_bin_block_start c) \<noteq> None" "to_cur (tcp_bin_block_start c) < OUT_END"
proof -
  have big: "32 < OUT_END" by (simp add: OUTPUT_QUEUE_BUF_SIZE_def)
  have r: "raw_inv c" by (rule tcp_inv_raw [OF inv])
  define c1 where "c1 = put_byte 3 c"
  define c2 where "c2 = put_byte 3 c1"
  define c3 where "c3 = put_byte 0 c2"
  define c4 where "c4 = put_byte 0 c3"
  have 1: "raw_inv c1" "cur_bytes c1 = cur_bytes c @ [3]" "gone c1 = gone c" "to_cur c1 = Suc (to_cur c)"
    using put_byte_ok [OF r, of 3] room by (simp_all add: c1_def)
  have 2: "raw_inv c2" "cur_bytes c2 = cur_bytes c @ [3, 3]" "gone c2 = gone c" "to_cur c2 = to_cur c + 2"
    using put_byte_ok [OF 1(1), of 3] room 1 big by (simp_all add: c2_def)
  have 3: "raw_inv c3" "cur_bytes c3 = cur_bytes c @ [3, 3, 0]" "gone c3 = gone c" "to_cur c3 = to_cur c + 3"
    using put_byte_ok [OF 2(1), of 0] room 2 big by (simp_all add: c3_def)
  have 4: "raw_inv c4" "cur_bytes c4 = cur_bytes c @ [3, 3, 0, 0]" "gone c4 = gone c" "to_cur c4 = to_cur c + 4"
    using put_byte_ok [OF 3(1), of 0] room 3 big by (simp_all add: c4_def)
  have st: "tcp_bin_block_start c = c4\<lparr>to_bin_block := Some (to_cur c4)\<rparr>"
    by (simp add: tcp_bin_block_start_def c1_def c2_def c3_def c4_def sym_byte_def Let_def)
  have upd: "raw_inv (c4\<lparr>to_bin_block := b\<rparr>) = raw_inv c4" "cur_bytes (c4\<lparr>to_bin_block := b\<rparr>) = cur_bytes c4"
    "gone (c4\<lparr>to_bin_block := b\<rparr>) = gone c4" for b
    by (simp_all add: raw_inv_def cur_bytes_def gone_def)
  show "tcp_inv (tcp_bin_block_start c)" "tcp_view (tcp_bin_block_start c) = tcp_view c"
    "to_bin_block (tcp_bin_block_start c) \<noteq> None" "to_cur (tcp_bin_block_start c) < OUT_END"
    using inv none 4 room big length_cur_bytes [OF r]
    by (simp_all add: st tcp_inv_def tcp_view_def upd all_bytes_def)
qed

text \<open>A byte through \<open>out.cur\<close>: inside of a block any byte, outside any but ESC.\<close>

lemma put_byte_view:
  assumes "tcp_inv c" "to_cur c < OUT_END" "to_bin_block c \<noteq> None \<or> b \<noteq> 3"
  shows "tcp_inv (put_byte b c)" "tcp_view (put_byte b c) = tcp_view c @ [byte_sym b]"
proof -
  note pb = put_byte_ok [OF tcp_inv_raw [OF assms(1)] assms(2), of b]
  have "tcp_inv (put_byte b c) \<and> tcp_view (put_byte b c) = tcp_view c @ [byte_sym b]"
  proof (cases "to_bin_block c")
    case None
    then show ?thesis
      using view_closed [OF None, of "put_byte b c" "[b]" "[byte_sym b]"] assms pb decode_plain [of b]
      by (simp add: all_bytes_def del: decode.simps)
  next
    case (Some p)
    then show ?thesis using view_open [OF Some, of "put_byte b c" "[b]"] assms pb by simp
  qed
  then show "tcp_inv (put_byte b c)" "tcp_view (put_byte b c) = tcp_view c @ [byte_sym b]" by simp_all
qed

lemma copy_bytes_view:
  assumes "tcp_inv c" "to_cur c + length bs \<le> OUT_END" "to_bin_block c \<noteq> None \<or> 3 \<notin> set bs"
  shows "tcp_inv (copy_bytes bs c)" "tcp_view (copy_bytes bs c) = tcp_view c @ map byte_sym bs"
proof -
  note pb = copy_bytes_ok [OF tcp_inv_raw [OF assms(1)] assms(2)]
  have plain: "3 \<notin> set bs \<Longrightarrow> decode d0 bs = (map byte_sym bs, d0)" for bs
    by (induction bs) (auto simp: dstep_def)
  have "tcp_inv (copy_bytes bs c) \<and> tcp_view (copy_bytes bs c) = tcp_view c @ map byte_sym bs"
  proof (cases "to_bin_block c")
    case None
    then show ?thesis
      using view_closed [OF None, of "copy_bytes bs c" bs "map byte_sym bs"] assms pb plain [of bs]
      by (simp add: all_bytes_def)
  next
    case (Some p)
    then show ?thesis using view_open [OF Some, of "copy_bytes bs c" bs] assms pb by simp
  qed
  then show "tcp_inv (copy_bytes bs c)" "tcp_view (copy_bytes bs c) = tcp_view c @ map byte_sym bs" by simp_all
qed

definition tcp_symbol :: "sym \<Rightarrow> bool" where
  "tcp_symbol x \<longleftrightarrow> is_byte x \<or> x = MARKER_EOM \<or> x = MARKER_EOS"

text \<open>The counters have no influence on the stream.\<close>

lemma counters_irrelevant:
  assumes "to_obuf c' = to_obuf c" "to_cur c' = to_cur c" "to_bin_block c' = to_bin_block c"
    "to_queue c' = to_queue c" "to_errno c' = to_errno c" "to_disconnected c' = to_disconnected c"
    "to_wire c' = to_wire c"
  shows "tcp_inv c' = tcp_inv c" "tcp_view c' = tcp_view c" "gone c' = gone c" "cur_bytes c' = cur_bytes c"
proof -
  have e: "gone c' = gone c" "cur_bytes c' = cur_bytes c" "raw_inv c' = raw_inv c"
    using assms by (simp_all add: gone_def cur_bytes_def raw_inv_def)
  then show "tcp_inv c' = tcp_inv c" "tcp_view c' = tcp_view c" "gone c' = gone c" "cur_bytes c' = cur_bytes c"
    using assms by (cases "to_bin_block c"; simp add: tcp_inv_def tcp_view_def all_bytes_def)+
qed

lemma eom_posted_view: "tcp_inv (eom_posted c) = tcp_inv c" "tcp_view (eom_posted c) = tcp_view c"
  by (rule counters_irrelevant; simp add: eom_posted_def Let_def)+

lemma write_escape_ok:
  assumes "tcp_inv c" "to_bin_block c = None" "to_cur c < OUT_END" "decode d0 [3, e] = ([x], d0)"
  defines "c' \<equiv> put_byte e (flush_if_full (put_byte (sym_byte ESC) c))"
  shows "tcp_inv c'" "tcp_view c' = tcp_view c @ [x]" "to_bin_block c' = None"
proof -
  have esc: "sym_byte 3 = 3" by (simp add: sym_byte_def)
  note a = put_byte_ok [OF tcp_inv_raw [OF assms(1)] assms(3), of 3]
  note b = flush_if_full_ok [OF a(1)]
  note d = put_byte_ok [OF b(1,3), of e]
  have all: "all_bytes c' = all_bytes c @ [3, e]"
  proof -
    have "all_bytes c' = (gone (flush_if_full (put_byte 3 c)) @ cur_bytes (flush_if_full (put_byte 3 c))) @ [e]"
      using d(2,3) by (simp add: c'_def esc all_bytes_def)
    also have "\<dots> = all_bytes c @ [3, e]" using a(2,3) by (simp only: b(2)) (simp add: all_bytes_def)
    finally show ?thesis .
  qed
  show none: "to_bin_block c' = None" using a(5) b(4) d(5) assms(2) by (simp add: c'_def esc)
  show "tcp_inv c'" "tcp_view c' = tcp_view c @ [x]"
    using view_closed [OF assms(2) all none assms(1) _ assms(4)] d(1) by (simp_all add: c'_def esc)
qed

lemma tcp_write_stream_ok:
  assumes inv: "tcp_inv c" and sym: "tcp_symbol b"
  shows "tcp_inv (tcp_write_stream b c)" "tcp_view (tcp_write_stream b c) = tcp_view c @ [b]"
proof -
  have "tcp_inv (tcp_write_stream b c) \<and> tcp_view (tcp_write_stream b c) = tcp_view c @ [b]"
  proof (cases "\<not> to_zero_copy c \<or> to_cur c \<ge> OUT_END - 32 \<or> b < 0")
    case True
    define c1 where "c1 = flush_if_full (end_open_block c)"
    note eo = end_open_block_ok [OF inv]
    have c1: "tcp_inv c1" "tcp_view c1 = tcp_view c" "to_bin_block c1 = None" "to_cur c1 < OUT_END"
      using flush_closed_ok [OF eo(1,3)] flush_if_full_ok [OF tcp_inv_raw [OF eo(1)]] eo by (simp_all add: c1_def)
    show ?thesis
    proof (cases "b < 0 \<or> b = ESC")
      case esc: True
      then consider "b = ESC" | "b = MARKER_EOM" | "b = MARKER_EOS" using sym by (auto simp: tcp_symbol_def is_byte_def)
      then show ?thesis
        using True esc write_escape_ok [OF c1(1,3,4), of 0 ESC] write_escape_ok [OF c1(1,3,4), of 1 MARKER_EOM]
          write_escape_ok [OF c1(1,3,4), of 2 MARKER_EOS] c1(2)
        by cases (simp_all add: tcp_write_stream_def eom_posted_view del: decode.simps flip: c1_def)
    next
      case False
      then have b: "byte_sym (sym_byte b) = b" "sym_byte b \<noteq> 3"
        using sym byte_sym_inverse [of b] by (auto simp: tcp_symbol_def byte_sym_def)
      with True False put_byte_view [OF c1(1,4), of "sym_byte b"] c1(2) show ?thesis
        by (simp add: tcp_write_stream_def flip: c1_def)
    qed
  next
    case False
    then have b: "byte_sym (sym_byte b) = b" using sym byte_sym_inverse [of b] by (auto simp: tcp_symbol_def)
    show ?thesis
    proof (cases "to_bin_block c = None")
      case True
      note st = bin_block_start_ok [OF inv True]
      with True False put_byte_view [OF st(1,4), of "sym_byte b"] b show ?thesis
        by (simp add: tcp_write_stream_def)
    next
      case some: False
      with False put_byte_view [OF inv, of "sym_byte b"] b show ?thesis
        by (auto simp: tcp_write_stream_def)
    qed
  qed
  then show "tcp_inv (tcp_write_stream b c)" "tcp_view (tcp_write_stream b c) = tcp_view c @ [b]" by simp_all
qed

section \<open>The counters\<close>

text \<open>
  At most two flush events are outstanding, at least one when a complete message waits in
  the buffer; the channel is locked once for outstanding flush events and once for each
  write request (\<open>k\<close> counts the locks of others), so it is not deleted under them.
\<close>

definition cnt_inv :: "nat \<Rightarrow> TcpOut \<Rightarrow> bool" where
  "cnt_inv k c \<longleftrightarrow> to_flush_cnt c \<le> 2 \<and>
     (0 < to_eom_cnt c \<longrightarrow> 0 < to_flush_cnt c \<and> (case to_bin_block c of None \<Rightarrow> 0 < to_cur c | Some p \<Rightarrow> 4 < p)) \<and>
     to_lock_cnt c = k + (if to_flush_cnt c > 0 then 1 else 0) + length (oq_pending (to_queue c))"

lemma flush_posts:
  assumes "oq_inv q" "length (ob_buf bf) = OUT_END" "0 < ob_len bf" "ob_len bf \<le> OUT_END"
    "output_queue_alloc_obuf (output_queue_add_obuf bf q) = (bf2, q2)"
  shows "length (oq_pending q) \<le> length (oq_pending q2)"
proof -
  have a: "oq_inv (output_queue_add_obuf bf q)"
    "oq_view (output_queue_add_obuf bf q) = oq_view q @ take (ob_len bf) (ob_buf bf)"
    using output_queue_add_obuf_ok [OF assms(1-4)] by simp_all
  note b = alloc_obuf_ok [OF a(1) assms(5)]
  have "oq_view q2 \<noteq> []" using a(2) b(2) assms(2,3) by (auto simp: oq_view_def OUTPUT_QUEUE_BUF_SIZE_def)
  then have "oq_pending q2 = [hd (oq_pending q2)]" using oq.inflight_one [OF b(1)] by simp
  moreover have "oq_pending q = [] \<or> oq_pending q = [hd (oq_pending q)]"
    using oq.inflight_one [OF assms(1)] by metis
  ultimately show ?thesis by (metis length_Cons list.size(3) le0 order_refl)
qed

lemma flush_cnt_inv:
  assumes "raw_inv c" "cnt_inv k c"
  shows "cnt_inv k (tcp_flush_with_flags c)" "to_flush_cnt (tcp_flush_with_flags c) = to_flush_cnt c"
    "to_eom_cnt (tcp_flush_with_flags c) = (if to_cur c = 0 then to_eom_cnt c else 0)"
proof -
  obtain bf q2 where al: "output_queue_alloc_obuf (output_queue_add_obuf ((to_obuf c)\<lparr>ob_len := to_cur c\<rparr>) (to_queue c)) = (bf, q2)"
    by fastforce
  have "0 < to_cur c \<Longrightarrow> length (oq_pending (to_queue c)) \<le> length (oq_pending q2)"
    using flush_posts [OF _ _ _ _ al] assms(1) by (simp add: raw_inv_def)
  then show "cnt_inv k (tcp_flush_with_flags c)" "to_flush_cnt (tcp_flush_with_flags c) = to_flush_cnt c"
    "to_eom_cnt (tcp_flush_with_flags c) = (if to_cur c = 0 then to_eom_cnt c else 0)"
    using assms al by (auto simp: tcp_flush_with_flags_def cnt_inv_def with_queue_def)
qed

lemma put_cnt_inv: "cnt_inv k c \<Longrightarrow> cnt_inv k (put_byte b c)" "cnt_inv k c \<Longrightarrow> cnt_inv k (copy_bytes bs c)"
  by (auto simp: cnt_inv_def put_byte_def copy_bytes_def split: option.splits)

lemma block_cnt_inv:
  "cnt_inv k c \<Longrightarrow> to_bin_block c = None \<Longrightarrow> cnt_inv k (tcp_bin_block_start c)"
  "cnt_inv k c \<Longrightarrow> tcp_inv c \<Longrightarrow> cnt_inv k (end_open_block c)"
  by (auto simp: tcp_bin_block_start_def end_open_block_def tcp_bin_block_end_def tcp_inv_def cnt_inv_def put_byte_def Let_def
      split: option.splits)

lemma flush_if_full_cnt_inv: "raw_inv c \<Longrightarrow> cnt_inv k c \<Longrightarrow> cnt_inv k (flush_if_full c)"
  using flush_cnt_inv by (simp add: flush_if_full_def)

lemma eom_posted_cnt_inv: "cnt_inv k c \<Longrightarrow> to_bin_block c = None \<Longrightarrow> 0 < to_cur c \<Longrightarrow> cnt_inv k (eom_posted c)"
  by (auto simp: eom_posted_def cnt_inv_def Let_def)

lemma tcp_write_stream_cnt_inv:
  assumes "tcp_inv c" "cnt_inv k c"
  shows "cnt_inv k (tcp_write_stream b c)"
proof -
  define c1 where "c1 = flush_if_full (end_open_block c)"
  have r: "raw_inv (end_open_block c)" using tcp_inv_raw [OF end_open_block_ok(1) [OF assms(1)]] .
  have c1: "raw_inv c1" "to_cur c1 < OUT_END" "cnt_inv k c1"
    using flush_if_full_ok [OF r] flush_if_full_cnt_inv [OF r] assms by (simp_all add: c1_def block_cnt_inv)
  have none: "to_bin_block c1 = None"
    using flush_if_full_ok(4) [OF r] end_open_block_ok(3) [OF assms(1)] by (simp add: c1_def)
  have c2: "cnt_inv k (put_byte e (flush_if_full (put_byte x c1)))"
    "cnt_inv k (eom_posted (put_byte e (flush_if_full (put_byte x c1))))" for e x
  proof -
    note p1 = put_byte_ok [OF c1(1,2), of x]
    note f1 = flush_if_full_ok [OF p1(1)]
    show *: "cnt_inv k (put_byte e (flush_if_full (put_byte x c1)))"
      using flush_if_full_cnt_inv [OF p1(1)] c1(3) by (simp add: put_cnt_inv)
    show "cnt_inv k (eom_posted (put_byte e (flush_if_full (put_byte x c1))))"
      using put_byte_ok(4,5) [OF f1(1,3), of e] f1(4) p1(5) none by (intro eom_posted_cnt_inv *) simp_all
  qed
  show ?thesis
    using assms c1(3) c2 by (simp add: tcp_write_stream_def put_cnt_inv block_cnt_inv flip: c1_def)
qed

definition tcp_ok :: "nat \<Rightarrow> TcpOut \<Rightarrow> bool" where
  "tcp_ok k c \<longleftrightarrow> tcp_inv c \<and> cnt_inv k c"

lemma tcp_write_block_ok:
  "tcp_ok k c \<Longrightarrow> tcp_ok k (tcp_write_block_stream bs c) \<and>
     tcp_view (tcp_write_block_stream bs c) = tcp_view c @ map byte_sym bs"
proof (induction bs c rule: tcp_write_block_stream.induct)
  case (1 bs c)
  show ?case
  proof (cases bs)
    case Nil
    with 1 show ?thesis by (simp add: tcp_write_block_stream.simps [of "[]"])
  next
    case (Cons b bs')
    define n where "n = min (OUT_END - to_cur c) (length bs)"
    have inv: "tcp_inv c" "cnt_inv k c" using 1(5) by (simp_all add: tcp_ok_def)
    have w: "tcp_ok k (tcp_write_stream (byte_sym b) c)"
        "tcp_view (tcp_write_stream (byte_sym b) c) = tcp_view c @ [byte_sym b]"
      using tcp_write_stream_ok [OF inv(1), of "byte_sym b"] tcp_write_stream_cnt_inv [OF inv]
      by (simp_all add: tcp_symbol_def tcp_ok_def)
    have ne: "bs \<noteq> []" and hdb: "hd bs = b" using Cons by simp_all
    have room: "to_cur c + n \<le> OUT_END" using tcp_inv_raw [OF inv(1)] by (auto simp: n_def raw_inv_def)
    consider (full) "n = 0" | (block) "n \<noteq> 0" "to_bin_block c \<noteq> None"
      | (plain) "n \<noteq> 0" "to_bin_block c = None" "byte_sym b \<noteq> ESC"
      | (esc) "n \<noteq> 0" "to_bin_block c = None" "byte_sym b = ESC" by blast
    then show ?thesis
    proof cases
      case full
      then have "tcp_write_block_stream bs c = tcp_write_block_stream (tl bs) (tcp_write_stream (byte_sym (hd bs)) c)"
        using ne hdb by (subst tcp_write_block_stream.simps) (simp add: Let_def flip: n_def)
      with 1(1) [OF ne n_def full] w Cons show ?thesis by simp
    next
      case block
      then have eq: "tcp_write_block_stream bs c = tcp_write_block_stream (drop n bs) (copy_bytes (take n bs) c)"
        using ne by (subst tcp_write_block_stream.simps) (simp add: Let_def flip: n_def)
      have "length (take n bs) = n" by (simp add: n_def)
      with copy_bytes_view [OF inv(1), of "take n bs"] block room
      have cb: "tcp_ok k (copy_bytes (take n bs) c)"
        "tcp_view (copy_bytes (take n bs) c) = tcp_view c @ map byte_sym (take n bs)"
        using inv(2) by (simp_all add: tcp_ok_def put_cnt_inv)
      from 1(2) [OF ne n_def block cb(1)] cb(2) eq show ?thesis
        by (simp flip: map_append)
    next
      case plain
      define run where "run = takeWhile (\<lambda>ch. byte_sym ch \<noteq> ESC) (take n bs)"
      have eq: "tcp_write_block_stream bs c = tcp_write_block_stream (drop (length run) bs) (copy_bytes run c)"
        using ne plain hdb by (subst tcp_write_block_stream.simps) (simp add: Let_def run_def flip: n_def)
      have "length run \<le> length (take n bs)" unfolding run_def by (rule length_takeWhile_le)
      then have le: "length run \<le> n" by simp
      have "run = take (length run) (take n bs)" unfolding run_def by (rule takeWhile_eq_take)
      then have run: "run = take (length run) bs" "length run \<le> n" using le by (simp_all add: min_def)
      have "3 \<notin> set run" by (auto simp: run_def byte_sym_def dest!: set_takeWhileD)
      with copy_bytes_view [OF inv(1), of run] plain room run(2)
      have cb: "tcp_ok k (copy_bytes run c)" "tcp_view (copy_bytes run c) = tcp_view c @ map byte_sym run"
        using inv(2) by (auto simp: tcp_ok_def put_cnt_inv)
      have "map byte_sym run @ map byte_sym (drop (length run) bs) = map byte_sym bs"
        using run(1) append_take_drop_id [of "length run" bs] by (metis map_append)
      with 1(3) [OF ne n_def plain(1) _ _ run_def cb(1)] cb(2) eq plain Cons show ?thesis by simp
    next
      case esc
      then have "tcp_write_block_stream bs c = tcp_write_block_stream (tl bs) (tcp_write_stream (byte_sym (hd bs)) c)"
        using ne hdb by (subst tcp_write_block_stream.simps) (simp add: Let_def flip: n_def)
      with 1(4) [OF ne n_def esc(1)] esc w Cons show ?thesis by simp
    qed
  qed
qed

definition tcp_ops :: "TcpOut OutputStream" where
  "tcp_ops = \<lparr>os_cur_null = (\<lambda>_. False), os_room = (\<lambda>c. OUT_END - to_cur c), os_put = put_byte,
     os_write = tcp_write_stream, os_write_block = tcp_write_block_stream\<rparr>"

interpretation tcp: windowed_stream tcp_ops tcp_symbol tcp_view "tcp_ok k" for k
proof unfold_locales
  fix c b bs
  assume ok: "tcp_ok k c"
  then have inv: "tcp_inv c" "cnt_inv k c" by (simp_all add: tcp_ok_def)
  show "tcp_symbol b \<Longrightarrow> tcp_view (os_write tcp_ops b c) = write_stream (tcp_view c) b"
    "tcp_symbol b \<Longrightarrow> tcp_ok k (os_write tcp_ops b c)"
    using tcp_write_stream_ok [OF inv(1)] tcp_write_stream_cnt_inv [OF inv] by (simp_all add: tcp_ops_def tcp_ok_def)
  show "tcp_view (os_write_block tcp_ops bs c) = write_block_stream (tcp_view c) bs"
    "tcp_ok k (os_write_block tcp_ops bs c)"
    using tcp_write_block_ok [OF ok] by (simp_all add: tcp_ops_def)
next
  fix c b
  assume "tcp_ok k c" "os_room tcp_ops c > 0" "byte_sym b \<noteq> ESC"
  moreover from this have "b \<noteq> 3" by (auto simp: byte_sym_def)
  ultimately show "tcp_view (os_put tcp_ops b c) = tcp_view c @ [byte_sym b]" "tcp_ok k (os_put tcp_ops b c)"
    using put_byte_view [of c b] by (simp_all add: tcp_ops_def tcp_ok_def put_cnt_inv)
qed (simp add: tcp_symbol_def)

section \<open>Runs of the channel\<close>

text \<open>
  The channel as a state machine: the client writes symbols, blocks and strings, the event loop
  delivers posted flush events (between messages only: no block is open, as the assertion in
  \<open>tcp_flush_with_flags\<close> demands), the system completes write requests. A transition is labelled
  with the symbols written.
\<close>

inductive tcp_step :: "TcpOut \<Rightarrow> sym list \<Rightarrow> TcpOut \<Rightarrow> bool" where
  write_sym: "tcp_symbol b \<Longrightarrow> tcp_step c [b] (os_write_stream tcp_ops c b)"
| write_block: "tcp_step c (map byte_sym bs) (tcp_write_block_stream bs c)"
| write_str: "tcp_step c (map byte_sym bs) (write_string tcp_ops c bs)"
| write_strz: "tcp_step c (map byte_sym bs @ [0]) (write_stringz tcp_ops c bs)"
| flush_event: "0 < to_flush_cnt c \<Longrightarrow> to_bin_block c = None \<Longrightarrow> tcp_step c [] (tcp_flush_event c)"
| write_done: "oq_pending (to_queue c) \<noteq> [] \<Longrightarrow> n \<le> length (hd (oq_pending (to_queue c))) \<Longrightarrow>
    tcp_step c [] (done_write_request 0 n c)"

inductive tcp_run :: "TcpOut \<Rightarrow> sym list \<Rightarrow> TcpOut \<Rightarrow> bool" where
  tcp_run_refl: "tcp_run c [] c"
| tcp_run_step: "tcp_run c xs c1 \<Longrightarrow> tcp_step c1 ys c2 \<Longrightarrow> tcp_run c (xs @ ys) c2"

lemma tcp_flush_event_ok:
  assumes "tcp_ok k c" "to_bin_block c = None" "0 < to_flush_cnt c"
  shows "tcp_ok k (tcp_flush_event c)" "tcp_view (tcp_flush_event c) = tcp_view c"
    "to_bin_block (tcp_flush_event c) = None" "to_flush_cnt (tcp_flush_event c) = to_flush_cnt c - 1"
    "to_flush_cnt c = 1 \<Longrightarrow> to_cur (tcp_flush_event c) = 0"
proof -
  define c1 where "c1 = c\<lparr>to_flush_cnt := to_flush_cnt c - 1\<rparr>"
  have c1: "tcp_inv c1" "tcp_view c1 = tcp_view c" "to_bin_block c1 = None" "to_flush_cnt c1 = to_flush_cnt c - 1"
    using counters_irrelevant [of c1 c] assms by (simp_all add: c1_def tcp_ok_def)
  note f = flush_closed_ok(3,4) [OF c1(1,3)] flush_ok [OF tcp_inv_raw [OF c1(1)]]
  define c2 where "c2 = tcp_flush_with_flags c1"
  have ev: "tcp_flush_event c = (if to_flush_cnt c1 = 0 then c2\<lparr>to_lock_cnt := to_lock_cnt c2 - 1\<rparr>
      else if to_eom_cnt c1 > 3 then c2 else c1)"
    by (simp only: tcp_flush_event_def Let_def c1_def c2_def)
  have cnt1: "cnt_inv k c1" if "to_flush_cnt c1 \<noteq> 0"
    using assms that by (auto simp: c1_def tcp_ok_def cnt_inv_def)
  have cnt2: "cnt_inv k (c2\<lparr>to_lock_cnt := to_lock_cnt c2 - 1\<rparr>)" if z: "to_flush_cnt c1 = 0"
  proof -
    let ?d = "c1\<lparr>to_eom_cnt := 0, to_lock_cnt := to_lock_cnt c1 - 1\<rparr>"
    have "cnt_inv k ?d" using assms z by (auto simp: c1_def tcp_ok_def cnt_inv_def)
    moreover have "raw_inv ?d" using tcp_inv_raw [OF c1(1)] by (simp add: raw_inv_def)
    ultimately have "cnt_inv k (tcp_flush_with_flags ?d)" by (simp add: flush_cnt_inv)
    moreover have "0 < to_lock_cnt c1" using assms z by (auto simp: c1_def tcp_ok_def cnt_inv_def)
    moreover have "to_cur c1 = 0 \<Longrightarrow> to_eom_cnt c1 = 0"
      using assms by (auto simp: c1_def tcp_ok_def cnt_inv_def)
    ultimately show ?thesis
      using z by (auto simp: c2_def tcp_flush_with_flags_def cnt_inv_def with_queue_def split: prod.splits)
  qed
  show "tcp_view (tcp_flush_event c) = tcp_view c" "to_bin_block (tcp_flush_event c) = None"
    using c1 f counters_irrelevant(2) [of "c2\<lparr>to_lock_cnt := j\<rparr>" c2 for j]
    by (simp_all add: ev flip: c2_def)
  show "tcp_ok k (tcp_flush_event c)"
    using c1 f cnt1 cnt2 counters_irrelevant(1) [of "c2\<lparr>to_lock_cnt := j\<rparr>" c2 for j] flush_cnt_inv(1) [OF tcp_inv_raw [OF c1(1)]]
    by (simp add: ev tcp_ok_def flip: c2_def)
  show "to_flush_cnt (tcp_flush_event c) = to_flush_cnt c - 1" "to_flush_cnt c = 1 \<Longrightarrow> to_cur (tcp_flush_event c) = 0"
    using c1 f by (auto simp: ev c2_def tcp_flush_with_flags_def with_queue_def Let_def split: prod.splits)
qed

lemma done_write_ok:
  assumes inv: "tcp_inv c" and ne: "oq_pending (to_queue c) \<noteq> []" and n: "n \<le> length (hd (oq_pending (to_queue c)))"
  defines "c' \<equiv> done_write_request 0 n c"
  shows "tcp_inv c'" "tcp_view c' = tcp_view c" "gone c' = gone c"
    "to_wire c' = to_wire c @ take n (hd (oq_pending (to_queue c)))"
proof -
  have q: "oq_inv (to_queue c)" using inv by (simp add: tcp_inv_def raw_inv_def)
  have v: "oq_view (to_queue c) \<noteq> []" using ne oq.inflight_one [OF q] by auto
  obtain t where t: "oq_view (to_queue c) = hd (oq_pending (to_queue c)) @ t"
    using oq.inflight_prefix [OF q v] by blast
  show w: "to_wire c' = to_wire c @ take n (hd (oq_pending (to_queue c)))"
    by (simp add: c'_def done_write_request_def Let_def)
  have q': "to_queue c' = output_queue_done 0 n (to_queue c)"
    by (simp add: c'_def done_write_request_def Let_def)
  have "oq_view (to_queue c') = drop n (oq_view (to_queue c))" using oq.sent_view [OF q v n] q' by simp
  then show g: "gone c' = gone c" using t n w by (simp add: gone_def)
  have r: "oq_inv (to_queue c')" using oq.sent_inv [OF q v n] q' by simp
  have same: "cur_bytes c' = cur_bytes c" "to_bin_block c' = to_bin_block c" "to_cur c' = to_cur c" "raw_inv c'"
    using inv r by (simp_all add: c'_def done_write_request_def Let_def cur_bytes_def raw_inv_def tcp_inv_def)
  show "tcp_inv c'" "tcp_view c' = tcp_view c"
    using inv g same by (cases "to_bin_block c"; simp add: tcp_inv_def tcp_view_def all_bytes_def)+
qed

lemma done_cnt_inv:
  assumes ok: "tcp_ok k c" and ne: "oq_pending (to_queue c) \<noteq> []"
  shows "cnt_inv k (done_write_request 0 n c)"
proof -
  have "oq_inv (to_queue c)" using ok by (simp add: tcp_ok_def tcp_inv_def raw_inv_def)
  then have "length (oq_pending (to_queue c)) = 1" using ne by (auto simp: oq_inv_def split: list.splits)
  with ok show ?thesis by (auto simp: tcp_ok_def cnt_inv_def done_write_request_def Let_def split: option.splits)
qed

lemma tcp_step_ok: "tcp_step c xs c' \<Longrightarrow> tcp_ok k c \<Longrightarrow> tcp_view c' = tcp_view c @ xs \<and> tcp_ok k c'"
proof (induction rule: tcp_step.induct)
  case (write_sym b c)
  have "b < 256" using write_sym(1) by (auto simp: tcp_symbol_def)
  with write_sym show ?case by (intro tcp.os_write_stream_ok)
next
  case (write_block c bs)
  then show ?case using tcp.wr_block_view [of k c bs] tcp.wr_block_inv [of k c bs] by (simp add: tcp_ops_def)
next
  case (write_str c bs)
  then show ?case by (rule tcp.write_string_ok)
next
  case (write_strz c bs)
  then show ?case by (rule tcp.write_stringz_ok)
next
  case (flush_event c)
  then show ?case using tcp_flush_event_ok by simp
next
  case (write_done c n)
  then show ?case using done_write_ok done_cnt_inv by (simp add: tcp_ok_def)
qed

lemma tcp_run_ok: "tcp_run c xs c' \<Longrightarrow> tcp_ok k c \<Longrightarrow> tcp_view c' = tcp_view c @ xs \<and> tcp_ok k c'"
proof (induction rule: tcp_run.induct)
  case (tcp_run_step c xs c1 ys c2)
  then show ?case using tcp_step_ok [of c1 ys c2 k] by auto
qed simp

lemma tcp_run_trans: "tcp_run c1 ys c2 \<Longrightarrow> tcp_run c xs c1 \<Longrightarrow> tcp_run c (xs @ ys) c2"
proof (induction rule: tcp_run.induct)
  case (tcp_run_step c1 ys c2 zs c3)
  then show ?case using tcp_run.tcp_run_step [of c "xs @ ys" c2 zs c3] by simp
qed simp

text \<open>A channel as \<open>create_channel\<close> leaves it.\<close>

definition tcp_initial :: "bool \<Rightarrow> TcpOut" where
  "tcp_initial zc =
     \<lparr>to_zero_copy = zc, to_obuf = fst (output_queue_alloc_obuf oq_empty), to_cur = 0, to_bin_block = None,
      to_queue = snd (output_queue_alloc_obuf oq_empty), to_errno = 0, to_flush_cnt = 0, to_eom_cnt = 0,
      to_lock_cnt = 1, to_disconnected = False, to_wire = []\<rparr>"

lemma tcp_initial_ok: "tcp_ok 1 (tcp_initial zc)" "tcp_view (tcp_initial zc) = []"
proof -
  obtain bf q where al: "output_queue_alloc_obuf oq_empty = (bf, q)" by fastforce
  have "oq_queue oq_empty = []" by (simp add: oq_empty_def output_queue_ini_def)
  then show "tcp_ok 1 (tcp_initial zc)" "tcp_view (tcp_initial zc) = []"
    using alloc_obuf_ok [OF oq_empty_ok(1) al] al
    by (simp_all add: tcp_ok_def cnt_inv_def oq_inv_def tcp_inv_def tcp_view_def raw_inv_def all_bytes_def gone_def cur_bytes_def tcp_initial_def oq_view_def)
qed

section \<open>Properties\<close>


lemma tcp_run_message: "tcp_run (tcp_initial zc) ([byte_sym 7, 3] @ [MARKER_EOM])
    (os_write_stream tcp_ops (tcp_write_block_stream [7, 3] (tcp_initial zc)) MARKER_EOM)"
proof -
  have "tcp_step (tcp_initial zc) (map byte_sym [7, 3]) (tcp_write_block_stream [7, 3] (tcp_initial zc))"
    by (rule write_block)
  from tcp_run_step [OF tcp_run_step [OF tcp_run_refl this] write_sym [of MARKER_EOM]]
  show ?thesis by (simp add: tcp_symbol_def byte_sym_def)
qed

lemma eom_ends_block: "tcp_inv c \<Longrightarrow> to_bin_block (os_write_stream tcp_ops c MARKER_EOM) = None"
proof -
  assume inv: "tcp_inv c"
  note eo = end_open_block_ok [OF inv]
  define c1 where "c1 = flush_if_full (end_open_block c)"
  have c1: "tcp_inv c1" "to_bin_block c1 = None" "to_cur c1 < OUT_END"
    using flush_closed_ok [OF eo(1,3)] flush_if_full_ok [OF tcp_inv_raw [OF eo(1)]] eo by (simp_all add: c1_def)
  note w = write_escape_ok(3) [OF c1, of 1 MARKER_EOM]
  show ?thesis
    using w by (simp add: os_write_stream_def tcp_ops_def tcp_write_stream_def eom_posted_def Let_def
        del: decode.simps flip: c1_def)
qed


lemma flush_events_gone:
  assumes "tcp_ok k c" "to_bin_block c = None" "0 < to_flush_cnt c"
  shows "gone (tcp_flush_event c) @ cur_bytes (tcp_flush_event c) = gone c @ cur_bytes c"
proof -
  define c1 where "c1 = c\<lparr>to_flush_cnt := to_flush_cnt c - 1\<rparr>"
  have c1: "raw_inv c1" "gone c1 = gone c" "cur_bytes c1 = cur_bytes c"
    using assms(1) by (simp_all add: c1_def tcp_ok_def tcp_inv_def raw_inv_def gone_def cur_bytes_def)
  have "tcp_flush_event c = (if to_flush_cnt c1 = 0
      then (tcp_flush_with_flags c1)\<lparr>to_lock_cnt := to_lock_cnt (tcp_flush_with_flags c1) - 1\<rparr>
      else if to_eom_cnt c1 > 3 then tcp_flush_with_flags c1 else c1)"
    by (simp only: tcp_flush_event_def Let_def c1_def)
  then show ?thesis
    using flush_ok [OF c1(1)] c1
      counters_irrelevant(3,4) [of "(tcp_flush_with_flags c1)\<lparr>to_lock_cnt := j\<rparr>" "tcp_flush_with_flags c1" for j]
    by simp
qed

lemma flush_events_empty:
  assumes "tcp_ok k c" "to_bin_block c = None" "0 < to_flush_cnt c"
  shows "to_cur ((tcp_flush_event ^^ to_flush_cnt c) c) = 0 \<and>
    gone ((tcp_flush_event ^^ to_flush_cnt c) c) = gone c @ cur_bytes c"
proof -
  note e = tcp_flush_event_ok [OF assms]
  have "to_flush_cnt c \<le> 2" using assms by (simp add: tcp_ok_def cnt_inv_def)
  with assms(3) consider "to_flush_cnt c = 1" | "to_flush_cnt c = 2" by linarith
  then show ?thesis
  proof cases
    case 1
    then have "cur_bytes (tcp_flush_event c) = []" using e(5) by (simp add: cur_bytes_def)
    with 1 e(5) flush_events_gone [OF assms] show ?thesis by simp
  next
    case 2
    then have one: "to_flush_cnt (tcp_flush_event c) = 1" using e(4) by simp
    note f = tcp_flush_event_ok [OF e(1,3)]
    have "cur_bytes (tcp_flush_event (tcp_flush_event c)) = []" using f(5) one by (simp add: cur_bytes_def)
    with 2 one f(5) flush_events_gone [OF assms] flush_events_gone [OF e(1,3)] show ?thesis
      by (simp add: numeral_2_eq_2)
  qed
qed

text \<open>
  When a complete message waits in the buffer, a flush event is outstanding; the outstanding
  events (never more than two) empty the buffer into the output queue without losing or reordering
  a byte. The channel stays locked for the flush events and for each write request.
\<close>

theorem tcp_flush_complete:
  assumes "tcp_run (tcp_initial zc) xs c" "to_bin_block c = None"
  shows "to_flush_cnt c \<le> 2 \<and> (0 < to_eom_cnt c \<longrightarrow> 0 < to_flush_cnt c) \<and>
    (0 < to_flush_cnt c \<longrightarrow>
       to_cur ((tcp_flush_event ^^ to_flush_cnt c) c) = 0 \<and>
       gone ((tcp_flush_event ^^ to_flush_cnt c) c) = gone c @ cur_bytes c) \<and>
    to_lock_cnt c = 1 + (if to_flush_cnt c > 0 then 1 else 0) + length (oq_pending (to_queue c))"
proof -
  from tcp_run_ok [OF assms(1) tcp_initial_ok(1)] have ok: "tcp_ok 1 c" by simp
  with flush_events_empty [OF ok assms(2)] show ?thesis by (auto simp: tcp_ok_def cnt_inv_def)
qed

theorem tcp_flush_complete_witness:
  "\<exists>c. tcp_run (tcp_initial False) [7, 3, MARKER_EOM] c \<and> to_flush_cnt c \<le> 2"
proof -
  let ?c = "os_write_stream tcp_ops (tcp_write_block_stream [7, 3] (tcp_initial False)) MARKER_EOM"
  have "tcp_inv (tcp_write_block_stream [7, 3] (tcp_initial False))"
    using tcp_write_block_ok [OF tcp_initial_ok(1)] by (simp add: tcp_ok_def)
  from tcp_flush_complete [OF tcp_run_message eom_ends_block [OF this]] tcp_run_message [of False]
  show ?thesis by (auto simp: byte_sym_def)
qed

text \<open>All that was written has left the buffer and the queue.\<close>

definition tcp_sent :: "TcpOut \<Rightarrow> bool" where
  "tcp_sent c \<longleftrightarrow> to_bin_block c = None \<and> to_cur c = 0 \<and> oq_view (to_queue c) = []"

lemma tcp_run_first: "tcp_run c1 xs c2 \<Longrightarrow> tcp_step c [] c1 \<Longrightarrow> tcp_run c xs c2"
  using tcp_run_trans [of c1 xs c2 c "[]"] tcp_run_step [OF tcp_run_refl] by fastforce

lemma drain_queue:
  "tcp_ok k c \<Longrightarrow> to_bin_block c = None \<Longrightarrow> to_cur c = 0 \<Longrightarrow> \<exists>c'. tcp_run c [] c' \<and> tcp_sent c'"
proof (induction "length (oq_view (to_queue c))" arbitrary: c rule: less_induct)
  case less
  have q: "oq_inv (to_queue c)" using less.prems(1) by (simp add: tcp_ok_def tcp_inv_def raw_inv_def)
  show ?case
  proof (cases "oq_view (to_queue c) = []")
    case True
    with less.prems show ?thesis by (auto simp: tcp_sent_def intro: tcp_run_refl)
  next
    case False
    then have p: "oq_pending (to_queue c) \<noteq> []" by (subst oq.inflight_one [OF q]) simp
    define n where "n = length (hd (oq_pending (to_queue c)))"
    define c1 where "c1 = done_write_request 0 n c"
    have n: "0 < n" "n \<le> length (hd (oq_pending (to_queue c)))"
      using oq.inflight_prefix [OF q False] by (simp_all add: n_def)
    have st: "tcp_step c [] c1" unfolding c1_def by (rule write_done [OF p n(2)])
    have f: "to_bin_block c1 = None" "to_cur c1 = 0" "to_queue c1 = output_queue_done 0 n (to_queue c)"
      using less.prems(2,3) by (simp_all add: c1_def done_write_request_def Let_def)
    have "tcp_ok k c1" using tcp_step_ok [OF st less.prems(1)] by simp
    moreover have "length (oq_view (to_queue c1)) < length (oq_view (to_queue c))"
      using oq.sent_view [OF q False n(2)] f(3) n(1) False by simp
    ultimately obtain c' where "tcp_run c1 [] c'" "tcp_sent c'" using less.hyps f(1,2) by blast
    with tcp_run_first [OF _ st] show ?thesis by blast
  qed
qed

lemma flush_all:
  assumes "tcp_ok k c" "to_bin_block c = None" "0 < to_flush_cnt c"
  shows "\<exists>c'. tcp_run c [] c' \<and> tcp_ok k c' \<and> to_bin_block c' = None \<and> to_cur c' = 0"
proof -
  note e = tcp_flush_event_ok [OF assms] flush_event [OF assms(3,2)]
  have "to_flush_cnt c \<le> 2" using assms by (simp add: tcp_ok_def cnt_inv_def)
  with assms(3) consider "to_flush_cnt c = 1" | "to_flush_cnt c = 2" by linarith
  then show ?thesis
  proof cases
    case 1
    with e show ?thesis using tcp_run_first [OF tcp_run_refl] by blast
  next
    case 2
    then have one: "to_flush_cnt (tcp_flush_event c) = 1" using e(4) by simp
    note f = tcp_flush_event_ok [OF e(1,3)] flush_event [OF _ e(3)]
    from one f e(6) show ?thesis using tcp_run_first [OF tcp_run_first [OF tcp_run_refl]] by (metis less_numeral_extra(1))
  qed
qed

lemma tcp_sent_reachable:
  assumes "tcp_run (tcp_initial zc) xs c" "to_bin_block c = None" "0 < to_eom_cnt c \<or> to_cur c = 0"
  shows "\<exists>c'. tcp_run (tcp_initial zc) xs c' \<and> tcp_run c [] c' \<and> tcp_sent c'"
proof -
  have ok: "tcp_ok 1 c" using tcp_run_ok [OF assms(1) tcp_initial_ok(1)] by simp
  have "\<exists>c1. tcp_run c [] c1 \<and> tcp_ok 1 c1 \<and> to_bin_block c1 = None \<and> to_cur c1 = 0"
  proof (cases "to_cur c = 0")
    case True
    with ok assms(2) show ?thesis by (blast intro: tcp_run_refl)
  next
    case False
    with assms(3) ok have "0 < to_flush_cnt c" by (auto simp: tcp_ok_def cnt_inv_def)
    from flush_all [OF ok assms(2) this] show ?thesis .
  qed
  then obtain c1 where c1: "tcp_run c [] c1" "tcp_ok 1 c1" "to_bin_block c1 = None" "to_cur c1 = 0" by blast
  from drain_queue [OF c1(2-4)] obtain c' where c': "tcp_run c1 [] c'" "tcp_sent c'" by blast
  have "tcp_run c [] c'" using tcp_run_trans [OF c'(1) c1(1)] by simp
  with tcp_run_trans [OF this assms(1)] c'(2) show ?thesis by auto
qed

lemma tcp_sent_wire:
  assumes "tcp_run (tcp_initial zc) xs c" "tcp_sent c"
  shows "decode d0 (to_wire c) = (xs, d0)"
proof -
  from tcp_run_ok [OF assms(1) tcp_initial_ok(1)] have "tcp_view c = xs" "tcp_ok 1 c"
    by (simp_all add: tcp_initial_ok)
  with assms(2) show ?thesis
    by (simp add: tcp_sent_def tcp_ok_def tcp_inv_def tcp_view_def all_bytes_def gone_def cur_bytes_def prod_eq_iff)
qed

text \<open>
  C31: Every complete message gets out: after the end of a message (or with an empty buffer) the events that are
  outstanding, flushes and completions of write requests, suffice to bring all that was written to the
  wire.
\<close>

theorem tcp_sends_all:
  assumes "tcp_run (tcp_initial zc) xs c" "to_bin_block c = None" "0 < to_eom_cnt c \<or> to_cur c = 0"
  shows "\<exists>c'. tcp_run c [] c' \<and> tcp_sent c' \<and> decode d0 (to_wire c') = (xs, d0)"
  using tcp_sent_reachable [OF assms] tcp_sent_wire by blast

lemma tcp_message_state:
  "\<exists>c. tcp_run (tcp_initial zc) [7, 3, MARKER_EOM] c \<and> to_bin_block c = None \<and> (0 < to_eom_cnt c \<or> to_cur c = 0)"
proof -
  let ?b = "tcp_write_block_stream [7, 3] (tcp_initial zc)"
  let ?c = "os_write_stream tcp_ops ?b MARKER_EOM"
  have "tcp_inv ?b" using tcp_write_block_ok [OF tcp_initial_ok(1)] by (simp add: tcp_ok_def)
  from eom_ends_block [OF this] have "to_bin_block ?c = None" .
  moreover have "0 < to_eom_cnt ?c \<or> to_cur ?c = 0"
    by (simp add: os_write_stream_def tcp_ops_def tcp_write_stream_def eom_posted_def Let_def)
  moreover have "tcp_run (tcp_initial zc) [7, 3, MARKER_EOM] ?c" using tcp_run_message [of zc] by (simp add: byte_sym_def)
  ultimately show ?thesis by blast
qed

theorem tcp_sends_all_witness:
  "\<exists>c'. tcp_run (tcp_initial True) [7, 3, MARKER_EOM] c' \<and> decode d0 (to_wire c') = ([7, 3, MARKER_EOM], d0)"
proof -
  from tcp_message_state [of True] obtain c where c: "tcp_run (tcp_initial True) [7, 3, MARKER_EOM] c" "to_bin_block c = None"
      "0 < to_eom_cnt c \<or> to_cur c = 0" by blast
  from tcp_sends_all [OF c] tcp_run_trans [OF _ c(1)] show ?thesis by fastforce
qed

end
