(* ===== verification/InputBuf.thy ===== *)
theory InputBuf
  imports Framing
begin

text \<open>
  The input buffer of a channel: src/agent/tcf/framework/inputbuf.c, with the call backs that
  channel_tcp.c provides. A ring buffer receives the bytes of the socket at \<open>inp\<close>; they are
  decoded from \<open>out\<close> when the message handler reads. \<open>ib_cur\<close> and \<open>ib_end\<close> are the pointers \<open>cur\<close> and
  \<open>end\<close> of the input stream, the window of bytes that need no further decoding. All pointers are
  indices into the buffer, \<open>buf_size\<close> is its length.

  \<open>ib_inp_d\<close> and \<open>ib_out_d\<close> hold \<open>inp_esc, inp_size_mode, inp_data_size\<close> and \<open>out_esc, out_size_mode,
  out_data_size\<close>. \<open>ib_read\<close> is the outstanding read request (\<open>read_pending\<close>, \<open>read_buf\<close>,
  \<open>read_buf_size\<close> of \<open>ChannelTCP\<close>). The data that the peer is still going to send is a list of
  pieces, \<open>net\<close>; when it is used up the peer closes the connection.
\<close>

unbundle bit_operations_syntax

section \<open>State\<close>

datatype HandleMsg = HandleMsgIdle | HandleMsgTriggered | HandleMsgActive

record InputBuf =
  ib_buf :: "byte list"
  ib_inp :: nat
  ib_cur :: nat
  ib_end :: nat
  ib_inp_d :: decoder
  ib_out_d :: decoder
  ib_eof :: bool
  ib_long_msg :: bool
  ib_message_count :: nat
  ib_handling_msg :: HandleMsg
  ib_read :: "(nat \<times> nat) option"

abbreviation buf_size :: "InputBuf \<Rightarrow> nat" where
  "buf_size ib \<equiv> length (ib_buf ib)"

definition ibuf_init :: "byte list \<Rightarrow> InputBuf" where
  "ibuf_init mem =
     \<lparr>ib_buf = mem, ib_inp = 0, ib_cur = 0, ib_end = 0, ib_inp_d = d0, ib_out_d = d0, ib_eof = False,
      ib_long_msg = False, ib_message_count = 0, ib_handling_msg = HandleMsgIdle, ib_read = None\<rparr>"

section \<open>Messages\<close>

text \<open>\<open>tcp_trigger_message\<close> posts the event that handles a message, once.\<close>

definition tcp_trigger_message :: "InputBuf \<Rightarrow> InputBuf" where
  "tcp_trigger_message ib =
     (if ib_handling_msg ib = HandleMsgIdle then ib\<lparr>ib_handling_msg := HandleMsgTriggered\<rparr> else ib)"

definition ibuf_new_message :: "InputBuf \<Rightarrow> InputBuf" where
  "ibuf_new_message ib = tcp_trigger_message (ib\<lparr>ib_message_count := ib_message_count ib + 1\<rparr>)"

definition ibuf_eof :: "InputBuf \<Rightarrow> InputBuf" where
  "ibuf_eof ib = (if \<not> ib_eof ib then ibuf_new_message (ib\<lparr>ib_eof := True\<rparr>) else ib)"

text \<open>The result is 0, -1 or 1. \<open>None\<close>: the assertion fails.\<close>

definition ibuf_start_message :: "InputBuf \<Rightarrow> (int \<times> InputBuf) option" where
  "ibuf_start_message ib =
     (if ib_handling_msg ib \<noteq> HandleMsgTriggered then None
      else if ib_message_count ib = 0 then Some (0, ib\<lparr>ib_handling_msg := HandleMsgIdle\<rparr>)
      else if ib_eof ib then Some (-1, ib\<lparr>ib_handling_msg := HandleMsgIdle\<rparr>)
      else Some (1, ib\<lparr>ib_handling_msg := HandleMsgActive\<rparr>))"

definition ibuf_flush :: "InputBuf \<Rightarrow> InputBuf" where
  "ibuf_flush ib =
     ib\<lparr>ib_cur := ib_inp ib, ib_end := ib_inp ib, ib_message_count := 0,
        ib_out_d := (ib_out_d ib)\<lparr>d_size := 0, d_mode := 0\<rparr>,
        ib_inp_d := (ib_inp_d ib)\<lparr>d_size := 0, d_mode := 0\<rparr>\<rparr>"

section \<open>Receiving\<close>

text \<open>\<open>ibuf_free_size\<close> also moves an exhausted window to the start of the buffer.\<close>

definition wrap_cur :: "InputBuf \<Rightarrow> InputBuf" where
  "wrap_cur ib =
     (if \<not> ib_eof ib \<and> ib_cur ib = buf_size ib then ib\<lparr>ib_cur := 0, ib_end := 0\<rparr> else ib)"

definition free_size :: "InputBuf \<Rightarrow> nat" where
  "free_size ib =
     (if ib_eof ib then 0
      else if ib_cur ib \<le> ib_inp ib
      then (if ib_cur ib = 0 then buf_size ib - ib_inp ib - 1 else buf_size ib - ib_inp ib)
      else ib_cur ib - ib_inp ib - 1)"

definition ibuf_free_size :: "InputBuf \<Rightarrow> nat \<times> InputBuf" where
  "ibuf_free_size ib = (let ib1 = wrap_cur ib in (free_size ib1, ib1))"

definition tcp_post_read :: "nat \<Rightarrow> nat \<Rightarrow> InputBuf \<Rightarrow> InputBuf" where
  "tcp_post_read off sz ib = (if ib_read ib \<noteq> None then ib else ib\<lparr>ib_read := Some (off, sz)\<rparr>)"

definition ibuf_trigger_read :: "InputBuf \<Rightarrow> InputBuf" where
  "ibuf_trigger_read ib =
     (let (sz, ib1) = ibuf_free_size ib in if sz > 0 then tcp_post_read (ib_inp ib1) sz ib1 else ib1)"

text \<open>The loop of \<open>ibuf_read_done\<close> over the new bytes, which counts messages.\<close>

function count_loop :: "byte list \<Rightarrow> InputBuf \<Rightarrow> InputBuf" where
  "count_loop bs ib =
     (case bs of
        [] \<Rightarrow> ib
      | ch # bs1 \<Rightarrow>
          (let d = ib_inp_d ib in
           if d_mode d > 0
           then count_loop bs1 (ib\<lparr>ib_inp_d := d\<lparr>d_size := d_size d OR size_bits (d_mode d) ch,
                  d_mode := (if ch AND 0x80 = 0 then 0 else d_mode d + 1)\<rparr>\<rparr>)
           else if d_size d > 0
           then (if d_size d < length bs
                 then count_loop (drop (d_size d) bs) (ib\<lparr>ib_inp_d := d\<lparr>d_size := 0\<rparr>\<rparr>)
                 else ib\<lparr>ib_inp_d := d\<lparr>d_size := d_size d - length bs\<rparr>\<rparr>)
           else if d_esc d
           then
             (let ib1 = ib\<lparr>ib_inp_d := d\<lparr>d_esc := False\<rparr>\<rparr> in
              if ch = 0 then count_loop bs1 ib1
              else if ch = 1
              then count_loop bs1 (if ib_long_msg ib1 then ib1\<lparr>ib_long_msg := False\<rparr> else ibuf_new_message ib1)
              else if ch = 2 then count_loop bs1 (ibuf_eof ib1)
              else if ch = 3
              then count_loop bs1 (ib1\<lparr>ib_inp_d := d\<lparr>d_esc := False, d_mode := 1, d_size := 0\<rparr>\<rparr>)
              else count_loop bs1 (ibuf_eof ib1))
           else if ch = 3 then count_loop bs1 (ib\<lparr>ib_inp_d := d\<lparr>d_esc := True\<rparr>\<rparr>)
           else count_loop bs1 ib))"
  by pat_completeness auto
termination
  by (relation "measure (\<lambda>(bs, ib). length bs)") (auto split: if_splits)

declare count_loop.simps [simp del]

definition MAX_BUF_SIZE :: nat where "MAX_BUF_SIZE = 0x1000000"

text \<open>
  Doubling the buffer when it is full. (When the window pointers are stale, see
  \<open>ibuf_get_more\<close>, the difference \<open>end - cur\<close> may be negative in C; here it is 0.)
\<close>

definition grow :: "InputBuf \<Rightarrow> InputBuf" where
  "grow ib =
     (let cur = ib_cur ib; sz = buf_size ib;
          tmp = drop cur (ib_buf ib) @ take cur (ib_buf ib) @ replicate sz 0
      in ib\<lparr>ib_buf := tmp, ib_inp := sz - 1, ib_cur := 0, ib_end := ib_end ib - cur\<rparr>)"

text \<open>
  The end of \<open>ibuf_read_done\<close>: the buffer grows when it is full, and the next read is requested. When
  it is full and cannot grow, an incomplete message has to be handled.
\<close>

definition grow_if_full :: "InputBuf \<Rightarrow> InputBuf" where
  "grow_if_full ib =
     (if \<not> ib_eof ib
      then (let (sz, ib1) = ibuf_free_size ib in if sz = 0 \<and> buf_size ib1 < MAX_BUF_SIZE then grow ib1 else ib1)
      else ib)"

definition read_next :: "InputBuf \<Rightarrow> InputBuf" where
  "read_next ib =
     (let (sz, ib1) = ibuf_free_size ib
      in if sz > 0 then ibuf_trigger_read ib1
         else if ib_message_count ib1 = 0 then ibuf_new_message (ib1\<lparr>ib_long_msg := True\<rparr>)
         else ib1)"

text \<open>\<open>len\<close> bytes have been stored at \<open>inp\<close>.\<close>

definition ibuf_read_done :: "nat \<Rightarrow> InputBuf \<Rightarrow> InputBuf" where
  "ibuf_read_done len ib =
     (if len = 0 then ibuf_eof ib
      else
        (let ib1 = count_loop (take len (drop (ib_inp ib) (ib_buf ib))) ib;
             inp = ib_inp ib + len
         in read_next (grow_if_full
              (ib1\<lparr>ib_inp := (if inp \<ge> buf_size ib then inp - buf_size ib else inp)\<rparr>))))"

text \<open>
  Completion of the outstanding read request: the system stores the next bytes of \<open>net\<close>, no more
  than were asked for, and \<open>tcp_channel_read_done\<close> calls \<open>ibuf_read_done\<close>.
\<close>

definition tcp_read_done :: "InputBuf \<Rightarrow> byte list list \<Rightarrow> InputBuf \<times> byte list list" where
  "tcp_read_done ib net =
     (case ib_read ib of
        None \<Rightarrow> (ib, net)
      | Some (off, sz) \<Rightarrow>
          (case net of
             [] \<Rightarrow> (ibuf_read_done 0 (ib\<lparr>ib_read := None\<rparr>), [])
           | bs # net1 \<Rightarrow>
               (let data = take sz bs
                in (ibuf_read_done (length data)
                      (ib\<lparr>ib_read := None, ib_buf := blit (ib_buf ib) off data\<rparr>),
                    if length bs \<le> sz then net1 else drop sz bs # net1))))"

section \<open>Reading\<close>

text \<open>The end of the stretch of bytes behind \<open>out\<close> that is contiguous in memory.\<close>

definition max_out :: "nat \<Rightarrow> InputBuf \<Rightarrow> nat" where
  "max_out out ib = (if out \<le> ib_inp ib then ib_inp ib else buf_size ib)"

definition read_data :: "bool \<Rightarrow> nat \<Rightarrow> InputBuf \<Rightarrow> sym \<times> InputBuf" where
  "read_data peeking out ib =
     (let max = max_out (out + 1) ib;
          n = d_size (ib_out_d ib);
          (out1, n1) = (if max - out < n then (max, n - (max - out)) else (out + n, 0));
          ib1 = ib\<lparr>ib_out_d := (ib_out_d ib)\<lparr>d_size := n1\<rparr>, ib_end := out1,
                   ib_cur := (if peeking then out else out + 1)\<rparr>
      in (byte_sym (ib_buf ib ! out), ibuf_trigger_read ib1))"

definition read_plain :: "bool \<Rightarrow> nat \<Rightarrow> InputBuf \<Rightarrow> sym \<times> InputBuf" where
  "read_plain peeking out ib =
     (let max = max_out (out + 1) ib;
          run = takeWhile (\<lambda>ch. byte_sym ch \<noteq> ESC) (take (max - (out + 1)) (drop (out + 1) (ib_buf ib)));
          ib1 = ib\<lparr>ib_end := out + 1 + length run, ib_cur := (if peeking then out else out + 1)\<rparr>
      in (byte_sym (ib_buf ib ! out), ibuf_trigger_read ib1))"

text \<open>Reading the end of a message gives up the message.\<close>

definition end_message :: "InputBuf \<Rightarrow> InputBuf" where
  "end_message ib =
     (let ib1 = ib\<lparr>ib_message_count := ib_message_count ib - 1, ib_handling_msg := HandleMsgIdle\<rparr>
      in if ib_message_count ib1 > 0 then tcp_trigger_message ib1 else ib1)"

definition read_escaped :: "bool \<Rightarrow> sym \<Rightarrow> nat \<Rightarrow> InputBuf \<Rightarrow> sym \<times> InputBuf" where
  "read_escaped peeking ch out ib =
     (let ib1 = (if ch = MARKER_EOM \<and> \<not> peeking then end_message ib else ib);
          (ib2, out1) = (if peeking then (ib1, out)
                         else (ib1\<lparr>ib_out_d := (ib_out_d ib)\<lparr>d_esc := False\<rparr>\<rparr>, out + 1))
      in (ch, ibuf_trigger_read (ib2\<lparr>ib_cur := out1, ib_end := out1\<rparr>)))"

text \<open>
  The loop of \<open>ibuf_get_more\<close>. \<open>None\<close>: an assertion fails, or the loop does not end. Without data
  it waits for the read request (\<open>tcp_wait_read\<close>).
\<close>

partial_function (option) get_more_loop ::
  "bool \<Rightarrow> nat \<Rightarrow> InputBuf \<Rightarrow> byte list list \<Rightarrow> ((sym \<times> InputBuf) \<times> byte list list) option" where
  "get_more_loop peeking out0 ib net =
     (let out = (if out0 = buf_size ib then 0 else out0) in
      if out = ib_inp ib
      then
        (if \<not> ib_long_msg ib \<and> \<not> ib_eof ib then None
         else if ib_eof ib then Some ((MARKER_EOS, ib\<lparr>ib_cur := out\<rparr>), net)
         else if ib_message_count ib \<noteq> 1 then None
         else
           (case tcp_read_done (ibuf_trigger_read (ib\<lparr>ib_cur := out\<rparr>)) net of
              (ib1, net1) \<Rightarrow> get_more_loop peeking (ib_cur ib1) ib1 net1))
      else
        (let ch = ib_buf ib ! out; d = ib_out_d ib in
         if (d_mode d > 0 \<or> d_size d > 0) \<and> d_esc d then None
         else if d_mode d > 0
         then get_more_loop peeking (out + 1) (ib\<lparr>ib_out_d := d\<lparr>d_size := d_size d OR size_bits (d_mode d) ch,
                d_mode := (if ch AND 0x80 = 0 then 0 else d_mode d + 1)\<rparr>\<rparr>) net
         else if d_size d > 0 then Some (read_data peeking out ib, net)
         else if d_esc d
         then
           (if ch = 0 then Some (read_escaped peeking ESC out ib, net)
            else if ch = 1 then Some (read_escaped peeking MARKER_EOM out ib, net)
            else if ch = 2 then Some (read_escaped peeking MARKER_EOS out ib, net)
            else if ch = 3
            then get_more_loop peeking (out + 1) (ib\<lparr>ib_out_d := d\<lparr>d_esc := False, d_mode := 1, d_size := 0\<rparr>\<rparr>) net
            else None)
         else if ch \<noteq> 3 then Some (read_plain peeking out ib, net)
         else get_more_loop peeking (out + 1) (ib\<lparr>ib_out_d := d\<lparr>d_esc := True\<rparr>\<rparr>) net))"

declare get_more_loop.simps [code]

definition ibuf_get_more ::
  "bool \<Rightarrow> InputBuf \<Rightarrow> byte list list \<Rightarrow> ((sym \<times> InputBuf) \<times> byte list list) option" where
  "ibuf_get_more peeking ib net =
     (if ib_message_count ib > 0 \<and> ib_handling_msg ib = HandleMsgActive \<and> ib_cur ib \<le> buf_size ib
         \<and> ib_cur ib = ib_end ib
      then get_more_loop peeking (ib_cur ib) ib net else None)"

definition tcp_read_stream :: "InputBuf \<Rightarrow> byte list list \<Rightarrow> ((sym \<times> InputBuf) \<times> byte list list) option" where
  "tcp_read_stream ib net =
     (if ib_cur ib < ib_end ib
      then Some ((byte_sym (ib_buf ib ! ib_cur ib), ib\<lparr>ib_cur := ib_cur ib + 1\<rparr>), net)
      else ibuf_get_more False ib net)"

definition tcp_peek_stream :: "InputBuf \<Rightarrow> byte list list \<Rightarrow> ((sym \<times> InputBuf) \<times> byte list list) option" where
  "tcp_peek_stream ib net =
     (if ib_cur ib < ib_end ib then Some ((byte_sym (ib_buf ib ! ib_cur ib), ib), net)
      else ibuf_get_more True ib net)"

section \<open>The ring\<close>

definition slice :: "nat \<Rightarrow> nat \<Rightarrow> 'a list \<Rightarrow> 'a list" where
  "slice a b xs = take (b - a) (drop a xs)"

text \<open>The bytes from position \<open>a\<close> up to \<open>inp\<close>, and those of the window in front of \<open>a\<close>.\<close>

definition ring :: "nat \<Rightarrow> InputBuf \<Rightarrow> byte list" where
  "ring a ib = (if a \<le> ib_inp ib then slice a (ib_inp ib) (ib_buf ib)
     else drop a (ib_buf ib) @ take (ib_inp ib) (ib_buf ib))"

definition window :: "nat \<Rightarrow> InputBuf \<Rightarrow> byte list" where
  "window a ib = slice (ib_cur ib) a (ib_buf ib)"

text \<open>\<open>a\<close> is where decoding goes on; the window is in front of it and does not wrap around.\<close>

definition place :: "nat \<Rightarrow> InputBuf \<Rightarrow> bool" where
  "place a ib \<longleftrightarrow> 2 \<le> buf_size ib \<and> ib_inp ib < buf_size ib \<and> ib_cur ib \<le> a \<and>
     (if ib_cur ib \<le> ib_inp ib then a \<le> ib_inp ib else a \<le> buf_size ib)"

text \<open>The room behind \<open>inp\<close>; a read request never asks for more.\<close>

definition room :: "InputBuf \<Rightarrow> nat" where
  "room ib =
     (if ib_cur ib \<le> ib_inp ib
      then (if ib_cur ib = 0 then buf_size ib - ib_inp ib - 1 else buf_size ib - ib_inp ib)
      else ib_cur ib - ib_inp ib - 1)"

definition read_ok :: "InputBuf \<Rightarrow> bool" where
  "read_ok ib = (case ib_read ib of None \<Rightarrow> True | Some (off, sz) \<Rightarrow> off = ib_inp ib \<and> 0 < sz \<and> sz \<le> room ib)"

text \<open>Operations that only manage the buffer.\<close>

definition keeps :: "nat \<Rightarrow> InputBuf \<Rightarrow> nat \<Rightarrow> InputBuf \<Rightarrow> bool" where
  "keeps a ib a' ib' \<longleftrightarrow> place a' ib' \<and> read_ok ib' \<and> ring a' ib' = ring a ib \<and> window a' ib' = window a ib \<and>
     ib_inp_d ib' = ib_inp_d ib \<and> ib_out_d ib' = ib_out_d ib \<and> ib_eof ib' = ib_eof ib \<and>
     ib_long_msg ib' = ib_long_msg ib \<and> ib_message_count ib' = ib_message_count ib \<and>
     ib_handling_msg ib' = ib_handling_msg ib \<and>
     (a = ib_end ib \<longrightarrow> a' = ib_end ib') \<and> (a = ib_cur ib \<longrightarrow> a' = ib_cur ib')"

lemma keeps_trans: "keeps a ib b jb \<Longrightarrow> keeps b jb c kb \<Longrightarrow> keeps a ib c kb"
  by (auto simp: keeps_def)

lemma keeps_refl: "place a ib \<Longrightarrow> read_ok ib \<Longrightarrow> keeps a ib a ib"
  by (simp add: keeps_def)

lemma free_size_room: "\<not> ib_eof ib \<Longrightarrow> free_size ib = room ib"
  by (simp add: free_size_def room_def)

lemma wrap_cur_keeps:
  assumes "place a ib" "read_ok ib"
  shows "\<exists>a'. keeps a ib a' (wrap_cur ib) \<and> ib_read (wrap_cur ib) = ib_read ib \<and>
    (\<not> ib_eof ib \<longrightarrow> ib_cur (wrap_cur ib) < buf_size (wrap_cur ib)) \<and> buf_size (wrap_cur ib) = buf_size ib"
proof (cases "\<not> ib_eof ib \<and> ib_cur ib = buf_size ib")
  case True
  then have "a = buf_size ib" using assms(1) by (auto simp: place_def split: if_splits)
  with True assms show ?thesis
    by (intro exI [of _ 0])
      (auto simp: wrap_cur_def keeps_def place_def read_ok_def room_def ring_def window_def slice_def split: option.splits)
next
  case False
  then have "wrap_cur ib = ib" "\<not> ib_eof ib \<longrightarrow> ib_cur ib < buf_size ib"
    using assms(1) by (auto simp: wrap_cur_def place_def split: if_splits)
  with keeps_refl [OF assms] show ?thesis by auto
qed

lemma trigger_read_keeps:
  assumes "place a ib" "read_ok ib"
  shows "\<exists>a'. keeps a ib a' (ibuf_trigger_read ib) \<and>
    (\<not> ib_eof ib \<longrightarrow> 0 < room (ibuf_trigger_read ib) \<longrightarrow> ib_read (ibuf_trigger_read ib) \<noteq> None)"
proof -
  obtain a' where k: "keeps a ib a' (wrap_cur ib)" "ib_read (wrap_cur ib) = ib_read ib"
    using wrap_cur_keeps [OF assms] by blast
  define jb where "jb = wrap_cur ib"
  have e: "ib_eof jb = ib_eof ib" using k(1) by (simp add: keeps_def jb_def)
  have t: "ibuf_trigger_read ib = (if free_size jb > 0 then tcp_post_read (ib_inp jb) (free_size jb) jb else jb)"
    by (simp add: ibuf_trigger_read_def ibuf_free_size_def jb_def Let_def)
  show ?thesis
  proof (cases "free_size jb > 0 \<and> ib_read jb = None")
    case True
    then have "\<not> ib_eof jb" by (auto simp: free_size_def split: if_splits)
    then have "keeps a' jb a' (ibuf_trigger_read ib)" "ib_read (ibuf_trigger_read ib) \<noteq> None"
      using True k(1) free_size_room [of jb]
      by (auto simp: t tcp_post_read_def keeps_def place_def read_ok_def room_def ring_def window_def jb_def)
    then show ?thesis using keeps_trans [OF k(1)] jb_def by blast
  next
    case False
    then have "ibuf_trigger_read ib = jb" by (auto simp: t tcp_post_read_def)
    moreover have "\<not> ib_eof ib \<longrightarrow> 0 < room jb \<longrightarrow> ib_read jb \<noteq> None"
      using False e free_size_room [of jb] by auto
    ultimately show ?thesis using k(1) jb_def by auto
  qed
qed

lemma trigger_read_posts:
  assumes "\<not> ib_eof ib" "0 < room (wrap_cur ib)"
  shows "ib_read (ibuf_trigger_read ib) \<noteq> None"
proof -
  have "\<not> ib_eof (wrap_cur ib)" using assms(1) by (simp add: wrap_cur_def)
  then show ?thesis
    using assms(2) free_size_room [of "wrap_cur ib"]
    by (simp add: ibuf_trigger_read_def ibuf_free_size_def tcp_post_read_def Let_def)
qed

lemma grow_keeps:
  assumes p: "place a ib" and r: "ib_read ib = None" and c: "ib_cur ib < buf_size ib" and full: "room ib = 0"
  shows "keeps a ib (a - ib_cur ib) (grow ib)" "0 < room (grow ib)"
proof -
  define sz where "sz = buf_size ib"
  define tmp where "tmp = drop (ib_cur ib) (ib_buf ib) @ take (ib_cur ib) (ib_buf ib) @ replicate sz 0"
  have g: "ib_buf (grow ib) = tmp" "ib_inp (grow ib) = sz - 1" "ib_cur (grow ib) = 0"
      "ib_end (grow ib) = ib_end ib - ib_cur ib" "ib_read (grow ib) = None"
    using r by (simp_all add: grow_def Let_def tmp_def sz_def)
  have len: "length tmp = 2 * sz" using c by (simp add: tmp_def sz_def)
  have a: "ib_cur ib \<le> a" "a \<le> sz" "2 \<le> sz" "ib_inp ib < sz" using p by (auto simp: place_def sz_def split: if_splits)
  have pos: "ib_cur ib = 0 \<and> ib_inp ib = sz - 1 \<or> ib_cur ib = Suc (ib_inp ib)"
    using full a c p by (auto simp: room_def place_def sz_def split: if_splits)
  have le: "a - ib_cur ib \<le> sz - 1" using pos a p by (auto simp: place_def sz_def split: if_splits)
  have "drop (a - ib_cur ib) tmp = drop a (ib_buf ib) @ take (ib_cur ib) (ib_buf ib) @ replicate sz 0"
    using a c by (simp add: tmp_def sz_def)
  then have ring: "ring (a - ib_cur ib) (grow ib) = ring a ib"
    using le pos a c p by (auto simp: ring_def slice_def g place_def sz_def min_def split: if_splits)
  have "window (a - ib_cur ib) (grow ib) = window a ib"
    using a c by (simp add: window_def slice_def g tmp_def sz_def)
  with ring le len a g p show "keeps a ib (a - ib_cur ib) (grow ib)"
    by (auto simp: keeps_def place_def read_ok_def) (simp_all add: grow_def Let_def)
  show "0 < room (grow ib)" using g len a by (simp add: room_def)
qed

lemma take_blit_at: "pos \<le> length dst \<Longrightarrow> take pos (blit dst pos src) = take pos dst"
  by (simp add: blit_def)

lemma drop_blit_le:
  "a \<le> pos \<Longrightarrow> pos \<le> length dst \<Longrightarrow>
     drop a (blit dst pos src) = drop a (take pos dst) @ src @ drop (pos + length src) dst"
  by (simp add: blit_def)

lemma drop_blit_ge:
  "pos + length src \<le> a \<Longrightarrow> pos + length src \<le> length dst \<Longrightarrow> drop a (blit dst pos src) = drop a dst"
  by (simp add: blit_def)

text \<open>New bytes at \<open>inp\<close> extend the ring and leave the window alone.\<close>

definition stored :: "byte list \<Rightarrow> InputBuf \<Rightarrow> InputBuf" where
  "stored data ib =
     ib\<lparr>ib_read := None, ib_buf := blit (ib_buf ib) (ib_inp ib) data,
        ib_inp := (if ib_inp ib + length data \<ge> buf_size ib then ib_inp ib + length data - buf_size ib
                   else ib_inp ib + length data)\<rparr>"

lemma stored_ok:
  assumes p: "place a ib" and len: "0 < length data" "length data \<le> room ib"
  shows "place a (stored data ib)" "ring a (stored data ib) = ring a ib @ data"
    "window a (stored data ib) = window a ib" "buf_size (stored data ib) = buf_size ib"
proof -
  let ?i = "ib_inp ib" and ?n = "length data" and ?b = "ib_buf ib"
  have fit: "?i + ?n \<le> buf_size ib" using p len by (auto simp: room_def place_def split: if_splits)
  show bs: "buf_size (stored data ib) = buf_size ib" using fit by (simp add: stored_def)
  have i: "?i < buf_size ib" using p by (simp add: place_def)
  show "place a (stored data ib)"
  proof -
    have "ib_cur ib = 0 \<Longrightarrow> ?i + ?n < buf_size ib" using p len by (auto simp: room_def place_def)
    then show ?thesis using p len fit bs by (auto simp: place_def room_def stored_def split: if_splits)
  qed
  show "window a (stored data ib) = window a ib"
  proof (cases "ib_cur ib \<le> ?i")
    case True
    then have "a \<le> ?i" using p by (simp add: place_def)
    with True i show ?thesis by (simp add: window_def slice_def stored_def drop_blit_le drop_take)
  next
    case False
    then have "?i + ?n \<le> ib_cur ib" using len by (simp add: room_def)
    with fit show ?thesis by (simp add: window_def slice_def stored_def drop_blit_ge)
  qed
  show "ring a (stored data ib) = ring a ib @ data"
  proof (cases "ib_cur ib \<le> ?i")
    case True
    then have a: "a \<le> ?i" using p by (simp add: place_def)
    have d: "drop a (blit ?b ?i data) = slice a ?i ?b @ data @ drop (?i + ?n) ?b"
      using a i by (simp add: drop_blit_le slice_def drop_take)
    have l: "length (slice a ?i ?b) = ?i - a" using a i by (simp add: slice_def)
    show ?thesis
    proof (cases "?i + ?n = buf_size ib")
      case wrap: True
      then have "0 < ib_cur ib" using len True i by (cases "ib_cur ib = 0") (simp_all add: room_def)
      then have "0 < a" using p by (auto simp: place_def)
      with wrap a d show ?thesis by (simp add: ring_def stored_def)
    next
      case False
      with fit a d l show ?thesis by (simp add: ring_def slice_def stored_def)
    qed
  next
    case False
    then have c: "?i + ?n < ib_cur ib" "ib_cur ib \<le> a" "a \<le> buf_size ib"
      using len p by (auto simp: room_def place_def)
    then have "drop a (blit ?b ?i data) = drop a ?b" "take (?i + ?n) (blit ?b ?i data) = take ?i ?b @ data"
      using fit i by (simp_all add: drop_blit_ge take_blit)
    with c show ?thesis by (auto simp: ring_def stored_def)
  qed
qed

section \<open>Counting messages\<close>

definition eoms :: "sym list \<Rightarrow> nat" where
  "eoms xs = length (filter (\<lambda>x. x = MARKER_EOM) xs)"

lemma eoms_simps [simp]: "eoms [] = 0" "eoms (x # xs) = (if x = -1 then Suc (eoms xs) else eoms xs)"
  "eoms (xs @ ys) = eoms xs + eoms ys"
  by (simp_all add: eoms_def)

lemma byte_sym_not_marker [simp]: "byte_sym b \<noteq> -1" "byte_sym b \<noteq> -2" "-1 \<noteq> byte_sym b" "-2 \<noteq> byte_sym b"
  using byte_sym_range(1) [of b] by linarith+

lemma eoms_bytes [simp]: "eoms (map byte_sym bs) = 0" "-2 \<notin> byte_sym ` set bs"
  by (auto simp: eoms_def)

lemma decode_block:
  "d_mode d = 0 \<Longrightarrow> length data \<le> d_size d \<Longrightarrow>
     decode d data = (map byte_sym data, d\<lparr>d_size := d_size d - length data\<rparr>) \<and> good d data"
proof (induction data arbitrary: d)
  case (Cons b data)
  then have "dstep d b = ([byte_sym b], d\<lparr>d_size := d_size d - 1\<rparr>)" by (simp add: dstep_def)
  with Cons show ?case by (auto simp: bad_step_def)
qed simp

text \<open>The effect of \<open>n\<close> ends of messages.\<close>

definition got_eoms :: "nat \<Rightarrow> InputBuf \<Rightarrow> InputBuf" where
  "got_eoms n ib =
     (let k = (if ib_long_msg ib then n - 1 else n)
      in ib\<lparr>ib_long_msg := (ib_long_msg ib \<and> n = 0), ib_message_count := ib_message_count ib + k,
            ib_handling_msg := (if 0 < k \<and> ib_handling_msg ib = HandleMsgIdle then HandleMsgTriggered
                                else ib_handling_msg ib)\<rparr>)"

lemma got_eoms_0 [simp]: "got_eoms 0 ib = ib"
  by (simp add: got_eoms_def)

lemma got_eoms_Suc:
  "got_eoms n (if ib_long_msg ib then ib\<lparr>ib_long_msg := False\<rparr> else ibuf_new_message ib) = got_eoms (Suc n) ib"
  by (auto simp: got_eoms_def ibuf_new_message_def tcp_trigger_message_def Let_def)

lemma got_eoms_inp_d: "got_eoms n (ib\<lparr>ib_inp_d := d\<rparr>) = (got_eoms n ib)\<lparr>ib_inp_d := d\<rparr>"
  by (simp add: got_eoms_def Let_def)

lemma got_eoms_add: "got_eoms n ((got_eoms m ib)\<lparr>ib_inp_d := d\<rparr>) = (got_eoms (m + n) ib)\<lparr>ib_inp_d := d\<rparr>"
  by (auto simp: got_eoms_def Let_def)

lemma got_eoms_1: "(if ib_long_msg ib then ib\<lparr>ib_long_msg := False\<rparr> else ibuf_new_message ib) = got_eoms 1 ib"
  using got_eoms_Suc [of 0 ib] by simp

lemma byte_cases4: "\<not> 3 < unat (ch :: byte) \<Longrightarrow> ch = 0 \<or> ch = 1 \<or> ch = 2 \<or> ch = 3"
proof -
  assume "\<not> 3 < unat ch"
  then have "unat ch = 0 \<or> unat ch = 1 \<or> unat ch = 2 \<or> unat ch = 3" by linarith
  moreover have "ch = of_nat (unat ch)" by simp
  ultimately have "ch = of_nat 0 \<or> ch = of_nat 1 \<or> ch = of_nat 2 \<or> ch = of_nat 3" by metis
  then show ?thesis by simp
qed

lemma count_step:
  assumes "d = ib_inp_d ib" "d_mode d > 0 \<or> d_size d = 0" "\<not> bad_step d ch"
    and "dstep d ch = (ys, d1)" "-2 \<notin> set ys"
  shows "count_loop (ch # bs) ib = count_loop bs ((got_eoms (eoms ys) ib)\<lparr>ib_inp_d := d1\<rparr>)"
proof (cases "d_mode d > 0")
  case True
  with assms show ?thesis by (subst count_loop.simps) (auto simp: Let_def dstep_def)
next
  case False
  then have z: "d_mode d = 0" "d_size d = 0" using assms(2) by auto
  show ?thesis
  proof (cases "d_esc d")
    case True
    then have "ch = 0 \<or> ch = 1 \<or> ch = 2 \<or> ch = 3" using assms(3) z byte_cases4 by (auto simp: bad_step_def)
    moreover have "ch \<noteq> 2" using assms(4,5) z True by (auto simp: dstep_def)
    ultimately consider "ch = 0" | "ch = 1" | "ch = 3" by blast
    then show ?thesis
    proof cases
      case 2
      let ?ib1 = "ib\<lparr>ib_inp_d := d\<lparr>d_esc := False\<rparr>\<rparr>"
      have "count_loop (ch # bs) ib =
          count_loop bs (if ib_long_msg ?ib1 then ?ib1\<lparr>ib_long_msg := False\<rparr> else ibuf_new_message ?ib1)"
        using z True assms(1) 2 by (subst count_loop.simps) (simp add: Let_def)
      then have "count_loop (ch # bs) ib = count_loop bs (got_eoms 1 ?ib1)" by (simp only: got_eoms_1)
      moreover have "ys = [-1]" "d1 = d\<lparr>d_esc := False\<rparr>" using assms(4) z True 2 by (simp_all add: dstep_def)
      ultimately show ?thesis by (simp add: got_eoms_inp_d)
    qed (use z True assms in \<open>subst count_loop.simps, auto simp: dstep_def\<close>)+
  next
    case False
    with z assms show ?thesis by (subst count_loop.simps) (auto simp: dstep_def split: if_splits)
  qed
qed

lemma count_loop_ok:
  assumes "d = ib_inp_d ib" "good d bs" "-2 \<notin> set (fst (decode d bs))"
  shows "count_loop bs ib = (got_eoms (eoms (fst (decode d bs))) ib)\<lparr>ib_inp_d := snd (decode d bs)\<rparr>"
  using assms
proof (induction "length bs" arbitrary: bs ib d rule: less_induct)
  case less
  show ?case
  proof (cases bs)
    case Nil
    with less.prems(1) show ?thesis by (simp add: count_loop.simps [of "[]"])
  next
    case (Cons ch bs1)
    show ?thesis
    proof (cases "d_mode d > 0 \<or> d_size d = 0")
      case True
      obtain ys d1 where st: "dstep d ch = (ys, d1)" by fastforce
      let ?jb = "(got_eoms (eoms ys) ib)\<lparr>ib_inp_d := d1\<rparr>"
      have "count_loop bs ib = count_loop bs1 ?jb"
        unfolding Cons by (rule count_step [OF less.prems(1) True _ st]) (use less.prems Cons st in \<open>auto simp: Let_def split_beta\<close>)
      moreover have "count_loop bs1 ?jb = (got_eoms (eoms (fst (decode d1 bs1))) ?jb)\<lparr>ib_inp_d := snd (decode d1 bs1)\<rparr>"
        by (rule less.hyps) (use less.prems Cons st in \<open>auto simp: Let_def split_beta\<close>)
      ultimately show ?thesis using Cons st by (simp add: got_eoms_add Let_def split_beta)
    next
      case False
      then have data: "d_mode d = 0" "0 < d_size d" by auto
      show ?thesis
      proof (cases "d_size d < length bs")
        case True
        let ?d1 = "d\<lparr>d_size := 0\<rparr>" and ?l = "take (d_size d) bs" and ?r = "drop (d_size d) bs"
        have b: "decode d ?l = (map byte_sym ?l, ?d1)" using decode_block [OF data(1), of ?l] True by simp
        have dec: "decode d bs = (map byte_sym ?l @ fst (decode ?d1 ?r), snd (decode ?d1 ?r))"
          using decode_append [of d ?l ?r] b by simp
        have gd: "good ?d1 ?r" using less.prems(2) good_append [of d ?l ?r] b by simp
        have "count_loop bs ib = count_loop ?r (ib\<lparr>ib_inp_d := ?d1\<rparr>)"
          using Cons data True less.prems(1) by (subst count_loop.simps) (simp add: Let_def)
        moreover have "count_loop ?r (ib\<lparr>ib_inp_d := ?d1\<rparr>) =
            (got_eoms (eoms (fst (decode ?d1 ?r))) (ib\<lparr>ib_inp_d := ?d1\<rparr>))\<lparr>ib_inp_d := snd (decode ?d1 ?r)\<rparr>"
          by (rule less.hyps) (use less.prems(3) dec gd data True in \<open>auto\<close>)
        ultimately show ?thesis using dec by (simp add: got_eoms_def Let_def)
      next
        case False
        then have "count_loop bs ib = ib\<lparr>ib_inp_d := d\<lparr>d_size := d_size d - length bs\<rparr>\<rparr>"
          using Cons data less.prems(1) by (subst count_loop.simps) (simp add: Let_def)
        with decode_block [OF data(1), of bs] False show ?thesis by simp
      qed
    qed
  qed
qed

text \<open>
  The message count is the number of complete messages behind \<open>a\<close>, plus one for a message that
  is handled before it is complete, plus one for the end of the stream. While there are
  messages, handling them has been triggered.
\<close>

definition msgs :: "nat \<Rightarrow> InputBuf \<Rightarrow> bool" where
  "msgs a ib \<longleftrightarrow> ib_inp_d ib = snd (decode (ib_out_d ib) (ring a ib)) \<and>
     ib_message_count ib = eoms (fst (decode (ib_out_d ib) (ring a ib)))
       + (if ib_long_msg ib then 1 else 0) + (if ib_eof ib then 1 else 0) \<and>
     (ib_long_msg ib \<longrightarrow> eoms (fst (decode (ib_out_d ib) (ring a ib))) = 0) \<and>
     (ib_handling_msg ib = HandleMsgIdle \<longleftrightarrow> ib_message_count ib = 0)"

text \<open>The effect of receiving \<open>data\<close>.\<close>

definition receives :: "nat \<Rightarrow> InputBuf \<Rightarrow> byte list \<Rightarrow> nat \<Rightarrow> InputBuf \<Rightarrow> bool" where
  "receives a ib data a' ib' \<longleftrightarrow> place a' ib' \<and> read_ok ib' \<and> ring a' ib' = ring a ib @ data \<and>
     window a' ib' = window a ib \<and> ib_out_d ib' = ib_out_d ib \<and> ib_eof ib' = ib_eof ib \<and> msgs a' ib' \<and>
     ib_message_count ib \<le> ib_message_count ib' \<and>
     (ib_handling_msg ib' = HandleMsgActive \<longleftrightarrow> ib_handling_msg ib = HandleMsgActive) \<and>
     (a = ib_end ib \<longrightarrow> a' = ib_end ib') \<and> (a = ib_cur ib \<longrightarrow> a' = ib_cur ib')"

lemma msgs_keeps: "keeps a ib a' ib' \<Longrightarrow> msgs a ib \<Longrightarrow> msgs a' ib'"
  by (auto simp: keeps_def msgs_def split: if_splits)

lemma counted_ok:
  assumes p: "place a ib" and m: "msgs a ib" and len: "data \<noteq> []" "length data \<le> room ib"
    and g: "good (ib_out_d ib) (ring a ib @ data)" "-2 \<notin> set (fst (decode (ib_out_d ib) (ring a ib @ data)))"
    and e: "\<not> ib_eof ib"
  defines "ib2 \<equiv> (count_loop data (ib\<lparr>ib_read := None, ib_buf := blit (ib_buf ib) (ib_inp ib) data\<rparr>))
      \<lparr>ib_inp := (if ib_inp ib + length data \<ge> buf_size ib then ib_inp ib + length data - buf_size ib
                  else ib_inp ib + length data)\<rparr>"
  shows "receives a ib data a ib2" "ib_read ib2 = None" "\<not> ib_eof ib2"
proof -
  let ?ib0 = "ib\<lparr>ib_read := None, ib_buf := blit (ib_buf ib) (ib_inp ib) data\<rparr>"
  let ?d = "ib_inp_d ib"
  define n where "n = eoms (fst (decode ?d data))"
  have d: "?d = snd (decode (ib_out_d ib) (ring a ib))" using m by (simp add: msgs_def)
  have dec: "decode (ib_out_d ib) (ring a ib @ data) =
      (fst (decode (ib_out_d ib) (ring a ib)) @ fst (decode ?d data), snd (decode ?d data))"
    by (simp add: decode_append d)
  have gd: "good ?d data" "-2 \<notin> set (fst (decode ?d data))"
    using g dec by (simp_all add: good_append d)
  have "count_loop data ?ib0 = (got_eoms n ?ib0)\<lparr>ib_inp_d := snd (decode ?d data)\<rparr>"
    using count_loop_ok [of ?d ?ib0 data] gd by (simp add: n_def)
  then have ib2: "ib2 = (got_eoms n (stored data ib))\<lparr>ib_inp_d := snd (decode ?d data)\<rparr>"
    by (simp add: ib2_def got_eoms_def stored_def Let_def)
  have st: "place a (stored data ib)" "ring a (stored data ib) = ring a ib @ data"
      "window a (stored data ib) = window a ib"
    using stored_ok [OF p _ len(2)] len(1) by simp_all
  have f: "ib_buf ib2 = ib_buf (stored data ib)" "ib_inp ib2 = ib_inp (stored data ib)" "ib_cur ib2 = ib_cur ib"
      "ib_end ib2 = ib_end ib" "ib_out_d ib2 = ib_out_d ib" "ib_eof ib2 = ib_eof ib" "ib_read ib2 = None"
      "ib_inp_d ib2 = snd (decode ?d data)" "ib_cur (stored data ib) = ib_cur ib"
    by (simp_all add: ib2 got_eoms_def stored_def Let_def)
  have "ring a ib2 = ring a (stored data ib)" using f by (simp add: ring_def)
  then have r: "ring a ib2 = ring a ib @ data" using st(2) by simp
  have "msgs a ib2"
  proof -
    have "ib_message_count ib2 = ib_message_count ib + (if ib_long_msg ib then n - 1 else n)"
        "ib_long_msg ib2 = (ib_long_msg ib \<and> n = 0)"
        "ib_handling_msg ib2 = (if 0 < (if ib_long_msg ib then n - 1 else n) \<and> ib_handling_msg ib = HandleMsgIdle
            then HandleMsgTriggered else ib_handling_msg ib)"
      by (simp_all add: ib2 got_eoms_def stored_def Let_def)
    then show ?thesis using m e f r dec by (auto simp: msgs_def n_def split: if_splits)
  qed
  moreover have "ib_message_count ib \<le> ib_message_count ib2"
      "ib_handling_msg ib2 = HandleMsgActive \<longleftrightarrow> ib_handling_msg ib = HandleMsgActive"
    by (simp_all add: ib2 got_eoms_def stored_def Let_def)
  ultimately show "receives a ib data a ib2"
    using st f r by (auto simp: receives_def place_def window_def read_ok_def)
  show "ib_read ib2 = None" "\<not> ib_eof ib2" using f e by simp_all
qed

lemma receives_keeps: "receives a ib data b jb \<Longrightarrow> keeps b jb c kb \<Longrightarrow> receives a ib data c kb"
  using msgs_keeps [of b jb c kb] by (auto simp: receives_def keeps_def)

lemma receives_new_message:
  assumes "receives a ib data b jb" "ib_message_count jb = 0" "\<not> ib_eof jb"
  shows "receives a ib data b (ibuf_new_message (jb\<lparr>ib_long_msg := True\<rparr>))"
proof -
  define k where "k = ibuf_new_message (jb\<lparr>ib_long_msg := True\<rparr>)"
  have f: "ib_buf k = ib_buf jb" "ib_inp k = ib_inp jb" "ib_cur k = ib_cur jb" "ib_end k = ib_end jb"
      "ib_out_d k = ib_out_d jb" "ib_inp_d k = ib_inp_d jb" "ib_eof k = ib_eof jb" "ib_read k = ib_read jb"
      "ib_long_msg k" "ib_message_count k = 1"
      "ib_handling_msg k = (if ib_handling_msg jb = HandleMsgIdle then HandleMsgTriggered else ib_handling_msg jb)"
    using assms(2) by (simp_all add: k_def ibuf_new_message_def tcp_trigger_message_def)
  have same: "ring b k = ring b jb" "window b k = window b jb" "place b k = place b jb" "read_ok k = read_ok jb"
    using f by (simp_all add: ring_def window_def place_def read_ok_def room_def split: option.splits)
  have m: "msgs b jb" "ib_message_count ib = 0" using assms(1,2) by (simp_all add: receives_def)
  have "msgs b k" using m(1) assms(2,3) f same(1) by (auto simp: msgs_def split: if_splits)
  moreover have "ib_handling_msg jb = HandleMsgActive \<longleftrightarrow> ib_handling_msg ib = HandleMsgActive"
    using assms(1) by (simp add: receives_def)
  then have "ib_handling_msg k = HandleMsgActive \<longleftrightarrow> ib_handling_msg ib = HandleMsgActive"
    using f(11) by (cases "ib_handling_msg jb") simp_all
  ultimately show ?thesis using assms(1) f(1-10) same m(2) by (simp add: receives_def flip: k_def)
qed

lemma grow_if_full_ok:
  assumes rc: "receives a ib data b jb" and r: "ib_read jb = None" and e: "\<not> ib_eof jb"
  shows "\<exists>c. receives a ib data c (grow_if_full jb) \<and> \<not> ib_eof (grow_if_full jb)"
proof -
  have pl: "place b jb" "read_ok jb" using rc by (simp_all add: receives_def)
  define w where "w = wrap_cur jb"
  from wrap_cur_keeps [OF pl] obtain c where w: "keeps b jb c w" "ib_read w = None" "ib_cur w < buf_size w"
    using r e by (auto simp: w_def)
  have we: "\<not> ib_eof w" "place c w" using w(1) e by (simp_all add: keeps_def)
  note rw = receives_keeps [OF rc w(1)]
  have eq: "grow_if_full jb = (if free_size w = 0 \<and> buf_size w < MAX_BUF_SIZE then grow w else w)"
    using e by (simp add: grow_if_full_def ibuf_free_size_def Let_def flip: w_def)
  show ?thesis
  proof (cases "free_size w = 0 \<and> buf_size w < MAX_BUF_SIZE")
    case True
    have k: "keeps c w (c - ib_cur w) (grow w)"
      by (rule grow_keeps) (use True we w free_size_room [OF we(1)] in simp_all)
    then have "\<not> ib_eof (grow w)" using we(1) by (simp add: keeps_def)
    moreover have "grow_if_full jb = grow w" using True eq by simp
    ultimately show ?thesis using receives_keeps [OF rw k] by auto
  next
    case False
    then have "grow_if_full jb = w" using eq by auto
    with rw we(1) show ?thesis by auto
  qed
qed

lemma read_next_ok:
  assumes rc: "receives a ib data b jb" and e: "\<not> ib_eof jb"
  shows "\<exists>c. receives a ib data c (read_next jb)"
    "ib_handling_msg (read_next jb) = HandleMsgIdle \<Longrightarrow> ib_read (read_next jb) \<noteq> None"
proof -
  have pl: "place b jb" "read_ok jb" using rc by (simp_all add: receives_def)
  define w where "w = wrap_cur jb"
  from wrap_cur_keeps [OF pl] obtain c where w: "keeps b jb c w" by (auto simp: w_def)
  then have we: "\<not> ib_eof w" "place c w" "read_ok w" using e by (simp_all add: keeps_def)
  note rw = receives_keeps [OF rc w]
  have eq: "read_next jb = (if free_size w > 0 then ibuf_trigger_read w
      else if ib_message_count w = 0 then ibuf_new_message (w\<lparr>ib_long_msg := True\<rparr>) else w)"
    by (simp add: read_next_def ibuf_free_size_def Let_def flip: w_def)
  consider "free_size w > 0" | "free_size w = 0" "ib_message_count w = 0" | "free_size w = 0" "ib_message_count w \<noteq> 0"
    by blast
  then show "\<exists>c. receives a ib data c (read_next jb)"
  proof cases
    case 1
    obtain c2 where "keeps c w c2 (ibuf_trigger_read w)" using trigger_read_keeps [OF we(2,3)] by blast
    with 1 eq receives_keeps [OF rw] show ?thesis by auto
  next
    case 2
    with eq receives_new_message [OF rw 2(2) we(1)] show ?thesis by auto
  next
    case 3
    with eq rw show ?thesis by auto
  qed
  show "ib_read (read_next jb) \<noteq> None" if idle: "ib_handling_msg (read_next jb) = HandleMsgIdle"
  proof (cases "free_size w > 0")
    case True
    have "wrap_cur w = w" by (auto simp: w_def wrap_cur_def)
    then have "ib_read (ibuf_trigger_read w) \<noteq> None"
      using True we(1) free_size_room [of w] trigger_read_posts [of w] by simp
    with True eq show ?thesis by simp
  next
    case False
    have "msgs c w" using rw by (simp add: receives_def)
    with False idle eq show ?thesis
      by (auto simp: msgs_def ibuf_new_message_def tcp_trigger_message_def split: if_splits)
  qed
qed

lemma read_done_ok:
  assumes p: "place a ib" and m: "msgs a ib" and len: "data \<noteq> []" "length data \<le> room ib"
    and g: "good (ib_out_d ib) (ring a ib @ data)" "-2 \<notin> set (fst (decode (ib_out_d ib) (ring a ib @ data)))"
    and e: "\<not> ib_eof ib"
  defines "ib' \<equiv> ibuf_read_done (length data) (ib\<lparr>ib_read := None, ib_buf := blit (ib_buf ib) (ib_inp ib) data\<rparr>)"
  shows "\<exists>a'. receives a ib data a' ib' \<and> (ib_handling_msg ib' = HandleMsgIdle \<longrightarrow> ib_read ib' \<noteq> None)"
proof -
  let ?ib0 = "ib\<lparr>ib_read := None, ib_buf := blit (ib_buf ib) (ib_inp ib) data\<rparr>"
  have fit: "ib_inp ib + length data \<le> buf_size ib" using p len by (auto simp: room_def place_def split: if_splits)
  have d: "take (length data) (drop (ib_inp ib) (ib_buf ?ib0)) = data"
    using p by (simp add: drop_blit_le place_def)
  define ib2 where "ib2 = (count_loop data ?ib0)\<lparr>ib_inp := (if ib_inp ib + length data \<ge> buf_size ib
      then ib_inp ib + length data - buf_size ib else ib_inp ib + length data)\<rparr>"
  note c = counted_ok [OF p m len g e, folded ib2_def]
  have "ib' = read_next (grow_if_full ib2)"
    using len(1) d fit by (simp add: ibuf_read_done_def ib2_def ib'_def)
  moreover obtain b where "receives a ib data b (grow_if_full ib2)" "\<not> ib_eof (grow_if_full ib2)"
    using grow_if_full_ok [OF c] by blast
  ultimately show ?thesis using read_next_ok by blast
qed

section \<open>Reading\<close>

text \<open>
  The invariant, with the data still to come: no invalid escape sequence and no end of stream
  marker in it, and no empty piece (which would be the end of the connection).
\<close>

definition ok :: "nat \<Rightarrow> InputBuf \<Rightarrow> byte list list \<Rightarrow> bool" where
  "ok a ib net \<longleftrightarrow> place a ib \<and> read_ok ib \<and> msgs a ib \<and>
     good (ib_out_d ib) (ring a ib @ concat net) \<and>
     -2 \<notin> set (fst (decode (ib_out_d ib) (ring a ib @ concat net))) \<and> d_wf (ib_out_d ib) \<and>
     [] \<notin> set net \<and> (ib_eof ib \<longrightarrow> net = [])"

text \<open>The symbols behind \<open>a\<close>.\<close>

definition ahead :: "nat \<Rightarrow> InputBuf \<Rightarrow> byte list list \<Rightarrow> sym list" where
  "ahead a ib net = fst (decode (ib_out_d ib) (ring a ib @ concat net))"

lemma ok_keeps:
  assumes "ok a ib net" "keeps a ib a' ib'"
  shows "ok a' ib' net" "ahead a' ib' net = ahead a ib net" "window a' ib' = window a ib"
  using assms msgs_keeps [OF assms(2)] by (auto simp: ok_def keeps_def ahead_def)

lemma tcp_read_done_ok:
  assumes o: "ok a ib net" and e: "\<not> ib_eof ib" and n: "net \<noteq> []" and r: "ib_read ib \<noteq> None"
  shows "\<exists>a' data ib' net'. tcp_read_done ib net = (ib', net') \<and> data \<noteq> [] \<and> receives a ib data a' ib' \<and>
    concat net = data @ concat net' \<and> ok a' ib' net' \<and> (ib_handling_msg ib' = HandleMsgIdle \<longrightarrow> ib_read ib' \<noteq> None)"
proof -
  obtain bs net1 where net: "net = bs # net1" using n by (cases net) auto
  obtain sz where sz: "ib_read ib = Some (ib_inp ib, sz)" "0 < sz" "sz \<le> room ib"
    using r o by (auto simp: ok_def read_ok_def split: option.splits)
  define data where "data = take sz bs"
  define net' where "net' = (if length bs \<le> sz then net1 else drop sz bs # net1)"
  define ib' where "ib' = ibuf_read_done (length data) (ib\<lparr>ib_read := None, ib_buf := blit (ib_buf ib) (ib_inp ib) data\<rparr>)"
  have data: "data \<noteq> []" "length data \<le> room ib" using o net sz by (auto simp: data_def ok_def)
  have split: "concat net = data @ concat net'" using net by (simp add: data_def net'_def)
  have g: "good (ib_out_d ib) (ring a ib @ data)" "-2 \<notin> set (fst (decode (ib_out_d ib) (ring a ib @ data)))"
    using o split good_append [of "ib_out_d ib" "ring a ib @ data" "concat net'"]
      decode_append [of "ib_out_d ib" "ring a ib @ data" "concat net'"] by (simp_all add: ok_def)
  obtain a' where rc: "receives a ib data a' ib'" and idle: "ib_handling_msg ib' = HandleMsgIdle \<longrightarrow> ib_read ib' \<noteq> None"
    using read_done_ok [OF _ _ data g e] o by (auto simp: ok_def ib'_def)
  have "tcp_read_done ib net = (ib', net')"
    by (simp add: tcp_read_done_def sz(1) net Let_def net'_def ib'_def data_def)
  moreover have "ok a' ib' net'"
    using o rc split net e by (auto simp: ok_def receives_def net'_def)
  ultimately show ?thesis using data rc split idle by blast
qed

lemma slice_take_drop: "out + k \<le> b \<Longrightarrow> slice out b xs = slice out (out + k) xs @ slice (out + k) b xs"
proof -
  assume "out + k \<le> b"
  then have "take (b - out) (drop out xs) = take k (drop out xs) @ take (b - out - k) (drop k (drop out xs))"
    using take_add [of k "b - out - k" "drop out xs"] by simp
  then show ?thesis by (simp add: slice_def add.commute)
qed

lemma advance:
  fixes d' :: decoder
  assumes p: "place out ib" "ib_cur ib = out" "out \<noteq> ib_inp ib" "out < buf_size ib" and r: "read_ok ib"
    and k: "out + k \<le> max_out (out + 1) ib" and c: "out \<le> c" "c \<le> out + k"
  defines "ib' \<equiv> ib\<lparr>ib_cur := c, ib_end := out + k, ib_out_d := d'\<rparr>"
  shows "place (out + k) ib'" "read_ok ib'"
    "ring out ib = slice out (out + k) (ib_buf ib) @ ring (out + k) ib'"
    "window (out + k) ib' = slice c (out + k) (ib_buf ib)"
proof -
  have pl: "2 \<le> buf_size ib" "ib_inp ib < buf_size ib" using p by (simp_all add: place_def)
  have cases: "out < ib_inp ib \<and> out + k \<le> ib_inp ib \<or> ib_inp ib < out \<and> out + k \<le> buf_size ib"
    using p(3) k by (auto simp: max_out_def split: if_splits)
  then show "place (out + k) ib'" using pl c by (auto simp: place_def ib'_def)
  have "room ib \<le> room ib'" using cases c p pl by (auto simp: room_def ib'_def)
  then show "read_ok ib'" using r by (auto simp: read_ok_def ib'_def split: option.splits)
  show "window (out + k) ib' = slice c (out + k) (ib_buf ib)" by (simp add: window_def ib'_def)
  show "ring out ib = slice out (out + k) (ib_buf ib) @ ring (out + k) ib'"
  proof (cases "out < ib_inp ib")
    case True
    with cases slice_take_drop [of out k "ib_inp ib" "ib_buf ib"] show ?thesis by (simp add: ring_def ib'_def)
  next
    case False
    with cases have "ib_inp ib < out" "out + k \<le> buf_size ib" by auto
    then show ?thesis
      by (simp add: ring_def ib'_def slice_def) (metis add.commute append_take_drop_id drop_drop)
  qed
qed

lemma same_place [simp]:
  "ring a (ib\<lparr>ib_end := e\<rparr>) = ring a ib" "ring a (ib\<lparr>ib_message_count := n\<rparr>) = ring a ib"
  "ring a (ib\<lparr>ib_handling_msg := h\<rparr>) = ring a ib" "ring a (ib\<lparr>ib_out_d := d\<rparr>) = ring a ib"
  "place a (ib\<lparr>ib_end := e\<rparr>) = place a ib" "place a (ib\<lparr>ib_message_count := n\<rparr>) = place a ib"
  "place a (ib\<lparr>ib_handling_msg := h\<rparr>) = place a ib" "place a (ib\<lparr>ib_out_d := d\<rparr>) = place a ib"
  "read_ok (ib\<lparr>ib_end := e\<rparr>) = read_ok ib" "read_ok (ib\<lparr>ib_message_count := n\<rparr>) = read_ok ib"
  "read_ok (ib\<lparr>ib_handling_msg := h\<rparr>) = read_ok ib" "read_ok (ib\<lparr>ib_out_d := d\<rparr>) = read_ok ib"
  "window a (ib\<lparr>ib_end := e\<rparr>) = window a ib" "window a (ib\<lparr>ib_message_count := n\<rparr>) = window a ib"
  "window a (ib\<lparr>ib_handling_msg := h\<rparr>) = window a ib" "window a (ib\<lparr>ib_out_d := d\<rparr>) = window a ib"
  by (simp_all add: ring_def place_def read_ok_def room_def window_def split: option.splits)

lemma max_out_cur [simp]: "max_out x (ib\<lparr>ib_cur := c\<rparr>) = max_out x ib"
  by (simp add: max_out_def)

lemma ok_end [simp]: "ok a (ib\<lparr>ib_end := e\<rparr>) net = ok a ib net" "ahead a (ib\<lparr>ib_end := e\<rparr>) net = ahead a ib net"
  by (simp_all add: ok_def msgs_def ahead_def)

lemma advance_decode:
  assumes o: "ok out ib net" and p: "ib_cur ib = out" "out \<noteq> ib_inp ib" "out < buf_size ib"
    and k: "out + k \<le> max_out (out + 1) ib" and c: "out \<le> c" "c \<le> out + k"
    and d: "decode (ib_out_d ib) (slice out (out + k) (ib_buf ib)) = (ys, d')"
  defines "ib' \<equiv> ib\<lparr>ib_cur := c, ib_end := out + k, ib_out_d := d'\<rparr>"
  shows "decode (ib_out_d ib) (ring out ib @ bs) =
      (ys @ fst (decode d' (ring (out + k) ib' @ bs)), snd (decode d' (ring (out + k) ib' @ bs)))"
    "good (ib_out_d ib) (ring out ib @ bs) \<Longrightarrow> good d' (ring (out + k) ib' @ bs)" "d_wf d'"
    "length (ring out ib) = length (slice out (out + k) (ib_buf ib)) + length (ring (out + k) ib')"
proof -
  let ?s = "slice out (out + k) (ib_buf ib)"
  have pl: "place out ib" "read_ok ib" using o by (simp_all add: ok_def)
  note adv = advance [OF pl(1) p pl(2) k c, of d', folded ib'_def]
  show "decode (ib_out_d ib) (ring out ib @ bs) =
      (ys @ fst (decode d' (ring (out + k) ib' @ bs)), snd (decode d' (ring (out + k) ib' @ bs)))"
    using decode_append [of "ib_out_d ib" ?s "ring (out + k) ib' @ bs"] d by (simp add: adv(3))
  show "good d' (ring (out + k) ib' @ bs)" if "good (ib_out_d ib) (ring out ib @ bs)"
    using that good_append [of "ib_out_d ib" ?s "ring (out + k) ib' @ bs"] d by (simp add: adv(3))
  show "d_wf d'" using o d decode_wf [of "ib_out_d ib" ?s] by (simp add: ok_def)
  show "length (ring out ib) = length ?s + length (ring (out + k) ib')" by (simp add: adv(3))
qed

lemma ok_advance:
  assumes o: "ok out ib net" and p: "ib_cur ib = out" "out \<noteq> ib_inp ib" "out < buf_size ib"
    and k: "out + k \<le> max_out (out + 1) ib" and c: "out \<le> c" "c \<le> out + k"
    and d: "decode (ib_out_d ib) (slice out (out + k) (ib_buf ib)) = (ys, d')" and ys: "eoms ys = 0"
  defines "ib' \<equiv> ib\<lparr>ib_cur := c, ib_end := out + k, ib_out_d := d'\<rparr>"
  shows "ok (out + k) ib' net" "ahead out ib net = ys @ ahead (out + k) ib' net"
    "window (out + k) ib' = slice c (out + k) (ib_buf ib)"
proof -
  have pl: "place out ib" "read_ok ib" using o by (simp_all add: ok_def)
  note adv = advance [OF pl(1) p pl(2) k c, of d', folded ib'_def]
  note dec = advance_decode [OF o p k c d, folded ib'_def]
  have f: "ib_out_d ib' = d'" "ib_inp_d ib' = ib_inp_d ib" "ib_message_count ib' = ib_message_count ib"
      "ib_long_msg ib' = ib_long_msg ib" "ib_eof ib' = ib_eof ib" "ib_handling_msg ib' = ib_handling_msg ib"
    by (simp_all add: ib'_def)
  have "msgs (out + k) ib'"
    using o dec(1) [of "[]"] ys f by (auto simp: ok_def msgs_def split: if_splits)
  then show "ok (out + k) ib' net"
    using o adv(1,2) dec(1,2) [of "concat net"] dec(3) f by (auto simp: ok_def)
  show "ahead out ib net = ys @ ahead (out + k) ib' net" using dec(1) [of "concat net"] f by (simp add: ahead_def)
  show "window (out + k) ib' = slice c (out + k) (ib_buf ib)" by (rule adv(4))
qed

text \<open>Consuming the end of a message.\<close>

lemma ok_eom:
  assumes o: "ok out ib net" and p: "ib_cur ib = out" "out \<noteq> ib_inp ib" "out < buf_size ib"
    and k: "out + 1 \<le> max_out (out + 1) ib"
    and d: "decode (ib_out_d ib) (slice out (out + 1) (ib_buf ib)) = ([MARKER_EOM], d')"
    and n: "ib_message_count ib = Suc n" and h: "h = (if n = 0 then HandleMsgIdle else HandleMsgTriggered)"
  defines "ib' \<equiv> ib\<lparr>ib_cur := out + 1, ib_end := out + 1, ib_out_d := d', ib_message_count := n, ib_handling_msg := h\<rparr>"
  shows "ok (out + 1) ib' net" "ahead out ib net = MARKER_EOM # ahead (out + 1) ib' net"
proof -
  define jb where "jb = ib\<lparr>ib_cur := out + 1, ib_end := out + 1, ib_out_d := d'\<rparr>"
  have pl: "place out ib" "read_ok ib" using o by (simp_all add: ok_def)
  have c: "out \<le> out + 1" "out + 1 \<le> out + 1" by simp_all
  note adv = advance [OF pl(1) p pl(2) k c, of d', folded jb_def]
  note dec = advance_decode [OF o p k c d, folded jb_def]
  have ib': "ib' = jb\<lparr>ib_message_count := n, ib_handling_msg := h\<rparr>" by (simp add: ib'_def jb_def)
  have f: "ib_out_d jb = d'" "ib_inp_d jb = ib_inp_d ib" "ib_long_msg jb = ib_long_msg ib" "ib_eof jb = ib_eof ib"
    by (simp_all add: jb_def)
  have "msgs (out + 1) ib'"
    using o dec(1) [of "[]"] f n h by (auto simp: ok_def msgs_def ib' split: if_splits)
  then show "ok (out + 1) ib' net"
    using o adv(1,2) dec(1,2) [of "concat net"] dec(3) f by (auto simp: ok_def ib')
  show "ahead out ib net = MARKER_EOM # ahead (out + 1) ib' net"
    using dec(1) [of "concat net"] f by (simp add: ahead_def ib')
qed

text \<open>
  What a read or a peek returns: the next symbol; the window and the symbols ahead are
  what follows it. Reading the end of the message gives up the message.
\<close>

definition delivers :: "bool \<Rightarrow> bool \<Rightarrow> sym list \<Rightarrow> ((sym \<times> InputBuf) \<times> byte list list) option \<Rightarrow> bool" where
  "delivers e peeking xs r \<longleftrightarrow>
     (\<exists>ib net. r = Some ((hd xs, ib), net) \<and> ok (ib_end ib) ib net \<and> ib_eof ib = e \<and>
        map byte_sym (window (ib_end ib) ib) @ ahead (ib_end ib) ib net = (if peeking then xs else tl xs) \<and>
        (if hd xs = MARKER_EOM \<and> \<not> peeking
         then ib_handling_msg ib = (if ib_message_count ib = 0 then HandleMsgIdle else HandleMsgTriggered)
           \<and> (ib_eof ib \<or> ib_read ib \<noteq> None)
         else ib_handling_msg ib = HandleMsgActive \<and> 0 < ib_message_count ib))"

lemma deliversI:
  assumes "ok a ib net" "a = ib_end ib" "e = ib_eof ib"
    "map byte_sym (window a ib) @ ahead a ib net = (if peeking then xs else tl xs)"
    "if hd xs = MARKER_EOM \<and> \<not> peeking
     then ib_handling_msg ib = (if ib_message_count ib = 0 then HandleMsgIdle else HandleMsgTriggered)
       \<and> 0 < room (wrap_cur ib)
     else ib_handling_msg ib = HandleMsgActive \<and> 0 < ib_message_count ib"
  shows "delivers e peeking xs (Some ((hd xs, ibuf_trigger_read ib), net))"
proof -
  have "place a ib" "read_ok ib" using assms(1) by (simp_all add: ok_def)
  from trigger_read_keeps [OF this] obtain a' where k: "keeps a ib a' (ibuf_trigger_read ib)" by blast
  then have en: "a' = ib_end (ibuf_trigger_read ib)" using assms(2) by (simp add: keeps_def)
  have f: "ib_handling_msg (ibuf_trigger_read ib) = ib_handling_msg ib"
      "ib_message_count (ibuf_trigger_read ib) = ib_message_count ib" "ib_eof (ibuf_trigger_read ib) = ib_eof ib"
    using k by (simp_all add: keeps_def)
  have r: "ib_eof ib \<or> ib_read (ibuf_trigger_read ib) \<noteq> None" if "0 < room (wrap_cur ib)"
    using trigger_read_posts that by blast
  show ?thesis
    using ok_keeps [OF assms(1) k] assms(3-5) f r unfolding delivers_def en by (cases peeking) (auto split: if_splits)
qed

lemma nth_ring:
  assumes "place out ib" "out \<noteq> ib_inp ib" "out < buf_size ib"
  shows "slice out (out + 1) (ib_buf ib) = [ib_buf ib ! out]" "out + 1 \<le> max_out (out + 1) ib"
  using assms by (auto simp: slice_def max_out_def place_def take_Suc_conv_app_nth drop_Cons_nth)

lemma read_data_ok:
  assumes o: "ok out (ib\<lparr>ib_cur := out\<rparr>) net" and p: "out \<noteq> ib_inp ib" "out < buf_size ib"
    and d: "d_mode (ib_out_d ib) = 0" "0 < d_size (ib_out_d ib)"
    and m: "0 < ib_message_count ib" "ib_handling_msg ib = HandleMsgActive"
  shows "delivers (ib_eof ib) peeking (ahead out (ib\<lparr>ib_cur := out\<rparr>) net) (Some (read_data peeking out ib, net))"
proof -
  let ?jb = "ib\<lparr>ib_cur := out\<rparr>"
  define n where "n = d_size (ib_out_d ib)"
  define mx where "mx = max_out (out + 1) ib"
  define k where "k = (if mx - out < n then mx - out else n)"
  define c where "c = (if peeking then out else out + 1)"
  define d' where "d' = (ib_out_d ib)\<lparr>d_size := n - k\<rparr>"
  define ib' where "ib' = ?jb\<lparr>ib_cur := c, ib_end := out + k, ib_out_d := d'\<rparr>"
  have pl: "place out ?jb" using o by (simp add: ok_def)
  have mx: "out + 1 \<le> mx" "mx \<le> buf_size ib"
    using pl p by (auto simp: mx_def max_out_def place_def)
  have k: "0 < k" "out + k \<le> mx" using mx d by (auto simp: k_def n_def)
  have len: "length (slice out (out + k) (ib_buf ib)) = k" using k mx by (simp add: slice_def)
  have c: "out \<le> c" "c \<le> out + k" using k by (auto simp: c_def)
  have mxj: "out + k \<le> max_out (out + 1) ?jb" using k(2) by (simp add: mx_def)
  let ?s = "slice out (out + k) (ib_buf ib)"
  have "k \<le> n" by (simp add: k_def)
  then have dec: "decode (ib_out_d ib) ?s = (map byte_sym ?s, d')"
    using decode_block [OF d(1), of ?s] len by (simp add: d'_def n_def)
  have adv: "ok (out + k) ib' net" "ahead out ?jb net = map byte_sym ?s @ ahead (out + k) ib' net"
      "window (out + k) ib' = slice c (out + k) (ib_buf ib)"
    using ok_advance [OF o _ _ _ mxj c, of "map byte_sym ?s" d'] p dec by (simp_all add: ib'_def)
  have s: "?s = ib_buf ib ! out # slice (out + 1) (out + k) (ib_buf ib)"
    using k p by (cases k) (simp_all add: slice_def drop_Cons_nth)
  have ib': "ib' = ib\<lparr>ib_out_d := d', ib_end := out + k, ib_cur := c\<rparr>" by (simp add: ib'_def)
  have rd: "read_data peeking out ib = (byte_sym (ib_buf ib ! out), ibuf_trigger_read ib')"
    unfolding ib' using k by (simp add: read_data_def Let_def c_def d'_def k_def n_def mx_def)
  have hd: "hd (ahead out ?jb net) = byte_sym (ib_buf ib ! out)" using adv(2) s by simp
  show ?thesis
    unfolding rd hd [symmetric]
    by (rule deliversI [OF adv(1)]) (use adv s hd m in \<open>auto simp: ib'_def c_def\<close>)
qed

lemma decode_run:
  "d_mode d = 0 \<Longrightarrow> d_size d = 0 \<Longrightarrow> \<not> d_esc d \<Longrightarrow> 3 \<notin> set bs \<Longrightarrow> decode d bs = (map byte_sym bs, d)"
  by (induction bs) (auto simp: dstep_def)

lemma byte_sym_eq_ESC: "byte_sym b = ESC \<longleftrightarrow> b = 3"
proof -
  have "byte_sym 3 = ESC" by (simp add: byte_sym_def)
  with byte_sym_inj [of b 3] show ?thesis by metis
qed

lemma read_plain_ok:
  assumes o: "ok out (ib\<lparr>ib_cur := out\<rparr>) net" and p: "out \<noteq> ib_inp ib" "out < buf_size ib"
    and d: "d_mode (ib_out_d ib) = 0" "d_size (ib_out_d ib) = 0" "\<not> d_esc (ib_out_d ib)" "ib_buf ib ! out \<noteq> 3"
    and m: "0 < ib_message_count ib" "ib_handling_msg ib = HandleMsgActive"
  shows "ahead out (ib\<lparr>ib_cur := out\<rparr>) net \<noteq> []"
    "delivers (ib_eof ib) peeking (ahead out (ib\<lparr>ib_cur := out\<rparr>) net) (Some (read_plain peeking out ib, net))"
proof -
  let ?jb = "ib\<lparr>ib_cur := out\<rparr>"
  define mx where "mx = max_out (out + 1) ib"
  define run where "run = takeWhile (\<lambda>ch. byte_sym ch \<noteq> ESC) (take (mx - (out + 1)) (drop (out + 1) (ib_buf ib)))"
  define k where "k = Suc (length run)"
  define c where "c = (if peeking then out else out + 1)"
  define ib' where "ib' = ?jb\<lparr>ib_cur := c, ib_end := out + k, ib_out_d := ib_out_d ib\<rparr>"
  have pl: "place out ?jb" using o by (simp add: ok_def)
  have mx: "out + 1 \<le> mx" "mx \<le> buf_size ib"
    using pl p by (auto simp: mx_def max_out_def place_def)
  have len: "length run \<le> mx - (out + 1)"
    using length_takeWhile_le [of "\<lambda>ch. byte_sym ch \<noteq> ESC" "take (mx - (out + 1)) (drop (out + 1) (ib_buf ib))"]
    by (simp add: run_def)
  have k: "out + k \<le> max_out (out + 1) ?jb" using len mx by (simp add: k_def mx_def)
  have c: "out \<le> c" "c \<le> out + k" by (auto simp: c_def k_def)
  let ?s = "slice out (out + k) (ib_buf ib)"
  have run: "slice (out + 1) (out + k) (ib_buf ib) = run" "3 \<notin> set run"
  proof -
    have "run = take (length run) (take (mx - (out + 1)) (drop (out + 1) (ib_buf ib)))"
      unfolding run_def by (rule takeWhile_eq_take)
    then show "slice (out + 1) (out + k) (ib_buf ib) = run" using len by (simp add: slice_def k_def min_def)
    show "3 \<notin> set run" using byte_sym_eq_ESC by (auto simp: run_def dest: set_takeWhileD)
  qed
  have s: "?s = ib_buf ib ! out # run"
    using run(1) p(2) by (simp add: slice_def k_def drop_Cons_nth)
  have dec: "decode (ib_out_d ib) ?s = (map byte_sym ?s, ib_out_d ib)"
    by (rule decode_run) (use d run s in auto)
  have adv: "ok (out + k) ib' net" "ahead out ?jb net = map byte_sym ?s @ ahead (out + k) ib' net"
      "window (out + k) ib' = slice c (out + k) (ib_buf ib)"
    using ok_advance [OF o _ _ _ k c, of "map byte_sym ?s" "ib_out_d ib"] p dec by (simp_all add: ib'_def)
  show "ahead out ?jb net \<noteq> []" using adv(2) s by simp
  have ib': "ib' = ib\<lparr>ib_end := out + 1 + length run, ib_cur := c\<rparr>" by (simp add: ib'_def k_def)
  have rd: "read_plain peeking out ib = (byte_sym (ib_buf ib ! out), ibuf_trigger_read ib')"
    unfolding ib' by (simp add: read_plain_def Let_def c_def run_def mx_def)
  have hd: "hd (ahead out ?jb net) = byte_sym (ib_buf ib ! out)" using adv(2) s by simp
  show "delivers (ib_eof ib) peeking (ahead out ?jb net) (Some (read_plain peeking out ib, net))"
    unfolding rd hd [symmetric]
    by (rule deliversI [OF adv(1)]) (use adv s run hd m in \<open>auto simp: ib'_def c_def\<close>)
qed

lemma esc_cases:
  assumes "d_mode d = 0" "d_size d = 0" "d_esc d"
  shows "decode d [0] = ([ESC], d\<lparr>d_esc := False\<rparr>)" "decode d [1] = ([MARKER_EOM], d\<lparr>d_esc := False\<rparr>)"
    "decode d [2] = ([MARKER_EOS], d\<lparr>d_esc := False\<rparr>)" "decode d [3] = ([], d\<lparr>d_esc := False, d_mode := 1, d_size := 0\<rparr>)"
  using assms by (simp_all add: dstep_def)

text \<open>Peeking leaves the escape sequence where it is.\<close>

lemma read_escaped_peek:
  assumes o: "ok out (ib\<lparr>ib_cur := out\<rparr>) net" and p: "out \<noteq> ib_inp ib" "out < buf_size ib"
    and x: "hd (ahead out (ib\<lparr>ib_cur := out\<rparr>) net) = x"
    and m: "0 < ib_message_count ib" "ib_handling_msg ib = HandleMsgActive"
  shows "delivers (ib_eof ib) True (ahead out (ib\<lparr>ib_cur := out\<rparr>) net) (Some (read_escaped True x out ib, net))"
proof -
  let ?jb = "ib\<lparr>ib_cur := out\<rparr>"
  have rd: "read_escaped True x out ib = (x, ibuf_trigger_read (?jb\<lparr>ib_end := out\<rparr>))"
    by (simp add: read_escaped_def Let_def)
  have w: "window out ?jb = []" by (simp add: window_def slice_def)
  have o': "ok out (?jb\<lparr>ib_end := out\<rparr>) net" by (simp only: ok_end o)
  have "delivers (ib_eof ib) True (ahead out ?jb net) (Some ((hd (ahead out ?jb net), ibuf_trigger_read (?jb\<lparr>ib_end := out\<rparr>)), net))"
    by (rule deliversI [OF o']) (use w x m in \<open>simp_all only: ok_end same_place, simp_all\<close>)
  then show ?thesis by (simp only: rd x)
qed

lemma read_escaped_byte:
  assumes o: "ok out (ib\<lparr>ib_cur := out\<rparr>) net" and p: "out \<noteq> ib_inp ib" "out < buf_size ib"
    and d: "decode (ib_out_d ib) [ib_buf ib ! out] = ([x], (ib_out_d ib)\<lparr>d_esc := False\<rparr>)" "x \<noteq> MARKER_EOM"
    and m: "0 < ib_message_count ib" "ib_handling_msg ib = HandleMsgActive"
  shows "delivers (ib_eof ib) peeking (ahead out (ib\<lparr>ib_cur := out\<rparr>) net) (Some (read_escaped peeking x out ib, net))"
proof -
  let ?jb = "ib\<lparr>ib_cur := out\<rparr>"
  define ib' where "ib' = ?jb\<lparr>ib_cur := out + 1, ib_end := out + 1, ib_out_d := (ib_out_d ib)\<lparr>d_esc := False\<rparr>\<rparr>"
  have pl: "place out ?jb" using o by (simp add: ok_def)
  note n = nth_ring [OF pl, simplified, OF p]
  have adv: "ok (out + 1) ib' net" "ahead out ?jb net = [x] @ ahead (out + 1) ib' net"
      "window (out + 1) ib' = slice (out + 1) (out + 1) (ib_buf ib)"
    using ok_advance [OF o _ _ _ _ _ _, of 1 "out + 1" "[x]" "(ib_out_d ib)\<lparr>d_esc := False\<rparr>"] p n d
    by (simp_all add: ib'_def)
  have hd: "hd (ahead out ?jb net) = x" using adv(2) by simp
  show ?thesis
  proof (cases peeking)
    case True
    with read_escaped_peek [OF o p hd m] show ?thesis by simp
  next
    case False
    have "read_escaped False x out ib = (x, ibuf_trigger_read (ib\<lparr>ib_out_d := (ib_out_d ib)\<lparr>d_esc := False\<rparr>,
        ib_cur := out + 1, ib_end := out + 1\<rparr>))" using d(2) by (simp add: read_escaped_def Let_def)
    moreover have "ib\<lparr>ib_out_d := (ib_out_d ib)\<lparr>d_esc := False\<rparr>, ib_cur := out + 1, ib_end := out + 1\<rparr> = ib'"
      by (simp add: ib'_def)
    ultimately have rd: "read_escaped peeking x out ib = (x, ibuf_trigger_read ib')" using False by simp
    have "delivers (ib_eof ib) peeking (ahead out ?jb net) (Some ((hd (ahead out ?jb net), ibuf_trigger_read ib'), net))"
      by (rule deliversI [OF adv(1)]) (use adv False hd d(2) m in \<open>auto simp: ib'_def slice_def\<close>)
    then show ?thesis by (simp add: rd hd)
  qed
qed

lemma read_escaped_eom:
  assumes o: "ok out (ib\<lparr>ib_cur := out\<rparr>) net" and p: "out \<noteq> ib_inp ib" "out < buf_size ib"
    and d: "decode (ib_out_d ib) [ib_buf ib ! out] = ([MARKER_EOM], (ib_out_d ib)\<lparr>d_esc := False\<rparr>)"
    and m: "0 < ib_message_count ib" "ib_handling_msg ib = HandleMsgActive"
  shows "delivers (ib_eof ib) peeking (ahead out (ib\<lparr>ib_cur := out\<rparr>) net) (Some (read_escaped peeking MARKER_EOM out ib, net))"
proof -
  let ?jb = "ib\<lparr>ib_cur := out\<rparr>"
  let ?d = "(ib_out_d ib)\<lparr>d_esc := False\<rparr>"
  obtain n where n: "ib_message_count ib = Suc n" using m(1) by (cases "ib_message_count ib") auto
  define h where "h = (if n = 0 then HandleMsgIdle else HandleMsgTriggered)"
  define ib' where "ib' = ?jb\<lparr>ib_cur := out + 1, ib_end := out + 1, ib_out_d := ?d, ib_message_count := n, ib_handling_msg := h\<rparr>"
  have pl: "place out ?jb" using o by (simp add: ok_def)
  note nr = nth_ring [OF pl, simplified, OF p]
  have adv: "ok (out + 1) ib' net" "ahead out ?jb net = MARKER_EOM # ahead (out + 1) ib' net"
    using ok_eom [OF o, of ?d n h] p nr d n h_def by (simp_all add: ib'_def)
  have hd: "hd (ahead out ?jb net) = MARKER_EOM" using adv(2) by simp
  show ?thesis
  proof (cases peeking)
    case True
    with read_escaped_peek [OF o p hd m] show ?thesis by simp
  next
    case False
    have "end_message ib = ib\<lparr>ib_message_count := n, ib_handling_msg := h\<rparr>"
      using n by (simp add: end_message_def tcp_trigger_message_def h_def Let_def)
    then have "read_escaped False MARKER_EOM out ib = (MARKER_EOM, ibuf_trigger_read (ib\<lparr>ib_message_count := n, ib_handling_msg := h,
        ib_out_d := ?d, ib_cur := out + 1, ib_end := out + 1\<rparr>))" by (simp add: read_escaped_def Let_def)
    moreover have "ib\<lparr>ib_message_count := n, ib_handling_msg := h, ib_out_d := ?d, ib_cur := out + 1, ib_end := out + 1\<rparr> = ib'"
      by (simp add: ib'_def)
    ultimately have rd: "read_escaped peeking MARKER_EOM out ib = (MARKER_EOM, ibuf_trigger_read ib')" using False by simp
    have w: "window (out + 1) ib' = []" by (simp add: window_def slice_def ib'_def)
    have rm: "0 < room (wrap_cur ib')" using p pl by (auto simp: ib'_def wrap_cur_def room_def place_def)
    have "delivers (ib_eof ib) peeking (ahead out ?jb net) (Some ((hd (ahead out ?jb net), ibuf_trigger_read ib'), net))"
      by (rule deliversI [OF adv(1)]) (use adv False hd w rm in \<open>simp_all add: h_def\<close>, simp_all add: ib'_def h_def)
    then show ?thesis by (simp only: rd hd)
  qed
qed

end
