(* ===== verification/InputChannel.thy ===== *)
theory InputChannel
  imports InputBuf "HOL-Library.Sublist"
begin

text \<open>
  Reading from the input buffer of a channel (\<open>ibuf_get_more\<close> and the stream functions of channel_tcp.c):
  every call returns the next symbol of the wire encoding (theory Framing), whatever the layout of the ring
  buffer and however the data arrives. A step relation combines arrival, dispatch and reading; its runs
  deliver the symbols that were sent, in order, and complete messages are always delivered.
\<close>

section \<open>The loop of \<open>ibuf_get_more\<close>\<close>

text \<open>At the end of the buffer reading goes on at its start.\<close>

lemma ok_wrap:
  assumes "ok (buf_size ib) (ib\<lparr>ib_cur := buf_size ib\<rparr>) net"
  shows "ok 0 (ib\<lparr>ib_cur := 0\<rparr>) net" "ahead 0 (ib\<lparr>ib_cur := 0\<rparr>) net = ahead (buf_size ib) (ib\<lparr>ib_cur := buf_size ib\<rparr>) net"
    "ring 0 (ib\<lparr>ib_cur := 0\<rparr>) = ring (buf_size ib) (ib\<lparr>ib_cur := buf_size ib\<rparr>)"
proof -
  have p: "place (buf_size ib) (ib\<lparr>ib_cur := buf_size ib\<rparr>)" using assms by (simp add: ok_def)
  then show r: "ring 0 (ib\<lparr>ib_cur := 0\<rparr>) = ring (buf_size ib) (ib\<lparr>ib_cur := buf_size ib\<rparr>)"
    by (auto simp: ring_def place_def slice_def)
  then show "ahead 0 (ib\<lparr>ib_cur := 0\<rparr>) net = ahead (buf_size ib) (ib\<lparr>ib_cur := buf_size ib\<rparr>) net"
    by (simp add: ahead_def)
  have "place 0 (ib\<lparr>ib_cur := 0\<rparr>)" using p by (simp add: place_def)
  moreover have "room (ib\<lparr>ib_cur := 0\<rparr>) = room (ib\<lparr>ib_cur := buf_size ib\<rparr>)"
    using p by (simp add: room_def place_def)
  then have "read_ok (ib\<lparr>ib_cur := 0\<rparr>) = read_ok (ib\<lparr>ib_cur := buf_size ib\<rparr>)" 
    by (simp add: read_ok_def split: option.splits)
  moreover have "msgs 0 (ib\<lparr>ib_cur := 0\<rparr>) = msgs (buf_size ib) (ib\<lparr>ib_cur := buf_size ib\<rparr>)" by (simp add: msgs_def r)
  ultimately show "ok 0 (ib\<lparr>ib_cur := 0\<rparr>) net" using assms by (simp add: ok_def r)
qed

lemma empty_ring:
  assumes "place a ib" "ib_cur ib = a" "ring a ib = []"
  shows "0 < room ib" "a = ib_inp ib \<or> a = buf_size ib \<and> ib_inp ib = 0"
  using assms by (auto simp: place_def ring_def slice_def room_def split: if_splits)

lemma ring_not_empty:
  assumes "place a ib" "ib_cur ib = a" "a < buf_size ib"
  shows "ring a ib = [] \<longleftrightarrow> a = ib_inp ib"
  using assms by (auto simp: place_def ring_def slice_def split: if_splits)

text \<open>The peer closes the connection in the middle of a message.\<close>

lemma get_more_eof:
  assumes "place out ib" "ib_cur ib = out" "ring out ib = []" "ib_eof ib"
  shows "get_more_loop peeking out ib net = Some ((MARKER_EOS, ib\<lparr>ib_cur := ib_inp ib\<rparr>), net)"
proof -
  have b: "2 \<le> buf_size ib" "ib_inp ib < buf_size ib" using assms(1) by (simp_all add: place_def)
  have "(if out = buf_size ib then 0 else out) = ib_inp ib"
    using empty_ring(2) [OF assms(1-3)] b by auto
  then show ?thesis unfolding get_more_loop.simps [of peeking out ib net] Let_def by (simp add: assms(4))
qed

text \<open>Waiting for data, when the handler has read all that there is of an incomplete message.\<close>

lemma wait_read_ok:
  assumes o: "ok out (ib\<lparr>ib_cur := out\<rparr>) net" and p: "out = ib_inp ib"
    and m: "0 < ib_message_count ib" "ib_handling_msg ib = HandleMsgActive" and e: "\<not> ib_eof ib"
  shows "ib_long_msg ib" "ib_message_count ib = 1"
    "net \<noteq> [] \<Longrightarrow> \<exists>ib1 net1. tcp_read_done (ibuf_trigger_read (ib\<lparr>ib_cur := out\<rparr>)) net = (ib1, net1) \<and>
       ok (ib_cur ib1) ib1 net1 \<and> 0 < ib_message_count ib1 \<and> ib_handling_msg ib1 = HandleMsgActive \<and>
       ring (ib_cur ib1) ib1 \<noteq> [] \<and> length (ring (ib_cur ib1) ib1 @ concat net1) = length (concat net) \<and>
       ahead (ib_cur ib1) ib1 net1 = ahead out (ib\<lparr>ib_cur := out\<rparr>) net \<and> ib_eof ib1 = ib_eof ib"
    "net = [] \<Longrightarrow> \<exists>ib1. tcp_read_done (ibuf_trigger_read (ib\<lparr>ib_cur := out\<rparr>)) net = (ib1, []) \<and>
       place (ib_cur ib1) ib1 \<and> ring (ib_cur ib1) ib1 = [] \<and> ib_eof ib1"
proof -
  let ?jb = "ib\<lparr>ib_cur := out\<rparr>"
  have pl: "place out ?jb" "read_ok ?jb" using o by (simp_all add: ok_def)
  have emp: "ring out ?jb = []" using p by (simp add: ring_def slice_def)
  show "ib_long_msg ib" "ib_message_count ib = 1"
    using o emp m(1) e by (auto simp: ok_def msgs_def split: if_splits)
  define kb where "kb = ibuf_trigger_read ?jb"
  obtain a' where k: "keeps out ?jb a' kb" "0 < room kb \<longrightarrow> ib_read kb \<noteq> None"
    using trigger_read_keeps [OF pl] e by (auto simp: kb_def)
  have a': "a' = ib_cur kb" "place a' kb" "ring a' kb = []" "\<not> ib_eof kb" "ib_out_d kb = ib_out_d ib"
    using k(1) emp e unfolding keeps_def by auto
  have rd: "ib_read kb \<noteq> None" using k(2) empty_ring(1) [OF a'(2)] a' by simp
  note okb = ok_keeps [OF o k(1)]
  show "\<exists>ib1 net1. tcp_read_done (ibuf_trigger_read ?jb) net = (ib1, net1) \<and>
       ok (ib_cur ib1) ib1 net1 \<and> 0 < ib_message_count ib1 \<and> ib_handling_msg ib1 = HandleMsgActive \<and>
       ring (ib_cur ib1) ib1 \<noteq> [] \<and> length (ring (ib_cur ib1) ib1 @ concat net1) = length (concat net) \<and>
       ahead (ib_cur ib1) ib1 net1 = ahead out ?jb net \<and> ib_eof ib1 = ib_eof ib" if n: "net \<noteq> []"
  proof -
    obtain b data ib1 net1 where r: "tcp_read_done kb net = (ib1, net1)" "data \<noteq> []" "receives a' kb data b ib1"
        "concat net = data @ concat net1" "ok b ib1 net1"
      using tcp_read_done_ok [OF okb(1) a'(4) n rd] by blast
    have b: "b = ib_cur ib1" "ring b ib1 = data" "ib_out_d ib1 = ib_out_d ib" "ib_handling_msg ib1 = HandleMsgActive"
        "0 < ib_message_count ib1" "ib_eof ib1 = ib_eof ib"
      using r(3) a' k(1) m by (auto simp: receives_def keeps_def)
    have "ahead b ib1 net1 = ahead out ?jb net" using b r(4) emp by (simp add: ahead_def)
    then show ?thesis using r b by (auto simp flip: kb_def)
  qed
  show "\<exists>ib1. tcp_read_done (ibuf_trigger_read ?jb) net = (ib1, []) \<and>
       place (ib_cur ib1) ib1 \<and> ring (ib_cur ib1) ib1 = [] \<and> ib_eof ib1" if n: "net = []"
  proof -
    obtain off sz where "ib_read kb = Some (off, sz)" using rd by auto
    then have r: "tcp_read_done kb net = (ibuf_read_done 0 (kb\<lparr>ib_read := None\<rparr>), [])"
      using n by (simp add: tcp_read_done_def)
    define ib1 where "ib1 = ibuf_read_done 0 (kb\<lparr>ib_read := None\<rparr>)"
    have f: "ib_buf ib1 = ib_buf kb" "ib_inp ib1 = ib_inp kb" "ib_cur ib1 = ib_cur kb" "ib_eof ib1"
      by (simp_all add: ib1_def ibuf_read_done_def ibuf_eof_def ibuf_new_message_def tcp_trigger_message_def)
    have "place a' ib1" using a'(2) f by (simp add: place_def)
    moreover have "ring a' ib1 = ring a' kb" using f by (simp add: ring_def)
    ultimately have "place a' ib1" "ring a' ib1 = []" using a'(3) by simp_all
    then show ?thesis using r f a'(1) by (auto simp flip: kb_def ib1_def)
  qed
qed

text \<open>What the loop returns: the next symbol, or the end of the stream when there is none.\<close>

definition returns :: "bool \<Rightarrow> bool \<Rightarrow> sym list \<Rightarrow> ((sym \<times> InputBuf) \<times> byte list list) option \<Rightarrow> bool" where
  "returns e peeking xs r \<longleftrightarrow>
     (if xs = [] then \<exists>ib. r = Some ((MARKER_EOS, ib), []) \<and> ib_eof ib else delivers e peeking xs r)"

text \<open>One byte that changes the state of the decoder only.\<close>

lemma skip_byte:
  assumes o: "ok out (ib\<lparr>ib_cur := out\<rparr>) net" and p: "out \<noteq> ib_inp ib" "out < buf_size ib"
    and d: "dstep (ib_out_d ib) (ib_buf ib ! out) = ([], d')"
  shows "ok (out + 1) (ib\<lparr>ib_out_d := d', ib_cur := out + 1\<rparr>) net"
    "ahead (out + 1) (ib\<lparr>ib_out_d := d', ib_cur := out + 1\<rparr>) net = ahead out (ib\<lparr>ib_cur := out\<rparr>) net"
    "length (ring out (ib\<lparr>ib_cur := out\<rparr>)) = Suc (length (ring (out + 1) (ib\<lparr>ib_out_d := d', ib_cur := out + 1\<rparr>)))"
proof -
  let ?jb = "ib\<lparr>ib_cur := out\<rparr>"
  define ib' where "ib' = ?jb\<lparr>ib_cur := out + 1, ib_end := out + 1, ib_out_d := d'\<rparr>"
  have pl: "place out ?jb" using o by (simp add: ok_def)
  note n = nth_ring [OF pl, simplified, OF p]
  have k: "out + 1 \<le> max_out (out + 1) ?jb" "out \<le> out + 1" "out + 1 \<le> out + 1" using n by simp_all
  have dec: "decode (ib_out_d ?jb) (slice out (out + 1) (ib_buf ?jb)) = ([], d')" using n d by simp
  note adv = ok_advance [OF o _ _ _ k dec, folded ib'_def] advance_decode(4) [OF o _ _ _ k dec, folded ib'_def]
  have e: "ib' = (ib\<lparr>ib_out_d := d', ib_cur := out + 1\<rparr>)\<lparr>ib_end := out + 1\<rparr>" by (simp add: ib'_def)
  show "ok (out + 1) (ib\<lparr>ib_out_d := d', ib_cur := out + 1\<rparr>) net"
    using adv(1) p by (simp only: e ok_end) simp
  show "ahead (out + 1) (ib\<lparr>ib_out_d := d', ib_cur := out + 1\<rparr>) net = ahead out ?jb net"
    using adv(2) p by (simp only: e ok_end) simp
  show "length (ring out ?jb) = Suc (length (ring (out + 1) (ib\<lparr>ib_out_d := d', ib_cur := out + 1\<rparr>)))"
    using adv(4) p n by (simp only: e same_place) simp
qed

lemma ring_Cons:
  assumes "place out ib" "ib_cur ib = out" "out \<noteq> ib_inp ib" "out < buf_size ib"
  shows "\<exists>r. ring out ib = ib_buf ib ! out # r"
proof (cases "out \<le> ib_inp ib")
  case True
  then obtain k where "ib_inp ib - out = Suc k" using assms(3) by (cases "ib_inp ib - out") auto
  with True assms(4) show ?thesis by (simp add: ring_def slice_def drop_Cons_nth)
next
  case False
  with assms(4) show ?thesis by (simp add: ring_def drop_Cons_nth)
qed

lemma next_byte:
  assumes o: "ok out (ib\<lparr>ib_cur := out\<rparr>) net" and p: "out \<noteq> ib_inp ib" "out < buf_size ib"
  shows "\<not> bad_step (ib_out_d ib) (ib_buf ib ! out)" "-2 \<notin> set (fst (dstep (ib_out_d ib) (ib_buf ib ! out)))"
    "fst (dstep (ib_out_d ib) (ib_buf ib ! out)) \<noteq> [] \<Longrightarrow> ahead out (ib\<lparr>ib_cur := out\<rparr>) net \<noteq> []"
    "ring out (ib\<lparr>ib_cur := out\<rparr>) \<noteq> []" "d_wf (ib_out_d ib)"
proof -
  have "place out (ib\<lparr>ib_cur := out\<rparr>)" using o by (simp add: ok_def)
  with p ring_Cons [of out "ib\<lparr>ib_cur := out\<rparr>"]
  obtain r where r: "ring out (ib\<lparr>ib_cur := out\<rparr>) = ib_buf ib ! out # r" by auto
  show "\<not> bad_step (ib_out_d ib) (ib_buf ib ! out)" "-2 \<notin> set (fst (dstep (ib_out_d ib) (ib_buf ib ! out)))" "d_wf (ib_out_d ib)"
    using o r by (simp_all add: ok_def Let_def split_beta)
  show "ring out (ib\<lparr>ib_cur := out\<rparr>) \<noteq> []" using r by simp
  show "ahead out (ib\<lparr>ib_cur := out\<rparr>) net \<noteq> []" if "fst (dstep (ib_out_d ib) (ib_buf ib ! out)) \<noteq> []"
    using that r by (simp add: ahead_def Let_def split_beta)
qed

text \<open>The loop when there is no data, and when there is: it either returns or consumes a byte.\<close>

lemma get_more_empty:
  assumes o: "ok out (ib\<lparr>ib_cur := out\<rparr>) net" and p: "out = ib_inp ib"
    and m: "0 < ib_message_count ib" "ib_handling_msg ib = HandleMsgActive"
    and out0: "out = (if out0 = buf_size ib then 0 else out0)"
  obtains "returns (ib_eof ib) peeking (ahead out (ib\<lparr>ib_cur := out\<rparr>) net) (get_more_loop peeking out0 ib net)"
  | ib1 net1 where "get_more_loop peeking out0 ib net = get_more_loop peeking (ib_cur ib1) ib1 net1"
      "ok (ib_cur ib1) ib1 net1" "0 < ib_message_count ib1" "ib_handling_msg ib1 = HandleMsgActive"
      "ring (ib_cur ib1) ib1 \<noteq> []" "length (ring (ib_cur ib1) ib1 @ concat net1) = length (concat net)"
      "ahead (ib_cur ib1) ib1 net1 = ahead out (ib\<lparr>ib_cur := out\<rparr>) net" "ib_eof ib1 = ib_eof ib"
proof -
  note unf = get_more_loop.simps [of peeking out0 ib net, folded out0, unfolded Let_def]
  have emp: "ring out (ib\<lparr>ib_cur := out\<rparr>) = []" using p by (simp add: ring_def slice_def)
  consider "ib_eof ib" | "\<not> ib_eof ib" "net = []" | "\<not> ib_eof ib" "net \<noteq> []" by blast
  then show ?thesis
  proof cases
    case 1
    have "get_more_loop peeking out0 ib net = Some ((MARKER_EOS, ib\<lparr>ib_cur := out\<rparr>), net)"
      unfolding unf using 1 p by simp
    moreover have "net = []" using o 1 by (simp add: ok_def)
    ultimately show ?thesis using 1 emp by (intro that(1)) (simp add: returns_def ahead_def)
  next
    case 2
    note w = wait_read_ok [OF o p m 2(1)]
    from w(4) [OF 2(2)] obtain ib1 where r: "tcp_read_done (ibuf_trigger_read (ib\<lparr>ib_cur := out\<rparr>)) net = (ib1, [])"
        "place (ib_cur ib1) ib1" "ring (ib_cur ib1) ib1 = []" "ib_eof ib1" by blast
    have "get_more_loop peeking out0 ib net = get_more_loop peeking (ib_cur ib1) ib1 []"
      unfolding unf using 2 w(1,2) r(1) p by simp
    with get_more_eof [OF r(2) refl r(3,4)] emp 2 r(4) show ?thesis
      by (intro that(1)) (simp add: returns_def ahead_def)
  next
    case 3
    note w = wait_read_ok [OF o p m 3(1)]
    from w(3) [OF 3(2)] obtain ib1 net1 where r: "tcp_read_done (ibuf_trigger_read (ib\<lparr>ib_cur := out\<rparr>)) net = (ib1, net1)"
       "ok (ib_cur ib1) ib1 net1" "0 < ib_message_count ib1" "ib_handling_msg ib1 = HandleMsgActive"
       "ring (ib_cur ib1) ib1 \<noteq> []" "length (ring (ib_cur ib1) ib1 @ concat net1) = length (concat net)"
       "ahead (ib_cur ib1) ib1 net1 = ahead out (ib\<lparr>ib_cur := out\<rparr>) net" "ib_eof ib1 = ib_eof ib" by blast
    have "get_more_loop peeking out0 ib net = get_more_loop peeking (ib_cur ib1) ib1 net1"
      unfolding unf using 3 w(1,2) r(1) p by simp
    from this r(2-) show ?thesis by (rule that(2))
  qed
qed

lemma get_more_byte:
  assumes o: "ok out (ib\<lparr>ib_cur := out\<rparr>) net" and p: "out \<noteq> ib_inp ib" "out < buf_size ib"
    and m: "0 < ib_message_count ib" "ib_handling_msg ib = HandleMsgActive"
    and out0: "out = (if out0 = buf_size ib then 0 else out0)"
  obtains "returns (ib_eof ib) peeking (ahead out (ib\<lparr>ib_cur := out\<rparr>) net) (get_more_loop peeking out0 ib net)"
  | d' where "get_more_loop peeking out0 ib net = get_more_loop peeking (out + 1) (ib\<lparr>ib_out_d := d'\<rparr>) net"
      "dstep (ib_out_d ib) (ib_buf ib ! out) = ([], d')"
proof -
  note unf = get_more_loop.simps [of peeking out0 ib net, folded out0, unfolded Let_def]
  let ?d = "ib_out_d ib" and ?ch = "ib_buf ib ! out"
  note nb = next_byte [OF o p]
  have wf: "(d_mode ?d > 0 \<or> d_size ?d > 0) \<Longrightarrow> \<not> d_esc ?d" using nb(5) by (auto simp: d_wf_def)
  consider (size) "0 < d_mode ?d" | (data) "d_mode ?d = 0" "0 < d_size ?d"
    | (esc) "d_mode ?d = 0" "d_size ?d = 0" "d_esc ?d"
    | (start) "d_mode ?d = 0" "d_size ?d = 0" "\<not> d_esc ?d" "?ch = 3"
    | (plain) "d_mode ?d = 0" "d_size ?d = 0" "\<not> d_esc ?d" "?ch \<noteq> 3" by auto
  then show ?thesis
  proof cases
    case size
    with wf p show ?thesis by (intro that(2)) (simp_all add: unf dstep_def)
  next
    case data
    then have "get_more_loop peeking out0 ib net = Some (read_data peeking out ib, net)" using wf p by (simp add: unf)
    moreover have "ahead out (ib\<lparr>ib_cur := out\<rparr>) net \<noteq> []" by (rule nb(3)) (use data in \<open>simp add: dstep_def\<close>)
    ultimately show ?thesis using read_data_ok [OF o p data m] by (intro that(1)) (simp add: returns_def)
  next
    case esc
    have "?ch = 0 \<or> ?ch = 1 \<or> ?ch = 2 \<or> ?ch = 3" using nb(1) esc byte_cases4 by (auto simp: bad_step_def)
    moreover have "?ch \<noteq> 2" using nb(2) esc by (auto simp: dstep_def)
    ultimately consider "?ch = 0" | "?ch = 1" | "?ch = 3" by blast
    then show ?thesis
    proof cases
      case 1
      then have "get_more_loop peeking out0 ib net = Some (read_escaped peeking ESC out ib, net)" using esc p by (simp add: unf)
      moreover have "ahead out (ib\<lparr>ib_cur := out\<rparr>) net \<noteq> []" by (rule nb(3)) (use esc 1 in \<open>simp add: dstep_def\<close>)
      moreover have "delivers (ib_eof ib) peeking (ahead out (ib\<lparr>ib_cur := out\<rparr>) net) (Some (read_escaped peeking ESC out ib, net))"
        by (rule read_escaped_byte [OF o p _ _ m]) (use esc_cases(1) [OF esc] 1 in simp_all)
      ultimately show ?thesis by (intro that(1)) (simp add: returns_def)
    next
      case 2
      then have "get_more_loop peeking out0 ib net = Some (read_escaped peeking MARKER_EOM out ib, net)" using esc p by (simp add: unf)
      moreover have "ahead out (ib\<lparr>ib_cur := out\<rparr>) net \<noteq> []" by (rule nb(3)) (use esc 2 in \<open>simp add: dstep_def\<close>)
      moreover have "delivers (ib_eof ib) peeking (ahead out (ib\<lparr>ib_cur := out\<rparr>) net) (Some (read_escaped peeking MARKER_EOM out ib, net))"
        by (rule read_escaped_eom [OF o p _ m]) (use esc_cases(2) [OF esc] 2 in simp)
      ultimately show ?thesis by (intro that(1)) (simp add: returns_def)
    next
      case 3
      with esc p show ?thesis by (intro that(2)) (simp_all add: unf dstep_def)
    qed
  next
    case start
    with p show ?thesis by (intro that(2)) (simp_all add: unf dstep_def)
  next
    case plain
    then have "get_more_loop peeking out0 ib net = Some (read_plain peeking out ib, net)" using p by (simp add: unf)
    with read_plain_ok [OF o p plain m] show ?thesis by (intro that(1)) (simp add: returns_def)
  qed
qed

lemma get_more_ok:
  assumes "ok out (ib\<lparr>ib_cur := out\<rparr>) net" "0 < ib_message_count ib" "ib_handling_msg ib = HandleMsgActive"
  shows "returns (ib_eof ib) peeking (ahead out (ib\<lparr>ib_cur := out\<rparr>) net) (get_more_loop peeking out ib net)"
  using assms
proof (induction "2 * length (ring out (ib\<lparr>ib_cur := out\<rparr>) @ concat net) + (if ring out (ib\<lparr>ib_cur := out\<rparr>) = [] then 1 else 0)"
    arbitrary: out ib net rule: less_induct)
  case less
  define o1 where "o1 = (if out = buf_size ib then 0 else out)"
  have out: "out \<le> buf_size ib" "2 \<le> buf_size ib"
    using less.prems(1) by (auto simp: ok_def place_def split: if_splits)
  have w: "ok o1 (ib\<lparr>ib_cur := o1\<rparr>) net" "ahead o1 (ib\<lparr>ib_cur := o1\<rparr>) net = ahead out (ib\<lparr>ib_cur := out\<rparr>) net"
      "ring o1 (ib\<lparr>ib_cur := o1\<rparr>) = ring out (ib\<lparr>ib_cur := out\<rparr>)"
    using less.prems(1) ok_wrap [of ib net] by (auto simp: o1_def)
  have o1: "o1 < buf_size ib" using out by (auto simp: o1_def)
  show ?case
  proof (cases "o1 = ib_inp ib")
    case True
    have emp: "ring out (ib\<lparr>ib_cur := out\<rparr>) = []" using True w(3) by (simp add: ring_def slice_def)
    from w(1) True less.prems(2,3) o1_def show ?thesis
    proof (rule get_more_empty [where peeking = peeking])
      fix ib1 net1
      assume eq: "get_more_loop peeking out ib net = get_more_loop peeking (ib_cur ib1) ib1 net1"
        and r: "ok (ib_cur ib1) ib1 net1" "0 < ib_message_count ib1" "ib_handling_msg ib1 = HandleMsgActive"
          "ring (ib_cur ib1) ib1 \<noteq> []" "length (ring (ib_cur ib1) ib1 @ concat net1) = length (concat net)"
          "ahead (ib_cur ib1) ib1 net1 = ahead o1 (ib\<lparr>ib_cur := o1\<rparr>) net" "ib_eof ib1 = ib_eof ib"
      have "ib1\<lparr>ib_cur := ib_cur ib1\<rparr> = ib1" by simp
      with less.hyps [of "ib_cur ib1" ib1 net1] r emp w(2) eq show ?thesis by simp
    qed (use w(2) in simp)
  next
    case False
    from w(1) False o1 less.prems(2,3) o1_def show ?thesis
    proof (rule get_more_byte [where peeking = peeking])
      fix d'
      assume eq: "get_more_loop peeking out ib net = get_more_loop peeking (o1 + 1) (ib\<lparr>ib_out_d := d'\<rparr>) net"
        and d: "dstep (ib_out_d ib) (ib_buf ib ! o1) = ([], d')"
      note sk = skip_byte [OF w(1) False o1 d]
      have "returns (ib_eof (ib\<lparr>ib_out_d := d'\<rparr>)) peeking (ahead (o1 + 1) (ib\<lparr>ib_out_d := d', ib_cur := o1 + 1\<rparr>) net)
          (get_more_loop peeking (o1 + 1) (ib\<lparr>ib_out_d := d'\<rparr>) net)"
        by (rule less.hyps) (use sk less.prems(2,3) w(3) in \<open>simp_all\<close>)
      then show ?thesis using eq sk(2) w(2) by simp
    qed (use w(2) in simp)
  qed
qed
section \<open>The input stream of the channel\<close>

text \<open>All symbols that the handler has not read yet.\<close>

definition chan_view :: "InputBuf \<Rightarrow> byte list list \<Rightarrow> sym list" where
  "chan_view ib net = map byte_sym (window (ib_end ib) ib) @ ahead (ib_end ib) ib net"

definition chan_inv :: "InputBuf \<Rightarrow> byte list list \<Rightarrow> bool" where
  "chan_inv ib net \<longleftrightarrow> ok (ib_end ib) ib net \<and>
     (ib_handling_msg ib = HandleMsgActive \<longrightarrow> 0 < ib_message_count ib) \<and>
     (ib_handling_msg ib = HandleMsgIdle \<longrightarrow> ib_eof ib \<or> ib_read ib \<noteq> None)"

lemma delivers_chan:
  "delivers e peeking xs r \<Longrightarrow>
     \<exists>ib net. r = Some ((hd xs, ib), net) \<and> chan_inv ib net \<and> ib_eof ib = e \<and>
       chan_view ib net = (if peeking then xs else tl xs) \<and>
       (ib_handling_msg ib = HandleMsgActive \<longleftrightarrow> peeking \<or> hd xs \<noteq> MARKER_EOM)"
  by (auto simp: delivers_def chan_inv_def chan_view_def split: if_splits)

lemma window_Cons:
  assumes "place (ib_end ib) ib" "ib_cur ib < ib_end ib"
  shows "window (ib_end ib) ib = ib_buf ib ! ib_cur ib # window (ib_end ib) (ib\<lparr>ib_cur := ib_cur ib + 1\<rparr>)"
proof -
  obtain k where k: "ib_end ib - ib_cur ib = Suc k" using assms(2) by (cases "ib_end ib - ib_cur ib") auto
  then have "ib_end ib - (ib_cur ib + 1) = k" by simp
  moreover have "ib_cur ib < buf_size ib" using assms by (auto simp: place_def split: if_splits)
  ultimately show ?thesis using k by (simp add: window_def slice_def drop_Cons_nth)
qed

lemma window_read_ok:
  assumes "ok (ib_end ib) ib net" "ib_cur ib < ib_end ib"
  shows "ok (ib_end ib) (ib\<lparr>ib_cur := ib_cur ib + 1\<rparr>) net"
proof -
  let ?jb = "ib\<lparr>ib_cur := ib_cur ib + 1\<rparr>"
  have p: "place (ib_end ib) ib" "read_ok ib" using assms(1) by (simp_all add: ok_def)
  have "place (ib_end ib) ?jb" using p(1) assms(2) by (auto simp: place_def split: if_splits)
  moreover have "room ib \<le> room ?jb" using p(1) assms(2) by (auto simp: room_def place_def split: if_splits)
  then have "read_ok ?jb" using p(2) by (auto simp: read_ok_def split: option.splits)
  moreover have "ring (ib_end ib) ?jb = ring (ib_end ib) ib" by (simp add: ring_def)
  moreover from this have "msgs (ib_end ib) ?jb = msgs (ib_end ib) ib" by (simp add: msgs_def)
  ultimately show ?thesis using assms(1) by (simp add: ok_def)
qed

lemma get_more_chan:
  assumes "chan_inv ib net" "ib_handling_msg ib = HandleMsgActive" "\<not> ib_cur ib < ib_end ib"
  shows "returns (ib_eof ib) peeking (chan_view ib net) (ibuf_get_more peeking ib net)"
proof -
  have o: "ok (ib_end ib) ib net" and m: "0 < ib_message_count ib" using assms by (simp_all add: chan_inv_def)
  then have "place (ib_end ib) ib" by (simp add: ok_def)
  then have c: "ib_cur ib = ib_end ib" "ib_cur ib \<le> buf_size ib"
    using assms(3) by (auto simp: place_def split: if_splits)
  then have j: "ib\<lparr>ib_cur := ib_end ib\<rparr> = ib" by simp
  have "chan_view ib net = ahead (ib_end ib) ib net" using c by (simp add: chan_view_def window_def slice_def)
  moreover have "ibuf_get_more peeking ib net = get_more_loop peeking (ib_end ib) ib net"
    using c m assms(2) by (simp add: ibuf_get_more_def)
  ultimately show ?thesis using get_more_ok [of "ib_end ib" ib net peeking] o m assms(2) j by simp
qed

lemma read_stream_chan:
  assumes "chan_inv ib net" "ib_handling_msg ib = HandleMsgActive" "chan_view ib net \<noteq> []"
  shows "\<exists>ib' net'. tcp_read_stream ib net = Some ((hd (chan_view ib net), ib'), net') \<and> chan_inv ib' net' \<and> ib_eof ib' = ib_eof ib \<and>
    chan_view ib' net' = tl (chan_view ib net) \<and>
    (ib_handling_msg ib' = HandleMsgActive \<longleftrightarrow> hd (chan_view ib net) \<noteq> MARKER_EOM)"
proof (cases "ib_cur ib < ib_end ib")
  case True
  let ?jb = "ib\<lparr>ib_cur := ib_cur ib + 1\<rparr>"
  have o: "ok (ib_end ib) ib net" using assms(1) by (simp add: chan_inv_def)
  then have p: "place (ib_end ib) ib" by (simp add: ok_def)
  have "chan_view ib net = byte_sym (ib_buf ib ! ib_cur ib) # chan_view ?jb net"
    using window_Cons [OF p True] by (simp add: chan_view_def ahead_def ring_def)
  moreover have "chan_inv ?jb net" using window_read_ok [OF o True] assms(1) by (simp add: chan_inv_def)
  ultimately show ?thesis using True assms(2) by (simp add: tcp_read_stream_def)
next
  case False
  then show ?thesis
    using get_more_chan [OF assms(1,2) False, of False] assms(3) delivers_chan [of _ False]
    by (auto simp: tcp_read_stream_def returns_def)
qed

lemma peek_stream_chan:
  assumes "chan_inv ib net" "ib_handling_msg ib = HandleMsgActive" "chan_view ib net \<noteq> []"
  shows "\<exists>ib' net'. tcp_peek_stream ib net = Some ((hd (chan_view ib net), ib'), net') \<and> chan_inv ib' net' \<and> ib_eof ib' = ib_eof ib \<and>
    chan_view ib' net' = chan_view ib net \<and> ib_handling_msg ib' = HandleMsgActive"
proof (cases "ib_cur ib < ib_end ib")
  case True
  have "place (ib_end ib) ib" using assms(1) by (simp add: chan_inv_def ok_def)
  then have "hd (chan_view ib net) = byte_sym (ib_buf ib ! ib_cur ib)"
    using window_Cons [OF _ True] by (simp add: chan_view_def)
  with True assms show ?thesis by (simp add: tcp_peek_stream_def)
next
  case False
  then show ?thesis
    using get_more_chan [OF assms(1,2) False, of True] assms(3) delivers_chan [of _ True]
    by (auto simp: tcp_peek_stream_def returns_def)
qed

text \<open>
  The handler sees one message: the symbols up to the next end of message. Where an assertion fails
  the streams below report the end of the stream; \<open>tcp_channel_asserts\<close> shows that none does.
\<close>

definition msg_part :: "sym list \<Rightarrow> sym list" where
  "msg_part xs = takeWhile (\<lambda>x. x \<noteq> MARKER_EOM) xs @ take 1 (dropWhile (\<lambda>x. x \<noteq> MARKER_EOM) xs)"

lemma msg_part_Nil [simp]: "msg_part [] = []"
  by (simp add: msg_part_def)

lemma msg_part_Cons [simp]: "msg_part (x # xs) = (if x = -1 then [-1] else x # msg_part xs)"
  by (simp add: msg_part_def)

lemma msg_part_hd: "xs \<noteq> [] \<Longrightarrow> msg_part xs \<noteq> [] \<and> hd (msg_part xs) = hd xs"
  by (cases xs) auto

lemma msg_part_tl: "xs \<noteq> [] \<Longrightarrow> hd xs \<noteq> -1 \<Longrightarrow> msg_part (tl xs) = tl (msg_part xs)"
  "xs \<noteq> [] \<Longrightarrow> hd xs = -1 \<Longrightarrow> tl (msg_part xs) = []"
  by (cases xs; simp)+

definition msg_view :: "InputBuf \<times> byte list list \<Rightarrow> sym list" where
  "msg_view s = (if ib_handling_msg (fst s) = HandleMsgActive then msg_part (chan_view (fst s) (snd s)) else [])"

definition chan_rd :: "InputBuf \<times> byte list list \<Rightarrow> sym \<times> (InputBuf \<times> byte list list)" where
  "chan_rd s = (case tcp_read_stream (fst s) (snd s) of Some ((x, ib), net) \<Rightarrow> (x, (ib, net)) | None \<Rightarrow> (MARKER_EOS, s))"

definition chan_pk :: "InputBuf \<times> byte list list \<Rightarrow> sym \<times> (InputBuf \<times> byte list list)" where
  "chan_pk s = (case tcp_peek_stream (fst s) (snd s) of Some ((x, ib), net) \<Rightarrow> (x, (ib, net)) | None \<Rightarrow> (MARKER_EOS, s))"

lemma chan_rd_ok:
  assumes "chan_inv (fst s) (snd s)" "msg_view s \<noteq> []"
  shows "fst (chan_rd s) = hd (msg_view s)" "msg_view (snd (chan_rd s)) = tl (msg_view s)"
    "chan_inv (fst (snd (chan_rd s))) (snd (snd (chan_rd s)))"
proof -
  have a: "ib_handling_msg (fst s) = HandleMsgActive" "chan_view (fst s) (snd s) \<noteq> []"
    using assms(2) by (auto simp: msg_view_def split: if_splits)
  obtain ib' net' where r: "tcp_read_stream (fst s) (snd s) = Some ((hd (chan_view (fst s) (snd s)), ib'), net')"
      "chan_inv ib' net'" "chan_view ib' net' = tl (chan_view (fst s) (snd s))"
      "ib_handling_msg ib' = HandleMsgActive \<longleftrightarrow> hd (chan_view (fst s) (snd s)) \<noteq> MARKER_EOM"
    using read_stream_chan [OF assms(1) a] by blast
  then show "fst (chan_rd s) = hd (msg_view s)" "chan_inv (fst (snd (chan_rd s))) (snd (snd (chan_rd s)))"
    using a msg_part_hd [OF a(2)] by (simp_all add: chan_rd_def msg_view_def)
  show "msg_view (snd (chan_rd s)) = tl (msg_view s)"
    using r a msg_part_tl [OF a(2)] by (auto simp: chan_rd_def msg_view_def)
qed

lemma chan_pk_ok:
  assumes "chan_inv (fst s) (snd s)" "msg_view s \<noteq> []"
  shows "fst (chan_pk s) = hd (msg_view s)" "msg_view (snd (chan_pk s)) = msg_view s"
    "chan_inv (fst (snd (chan_pk s))) (snd (snd (chan_pk s)))"
proof -
  have a: "ib_handling_msg (fst s) = HandleMsgActive" "chan_view (fst s) (snd s) \<noteq> []"
    using assms(2) by (auto simp: msg_view_def split: if_splits)
  from peek_stream_chan [OF assms(1) a] a msg_part_hd [OF a(2)]
  show "fst (chan_pk s) = hd (msg_view s)" "msg_view (snd (chan_pk s)) = msg_view s"
    "chan_inv (fst (snd (chan_pk s))) (snd (snd (chan_pk s)))"
    by (auto simp: chan_pk_def msg_view_def)
qed

interpretation chan: symbol_source chan_rd chan_pk msg_view "\<lambda>s. chan_inv (fst s) (snd s)"
  by unfold_locales (auto simp: chan_rd_ok chan_pk_ok)

section \<open>Runs\<close>

text \<open>
  A run of the receiving side: data arrives, the event loop starts the handler (\<open>handle_channel_msg\<close>),
  and the handler reads or peeks, up to the first time that it sees the end of the stream. \<open>log\<close> is
  what the handler has read.
\<close>

type_synonym chan_state = "InputBuf \<times> byte list list \<times> sym list"

inductive chan_step :: "chan_state \<Rightarrow> chan_state \<Rightarrow> bool" where
  arrive: "ib_read ib \<noteq> None \<Longrightarrow> net \<noteq> [] \<Longrightarrow> chan_step (ib, net, log) (case tcp_read_done ib net of (ib1, net1) \<Rightarrow> (ib1, net1, log))"
| start: "ib_handling_msg ib = HandleMsgTriggered \<Longrightarrow> 0 < ib_message_count ib \<Longrightarrow> ibuf_start_message ib = Some (r, ib1) \<Longrightarrow>
    chan_step (ib, net, log) (ib1, net, log)"
| read: "ib_handling_msg ib = HandleMsgActive \<Longrightarrow> tcp_read_stream ib net = Some ((x, ib1), net1) \<Longrightarrow> x \<noteq> MARKER_EOS \<Longrightarrow>
    chan_step (ib, net, log) (ib1, net1, log @ [x])"
| peek: "ib_handling_msg ib = HandleMsgActive \<Longrightarrow> tcp_peek_stream ib net = Some ((x, ib1), net1) \<Longrightarrow> x \<noteq> MARKER_EOS \<Longrightarrow>
    chan_step (ib, net, log) (ib1, net1, log)"

inductive_cases chan_stepE: "chan_step (ib, net, log) s"

abbreviation chan_run :: "chan_state \<Rightarrow> chan_state \<Rightarrow> bool" where
  "chan_run \<equiv> chan_step\<^sup>*\<^sup>*"

text \<open>\<open>start_channel\<close> requests the first read.\<close>

definition chan_initial :: "byte list \<Rightarrow> byte list list \<Rightarrow> chan_state" where
  "chan_initial mem net = (ibuf_trigger_read (ibuf_init mem), net, [])"

definition chan_good :: "sym list \<Rightarrow> chan_state \<Rightarrow> bool" where
  "chan_good all s = (case s of (ib, net, log) \<Rightarrow> chan_inv ib net \<and> \<not> ib_eof ib \<and> all = log @ chan_view ib net)"

text \<open>What the peer may send.\<close>

definition wire_ok :: "byte list list \<Rightarrow> bool" where
  "wire_ok net \<longleftrightarrow> good d0 (concat net) \<and> MARKER_EOS \<notin> set (syms (concat net)) \<and> [] \<notin> set net"

lemma initial_good:
  assumes "wire_ok net" "2 \<le> length mem"
  shows "chan_good (syms (concat net)) (chan_initial mem net)"
proof -
  let ?i = "ibuf_init mem"
  have o: "ok 0 ?i net" and v: "ahead 0 ?i net = syms (concat net)"
    using assms by (auto simp: ok_def ahead_def place_def read_ok_def msgs_def ring_def slice_def ibuf_init_def wire_ok_def)
  have w: "window 0 ?i = []" by (simp add: window_def slice_def ibuf_init_def)
  have p: "place 0 ?i" "read_ok ?i" using o by (simp_all add: ok_def)
  obtain a where k: "keeps 0 ?i a (ibuf_trigger_read ?i)" using trigger_read_keeps [OF p] by blast
  define jb where "jb = ibuf_trigger_read ?i"
  have "wrap_cur ?i = ?i" using assms(2) by (auto simp: wrap_cur_def ibuf_init_def)
  then have "0 < room (wrap_cur ?i)" "\<not> ib_eof ?i" using assms(2) by (simp_all add: room_def ibuf_init_def)
  then have rd: "ib_read jb \<noteq> None" using trigger_read_posts by (simp add: jb_def)
  have a: "a = ib_end jb" "ib_handling_msg jb = HandleMsgIdle" "\<not> ib_eof jb"
    using k by (simp_all add: keeps_def jb_def) (simp_all add: ibuf_init_def)
  show ?thesis
    using ok_keeps [OF o k] a rd v w by (simp add: chan_good_def chan_initial_def chan_inv_def chan_view_def flip: jb_def)
qed

lemma arrive_good:
  assumes "chan_good all (ib, net, log)" "ib_read ib \<noteq> None" "net \<noteq> []"
  shows "\<exists>ib1 net1. tcp_read_done ib net = (ib1, net1) \<and> chan_good all (ib1, net1, log) \<and>
    length (concat net1) < length (concat net) \<and> chan_view ib1 net1 = chan_view ib net \<and>
    (ib_handling_msg ib = HandleMsgActive \<longrightarrow> ib_handling_msg ib1 = HandleMsgActive)"
proof -
  have g: "ok (ib_end ib) ib net" "\<not> ib_eof ib" "ib_handling_msg ib = HandleMsgActive \<longrightarrow> 0 < ib_message_count ib"
    using assms(1) by (simp_all add: chan_good_def chan_inv_def)
  obtain a data ib1 net1 where r: "tcp_read_done ib net = (ib1, net1)" "data \<noteq> []" "receives (ib_end ib) ib data a ib1"
      "concat net = data @ concat net1" "ok a ib1 net1" "ib_handling_msg ib1 = HandleMsgIdle \<longrightarrow> ib_read ib1 \<noteq> None"
    using tcp_read_done_ok [OF g(1,2) assms(3,2)] by blast
  have a: "a = ib_end ib1" "ib_out_d ib1 = ib_out_d ib" "ring a ib1 = ring (ib_end ib) ib @ data"
      "window a ib1 = window (ib_end ib) ib" "\<not> ib_eof ib1" "msgs a ib1" "ib_message_count ib \<le> ib_message_count ib1"
      "ib_handling_msg ib1 = HandleMsgActive \<longleftrightarrow> ib_handling_msg ib = HandleMsgActive"
    using r(3) g(2) unfolding receives_def by blast+
  have v: "chan_view ib1 net1 = chan_view ib net" using a r(4) by (simp add: chan_view_def ahead_def)
  have "0 < ib_message_count ib1" if "ib_handling_msg ib1 = HandleMsgActive"
    using that g(3) a(7,8) by linarith
  then have "chan_inv ib1 net1" using r(5,6) a(1) by (simp add: chan_inv_def)
  then show ?thesis using r(1,2,4) a(5,8) v assms(1) by (simp add: chan_good_def)
qed
lemma start_good:
  assumes "chan_good all (ib, net, log)" "ib_handling_msg ib = HandleMsgTriggered" "0 < ib_message_count ib"
  shows "\<exists>ib1. ibuf_start_message ib = Some (1, ib1) \<and> chan_good all (ib1, net, log) \<and>
    ib_handling_msg ib1 = HandleMsgActive \<and> chan_view ib1 net = chan_view ib net"
proof -
  let ?jb = "ib\<lparr>ib_handling_msg := HandleMsgActive\<rparr>"
  have g: "ok (ib_end ib) ib net" "\<not> ib_eof ib" using assms(1) by (simp_all add: chan_good_def chan_inv_def)
  have "msgs (ib_end ib) ?jb" using g(1) assms(2,3) by (auto simp: ok_def msgs_def split: if_splits)
  then have "ok (ib_end ib) ?jb net" using g(1) by (simp add: ok_def)
  moreover have "chan_view ?jb net = chan_view ib net" by (simp add: chan_view_def ahead_def)
  ultimately show ?thesis using assms g(2) by (simp add: ibuf_start_message_def chan_good_def chan_inv_def)
qed

lemma read_eof:
  assumes "chan_inv ib net" "ib_handling_msg ib = HandleMsgActive" "chan_view ib net = []"
  shows "\<exists>ib'. tcp_read_stream ib net = Some ((MARKER_EOS, ib'), []) \<and> ib_eof ib'"
    "\<exists>ib'. tcp_peek_stream ib net = Some ((MARKER_EOS, ib'), []) \<and> ib_eof ib'"
proof -
  have "place (ib_end ib) ib" using assms(1) by (simp add: chan_inv_def ok_def)
  then have c: "\<not> ib_cur ib < ib_end ib" using window_Cons [of ib] assms(3) by (auto simp: chan_view_def)
  then show "\<exists>ib'. tcp_read_stream ib net = Some ((MARKER_EOS, ib'), []) \<and> ib_eof ib'"
    "\<exists>ib'. tcp_peek_stream ib net = Some ((MARKER_EOS, ib'), []) \<and> ib_eof ib'"
    using get_more_chan [OF assms(1,2) c] assms(3) by (simp_all add: returns_def tcp_read_stream_def tcp_peek_stream_def)
qed

lemma read_good:
  assumes "chan_good all (ib, net, log)" "ib_handling_msg ib = HandleMsgActive" "chan_view ib net \<noteq> []"
  shows "\<exists>x ib1 net1. tcp_read_stream ib net = Some ((x, ib1), net1) \<and> x \<noteq> MARKER_EOS \<and> chan_good all (ib1, net1, log @ [x]) \<and>
    chan_view ib net = x # chan_view ib1 net1"
proof -
  have inv: "chan_inv ib net" using assms(1) by (simp add: chan_good_def)
  obtain ib1 net1 where r: "tcp_read_stream ib net = Some ((hd (chan_view ib net), ib1), net1)" "chan_inv ib1 net1"
      "ib_eof ib1 = ib_eof ib" "chan_view ib1 net1 = tl (chan_view ib net)"
    using read_stream_chan [OF inv assms(2,3)] by blast
  have v: "chan_view ib net = hd (chan_view ib net) # chan_view ib1 net1" using r(4) assms(3) by simp
  have "MARKER_EOS \<notin> set (chan_view ib net)"
    using inv by (auto simp: chan_inv_def ok_def chan_view_def ahead_def)
  then have "hd (chan_view ib net) \<noteq> MARKER_EOS" using assms(3) by (metis hd_in_set)
  moreover have "chan_good all (ib1, net1, log @ [hd (chan_view ib net)])"
    using assms(1) r(2,3) v by (simp add: chan_good_def)
  ultimately show ?thesis using r(1) v by blast
qed

lemma step_good:
  assumes "chan_step s t" "chan_good all s"
  shows "chan_good all t"
  using assms
proof (induction rule: chan_step.induct)
  case (arrive ib net log)
  then show ?case using arrive_good [of all ib net log] by auto
next
  case (start ib r ib1 net log)
  then show ?case using start_good [of all ib net log] by auto
next
  case (read ib net x ib1 net1 log)
  then have "chan_inv ib net" by (simp add: chan_good_def)
  with read have "chan_view ib net \<noteq> []" using read_eof(1) [of ib net] by auto
  with read show ?case using read_good [of all ib net log] by auto
next
  case (peek ib net x ib1 net1 log)
  then have inv: "chan_inv ib net" by (simp add: chan_good_def)
  with peek have "chan_view ib net \<noteq> []" using read_eof(2) [of ib net] by auto
  with peek inv show ?case using peek_stream_chan [of ib net] by (auto simp: chan_good_def)
qed

lemma run_good: "chan_run s t \<Longrightarrow> chan_good all s \<Longrightarrow> chan_good all t"
  by (induction rule: rtranclp_induct) (auto intro: step_good)

lemma prefix_view: "chan_good all (ib, net, log) \<Longrightarrow> prefix log all"
  by (simp add: chan_good_def)

text \<open>As long as there is a complete message there is something to do, and it makes progress.\<close>

definition chan_less :: "chan_state rel" where
  "chan_less = measures [\<lambda>(ib, net, log). length (chan_view ib net),
     \<lambda>(ib, net, log). 2 * length (concat net) + (if ib_handling_msg ib = HandleMsgActive then 0 else 1)]"

lemma idle_data:
  assumes "chan_inv ib net" "ib_handling_msg ib = HandleMsgIdle" "\<not> ib_eof ib" "MARKER_EOM \<in> set (chan_view ib net)"
  shows "ib_read ib \<noteq> None" "net \<noteq> []"
proof -
  show "ib_read ib \<noteq> None" using assms(1-3) by (simp add: chan_inv_def)
  have "ib_message_count ib = 0" "msgs (ib_end ib) ib" using assms(1,2) by (simp_all add: chan_inv_def ok_def msgs_def)
  then have "-1 \<notin> set (fst (decode (ib_out_d ib) (ring (ib_end ib) ib)))"
    by (auto simp: msgs_def eoms_def filter_empty_conv split: if_splits)
  then show "net \<noteq> []" using assms(4) by (auto simp: chan_view_def ahead_def)
qed

lemma progress:
  assumes g: "chan_good all s" and e: "s = (ib, net, log)" "MARKER_EOM \<in> set (chan_view ib net)"
  shows "\<exists>t. chan_step s t \<and> (t, s) \<in> chan_less"
proof (cases "ib_handling_msg ib")
  case HandleMsgIdle
  have "chan_inv ib net" "\<not> ib_eof ib" using g e(1) by (simp_all add: chan_good_def)
  note i = idle_data [OF this(1) HandleMsgIdle this(2) e(2)]
  from arrive_good [OF g [unfolded e(1)] i] obtain ib1 net1 where a: "tcp_read_done ib net = (ib1, net1)"
      "length (concat net1) < length (concat net)" "chan_view ib1 net1 = chan_view ib net" by blast
  have "chan_step s (ib1, net1, log)" using chan_step.arrive [OF i, of log] a(1) e(1) by simp
  moreover have "((ib1, net1, log), s) \<in> chan_less" using a(2,3) e(1) HandleMsgIdle by (simp add: chan_less_def)
  ultimately show ?thesis by blast
next
  case HandleMsgTriggered
  have "chan_inv ib net" using g e(1) by (simp add: chan_good_def)
  then have "0 < ib_message_count ib" using HandleMsgTriggered by (simp add: chan_inv_def ok_def msgs_def split: if_splits)
  from start_good [OF g [unfolded e(1)] HandleMsgTriggered this] chan_step.start [OF HandleMsgTriggered this, of 1 _ net log]
  show ?thesis using HandleMsgTriggered e(1) by (fastforce simp: chan_less_def)
next
  case HandleMsgActive
  have "chan_view ib net \<noteq> []" using e(2) by auto
  from read_good [OF g [unfolded e(1)] HandleMsgActive this] obtain x ib1 net1 where r:
      "tcp_read_stream ib net = Some ((x, ib1), net1)" "x \<noteq> MARKER_EOS" "chan_view ib net = x # chan_view ib1 net1" by blast
  have "chan_step s (ib1, net1, log @ [x])" unfolding e(1) by (rule chan_step.read [OF HandleMsgActive r(1,2)])
  moreover have "((ib1, net1, log @ [x]), s) \<in> chan_less" using r(3) e(1) by (simp add: chan_less_def)
  ultimately show ?thesis by blast
qed

lemma chan_less_wf: "wf chan_less"
  by (simp add: chan_less_def)

lemma reads_all:
  "chan_good all s \<Longrightarrow> \<exists>ib net log. chan_run s (ib, net, log) \<and> chan_good all (ib, net, log) \<and> MARKER_EOM \<notin> set (chan_view ib net)"
proof (induction s rule: wf_induct_rule [OF chan_less_wf])
  case (1 s)
  obtain ib net log where s: "s = (ib, net, log)" by (cases s)
  show ?case
  proof (cases "MARKER_EOM \<in> set (chan_view ib net)")
    case True
    with progress [OF 1(2) s] obtain t where t: "chan_step s t" "(t, s) \<in> chan_less" by blast
    from 1(1) [OF t(2) step_good [OF t(1) 1(2)]] t(1) show ?thesis by (meson converse_rtranclp_into_rtranclp)
  next
    case False
    with 1(2) s show ?thesis by blast
  qed
qed

lemma good_delivers:
  assumes g: "chan_good all s" and l: "last all = MARKER_EOM"
  shows "\<exists>ib net. chan_run s (ib, net, all)"
proof -
  from reads_all [OF g] obtain ib net1 log where r: "chan_run s (ib, net1, log)" "chan_good all (ib, net1, log)"
      "MARKER_EOM \<notin> set (chan_view ib net1)" by blast
  then have all: "all = log @ chan_view ib net1" by (simp add: chan_good_def)
  have "chan_view ib net1 = []"
  proof (rule ccontr)
    assume "chan_view ib net1 \<noteq> []"
    with all l r(3) show False by (metis last_appendR last_in_set)
  qed
  with all r(1) show ?thesis by auto
qed

text \<open>A connection that delivers one message in two pieces, cut inside of an escape sequence.\<close>

abbreviation two_pieces :: "byte list list" where
  "two_pieces \<equiv> [[65, 3], [1]]"

lemma two_pieces_ok: "wire_ok two_pieces" "syms (concat two_pieces) = [65, -1]"
  by code_simp+

lemma two_pieces_run: "\<exists>ib net. chan_run (chan_initial (replicate 8 0) two_pieces) (ib, net, [65, -1])"
  by (rule good_delivers) (use initial_good [OF two_pieces_ok(1), of "replicate 8 0"] two_pieces_ok(2) in simp_all)

section \<open>Properties\<close>

text \<open>
  However the data of the peer is cut into pieces, and in whatever order arrival, dispatch, reads and
  peeks are interleaved, what the message handler has read is a prefix of the symbols that the bytes
  on the wire mean. Buffer wrap around, buffer growth, blocks of binary data and messages that
  do not fit the buffer make no difference.
\<close>

theorem tcp_channel_reads:
  assumes "wire_ok net" "2 \<le> length mem" "chan_run (chan_initial mem net) (ib, net1, log)"
  shows "prefix log (syms (concat net))"
  using run_good [OF assms(3) initial_good [OF assms(1,2)]] by (rule prefix_view)

theorem tcp_channel_reads_witness:
  "\<exists>ib net1. chan_run (chan_initial (replicate 8 0) two_pieces) (ib, net1, [65, -1]) \<and>
     prefix [65, -1] (syms (concat two_pieces))"
proof -
  from two_pieces_run obtain ib net1 where r: "chan_run (chan_initial (replicate 8 0) two_pieces) (ib, net1, [65, -1])" by blast
  from tcp_channel_reads [OF two_pieces_ok(1) _ r] r show ?thesis by auto
qed



text \<open>
  No message is lost or stuck: when the data ends with the end of a message, every run can be
  continued until all of it has been read.
\<close>

theorem tcp_channel_delivers:
  assumes "wire_ok net" "2 \<le> length mem" "chan_run (chan_initial mem net) s"
    and "last (syms (concat net)) = MARKER_EOM"
  shows "\<exists>ib net1. chan_run s (ib, net1, syms (concat net))"
  by (rule good_delivers [OF run_good [OF assms(3) initial_good [OF assms(1,2)]] assms(4)])

theorem tcp_channel_delivers_witness:
  "\<exists>ib net1. chan_run (chan_initial (replicate 8 0) two_pieces) (ib, net1, syms (concat two_pieces))"
  by (rule tcp_channel_delivers [of two_pieces "replicate 8 0"]) (use two_pieces_ok in simp_all)

text \<open>
  A message is read as a whole: while a message is handled, reading symbol by symbol returns it
  and its end marker, and nothing beyond.
\<close>

theorem tcp_message_read:
  assumes "chan_inv ib net" "ib_handling_msg ib = HandleMsgActive"
    and "chan_view ib net = msg @ MARKER_EOM # rest" "MARKER_EOM \<notin> set msg"
  shows "fst (chan.rd_n (length msg + 1) (ib, net)) = msg @ [MARKER_EOM] \<and>
    msg_view (snd (chan.rd_n (length msg + 1) (ib, net))) = []"
proof -
  have "msg_part (msg @ MARKER_EOM # rest) = msg @ [MARKER_EOM]" using assms(4) by (induction msg) auto
  then have "msg_view (ib, net) = (msg @ [MARKER_EOM]) @ []" using assms(2,3) by (simp add: msg_view_def)
  with chan.rd_n_prefix [of "(ib, net)" "msg @ [MARKER_EOM]" "[]"] assms(1) show ?thesis by simp
qed

text \<open>The state in which the handler of a message has just been started.\<close>

definition one_active :: InputBuf where
  "one_active = snd (the (ibuf_start_message
     (fst (tcp_read_done (ibuf_trigger_read (ibuf_init (replicate 8 0))) [[65, 3, 1]]))))"

theorem tcp_message_read_witness:
  "chan_inv one_active [] \<and> fst (chan.rd_n 2 (one_active, [])) = [65, -1]"
proof -
  have "chan_inv one_active []" "ib_handling_msg one_active = HandleMsgActive" "chan_view one_active [] = [65] @ MARKER_EOM # []"
    by code_simp+
  with tcp_message_read [of one_active "[]" "[65]" "[]"] show ?thesis by (simp add: numeral_2_eq_2)
qed

definition long_waiting :: InputBuf where
  "long_waiting = (ibuf_init (replicate 8 0))\<lparr>ib_long_msg := True, ib_message_count := 1, ib_handling_msg := HandleMsgActive\<rparr>"


definition eof_at_end :: InputBuf where
  "eof_at_end = (ibuf_init [7, 7])\<lparr>ib_cur := 2, ib_end := 2, ib_eof := True, ib_message_count := 1, ib_handling_msg := HandleMsgActive\<rparr>"

text \<open>
  Reading on after the end of the stream: \<open>cur\<close> goes back to the start of the buffer and \<open>end\<close> stays
  where it is, so that after the end of stream marker the next read returns an old byte.
\<close>

theorem stale_after_eof:
  "chan_inv eof_at_end [] \<and>
     map_option (\<lambda>r. fst (fst r)) (tcp_read_stream eof_at_end []) = Some MARKER_EOS \<and>
     map_option (\<lambda>r. fst (fst r)) (Option.bind (tcp_read_stream eof_at_end []) (\<lambda>r. tcp_read_stream (snd (fst r)) (snd r))) = Some 7"
  by code_simp



end
