(* ===== verification/VM.thy ===== *)
theory VM
  imports Prelude
begin

text \<open>
  The virtual machine that executes DWARF expressions: src/agent/tcf/services/vm.c, with the types of
  src/agent/tcf/framework/cpudefs.h.

  \<open>vm\<close> is \<open>LocationExpressionState\<close> together with the static variables of vm.c (\<open>reg_def\<close>,
  \<open>value_addr\<close> with \<open>value_size\<close>, \<open>implicit_pointer\<close>, \<open>code_pos\<close>, \<open>code_len\<close>). The evaluation stack is a list,
  top first, of the entries of \<open>stk\<close> and \<open>type_stk\<close>; \<open>stk_pos\<close> is its length. What the machine asks of the
  debugger (memory, registers, stack frames, symbols) and the client call back is the record \<open>vm_env\<close>.

  Two things can go wrong: an exception is raised, or C leaves the behaviour undefined (a shift by
  the width of the type or more, an access outside of a buffer). The latter is the value \<open>Undefined\<close>.
\<close>

unbundle bit_operations_syntax

section \<open>State\<close>

datatype vm_fault = Raise tcf_error | Undefined

type_synonym 'a vmr = "vm_fault + 'a"

abbreviation inv_dwarf :: "'a vmr" where
  "inv_dwarf \<equiv> Inl (Raise ERR_INV_DWARF)"

definition lift_err :: "'a result \<Rightarrow> 'a vmr" where
  "lift_err r = (case r of Inl e \<Rightarrow> Inl (Raise e) | Inr x \<Rightarrow> Inr x)"

lemma lift_err_simps [simp]: "lift_err (Inl e) = Inl (Raise e)" "lift_err (Inr x) = Inr x"
  by (simp_all add: lift_err_def)

definition TYPE_CLASS_CARDINAL :: byte where "TYPE_CLASS_CARDINAL = 1"
definition TYPE_CLASS_INTEGER :: byte where "TYPE_CLASS_INTEGER = 2"

record 'r LocationPiece =
  lp_optimized_away :: bool
  lp_addr :: u64
  lp_reg :: "'r option"
  lp_value :: "byte list option"
  lp_size :: u64
  lp_bit_offs :: u32
  lp_bit_size :: u32
  lp_implicit_pointer :: u32

record ('r, 'f) vm =
  vm_frame :: "'f option"
  vm_args :: "u64 list"
  vm_code :: "byte list"
  vm_code_pos :: nat
  vm_code_len :: nat
  vm_big_endian :: bool
  vm_addr_size :: nat
  vm_pieces :: "'r LocationPiece list"
  vm_pieces_max :: nat
  vm_stk :: "(u64 \<times> byte) list"
  vm_stk_max :: nat
  vm_reg_def :: "'r option"
  vm_value :: "byte list option"
  vm_implicit :: u32

text \<open>
  \<open>ve_read_mem\<close> is \<open>context_read_mem\<close> (it returns as many bytes as asked for), \<open>ve_symbol_value\<close> is
  \<open>id2symbol\<close> and \<open>get_symbol_value\<close>, \<open>ve_entry_frame\<close> is \<open>get_prev_frame\<close> and \<open>get_frame_info\<close>.
\<close>

record ('r, 'f) vm_env =
  ve_read_mem :: "u64 \<Rightarrow> nat \<Rightarrow> byte list result"
  ve_reg_by_id :: "u32 \<Rightarrow> 'r result"
  ve_reg_size :: "'r \<Rightarrow> u64"
  ve_reg_value :: "'f option \<Rightarrow> 'r \<Rightarrow> u64 result"
  ve_frame_fp :: "'f \<Rightarrow> u64"
  ve_symbol_value :: "byte list \<Rightarrow> (byte list \<times> bool) result"
  ve_entry_frame :: "'f option \<Rightarrow> 'f option result"
  ve_read_pieces :: "'f option \<Rightarrow> 'r LocationPiece list \<Rightarrow> byte list result"
  ve_client_op :: "(byte \<Rightarrow> ('r, 'f) vm \<Rightarrow> ('r, 'f) vm result) option"

section \<open>Memory and operands\<close>

definition bytes_value :: "byte list \<Rightarrow> u64" where
  "bytes_value bs = fold (\<lambda>b n. push_bit 8 n OR ucast b) bs 0"

text \<open>The buffer of \<open>read_memory\<close> has eight bytes.\<close>

definition read_memory :: "('r, 'f) vm_env \<Rightarrow> ('r, 'f) vm \<Rightarrow> u64 \<Rightarrow> nat \<Rightarrow> u64 vmr" where
  "read_memory env s addr sz =
     (if sz > 8 then Inl Undefined
      else bindE (lift_err (ve_read_mem env addr sz))
        (\<lambda>buf. Inr (bytes_value (if vm_big_endian s then buf else rev buf))))"

definition read_u1 :: "('r, 'f) vm \<Rightarrow> (byte \<times> ('r, 'f) vm) vmr" where
  "read_u1 s =
     (if vm_code_pos s \<ge> vm_code_len s then inv_dwarf
      else if vm_code_pos s \<ge> length (vm_code s) then Inl Undefined
      else Inr (vm_code s ! vm_code_pos s, s\<lparr>vm_code_pos := vm_code_pos s + 1\<rparr>))"

definition read_u2 :: "('r, 'f) vm \<Rightarrow> (u16 \<times> ('r, 'f) vm) vmr" where
  "read_u2 s =
     bindE (read_u1 s) (\<lambda>(x0, s1). bindE (read_u1 s1) (\<lambda>(x1, s2).
       Inr (if vm_big_endian s then push_bit 8 (ucast x0) OR ucast x1 else ucast x0 OR push_bit 8 (ucast x1), s2)))"

definition read_u4 :: "('r, 'f) vm \<Rightarrow> (u32 \<times> ('r, 'f) vm) vmr" where
  "read_u4 s =
     bindE (read_u2 s) (\<lambda>(x0, s1). bindE (read_u2 s1) (\<lambda>(x1, s2).
       Inr (if vm_big_endian s then push_bit 16 (ucast x0) OR ucast x1 else ucast x0 OR push_bit 16 (ucast x1), s2)))"

definition read_u8 :: "('r, 'f) vm \<Rightarrow> (u64 \<times> ('r, 'f) vm) vmr" where
  "read_u8 s =
     bindE (read_u4 s) (\<lambda>(x0, s1). bindE (read_u4 s1) (\<lambda>(x1, s2).
       Inr (if vm_big_endian s then push_bit 32 (ucast x0) OR ucast x1 else ucast x0 OR push_bit 32 (ucast x1), s2)))"

lemma read_u1_pos:
  "read_u1 s = Inr (b, s') \<Longrightarrow> s' = s\<lparr>vm_code_pos := vm_code_pos s + 1\<rparr> \<and> vm_code_pos s < vm_code_len s"
  by (auto simp: read_u1_def split: if_splits)

text \<open>The loop of the LEB128 readers, for values of any width: the value, the last byte and its shift.\<close>

function leb_loop :: "nat \<Rightarrow> 'a::len word \<Rightarrow> ('r, 'f) vm \<Rightarrow> (('a word \<times> byte \<times> nat) \<times> ('r, 'f) vm) vmr" where
  "leb_loop i res s =
     bindE (read_u1 s) (\<lambda>(n, s1).
       if i \<ge> LENGTH('a) then Inl Undefined
       else
         (let res1 = res OR push_bit i (ucast (n AND 0x7F))
          in if n AND 0x80 = 0 then Inr ((res1, n, i), s1) else leb_loop (i + 7) res1 s1))"
  by pat_completeness auto
termination
  by (relation "measure (\<lambda>(i, res, s). vm_code_len s - vm_code_pos s)") (auto dest!: read_u1_pos)

declare leb_loop.simps [simp del]

definition read_u4leb128 :: "('r, 'f) vm \<Rightarrow> (u32 \<times> ('r, 'f) vm) vmr" where
  "read_u4leb128 s = bindE (leb_loop 0 0 s) (\<lambda>((res, n, i), s1). Inr (res, s1))"

definition read_u8leb128 :: "('r, 'f) vm \<Rightarrow> (u64 \<times> ('r, 'f) vm) vmr" where
  "read_u8leb128 s = bindE (leb_loop 0 0 s) (\<lambda>((res, n, i), s1). Inr (res, s1))"

definition read_i8leb128 :: "('r, 'f) vm \<Rightarrow> (u64 \<times> ('r, 'f) vm) vmr" where
  "read_i8leb128 s =
     bindE (leb_loop 0 0 s) (\<lambda>((res, n, i), s1). Inr (res OR push_bit i (- ucast (n AND 0x40)), s1))"

definition map_fst :: "('a \<Rightarrow> 'b) \<Rightarrow> ('a \<times> 's) vmr \<Rightarrow> ('b \<times> 's) vmr" where
  "map_fst f r = bindE r (\<lambda>(x, s). Inr (f x, s))"

definition read_ia :: "('r, 'f) vm \<Rightarrow> (u64 \<times> ('r, 'f) vm) vmr" where
  "read_ia s =
     (if vm_addr_size s = 1 then map_fst scast (read_u1 s)
      else if vm_addr_size s = 2 then map_fst scast (read_u2 s)
      else if vm_addr_size s = 4 then map_fst scast (read_u4 s)
      else if vm_addr_size s = 8 then read_u8 s
      else inv_dwarf)"

definition read_ua :: "('r, 'f) vm \<Rightarrow> (u64 \<times> ('r, 'f) vm) vmr" where
  "read_ua s =
     (if vm_addr_size s = 1 then map_fst ucast (read_u1 s)
      else if vm_addr_size s = 2 then map_fst ucast (read_u2 s)
      else if vm_addr_size s = 4 then map_fst ucast (read_u4 s)
      else if vm_addr_size s = 8 then read_u8 s
      else inv_dwarf)"

section \<open>Pieces\<close>

definition no_piece :: "'r LocationPiece" where
  "no_piece = \<lparr>lp_optimized_away = False, lp_addr = 0, lp_reg = None, lp_value = None, lp_size = 0,
     lp_bit_offs = 0, lp_bit_size = 0, lp_implicit_pointer = 0\<rparr>"

definition more_pieces :: "nat \<Rightarrow> nat \<Rightarrow> nat" where
  "more_pieces cnt mx = (if cnt \<ge> mx then mx + 4 else mx)"

text \<open>The new piece and the stack behind it; \<open>add_piece\<close> leaves the piece at the end of the list.\<close>

definition new_piece :: "('r, 'f) vm_env \<Rightarrow> ('r, 'f) vm \<Rightarrow> 'r LocationPiece \<times> (u64 \<times> byte) list" where
  "new_piece env s =
     (case vm_reg_def s of
        Some r \<Rightarrow> (no_piece\<lparr>lp_reg := Some r, lp_size := ve_reg_size env r\<rparr>, vm_stk s)
      | None \<Rightarrow>
          (case vm_value s of
             Some v \<Rightarrow> (no_piece\<lparr>lp_value := Some v, lp_size := of_nat (length v)\<rparr>, vm_stk s)
           | None \<Rightarrow>
               (case vm_stk s of
                  [] \<Rightarrow> (no_piece\<lparr>lp_optimized_away := True\<rparr>, [])
                | (a, _) # stk \<Rightarrow> (no_piece\<lparr>lp_addr := a\<rparr>, stk))))"

definition add_piece :: "('r, 'f) vm_env \<Rightarrow> ('r, 'f) vm \<Rightarrow> ('r, 'f) vm" where
  "add_piece env s =
     (let (p, stk) = new_piece env s
      in s\<lparr>vm_pieces := vm_pieces s @ [p\<lparr>lp_implicit_pointer := vm_implicit s\<rparr>],
           vm_pieces_max := more_pieces (length (vm_pieces s)) (vm_pieces_max s), vm_stk := stk,
           vm_implicit := 0, vm_value := None, vm_reg_def := None\<rparr>)"

definition last_piece :: "('r LocationPiece \<Rightarrow> 'r LocationPiece) \<Rightarrow> ('r, 'f) vm \<Rightarrow> ('r, 'f) vm" where
  "last_piece f s = s\<lparr>vm_pieces := butlast (vm_pieces s) @ [f (last (vm_pieces s))]\<rparr>"

definition is_end_of_loc_expr :: "('r, 'f) vm \<Rightarrow> bool" where
  "is_end_of_loc_expr s \<longleftrightarrow>
     vm_code_pos s \<ge> vm_code_len s \<or> vm_code s ! vm_code_pos s = 0x93 \<or> vm_code s ! vm_code_pos s = 0x9d \<or>
     vm_code s ! vm_code_pos s = 0xff"

section \<open>Instructions\<close>

definition push :: "u64 \<Rightarrow> byte \<Rightarrow> ('r, 'f) vm \<Rightarrow> ('r, 'f) vm" where
  "push v t s = s\<lparr>vm_stk := (v, t) # vm_stk s\<rparr>"

definition set_top :: "u64 \<Rightarrow> byte \<Rightarrow> ('r, 'f) vm \<Rightarrow> ('r, 'f) vm" where
  "set_top v t s = s\<lparr>vm_stk := (v, t) # tl (vm_stk s)\<rparr>"

definition push_read :: "byte \<Rightarrow> (u64 \<times> ('r, 'f) vm) vmr \<Rightarrow> ('r, 'f) vm vmr" where
  "push_read t r = bindE r (\<lambda>(v, s). Inr (push v t s))"

text \<open>\<open>OP_deref\<close>, \<open>OP_deref2\<close>, \<open>OP_deref_size\<close>\<close>

definition op_deref :: "('r, 'f) vm_env \<Rightarrow> byte \<Rightarrow> ('r, 'f) vm \<Rightarrow> ('r, 'f) vm vmr" where
  "op_deref env op s =
     (case vm_stk s of
        [] \<Rightarrow> inv_dwarf
      | (a, _) # _ \<Rightarrow>
          if op = 0x06
          then bindE (read_memory env s a (vm_addr_size s)) (\<lambda>v. Inr (set_top v TYPE_CLASS_CARDINAL s))
          else if op = 0x05
          then bindE (read_memory env s a 2) (\<lambda>v. Inr (set_top (scast (ucast v :: u16)) TYPE_CLASS_CARDINAL s))
          else bindE (read_u1 s) (\<lambda>(n, s1).
                 bindE (read_memory env s1 a (unat n)) (\<lambda>v. Inr (set_top v TYPE_CLASS_CARDINAL s1))))"

text \<open>\<open>OP_const\<close> to \<open>OP_consts\<close>\<close>

definition op_const :: "byte \<Rightarrow> ('r, 'f) vm \<Rightarrow> ('r, 'f) vm vmr" where
  "op_const op s =
     (if op = 0x04 then push_read TYPE_CLASS_CARDINAL (read_ia s)
      else if op = 0x08 then push_read TYPE_CLASS_CARDINAL (map_fst ucast (read_u1 s))
      else if op = 0x09 then push_read TYPE_CLASS_INTEGER (map_fst scast (read_u1 s))
      else if op = 0x0a then push_read TYPE_CLASS_CARDINAL (map_fst ucast (read_u2 s))
      else if op = 0x0b then push_read TYPE_CLASS_INTEGER (map_fst scast (read_u2 s))
      else if op = 0x0c then push_read TYPE_CLASS_CARDINAL (map_fst ucast (read_u4 s))
      else if op = 0x0d then push_read TYPE_CLASS_INTEGER (map_fst scast (read_u4 s))
      else if op = 0x0e then push_read TYPE_CLASS_CARDINAL (read_u8 s)
      else if op = 0x0f then push_read TYPE_CLASS_INTEGER (read_u8 s)
      else if op = 0x10 then push_read TYPE_CLASS_CARDINAL (read_u8leb128 s)
      else push_read TYPE_CLASS_INTEGER (read_i8leb128 s))"

text \<open>\<open>OP_dup\<close>, \<open>OP_drop\<close>, \<open>OP_over\<close>, \<open>OP_swap\<close>, \<open>OP_rot\<close>; the last one as the code has it\<close>

definition stack_shuffle :: "byte \<Rightarrow> (u64 \<times> byte) list \<Rightarrow> (u64 \<times> byte) list vmr" where
  "stack_shuffle op stk =
     (if op = 0x12 then (case stk of a # r \<Rightarrow> Inr (a # a # r) | _ \<Rightarrow> inv_dwarf)
      else if op = 0x13 then (case stk of a # r \<Rightarrow> Inr r | _ \<Rightarrow> inv_dwarf)
      else if op = 0x14 then (case stk of a # b # r \<Rightarrow> Inr (b # a # b # r) | _ \<Rightarrow> inv_dwarf)
      else if op = 0x16 then (case stk of a # b # r \<Rightarrow> Inr (b # a # r) | _ \<Rightarrow> inv_dwarf)
      else (case stk of (a, ta) # (b, tb) # (c, tc) # r \<Rightarrow> Inr ((b, tb) # (c, ta) # (a, tc) # r) | _ \<Rightarrow> inv_dwarf))"

definition op_stack :: "byte \<Rightarrow> ('r, 'f) vm \<Rightarrow> ('r, 'f) vm vmr" where
  "op_stack op s =
     (if op = 0x15
      then bindE (read_u1 s) (\<lambda>(n, s1).
             if length (vm_stk s1) < unat n + 1 then inv_dwarf
             else Inr (s1\<lparr>vm_stk := vm_stk s1 ! unat n # vm_stk s1\<rparr>))
      else bindE (stack_shuffle op (vm_stk s)) (\<lambda>stk. Inr (s\<lparr>vm_stk := stk\<rparr>)))"

text \<open>\<open>OP_xderef\<close>, \<open>OP_xderef_size\<close>\<close>

definition op_xderef :: "('r, 'f) vm_env \<Rightarrow> byte \<Rightarrow> ('r, 'f) vm \<Rightarrow> ('r, 'f) vm vmr" where
  "op_xderef env op s =
     (case vm_stk s of
        (a, _) # _ # r \<Rightarrow>
          if op = 0x18
          then bindE (read_memory env s a (vm_addr_size s)) (\<lambda>v. Inr (s\<lparr>vm_stk := (v, TYPE_CLASS_CARDINAL) # r\<rparr>))
          else bindE (read_u1 s) (\<lambda>(n, s1).
                 bindE (read_memory env s1 a (unat n)) (\<lambda>v. Inr (s1\<lparr>vm_stk := (v, TYPE_CLASS_CARDINAL) # r\<rparr>)))
      | _ \<Rightarrow> inv_dwarf)"

text \<open>\<open>OP_abs\<close>, \<open>OP_neg\<close>, \<open>OP_not\<close>, \<open>OP_plus_uconst\<close>\<close>

definition op_unary :: "byte \<Rightarrow> ('r, 'f) vm \<Rightarrow> ('r, 'f) vm vmr" where
  "op_unary op s =
     (case vm_stk s of
        [] \<Rightarrow> inv_dwarf
      | (a, t) # _ \<Rightarrow>
          if op = 0x19 then Inr (if sint a < 0 then set_top (NOT a + 1) t s else s)
          else if op = 0x1f then Inr (set_top (NOT a + 1) t s)
          else if op = 0x20 then Inr (set_top (NOT a) t s)
          else bindE (read_u8leb128 s) (\<lambda>(n, s1). Inr (set_top (a + n) t s1)))"

primrec shra_loop :: "nat \<Rightarrow> u64 \<Rightarrow> u64" where
  "shra_loop 0 d = d"
| "shra_loop (Suc cnt) d =
     shra_loop cnt (if d AND push_bit 63 1 \<noteq> 0 then drop_bit 1 d OR push_bit 63 1 else drop_bit 1 d)"

definition shra :: "u64 \<Rightarrow> u64 \<Rightarrow> u64" where
  "shra d cnt = (if cnt \<ge> 64 then (if d AND push_bit 63 1 \<noteq> 0 then NOT 0 else 0) else shra_loop (unat cnt) d)"

text \<open>The binary operations: the lower operand, then the upper one.\<close>

definition binary_value :: "byte \<Rightarrow> u64 \<Rightarrow> u64 \<Rightarrow> u64 vmr" where
  "binary_value op a b =
     (if op = 0x1a then Inr (a AND b)
      else if op = 0x1b then (if b = 0 then inv_dwarf else Inr (a div b))
      else if op = 0x1c then Inr (a - b)
      else if op = 0x1d then (if b = 0 then inv_dwarf else Inr (a mod b))
      else if op = 0x1e then Inr (a * b)
      else if op = 0x21 then Inr (a OR b)
      else if op = 0x07 \<or> op = 0x22 then Inr (a + b)
      else if op = 0x24 then (if b \<ge> 64 then Inl Undefined else Inr (push_bit (unat b) a))
      else if op = 0x25 then (if b \<ge> 64 then Inl Undefined else Inr (drop_bit (unat b) a))
      else if op = 0x26 then Inr (shra a b)
      else Inr (a XOR b))"

definition op_binary :: "byte \<Rightarrow> ('r, 'f) vm \<Rightarrow> ('r, 'f) vm vmr" where
  "op_binary op s =
     (case vm_stk s of
        (b, _) # (a, t) # r \<Rightarrow> bindE (binary_value op a b) (\<lambda>v. Inr (s\<lparr>vm_stk := (v, t) # r\<rparr>))
      | _ \<Rightarrow> inv_dwarf)"

definition compare_value :: "byte \<Rightarrow> u64 \<Rightarrow> u64 \<Rightarrow> bool" where
  "compare_value op a b =
     (if op = 0x29 then a = b else if op = 0x2a then a \<ge> b else if op = 0x2b then a > b
      else if op = 0x2c then a \<le> b else if op = 0x2d then a < b else a \<noteq> b)"

definition op_compare :: "byte \<Rightarrow> ('r, 'f) vm \<Rightarrow> ('r, 'f) vm vmr" where
  "op_compare op s =
     (case vm_stk s of
        (b, _) # (a, t) # r \<Rightarrow>
          Inr (s\<lparr>vm_stk := (if compare_value op a b then 1 else 0, TYPE_CLASS_CARDINAL) # r\<rparr>)
      | _ \<Rightarrow> inv_dwarf)"

text \<open>
  \<open>OP_bra\<close>, \<open>OP_skip\<close>. The position is unsigned in C: a jump in front of the code becomes a large number and
  is refused as one behind the code is.
\<close>

definition jump_by :: "u16 \<Rightarrow> ('r, 'f) vm \<Rightarrow> ('r, 'f) vm vmr" where
  "jump_by offs s =
     (let p = int (vm_code_pos s) + sint offs
      in if p < 0 \<or> p > int (vm_code_len s) then inv_dwarf else Inr (s\<lparr>vm_code_pos := nat p\<rparr>))"

definition op_bra :: "('r, 'f) vm \<Rightarrow> ('r, 'f) vm vmr" where
  "op_bra s =
     (case vm_stk s of
        [] \<Rightarrow> inv_dwarf
      | (v, _) # r \<Rightarrow>
          bindE (read_u2 s) (\<lambda>(offs, s1).
            bindE (if v \<noteq> 0 then jump_by offs s1 else Inr s1) (\<lambda>s2. Inr (s2\<lparr>vm_stk := r\<rparr>))))"

definition op_skip :: "('r, 'f) vm \<Rightarrow> ('r, 'f) vm vmr" where
  "op_skip s = bindE (read_u2 s) (\<lambda>(offs, s1). jump_by offs s1)"

definition op_lit :: "byte \<Rightarrow> ('r, 'f) vm \<Rightarrow> ('r, 'f) vm vmr" where
  "op_lit op s = Inr (push (ucast (op - 0x30)) TYPE_CLASS_CARDINAL s)"

text \<open>\<open>OP_reg0\<close> to \<open>OP_reg31\<close>, \<open>OP_regx\<close>, \<open>OP_reg\<close>\<close>

definition set_reg :: "('r, 'f) vm_env \<Rightarrow> u32 \<Rightarrow> ('r, 'f) vm \<Rightarrow> ('r, 'f) vm vmr" where
  "set_reg env n s =
     (if \<not> is_end_of_loc_expr s then inv_dwarf
      else bindE (lift_err (ve_reg_by_id env n)) (\<lambda>r. Inr (s\<lparr>vm_reg_def := Some r\<rparr>)))"

definition op_reg :: "('r, 'f) vm_env \<Rightarrow> byte \<Rightarrow> ('r, 'f) vm \<Rightarrow> ('r, 'f) vm vmr" where
  "op_reg env op s =
     (if op = 0x90 then bindE (read_u4leb128 s) (\<lambda>(n, s1). set_reg env n s1)
      else if op = 0x01 then bindE (read_ua s) (\<lambda>(n, s1). set_reg env (ucast n) s1)
      else set_reg env (ucast (op - 0x50)) s)"

text \<open>\<open>OP_breg0\<close> to \<open>OP_breg31\<close>, \<open>OP_bregx\<close>, \<open>OP_basereg\<close>\<close>

definition reg_value :: "('r, 'f) vm_env \<Rightarrow> u32 \<Rightarrow> ('r, 'f) vm \<Rightarrow> u64 vmr" where
  "reg_value env n s = bindE (lift_err (ve_reg_by_id env n)) (\<lambda>r. lift_err (ve_reg_value env (vm_frame s) r))"

definition push_based :: "('r, 'f) vm_env \<Rightarrow> u32 \<Rightarrow> ('r, 'f) vm \<Rightarrow> ('r, 'f) vm vmr" where
  "push_based env n s =
     bindE (reg_value env n s) (\<lambda>v. bindE (read_i8leb128 s) (\<lambda>(offs, s1). Inr (push (v + offs) TYPE_CLASS_CARDINAL s1)))"

definition op_breg :: "('r, 'f) vm_env \<Rightarrow> byte \<Rightarrow> ('r, 'f) vm \<Rightarrow> ('r, 'f) vm vmr" where
  "op_breg env op s =
     (if op = 0x92 then bindE (read_u4leb128 s) (\<lambda>(n, s1). push_based env n s1)
      else if op = 0x02
      then bindE (read_ua s) (\<lambda>(n, s1). bindE (reg_value env (ucast n) s1) (\<lambda>v. Inr (push v TYPE_CLASS_CARDINAL s1)))
      else push_based env (ucast (op - 0x70)) s)"

text \<open>\<open>OP_call_frame_cfa\<close>, \<open>OP_push_object_address\<close>\<close>

definition op_cfa :: "('r, 'f) vm_env \<Rightarrow> ('r, 'f) vm \<Rightarrow> ('r, 'f) vm vmr" where
  "op_cfa env s =
     (case vm_frame s of
        None \<Rightarrow> Inl (Raise ERR_INV_ADDRESS)
      | Some f \<Rightarrow> Inr (push (ve_frame_fp env f) TYPE_CLASS_CARDINAL s))"

definition op_object :: "('r, 'f) vm \<Rightarrow> ('r, 'f) vm vmr" where
  "op_object s =
     (case vm_args s of [] \<Rightarrow> Inl (Raise ERR_INV_CONT_OBJ) | a # _ \<Rightarrow> Inr (push a TYPE_CLASS_CARDINAL s))"

text \<open>\<open>OP_piece\<close>, \<open>OP_bit_piece\<close>\<close>

definition op_piece :: "('r, 'f) vm_env \<Rightarrow> byte \<Rightarrow> ('r, 'f) vm \<Rightarrow> ('r, 'f) vm vmr" where
  "op_piece env op s =
     (let s1 = add_piece env s in
      if op = 0x93
      then bindE (read_u4leb128 s1) (\<lambda>(n, s2). Inr (last_piece (\<lambda>p. p\<lparr>lp_size := ucast n\<rparr>) s2))
      else bindE (read_u4leb128 s1) (\<lambda>(n, s2). bindE (read_u4leb128 s2) (\<lambda>(offs, s3).
             Inr (last_piece (\<lambda>p. p\<lparr>lp_bit_size := n, lp_bit_offs := offs\<rparr>) s3))))"

text \<open>\<open>OP_implicit_value\<close>, \<open>OP_stack_value\<close>\<close>

primrec value_bytes :: "nat \<Rightarrow> u64 \<Rightarrow> byte list" where
  "value_bytes 0 n = []"
| "value_bytes (Suc k) n = ucast n # value_bytes k (drop_bit 8 n)"

definition set_value :: "byte list \<Rightarrow> ('r, 'f) vm \<Rightarrow> ('r, 'f) vm vmr" where
  "set_value v s = (if \<not> is_end_of_loc_expr s then inv_dwarf else Inr (s\<lparr>vm_value := Some v\<rparr>))"

definition op_value :: "byte \<Rightarrow> ('r, 'f) vm \<Rightarrow> ('r, 'f) vm vmr" where
  "op_value op s =
     (if op = 0x9e
      then bindE (read_u4leb128 s) (\<lambda>(n, s1).
             if vm_code_pos s1 + unat n > vm_code_len s1 then inv_dwarf
             else set_value (take (unat n) (drop (vm_code_pos s1) (vm_code s1)))
                    (s1\<lparr>vm_code_pos := vm_code_pos s1 + unat n\<rparr>))
      else
        (case vm_stk s of
           [] \<Rightarrow> inv_dwarf
         | (n, _) # r \<Rightarrow>
             (let buf = value_bytes (vm_addr_size s) n
              in set_value (if vm_big_endian s then rev buf else buf) (s\<lparr>vm_stk := r\<rparr>))))"

text \<open>\<open>OP_GNU_deref_type\<close>, \<open>OP_GNU_convert\<close>; the kinds of types are the \<open>ATE_*\<close> numbers.\<close>

definition is_unsigned_type :: "u32 \<Rightarrow> bool" where
  "is_unsigned_type t \<longleftrightarrow> t = 0x01 \<or> t = 0x07 \<or> t = 0x08 \<or> t = 0x0e \<or> t = 0x10"

definition is_signed_type :: "u32 \<Rightarrow> bool" where
  "is_signed_type t \<longleftrightarrow> t = 0x05 \<or> t = 0x06 \<or> t = 0x0d"

definition sign_bit :: "nat \<Rightarrow> u64" where
  "sign_bit sz = push_bit (sz * 8 - 1) 1"

definition op_deref_type :: "('r, 'f) vm_env \<Rightarrow> ('r, 'f) vm \<Rightarrow> ('r, 'f) vm vmr" where
  "op_deref_type env s =
     (case vm_stk s of
        [] \<Rightarrow> inv_dwarf
      | (a, _) # _ \<Rightarrow>
          bindE (read_u8leb128 s) (\<lambda>(msz, s1). bindE (read_u4leb128 s1) (\<lambda>(ftype, s2). bindE (read_u4leb128 s2) (\<lambda>(tsz, s3).
            let sz = min (unat msz) (unat tsz) in
            if is_unsigned_type ftype
            then bindE (read_memory env s3 a sz) (\<lambda>v. Inr (set_top v TYPE_CLASS_CARDINAL s3))
            else if ftype = 0x02
            then bindE (read_memory env s3 a sz) (\<lambda>v. Inr (set_top (if v \<noteq> 0 then 1 else 0) TYPE_CLASS_CARDINAL s3))
            else if is_signed_type ftype
            then bindE (read_memory env s3 a sz) (\<lambda>v.
                   if sz < 8
                   then (if sz = 0 then Inl Undefined
                         else Inr (set_top (if v AND sign_bit sz \<noteq> 0 then v OR NOT (sign_bit sz - 1) else v)
                                TYPE_CLASS_INTEGER s3))
                   else Inr (set_top v TYPE_CLASS_INTEGER s3))
            else inv_dwarf))))"

definition op_convert :: "('r, 'f) vm \<Rightarrow> ('r, 'f) vm vmr" where
  "op_convert s =
     (case vm_stk s of
        [] \<Rightarrow> inv_dwarf
      | (v, _) # _ \<Rightarrow>
          bindE (read_u4leb128 s) (\<lambda>(ftype, s1). bindE (read_u4leb128 s1) (\<lambda>(tsz, s2).
            let sz = unat tsz in
            if is_unsigned_type ftype
            then (if sz < 8
                  then (if sz = 0 then Inl Undefined else Inr (set_top (v AND (sign_bit sz - 1)) TYPE_CLASS_CARDINAL s2))
                  else Inr (set_top v TYPE_CLASS_CARDINAL s2))
            else if ftype = 0x02 then Inr (set_top (if v \<noteq> 0 then 1 else 0) TYPE_CLASS_CARDINAL s2)
            else if is_signed_type ftype
            then (if sz < 8
                  then (if sz = 0 then Inl Undefined
                        else Inr (set_top (if v AND sign_bit sz \<noteq> 0 then v OR NOT (sign_bit sz - 1) else v AND (sign_bit sz - 1))
                               TYPE_CLASS_INTEGER s2))
                  else Inr (set_top v TYPE_CLASS_INTEGER s2))
            else inv_dwarf)))"

text \<open>\<open>OP_GNU_variable_value\<close>: the symbol ID is a zero terminated string in the code.\<close>

definition or_bytes :: "bool \<Rightarrow> byte list \<Rightarrow> u64" where
  "or_bytes be bs =
     fold (\<lambda>(i, b) v. v OR push_bit (8 * (if be then length bs - i - 1 else i)) (ucast b)) (enumerate 0 bs) 0"

definition op_variable :: "('r, 'f) vm_env \<Rightarrow> ('r, 'f) vm \<Rightarrow> ('r, 'f) vm vmr" where
  "op_variable env s =
     (let rest = drop (vm_code_pos s) (vm_code s); id = takeWhile (\<lambda>b. b \<noteq> 0) rest in
      if 0 \<notin> set rest then Inl Undefined
      else bindE (lift_err (ve_symbol_value env id)) (\<lambda>(bs, be).
             if length bs > 8 then Inl Undefined
             else Inr (push (or_bytes be bs) TYPE_CLASS_CARDINAL (s\<lparr>vm_code_pos := vm_code_pos s + length id + 1\<rparr>))))"

text \<open>
  \<open>OP_TCF_offset\<close>: the pieces behind the offset. The loop has the bit position, the new pieces and their
  allocated number.
\<close>

fun offset_pieces ::
  "u32 \<Rightarrow> u32 \<Rightarrow> 'r LocationPiece list \<Rightarrow> 'r LocationPiece list \<times> nat \<Rightarrow> 'r LocationPiece list \<times> nat" where
  "offset_pieces offs bit_offs [] acc = acc"
| "offset_pieces offs bit_offs (p # ps) (acc, mx) =
     (let p0 = (if lp_bit_size p = 0 then p\<lparr>lp_bit_size := ucast (lp_size p * 8)\<rparr> else p) in
      if bit_offs + lp_bit_size p0 > offs * 8
      then
        (let p1 = (if bit_offs < offs * 8
                   then p0\<lparr>lp_bit_offs := lp_bit_offs p0 + (offs * 8 - bit_offs), lp_bit_size := lp_bit_size p0 - (offs * 8 - bit_offs)\<rparr>
                   else p0);
             p2 = (if lp_bit_offs p1 = 0 \<and> lp_bit_size p1 mod 8 = 0
                   then p1\<lparr>lp_size := ucast (lp_bit_size p1 div 8), lp_bit_size := 0\<rparr> else p1);
             p3 = p2\<lparr>lp_implicit_pointer := lp_implicit_pointer p2 + 1\<rparr>
         in offset_pieces offs (bit_offs + lp_bit_size p0) ps (acc @ [p3], more_pieces (length acc) mx))
      else offset_pieces offs (bit_offs + lp_bit_size p0) ps (acc, mx))"

definition offset_from :: "('r, 'f) vm \<Rightarrow> ('r, 'f) vm vmr" where
  "offset_from s =
     (if vm_pieces s \<noteq> []
      then bindE (read_u4leb128 s) (\<lambda>(offs, s1).
             let (ps, mx) = offset_pieces offs 0 (vm_pieces s1) ([], 0)
             in if ps = [] then inv_dwarf else Inr (s1\<lparr>vm_pieces := ps, vm_pieces_max := mx\<rparr>))
      else
        (case vm_stk s of
           [] \<Rightarrow> inv_dwarf
         | (a, t) # r \<Rightarrow>
             bindE (read_u8leb128 s) (\<lambda>(n, s1). Inr ((set_top (a + n) t s1)\<lparr>vm_implicit := vm_implicit s1 + 1\<rparr>))))"

definition op_offset :: "('r, 'f) vm_env \<Rightarrow> ('r, 'f) vm \<Rightarrow> ('r, 'f) vm vmr" where
  "op_offset env s = offset_from (if vm_reg_def s \<noteq> None \<or> vm_value s \<noteq> None then add_piece env s else s)"

text \<open>The default branch: the client, if there is one.\<close>

definition op_client :: "('r, 'f) vm_env \<Rightarrow> byte \<Rightarrow> ('r, 'f) vm \<Rightarrow> ('r, 'f) vm vmr" where
  "op_client env op s =
     (case ve_client_op env of None \<Rightarrow> Inl (Raise ERR_UNSUPPORTED) | Some f \<Rightarrow> lift_err (f op s))"

section \<open>Evaluation\<close>

definition OP_TCF_switch :: byte where "OP_TCF_switch = 0xfe"
definition OP_GNU_entry_value :: byte where "OP_GNU_entry_value = 0xf3"

text \<open>The instructions but \<open>OP_TCF_switch\<close> and \<open>OP_GNU_entry_value\<close>.\<close>

definition vm_op :: "('r, 'f) vm_env \<Rightarrow> byte \<Rightarrow> ('r, 'f) vm \<Rightarrow> ('r, 'f) vm vmr" where
  "vm_op env op s =
     (if op = 0x06 \<or> op = 0x05 \<or> op = 0x94 then op_deref env op s
      else if op = 0x04 \<or> 0x08 \<le> op \<and> op \<le> 0x11 then op_const op s
      else if 0x12 \<le> op \<and> op \<le> 0x17 then op_stack op s
      else if op = 0x18 \<or> op = 0x95 then op_xderef env op s
      else if op = 0x19 \<or> op = 0x1f \<or> op = 0x20 \<or> op = 0x23 then op_unary op s
      else if op = 0x07 \<or> 0x1a \<le> op \<and> op \<le> 0x1e \<or> op = 0x21 \<or> op = 0x22 \<or> 0x24 \<le> op \<and> op \<le> 0x27 then op_binary op s
      else if op = 0x28 then op_bra s
      else if 0x29 \<le> op \<and> op \<le> 0x2e then op_compare op s
      else if op = 0x2f then op_skip s
      else if 0x30 \<le> op \<and> op \<le> 0x4f then op_lit op s
      else if 0x50 \<le> op \<and> op \<le> 0x6f \<or> op = 0x90 \<or> op = 0x01 then op_reg env op s
      else if 0x70 \<le> op \<and> op \<le> 0x8f \<or> op = 0x92 \<or> op = 0x02 then op_breg env op s
      else if op = 0x9c then op_cfa env s
      else if op = 0x96 then Inr s
      else if op = 0x97 then op_object s
      else if op = 0x93 \<or> op = 0x9d then op_piece env op s
      else if op = 0x9e \<or> op = 0x9f then op_value op s
      else if op = 0xf4 \<or> op = 0xf5 then inv_dwarf
      else if op = 0xf6 then op_deref_type env s
      else if op = 0xf7 then op_convert s
      else if op = 0xfd then op_variable env s
      else if op = 0xff then op_offset env s
      else op_client env op s)"

text \<open>
  \<open>OP_TCF_switch\<close>: the case whose address range has the value on the stack is evaluated with the end of
  the case as the end of the code. \<open>ev\<close> is the evaluator; \<open>None\<close>: it does not return.
\<close>

lemma read_u2_pos:
  "read_u2 s = Inr (b, s') \<Longrightarrow> s' = s\<lparr>vm_code_pos := vm_code_pos s + 2\<rparr> \<and> vm_code_pos s + 1 < vm_code_len s"
  by (auto simp: read_u2_def bindE_Inr_iff dest!: read_u1_pos)

function switch_loop ::
  "(('r, 'f) vm \<Rightarrow> ('r, 'f) vm vmr option) \<Rightarrow> u64 \<Rightarrow> nat \<Rightarrow> ('r, 'f) vm \<Rightarrow> ('r, 'f) vm vmr option" where
  "switch_loop ev n end_pos s =
     bindOE (Some (read_u2 s)) (\<lambda>(offs, s1).
       let nxt_pos = vm_code_pos s1 + unat offs in
       if nxt_pos > end_pos then Some inv_dwarf
       else if nxt_pos = vm_code_pos s1 then Some (Inl (Raise ERR_OTHER))
       else bindOE (Some (read_u8leb128 s1)) (\<lambda>(addr, s2). bindOE (Some (read_u8leb128 s2)) (\<lambda>(size, s3).
              if size = 0 \<or> n \<ge> addr \<and> n - addr < size
              then bindOE (ev (s3\<lparr>vm_code_len := nxt_pos\<rparr>)) (\<lambda>s4. Some (Inr (s4\<lparr>vm_code_len := vm_code_len s3\<rparr>)))
              else switch_loop ev n end_pos (s3\<lparr>vm_code_pos := nxt_pos\<rparr>))))"
  by pat_completeness auto
termination
  by (relation "measure (\<lambda>(ev, n, end_pos, s). end_pos - vm_code_pos s)") (auto dest!: read_u2_pos)

declare switch_loop.simps [simp del]

definition op_switch :: "(('r, 'f) vm \<Rightarrow> ('r, 'f) vm vmr option) \<Rightarrow> ('r, 'f) vm \<Rightarrow> ('r, 'f) vm vmr option" where
  "op_switch ev s =
     (case vm_stk s of
        [] \<Rightarrow> Some inv_dwarf
      | (n, _) # r \<Rightarrow>
          bindOE (Some (read_u2 (s\<lparr>vm_stk := r\<rparr>))) (\<lambda>(offs, s1).
            let end_pos = vm_code_pos s1 + unat offs in
            if end_pos > vm_code_len s1 then Some inv_dwarf
            else bindOE (switch_loop ev n end_pos s1) (\<lambda>s2. Some (Inr (s2\<lparr>vm_code_pos := end_pos\<rparr>)))))"

text \<open>
  \<open>OP_GNU_entry_value\<close>: the expression that follows is evaluated in the calling frame, with a state of its own.
  A value that comes in pieces is put together with shifts of an \<open>int\<close>, which is defined for
  four bytes below \<open>2 ^ 31\<close> only.
\<close>

definition entry_state :: "nat \<Rightarrow> 'f option \<Rightarrow> ('r, 'f) vm \<Rightarrow> ('r, 'f) vm" where
  "entry_state sz frame s =
     \<lparr>vm_frame = frame, vm_args = [], vm_code = take sz (drop (vm_code_pos s) (vm_code s)), vm_code_pos = 0,
      vm_code_len = sz, vm_big_endian = vm_big_endian s, vm_addr_size = vm_addr_size s, vm_pieces = [],
      vm_pieces_max = 0, vm_stk = [], vm_stk_max = 0, vm_reg_def = None, vm_value = None, vm_implicit = 0\<rparr>"

definition int_bytes :: "byte list \<Rightarrow> u64 vmr" where
  "int_bytes bs =
     (if length bs > 4 \<or> length bs = 4 \<and> unat (bs ! 3) \<ge> 0x80 then Inl Undefined else Inr (or_bytes False bs))"

definition entry_result :: "('r, 'f) vm_env \<Rightarrow> ('r, 'f) vm \<Rightarrow> (u64 \<times> byte) vmr" where
  "entry_result env e =
     (if vm_pieces e \<noteq> []
      then bindE (lift_err (ve_read_pieces env (vm_frame e) (vm_pieces e))) (\<lambda>bs.
             if length bs > 8 then inv_dwarf
             else bindE (int_bytes bs) (\<lambda>v. Inr (v, TYPE_CLASS_CARDINAL)))
      else (case vm_stk e of [x] \<Rightarrow> Inr x | _ \<Rightarrow> inv_dwarf))"

definition op_entry_value ::
  "('r, 'f) vm_env \<Rightarrow> (('r, 'f) vm \<Rightarrow> ('r, 'f) vm vmr option) \<Rightarrow> ('r, 'f) vm \<Rightarrow> ('r, 'f) vm vmr option" where
  "op_entry_value env evx s =
     bindOE (Some (read_u4leb128 s)) (\<lambda>(sz, s1).
       bindOE (Some (lift_err (ve_entry_frame env (vm_frame s1)))) (\<lambda>frame.
         if vm_code_pos s1 + unat sz > length (vm_code s1) then Some (Inl Undefined)
         else bindOE (evx (entry_state (unat sz) frame s1)) (\<lambda>e. bindOE (Some (entry_result env e)) (\<lambda>(v, t).
                Some (Inr ((push v t s1)\<lparr>vm_code_pos := vm_code_pos s1 + unat sz,
                  vm_reg_def := None, vm_value := None, vm_implicit := 0\<rparr>))))))"

text \<open>The stack is kept large enough for any instruction.\<close>

definition fetch :: "('r, 'f) vm \<Rightarrow> byte \<times> ('r, 'f) vm" where
  "fetch s =
     (vm_code s ! vm_code_pos s,
      s\<lparr>vm_code_pos := vm_code_pos s + 1,
        vm_stk_max := (if length (vm_stk s) + 4 > vm_stk_max s then vm_stk_max s + 8 else vm_stk_max s)\<rparr>)"

text \<open>
  The loop of \<open>evaluate_expression\<close>. Backward jumps can keep it from ending, so it has fuel: one unit for each
  instruction. \<open>None\<close>: more is needed.
\<close>

definition not_empty :: "(('r, 'f) vm \<Rightarrow> ('r, 'f) vm vmr option) \<Rightarrow> ('r, 'f) vm \<Rightarrow> ('r, 'f) vm vmr option" where
  "not_empty ev s = (if vm_code_len s = 0 then Some inv_dwarf else ev s)"

definition finish :: "('r, 'f) vm_env \<Rightarrow> ('r, 'f) vm \<Rightarrow> ('r, 'f) vm" where
  "finish env s =
     (if vm_reg_def s \<noteq> None \<or> vm_value s \<noteq> None \<or> vm_implicit s \<noteq> 0 then add_piece env s else s)"

definition evaluate_with ::
  "('r, 'f) vm_env \<Rightarrow> (('r, 'f) vm \<Rightarrow> ('r, 'f) vm vmr option) \<Rightarrow> ('r, 'f) vm \<Rightarrow> ('r, 'f) vm vmr option" where
  "evaluate_with env ev s =
     bindOE (not_empty ev (s\<lparr>vm_implicit := 0, vm_value := None, vm_reg_def := None\<rparr>)) (\<lambda>s1. Some (Inr (finish env s1)))"

definition run_op ::
  "('r, 'f) vm_env \<Rightarrow> (('r, 'f) vm \<Rightarrow> ('r, 'f) vm vmr option) \<Rightarrow> byte \<Rightarrow> ('r, 'f) vm \<Rightarrow> ('r, 'f) vm vmr option" where
  "run_op env ev op s =
     (if op = OP_TCF_switch then op_switch (not_empty ev) s
      else if op = OP_GNU_entry_value then op_entry_value env (evaluate_with env ev) s
      else Some (vm_op env op s))"

primrec eval_loop :: "('r, 'f) vm_env \<Rightarrow> nat \<Rightarrow> ('r, 'f) vm \<Rightarrow> ('r, 'f) vm vmr option" where
  "eval_loop env 0 s = None"
| "eval_loop env (Suc fuel) s =
     (if vm_code_pos s \<ge> vm_code_len s then Some (Inr s)
      else if vm_code_pos s \<ge> length (vm_code s) then Some (Inl Undefined)
      else
        (let (op, s1) = fetch s in bindOE (run_op env (eval_loop env fuel) op s1) (eval_loop env fuel)))"

definition evaluate_expression :: "('r, 'f) vm_env \<Rightarrow> nat \<Rightarrow> ('r, 'f) vm \<Rightarrow> ('r, 'f) vm vmr option" where
  "evaluate_expression env fuel = not_empty (eval_loop env fuel)"

definition evaluate_vm_expression :: "('r, 'f) vm_env \<Rightarrow> nat \<Rightarrow> ('r, 'f) vm \<Rightarrow> ('r, 'f) vm vmr option" where
  "evaluate_vm_expression env fuel = evaluate_with env (eval_loop env fuel)"

lemma length_value_bytes [simp]: "length (value_bytes k v) = k"
  by (induction k arbitrary: v) simp_all

end
