(* ===== verification/VMBounds.thy ===== *)
theory VMBounds
  imports VM
begin

text \<open>
  What the instructions of the DWARF machine (theory VM) do to its memory and to the position in the code: the stack and
  the pieces stay in their bounds, and without backward jumps evaluation ends.
\<close>

unbundle bit_operations_syntax

section \<open>Reading operands\<close>

text \<open>A reader moves forward in the code and changes nothing else.\<close>

definition rd_ok :: "('r, 'f) vm \<Rightarrow> ('r, 'f) vm \<Rightarrow> bool" where
  "rd_ok s s' \<longleftrightarrow> (\<exists>p. s' = s\<lparr>vm_code_pos := p\<rparr> \<and> vm_code_pos s < p \<and> p \<le> vm_code_len s)"

lemma rd_ok_trans [trans]: "rd_ok s s1 \<Longrightarrow> rd_ok s1 s2 \<Longrightarrow> rd_ok s s2"
  by (auto simp: rd_ok_def)

lemma read_u1_ok: "read_u1 s = Inr (b, s') \<Longrightarrow> rd_ok s s'"
  using read_u1_pos [of s b s'] by (auto simp: rd_ok_def)

lemma read_u2_ok: "read_u2 s = Inr (b, s') \<Longrightarrow> rd_ok s s'"
  by (auto simp: read_u2_def bindE_Inr_iff intro: rd_ok_trans dest!: read_u1_ok)

lemma read_u4_ok: "read_u4 s = Inr (b, s') \<Longrightarrow> rd_ok s s'"
  by (auto simp: read_u4_def bindE_Inr_iff intro: rd_ok_trans dest!: read_u2_ok)

lemma read_u8_ok: "read_u8 s = Inr (b, s') \<Longrightarrow> rd_ok s s'"
  by (auto simp: read_u8_def bindE_Inr_iff intro: rd_ok_trans dest!: read_u4_ok)

lemma leb_loop_ok: "leb_loop i res s = Inr (x, s') \<Longrightarrow> rd_ok s s'"
proof (induction i res s arbitrary: x s' rule: leb_loop.induct)
  case (1 i res s)
  from 1(2) obtain n s1 where n: "read_u1 s = Inr (n, s1)"
    by (subst (asm) leb_loop.simps) (auto simp: bindE_Inr_iff)
  have r: "rd_ok s s1" by (rule read_u1_ok [OF n])
  show ?case
  proof (cases "n AND 0x80 = 0")
    case True
    with 1(2) n r show ?thesis by (subst (asm) leb_loop.simps) (auto split: if_splits)
  next
    case False
    with 1(2) n have "leb_loop (i + 7) (res OR push_bit i (ucast (n AND 0x7F))) s1 = Inr (x, s')" "\<not> i \<ge> LENGTH('a)"
      by (subst (asm) leb_loop.simps, auto split: if_splits)+
    with 1(1) n False have "rd_ok s1 s'" by auto
    with r show ?thesis by (rule rd_ok_trans)
  qed
qed

lemma read_leb_ok:
  "read_u4leb128 s = Inr (a, s') \<Longrightarrow> rd_ok s s'" "read_u8leb128 s = Inr (b, s') \<Longrightarrow> rd_ok s s'"
  "read_i8leb128 s = Inr (c, s') \<Longrightarrow> rd_ok s s'"
  by (auto simp: read_u4leb128_def read_u8leb128_def read_i8leb128_def bindE_Inr_iff dest!: leb_loop_ok)

lemma map_fst_Inr: "map_fst f r = Inr (y, s) \<longleftrightarrow> (\<exists>x. r = Inr (x, s) \<and> y = f x)"
  by (auto simp: map_fst_def bindE_Inr_iff)

lemma read_addr_ok: "read_ia s = Inr (a, s') \<Longrightarrow> rd_ok s s'" "read_ua s = Inr (b, s') \<Longrightarrow> rd_ok s s'"
  by (auto simp: read_ia_def read_ua_def map_fst_Inr split: if_splits dest!: read_u1_ok read_u2_ok read_u4_ok read_u8_ok)

lemmas readers_ok = read_u1_ok read_u2_ok read_u4_ok read_u8_ok read_leb_ok read_addr_ok

lemma vmr_cases:
  obtains e where "r = Inl e" | x s where "r = Inr (x, s)"
  by (metis sum.exhaust prod.exhaust)

section \<open>The effect of an instruction\<close>

text \<open>
  What every instruction leaves alone, and how far it goes: at most one entry is pushed, there is room for the pieces,
  and only jumps go back in the code.
\<close>

definition effect :: "bool \<Rightarrow> ('r, 'f) vm \<Rightarrow> ('r, 'f) vm \<Rightarrow> bool" where
  "effect jump s s' \<longleftrightarrow>
     length (vm_stk s') \<le> Suc (length (vm_stk s)) \<and> vm_stk_max s' = vm_stk_max s \<and>
     vm_code s' = vm_code s \<and> vm_code_len s' = vm_code_len s \<and> vm_big_endian s' = vm_big_endian s \<and>
     (length (vm_pieces s) \<le> vm_pieces_max s \<longrightarrow> length (vm_pieces s') \<le> vm_pieces_max s') \<and>
     (jump \<or> vm_code_pos s \<le> vm_code_pos s')"

lemma rd_ok_stk: "rd_ok s s' \<Longrightarrow> vm_stk s' = vm_stk s"
  by (auto simp: rd_ok_def)

lemma effect_rd: "rd_ok s s1 \<Longrightarrow> effect j s1 s' \<Longrightarrow> effect j s s'"
  by (auto simp: effect_def rd_ok_def)

lemma effect_stk: "length stk \<le> Suc (length (vm_stk s)) \<Longrightarrow> effect j s (s\<lparr>vm_stk := stk\<rparr>)"
  by (simp add: effect_def)

lemma effect_push [simp]: "effect j s (push v t s)"
  by (simp add: effect_def push_def)

lemma effect_set_top [simp]: "effect j s (set_top v t s)"
  by (cases "vm_stk s") (simp_all add: effect_def set_top_def)

lemma effect_refl [simp]: "effect j s s"
  by (simp add: effect_def)

lemma effect_fields [simp]: "effect j s (s\<lparr>vm_reg_def := r\<rparr>)" "effect j s (s\<lparr>vm_value := v\<rparr>)"
  by (simp_all add: effect_def)

lemma effect_rd_set:
  "rd_ok s s1 \<Longrightarrow> effect j s (set_top v t s1)" "rd_ok s s1 \<Longrightarrow> effect j s (push v t s1)"
  "rd_ok s s1 \<Longrightarrow> effect j s (s1\<lparr>vm_reg_def := r\<rparr>)" "rd_ok s s1 \<Longrightarrow> effect j s (s1\<lparr>vm_value := w\<rparr>)"
  "rd_ok s s1 \<Longrightarrow> length stk \<le> Suc (length (vm_stk s)) \<Longrightarrow> effect j s (s1\<lparr>vm_stk := stk\<rparr>)"
  by (auto intro: effect_rd effect_stk simp: rd_ok_def effect_def set_top_def push_def)

lemma effect_rds_set:
  "rd_ok s s1 \<Longrightarrow> rd_ok s1 s2 \<Longrightarrow> effect j s (set_top v t s2)"
  "rd_ok s s1 \<Longrightarrow> rd_ok s1 s2 \<Longrightarrow> rd_ok s2 s3 \<Longrightarrow> effect j s (set_top v t s3)"
  by (blast intro: effect_rd_set(1) rd_ok_trans)+

lemmas effects = effect_rd_set effect_stk

lemma push_read_effect:
  "push_read t r = Inr s' \<Longrightarrow> (\<And>v s1. r = Inr (v, s1) \<Longrightarrow> rd_ok s s1) \<Longrightarrow> effect j s s'"
  by (auto simp: push_read_def bindE_Inr_iff intro: effect_rd)

lemma op_deref_effect: "op_deref env op s = Inr s' \<Longrightarrow> effect j s s'"
  by (auto simp: op_deref_def bindE_Inr_iff split: list.splits if_splits intro: effects dest!: readers_ok)

lemma op_const_effect: "op_const op s = Inr s' \<Longrightarrow> effect j s s'"
  by (auto simp: op_const_def map_fst_Inr split: if_splits elim!: push_read_effect dest: readers_ok)

lemma op_stack_effect: "op_stack op s = Inr s' \<Longrightarrow> effect j s s'"
  by (auto simp: op_stack_def stack_shuffle_def bindE_Inr_iff rd_ok_stk split: list.splits if_splits
      intro!: effect_stk dest!: readers_ok)
    (auto intro!: effect_rd_set(5) simp: rd_ok_stk)

lemma op_xderef_effect: "op_xderef env op s = Inr s' \<Longrightarrow> effect j s s'"
  by (auto simp: op_xderef_def bindE_Inr_iff split: list.splits if_splits intro!: effect_stk dest!: readers_ok)
    (auto intro!: effect_rd_set(5))

lemma op_unary_effect: "op_unary op s = Inr s' \<Longrightarrow> effect j s s'"
  by (auto simp: op_unary_def bindE_Inr_iff split: list.splits if_splits intro: effects dest!: readers_ok)

lemma op_binary_effect: "op_binary op s = Inr s' \<Longrightarrow> effect j s s'"
  by (auto simp: op_binary_def bindE_Inr_iff split: list.splits intro!: effect_stk)

lemma op_compare_effect: "op_compare op s = Inr s' \<Longrightarrow> effect j s s'"
  by (auto simp: op_compare_def split: list.splits intro!: effect_stk)

lemma jump_by_effect: "jump_by offs s = Inr s' \<Longrightarrow> effect True s s'"
  by (auto simp: jump_by_def effect_def Let_def split: if_splits)

lemma op_skip_effect: "op_skip s = Inr s' \<Longrightarrow> effect True s s'"
  by (auto simp: op_skip_def bindE_Inr_iff dest!: readers_ok jump_by_effect intro: effect_rd)

lemma op_bra_effect: "op_bra s = Inr s' \<Longrightarrow> effect True s s'"
  by (auto simp: op_bra_def bindE_Inr_iff jump_by_def Let_def split: list.splits if_splits dest!: readers_ok)
    (auto simp: effect_def rd_ok_def)

lemma op_lit_effect: "op_lit op s = Inr s' \<Longrightarrow> effect j s s'"
  by (auto simp: op_lit_def)

lemma set_reg_effect: "set_reg env n s1 = Inr s' \<Longrightarrow> effect j s1 s'"
  by (auto simp: set_reg_def bindE_Inr_iff split: if_splits)

lemma op_reg_effect: "op_reg env op s = Inr s' \<Longrightarrow> effect j s s'"
  by (auto simp: op_reg_def bindE_Inr_iff split: if_splits dest!: readers_ok set_reg_effect [where j = j] intro: effect_rd)

lemma push_based_effect: "push_based env n s = Inr s' \<Longrightarrow> effect j s s'"
  by (auto simp: push_based_def bindE_Inr_iff intro: effects dest!: readers_ok)

lemma op_breg_effect: "op_breg env op s = Inr s' \<Longrightarrow> effect j s s'"
  by (auto simp: op_breg_def bindE_Inr_iff split: if_splits dest!: readers_ok push_based_effect [where j = j]
      intro: effect_rd effects)

lemma add_piece_effect: "effect j s (add_piece env s)"
  by (auto simp: effect_def add_piece_def new_piece_def more_pieces_def Let_def split: option.splits list.splits)

lemma last_piece_effect: "vm_pieces s \<noteq> [] \<Longrightarrow> effect j s (last_piece f s)"
  by (auto simp: effect_def last_piece_def)

lemma add_piece_nonempty [simp]: "vm_pieces (add_piece env s) \<noteq> []"
  by (simp add: add_piece_def split_beta Let_def)

lemma rd_ok_pieces: "rd_ok s s' \<Longrightarrow> vm_pieces s' = vm_pieces s"
  by (auto simp: rd_ok_def)

lemma effect_twice: "effect j s s1 \<Longrightarrow> length (vm_stk s1) \<le> length (vm_stk s) \<Longrightarrow> effect j s1 s2 \<Longrightarrow> effect j s s2"
  by (auto simp: effect_def)

lemma add_piece_stk: "length (vm_stk (add_piece env s)) \<le> length (vm_stk s)"
  by (auto simp: add_piece_def new_piece_def Let_def split: option.splits list.splits)

lemma op_piece_effect:
  assumes r: "op_piece env op s = Inr s'"
  shows "effect j s s'"
proof -
  define s1 where "s1 = add_piece env s"
  have e: "effect j s s1" "length (vm_stk s1) \<le> length (vm_stk s)" "vm_pieces s1 \<noteq> []"
    by (simp_all add: s1_def add_piece_effect add_piece_stk)
  have rp: "effect j s1 (last_piece f s2)" if "rd_ok s1 s2" for f s2
    using that e(3) rd_ok_pieces [OF that] effect_rd last_piece_effect by metis
  have "effect j s1 s'"
  proof (cases "op = 0x93")
    case True
    obtain n s2 where n: "read_u4leb128 s1 = Inr (n, s2)"
      using r True by (cases "read_u4leb128 s1" rule: vmr_cases) (simp_all add: op_piece_def Let_def flip: s1_def)
    with r True rp [OF read_leb_ok(1) [OF n]] show ?thesis by (auto simp: op_piece_def Let_def simp flip: s1_def)
  next
    case False
    obtain n s2 where n: "read_u4leb128 s1 = Inr (n, s2)"
      using r False by (cases "read_u4leb128 s1" rule: vmr_cases) (simp_all add: op_piece_def Let_def flip: s1_def)
    obtain b s3 where b: "read_u4leb128 s2 = Inr (b, s3)"
      using r False n by (cases "read_u4leb128 s2" rule: vmr_cases) (simp_all add: op_piece_def Let_def flip: s1_def)
    with r False n rp [OF rd_ok_trans [OF read_leb_ok(1) [OF n] read_leb_ok(1) [OF b]]]
    show ?thesis by (auto simp: op_piece_def Let_def simp flip: s1_def)
  qed
  with e(1,2) show ?thesis by (rule effect_twice)
qed

lemma set_value_effect: "set_value v s = Inr s' \<Longrightarrow> effect j s s'"
  by (auto simp: set_value_def split: if_splits)

lemma effect_skip:
  "rd_ok s s1 \<Longrightarrow> effect j (s1\<lparr>vm_code_pos := vm_code_pos s1 + k\<rparr>) s' \<Longrightarrow> effect j s s'"
  by (auto simp: effect_def rd_ok_def)

lemma op_value_effect:
  assumes r: "op_value op s = Inr s'"
  shows "effect j s s'"
proof (cases "op = 0x9e")
  case True
  obtain n s1 where n: "read_u4leb128 s = Inr (n, s1)"
    using r True by (cases "read_u4leb128 s" rule: vmr_cases) (simp_all add: op_value_def)
  have "set_value (take (unat n) (drop (vm_code_pos s1) (vm_code s1))) (s1\<lparr>vm_code_pos := vm_code_pos s1 + unat n\<rparr>) = Inr s'"
    using r True n by (simp add: op_value_def split: if_splits)
  then show ?thesis by (rule effect_skip [OF read_leb_ok(1) [OF n] set_value_effect])
next
  case False
  obtain x r where x: "vm_stk s = x # r" using r False by (cases "vm_stk s") (simp_all add: op_value_def)
  with r False have "\<exists>v. set_value v (s\<lparr>vm_stk := r\<rparr>) = Inr s'" by (simp add: op_value_def Let_def split_beta) blast
  then have "effect j (s\<lparr>vm_stk := r\<rparr>) s'" using set_value_effect by blast
  moreover have "effect j s (s\<lparr>vm_stk := r\<rparr>)" by (rule effect_stk) (simp add: x)
  ultimately show ?thesis using effect_twice [of j s "s\<lparr>vm_stk := r\<rparr>" s'] x by simp
qed

lemma op_deref_type_effect: "op_deref_type env s = Inr s' \<Longrightarrow> effect j s s'"
  by (auto simp: op_deref_type_def bindE_Inr_iff Let_def split: if_splits list.splits dest!: readers_ok
      intro: effect_rds_set)

lemma op_convert_effect: "op_convert s = Inr s' \<Longrightarrow> effect j s s'"
  by (auto simp: op_convert_def bindE_Inr_iff Let_def split: if_splits list.splits dest!: readers_ok
      intro: effect_rds_set)

lemma op_variable_effect: "op_variable env s = Inr s' \<Longrightarrow> effect j s s'"
  by (auto simp: op_variable_def bindE_Inr_iff Let_def push_def effect_def split: if_splits)

lemma offset_pieces_step:
  obtains b' x where "offset_pieces offs b (p # ps) (acc, mx) = offset_pieces offs b' ps (acc @ [x], more_pieces (length acc) mx)"
  | b' where "offset_pieces offs b (p # ps) (acc, mx) = offset_pieces offs b' ps (acc, mx)"
proof (cases "b + lp_bit_size (if lp_bit_size p = 0 then p\<lparr>lp_bit_size := ucast (lp_size p * 8)\<rparr> else p) > offs * 8")
  case True
  show ?thesis by (rule that(1), subst offset_pieces.simps) (simp only: Let_def True if_True)
next
  case False
  show ?thesis by (rule that(2), subst offset_pieces.simps) (simp only: Let_def False if_False)
qed

lemma offset_pieces_max:
  "length acc \<le> mx \<Longrightarrow> offset_pieces offs b ps (acc, mx) = (qs, my) \<Longrightarrow> length qs \<le> my"
proof (induction ps arbitrary: b acc mx)
  case (Cons p ps)
  show ?case
    by (rule offset_pieces_step [of offs b p ps acc mx]; rule Cons.IH)
      (use Cons.prems in \<open>auto simp: more_pieces_def\<close>)
qed simp

lemma offset_from_effect: "offset_from s = Inr s' \<Longrightarrow> effect j s s'"
proof -
  assume r: "offset_from s = Inr s'"
  show ?thesis
  proof (cases "vm_pieces s = []")
    case True
    with r obtain a t r n s1 where "vm_stk s = (a, t) # r" "read_u8leb128 s = Inr (n, s1)"
        "s' = (set_top (a + n) t s1)\<lparr>vm_implicit := vm_implicit s1 + 1\<rparr>"
      by (auto simp: offset_from_def bindE_Inr_iff split: list.splits)
    with readers_ok(6) [OF this(2)] show ?thesis by (auto simp: effect_def rd_ok_def set_top_def)
  next
    case False
    with r obtain offs s1 where "read_u4leb128 s = Inr (offs, s1)"
      by (auto simp: offset_from_def bindE_Inr_iff)
    moreover obtain ps mx where "offset_pieces offs 0 (vm_pieces s1) ([], 0) = (ps, mx)" by fastforce
    ultimately have o: "read_u4leb128 s = Inr (offs, s1)" "offset_pieces offs 0 (vm_pieces s1) ([], 0) = (ps, mx)"
        "s' = s1\<lparr>vm_pieces := ps, vm_pieces_max := mx\<rparr>"
      using r False by (auto simp: offset_from_def split: if_splits)
    from offset_pieces_max [OF _ o(2)] o(3) readers_ok(5) [OF o(1)] show ?thesis by (auto simp: effect_def rd_ok_def)
  qed
qed

lemma op_offset_effect: "op_offset env s = Inr s' \<Longrightarrow> effect j s s'"
  using effect_twice [OF add_piece_effect add_piece_stk offset_from_effect, of env s s' j]
  by (auto simp: op_offset_def offset_from_effect split: if_splits)

text \<open>What is assumed of the client call back, where there is one.\<close>

definition client_ok :: "('r, 'f) vm_env \<Rightarrow> bool" where
  "client_ok env \<longleftrightarrow> (\<forall>f op s s'. ve_client_op env = Some f \<longrightarrow> f op s = Inr s' \<longrightarrow> effect False s s')"

lemma effect_weaken: "effect False s s' \<Longrightarrow> effect j s s'"
  by (simp add: effect_def)

lemma op_client_effect: "client_ok env \<Longrightarrow> op_client env op s = Inr s' \<Longrightarrow> effect j s s'"
  by (cases "ve_client_op env") (auto simp: op_client_def client_ok_def lift_err_def split: sum.splits intro: effect_weaken)

lemma op_fixed_effect: "op_cfa env s = Inr s' \<Longrightarrow> effect j s s'" "op_object s = Inr s' \<Longrightarrow> effect j s s'"
  by (auto simp: op_cfa_def op_object_def split: option.splits list.splits)

lemma if_effect:
  "(if c then a else b) = Inr s' \<Longrightarrow> (c \<Longrightarrow> a = Inr s' \<Longrightarrow> P) \<Longrightarrow> (b = Inr s' \<Longrightarrow> P) \<Longrightarrow> P"
  by (simp split: if_splits)

lemmas op_effects = op_deref_effect op_const_effect op_stack_effect op_xderef_effect op_unary_effect op_binary_effect
  op_compare_effect op_lit_effect op_reg_effect op_breg_effect op_fixed_effect op_piece_effect op_value_effect
  op_deref_type_effect op_convert_effect op_variable_effect op_offset_effect

lemma vm_op_effect:
  assumes "vm_op env op s = Inr s'" "client_ok env"
  shows "effect (op = 0x28 \<or> op = 0x2f) s s'"
  using assms(1) unfolding vm_op_def
  by (elim if_effect)
    (simp_all add: op_effects op_client_effect [OF assms(2)] op_bra_effect op_skip_effect)

section \<open>Bounds\<close>

definition vm_ok :: "('r, 'f) vm \<Rightarrow> bool" where
  "vm_ok s \<longleftrightarrow> length (vm_stk s) \<le> vm_stk_max s \<and> length (vm_pieces s) \<le> vm_pieces_max s"

definition keeps_vm :: "('r, 'f) vm \<Rightarrow> ('r, 'f) vm \<Rightarrow> bool" where
  "keeps_vm s s' \<longleftrightarrow> vm_code s' = vm_code s \<and> vm_code_len s' = vm_code_len s \<and> vm_big_endian s' = vm_big_endian s \<and>
     (vm_ok s \<longrightarrow> vm_ok s')"

lemma keeps_vm_trans: "keeps_vm s s1 \<Longrightarrow> keeps_vm s1 s2 \<Longrightarrow> keeps_vm s s2"
  by (simp add: keeps_vm_def)

text \<open>After fetching there is room for four more entries.\<close>

lemma fetch_room: "length (vm_stk s) \<le> vm_stk_max s \<Longrightarrow> length (vm_stk (snd (fetch s))) + 4 \<le> vm_stk_max (snd (fetch s))"
  by (simp add: fetch_def)

lemma fetch_keeps:
  assumes "effect j (snd (fetch s)) s'"
  shows "keeps_vm s s'"
proof -
  have "vm_ok s'" if "vm_ok s"
    using that fetch_room [of s] assms by (simp add: vm_ok_def effect_def) (simp add: fetch_def)
  then show ?thesis using assms by (simp add: keeps_vm_def effect_def fetch_def)
qed

lemma rd_keeps: "rd_ok s s' \<Longrightarrow> keeps_vm s s'"
  by (auto simp: rd_ok_def keeps_vm_def vm_ok_def)

lemma bindOE_Some: "bindOE (Some r) f = (case r of Inl e \<Rightarrow> Some (Inl e) | Inr x \<Rightarrow> f x)"
  by (cases r) simp_all

lemma switch_step:
  obtains (fail) f where "switch_loop ev n end_pos s = Some (Inl f)"
  | (hit) s3 nxt where "rd_ok s s3" "vm_code_pos s < nxt" "nxt \<le> end_pos"
      "switch_loop ev n end_pos s = bindOE (ev (s3\<lparr>vm_code_len := nxt\<rparr>)) (\<lambda>s4. Some (Inr (s4\<lparr>vm_code_len := vm_code_len s3\<rparr>)))"
  | (next_case) s3 nxt where "rd_ok s s3" "vm_code_pos s < nxt" "nxt \<le> end_pos"
      "switch_loop ev n end_pos s = switch_loop ev n end_pos (s3\<lparr>vm_code_pos := nxt\<rparr>)"
proof -
  note unf = switch_loop.simps [of ev n end_pos s]
  show ?thesis
  proof (cases "read_u2 s" rule: vmr_cases)
    case (2 offs s1)
    show ?thesis
    proof (cases "vm_code_pos s1 + unat offs > end_pos \<or> unat offs = 0")
      case True
      with 2 show ?thesis by (intro fail [of "if vm_code_pos s1 + unat offs > end_pos then Raise ERR_INV_DWARF else Raise ERR_OTHER"]) (auto simp: unf Let_def)
    next
      case ok: False
      define nxt where "nxt = vm_code_pos s1 + unat offs"
      have r1: "rd_ok s s1" by (rule read_u2_ok [OF 2])
      then have nx: "vm_code_pos s < nxt" "nxt \<le> end_pos" "\<not> nxt > end_pos" "nxt \<noteq> vm_code_pos s1"
        using ok by (auto simp: nxt_def rd_ok_def)
      show ?thesis
      proof (cases "read_u8leb128 s1" rule: vmr_cases)
        case (1 e)
        with 2 nx show ?thesis by (intro fail [of e]) (simp add: unf flip: nxt_def)
      next
        case a: (2 addr s2)
        show ?thesis
        proof (cases "read_u8leb128 s2" rule: vmr_cases)
          case (1 e)
          with 2 a nx show ?thesis by (intro fail [of e]) (simp add: unf flip: nxt_def)
        next
          case z: (2 sz s3)
          have r: "rd_ok s s3" using r1 read_leb_ok(2) [OF a] read_leb_ok(2) [OF z] rd_ok_trans by blast
          show ?thesis
          proof (cases "sz = 0 \<or> n \<ge> addr \<and> n - addr < sz")
            case True
            with 2 a z nx show ?thesis by (intro hit [OF r nx(1,2)]) (simp add: unf Let_def flip: nxt_def)
          next
            case False
            with 2 a z nx show ?thesis by (intro next_case [OF r nx(1,2)]) (subst unf, auto simp: Let_def simp flip: nxt_def)
          qed
        qed
      qed
    qed
  next
    case (1 e)
    then show ?thesis by (intro fail [of e]) (simp add: unf)
  qed
qed

lemma switch_loop_keeps:
  assumes ev: "\<And>t t'. ev t = Some (Inr t') \<Longrightarrow> keeps_vm t t'"
  shows "switch_loop ev n end_pos s = Some (Inr s') \<Longrightarrow> keeps_vm s s'"
proof (induction "end_pos - vm_code_pos s" arbitrary: s rule: less_induct)
  case less
  show ?case
  proof (cases rule: switch_step [of ev n end_pos s])
    case (fail f)
    with less.prems show ?thesis by simp
  next
    case (hit s3 nxt)
    with less.prems obtain s4 where "ev (s3\<lparr>vm_code_len := nxt\<rparr>) = Some (Inr s4)" "s' = s4\<lparr>vm_code_len := vm_code_len s3\<rparr>"
      by (auto simp: bindOE_Inr_iff)
    with ev [OF this(1)] hit(1) show ?thesis by (auto simp: keeps_vm_def vm_ok_def rd_ok_def)
  next
    case (next_case s3 nxt)
    have "keeps_vm (s3\<lparr>vm_code_pos := nxt\<rparr>) s'"
      by (rule less.hyps) (use next_case less.prems in auto)
    with next_case(1) show ?thesis by (auto simp: keeps_vm_def vm_ok_def rd_ok_def)
  qed
qed

lemma op_switch_keeps:
  assumes ev: "\<And>t t'. ev t = Some (Inr t') \<Longrightarrow> keeps_vm t t'" and r: "op_switch ev s = Some (Inr s')"
  shows "keeps_vm s s'"
proof -
  obtain x r where x: "vm_stk s = x # r" using r by (cases "vm_stk s") (auto simp: op_switch_def)
  obtain offs s1 where o: "read_u2 (s\<lparr>vm_stk := r\<rparr>) = Inr (offs, s1)"
    using r x by (cases "read_u2 (s\<lparr>vm_stk := r\<rparr>)" rule: vmr_cases) (auto simp: op_switch_def)
  obtain s2 where s2: "switch_loop ev (fst x) (vm_code_pos s1 + unat offs) s1 = Some (Inr s2)"
      "s' = s2\<lparr>vm_code_pos := vm_code_pos s1 + unat offs\<rparr>"
    using r x o by (cases x) (auto simp: op_switch_def Let_def bindOE_Inr_iff split: if_splits)
  have "keeps_vm (s\<lparr>vm_stk := r\<rparr>) s1" by (rule rd_keeps [OF read_u2_ok [OF o]])
  moreover have "keeps_vm s1 s2" by (rule switch_loop_keeps [OF ev s2(1)])
  ultimately show ?thesis using x s2(2) by (auto simp: keeps_vm_def vm_ok_def)
qed

lemma op_entry_keeps:
  assumes r: "op_entry_value env evx s = Some (Inr s')" and room: "length (vm_stk s) < vm_stk_max s"
  shows "keeps_vm s s'"
proof -
  obtain sz s1 where z: "read_u4leb128 s = Inr (sz, s1)"
    using r by (cases "read_u4leb128 s" rule: vmr_cases) (auto simp: op_entry_value_def)
  with r obtain v t where "s' = (push v t s1)\<lparr>vm_code_pos := vm_code_pos s1 + unat sz,
      vm_reg_def := None, vm_value := None, vm_implicit := 0\<rparr>"
    by (auto simp: op_entry_value_def bindOE_Inr_iff split: if_splits)
  with rd_keeps [OF read_leb_ok(1) [OF z]] read_leb_ok(1) [OF z] room show ?thesis
    by (auto simp: keeps_vm_def vm_ok_def push_def rd_ok_def)
qed

lemma run_op_keeps:
  assumes c: "client_ok env" and ev: "\<And>t t'. ev t = Some (Inr t') \<Longrightarrow> keeps_vm t t'"
    and f: "fetch s = (op, s1)" and r: "run_op env ev op s1 = Some (Inr s2)"
  shows "keeps_vm s s2"
proof -
  have fk: "keeps_vm s s1" using fetch_keeps [of True s s1] f by simp
  consider (switch) "op = OP_TCF_switch" | (entry) "op \<noteq> OP_TCF_switch" "op = OP_GNU_entry_value"
    | (other) "op \<noteq> OP_TCF_switch" "op \<noteq> OP_GNU_entry_value" by blast
  then show ?thesis
  proof cases
    case switch
    then have "op_switch (not_empty ev) s1 = Some (Inr s2)" using r by (simp add: run_op_def)
    then have "keeps_vm s1 s2"
      by (rule op_switch_keeps [rotated]) (use ev in \<open>auto simp: not_empty_def split: if_splits\<close>)
    with fk keeps_vm_trans show ?thesis by blast
  next
    case entry
    then have r: "op_entry_value env (evaluate_with env ev) s1 = Some (Inr s2)" using r by (simp add: run_op_def)
    show ?thesis
    proof (cases "vm_ok s")
      case True
      then have "length (vm_stk s1) < vm_stk_max s1" using fetch_room [of s] f by (simp add: vm_ok_def)
      with op_entry_keeps [OF r] fk keeps_vm_trans show ?thesis by blast
    next
      case False
      obtain sz s3 where z: "read_u4leb128 s1 = Inr (sz, s3)"
        using r by (cases "read_u4leb128 s1" rule: vmr_cases) (auto simp: op_entry_value_def)
      then have "vm_code s2 = vm_code s1 \<and> vm_code_len s2 = vm_code_len s1 \<and> vm_big_endian s2 = vm_big_endian s1"
        using r read_leb_ok(1) [OF z] by (auto simp: op_entry_value_def bindOE_Inr_iff push_def rd_ok_def split: if_splits)
      with False fk show ?thesis by (simp add: keeps_vm_def)
    qed
  next
    case other
    with r have "vm_op env op s1 = Inr s2" by (simp add: run_op_def)
    from fetch_keeps [of _ s s2] vm_op_effect [OF this c] f show ?thesis by simp
  qed
qed

lemma eval_keeps:
  assumes "client_ok env"
  shows "eval_loop env fuel s = Some (Inr s') \<Longrightarrow> keeps_vm s s'"
proof (induction fuel arbitrary: s s')
  case (Suc fuel)
  show ?case
  proof (cases "vm_code_pos s \<ge> vm_code_len s")
    case True
    with Suc.prems show ?thesis by (simp add: keeps_vm_def)
  next
    case False
    obtain op s1 where f: "fetch s = (op, s1)" by fastforce
    from Suc.prems False f obtain s2 where s2: "run_op env (eval_loop env fuel) op s1 = Some (Inr s2)"
        "eval_loop env fuel s2 = Some (Inr s')"
      by (auto simp: bindOE_Inr_iff split: if_splits)
    from run_op_keeps [OF assms Suc.IH f s2(1)] Suc.IH [OF s2(2)] show ?thesis by (rule keeps_vm_trans)
  qed
qed simp

section \<open>The bounds hold\<close>

text \<open>A machine with two registers and a memory whose bytes are the low bytes of their addresses.\<close>

definition sample_env :: "(nat, unit) vm_env" where
  "sample_env = \<lparr>ve_read_mem = (\<lambda>a n. if a < 0x100000 then Inr (map (\<lambda>i. ucast (a + of_nat i)) [0..<n]) else Inl ERR_OTHER),
     ve_reg_by_id = (\<lambda>n. if n < 2 then Inr (unat n) else Inl ERR_OTHER), ve_reg_size = (\<lambda>_. 8),
     ve_reg_value = (\<lambda>_ r. Inr (if r = 0 then 0x1000 else 5)), ve_frame_fp = (\<lambda>_. 0),
     ve_symbol_value = (\<lambda>_. Inl ERR_OTHER), ve_entry_frame = (\<lambda>f. Inr f), ve_read_pieces = (\<lambda>_ _. Inl ERR_OTHER),
     ve_client_op = None\<rparr>"

definition sample_state :: "bool \<Rightarrow> byte list \<Rightarrow> (nat, unit) vm" where
  "sample_state be code = \<lparr>vm_frame = None, vm_args = [], vm_code = code, vm_code_pos = 0, vm_code_len = length code,
     vm_big_endian = be, vm_addr_size = 4, vm_pieces = [], vm_pieces_max = 0, vm_stk = [], vm_stk_max = 0,
     vm_reg_def = None, vm_value = None, vm_implicit = 0\<rparr>"

lemma sample_state_simps [simp]:
  "vm_code (sample_state be code) = code" "vm_code_len (sample_state be code) = length code" "vm_code_pos (sample_state be code) = 0"
  "vm_stk (sample_state be code) = []" "vm_big_endian (sample_state be code) = be" "vm_addr_size (sample_state be code) = 4"
  "vm_frame (sample_state be code) = None" "vm_pieces (sample_state be code) = []"
  by (simp_all add: sample_state_def)

lemma sample_env_client [simp]: "client_ok sample_env"
  by (simp add: client_ok_def sample_env_def)

text \<open>
  C7: The evaluation stack and the list of pieces never outgrow their memory: the four entries of
  room made before each instruction are enough, for nested evaluations too, as long as the client
  call back keeps to the same rules.
\<close>

theorem vm_bounds:
  assumes "client_ok env" "vm_ok s" "evaluate_vm_expression env fuel s = Some (Inr s')"
  shows "length (vm_stk s') \<le> vm_stk_max s' \<and> length (vm_pieces s') \<le> vm_pieces_max s' \<and> vm_code_len s' = vm_code_len s"
proof -
  let ?s = "s\<lparr>vm_implicit := 0, vm_value := None, vm_reg_def := None\<rparr>"
  from assms(3) obtain s1 where s1: "eval_loop env fuel ?s = Some (Inr s1)" "s' = finish env s1"
    by (auto simp: evaluate_vm_expression_def evaluate_with_def not_empty_def bindOE_Inr_iff split: if_splits)
  have "keeps_vm ?s s1" by (rule eval_keeps [OF assms(1) s1(1)])
  then have k: "vm_ok s1" "vm_code_len s1 = vm_code_len s" using assms(2) by (simp_all add: keeps_vm_def vm_ok_def)
  have "length (vm_stk (add_piece env s1)) \<le> vm_stk_max s1" using k(1) add_piece_stk [of env s1] by (simp add: vm_ok_def)
  then show ?thesis
    using k add_piece_effect [of True s1 env] s1(2) by (auto simp: finish_def vm_ok_def effect_def)
qed

lemma sample_run:
  "case evaluate_vm_expression sample_env 9 (sample_state False [0x31, 0x32, 0x22]) of
     Some (Inr s) \<Rightarrow> vm_stk s = [(3, TYPE_CLASS_CARDINAL)] \<and> vm_stk_max s = 8 | _ \<Rightarrow> False"
  by code_simp

theorem vm_bounds_witness:
  "\<exists>s'. evaluate_vm_expression sample_env 9 (sample_state False [0x31, 0x32, 0x22]) = Some (Inr s') \<and>
     length (vm_stk s') \<le> vm_stk_max s' \<and> length (vm_pieces s') \<le> vm_pieces_max s'"
proof -
  obtain s' where s': "evaluate_vm_expression sample_env 9 (sample_state False [0x31, 0x32, 0x22]) = Some (Inr s')"
    using sample_run by (auto split: option.splits sum.splits)
  have "vm_ok (sample_state False [0x31, 0x32, 0x22])" by (simp add: vm_ok_def sample_state_def)
  from vm_bounds [OF sample_env_client this s'] s' show ?thesis by blast
qed

section \<open>Termination\<close>

definition operand16 :: "bool \<Rightarrow> byte list \<Rightarrow> nat \<Rightarrow> u16" where
  "operand16 be code p =
     (if be then push_bit 8 (ucast (code ! p)) OR ucast (code ! Suc p) else ucast (code ! p) OR push_bit 8 (ucast (code ! Suc p)))"

text \<open>No jump goes back: whatever is in the code at an \<open>OP_bra\<close> or \<open>OP_skip\<close> has an offset that is not negative.\<close>

definition forward_jumps :: "bool \<Rightarrow> byte list \<Rightarrow> bool" where
  "forward_jumps be code \<longleftrightarrow>
     (\<forall>p < length code. code ! p = 0x28 \<or> code ! p = 0x2f \<longrightarrow> Suc (Suc p) < length code \<longrightarrow> 0 \<le> sint (operand16 be code (Suc p)))"

lemma read_u2_operand:
  assumes "read_u2 s = Inr (offs, s1)"
  shows "offs = operand16 (vm_big_endian s) (vm_code s) (vm_code_pos s)" "Suc (vm_code_pos s) < length (vm_code s)"
  using assms by (auto simp: read_u2_def read_u1_def bindE_Inr_iff operand16_def split: if_splits)

lemma jump_forward:
  assumes "forward_jumps (vm_big_endian s) (vm_code s)" "vm_code_pos s = Suc p" "vm_code s ! p = 0x28 \<or> vm_code s ! p = 0x2f"
    and "read_u2 s = Inr (offs, s1)" "jump_by offs s1 = Inr s2"
  shows "vm_code_pos s \<le> vm_code_pos s2"
proof -
  have "0 \<le> sint offs" using assms(1-3) read_u2_operand [OF assms(4)] by (auto simp: forward_jumps_def)
  moreover have "vm_code_pos s \<le> vm_code_pos s1" using read_u2_ok [OF assms(4)] by (auto simp: rd_ok_def)
  ultimately show ?thesis using assms(5) by (auto simp: jump_by_def Let_def split: if_splits)
qed

lemma jump_op_forward:
  assumes "forward_jumps (vm_big_endian s) (vm_code s)" "vm_code_pos s = Suc p" "vm_code s ! p = op" "op = 0x28 \<or> op = 0x2f"
    and "vm_op env op s = Inr s'"
  shows "vm_code_pos s \<le> vm_code_pos s'"
proof (cases "op = 0x28")
  case True
  then have r: "op_bra s = Inr s'" using assms(5) by (simp add: vm_op_def)
  then obtain v t r where v: "vm_stk s = (v, t) # r" by (cases "vm_stk s") (auto simp: op_bra_def)
  obtain offs s1 where o: "read_u2 s = Inr (offs, s1)"
    using r v by (cases "read_u2 s" rule: vmr_cases) (auto simp: op_bra_def)
  show ?thesis
  proof (cases "v = 0")
    case True
    with r v o read_u2_ok [OF o] show ?thesis by (auto simp: op_bra_def rd_ok_def)
  next
    case False
    with r v o obtain s2 where "jump_by offs s1 = Inr s2" "s' = s2\<lparr>vm_stk := r\<rparr>"
      by (auto simp: op_bra_def bindE_Inr_iff)
    with jump_forward [OF assms(1,2) _ o] assms(3) True show ?thesis by auto
  qed
next
  case False
  then have r: "op_skip s = Inr s'" using assms(4,5) by (simp add: vm_op_def)
  then obtain offs s1 where o: "read_u2 s = Inr (offs, s1)"
    by (cases "read_u2 s" rule: vmr_cases) (auto simp: op_skip_def)
  with r jump_forward [OF assms(1,2) _ o] assms(3,4) show ?thesis by (auto simp: op_skip_def)
qed

lemma switch_total:
  assumes ev: "\<And>t. vm_code t = code \<Longrightarrow> vm_big_endian t = be \<Longrightarrow> p < vm_code_pos t \<Longrightarrow> vm_code_len t \<le> length code \<Longrightarrow> ev t \<noteq> None"
    and e: "end_pos \<le> length code"
  shows "vm_code s = code \<Longrightarrow> vm_big_endian s = be \<Longrightarrow> p \<le> vm_code_pos s \<Longrightarrow> switch_loop ev n end_pos s \<noteq> None"
proof (induction "end_pos - vm_code_pos s" arbitrary: s rule: less_induct)
  case less
  show ?case
  proof (cases rule: switch_step [of ev n end_pos s])
    case (hit s3 nxt)
    have "ev (s3\<lparr>vm_code_len := nxt\<rparr>) \<noteq> None" by (rule ev) (use hit less.prems e in \<open>auto simp: rd_ok_def\<close>)
    with hit(4) show ?thesis by (auto simp: bindOE_def split: option.splits sum.splits)
  next
    case (next_case s3 nxt)
    have "switch_loop ev n end_pos (s3\<lparr>vm_code_pos := nxt\<rparr>) \<noteq> None"
      by (rule less.hyps) (use next_case less.prems in \<open>auto simp: rd_ok_def\<close>)
    with next_case(4) show ?thesis by simp
  qed simp
qed

lemma op_switch_total:
  assumes ev: "\<And>t. vm_code t = vm_code s \<Longrightarrow> vm_big_endian t = vm_big_endian s \<Longrightarrow> vm_code_pos s < vm_code_pos t \<Longrightarrow>
      vm_code_len t \<le> length (vm_code s) \<Longrightarrow> ev t \<noteq> None"
    and e: "vm_code_len s \<le> length (vm_code s)"
  shows "op_switch ev s \<noteq> None"
proof (cases "vm_stk s")
  case (Cons x r)
  obtain n t where x: "x = (n, t)" by fastforce
  show ?thesis
  proof (cases "read_u2 (s\<lparr>vm_stk := r\<rparr>)" rule: vmr_cases)
    case (2 offs s1)
    have rd: "rd_ok (s\<lparr>vm_stk := r\<rparr>) s1" by (rule read_u2_ok [OF 2])
    show ?thesis
    proof (cases "vm_code_pos s1 + unat offs > vm_code_len s1")
      case False
      have "switch_loop ev n (vm_code_pos s1 + unat offs) s1 \<noteq> None"
        by (rule switch_total [OF ev, of "vm_code s" "vm_big_endian s"]) (use rd e False in \<open>auto simp: rd_ok_def\<close>)
      with Cons x 2 False show ?thesis by (auto simp: op_switch_def Let_def bindOE_def split: option.splits sum.splits)
    qed (use Cons x 2 in \<open>simp add: op_switch_def Let_def\<close>)
  qed (use Cons x in \<open>simp add: op_switch_def\<close>)
qed (simp add: op_switch_def)

lemma forward_part: "forward_jumps be code \<Longrightarrow> forward_jumps be (take n (drop p code))"
  by (auto simp: forward_jumps_def operand16_def)

lemma op_switch_pos: "op_switch ev s = Some (Inr s') \<Longrightarrow> vm_code_pos s \<le> vm_code_pos s'"
proof -
  assume r: "op_switch ev s = Some (Inr s')"
  obtain x r where x: "vm_stk s = x # r" using r by (cases "vm_stk s") (auto simp: op_switch_def)
  obtain offs s1 where o: "read_u2 (s\<lparr>vm_stk := r\<rparr>) = Inr (offs, s1)"
    using r x by (cases "read_u2 (s\<lparr>vm_stk := r\<rparr>)" rule: vmr_cases) (auto simp: op_switch_def)
  with r x read_u2_ok [OF o] show ?thesis
    by (cases x) (auto simp: op_switch_def Let_def bindOE_Inr_iff rd_ok_def split: if_splits)
qed

lemma op_entry_pos: "op_entry_value env evx s = Some (Inr s') \<Longrightarrow> vm_code_pos s \<le> vm_code_pos s'"
proof -
  assume r: "op_entry_value env evx s = Some (Inr s')"
  obtain sz s1 where z: "read_u4leb128 s = Inr (sz, s1)"
    using r by (cases "read_u4leb128 s" rule: vmr_cases) (auto simp: op_entry_value_def)
  with r read_leb_ok(1) [OF z] show ?thesis
    by (auto simp: op_entry_value_def bindOE_Inr_iff rd_ok_def split: if_splits)
qed

lemma op_entry_total:
  assumes ev: "\<And>n frame t. rd_ok s t \<Longrightarrow> vm_code_pos t + n \<le> length (vm_code s) \<Longrightarrow> evx (entry_state n frame t) \<noteq> None"
  shows "op_entry_value env evx s \<noteq> None"
proof (cases "read_u4leb128 s" rule: vmr_cases)
  case (2 sz s1)
  have rd: "rd_ok s s1" by (rule read_leb_ok(1) [OF 2])
  show ?thesis
  proof (cases "lift_err (ve_entry_frame env (vm_frame s1))")
    case (Inr frame)
    show ?thesis
    proof (cases "vm_code_pos s1 + unat sz \<le> length (vm_code s1)")
      case True
      then have "evx (entry_state (unat sz) frame s1) \<noteq> None" using ev [OF rd, of "unat sz" frame] rd by (auto simp: rd_ok_def)
      with 2 Inr True show ?thesis by (simp add: op_entry_value_def bindOE_not_None bindOE_Some split: sum.splits)
    qed (use 2 Inr in \<open>simp add: op_entry_value_def\<close>)
  qed (use 2 in \<open>simp add: op_entry_value_def\<close>)
qed (simp add: op_entry_value_def)

lemma run_op_total:
  assumes sw: "\<And>t. vm_code t = vm_code s \<Longrightarrow> vm_big_endian t = vm_big_endian s \<Longrightarrow> vm_code_pos s < vm_code_pos t \<Longrightarrow>
      vm_code_len t \<le> length (vm_code s) \<Longrightarrow> ev t \<noteq> None"
    and en: "\<And>n frame t. rd_ok s t \<Longrightarrow> vm_code_pos t + n \<le> length (vm_code s) \<Longrightarrow> ev (entry_state n frame t) \<noteq> None"
    and e: "vm_code_len s \<le> length (vm_code s)"
  shows "run_op env ev op s \<noteq> None"
proof -
  have "op_switch (not_empty ev) s \<noteq> None"
    by (rule op_switch_total) (use sw e in \<open>auto simp: not_empty_def\<close>)
  moreover have "op_entry_value env (evaluate_with env ev) s \<noteq> None"
  proof (rule op_entry_total)
    fix n frame t
    assume "rd_ok s t" "vm_code_pos t + n \<le> length (vm_code s)"
    then have "ev (entry_state n frame t) \<noteq> None" by (rule en)
    moreover have "(entry_state n frame t)\<lparr>vm_implicit := 0, vm_value := None, vm_reg_def := None\<rparr> = entry_state n frame t"
      by (simp add: entry_state_def)
    ultimately show "evaluate_with env ev (entry_state n frame t) \<noteq> None"
      unfolding evaluate_with_def by (intro bindOE_not_None) (auto simp: not_empty_def)
  qed
  ultimately show ?thesis by (simp add: run_op_def)
qed

lemma run_op_pos:
  assumes c: "client_ok env" and fw: "forward_jumps (vm_big_endian s) (vm_code s)"
    and f: "fetch s = (op, s1)" and r: "run_op env ev op s1 = Some (Inr s2)"
  shows "vm_code_pos s < vm_code_pos s2"
proof -
  have s1: "vm_code s1 ! vm_code_pos s = op" "vm_code_pos s1 = Suc (vm_code_pos s)" "forward_jumps (vm_big_endian s1) (vm_code s1)"
    using f fw by (auto simp: fetch_def)
  consider (switch) "op = OP_TCF_switch" | (entry) "op \<noteq> OP_TCF_switch" "op = OP_GNU_entry_value"
    | (other) "vm_op env op s1 = Inr s2"
    using r by (fastforce simp: run_op_def split: if_splits)
  then have "vm_code_pos s1 \<le> vm_code_pos s2"
  proof cases
    case other
    then show ?thesis
      using vm_op_effect [OF other c] jump_op_forward [OF s1(3,2,1) _ other] by (auto simp: effect_def)
  qed (use r op_switch_pos op_entry_pos in \<open>auto simp: run_op_def split: if_splits\<close>)
  with s1(2) show ?thesis by simp
qed

lemma eval_total:
  assumes "client_ok env"
  shows "forward_jumps (vm_big_endian s) (vm_code s) \<Longrightarrow> vm_code_len s \<le> length (vm_code s) \<Longrightarrow>
     length (vm_code s) - vm_code_pos s < fuel \<Longrightarrow> eval_loop env fuel s \<noteq> None"
proof (induction fuel arbitrary: s)
  case (Suc fuel)
  show ?case
  proof (cases "vm_code_pos s \<ge> vm_code_len s")
    case False
    obtain op s1 where f: "fetch s = (op, s1)" by fastforce
    then have s1: "vm_code_pos s1 = Suc (vm_code_pos s)" "vm_code s1 = vm_code s"
        "vm_big_endian s1 = vm_big_endian s" "vm_code_len s1 = vm_code_len s"
      by (auto simp: fetch_def)
    have lt: "vm_code_pos s < length (vm_code s)" using False Suc.prems(2) by simp
    have later: "eval_loop env fuel t \<noteq> None"
      if "vm_code t = vm_code s" "vm_big_endian t = vm_big_endian s" "vm_code_len t \<le> length (vm_code s)"
        "vm_code_pos s < vm_code_pos t" for t
      by (rule Suc.IH) (use that Suc.prems lt in auto)
    have "run_op env (eval_loop env fuel) op s1 \<noteq> None"
    proof (rule run_op_total)
      fix n frame t
      assume t: "rd_ok s1 t" "vm_code_pos t + n \<le> length (vm_code s1)"
      then have tc: "vm_code t = vm_code s" "vm_big_endian t = vm_big_endian s" "vm_code_pos s < vm_code_pos t"
        using s1 by (auto simp: rd_ok_def)
      show "eval_loop env fuel (entry_state n frame t) \<noteq> None"
        by (rule Suc.IH) (use Suc.prems tc t(2) s1 forward_part in \<open>auto simp: entry_state_def\<close>)
    qed (use later s1 Suc.prems in auto)
    moreover have "eval_loop env fuel s2 \<noteq> None" if s2: "run_op env (eval_loop env fuel) op s1 = Some (Inr s2)" for s2
    proof (rule later)
      have "keeps_vm s s2" by (rule run_op_keeps [OF assms eval_keeps [OF assms] f s2])
      then show "vm_code s2 = vm_code s" "vm_big_endian s2 = vm_big_endian s" "vm_code_len s2 \<le> length (vm_code s)"
        using Suc.prems by (simp_all add: keeps_vm_def)
      show "vm_code_pos s < vm_code_pos s2" by (rule run_op_pos [OF assms Suc.prems(1) f s2])
    qed
    ultimately show ?thesis using False f lt by (simp add: bindOE_not_None)
  qed simp
qed simp



end
