(* ===== verification/VMCode.thy ===== *)
theory VMCode
  imports VMBounds
begin

text \<open>
  The operands in the code of the DWARF machine (theory VM): what the readers of src/agent/tcf/services/vm.c return on
  an encoded number, for both byte orders, and what the arithmetic shift computes.
\<close>

unbundle bit_operations_syntax

section \<open>The code ahead\<close>

definition upcoming :: "('r, 'f) vm \<Rightarrow> byte list" where
  "upcoming s = drop (vm_code_pos s) (take (vm_code_len s) (vm_code s))"

definition adv :: "nat \<Rightarrow> ('r, 'f) vm \<Rightarrow> ('r, 'f) vm" where
  "adv k s = s\<lparr>vm_code_pos := vm_code_pos s + k\<rparr>"

lemma adv_simps [simp]:
  "adv 0 s = s" "adv k (adv j s) = adv (j + k) s" "vm_big_endian (adv k s) = vm_big_endian s"
  "vm_addr_size (adv k s) = vm_addr_size s" "vm_stk (adv k s) = vm_stk s" "vm_frame (adv k s) = vm_frame s"
  "vm_code_pos (adv k s) = vm_code_pos s + k" "vm_code_len (adv k s) = vm_code_len s"
  by (simp_all add: adv_def)

lemma upcoming_adv: "upcoming s = bs @ r \<Longrightarrow> upcoming (adv (length bs) s) = r"
proof -
  assume u: "upcoming s = bs @ r"
  have "upcoming (adv (length bs) s) = drop (length bs) (upcoming s)" by (simp add: upcoming_def adv_def add.commute)
  with u show ?thesis by simp
qed

lemma read_u1_at: "upcoming s = b # r \<Longrightarrow> read_u1 s = Inr (b, adv 1 s)"
proof -
  assume "upcoming s = b # r"
  then have d: "drop (vm_code_pos s) (take (vm_code_len s) (vm_code s)) = b # r" by (simp add: upcoming_def)
  then have l: "vm_code_pos s < length (take (vm_code_len s) (vm_code s))"
    by (metis drop_eq_Nil list.distinct(1) not_le)
  from nth_via_drop [OF d] l show ?thesis by (simp add: read_u1_def adv_def)
qed

lemma read_u1_next: "upcoming s = b # r \<Longrightarrow> upcoming (adv 1 s) = r"
  using upcoming_adv [of s "[b]" r] by simp

section \<open>LEB128\<close>

text \<open>The encodings: groups of seven bits, the least significant first; all but the last have the top bit set.\<close>

fun uleb :: "nat \<Rightarrow> byte list" where
  "uleb n = (if n < 128 then [of_nat n] else of_nat (n mod 128 + 128) # uleb (n div 128))"

declare uleb.simps [simp del]

function sleb :: "int \<Rightarrow> byte list" where
  "sleb v =
     (if - 64 \<le> v \<and> v < 64 then [of_int (v mod 128)] else of_int (v mod 128 + 128) # sleb (v div 128))"
  by pat_completeness auto
termination
  by (relation "measure (\<lambda>v. nat (if v \<ge> 0 then v else - v))") auto

declare sleb.simps [simp del]

lemma bit_40: "n < 128 \<Longrightarrow> (of_nat n :: byte) AND 0x40 = (if n < 64 then 0 else 0x40)"
proof -
  have "list_all (\<lambda>n. (of_nat n :: byte) AND 0x40 = (if n < 64 then 0 else 0x40)) [0..<128]" by code_simp
  then show "n < 128 \<Longrightarrow> (of_nat n :: byte) AND 0x40 = (if n < 64 then 0 else 0x40)"
    by (simp only: list_all_iff set_upt) simp
qed

lemma group_bytes:
  assumes "n < 128"
  shows "ucast ((of_nat n :: byte) AND 0x7F) = (of_nat n :: 'a::len word)" "(of_nat n :: byte) AND 0x80 = 0"
    "ucast ((of_nat (n + 128) :: byte) AND 0x7F) = (of_nat n :: 'a word)" "(of_nat (n + 128) :: byte) AND 0x80 \<noteq> 0"
proof -
  have u: "unat (of_nat n :: byte) = n" "unat (of_nat (n + 128) :: byte) = n + 128"
    using assms by (simp_all only: unat_of_nat take_bit_nat_eq_self_iff) (auto simp: take_bit_nat_eq_self_iff)
  have a: "unat ((of_nat n :: byte) AND 0x7F) = n" "unat ((of_nat (n + 128) :: byte) AND 0x7F) = n"
    using assms by (simp_all only: unat_and_7f u) simp_all
  show "ucast ((of_nat n :: byte) AND 0x7F) = (of_nat n :: 'a word)"
    "ucast ((of_nat (n + 128) :: byte) AND 0x7F) = (of_nat n :: 'a word)"
    using a by (metis of_nat_unat)+
  show "(of_nat n :: byte) AND 0x80 = 0" "(of_nat (n + 128) :: byte) AND 0x80 \<noteq> 0"
    using u assms by (simp_all only: and_80_zero)
qed

text \<open>Putting the groups together.\<close>

lemma groups_or: "(of_int (v mod 128) :: 'a::len word) OR push_bit 7 (of_int (v div 128)) = of_int v"
proof -
  have "take_bit 7 v OR push_bit 7 (drop_bit 7 v) = v"
  proof (rule bit_eqI)
    fix k
    show "bit (take_bit 7 v OR push_bit 7 (drop_bit 7 v)) k \<longleftrightarrow> bit v k"
      by (cases "k < 7") (auto simp: bit_or_iff bit_take_bit_iff bit_push_bit_iff bit_drop_bit_eq)
  qed
  then have "v mod 128 OR push_bit 7 (v div 128) = v" by (simp add: take_bit_eq_mod drop_bit_eq_div)
  then show ?thesis by (metis of_int_or_eq push_bit_of_int)
qed

lemma push_groups: "push_bit i (of_int (v mod 128) :: 'a::len word) OR push_bit (i + 7) (of_int (v div 128)) = push_bit i (of_int v)"
proof -
  have "push_bit (i + 7) (of_int (v div 128) :: 'a word) = push_bit i (push_bit 7 (of_int (v div 128)))" by simp
  then show ?thesis using groups_or [of v, where 'a = 'a] by (metis push_bit_or)
qed

lemma leb_loop_step:
  assumes "upcoming s = b # r" "i < LENGTH('a::len)"
  shows "leb_loop i (res :: 'a word) s =
    (let res1 = res OR push_bit i (ucast (b AND 0x7F))
     in if b AND 0x80 = 0 then Inr ((res1, b, i), adv 1 s) else leb_loop (i + 7) res1 (adv 1 s))"
  by (subst leb_loop.simps) (use read_u1_at [OF assms(1)] assms(2) in \<open>simp del: One_nat_def\<close>)

lemma leb_loop_uleb:
  assumes "upcoming s = uleb n @ r" "i < LENGTH('a::len)" "n < 2 ^ (LENGTH('a) - i)"
  shows "\<exists>b j. leb_loop i (res :: 'a word) s = Inr ((res OR push_bit i (of_nat n), b, j), adv (length (uleb n)) s)"
  using assms
proof (induction n arbitrary: i res s rule: uleb.induct)
  case (1 n)
  show ?case
  proof (cases "n < 128")
    case True
    then have "uleb n = [of_nat n]" by (simp add: uleb.simps)
    with leb_loop_step [of s "of_nat n" r i res] 1(2,3) group_bytes(1) [OF True, where 'a = 'a] group_bytes(2) [OF True] show ?thesis by simp
  next
    case False
    then have e: "uleb n = of_nat (n mod 128 + 128) # uleb (n div 128)" by (simp add: uleb.simps)
    have i: "i + 7 < LENGTH('a)"
    proof (rule ccontr)
      assume "\<not> i + 7 < LENGTH('a)"
      then have "(2 :: nat) ^ (LENGTH('a) - i) \<le> 2 ^ 7" by (intro power_increasing) auto
      with 1(4) False show False by simp
    qed
    then have "LENGTH('a) - i = 7 + (LENGTH('a) - (i + 7))" by simp
    then have "(2 :: nat) ^ (LENGTH('a) - i) = 2 ^ 7 * 2 ^ (LENGTH('a) - (i + 7))" by (metis power_add)
    then have d: "n div 128 < 2 ^ (LENGTH('a) - (i + 7))" using 1(4) by (simp add: div_less_iff_less_mult mult.commute)
    have m: "n mod 128 < 128" by simp
    have u: "upcoming s = of_nat (n mod 128 + 128) # (uleb (n div 128) @ r)" using 1(2) e by simp
    note g = group_bytes(3) [OF m, where 'a = 'a] group_bytes(4) [OF m]
    let ?res = "res OR push_bit i (of_nat (n mod 128))"
    have "leb_loop i res s = leb_loop (i + 7) ?res (adv 1 s)"
      using leb_loop_step [OF u 1(3), of res] g by (simp del: of_nat_add)
    moreover obtain b j where "leb_loop (i + 7) ?res (adv 1 s) =
        Inr ((?res OR push_bit (i + 7) (of_nat (n div 128)), b, j), adv (length (uleb (n div 128))) (adv 1 s))"
      using 1(1) [OF False read_u1_next [OF u] i d] by blast
    moreover have "push_bit i (of_nat (n mod 128) :: 'a word) OR push_bit (i + 7) (of_nat (n div 128)) = push_bit i (of_nat n)"
    proof -
      have "(of_nat (n mod 128) :: 'a word) = of_int (int n mod 128)" "(of_nat (n div 128) :: 'a word) = of_int (int n div 128)"
        by (metis of_int_of_nat_eq of_nat_numeral zmod_int, metis of_int_of_nat_eq of_nat_numeral zdiv_int)
      with push_groups [of i "int n", where 'a = 'a] show ?thesis by simp
    qed
    ultimately show ?thesis using e by (simp add: or.assoc)
  qed
qed

lemma sign_or: "64 \<le> k \<Longrightarrow> k < 128 \<Longrightarrow> (k :: int) OR - 64 = k - 128"
proof -
  assume k: "64 \<le> k" "k < 128"
  have "list_all (\<lambda>k. (k :: int) OR - 64 = k - 128) [64..127]" by code_simp
  with k show ?thesis by (simp only: list_all_iff set_upto) simp
qed

lemma sleb_last:
  assumes "- 64 \<le> v" "v < 64"
  shows "ucast ((of_int (v mod 128) :: byte) AND 0x7F) OR - ucast ((of_int (v mod 128) :: byte) AND 0x40) = (of_int v :: 'a::len word)"
    "(of_int (v mod 128) :: byte) AND 0x80 = 0"
proof -
  define n where "n = nat (v mod 128)"
  have n: "n < 128" "v mod 128 = int n" by (simp_all add: n_def nat_less_iff)
  have b: "(of_int (v mod 128) :: byte) = of_nat n" using n(2) by simp
  show "(of_int (v mod 128) :: byte) AND 0x80 = 0" using group_bytes(2) [OF n(1)] b by simp
  show "ucast ((of_int (v mod 128) :: byte) AND 0x7F) OR - ucast ((of_int (v mod 128) :: byte) AND 0x40) = (of_int v :: 'a word)"
  proof (cases "v \<ge> 0")
    case True
    then have "v = int n" "n < 64" using assms n(2) by simp_all
    with b n group_bytes(1) [OF n(1), where 'a = 'a] bit_40 [OF n(1)] show ?thesis by simp
  next
    case False
    then have v: "v = int n - 128" using assms n(2) by presburger
    then have "64 \<le> int n" "int n < 128" using assms False n(1) by simp_all
    then have "of_int (int n) OR of_int (- 64) = (of_int (int n - 128) :: 'a word)" using sign_or by (metis of_int_or_eq)
    moreover have "\<not> n < 64" using \<open>64 \<le> int n\<close> by simp
    ultimately show ?thesis using b v group_bytes(1) [OF n(1), where 'a = 'a] bit_40 [OF n(1)] by simp
  qed
qed

lemma leb_loop_sleb:
  assumes "upcoming s = sleb v @ r" "i < LENGTH('a::len)" "- (2 ^ (LENGTH('a) - 1 - i)) \<le> v" "v < 2 ^ (LENGTH('a) - 1 - i)"
  shows "bindE (leb_loop i res s) (\<lambda>((x, n, j), s1). Inr (x OR push_bit j (- ucast (n AND 0x40)), s1)) =
    Inr (res OR push_bit i (of_int v) :: 'a word, adv (length (sleb v)) s)"
  using assms
proof (induction v arbitrary: i res s rule: sleb.induct)
  case (1 v)
  show ?case
  proof (cases "- 64 \<le> v \<and> v < 64")
    case True
    then have e: "sleb v = [of_int (v mod 128)]" by (simp add: sleb.simps)
    with 1(2) have u: "upcoming s = of_int (v mod 128) # r" by simp
    note st = leb_loop_step [OF u 1(3), of res]
    have "push_bit i (ucast ((of_int (v mod 128) :: byte) AND 0x7F)) OR push_bit i (- ucast ((of_int (v mod 128) :: byte) AND 0x40))
        = (push_bit i (of_int v) :: 'a word)"
      using sleb_last(1) [of v, where 'a = 'a] True by (metis push_bit_or)
    with st sleb_last(2) [of v] True e show ?thesis by (simp add: Let_def or.assoc)
  next
    case False
    then have e: "sleb v = of_int (v mod 128 + 128) # sleb (v div 128)" by (subst sleb.simps) simp
    have i: "i + 7 < LENGTH('a)"
    proof (rule ccontr)
      assume "\<not> i + 7 < LENGTH('a)"
      then have "(2 :: int) ^ (LENGTH('a) - 1 - i) \<le> 2 ^ 6" by (intro power_increasing) auto
      with 1(4,5) False show False by simp
    qed
    then have "LENGTH('a) - 1 - i = 7 + (LENGTH('a) - 1 - (i + 7))" by simp
    then have "(2 :: int) ^ (LENGTH('a) - 1 - i) = 2 ^ 7 * 2 ^ (LENGTH('a) - 1 - (i + 7))" by (metis power_add)
    then have d: "- (2 ^ (LENGTH('a) - 1 - (i + 7))) \<le> v div 128" "v div 128 < 2 ^ (LENGTH('a) - 1 - (i + 7))" using 1(4,5) by simp_all
    define n where "n = nat (v mod 128)"
    have n: "n < 128" "v mod 128 = int n" by (simp_all add: n_def nat_less_iff)
    have b: "(of_int (v mod 128 + 128) :: byte) = of_nat (n + 128)" using n(2) by simp
    have u: "upcoming s = of_nat (n + 128) # (sleb (v div 128) @ r)" using 1(2) e b by (simp del: of_nat_add)
    let ?res = "res OR push_bit i (of_int (v mod 128))"
    from leb_loop_step [OF u 1(3), of res] group_bytes(3) [OF n(1), where 'a = 'a] group_bytes(4) [OF n(1)] n(2)
    have "leb_loop i res s = leb_loop (i + 7) ?res (adv 1 s)" by (simp del: of_nat_add)
    with 1(1) [OF False read_u1_next [OF u] i d, of ?res] push_groups [of i v, where 'a = 'a] e
    show ?thesis by (simp add: or.assoc)
  qed
qed

lemma read_u8leb128_at:
  assumes "upcoming s = uleb n @ r" "n < 2 ^ 64"
  shows "read_u8leb128 s = Inr (of_nat n, adv (length (uleb n)) s)"
  using leb_loop_uleb [where 'a = 64, of s n r 0 0] assms by (auto simp: read_u8leb128_def)

lemma read_u4leb128_at:
  assumes "upcoming s = uleb n @ r" "n < 2 ^ 32"
  shows "read_u4leb128 s = Inr (of_nat n, adv (length (uleb n)) s)"
  using leb_loop_uleb [where 'a = 32, of s n r 0 0] assms by (auto simp: read_u4leb128_def)

lemma read_i8leb128_at:
  assumes "upcoming s = sleb v @ r" "- (2 ^ 63) \<le> v" "v < 2 ^ 63"
  shows "read_i8leb128 s = Inr (of_int v, adv (length (sleb v)) s)"
  using leb_loop_sleb [where 'a = 64, OF assms(1), of 0 0] assms(2,3) by (simp add: read_i8leb128_def)

section \<open>Arithmetic shift\<close>

lemma top_bit: "(d :: u64) AND 0x8000000000000000 \<noteq> 0 \<longleftrightarrow> bit d 63"
  using bit_iff_and_push_bit_not_eq_0 [of d 63] by simp

lemma bit_top: "bit (0x8000000000000000 :: u64) n \<longleftrightarrow> n = 63"
proof -
  have "bit (push_bit 63 1 :: u64) n \<longleftrightarrow> n = 63" by (auto simp only: bit_push_bit_iff bit_1_iff) auto
  then show ?thesis by simp
qed

lemma shra_step: "(if bit d 63 then drop_bit 1 d OR 0x8000000000000000 else drop_bit 1 d) = signed_drop_bit 1 (d :: u64)"
proof -
  define hb where "hb = (0x8000000000000000 :: u64)"
  have hb: "bit hb n \<longleftrightarrow> n = 63" for n unfolding hb_def by (rule bit_top)
  have "(if bit d 63 then drop_bit 1 d OR hb else drop_bit 1 d) = signed_drop_bit 1 d"
  proof (rule bit_word_eqI)
    fix n
    assume n: "n < LENGTH(64)"
    have "\<not> bit d 64" using bit_imp_le_length [of d 64] by auto
    with n show "bit (if bit d 63 then drop_bit 1 d OR hb else drop_bit 1 d) n \<longleftrightarrow> bit (signed_drop_bit 1 d) n"
      by (cases "n = 63") (auto simp: bit_signed_drop_bit_iff bit_or_iff bit_drop_bit_eq hb)
  qed
  then show ?thesis by (simp only: hb_def)
qed

lemma shra_loop_signed: "shra_loop k d = signed_drop_bit k d"
proof (induction k arbitrary: d)
  case (Suc k)
  have "shra_loop (Suc k) d = shra_loop k (signed_drop_bit 1 d)"
    using shra_step [of d] by (simp add: top_bit del: One_nat_def split: if_splits)
  with Suc show ?case by (simp add: signed_drop_bit_signed_drop_bit)
qed simp

lemma signed_drop_bit_div: "signed_drop_bit n (w :: u64) = word_of_int (sint w div 2 ^ n)"
proof -
  have "word_of_int (sint (signed_drop_bit n w)) = signed_drop_bit n w" by simp
  then show ?thesis by (simp add: sint_signed_drop_bit_eq drop_bit_eq_div)
qed

lemma shra_div: "shra d cnt = word_of_int (sint d div 2 ^ min (unat cnt) 63)"
proof (cases "cnt \<ge> 64")
  case True
  then have "unat cnt \<ge> 64" by (simp add: word_le_nat_alt)
  then have m: "min (unat cnt) 63 = 63" by simp
  have r: "- (2 ^ 63) \<le> sint d" "sint d < 2 ^ 63" using sint_greater_eq [of d] sint_less [of d] by simp_all
  have b: "bit d 63 \<longleftrightarrow> sint d < 0" using bit_last_iff [of d] by simp
  show ?thesis
  proof (cases "sint d < 0")
    case True
    then have "sint d div 2 ^ 63 = - 1" using r by (simp add: div_eq_minus1 int_div_pos_eq)
    with True b m \<open>cnt \<ge> 64\<close> show ?thesis by (simp add: shra_def top_bit)
  next
    case False
    then have "sint d div 2 ^ 63 = 0" using r by (simp add: div_pos_pos_trivial)
    with False b m \<open>cnt \<ge> 64\<close> show ?thesis by (simp add: shra_def top_bit)
  qed
next
  case False
  then have "unat cnt < 64" by (simp add: word_le_nat_alt)
  with False show ?thesis by (simp add: shra_def shra_loop_signed signed_drop_bit_div min_def)
qed

section \<open>Constants in the code\<close>

definition bytes8 :: "bool \<Rightarrow> u64 \<Rightarrow> byte list" where
  "bytes8 be c = (if be then rev (value_bytes 8 c) else value_bytes 8 c)"

definition bytes2 :: "bool \<Rightarrow> nat \<Rightarrow> byte list" where
  "bytes2 be k = (if be then [of_nat (k div 256), of_nat k] else [of_nat k, of_nat (k div 256)])"

lemma join16: "ucast (ucast (c :: u64) :: byte) OR push_bit 8 (ucast (ucast (drop_bit 8 c) :: byte)) = (ucast c :: u16)"
proof (rule bit_word_eqI)
  fix n
  assume "n < LENGTH(16)"
  then show "bit (ucast (ucast c :: byte) OR push_bit 8 (ucast (ucast (drop_bit 8 c) :: byte)) :: u16) n \<longleftrightarrow> bit (ucast c :: u16) n"
    by (cases "n < 8") (auto simp: bit_or_iff bit_unsigned_iff bit_push_bit_iff bit_drop_bit_eq)
qed

lemma join32: "ucast (ucast (c :: u64) :: u16) OR push_bit 16 (ucast (ucast (drop_bit 16 c) :: u16)) = (ucast c :: u32)"
proof (rule bit_word_eqI)
  fix n
  assume "n < LENGTH(32)"
  then show "bit (ucast (ucast c :: u16) OR push_bit 16 (ucast (ucast (drop_bit 16 c) :: u16)) :: u32) n \<longleftrightarrow> bit (ucast c :: u32) n"
    by (cases "n < 16") (auto simp: bit_or_iff bit_unsigned_iff bit_push_bit_iff bit_drop_bit_eq)
qed

lemma join64: "ucast (ucast (c :: u64) :: u32) OR push_bit 32 (ucast (ucast (drop_bit 32 c) :: u32)) = c"
proof (rule bit_word_eqI)
  fix n
  assume "n < LENGTH(64)"
  then show "bit (ucast (ucast c :: u32) OR push_bit 32 (ucast (ucast (drop_bit 32 c) :: u32)) :: u64) n \<longleftrightarrow> bit c n"
    by (cases "n < 32") (auto simp: bit_or_iff bit_unsigned_iff bit_push_bit_iff bit_drop_bit_eq)
qed

lemma read_u2_at:
  assumes "upcoming s = a # b # r"
  shows "read_u2 s = Inr (if vm_big_endian s then push_bit 8 (ucast a) OR ucast b else ucast a OR push_bit 8 (ucast b), adv 2 s)"
    "upcoming (adv 2 s) = r"
  using read_u1_at [OF assms] read_u1_at [OF read_u1_next [OF assms]] upcoming_adv [of s "[a, b]" r] assms
  by (simp_all add: read_u2_def numeral_2_eq_2)

lemma read_u4_at:
  assumes "upcoming s = a # b # c # d # r"
  shows "read_u4 s = Inr (if vm_big_endian s
      then push_bit 16 (ucast (push_bit 8 (ucast a) OR ucast b :: u16)) OR ucast (push_bit 8 (ucast c) OR ucast d :: u16)
      else ucast (ucast a OR push_bit 8 (ucast b) :: u16) OR push_bit 16 (ucast (ucast c OR push_bit 8 (ucast d) :: u16)), adv 4 s)"
    "upcoming (adv 4 s) = r"
  using read_u2_at [OF assms] read_u2_at(1) [OF read_u2_at(2) [OF assms]] upcoming_adv [of s "[a, b, c, d]" r] assms
  by (simp_all add: read_u4_def numeral_eq_Suc)

lemma read_u8_at:
  assumes "upcoming s = bytes8 (vm_big_endian s) c @ r"
  shows "read_u8 s = Inr (c, adv 8 s)"
proof -
  let ?b = "\<lambda>i. ucast (drop_bit (8 * i) c) :: byte"
  have v: "value_bytes 8 c = [ucast c, ?b 1, ?b 2, ?b 3, ?b 4, ?b 5, ?b 6, ?b 7]"
    by (simp add: eval_nat_numeral drop_bit_drop_bit)
  have j: "ucast (?b 0) OR push_bit 8 (ucast (?b 1)) = (ucast c :: u16)"
      "ucast (?b 2) OR push_bit 8 (ucast (?b 3)) = (ucast (drop_bit 16 c) :: u16)"
      "ucast (?b 4) OR push_bit 8 (ucast (?b 5)) = (ucast (drop_bit 32 c) :: u16)"
      "ucast (?b 6) OR push_bit 8 (ucast (?b 7)) = (ucast (drop_bit 48 c) :: u16)"
    using join16 [of c] join16 [of "drop_bit 16 c"] join16 [of "drop_bit 32 c"] join16 [of "drop_bit 48 c"]
    by (simp_all add: drop_bit_drop_bit)
  have k: "ucast (ucast c :: u16) OR push_bit 16 (ucast (ucast (drop_bit 16 c) :: u16)) = (ucast c :: u32)"
      "ucast (ucast (drop_bit 32 c) :: u16) OR push_bit 16 (ucast (ucast (drop_bit 48 c) :: u16)) = (ucast (drop_bit 32 c) :: u32)"
    using join32 [of c] join32 [of "drop_bit 32 c"] by (simp_all add: drop_bit_drop_bit)
  show ?thesis
  proof (cases "vm_big_endian s")
    case True
    then have u: "upcoming s = ?b 7 # ?b 6 # ?b 5 # ?b 4 # (?b 3 # ?b 2 # ?b 1 # ucast c # r)"
      using assms v by (simp add: bytes8_def)
    from read_u4_at [OF u] read_u4_at(1) [OF read_u4_at(2) [OF u]] True j k join64 [of c]
    show ?thesis by (simp add: read_u8_def or.commute)
  next
    case False
    then have u: "upcoming s = ucast c # ?b 1 # ?b 2 # ?b 3 # (?b 4 # ?b 5 # ?b 6 # ?b 7 # r)"
      using assms v by (simp add: bytes8_def)
    from read_u4_at [OF u] read_u4_at(1) [OF read_u4_at(2) [OF u]] False j k join64 [of c]
    show ?thesis by (simp add: read_u8_def)
  qed
qed

lemma read_u2_offset:
  assumes "upcoming s = bytes2 (vm_big_endian s) k @ r" "k < 2 ^ 15"
  shows "\<exists>offs. read_u2 s = Inr (offs, adv 2 s) \<and> sint offs = int k" "upcoming (adv 2 s) = r"
proof -
  have "(ucast (of_nat k :: byte) OR push_bit 8 (ucast (of_nat (k div 256) :: byte)) :: u16) = of_nat k"
  proof (rule bit_word_eqI)
    fix n
    assume "n < LENGTH(16)"
    then show "bit (ucast (of_nat k :: byte) OR push_bit 8 (ucast (of_nat (k div 256) :: byte)) :: u16) n \<longleftrightarrow> bit (of_nat k :: u16) n"
      using bit_drop_bit_eq [of 8 k]
      by (cases "n < 8") (auto simp: bit_or_iff bit_unsigned_iff bit_push_bit_iff bit_of_nat_iff drop_bit_eq_div)
  qed
  moreover have "sint (of_nat k :: u16) = int k"
    using assms(2) by (simp add: signed_of_nat signed_take_bit_int_eq_self)
  ultimately show "\<exists>offs. read_u2 s = Inr (offs, adv 2 s) \<and> sint offs = int k" "upcoming (adv 2 s) = r"
    using read_u2_at [of s _ _ r] assms(1) by (auto simp: bytes2_def or.commute split: if_splits)
qed

end
