(* ===== verification/VMExpr.thy ===== *)
theory VMExpr
  imports VMCode
begin

text \<open>
  What the DWARF machine (theory VM, src/agent/tcf/services/vm.c) computes: a reference semantics of address
  expressions, a compiler from expressions into the machine's code, and the proof that the machine computes the
  meaning of the expression. Then the instructions that do not do what they are for.
\<close>

unbundle bit_operations_syntax

section \<open>A compiler into the machine\<close>

text \<open>
  A reference semantics for address expressions, and the code for them. The machine has to compute what the
  expression means, errors included.
\<close>

datatype unop = Abs | Neg | Complement
datatype binop = And | Div | Minus | Mod | Mul | Or | Plus | Shl | Shr | Shra | Xor
datatype relop = Eq | Ge | Gt | Le | Lt | Ne

datatype dexpr =
    Const u64 | BReg u32 int | Deref dexpr | UnOp unop dexpr | BinOp binop dexpr dexpr | RelOp relop dexpr dexpr
  | Cond dexpr dexpr dexpr

text \<open>The meaning of an expression: registers, memory and the stack frame are those of the machine.\<close>

fun un_sem :: "unop \<Rightarrow> u64 \<Rightarrow> u64" where
  "un_sem Abs a = (if sint a < 0 then - a else a)"
| "un_sem Neg a = - a"
| "un_sem Complement a = NOT a"

fun bin_sem :: "binop \<Rightarrow> u64 \<Rightarrow> u64 \<Rightarrow> u64 vmr" where
  "bin_sem And a b = Inr (a AND b)"
| "bin_sem Div a b = (if b = 0 then inv_dwarf else Inr (a div b))"
| "bin_sem Minus a b = Inr (a - b)"
| "bin_sem Mod a b = (if b = 0 then inv_dwarf else Inr (a mod b))"
| "bin_sem Mul a b = Inr (a * b)"
| "bin_sem Or a b = Inr (a OR b)"
| "bin_sem Plus a b = Inr (a + b)"
| "bin_sem Shl a b = (if unat b \<ge> 64 then Inl Undefined else Inr (a * 2 ^ unat b))"
| "bin_sem Shr a b = (if unat b \<ge> 64 then Inl Undefined else Inr (a div 2 ^ unat b))"
| "bin_sem Shra a b = Inr (word_of_int (sint a div 2 ^ min (unat b) 63))"
| "bin_sem Xor a b = Inr (a XOR b)"

fun rel_sem :: "relop \<Rightarrow> u64 \<Rightarrow> u64 \<Rightarrow> bool" where
  "rel_sem Eq a b = (a = b)"
| "rel_sem Ge a b = (unat a \<ge> unat b)"
| "rel_sem Gt a b = (unat a > unat b)"
| "rel_sem Le a b = (unat a \<le> unat b)"
| "rel_sem Lt a b = (unat a < unat b)"
| "rel_sem Ne a b = (a \<noteq> b)"

fun sem :: "('r, 'f) vm_env \<Rightarrow> ('r, 'f) vm \<Rightarrow> dexpr \<Rightarrow> u64 vmr" where
  "sem env s (Const c) = Inr c"
| "sem env s (BReg n k) = bindE (reg_value env n s) (\<lambda>v. Inr (v + of_int k))"
| "sem env s (Deref e) = bindE (sem env s e) (\<lambda>a. read_memory env s a (vm_addr_size s))"
| "sem env s (UnOp p e) = bindE (sem env s e) (\<lambda>a. Inr (un_sem p a))"
| "sem env s (BinOp p e f) = bindE (sem env s e) (\<lambda>a. bindE (sem env s f) (\<lambda>b. bin_sem p a b))"
| "sem env s (RelOp p e f) = bindE (sem env s e) (\<lambda>a. bindE (sem env s f) (\<lambda>b. Inr (if rel_sem p a b then 1 else 0)))"
| "sem env s (Cond c e f) = bindE (sem env s c) (\<lambda>v. if v \<noteq> 0 then sem env s e else sem env s f)"

fun un_code :: "unop \<Rightarrow> byte" where
  "un_code Abs = 0x19" | "un_code Neg = 0x1f" | "un_code Complement = 0x20"

fun bin_code :: "binop \<Rightarrow> byte" where
  "bin_code And = 0x1a" | "bin_code Div = 0x1b" | "bin_code Minus = 0x1c" | "bin_code Mod = 0x1d" | "bin_code Mul = 0x1e"
| "bin_code Or = 0x21" | "bin_code Plus = 0x22" | "bin_code Shl = 0x24" | "bin_code Shr = 0x25" | "bin_code Shra = 0x26"
| "bin_code Xor = 0x27"

fun rel_code :: "relop \<Rightarrow> byte" where
  "rel_code Eq = 0x29" | "rel_code Ge = 0x2a" | "rel_code Gt = 0x2b" | "rel_code Le = 0x2c" | "rel_code Lt = 0x2d" | "rel_code Ne = 0x2e"

fun dcompile :: "bool \<Rightarrow> dexpr \<Rightarrow> byte list" where
  "dcompile be (Const c) = 0x0e # bytes8 be c"
| "dcompile be (BReg n k) = 0x92 # uleb (unat n) @ sleb k"
| "dcompile be (Deref e) = dcompile be e @ [0x06]"
| "dcompile be (UnOp p e) = dcompile be e @ [un_code p]"
| "dcompile be (BinOp p e f) = dcompile be e @ dcompile be f @ [bin_code p]"
| "dcompile be (RelOp p e f) = dcompile be e @ dcompile be f @ [rel_code p]"
| "dcompile be (Cond c e f) =
     dcompile be c @ [0x28] @ bytes2 be (length (dcompile be f) + 3) @ dcompile be f
       @ [0x2f] @ bytes2 be (length (dcompile be e)) @ dcompile be e"

text \<open>Register offsets fit 64 bits, jumps fit 16 bits.\<close>

fun dwf :: "bool \<Rightarrow> dexpr \<Rightarrow> bool" where
  "dwf be (Const c) = True"
| "dwf be (BReg n k) = (- (2 ^ 63) \<le> k \<and> k < 2 ^ 63)"
| "dwf be (Deref e) = dwf be e"
| "dwf be (UnOp p e) = dwf be e"
| "dwf be (BinOp p e f) = (dwf be e \<and> dwf be f)"
| "dwf be (RelOp p e f) = (dwf be e \<and> dwf be f)"
| "dwf be (Cond c e f) = (dwf be c \<and> dwf be e \<and> dwf be f \<and>
     length (dcompile be f) + 3 < 2 ^ 15 \<and> length (dcompile be e) < 2 ^ 15)"

section \<open>Running code\<close>

text \<open>\<open>k\<close> units of fuel lead from one state to another, or to an error.\<close>

definition runs :: "('r, 'f) vm_env \<Rightarrow> nat \<Rightarrow> ('r, 'f) vm \<Rightarrow> ('r, 'f) vm vmr \<Rightarrow> bool" where
  "runs env k s r \<longleftrightarrow>
     (\<forall>fuel. eval_loop env (k + fuel) s = (case r of Inl f \<Rightarrow> Some (Inl f) | Inr t \<Rightarrow> eval_loop env fuel t))"

lemma runs_trans: "runs env k s (Inr t) \<Longrightarrow> runs env j t r \<Longrightarrow> runs env (k + j) s r"
  by (simp add: runs_def add.assoc)

definition at :: "nat \<Rightarrow> (u64 \<times> byte) list \<Rightarrow> nat \<Rightarrow> ('r, 'f) vm \<Rightarrow> ('r, 'f) vm" where
  "at p stk mx s = s\<lparr>vm_code_pos := p, vm_stk := stk, vm_stk_max := mx\<rparr>"

lemma at_simps [simp]:
  "vm_stk (at p stk mx s) = stk" "vm_code_pos (at p stk mx s) = p" "vm_big_endian (at p stk mx s) = vm_big_endian s"
  "vm_addr_size (at p stk mx s) = vm_addr_size s" "vm_frame (at p stk mx s) = vm_frame s"
  "vm_code_len (at p stk mx s) = vm_code_len s" "at p stk mx (at q st my s) = at p stk mx s"
  "adv k (at p stk mx s) = at (p + k) stk mx s" "(at p stk mx s)\<lparr>vm_stk := st\<rparr> = at p st mx s"
  "(at p stk mx s)\<lparr>vm_code_pos := q\<rparr> = at q stk mx s"
  by (simp_all add: at_def adv_def)

lemma upcoming_at: "upcoming s = bs @ r \<Longrightarrow> upcoming (at (vm_code_pos s + length bs) stk mx s) = r"
proof -
  assume "upcoming s = bs @ r"
  from upcoming_adv [OF this] show ?thesis by (simp add: upcoming_def adv_def at_def)
qed

lemma read_memory_at [simp]: "read_memory env (at p stk mx s) = read_memory env s"
  by (intro ext) (simp add: read_memory_def)

lemma reg_value_at [simp]: "reg_value env n (at p stk mx s) = reg_value env n s"
  by (simp add: reg_value_def)

lemma sem_at [simp]: "sem env (at p stk mx s) e = sem env s e"
  by (induction e) (simp_all cong: if_cong)

text \<open>The value of \<open>v\<close> ends up on top of \<open>stk\<close>, or its error is raised.\<close>

definition gives :: "('r, 'f) vm_env \<Rightarrow> nat \<Rightarrow> ('r, 'f) vm \<Rightarrow> nat \<Rightarrow> (u64 \<times> byte) list \<Rightarrow> u64 vmr \<Rightarrow> bool" where
  "gives env k s q stk v \<longleftrightarrow>
     (case v of Inl f \<Rightarrow> \<exists>j \<le> k. runs env j s (Inl f)
      | Inr x \<Rightarrow> \<exists>j \<le> k. \<exists>t mx. runs env j s (Inr (at q ((x, t) # stk) mx s)))"

lemma gives_Inr: "runs env j s (Inr (at q ((x, t) # stk) mx s)) \<Longrightarrow> j \<le> k \<Longrightarrow> gives env k s q stk (Inr x)"
  by (auto simp: gives_def)

lemma gives_Inl: "runs env j s (Inl f) \<Longrightarrow> j \<le> k \<Longrightarrow> gives env k s q stk (Inl f)"
  by (auto simp: gives_def)

lemma gives_runs:
  assumes "runs env j s (Inr (at p st mx s))" "gives env m (at p st mx s) q stk v" "j + m \<le> k"
  shows "gives env k s q stk v"
proof (cases v)
  case (Inl f)
  with assms(2) obtain i where i: "i \<le> m" "runs env i (at p st mx s) (Inl f)" by (auto simp: gives_def)
  show ?thesis unfolding Inl by (rule gives_Inl [OF runs_trans [OF assms(1) i(2)]]) (use i(1) assms(3) in simp)
next
  case (Inr x)
  with assms(2) obtain i t my where i: "i \<le> m" "runs env i (at p st mx s) (Inr (at q ((x, t) # stk) my s))"
    by (auto simp: gives_def)
  show ?thesis unfolding Inr by (rule gives_Inr [OF runs_trans [OF assms(1) i(2)]]) (use i(1) assms(3) in simp)
qed

lemma gives_bind:
  assumes "gives env k s p stk v" "\<And>x t mx. v = Inr x \<Longrightarrow> gives env m (at p ((x, t) # stk) mx s) q stk' (w x)"
  shows "gives env (k + m) s q stk' (bindE v w)"
proof (cases v)
  case (Inl f)
  with assms(1) obtain j where "j \<le> k" "runs env j s (Inl f)" by (auto simp: gives_def)
  with Inl show ?thesis by (auto simp: gives_def intro!: exI [of _ j])
next
  case (Inr x)
  with assms(1) obtain j t mx where "j \<le> k" "runs env j s (Inr (at p ((x, t) # stk) mx s))" by (auto simp: gives_def)
  with gives_runs [OF this(2) assms(2) [OF Inr]] Inr show ?thesis by simp
qed

lemma gives_mono: "gives env k s q stk v \<Longrightarrow> k \<le> m \<Longrightarrow> gives env m s q stk v"
  by (cases v) (auto simp: gives_def intro: order_trans)

lemma runs_op:
  assumes u: "upcoming s = op # r" and "op \<noteq> OP_TCF_switch" "op \<noteq> OP_GNU_entry_value"
  shows "\<exists>mx. runs env 1 s (vm_op env op (at (vm_code_pos s + 1) (vm_stk s) mx s))"
proof -
  from read_u1_at [OF u] have "vm_code_pos s < vm_code_len s" "vm_code_pos s < length (vm_code s)" "vm_code s ! vm_code_pos s = op"
    by (auto simp: read_u1_def split: if_splits)
  moreover obtain mx where "snd (fetch s) = at (vm_code_pos s + 1) (vm_stk s) mx s"
    by (auto simp: fetch_def at_def simp del: One_nat_def)
  ultimately have "runs env 1 s (vm_op env op (at (vm_code_pos s + 1) (vm_stk s) mx s))" using assms(2,3)
    by (auto simp: runs_def fetch_def run_op_def bindOE_Some split: sum.splits)
  then show ?thesis ..
qed

lemma gives_op:
  assumes "upcoming s = op # r" "op \<noteq> OP_TCF_switch" "op \<noteq> OP_GNU_entry_value"
    and "\<And>mx. upcoming (at (vm_code_pos s + 1) (vm_stk s) mx s) = r \<Longrightarrow>
       vm_op env op (at (vm_code_pos s + 1) (vm_stk s) mx s) = bindE v (\<lambda>x. Inr (at q ((x, t) # stk) mx s))"
  shows "gives env 1 s q stk v"
proof -
  obtain mx where "runs env 1 s (vm_op env op (at (vm_code_pos s + 1) (vm_stk s) mx s))"
    using runs_op [OF assms(1-3)] by blast
  moreover have "upcoming (at (vm_code_pos s + 1) (vm_stk s) mx s) = r" using upcoming_at [of s "[op]"] assms(1) by simp
  ultimately have "runs env 1 s (bindE v (\<lambda>x. Inr (at q ((x, t) # stk) mx s)))" using assms(4) by simp
  then show ?thesis by (cases v) (auto intro: gives_Inr gives_Inl)
qed


section \<open>The compiled code computes the expression\<close>

lemmas vm_opcodes = OP_TCF_switch_def OP_GNU_entry_value_def

lemma bin_codes [simp]: "bin_code p \<noteq> OP_TCF_switch" "bin_code p \<noteq> OP_GNU_entry_value"
  by (cases p; simp add: vm_opcodes)+

lemma rel_codes [simp]: "rel_code p \<noteq> OP_TCF_switch" "rel_code p \<noteq> OP_GNU_entry_value"
  by (cases p; simp add: vm_opcodes)+

lemma un_codes [simp]: "un_code p \<noteq> OP_TCF_switch" "un_code p \<noteq> OP_GNU_entry_value" "vm_op env (un_code p) s = op_unary (un_code p) s"
  by (cases p; simp add: vm_opcodes vm_op_def)+

lemma unary_sem:
  "vm_stk s = (a, t) # stk \<Longrightarrow> op_unary (un_code p) s = Inr (s\<lparr>vm_stk := (un_sem p a, t) # stk\<rparr>)"
  using minus_eq_not_plus_1 [of a] by (cases p) (auto simp: op_unary_def set_top_def)

lemma unary_gives:
  assumes "upcoming s = un_code p # r" "vm_stk s = (a, t) # stk"
  shows "gives env 1 s (vm_code_pos s + 1) stk (Inr (un_sem p a))"
  using assms(2) by (intro gives_op [where t = t, OF assms(1)]) (simp_all add: unary_sem)

lemma shift_sem:
  "(if b \<ge> 64 then Inl Undefined else Inr (push_bit (unat b) a)) = bin_sem Shl a b"
  "(if b \<ge> 64 then Inl Undefined else Inr (drop_bit (unat b) a)) = bin_sem Shr a b"
  by (auto simp: word_le_nat_alt push_bit_eq_mult drop_bit_eq_div)

lemma binary_sem: "binary_value (bin_code p) a b = bin_sem p a b"
  by (cases p) (simp_all add: binary_value_def shift_sem shra_div del: bin_sem.simps(8,9))

lemma bin_code_op: "vm_op env (bin_code p) s = op_binary (bin_code p) s"
  by (cases p) (simp_all add: vm_op_def)

lemma binary_gives:
  assumes "upcoming s = bin_code p # r" "vm_stk s = (b, u) # (a, t) # stk"
  shows "gives env 1 s (vm_code_pos s + 1) stk (bin_sem p a b)"
  using assms(2)
  by (intro gives_op [where t = t, OF assms(1)]) (simp_all add: bin_code_op op_binary_def binary_sem)

lemma compare_sem: "compare_value (rel_code p) a b = rel_sem p a b"
  by (cases p) (auto simp: compare_value_def word_le_nat_alt word_less_nat_alt)

lemma rel_code_op: "vm_op env (rel_code p) s = op_compare (rel_code p) s"
  by (cases p) (simp_all add: vm_op_def)

lemma compare_gives:
  assumes "upcoming s = rel_code p # r" "vm_stk s = (b, u) # (a, t) # stk"
  shows "gives env 1 s (vm_code_pos s + 1) stk (Inr (if rel_sem p a b then 1 else 0))"
  using assms(2)
  by (intro gives_op [where t = TYPE_CLASS_CARDINAL, OF assms(1)])
    (simp_all add: rel_code_op op_compare_def compare_sem)

lemma deref_gives:
  assumes "upcoming s = 0x06 # r" "vm_stk s = (a, t) # stk"
  shows "gives env 1 s (vm_code_pos s + 1) stk (read_memory env s a (vm_addr_size s))"
  using assms(2)
  by (intro gives_op [where t = TYPE_CLASS_CARDINAL, OF assms(1)]) (simp_all add: vm_opcodes vm_op_def op_deref_def set_top_def)

lemma const_gives:
  assumes "upcoming s = 0x0e # bytes8 (vm_big_endian s) c @ r"
  shows "gives env 1 s (vm_code_pos s + 9) (vm_stk s) (Inr c)"
proof (rule gives_op [where t = TYPE_CLASS_CARDINAL, OF assms])
  fix mx
  let ?s = "at (vm_code_pos s + 1) (vm_stk s) mx s"
  assume u: "upcoming ?s = bytes8 (vm_big_endian s) c @ r"
  have "vm_op env 0x0e ?s = push_read TYPE_CLASS_CARDINAL (read_u8 ?s)" by (simp add: vm_op_def op_const_def)
  with read_u8_at [of ?s c r] u
  show "vm_op env 0x0e ?s = bindE (Inr c) (\<lambda>x. Inr (at (vm_code_pos s + 9) ((x, TYPE_CLASS_CARDINAL) # vm_stk s) mx s))"
    by (simp add: push_read_def push_def add.commute)
qed (simp_all add: vm_opcodes)

lemma breg_gives:
  assumes "upcoming s = 0x92 # uleb (unat n) @ sleb k @ r" "- (2 ^ 63) \<le> k" "k < 2 ^ 63"
  shows "gives env 1 s (vm_code_pos s + Suc (length (uleb (unat n)) + length (sleb k))) (vm_stk s) (sem env s (BReg n k))"
proof (rule gives_op [where t = TYPE_CLASS_CARDINAL, OF assms(1)])
  fix mx
  let ?s = "at (vm_code_pos s + 1) (vm_stk s) mx s"
  assume u: "upcoming ?s = uleb (unat n) @ sleb k @ r"
  have n: "read_u4leb128 ?s = Inr (n, adv (length (uleb (unat n))) ?s)"
    using read_u4leb128_at [OF u] unsigned_less [of n] by simp
  have k: "read_i8leb128 (adv (length (uleb (unat n))) ?s) = Inr (of_int k, adv (length (sleb k)) (adv (length (uleb (unat n))) ?s))"
    by (rule read_i8leb128_at [OF upcoming_adv [OF u] assms(2,3)])
  have "vm_op env 0x92 ?s = op_breg env 0x92 ?s" by (simp add: vm_op_def)
  with n k show "vm_op env 0x92 ?s = bindE (sem env s (BReg n k)) (\<lambda>x. Inr
      (at (vm_code_pos s + Suc (length (uleb (unat n)) + length (sleb k))) ((x, TYPE_CLASS_CARDINAL) # vm_stk s) mx s))"
    by (simp add: op_breg_def push_based_def push_def bindE_assoc add.assoc)
qed (simp_all add: vm_opcodes)

text \<open>A jump of \<open>k\<close> bytes.\<close>

lemma jump_runs:
  assumes "upcoming s = bytes2 (vm_big_endian s) k @ r" "k \<le> length r" "k < 2 ^ 15"
  shows "\<exists>offs. read_u2 s = Inr (offs, adv 2 s) \<and> jump_by offs (adv 2 s) = Inr (adv (2 + k) s)"
proof -
  obtain offs where o: "read_u2 s = Inr (offs, adv 2 s)" "sint offs = int k" using read_u2_offset(1) [OF assms(1,3)] by blast
  have "length (upcoming s) = 2 + length r" using assms(1) by (simp add: bytes2_def)
  then have "vm_code_pos s + 2 + k \<le> vm_code_len s" using assms(2) by (simp add: upcoming_def)
  with o show ?thesis by (auto simp: jump_by_def adv_def Let_def nat_int_add)
qed

lemma skip_runs:
  assumes "upcoming s = 0x2f # bytes2 (vm_big_endian s) k @ r" "k \<le> length r" "k < 2 ^ 15"
  shows "\<exists>mx. runs env 1 s (Inr (at (vm_code_pos s + 3 + k) (vm_stk s) mx s))"
proof -
  obtain mx where mx: "runs env 1 s (vm_op env 0x2f (at (vm_code_pos s + 1) (vm_stk s) mx s))"
    using runs_op [OF assms(1)] by (auto simp: vm_opcodes)
  let ?s = "at (vm_code_pos s + 1) (vm_stk s) mx s"
  have "upcoming ?s = bytes2 (vm_big_endian s) k @ r" using upcoming_at [of s "[0x2f]"] assms(1) by simp
  then obtain offs where "read_u2 ?s = Inr (offs, adv 2 ?s)" "jump_by offs (adv 2 ?s) = Inr (adv (2 + k) ?s)"
    using jump_runs [of ?s k r] assms(2,3) by auto
  then have "vm_op env 0x2f ?s = Inr (at (vm_code_pos s + 3 + k) (vm_stk s) mx s)"
    by (simp add: vm_op_def op_skip_def numeral_3_eq_3)
  with mx show ?thesis by (intro exI [of _ mx]) (simp only:)
qed

lemma bra_runs:
  assumes "upcoming s = 0x28 # bytes2 (vm_big_endian s) k @ r" "k \<le> length r" "k < 2 ^ 15" "vm_stk s = (v, t) # stk"
  shows "\<exists>mx. runs env 1 s (Inr (at (vm_code_pos s + 3 + (if v \<noteq> 0 then k else 0)) stk mx s))"
proof -
  obtain mx where mx: "runs env 1 s (vm_op env 0x28 (at (vm_code_pos s + 1) (vm_stk s) mx s))"
    using runs_op [OF assms(1)] by (auto simp: vm_opcodes)
  let ?s = "at (vm_code_pos s + 1) (vm_stk s) mx s"
  have "upcoming ?s = bytes2 (vm_big_endian s) k @ r" using upcoming_at [of s "[0x28]"] assms(1) by simp
  then obtain offs where "read_u2 ?s = Inr (offs, adv 2 ?s)" "jump_by offs (adv 2 ?s) = Inr (adv (2 + k) ?s)"
    using jump_runs [of ?s k r] assms(2,3) by auto
  then have "vm_op env 0x28 ?s = Inr (at (vm_code_pos s + 3 + (if v \<noteq> 0 then k else 0)) stk mx s)"
    using assms(4) by (simp add: vm_op_def op_bra_def numeral_3_eq_3)
  with mx show ?thesis by (intro exI [of _ mx]) (simp only:)
qed

lemma length_bytes [simp]: "length (bytes8 be c) = 8" "length (bytes2 be k) = 2"
  by (simp_all add: bytes8_def bytes2_def)

lemma two_gives:
  assumes e: "gives env k s (vm_code_pos s + k) (vm_stk s) v"
    and f: "\<And>x t mx. gives env m (at (vm_code_pos s + k) ((x, t) # vm_stk s) mx s) (vm_code_pos s + k + m) ((x, t) # vm_stk s) w"
    and op: "\<And>x t y u mx. gives env 1 (at (vm_code_pos s + k + m) ((y, u) # (x, t) # vm_stk s) mx s)
      (vm_code_pos s + k + m + 1) (vm_stk s) (h x y)"
  shows "gives env (k + (m + 1)) s (vm_code_pos s + k + m + 1) (vm_stk s) (bindE v (\<lambda>x. bindE w (h x)))"
proof (rule gives_bind [OF e])
  fix x t mx
  show "gives env (m + 1) (at (vm_code_pos s + k) ((x, t) # vm_stk s) mx s) (vm_code_pos s + k + m + 1) (vm_stk s) (bindE w (h x))"
    by (rule gives_bind [OF f [of x t mx]]) (simp only: at_simps op)
qed

lemma cond_gives:
  assumes w: "vm_big_endian s = be" "length fc + 3 < 2 ^ 15" "length ec < 2 ^ 15"
    and u: "upcoming s = 0x28 # bytes2 be (length fc + 3) @ fc @ 0x2f # bytes2 be (length ec) @ ec @ r"
    and v: "vm_stk s = (v, t) # stk"
    and e: "\<And>p mx. upcoming (at p stk mx s) = ec @ r \<Longrightarrow> gives env (length ec) (at p stk mx s) (p + length ec) stk x"
    and f: "\<And>p mx. upcoming (at p stk mx s) = fc @ 0x2f # bytes2 be (length ec) @ ec @ r \<Longrightarrow>
      gives env (length fc) (at p stk mx s) (p + length fc) stk y"
  shows "gives env (length ec + length fc + 2) s (vm_code_pos s + 3 + length fc + 3 + length ec) stk (if v \<noteq> 0 then x else y)"
proof (cases "v = 0")
  case True
  obtain mx where bra: "runs env 1 s (Inr (at (vm_code_pos s + 3) stk mx s))"
    using bra_runs [of s "length fc + 3" _ v t stk env] u w v True by auto
  have "upcoming (at (vm_code_pos s + 3) stk mx s) = fc @ 0x2f # bytes2 be (length ec) @ ec @ r"
    using upcoming_at [of s "0x28 # bytes2 be (length fc + 3)"] u by (simp add: numeral_3_eq_3)
  note y = f [OF this]
  let ?p = "vm_code_pos s + 3 + length fc"
  have skip: "\<exists>mz. runs env 1 (at ?p st my s) (Inr (at (vm_code_pos s + 3 + length fc + 3 + length ec) st mz s))" for st my
  proof -
    have "upcoming (at ?p st my s) = 0x2f # bytes2 be (length ec) @ ec @ r"
      using upcoming_at [of s "0x28 # bytes2 be (length fc + 3) @ fc"] u by (simp add: numeral_3_eq_3)
    from skip_runs [of "at ?p st my s" "length ec" "ec @ r" env] this w
    show ?thesis by (simp add: add.commute add.left_commute)
  qed
  have "gives env (length fc + 1) (at (vm_code_pos s + 3) stk mx s) (vm_code_pos s + 3 + length fc + 3 + length ec) stk y"
  proof (cases y)
    case (Inl a)
    with y show ?thesis by (auto simp: gives_def intro: le_SucI)
  next
    case (Inr a)
    with y obtain j t my where "j \<le> length fc" "runs env j (at (vm_code_pos s + 3) stk mx s) (Inr (at ?p ((a, t) # stk) my s))"
      by (auto simp: gives_def)
    moreover obtain mz where
      "runs env 1 (at ?p ((a, t) # stk) my s) (Inr (at (vm_code_pos s + 3 + length fc + 3 + length ec) ((a, t) # stk) mz s))"
      using skip by blast
    ultimately have "runs env (j + 1) (at (vm_code_pos s + 3) stk mx s)
        (Inr (at (vm_code_pos s + 3 + length fc + 3 + length ec) ((a, t) # stk) mz (at (vm_code_pos s + 3) stk mx s)))"
      unfolding at_simps by (blast intro: runs_trans)
    then show ?thesis unfolding Inr by (rule gives_Inr) (use \<open>j \<le> length fc\<close> in simp)
  qed
  from gives_runs [OF bra this] True show ?thesis by simp
next
  case False
  obtain mx where bra: "runs env 1 s (Inr (at (vm_code_pos s + 3 + length fc + 3) stk mx s))"
    using bra_runs [of s "length fc + 3" _ v t stk env] u w v False by (auto simp: add.assoc)
  have "upcoming (at (vm_code_pos s + 3 + length fc + 3) stk mx s) = ec @ r"
    using upcoming_at [of s "0x28 # bytes2 be (length fc + 3) @ fc @ 0x2f # bytes2 be (length ec)"] u by (simp add: numeral_3_eq_3)
  from gives_runs [OF _ e [OF this]] bra False show ?thesis by (simp add: add.commute add.left_commute)
qed

lemma compile_gives:
  assumes "vm_big_endian s = be" "dwf be e" "upcoming s = dcompile be e @ r"
  shows "gives env (length (dcompile be e)) s (vm_code_pos s + length (dcompile be e)) (vm_stk s) (sem env s e)"
  using assms
proof (induction e arbitrary: s r)
  case (Const c)
  then show ?case using gives_mono [OF const_gives [of s c r env]] by simp
next
  case (BReg n k)
  then show ?case using gives_mono [OF breg_gives [of s n k r env]] by simp
next
  case (Deref e)
  let ?c = "dcompile be e"
  have u: "upcoming s = ?c @ 0x06 # r" using Deref.prems by simp
  have "gives env (length ?c + 1) s (vm_code_pos s + length ?c + 1) (vm_stk s)
      (bindE (sem env s e) (\<lambda>a. read_memory env s a (vm_addr_size s)))"
    using Deref.prems deref_gives [OF upcoming_at [OF u]] by (intro gives_bind [OF Deref.IH [OF _ _ u]]) simp_all
  then show ?case by simp
next
  case (UnOp p e)
  let ?c = "dcompile be e"
  have u: "upcoming s = ?c @ un_code p # r" using UnOp.prems by simp
  have "gives env (length ?c + 1) s (vm_code_pos s + length ?c + 1) (vm_stk s) (bindE (sem env s e) (\<lambda>a. Inr (un_sem p a)))"
    using UnOp.prems unary_gives [OF upcoming_at [OF u]] by (intro gives_bind [OF UnOp.IH [OF _ _ u]]) simp_all
  then show ?case by simp
next
  case (BinOp p e f)
  let ?c = "dcompile be e" and ?d = "dcompile be f"
  have u: "upcoming s = ?c @ ?d @ bin_code p # r" using BinOp.prems by simp
  have u2: "upcoming (at (vm_code_pos s + length ?c + length ?d) stk mx s) = bin_code p # r" for stk mx
    using upcoming_at [of s "?c @ ?d"] u by (simp add: add.assoc)
  have "gives env (length ?c + (length ?d + 1)) s (vm_code_pos s + length ?c + length ?d + 1) (vm_stk s)
      (bindE (sem env s e) (\<lambda>a. bindE (sem env s f) (\<lambda>b. bin_sem p a b)))"
    using BinOp.prems BinOp.IH(2) [OF _ _ upcoming_at [OF u]] binary_gives [OF u2]
    by (intro two_gives [OF BinOp.IH(1) [OF _ _ u]]) simp_all
  then show ?case by (simp add: add.assoc)
next
  case (RelOp p e f)
  let ?c = "dcompile be e" and ?d = "dcompile be f"
  have u: "upcoming s = ?c @ ?d @ rel_code p # r" using RelOp.prems by simp
  have u2: "upcoming (at (vm_code_pos s + length ?c + length ?d) stk mx s) = rel_code p # r" for stk mx
    using upcoming_at [of s "?c @ ?d"] u by (simp add: add.assoc)
  have "gives env (length ?c + (length ?d + 1)) s (vm_code_pos s + length ?c + length ?d + 1) (vm_stk s)
      (bindE (sem env s e) (\<lambda>a. bindE (sem env s f) (\<lambda>b. Inr (if rel_sem p a b then 1 else 0))))"
    using RelOp.prems RelOp.IH(2) [OF _ _ upcoming_at [OF u]] compare_gives [OF u2]
    by (intro two_gives [OF RelOp.IH(1) [OF _ _ u]]) simp_all
  then show ?case by (simp add: add.assoc)
next
  case (Cond c e f)
  let ?c = "dcompile be c" and ?e = "dcompile be e" and ?f = "dcompile be f"
  have w: "dwf be c" "dwf be e" "dwf be f" "length ?f + 3 < 2 ^ 15" "length ?e < 2 ^ 15" using Cond.prems by simp_all
  have u: "upcoming s = ?c @ 0x28 # bytes2 be (length ?f + 3) @ ?f @ 0x2f # bytes2 be (length ?e) @ ?e @ r"
    using Cond.prems by simp
  have e: "gives env (length ?e) (at p (vm_stk s) mx s) (p + length ?e) (vm_stk s) (sem env s e)"
    if "upcoming (at p (vm_stk s) mx s) = ?e @ r" for p mx
    using Cond.IH(2) [of "at p (vm_stk s) mx s" r] that w Cond.prems(1) by simp
  have f: "gives env (length ?f) (at p (vm_stk s) mx s) (p + length ?f) (vm_stk s) (sem env s f)"
    if "upcoming (at p (vm_stk s) mx s) = ?f @ 0x2f # bytes2 be (length ?e) @ ?e @ r" for p mx
    using Cond.IH(3) [of "at p (vm_stk s) mx s"] that w Cond.prems(1) by simp
  have "gives env (length ?c + (length ?e + length ?f + 2)) s (vm_code_pos s + length ?c + 3 + length ?f + 3 + length ?e)
      (vm_stk s) (sem env s (Cond c e f))"
    unfolding sem.simps
  proof (rule gives_bind [OF Cond.IH(1) [OF _ w(1) u]])
    fix v t mx
    let ?s = "at (vm_code_pos s + length ?c) ((v, t) # vm_stk s) mx s"
    have "gives env (length ?e + length ?f + 2) ?s (vm_code_pos ?s + 3 + length ?f + 3 + length ?e) (vm_stk s)
        (if v \<noteq> 0 then sem env s e else sem env s f)"
      by (rule cond_gives [OF _ w(4,5) upcoming_at [OF u]])
        (use Cond.prems(1) e f in simp_all)
    then show "gives env (length ?e + length ?f + 2) ?s (vm_code_pos s + length ?c + 3 + length ?f + 3 + length ?e) (vm_stk s)
        (if v \<noteq> 0 then sem env s e else sem env s f)"
      by simp
  qed (use Cond.prems in simp)
  from gives_mono [OF this, of "length (dcompile be (Cond c e f))"] show ?case by (simp add: numeral_3_eq_3 add.assoc)
qed

lemma sem_reset [simp]: "sem env (s\<lparr>vm_implicit := i, vm_value := v, vm_reg_def := d\<rparr>) e = sem env s e"
  by (induction e) (simp_all add: reg_value_def read_memory_def cong: if_cong)

lemma dcompile_not_empty [simp]: "dcompile be e \<noteq> []"
  by (cases e) simp_all

lemma eval_more: "runs env j s r \<Longrightarrow> j \<le> fuel \<Longrightarrow>
    eval_loop env fuel s = (case r of Inl f \<Rightarrow> Some (Inl f) | Inr t \<Rightarrow> eval_loop env (fuel - j) t)"
  by (metis runs_def le_add_diff_inverse)

text \<open>
  C2: The machine computes what the code means: on the code for an expression (constants of either byte order,
  registers with offsets, memory reads, arithmetic, comparisons, conditionals compiled into \<open>OP_bra\<close> and
  \<open>OP_skip\<close>) evaluation ends within one step for each byte, with the value of the expression alone
  on the stack, or with the very error that the expression has.
\<close>

theorem vm_compile_correct:
  assumes "vm_code s = dcompile (vm_big_endian s) e" "vm_code_len s = length (vm_code s)" "vm_code_pos s = 0" "vm_stk s = []"
    and "dwf (vm_big_endian s) e" "length (vm_code s) < fuel"
  shows "case sem env s e of
      Inl f \<Rightarrow> evaluate_vm_expression env fuel s = Some (Inl f)
    | Inr v \<Rightarrow> (\<exists>s' t. evaluate_vm_expression env fuel s = Some (Inr s') \<and> vm_stk s' = [(v, t)] \<and> vm_pieces s' = vm_pieces s)"
proof -
  let ?s = "s\<lparr>vm_implicit := 0, vm_value := None, vm_reg_def := None\<rparr>"
  let ?c = "dcompile (vm_big_endian s) e"
  have "upcoming ?s = ?c @ []" using assms(1-3) by (simp add: upcoming_def)
  from compile_gives [OF _ _ this, of env] assms
  have g: "gives env (length ?c) ?s (length ?c) [] (sem env s e)" by simp
  have ev: "evaluate_vm_expression env fuel s = bindOE (eval_loop env fuel ?s) (\<lambda>s1. Some (Inr (finish env s1)))"
    using assms(1,2) by (simp add: evaluate_vm_expression_def evaluate_with_def not_empty_def)
  show ?thesis
  proof (cases "sem env s e")
    case (Inl f)
    with g obtain j where "j \<le> length ?c" "runs env j ?s (Inl f)" by (auto simp: gives_def)
    with eval_more [of env j ?s "Inl f" fuel] assms(1,6) Inl show ?thesis by (simp add: ev)
  next
    case (Inr v)
    with g obtain j t mx where j: "j \<le> length ?c" "runs env j ?s (Inr (at (length ?c) [(v, t)] mx ?s))" by (auto simp: gives_def)
    let ?t = "at (length ?c) [(v, t)] mx ?s"
    have "eval_loop env fuel ?s = eval_loop env (fuel - j) ?t" using eval_more [OF j(2), of fuel] j(1) assms(1,6) by simp
    moreover obtain k where "fuel - j = Suc k" using j(1) assms(1,6) by (cases "fuel - j") auto
    ultimately have "eval_loop env fuel ?s = Some (Inr ?t)" using assms(1,2) by simp
    moreover have "finish env ?t = ?t" by (simp add: finish_def at_def)
    ultimately show ?thesis using Inr by (simp add: ev) (simp add: at_def)
  qed
qed
definition sample_expr :: dexpr where
  "sample_expr = Cond (RelOp Lt (BReg 1 (- 3)) (Const 4)) (BinOp Plus (Deref (BReg 0 0x20)) (Const 1)) (UnOp Neg (Const 9))"

lemma sample_sem: "sem sample_env (sample_state True code) sample_expr = Inr 0x20212224"
  by code_simp

lemma sample_length: "length (dcompile True sample_expr) = 43" "dwf True sample_expr"
  by (simp_all add: sample_expr_def uleb.simps sleb.simps)

theorem vm_compile_correct_witness:
  "\<exists>s' t. evaluate_vm_expression sample_env 60 (sample_state True (dcompile True sample_expr)) = Some (Inr s') \<and> vm_stk s' = [(0x20212224, t)]"
  using vm_compile_correct [of "sample_state True (dcompile True sample_expr)" sample_expr 60 sample_env]
  by (auto simp: sample_sem sample_length)

section \<open>LEB128 and shifts\<close>

text \<open>
  Signed LEB128 operands: whatever stands before and behind it in the code, the encoding of a number of 64 bits is
  read back as that number, and the position moves behind it.
\<close>

theorem sleb128_roundtrip:
  assumes "vm_code s = pre @ sleb v @ post" "vm_code_pos s = length pre" "vm_code_len s = length (vm_code s)"
    and "- (2 ^ 63) \<le> v" "v < 2 ^ 63"
  shows "read_i8leb128 s = Inr (word_of_int v, s\<lparr>vm_code_pos := length pre + length (sleb v)\<rparr>)"
  using read_i8leb128_at [of s v post] assms by (simp add: upcoming_def adv_def)

theorem sleb128_roundtrip_witness:
  "read_i8leb128 (sample_state True (sleb (- 300) @ [0x22])) =
     Inr (word_of_int (- 300), (sample_state True (sleb (- 300) @ [0x22]))\<lparr>vm_code_pos := length (sleb (- 300))\<rparr>)"
  using sleb128_roundtrip [of "sample_state True (sleb (- 300) @ [0x22])" "[]" "- 300" "[0x22]"] by simp

text \<open>Unsigned LEB128 operands, of 64 and of 32 bits, are read back as they were encoded.\<close>

theorem uleb128_roundtrip:
  assumes "vm_code s = pre @ uleb n @ post" "vm_code_pos s = length pre" "vm_code_len s = length (vm_code s)"
  shows "(n < 2 ^ 64 \<longrightarrow> read_u8leb128 s = Inr (of_nat n, s\<lparr>vm_code_pos := length pre + length (uleb n)\<rparr>)) \<and>
    (n < 2 ^ 32 \<longrightarrow> read_u4leb128 s = Inr (of_nat n, s\<lparr>vm_code_pos := length pre + length (uleb n)\<rparr>))"
  using read_u8leb128_at [of s n post] read_u4leb128_at [of s n post] assms by (simp add: upcoming_def adv_def)

theorem uleb128_roundtrip_witness:
  "read_u4leb128 (sample_state True (uleb 100000)) =
     Inr (of_nat 100000, (sample_state True (uleb 100000))\<lparr>vm_code_pos := length (uleb 100000)\<rparr>)"
  using uleb128_roundtrip [of "sample_state True (uleb 100000)" "[]" 100000 "[]"] by simp

text \<open>
  \<open>OP_shra\<close>, which shifts bit by bit: the signed quotient by the power of two, rounded down, for every count.
\<close>

theorem shra_rounds_down: "op_binary 0x26 (s\<lparr>vm_stk := (cnt, u) # (d, t) # r\<rparr>) =
    Inr (s\<lparr>vm_stk := (word_of_int (sint d div 2 ^ min (unat cnt) 63), t) # r\<rparr>)"
  by (simp add: op_binary_def binary_value_def shra_div)

section \<open>Instructions that do something else\<close>

text \<open>
  \<open>OP_rot\<close> moves the three values as it should, not their types: the type of the former top goes to the
  middle, and the one at the bottom stays. With another type at the bottom than at the top the entries are torn.
\<close>

theorem rot_tears_types:
  "stack_shuffle 0x17 ((a, ta) # (b, tb) # (c, tc) # r) = Inr ((b, tb) # (c, ta) # (a, tc) # r) \<and>
   (stack_shuffle 0x17 ((a, ta) # (b, tb) # (c, tc) # r) = Inr ((b, tb) # (c, tc) # (a, ta) # r) \<longleftrightarrow> ta = tc)"
  by (auto simp: stack_shuffle_def)

text \<open>
  \<open>OP_GNU_convert\<close> to an unsigned type narrower than eight bytes: the mask is one bit short, so
  the result is the value modulo half of the range of the type; the value is kept only when it lies in the lower half.
\<close>

theorem convert_loses_bit:
  assumes "is_unsigned_type ftype" "0 < tsz" "tsz < 8" "vm_stk s = (v, t) # r"
    and "read_u4leb128 s = Inr (ftype, s1)" "read_u4leb128 s1 = Inr (tsz, s2)"
  shows "op_convert s = Inr (set_top (of_nat (unat v mod 2 ^ (8 * unat tsz - 1))) TYPE_CLASS_CARDINAL s2)"
proof -
  have z: "unat tsz < 8" "unat tsz \<noteq> 0" using assms(2,3) by (simp_all add: word_less_nat_alt unat_gt_0)
  let ?k = "8 * unat tsz - 1"
  have "v AND (push_bit ?k 1 - 1) = take_bit ?k v" by (simp add: take_bit_eq_mask mask_eq_exp_minus_1 push_bit_eq_mult)
  also have "\<dots> = of_nat (unat v mod 2 ^ ?k)" 
  proof -
    have "take_bit ?k v = of_nat (unat (take_bit ?k v))" by simp
    also have "unat (take_bit ?k v) = unat v mod 2 ^ ?k" by (simp only: unsigned_take_bit_eq) (simp add: take_bit_eq_mod)
    finally show ?thesis .
  qed
  finally show ?thesis using assms z by (simp add: op_convert_def sign_bit_def mult.commute Let_def)
qed

theorem convert_loses_bit_witness:
  "op_convert ((sample_state True [0x07, 0x01])\<lparr>vm_stk := [(0xff, TYPE_CLASS_INTEGER)]\<rparr>) =
     Inr (set_top 0x7f TYPE_CLASS_CARDINAL ((sample_state True [0x07, 0x01])\<lparr>vm_stk := [(0xff, TYPE_CLASS_INTEGER)], vm_code_pos := Suc (Suc 0)\<rparr>))"
proof -
  let ?s = "(sample_state True [0x07, 0x01])\<lparr>vm_stk := [(0xff, TYPE_CLASS_INTEGER)]\<rparr>"
  have u: "upcoming ?s = uleb 7 @ [0x01]" "upcoming (adv 1 ?s) = uleb 1 @ []"
    by (simp_all add: upcoming_def uleb.simps adv_def sample_state_def)
  have r: "read_u4leb128 ?s = Inr (7, adv 1 ?s)" "read_u4leb128 (adv 1 ?s) = Inr (1, adv (Suc (Suc 0)) ?s)"
    using read_u4leb128_at [OF u(1)] read_u4leb128_at [OF u(2)] by (simp_all add: uleb.simps)
  have "op_convert ?s = Inr (set_top (of_nat (unat (0xff :: u64) mod 2 ^ (8 * unat (1 :: u32) - 1))) TYPE_CLASS_CARDINAL (adv (Suc (Suc 0)) ?s))"
    by (rule convert_loses_bit [OF _ _ _ _ r]) (simp_all add: is_unsigned_type_def)
  then show ?thesis by (simp add: adv_def sample_state_def)
qed

text \<open>
  \<open>OP_deref_size\<close> with a size operand above eight has the memory written past the end of the buffer of
  \<open>read_memory\<close>: the operand of the code is not checked, whatever the address.
\<close>

theorem deref_size_overflow:
  assumes "vm_stk s = (a, t) # r" "read_u1 s = Inr (n, s1)" "8 < unat n"
  shows "vm_op env 0x94 s = Inl Undefined"
  using assms by (simp add: vm_op_def op_deref_def read_memory_def)

theorem deref_size_overflow_witness:
  "vm_op sample_env 0x94 ((sample_state True [9])\<lparr>vm_stk := [(0x1000, TYPE_CLASS_CARDINAL)]\<rparr>) = Inl Undefined"
  using deref_size_overflow [of "(sample_state True [9])\<lparr>vm_stk := [(0x1000, TYPE_CLASS_CARDINAL)]\<rparr>" "0x1000" TYPE_CLASS_CARDINAL "[]" 9]
  by (simp add: read_u1_def)

end
