(* ===== verification/Events.thy ===== *)
theory Events
  imports Prelude "HOL-Library.Multiset"
begin

text \<open>
  The event queue manager: src/agent/tcf/framework/events.c. All of the agent runs in the event loop: handlers are
  called one after the other by one thread, other threads only post.

  \<open>events\<close> is the static data of events.c; a linked list of nodes is a list, a node has the address of its memory.
  Addresses below \<open>EVENT_BUF_SIZE\<close> are those of \<open>event_buf\<close>; \<open>loc_alloc\<close> gives others. \<open>None\<close>: an assertion
  fails. What another thread or the clock decides is an argument: the time, the tick count, the address that
  \<open>loc_alloc\<close> returns. Each critical section of \<open>event_lock\<close> is one step.
\<close>

section \<open>Time\<close>

text \<open>The fields of \<open>struct timespec\<close> have 64 bits; the seconds of a clock and a delay stay far below their range.\<close>

datatype timespec = Timespec (tv_sec: int) (tv_nsec: int)

instantiation timespec :: linorder
begin

definition less_eq_timespec :: "timespec \<Rightarrow> timespec \<Rightarrow> bool" where
  "s \<le> t \<longleftrightarrow> tv_sec s < tv_sec t \<or> tv_sec s = tv_sec t \<and> tv_nsec s \<le> tv_nsec t"

definition less_timespec :: "timespec \<Rightarrow> timespec \<Rightarrow> bool" where
  "s < t \<longleftrightarrow> tv_sec s < tv_sec t \<or> tv_sec s = tv_sec t \<and> tv_nsec s < tv_nsec t"

instance
proof
  fix s t u :: timespec
  show "s < t \<longleftrightarrow> s \<le> t \<and> \<not> t \<le> s" "s \<le> s" "s \<le> t \<or> t \<le> s"
    by (auto simp: less_eq_timespec_def less_timespec_def)
  show "s \<le> t \<Longrightarrow> t \<le> u \<Longrightarrow> s \<le> u" by (auto simp: less_eq_timespec_def)
  show "s \<le> t \<Longrightarrow> t \<le> s \<Longrightarrow> s = t" by (cases s, cases t) (auto simp: less_eq_timespec_def)
qed

end

definition normal_time :: "timespec \<Rightarrow> bool" where
  "normal_time t \<longleftrightarrow> 0 \<le> tv_sec t \<and> 0 \<le> tv_nsec t \<and> tv_nsec t < 1000000000"

definition time_cmp :: "timespec \<Rightarrow> timespec \<Rightarrow> int option" where
  "time_cmp tv1 tv2 =
     (if tv_nsec tv1 \<ge> 1000000000 \<or> tv_nsec tv2 \<ge> 1000000000 then None
      else if tv_sec tv1 < tv_sec tv2 then Some (- 1)
      else if tv_sec tv1 > tv_sec tv2 then Some 1
      else if tv_nsec tv1 < tv_nsec tv2 then Some (- 1)
      else if tv_nsec tv1 > tv_nsec tv2 then Some 1
      else Some 0)"

definition time_add_usec :: "timespec \<Rightarrow> u64 \<Rightarrow> timespec" where
  "time_add_usec tv usec =
     (let sec = tv_sec tv + uint usec div 1000000; nsec = tv_nsec tv + uint usec mod 1000000 * 1000
      in if nsec \<ge> 1000000000 then Timespec (sec + 1) (nsec - 1000000000) else Timespec sec nsec)"

lemma time_cmp_normal:
  "normal_time s \<Longrightarrow> normal_time t \<Longrightarrow> time_cmp s t = Some (if s < t then - 1 else if s = t then 0 else 1)"
  by (cases s; cases t) (auto simp: time_cmp_def normal_time_def less_timespec_def)

lemma time_add_normal: "normal_time t \<Longrightarrow> normal_time (time_add_usec t d)"
proof -
  have "uint d mod 1000000 < 1000000" "0 \<le> uint d mod 1000000" "0 \<le> uint d div 1000000"
    by (simp_all add: pos_imp_zdiv_nonneg_iff)
  then show "normal_time t \<Longrightarrow> normal_time (time_add_usec t d)"
    by (auto simp: time_add_usec_def normal_time_def Let_def)
qed

definition nanoseconds :: "timespec \<Rightarrow> int" where
  "nanoseconds t = tv_sec t * 1000000000 + tv_nsec t"

lemma nanoseconds_add: "nanoseconds (time_add_usec t d) = nanoseconds t + uint d * 1000"
proof -
  define q r where "q = uint d div 1000000" and "r = uint d mod 1000000"
  then have "uint d = q * 1000000 + r" by simp
  moreover have "nanoseconds (time_add_usec t d) = nanoseconds t + q * 1000000000 + r * 1000"
    by (simp add: time_add_usec_def nanoseconds_def Let_def flip: q_def r_def)
  ultimately show ?thesis by simp
qed

lemma nanoseconds_le: "normal_time s \<Longrightarrow> normal_time t \<Longrightarrow> nanoseconds s \<le> nanoseconds t \<longleftrightarrow> s \<le> t"
  by (auto simp: nanoseconds_def normal_time_def less_eq_timespec_def)

section \<open>State\<close>

text \<open>\<open>'h\<close> are the addresses of the handlers of the agent, \<open>'a\<close> the pointers they are called with.\<close>

datatype 'h EventCallBack = ExitEventHandler | Client 'h

record ('h, 'a) event_node =
  en_addr :: nat
  en_runtime :: timespec
  en_handler :: "'h EventCallBack"
  en_arg :: "'a option"

record ('h, 'a) events =
  event_queue :: "('h, 'a) event_node list"
  event_last :: "nat option"
  timer_queue :: "('h, 'a) event_node list"
  free_queue :: "nat list"
  free_bg_queue :: "nat list"
  cancel_call :: "('h EventCallBack \<times> 'a option) option"
  process_events :: bool
  exit_event :: "nat option"
  event_cnt :: nat
  last_tick :: u32

definition EVENT_BUF_SIZE :: nat where
  "EVENT_BUF_SIZE = 0x200"

definition alloc_event_node :: "nat \<Rightarrow> ('h, 'a) events \<Rightarrow> nat \<times> ('h, 'a) events" where
  "alloc_event_node a e = (case free_queue e of x # r \<Rightarrow> (x, e\<lparr>free_queue := r\<rparr>) | [] \<Rightarrow> (a, e))"

definition alloc_event_node_bg :: "nat \<Rightarrow> ('h, 'a) events \<Rightarrow> nat \<times> ('h, 'a) events" where
  "alloc_event_node_bg a e = (case free_bg_queue e of x # r \<Rightarrow> (x, e\<lparr>free_bg_queue := r\<rparr>) | [] \<Rightarrow> (a, e))"

definition free_event_node :: "nat \<Rightarrow> ('h, 'a) events \<Rightarrow> ('h, 'a) events" where
  "free_event_node x e = (if x < EVENT_BUF_SIZE then e\<lparr>free_queue := x # free_queue e\<rparr> else e)"

section \<open>Posting\<close>

fun insert_timer :: "('h, 'a) event_node \<Rightarrow> ('h, 'a) event_node list \<Rightarrow> ('h, 'a) event_node list option" where
  "insert_timer ev [] = Some [ev]"
| "insert_timer ev (n # q) =
     (case time_cmp (en_runtime ev) (en_runtime n) of
        None \<Rightarrow> None
      | Some c \<Rightarrow> if c \<ge> 0 then map_option ((#) n) (insert_timer ev q) else Some (ev # n # q))"

definition post_timer :: "nat \<times> ('h, 'a) events \<Rightarrow> timespec \<Rightarrow> 'h EventCallBack \<Rightarrow> 'a option \<Rightarrow> ('h, 'a) events option" where
  "post_timer xe runtime handler arg =
     (case xe of (x, e) \<Rightarrow>
        map_option (\<lambda>q. e\<lparr>timer_queue := q\<rparr>)
          (insert_timer \<lparr>en_addr = x, en_runtime = runtime, en_handler = handler, en_arg = arg\<rparr> (timer_queue e)))"

definition post_from_bg_thread ::
  "nat \<Rightarrow> timespec \<Rightarrow> 'h EventCallBack \<Rightarrow> 'a option \<Rightarrow> u64 \<Rightarrow> ('h, 'a) events \<Rightarrow> ('h, 'a) events option" where
  "post_from_bg_thread a now handler arg delay e =
     (if cancel_call e = Some (handler, arg) then Some (e\<lparr>cancel_call := None\<rparr>)
      else post_timer (alloc_event_node_bg a e) (time_add_usec now delay) handler arg)"

text \<open>\<open>main\<close>: the caller is the event thread.\<close>

definition post_event_with_delay ::
  "bool \<Rightarrow> nat \<Rightarrow> timespec \<Rightarrow> 'h EventCallBack \<Rightarrow> 'a option \<Rightarrow> u64 \<Rightarrow> ('h, 'a) events \<Rightarrow> ('h, 'a) events option" where
  "post_event_with_delay main a now handler arg delay e =
     (if main \<and> cancel_call e = None then post_timer (alloc_event_node a e) (time_add_usec now delay) handler arg
      else post_from_bg_thread a now handler arg delay e)"

definition append_event :: "('h, 'a) event_node \<Rightarrow> ('h, 'a) events \<Rightarrow> ('h, 'a) events option" where
  "append_event ev e =
     (if event_queue e = [] then (if event_last e \<noteq> None then None else Some (e\<lparr>event_queue := [ev], event_last := Some (en_addr ev)\<rparr>))
      else Some (e\<lparr>event_queue := event_queue e @ [ev], event_last := Some (en_addr ev)\<rparr>))"

definition post_event ::
  "bool \<Rightarrow> nat \<Rightarrow> timespec \<Rightarrow> 'h EventCallBack \<Rightarrow> 'a option \<Rightarrow> ('h, 'a) events \<Rightarrow> ('h, 'a) events option" where
  "post_event main a now handler arg e =
     (if main \<and> cancel_call e = None
      then (case alloc_event_node a e of (x, e1) \<Rightarrow>
              append_event \<lparr>en_addr = x, en_runtime = Timespec 0 0, en_handler = handler, en_arg = arg\<rparr> e1)
      else post_from_bg_thread a now handler arg 0 e)"

section \<open>Canceling\<close>

text \<open>The search in a queue: the node that is found, the one before it, whether it is the last, the queue without it.\<close>

fun find_event ::
  "'h EventCallBack \<Rightarrow> 'a option \<Rightarrow> nat option \<Rightarrow> ('h, 'a) event_node list \<Rightarrow>
     (nat \<times> nat option \<times> bool \<times> ('h, 'a) event_node list) option" where
  "find_event handler arg prev [] = None"
| "find_event handler arg prev (ev # q) =
     (if en_handler ev = handler \<and> en_arg ev = arg then Some (en_addr ev, prev, q = [], q)
      else map_option (\<lambda>(x, p, l, r). (x, p, l, ev # r)) (find_event handler arg (Some (en_addr ev)) q))"

text \<open>The result is 1, 0, or nothing while it waits.\<close>

definition cancel_event ::
  "'h EventCallBack \<Rightarrow> 'a option \<Rightarrow> bool \<Rightarrow> ('h, 'a) events \<Rightarrow> (int option \<times> ('h, 'a) events) option" where
  "cancel_event handler arg wait e =
     (if cancel_call e \<noteq> None then None
      else
        (case find_event handler arg None (event_queue e) of
           Some (x, prev, is_last, q) \<Rightarrow>
             if is_last \<and> event_last e \<noteq> Some x then None
             else Some (Some 1, free_event_node x (e\<lparr>event_queue := q, event_last := (if is_last then prev else event_last e)\<rparr>))
         | None \<Rightarrow>
             (case find_event handler arg None (timer_queue e) of
                Some (x, prev, is_last, q) \<Rightarrow> Some (Some 1, free_event_node x (e\<lparr>timer_queue := q\<rparr>))
              | None \<Rightarrow> if \<not> wait then Some (Some 0, e) else Some (None, e\<lparr>cancel_call := Some (handler, arg)\<rparr>))))"

section \<open>The event loop\<close>

definition ini_events_queue :: "nat \<Rightarrow> ('h, 'a) events" where
  "ini_events_queue a =
     \<lparr>event_queue = [], event_last = None, timer_queue = [], free_queue = rev [0..<EVENT_BUF_SIZE], free_bg_queue = [],
      cancel_call = None, process_events = False, exit_event = Some a, event_cnt = 0, last_tick = 0\<rparr>"

definition cancel_event_loop :: "('h, 'a) events \<Rightarrow> ('h, 'a) events" where
  "cancel_event_loop e = e\<lparr>process_events := False\<rparr>"

definition exit_event_handler :: "nat \<Rightarrow> timespec \<Rightarrow> ('h, 'a) events \<Rightarrow> ('h, 'a) events option" where
  "exit_event_handler a now e =
     (if event_queue e = [] then Some (e\<lparr>process_events := False\<rparr>) else post_event True a now ExitEventHandler None e)"

definition exit_event_loop :: "('h, 'a) events \<Rightarrow> ('h, 'a) events" where
  "exit_event_loop e =
     (case exit_event e of
        Some x \<Rightarrow>
          e\<lparr>timer_queue := \<lparr>en_addr = x, en_runtime = Timespec 0 0, en_handler = ExitEventHandler, en_arg = None\<rparr> # timer_queue e,
            exit_event := None\<rparr>
      | None \<Rightarrow> e)"

text \<open>Nodes for the other threads: at least two, as long as there are any.\<close>

fun give_nodes :: "nat list \<Rightarrow> nat list \<Rightarrow> nat list \<times> nat list" where
  "give_nodes (x # fq) bq = (if bq = [] \<or> tl bq = [] then give_nodes fq (x # bq) else (x # fq, bq))"
| "give_nodes [] bq = ([], bq)"

fun ready_timers ::
  "timespec \<Rightarrow> ('h, 'a) event_node list \<Rightarrow> (('h, 'a) event_node list \<times> ('h, 'a) event_node list) option" where
  "ready_timers now [] = Some ([], [])"
| "ready_timers now (ev # q) =
     (case time_cmp (en_runtime ev) now of
        None \<Rightarrow> None
      | Some c \<Rightarrow> if c \<le> 0 then map_option (\<lambda>(r, q1). (ev # r, q1)) (ready_timers now q) else Some ([], ev # q))"

definition time_to_look :: "u32 \<Rightarrow> ('h, 'a) events \<Rightarrow> bool" where
  "time_to_look tick e \<longleftrightarrow> event_queue e = [] \<or> event_cnt e \<ge> 100 \<or> event_cnt e \<ge> 1 \<and> tick - last_tick e \<ge> 100"

definition enter_poll :: "('h, 'a) events \<Rightarrow> ('h, 'a) events" where
  "enter_poll e = (case give_nodes (free_queue e) (free_bg_queue e) of (fq, bq) \<Rightarrow>
     e\<lparr>event_cnt := 0, free_queue := fq, free_bg_queue := bq\<rparr>)"

text \<open>One turn of the inner loop; \<open>True\<close> when it is left, \<open>False\<close> when it waits.\<close>

definition poll_timers :: "u32 \<Rightarrow> timespec \<Rightarrow> ('h, 'a) events \<Rightarrow> (bool \<times> ('h, 'a) events) option" where
  "poll_timers tick now e =
     (let e1 = e\<lparr>last_tick := tick\<rparr> in
      case ready_timers now (timer_queue e) of
        None \<Rightarrow> None
      | Some (ready, rest) \<Rightarrow>
          if ready \<noteq> []
          then (if event_queue e = [] \<and> event_last e \<noteq> None then None
                else Some (True, e1\<lparr>timer_queue := rest, event_queue := ready @ event_queue e,
                  event_last := (if event_queue e = [] then Some (en_addr (last ready)) else event_last e)\<rparr>))
          else Some (event_queue e \<noteq> [], e1))"

definition take_event :: "('h, 'a) events \<Rightarrow> (('h, 'a) event_node \<times> ('h, 'a) events) option" where
  "take_event e =
     (case event_queue e of
        [] \<Rightarrow> None
      | ev # q \<Rightarrow>
          let e1 = e\<lparr>event_queue := q, event_cnt := (if en_runtime ev = Timespec 0 0 then event_cnt e + 1 else event_cnt e)\<rparr>
          in if q = [] then (if event_last e \<noteq> Some (en_addr ev) then None else Some (ev, e1\<lparr>event_last := None\<rparr>))
             else Some (ev, e1))"

section \<open>Steps\<close>

text \<open>
  Where the event thread is: outside of the loop, at the top of the loop, between the turns of the inner loop (it
  waits for an event), in the handler of an event.
\<close>

datatype ('h, 'a) place = Outside | Top | Poll | Running "('h, 'a) event_node"

type_synonym ('h, 'a) ev_state = "('h, 'a) place \<times> ('h, 'a) events"

definition live_nodes :: "('h, 'a) ev_state \<Rightarrow> nat list" where
  "live_nodes s = (case s of (p, e) \<Rightarrow>
     map en_addr (event_queue e) @ map en_addr (timer_queue e) @ free_queue e @ free_bg_queue e @
     (case exit_event e of None \<Rightarrow> [] | Some x \<Rightarrow> [x]) @ (case p of Running ev \<Rightarrow> [en_addr ev] | _ \<Rightarrow> []))"

text \<open>\<open>loc_alloc\<close> returns memory that nothing else uses.\<close>

definition fresh_node :: "nat \<Rightarrow> ('h, 'a) ev_state \<Rightarrow> bool" where
  "fresh_node a s \<longleftrightarrow> a \<ge> EVENT_BUF_SIZE \<and> a \<notin> set (live_nodes s)"

text \<open>The code of the agent runs on the event thread, which does not wait in \<open>cancel_event\<close>.\<close>

definition client_turn :: "('h, 'a) ev_state \<Rightarrow> bool" where
  "client_turn s \<longleftrightarrow> cancel_call (snd s) = None \<and>
     (case fst s of Outside \<Rightarrow> True | Running ev \<Rightarrow> en_handler ev \<noteq> ExitEventHandler | _ \<Rightarrow> False)"

datatype ('h, 'a) ev_label = Silent | Canceled | Dispatched "('h, 'a) event_node"

inductive ev_step :: "('h, 'a) ev_state \<Rightarrow> ('h, 'a) ev_label \<Rightarrow> ('h, 'a) ev_state \<Rightarrow> bool" where
  bg_post: "fresh_node a (p, e) \<Longrightarrow> normal_time now \<Longrightarrow> post_from_bg_thread a now (Client h) arg delay e = Some e' \<Longrightarrow>
    ev_step (p, e) Silent (p, e')"
| exit_loop: "ev_step (p, e) Silent (p, exit_event_loop e)"
| post: "client_turn (p, e) \<Longrightarrow> fresh_node a (p, e) \<Longrightarrow> post_event True a now (Client h) arg e = Some e' \<Longrightarrow>
    ev_step (p, e) Silent (p, e')"
| post_delay: "client_turn (p, e) \<Longrightarrow> fresh_node a (p, e) \<Longrightarrow> normal_time now \<Longrightarrow>
    post_event_with_delay True a now (Client h) arg delay e = Some e' \<Longrightarrow> ev_step (p, e) Silent (p, e')"
| cancel: "client_turn (p, e) \<Longrightarrow> cancel_event (Client h) arg wait e = Some (r, e') \<Longrightarrow> ev_step (p, e) Canceled (p, e')"
| stop: "client_turn (p, e) \<Longrightarrow> ev_step (p, e) Silent (p, cancel_event_loop e)"
| start: "cancel_call e = None \<Longrightarrow>
    ev_step (Outside, e) Silent (Top, e\<lparr>process_events := True, event_cnt := 0, last_tick := tick\<rparr>)"
| leave: "\<not> process_events e \<Longrightarrow> ev_step (Top, e) Silent (Outside, e)"
| look: "process_events e \<Longrightarrow> time_to_look tick e \<Longrightarrow> ev_step (Top, e) Silent (Poll, enter_poll e)"
| wait: "normal_time now \<Longrightarrow> poll_timers tick now e = Some (False, e') \<Longrightarrow> ev_step (Poll, e) Silent (Poll, e')"
| take_polled: "normal_time now \<Longrightarrow> poll_timers tick now e = Some (True, e1) \<Longrightarrow> take_event e1 = Some (ev, e') \<Longrightarrow>
    ev_step (Poll, e) (Dispatched ev) (Running ev, e')"
| take: "process_events e \<Longrightarrow> \<not> time_to_look tick e \<Longrightarrow> take_event e = Some (ev, e') \<Longrightarrow>
    ev_step (Top, e) (Dispatched ev) (Running ev, e')"
| exit_handler: "en_handler ev = ExitEventHandler \<Longrightarrow> cancel_call e = None \<Longrightarrow> fresh_node a (Running ev, e) \<Longrightarrow>
    exit_event_handler a now e = Some e' \<Longrightarrow> ev_step (Running ev, e) Silent (Top, free_event_node (en_addr ev) e')"
| return: "en_handler ev \<noteq> ExitEventHandler \<Longrightarrow> cancel_call e = None \<Longrightarrow>
    ev_step (Running ev, e) Silent (Top, free_event_node (en_addr ev) e)"

inductive_cases ev_stepE: "ev_step (p, e) l s"

inductive ev_run :: "('h, 'a) ev_state \<Rightarrow> ('h, 'a) ev_label list \<Rightarrow> ('h, 'a) ev_state \<Rightarrow> bool" where
  ev_done: "ev_run s [] s"
| ev_more: "ev_run s ls t \<Longrightarrow> ev_step t l u \<Longrightarrow> ev_run s (ls @ [l]) u"

text \<open>A run of the agent starts with empty queues; the exit event is in memory of its own.\<close>

definition ev_reachable :: "('h, 'a) ev_state \<Rightarrow> bool" where
  "ev_reachable s \<longleftrightarrow> (\<exists>a ls. a \<ge> EVENT_BUF_SIZE \<and> ev_run (Outside, ini_events_queue a) ls s)"

section \<open>Invariant\<close>

definition timers_ok :: "('h, 'a) event_node list \<Rightarrow> bool" where
  "timers_ok q \<longleftrightarrow> sorted (map en_runtime q) \<and> (\<forall>ev \<in> set q. normal_time (en_runtime ev))"

definition last_ok :: "('h, 'a) events \<Rightarrow> bool" where
  "last_ok e \<longleftrightarrow> event_last e = (if event_queue e = [] then None else Some (en_addr (last (event_queue e))))"

definition nodes_ok :: "('h, 'a) ev_state \<Rightarrow> bool" where
  "nodes_ok s \<longleftrightarrow> distinct (live_nodes s) \<and> {0..<EVENT_BUF_SIZE} \<subseteq> set (live_nodes s) \<and>
     set (free_queue (snd s)) \<subseteq> {0..<EVENT_BUF_SIZE} \<and> set (free_bg_queue (snd s)) \<subseteq> {0..<EVENT_BUF_SIZE}"

definition ev_inv :: "('h, 'a) ev_state \<Rightarrow> bool" where
  "ev_inv s \<longleftrightarrow> timers_ok (timer_queue (snd s)) \<and> last_ok (snd s) \<and> nodes_ok s"

lemma time_cmp_ge: "normal_time s \<Longrightarrow> normal_time t \<Longrightarrow> \<exists>c. time_cmp s t = Some c \<and> (c \<ge> 0 \<longleftrightarrow> t \<le> s) \<and> (c \<le> 0 \<longleftrightarrow> s \<le> t)"
  by (auto simp: time_cmp_normal)

lemma insert_timer_eq:
  "normal_time (en_runtime ev) \<Longrightarrow> \<forall>n \<in> set q. normal_time (en_runtime n) \<Longrightarrow>
   insert_timer ev q = Some (takeWhile (\<lambda>n. en_runtime n \<le> en_runtime ev) q @ ev # dropWhile (\<lambda>n. en_runtime n \<le> en_runtime ev) q)"
proof (induction q)
  case (Cons n q)
  then obtain c where "time_cmp (en_runtime ev) (en_runtime n) = Some c" "c \<ge> 0 \<longleftrightarrow> en_runtime n \<le> en_runtime ev"
    using time_cmp_ge by (metis list.set_intros(1))
  with Cons show ?case by auto
qed simp

lemma sorted_dropWhile_greater: "sorted (map f q) \<Longrightarrow> x \<in> set (dropWhile (\<lambda>n. f n \<le> k) q) \<Longrightarrow> k < f x" for k :: "'k::linorder"
  by (induction q) (auto split: if_splits)

lemma insert_timer_ok:
  assumes "timers_ok q" "normal_time (en_runtime ev)"
  shows "\<exists>q'. insert_timer ev q = Some q' \<and> timers_ok q' \<and> mset q' = add_mset ev (mset q)"
proof -
  have n: "\<forall>n \<in> set q. normal_time (en_runtime n)" and s: "sorted (map en_runtime q)" using assms(1) by (simp_all add: timers_ok_def)
  define t d where "t = takeWhile (\<lambda>n. en_runtime n \<le> en_runtime ev) q" and "d = dropWhile (\<lambda>n. en_runtime n \<le> en_runtime ev) q"
  then have q: "q = t @ d" by simp
  have "\<forall>x \<in> set t. en_runtime x \<le> en_runtime ev" "\<forall>x \<in> set d. en_runtime ev \<le> en_runtime x"
    using sorted_dropWhile_greater [OF s] by (auto simp: t_def d_def dest: set_takeWhileD less_imp_le)
  with s have "sorted (map en_runtime (t @ ev # d))" by (auto simp: q sorted_append)
  with n assms(2) have "timers_ok (t @ ev # d)" by (simp add: timers_ok_def q)
  moreover have "insert_timer ev q = Some (t @ ev # d)" using insert_timer_eq [OF assms(2) n] by (simp flip: t_def d_def)
  moreover have "mset (t @ ev # d) = add_mset ev (mset q)" by (simp add: q)
  ultimately show ?thesis by blast
qed

lemma ready_timers_eq:
  "normal_time now \<Longrightarrow> \<forall>n \<in> set q. normal_time (en_runtime n) \<Longrightarrow>
   ready_timers now q = Some (takeWhile (\<lambda>n. en_runtime n \<le> now) q, dropWhile (\<lambda>n. en_runtime n \<le> now) q)"
proof (induction q)
  case (Cons n q)
  then obtain c where "time_cmp (en_runtime n) now = Some c" "c \<le> 0 \<longleftrightarrow> en_runtime n \<le> now"
    using time_cmp_ge by (metis list.set_intros(1))
  with Cons show ?case by auto
qed simp

lemma timers_ok_drop: "timers_ok q \<Longrightarrow> timers_ok (dropWhile P q)"
  by (auto simp: timers_ok_def dropWhile_eq_drop sorted_wrt_drop simp flip: drop_map dest: in_set_dropD)

lemma find_event_some:
  assumes "find_event h arg prev q = Some (x, p, l, r)"
  shows "\<exists>xs ev ys. q = xs @ ev # ys \<and> r = xs @ ys \<and> x = en_addr ev \<and> l = (ys = []) \<and> en_handler ev = h \<and> en_arg ev = arg \<and>
    p = (if xs = [] then prev else Some (en_addr (last xs))) \<and> (\<forall>n \<in> set xs. \<not> (en_handler n = h \<and> en_arg n = arg))"
  using assms
proof (induction q arbitrary: prev r)
  case (Cons n q)
  show ?case
  proof (cases "en_handler n = h \<and> en_arg n = arg")
    case True
    with Cons.prems show ?thesis by (intro exI [of _ "[]"] exI [of _ n] exI [of _ q]) auto
  next
    case False
    with Cons.prems obtain r1 where "find_event h arg (Some (en_addr n)) q = Some (x, p, l, r1)" "r = n # r1" by auto
    with Cons.IH [OF this(1)] obtain xs ev ys where "q = xs @ ev # ys \<and> r1 = xs @ ys \<and> x = en_addr ev \<and> l = (ys = []) \<and> en_handler ev = h \<and> en_arg ev = arg \<and>
      p = (if xs = [] then Some (en_addr n) else Some (en_addr (last xs))) \<and> (\<forall>n \<in> set xs. \<not> (en_handler n = h \<and> en_arg n = arg))" by blast
    with False \<open>r = n # r1\<close> show ?thesis by (intro exI [of _ "n # xs"] exI [of _ ev] exI [of _ ys]) auto
  qed
qed simp

lemma find_event_none: "find_event h arg prev q = None \<longleftrightarrow> (\<forall>n \<in> set q. \<not> (en_handler n = h \<and> en_arg n = arg))"
  by (induction q arbitrary: prev) auto

lemma give_nodes_mset: "give_nodes fq bq = (f, b) \<Longrightarrow> mset f + mset b = mset fq + mset bq"
  by (induction fq bq rule: give_nodes.induct) (auto split: if_splits)

section \<open>Every step keeps the invariant\<close>

lemma nodes_okI:
  "nodes_ok s \<Longrightarrow> mset (live_nodes t) = mset (live_nodes s) \<Longrightarrow> set (free_queue (snd t)) \<subseteq> {0..<EVENT_BUF_SIZE} \<Longrightarrow>
   set (free_bg_queue (snd t)) \<subseteq> {0..<EVENT_BUF_SIZE} \<Longrightarrow> nodes_ok t"
  unfolding nodes_ok_def by (metis mset_eq_imp_distinct_iff mset_eq_setD)

lemma nodes_ok_fresh:
  "nodes_ok s \<Longrightarrow> fresh_node a s \<Longrightarrow> mset (live_nodes t) = add_mset a (mset (live_nodes s)) \<Longrightarrow>
   free_queue (snd t) = free_queue (snd s) \<Longrightarrow> free_bg_queue (snd t) = free_bg_queue (snd s) \<Longrightarrow> nodes_ok t"
proof -
  assume a: "nodes_ok s" "fresh_node a s" "mset (live_nodes t) = add_mset a (mset (live_nodes s))"
    and f: "free_queue (snd t) = free_queue (snd s)" "free_bg_queue (snd t) = free_bg_queue (snd s)"
  then have "mset (live_nodes t) = mset (a # live_nodes s)" by simp
  with a(1,2) f show "nodes_ok t" unfolding nodes_ok_def fresh_node_def
    by (metis distinct.simps(2) list.simps(15) mset_eq_imp_distinct_iff mset_eq_setD subset_insertI2)
qed

text \<open>A node is taken from the free list, or it is new memory.\<close>

definition allocates :: "(nat \<Rightarrow> ('h, 'a) events \<Rightarrow> nat \<times> ('h, 'a) events) \<Rightarrow> bool" where
  "allocates alloc \<longleftrightarrow>
     (\<forall>a e x e1. alloc a e = (x, e1) \<longrightarrow>
        event_queue e1 = event_queue e \<and> timer_queue e1 = timer_queue e \<and> event_last e1 = event_last e \<and>
        exit_event e1 = exit_event e \<and> event_cnt e1 = event_cnt e \<and> process_events e1 = process_events e \<and>
        set (free_queue e1) \<subseteq> set (free_queue e) \<and> set (free_bg_queue e1) \<subseteq> set (free_bg_queue e) \<and>
        (add_mset x (mset (free_queue e1) + mset (free_bg_queue e1)) = mset (free_queue e) + mset (free_bg_queue e) \<or>
         x = a \<and> e1 = e))"

lemma allocates_node: "allocates alloc_event_node"
  by (auto simp: allocates_def alloc_event_node_def split: list.splits)

lemma allocates_node_bg: "allocates alloc_event_node_bg"
  by (auto simp: allocates_def alloc_event_node_bg_def split: list.splits)

lemma queued_nodes:
  assumes al: "allocates alloc" "alloc a e = (x, e1)" and inv: "nodes_ok (p, e)" and a: "fresh_node a (p, e)"
    and q: "mset (map en_addr (event_queue e')) + mset (map en_addr (timer_queue e'))
        = add_mset x (mset (map en_addr (event_queue e)) + mset (map en_addr (timer_queue e)))"
    and f: "free_queue e' = free_queue e1" "free_bg_queue e' = free_bg_queue e1" "exit_event e' = exit_event e"
  shows "nodes_ok (p, e')"
proof -
  have sub: "set (free_queue e1) \<subseteq> {0..<EVENT_BUF_SIZE}" "set (free_bg_queue e1) \<subseteq> {0..<EVENT_BUF_SIZE}"
    using al inv unfolding allocates_def nodes_ok_def by fastforce+
  consider (pool) "add_mset x (mset (free_queue e1) + mset (free_bg_queue e1)) = mset (free_queue e) + mset (free_bg_queue e)"
    | (new) "x = a" "e1 = e"
    using al unfolding allocates_def by blast
  then show ?thesis
  proof cases
    case pool
    have "mset (live_nodes (p, e')) = add_mset x (mset (map en_addr (event_queue e)) + mset (map en_addr (timer_queue e)))
        + mset (free_queue e1) + mset (free_bg_queue e1) + mset (case exit_event e of None \<Rightarrow> [] | Some x \<Rightarrow> [x])
        + mset (case p of Running ev \<Rightarrow> [en_addr ev] | _ \<Rightarrow> [])"
      using f q by (simp add: live_nodes_def ac_simps)
    also have "\<dots> = mset (live_nodes (p, e))" using pool by (simp add: live_nodes_def ac_simps)
    finally show ?thesis by (rule nodes_okI [OF inv]) (use sub f in simp_all)
  next
    case new
    show ?thesis by (rule nodes_ok_fresh [OF inv a]) (use new f q in \<open>simp_all add: live_nodes_def ac_simps\<close>)
  qed
qed

lemma post_timer_inv:
  assumes al: "allocates alloc" and inv: "ev_inv (p, e)" and a: "fresh_node a (p, e)" and rt: "normal_time rt"
  shows "\<exists>e'. post_timer (alloc a e) rt h arg = Some e' \<and> ev_inv (p, e') \<and> event_queue e' = event_queue e \<and> event_cnt e' = event_cnt e \<and>
    process_events e' = process_events e"
proof -
  obtain x e1 where x: "alloc a e = (x, e1)" by fastforce
  let ?ev = "\<lparr>en_addr = x, en_runtime = rt, en_handler = h, en_arg = arg\<rparr>"
  have e1: "event_queue e1 = event_queue e" "timer_queue e1 = timer_queue e" "event_last e1 = event_last e" "exit_event e1 = exit_event e"
      "event_cnt e1 = event_cnt e" "process_events e1 = process_events e"
    using al x unfolding allocates_def by blast+
  obtain q where q: "insert_timer ?ev (timer_queue e) = Some q" "timers_ok q" "mset q = add_mset ?ev (mset (timer_queue e))"
    using insert_timer_ok [of "timer_queue e" ?ev] inv rt by (auto simp: ev_inv_def)
  have "nodes_ok (p, e1\<lparr>timer_queue := q\<rparr>)"
    by (rule queued_nodes [OF al x _ a]) (use inv q e1 in \<open>simp_all add: ev_inv_def\<close>)
  then have "ev_inv (p, e1\<lparr>timer_queue := q\<rparr>)" using inv q e1 by (simp add: ev_inv_def last_ok_def)
  with x q(1) e1 show ?thesis by (simp add: post_timer_def)
qed

lemma post_from_bg_inv:
  assumes "ev_inv (p, e)" "fresh_node a (p, e)" "normal_time now"
  shows "\<exists>e'. post_from_bg_thread a now h arg delay e = Some e' \<and> ev_inv (p, e') \<and> event_queue e' = event_queue e \<and> event_cnt e' = event_cnt e \<and>
    process_events e' = process_events e"
proof (cases "cancel_call e = Some (h, arg)")
  case True
  with assms(1) show ?thesis by (simp add: post_from_bg_thread_def ev_inv_def last_ok_def nodes_ok_def live_nodes_def)
next
  case False
  with post_timer_inv [OF allocates_node_bg assms(1,2) time_add_normal [OF assms(3)]] show ?thesis
    by (simp add: post_from_bg_thread_def)
qed

lemma post_delay_inv:
  assumes "ev_inv (p, e)" "fresh_node a (p, e)" "normal_time now"
  shows "\<exists>e'. post_event_with_delay m a now h arg delay e = Some e' \<and> ev_inv (p, e') \<and> event_queue e' = event_queue e \<and> event_cnt e' = event_cnt e \<and>
    process_events e' = process_events e"
  using post_from_bg_inv [OF assms] post_timer_inv [OF allocates_node assms(1,2) time_add_normal [OF assms(3)]]
  by (simp add: post_event_with_delay_def)

lemma post_event_inv:
  assumes "ev_inv (p, e)" "fresh_node a (p, e)" "cancel_call e = None"
  shows "\<exists>e' ev. post_event True a now h arg e = Some e' \<and> ev_inv (p, e') \<and> event_queue e' = event_queue e @ [ev] \<and> event_cnt e' = event_cnt e \<and>
    process_events e' = process_events e"
proof -
  obtain x e1 where x: "alloc_event_node a e = (x, e1)" by fastforce
  let ?ev = "\<lparr>en_addr = x, en_runtime = Timespec 0 0, en_handler = h, en_arg = arg\<rparr>"
  have e1: "event_queue e1 = event_queue e" "timer_queue e1 = timer_queue e" "event_last e1 = event_last e" "exit_event e1 = exit_event e"
      "event_cnt e1 = event_cnt e" "process_events e1 = process_events e"
    using allocates_node x unfolding allocates_def by blast+
  have "append_event ?ev e1 = Some (e1\<lparr>event_queue := event_queue e @ [?ev], event_last := Some x\<rparr>)"
    using assms(1) e1 by (auto simp: append_event_def ev_inv_def last_ok_def)
  moreover have "nodes_ok (p, e1\<lparr>event_queue := event_queue e @ [?ev], event_last := Some x\<rparr>)"
    by (rule queued_nodes [OF allocates_node x _ assms(2)]) (use assms(1) e1 in \<open>simp_all add: ev_inv_def\<close>)
  ultimately show ?thesis using assms x e1 by (simp add: post_event_def ev_inv_def last_ok_def)
qed

lemma live_free: "x < EVENT_BUF_SIZE \<Longrightarrow> mset (live_nodes (p, free_event_node x e)) = add_mset x (mset (live_nodes (p, e)))"
  by (simp add: live_nodes_def free_event_node_def)

lemma nodes_ok_free:
  assumes inv: "nodes_ok s" and m: "mset (live_nodes s) = add_mset x (mset (live_nodes (p, e)))"
    and f: "free_queue e = free_queue (snd s)" "free_bg_queue e = free_bg_queue (snd s)"
  shows "nodes_ok (p, free_event_node x e)"
proof (cases "x < EVENT_BUF_SIZE")
  case True
  show ?thesis
  proof (rule nodes_okI [OF inv])
    show "mset (live_nodes (p, free_event_node x e)) = mset (live_nodes s)" using m live_free [OF True] by simp
  qed (use True f inv in \<open>simp_all add: nodes_ok_def free_event_node_def\<close>)
next
  case False
  have "mset (live_nodes s) = mset (x # live_nodes (p, e))" using m by simp
  then have "distinct (x # live_nodes (p, e))" "set (live_nodes s) = set (x # live_nodes (p, e))"
    using inv unfolding nodes_ok_def by (metis mset_eq_imp_distinct_iff, metis mset_eq_setD)
  with inv f False show ?thesis by (auto simp: nodes_ok_def free_event_node_def)
qed

lemma free_fields [simp]:
  "event_queue (free_event_node x e) = event_queue e" "timer_queue (free_event_node x e) = timer_queue e"
  "event_last (free_event_node x e) = event_last e" "event_cnt (free_event_node x e) = event_cnt e"
  "cancel_call (free_event_node x e) = cancel_call e" "process_events (free_event_node x e) = process_events e"
  by (simp_all add: free_event_node_def)

lemma last_ok_free [simp]: "last_ok (free_event_node x e) \<longleftrightarrow> last_ok e"
  by (simp add: last_ok_def)

lemma timers_ok_remove: "timers_ok (xs @ ev # ys) \<Longrightarrow> timers_ok (xs @ ys)"
  by (auto simp: timers_ok_def sorted_append)

lemma cancel_event_inv:
  assumes inv: "ev_inv (p, e)" and c: "cancel_call e = None"
  shows "\<exists>r e'. cancel_event h arg w e = Some (r, e') \<and> ev_inv (p, e')"
proof (cases "find_event h arg None (event_queue e)")
  case (Some y)
  then obtain x prev l q where f: "find_event h arg None (event_queue e) = Some (x, prev, l, q)" by (cases y) auto
  obtain xs ev ys where q: "event_queue e = xs @ ev # ys" "q = xs @ ys" "x = en_addr ev" "l = (ys = [])"
      "prev = (if xs = [] then None else Some (en_addr (last xs)))"
    using find_event_some [OF f] by blast
  let ?e = "e\<lparr>event_queue := q, event_last := (if l then prev else event_last e)\<rparr>"
  have "nodes_ok (p, free_event_node x ?e)"
    by (rule nodes_ok_free [of "(p, e)"]) (use inv q in \<open>simp_all add: ev_inv_def live_nodes_def\<close>)
  moreover have "last_ok ?e" using inv q by (simp add: ev_inv_def last_ok_def)
  moreover have "\<not> (l \<and> event_last e \<noteq> Some x)" using inv q by (simp add: ev_inv_def last_ok_def)
  ultimately show ?thesis using inv c f by (simp add: cancel_event_def ev_inv_def)
next
  case None
  note nq = None
  show ?thesis
  proof (cases "find_event h arg None (timer_queue e)")
    case (Some y)
    then obtain x prev l q where f: "find_event h arg None (timer_queue e) = Some (x, prev, l, q)" by (cases y) auto
    obtain xs ev ys where q: "timer_queue e = xs @ ev # ys" "q = xs @ ys" "x = en_addr ev" using find_event_some [OF f] by blast
    have "nodes_ok (p, free_event_node x (e\<lparr>timer_queue := q\<rparr>))"
      by (rule nodes_ok_free [of "(p, e)"]) (use inv q in \<open>simp_all add: ev_inv_def live_nodes_def\<close>)
    moreover have "timers_ok q" using inv q timers_ok_remove [of xs ev ys] by (simp add: ev_inv_def)
    moreover have "last_ok (e\<lparr>timer_queue := q\<rparr>)" using inv by (simp add: ev_inv_def last_ok_def)
    ultimately show ?thesis using c f nq by (simp add: cancel_event_def ev_inv_def)
  next
    case None
    with inv c nq show ?thesis by (simp add: cancel_event_def ev_inv_def last_ok_def nodes_ok_def live_nodes_def)
  qed
qed

lemma zero_time: "normal_time t \<Longrightarrow> Timespec 0 0 \<le> t"
  by (cases t) (auto simp: normal_time_def less_eq_timespec_def)

lemma exit_loop_inv: "ev_inv (p, e) \<Longrightarrow> ev_inv (p, exit_event_loop e)"
proof (cases "exit_event e")
  case (Some x)
  assume inv: "ev_inv (p, e)"
  have "mset (live_nodes (p, exit_event_loop e)) = mset (live_nodes (p, e))" using Some by (simp add: exit_event_loop_def live_nodes_def)
  then have "nodes_ok (p, exit_event_loop e)" by (rule nodes_okI [rotated]) (use inv Some in \<open>simp_all add: ev_inv_def exit_event_loop_def nodes_ok_def\<close>)
  moreover have "timers_ok (timer_queue (exit_event_loop e))"
    using inv Some zero_time by (auto simp: ev_inv_def timers_ok_def exit_event_loop_def normal_time_def)
  ultimately show "ev_inv (p, exit_event_loop e)" using inv Some by (simp add: ev_inv_def last_ok_def exit_event_loop_def)
qed (simp add: exit_event_loop_def)

lemma enter_poll_inv:
  assumes inv: "ev_inv (Top, e)"
  shows "ev_inv (Poll, enter_poll e)"
proof -
  obtain f b where g: "give_nodes (free_queue e) (free_bg_queue e) = (f, b)" by fastforce
  have m: "mset f + mset b = mset (free_queue e) + mset (free_bg_queue e)" by (rule give_nodes_mset [OF g])
  have ep: "enter_poll e = e\<lparr>event_cnt := 0, free_queue := f, free_bg_queue := b\<rparr>" using g by (simp add: enter_poll_def)
  have "set f \<union> set b = set (free_queue e) \<union> set (free_bg_queue e)" using m by (metis set_mset_mset set_mset_union)
  then have "set f \<subseteq> {0..<EVENT_BUF_SIZE}" "set b \<subseteq> {0..<EVENT_BUF_SIZE}" using inv by (auto simp: ev_inv_def nodes_ok_def)
  moreover have "mset (live_nodes (Poll, enter_poll e)) = mset (live_nodes (Top, e))"
  proof -
    have "mset (live_nodes (Poll, enter_poll e)) = mset (map en_addr (event_queue e)) + mset (map en_addr (timer_queue e)) +
        (mset f + mset b) + mset (case exit_event e of None \<Rightarrow> [] | Some x \<Rightarrow> [x])" by (simp add: ep live_nodes_def)
    then show ?thesis unfolding m by (simp add: live_nodes_def)
  qed
  moreover have "nodes_ok (Top, e)" using inv by (simp add: ev_inv_def)
  ultimately have "nodes_ok (Poll, enter_poll e)" using nodes_okI [of "(Top, e)" "(Poll, enter_poll e)"] by (simp add: ep)
  with inv show ?thesis by (simp add: ev_inv_def ep last_ok_def)
qed

lemma poll_inv:
  assumes inv: "ev_inv (Poll, e)" and now: "normal_time now"
  shows "\<exists>b e'. poll_timers tick now e = Some (b, e') \<and> ev_inv (Poll, e') \<and> (b \<longleftrightarrow> event_queue e' \<noteq> [])"
proof -
  let ?t = "takeWhile (\<lambda>n. en_runtime n \<le> now) (timer_queue e)" and ?d = "dropWhile (\<lambda>n. en_runtime n \<le> now) (timer_queue e)"
  have r: "ready_timers now (timer_queue e) = Some (?t, ?d)" by (rule ready_timers_eq) (use inv now in \<open>auto simp: ev_inv_def timers_ok_def\<close>)
  have d: "timers_ok ?d" using inv by (auto simp: ev_inv_def intro: timers_ok_drop)
  show ?thesis
  proof (cases "?t = []")
    case True
    with r inv show ?thesis by (auto simp: poll_timers_def ev_inv_def last_ok_def nodes_ok_def live_nodes_def)
  next
    case False
    let ?e = "e\<lparr>last_tick := tick, timer_queue := ?d, event_queue := ?t @ event_queue e,
        event_last := (if event_queue e = [] then Some (en_addr (last ?t)) else event_last e)\<rparr>"
    have "mset (timer_queue e) = mset ?t + mset ?d" by (metis mset_append takeWhile_dropWhile_id)
    then have "mset (live_nodes (Poll, ?e)) = mset (live_nodes (Poll, e))" by (simp add: live_nodes_def mset_map)
    then have "nodes_ok (Poll, ?e)" by (rule nodes_okI [rotated]) (use inv in \<open>simp_all add: ev_inv_def nodes_ok_def\<close>)
    moreover have "poll_timers tick now e = Some (True, ?e)" using r False inv by (auto simp: poll_timers_def ev_inv_def last_ok_def)
    moreover have "last_ok ?e" using inv False by (simp add: ev_inv_def last_ok_def)
    ultimately show ?thesis using d False by (intro exI [of _ True] exI [of _ ?e]) (simp add: ev_inv_def)
  qed
qed

lemma take_inv:
  assumes inv: "ev_inv (p, e)" and q: "event_queue e = ev # q" and p: "p = Top \<or> p = Poll"
  shows "\<exists>e'. take_event e = Some (ev, e') \<and> ev_inv (Running ev, e') \<and> event_queue e' = q \<and>
    event_cnt e' = (if en_runtime ev = Timespec 0 0 then event_cnt e + 1 else event_cnt e)"
proof -
  let ?e = "e\<lparr>event_queue := q, event_cnt := (if en_runtime ev = Timespec 0 0 then event_cnt e + 1 else event_cnt e),
      event_last := (if q = [] then None else event_last e)\<rparr>"
  have "take_event e = Some (ev, ?e)" using inv q by (auto simp: take_event_def ev_inv_def last_ok_def)
  moreover have "nodes_ok (Running ev, ?e)"
    by (rule nodes_okI [of "(p, e)"]) (use inv q p in \<open>auto simp: ev_inv_def nodes_ok_def live_nodes_def\<close>)
  ultimately show ?thesis using inv q by (simp add: ev_inv_def last_ok_def)
qed

lemma return_inv: "ev_inv (Running ev, e) \<Longrightarrow> ev_inv (Top, free_event_node (en_addr ev) e)"
proof -
  assume inv: "ev_inv (Running ev, e)"
  have "nodes_ok (Top, free_event_node (en_addr ev) e)"
    by (rule nodes_ok_free [of "(Running ev, e)"]) (use inv in \<open>simp_all add: ev_inv_def live_nodes_def\<close>)
  with inv show ?thesis by (simp add: ev_inv_def)
qed

lemma exit_handler_inv:
  assumes "ev_inv (Running ev, e)" "fresh_node a (Running ev, e)" "cancel_call e = None"
  shows "\<exists>e'. exit_event_handler a now e = Some e' \<and> ev_inv (Running ev, e') \<and> event_cnt e' = event_cnt e \<and>
    (event_queue e \<noteq> [] \<longrightarrow> (\<exists>n. event_queue e' = event_queue e @ [n]))"
proof (cases "event_queue e = []")
  case True
  with assms(1) show ?thesis by (simp add: exit_event_handler_def ev_inv_def last_ok_def nodes_ok_def live_nodes_def)
next
  case False
  with post_event_inv [OF assms] show ?thesis by (fastforce simp: exit_event_handler_def)
qed

lemma ev_step_inv:
  assumes "ev_step s l t" "ev_inv s"
  shows "ev_inv t"
  using assms
proof cases
  case (take_polled now tick e e1 ev e')
  with poll_inv [of e now tick] assms(2) have "ev_inv (Poll, e1)" "event_queue e1 \<noteq> []" by auto
  with take_inv [of Poll e1] take_polled show ?thesis by (cases "event_queue e1") auto
next
  case (take e tick ev e')
  then have "event_queue e \<noteq> []" by (simp add: time_to_look_def)
  with take_inv [of Top e] take assms(2) show ?thesis by (cases "event_queue e") auto
next
  case (exit_handler ev e a now e')
  with exit_handler_inv [of ev e a now] assms(2) return_inv show ?thesis by fastforce
next
  case (stop p e)
  with assms(2) show ?thesis by (simp add: ev_inv_def last_ok_def nodes_ok_def live_nodes_def cancel_event_loop_def)
next
  case (start e tick)
  with assms(2) show ?thesis by (simp add: ev_inv_def last_ok_def nodes_ok_def live_nodes_def)
next
  case (leave e)
  with assms(2) show ?thesis by (simp add: ev_inv_def last_ok_def nodes_ok_def live_nodes_def)
next
  case (wait now tick e e')
  with poll_inv [of e now tick] assms(2) show ?thesis by auto
next
  case (post p e a now h arg e')
  with post_event_inv [of p e a now "Client h" arg] assms(2) show ?thesis by (auto simp: client_turn_def)
next
  case (bg_post a p e now h arg delay e')
  with post_from_bg_inv [of p e a now "Client h" arg delay] assms(2) show ?thesis by auto
next
  case (post_delay p e a now h arg delay e')
  with post_delay_inv [of p e a now True "Client h" arg delay] assms(2) show ?thesis by auto
next
  case (cancel p e h arg wait r e')
  with cancel_event_inv [of p e "Client h" arg wait] assms(2) show ?thesis by (auto simp: client_turn_def)
qed (use assms(2) exit_loop_inv enter_poll_inv return_inv in auto)

lemma ev_run_inv: "ev_run s ls t \<Longrightarrow> ev_inv s \<Longrightarrow> ev_inv t"
  by (induction rule: ev_run.induct) (auto intro: ev_step_inv)

lemma ini_inv: "a \<ge> EVENT_BUF_SIZE \<Longrightarrow> ev_inv (Outside, ini_events_queue a)"
  by (auto simp: ev_inv_def timers_ok_def last_ok_def nodes_ok_def live_nodes_def ini_events_queue_def)

lemma reachable_inv: "ev_reachable s \<Longrightarrow> ev_inv s"
  by (auto simp: ev_reachable_def intro: ev_run_inv ini_inv)

text \<open>
  C17: The queues are always in order, whatever the handlers, the other threads and the clock do: the timers are
  sorted, \<open>event_last\<close> is the end of the queue, no node is in two places at once, and no node of \<open>event_buf\<close>
  is ever lost.
\<close>

theorem events_invariant:
  assumes "ev_reachable (p, e)"
  shows "sorted (map en_runtime (timer_queue e)) \<and>
    event_last e = (if event_queue e = [] then None else Some (en_addr (last (event_queue e)))) \<and>
    distinct (live_nodes (p, e)) \<and> {0..<EVENT_BUF_SIZE} \<subseteq> set (live_nodes (p, e))"
  using reachable_inv [OF assms] by (simp add: ev_inv_def timers_ok_def last_ok_def nodes_ok_def)

lemma reachable_start: "ev_reachable (Outside, ini_events_queue 0x200)"
  by (auto simp: ev_reachable_def EVENT_BUF_SIZE_def intro!: exI [of _ "0x200 :: nat"] exI [of _ "[]"] ev_done)

theorem events_invariant_witness:
  "distinct (live_nodes (Outside, ini_events_queue 0x200 :: (nat, nat) events))"
  using events_invariant [of Outside "ini_events_queue 0x200 :: (nat, nat) events"] reachable_start by blast

text \<open>
  C18: No assertion of events.c fails: in every reachable state the functions that can be called there return.
\<close>

theorem events_assertions:
  assumes "ev_reachable (p, e)" "fresh_node a (p, e)" "normal_time now"
  shows "post_from_bg_thread a now h arg delay e \<noteq> None \<and>
    (cancel_call e = None \<longrightarrow> post_event True a now h arg e \<noteq> None \<and> post_event_with_delay True a now h arg delay e \<noteq> None \<and>
      cancel_event h arg w e \<noteq> None) \<and>
    (p = Poll \<longrightarrow> (\<exists>b e1. poll_timers tick now e = Some (b, e1) \<and> (b \<longrightarrow> take_event e1 \<noteq> None))) \<and>
    (p = Top \<and> \<not> time_to_look tick e \<longrightarrow> take_event e \<noteq> None)"
proof -
  have inv: "ev_inv (p, e)" by (rule reachable_inv [OF assms(1)])
  have "\<exists>b e1. poll_timers tick now e = Some (b, e1) \<and> (b \<longrightarrow> take_event e1 \<noteq> None)" if pl: "p = Poll"
  proof -
    obtain b e1 where p: "poll_timers tick now e = Some (b, e1)" "ev_inv (Poll, e1)" "b \<longleftrightarrow> event_queue e1 \<noteq> []"
      using poll_inv [OF _ assms(3), of e tick] inv pl by blast
    have "b \<longrightarrow> take_event e1 \<noteq> None" using take_inv [OF p(2)] p(3) by (cases "event_queue e1") auto
    with p(1) show ?thesis by blast
  qed
  moreover have "take_event e \<noteq> None" if "p = Top" "\<not> time_to_look tick e"
    using take_inv [of p e] inv that by (cases "event_queue e") (auto simp: time_to_look_def)
  ultimately show ?thesis
    using post_from_bg_inv [OF inv assms(2,3), of h arg delay] post_delay_inv [OF inv assms(2,3), of True h arg delay]
      post_event_inv [OF inv assms(2), of now h arg] cancel_event_inv [OF inv, of h arg w]
    by auto
qed

theorem events_assertions_witness:
  "post_event True 0x300 (Timespec 1 0) (Client 7) (Some (3 :: nat)) (ini_events_queue 0x200 :: (nat, nat) events) \<noteq> None"
proof -
  let ?e = "ini_events_queue 0x200 :: (nat, nat) events"
  have "fresh_node 0x300 (Outside, ?e)" "normal_time (Timespec 1 0)" "cancel_call ?e = None"
    by (simp_all add: fresh_node_def live_nodes_def ini_events_queue_def EVENT_BUF_SIZE_def normal_time_def)
  then show ?thesis using events_assertions [OF reachable_start, of "0x300" "Timespec 1 0" "Client 7" "Some 3"] by blast
qed

end
