(* ===== verification/EventOrder.thy ===== *)
theory EventOrder
  imports Events
begin

text \<open>
  What the queues of the event manager (theory Events, src/agent/tcf/framework/events.c) promise to the rest of the
  agent: which event \<open>cancel_event\<close> takes away, in which order timers fire, and that timers do not keep the
  event queue waiting.
\<close>

section \<open>Canceling and order\<close>

definition same_call :: "'h EventCallBack \<Rightarrow> 'a option \<Rightarrow> ('h, 'a) event_node \<Rightarrow> bool" where
  "same_call h arg ev \<longleftrightarrow> en_handler ev = h \<and> en_arg ev = arg"

definition pending :: "('h, 'a) events \<Rightarrow> ('h, 'a) event_node list" where
  "pending e = event_queue e @ timer_queue e"

lemma find_event_split:
  assumes "find_event h arg prev q = Some (x, p, l, r)"
  shows "\<exists>xs ev ys. q = xs @ ev # ys \<and> r = xs @ ys \<and> same_call h arg ev \<and> (\<forall>n \<in> set xs. \<not> same_call h arg n)"
  using find_event_some [OF assms] unfolding same_call_def by blast

text \<open>
  C22: \<open>cancel_event\<close> removes exactly one pending event, the first one with this handler and argument (those
  that are due before the timers), and returns 1; the others stay in their order. When there is none nothing
  changes and it returns 0, or, if it is told to wait, it waits for the call to be posted.
\<close>

theorem cancel_event_exact:
  assumes "cancel_event h arg wait e = Some (r, e')"
  shows "(if list_ex (same_call h arg) (pending e)
     then r = Some 1 \<and> (\<exists>xs ev ys. pending e = xs @ ev # ys \<and> same_call h arg ev \<and> (\<forall>n \<in> set xs. \<not> same_call h arg n) \<and>
       pending e' = xs @ ys)
     else pending e' = pending e \<and> (if wait then r = None \<and> cancel_call e' = Some (h, arg) else r = Some 0 \<and> e' = e))"
proof (cases "find_event h arg None (event_queue e)")
  case (Some y)
  then obtain x p l q where f: "find_event h arg None (event_queue e) = Some (x, p, l, q)" by (cases y) auto
  with assms have "r = Some 1" "event_queue e' = q" "timer_queue e' = timer_queue e"
    by (auto simp: cancel_event_def split: if_splits)
  moreover obtain xs ev ys where "event_queue e = xs @ ev # ys" "q = xs @ ys" "same_call h arg ev" "\<forall>n \<in> set xs. \<not> same_call h arg n"
    using find_event_split [OF f] by blast
  ultimately have "list_ex (same_call h arg) (pending e)" "r = Some 1" "pending e = xs @ ev # (ys @ timer_queue e)" "pending e' = xs @ (ys @ timer_queue e)"
      "same_call h arg ev" "\<forall>n \<in> set xs. \<not> same_call h arg n"
    by (simp_all add: pending_def)
  then show ?thesis by (simp only: if_True) blast
next
  case None
  then have nq: "\<forall>n \<in> set (event_queue e). \<not> same_call h arg n" by (simp add: find_event_none same_call_def)
  show ?thesis
  proof (cases "find_event h arg None (timer_queue e)")
    case (Some y)
    then obtain x p l q where f: "find_event h arg None (timer_queue e) = Some (x, p, l, q)" by (cases y) auto
    with assms None have "r = Some 1" "event_queue e' = event_queue e" "timer_queue e' = q"
      by (auto simp: cancel_event_def split: if_splits)
    moreover obtain xs ev ys where "timer_queue e = xs @ ev # ys" "q = xs @ ys" "same_call h arg ev" "\<forall>n \<in> set xs. \<not> same_call h arg n"
      using find_event_split [OF f] by blast
    ultimately have "list_ex (same_call h arg) (pending e)" "r = Some 1" "pending e = (event_queue e @ xs) @ ev # ys" "pending e' = (event_queue e @ xs) @ ys"
        "same_call h arg ev" "\<forall>n \<in> set (event_queue e @ xs). \<not> same_call h arg n"
      using nq by (auto simp: pending_def)
    then show ?thesis by (simp only: if_True) blast
  next
    case nt: None
    then have "\<forall>n \<in> set (timer_queue e). \<not> same_call h arg n" by (simp add: find_event_none same_call_def)
    with nq have "\<not> list_ex (same_call h arg) (pending e)" by (auto simp: pending_def list_ex_iff)
    with assms None nt show ?thesis by (auto simp: cancel_event_def pending_def split: if_splits)
  qed
qed

definition sample_events :: "(nat, nat) events" where
  "sample_events = (ini_events_queue 0x200)\<lparr>timer_queue :=
     [\<lparr>en_addr = 3, en_runtime = Timespec 5 0, en_handler = Client 7, en_arg = None\<rparr>,
      \<lparr>en_addr = 4, en_runtime = Timespec 6 0, en_handler = Client 8, en_arg = None\<rparr>]\<rparr>"

theorem cancel_event_exact_witness:
  "\<exists>e'. cancel_event (Client 8) None False sample_events = Some (Some 1, e') \<and> length (pending e') = 1"
proof -
  obtain r e' where c: "cancel_event (Client 8) None False sample_events = Some (r, e')"
    by (auto simp: sample_events_def cancel_event_def ini_events_queue_def)
  have p: "list_ex (same_call (Client 8) None) (pending sample_events)" "length (pending sample_events) = 2"
    by (simp_all add: sample_events_def pending_def same_call_def ini_events_queue_def)
  with cancel_event_exact [OF c] obtain xs ev ys where "r = Some 1" "pending sample_events = xs @ ev # ys" "pending e' = xs @ ys" by auto
  with c p(2) show ?thesis by auto
qed

text \<open>The timers a list of postings leaves behind.\<close>

primrec insert_all :: "('h, 'a) event_node list \<Rightarrow> ('h, 'a) event_node list \<Rightarrow> ('h, 'a) event_node list option" where
  "insert_all [] q = Some q"
| "insert_all (ev # evs) q = Option.bind (insert_timer ev q) (insert_all evs)"

lemma filter_run: "sorted (map f q) \<Longrightarrow>
   filter (\<lambda>n. k = f n) (takeWhile (\<lambda>n. f n \<le> f ev) q @ ev # dropWhile (\<lambda>n. f n \<le> f ev) q) =
   filter (\<lambda>n. k = f n) (q @ [ev])" for f :: "'x \<Rightarrow> 'k::linorder"
proof (cases "f ev = k")
  case True
  assume s: "sorted (map f q)"
  have "filter (\<lambda>n. k = f n) (dropWhile (\<lambda>n. f n \<le> f ev) q) = []"
    using sorted_dropWhile_greater [OF s] True by (force simp: filter_empty_conv)
  moreover have "filter (\<lambda>n. k = f n) q = filter (\<lambda>n. k = f n) (takeWhile (\<lambda>n. f n \<le> f ev) q) @ filter (\<lambda>n. k = f n) (dropWhile (\<lambda>n. f n \<le> f ev) q)"
    by (metis filter_append takeWhile_dropWhile_id)
  ultimately show ?thesis using True by auto
next
  case False
  then show ?thesis by simp (metis filter_append takeWhile_dropWhile_id)
qed

lemma insert_all_sorted:
  "timers_ok q \<Longrightarrow> \<forall>ev \<in> set evs. normal_time (en_runtime ev) \<Longrightarrow>
   \<exists>q'. insert_all evs q = Some q' \<and> timers_ok q' \<and> mset q' = mset q + mset evs \<and>
     (\<forall>k. filter (\<lambda>n. k = en_runtime n) q' = filter (\<lambda>n. k = en_runtime n) (q @ evs))"
proof (induction evs arbitrary: q)
  case (Cons ev evs)
  then have n: "normal_time (en_runtime ev)" "\<forall>n \<in> set q. normal_time (en_runtime n)" "sorted (map en_runtime q)"
    by (simp_all add: timers_ok_def)
  obtain q1 where q1: "insert_timer ev q = Some q1" "timers_ok q1" "mset q1 = add_mset ev (mset q)"
    using insert_timer_ok [OF Cons.prems(1) n(1)] by blast
  have "filter (\<lambda>n. k = en_runtime n) q1 = filter (\<lambda>n. k = en_runtime n) (q @ [ev])" for k
    using insert_timer_eq [OF n(1,2)] filter_run [OF n(3), of k ev] q1(1) by simp
  moreover obtain q' where "insert_all evs q1 = Some q'" "timers_ok q'" "mset q' = mset q1 + mset evs"
      "\<forall>k. filter (\<lambda>n. k = en_runtime n) q' = filter (\<lambda>n. k = en_runtime n) (q1 @ evs)"
    using Cons.IH [OF q1(2)] Cons.prems(2) by auto
  ultimately show ?case using q1 by auto
qed simp

lemma sorted_take_filter:
  "sorted (map f q) \<Longrightarrow> takeWhile (\<lambda>n. f n \<le> k) q = filter (\<lambda>n. f n \<le> k) q \<and> dropWhile (\<lambda>n. f n \<le> k) q = filter (\<lambda>n. \<not> f n \<le> k) q"
  for k :: "'k::linorder"
proof (induction q)
  case (Cons n q)
  then have "\<not> f n \<le> k \<Longrightarrow> \<forall>m \<in> set q. \<not> f m \<le> k" by (auto dest: order_trans)
  with Cons show ?case by (auto simp: filter_empty_conv filter_id_conv)
qed simp

text \<open>
  C23: Timers fire in the order of their times, and in the order of posting when the times are equal: inserting events one by one
  is stable sorting. At any time the events that are due, all of them and no other, are taken, in that order.
\<close>

theorem timers_stable_sort:
  assumes "\<forall>ev \<in> set evs. normal_time (en_runtime ev)" "normal_time now"
  shows "insert_all evs [] = Some (sort_key en_runtime evs) \<and>
    ready_timers now (sort_key en_runtime evs) =
      Some (filter (\<lambda>ev. en_runtime ev \<le> now) (sort_key en_runtime evs), filter (\<lambda>ev. \<not> en_runtime ev \<le> now) (sort_key en_runtime evs))"
proof -
  obtain q where q: "insert_all evs [] = Some q" "timers_ok q" "mset q = mset evs"
      "\<forall>k. filter (\<lambda>n. k = en_runtime n) q = filter (\<lambda>n. k = en_runtime n) evs"
    using insert_all_sorted [of "[]" evs] assms(1) by (auto simp: timers_ok_def)
  have "sort_key en_runtime evs = q"
    by (rule properties_for_sort_key [OF q(3)]) (use q(2,4) in \<open>simp_all add: timers_ok_def\<close>)
  then show ?thesis
    using q ready_timers_eq [OF assms(2), of q] sorted_take_filter [of en_runtime q now] by (simp add: timers_ok_def)
qed

theorem timers_stable_sort_witness:
  "insert_all [\<lparr>en_addr = 1, en_runtime = Timespec 5 0, en_handler = Client 1, en_arg = None\<rparr>,
      \<lparr>en_addr = 2, en_runtime = Timespec 4 0, en_handler = Client 2, en_arg = None\<rparr>,
      \<lparr>en_addr = 3, en_runtime = Timespec 5 0, en_handler = Client 3, en_arg = None\<rparr> :: (nat, nat) event_node] [] =
   Some [\<lparr>en_addr = 2, en_runtime = Timespec 4 0, en_handler = Client 2, en_arg = None\<rparr>,
      \<lparr>en_addr = 1, en_runtime = Timespec 5 0, en_handler = Client 1, en_arg = None\<rparr>,
      \<lparr>en_addr = 3, en_runtime = Timespec 5 0, en_handler = Client 3, en_arg = None\<rparr>]"
  using timers_stable_sort [of "[\<lparr>en_addr = 1, en_runtime = Timespec 5 0, en_handler = Client 1, en_arg = None\<rparr>,
      \<lparr>en_addr = 2, en_runtime = Timespec 4 0, en_handler = Client 2, en_arg = None\<rparr>,
      \<lparr>en_addr = 3, en_runtime = Timespec 5 0, en_handler = Client 3, en_arg = None\<rparr> :: (nat, nat) event_node]" "Timespec 4 0"]
  by (simp add: normal_time_def less_eq_timespec_def)

section \<open>The queue is not starved\<close>

primrec dispatched :: "('h, 'a) ev_label list \<Rightarrow> ('h, 'a) event_node list" where
  "dispatched [] = []"
| "dispatched (l # ls) = (case l of Dispatched ev \<Rightarrow> [ev] | _ \<Rightarrow> []) @ dispatched ls"

lemma dispatched_append [simp]: "dispatched (ls @ ks) = dispatched ls @ dispatched ks"
  by (induction ls) simp_all

text \<open>
  The events \<open>us\<close> are next, timed ones followed by one that is not: no untimed event was dispatched since the
  timers were last looked at.
\<close>

definition timed :: "('h, 'a) event_node \<Rightarrow> bool" where
  "timed ev \<longleftrightarrow> en_runtime ev \<noteq> Timespec 0 0"

definition next_up :: "('h, 'a) event_node list \<Rightarrow> ('h, 'a) ev_state \<Rightarrow> bool" where
  "next_up us s \<longleftrightarrow> us \<noteq> [] \<and> (\<forall>ev \<in> set (butlast us). timed ev) \<and> fst s \<noteq> Poll \<and> event_cnt (snd s) = 0 \<and>
     (\<exists>q. event_queue (snd s) = us @ q)"

lemma next_up_append: "next_up us (p, e) \<Longrightarrow> event_queue e' = event_queue e @ q \<Longrightarrow> event_cnt e' = event_cnt e \<Longrightarrow> next_up us (p, e')"
  by (auto simp: next_up_def)

lemma next_up_queue: "next_up us (p, e) \<Longrightarrow> event_queue e \<noteq> []"
  by (auto simp: next_up_def)

lemma next_up_place: "next_up us (p, e) \<Longrightarrow> p' \<noteq> Poll \<Longrightarrow> next_up us (p', e)"
  by (auto simp: next_up_def)

lemma next_up_no_look: "next_up us (p, e) \<Longrightarrow> \<not> time_to_look tick e"
  by (auto simp: next_up_def time_to_look_def)

lemma next_up_take:
  assumes "next_up us (Top, e)" "ev_inv (Top, e)" "take_event e = Some (ev, e')"
  shows "\<exists>rest. us = ev # rest \<and> (rest = [] \<or> next_up rest (Running ev, e'))"
proof -
  obtain u rest q where u: "us = u # rest" "event_queue e = u # rest @ q" using assms(1) by (cases us) (auto simp: next_up_def)
  obtain e1 where e1: "take_event e = Some (u, e1)" "event_queue e1 = rest @ q"
      "event_cnt e1 = (if en_runtime u = Timespec 0 0 then event_cnt e + 1 else event_cnt e)"
    using take_inv [OF assms(2) u(2)] by blast
  have "next_up rest (Running u, e1)" if "rest \<noteq> []" using assms(1) u that e1 by (auto simp: next_up_def timed_def)
  with assms(3) u e1 show ?thesis by auto
qed

lemma next_up_step:
  assumes "ev_step s l t" "ev_inv s" "next_up us s" "l \<noteq> Canceled"
  shows "l = Silent \<and> next_up us t \<or> (\<exists>ev rest. us = ev # rest \<and> l = Dispatched ev \<and> (rest = [] \<or> next_up rest t))"
  using assms(1)
proof cases
  case (bg_post a p e now h arg delay e')
  with post_from_bg_inv [of p e a now "Client h" arg delay] assms(2,3) show ?thesis by (auto intro: next_up_append [where q = "[]"])
next
  case (exit_loop p e)
  with assms(3) show ?thesis by (auto simp: next_up_def exit_event_loop_def split: option.splits)
next
  case (post p e a now h arg e')
  with post_event_inv [of p e a now "Client h" arg] assms(2,3) show ?thesis by (fastforce simp: client_turn_def intro: next_up_append)
next
  case (post_delay p e a now h arg delay e')
  with post_delay_inv [of p e a now True "Client h" arg delay] assms(2,3) show ?thesis by (auto intro: next_up_append [where q = "[]"])
next
  case (take e tick ev e')
  with next_up_take [of us e ev e'] assms(2,3) show ?thesis by blast
next
  case (exit_handler ev e a now e')
  with exit_handler_inv [of ev e a now] assms(2,3) next_up_queue [of us "Running ev" e] obtain n where
    "event_queue e' = event_queue e @ [n]" "event_cnt e' = event_cnt e" by auto
  with exit_handler assms(3) show ?thesis by (auto simp: next_up_def)
next
  case (look e tick)
  with assms(3) next_up_no_look show ?thesis by blast
qed (use assms(3,4) in \<open>auto simp: next_up_def cancel_event_loop_def\<close>)

lemma next_up_run:
  "ev_run s ls t \<Longrightarrow> ev_inv s \<Longrightarrow> next_up us s \<Longrightarrow> Canceled \<notin> set ls \<Longrightarrow>
   (\<exists>rest. dispatched ls = us @ rest) \<or> (\<exists>rest. us = dispatched ls @ rest \<and> next_up rest t)"
proof (induction rule: ev_run.induct)
  case (ev_more s ls t l u)
  have inv: "ev_inv t" by (rule ev_run_inv [OF ev_more.hyps(1) ev_more.prems(1)])
  from ev_more consider (past) rest where "dispatched ls = us @ rest" | (now) rest where "us = dispatched ls @ rest" "next_up rest t" by auto
  then show ?case
  proof cases
    case now
    with next_up_step [OF ev_more.hyps(2) inv now(2)] ev_more.prems(3) show ?thesis by auto
  qed simp
qed simp

text \<open>
  C21: The timers cannot starve the event queue: after a look at the timers, the events up to the first untimed
  one are the very next to be dispatched, in their order, without another look at the timers or a wait in between,
  whatever is posted meanwhile by the handlers or other threads (as long as none of them is canceled).
\<close>

theorem queue_not_starved:
  assumes "ev_reachable s" "next_up us s" "ev_run s ls t" "Canceled \<notin> set ls"
  shows "(\<exists>rest. dispatched ls = us @ rest) \<or> (\<exists>rest. us = dispatched ls @ rest \<and> fst t \<noteq> Poll)"
  using next_up_run [OF assms(3) reachable_inv [OF assms(1)] assms(2,4)] by (auto simp: next_up_def)

lemma sample_queue:
  "\<exists>(e :: (nat, nat) events) ev. ev_reachable (Outside, e) \<and> next_up [ev] (Outside, e) \<and> cancel_call e = None"
proof -
  let ?i = "ini_events_queue 0x200 :: (nat, nat) events"
  have f: "fresh_node 0x300 (Outside, ?i)" "cancel_call ?i = None" "event_queue ?i = []" "event_cnt ?i = 0"
    by (simp_all add: fresh_node_def live_nodes_def ini_events_queue_def EVENT_BUF_SIZE_def)
  obtain e ev where e: "post_event True 0x300 (Timespec 1 0) (Client 7) None ?i = Some e" "event_queue e = [ev]" "event_cnt e = 0"
    using post_event_inv [OF reachable_inv [OF reachable_start] f(1,2)] f(3,4) by fastforce
  have "ev_step (Outside, ?i) Silent (Outside, e)"
    by (rule ev_step.post [OF _ f(1) e(1)]) (simp add: client_turn_def f(2))
  then have "ev_run (Outside, ?i) ([] @ [Silent]) (Outside, e)" using ev_more ev_done by blast
  then have "ev_reachable (Outside, e)" by (auto simp: ev_reachable_def EVENT_BUF_SIZE_def)
  moreover have "cancel_call e = None" using e(1) f(2)
    by (auto simp: post_event_def append_event_def alloc_event_node_def split: if_splits list.splits)
  moreover have "next_up [ev] (Outside, e)" using e(2,3) by (simp add: next_up_def)
  ultimately show ?thesis by blast
qed

theorem queue_not_starved_witness:
  "\<exists>(s :: (nat, nat) ev_state) us t. ev_reachable s \<and> next_up us s \<and> ev_run s [Silent] t \<and> fst t \<noteq> Poll"
proof -
  obtain e :: "(nat, nat) events" and ev where e: "ev_reachable (Outside, e)" "next_up [ev] (Outside, e)" "cancel_call e = None"
    using sample_queue by blast
  let ?t = "(Top, e\<lparr>process_events := True, event_cnt := 0, last_tick := 0\<rparr>)"
  have "ev_run (Outside, e) ([] @ [Silent]) ?t" using ev_more [OF ev_done start [OF e(3)]] by blast
  with queue_not_starved [OF e(1,2) this] e show ?thesis by fastforce
qed

end
