(* ===== verification/VirtualStream.thy ===== *)
theory VirtualStream
  imports Prelude "HOL-Library.Sublist"
begin

text \<open>
  The Streams service: src/agent/tcf/services/streamsservice.c. A virtual stream is a ring buffer between the agent and
  the clients (the channels) that are connected to it. With \<open>VS_ENABLE_REMOTE_READ\<close> the agent adds data and each client
  reads all of it; with \<open>VS_ENABLE_REMOTE_WRITE\<close> the clients add data and the agent takes it.

  Replies and events are values of \<open>stream_msg\<close>, with the channel they go to. The hash table of clients is only
  there to find them faster: clients are found in the list of their stream. A stream ID is the
  number that \<open>str2id\<close> gets from the text, if it does. Stream positions have 64 bits and are natural
  numbers here. Three things can go wrong: an assertion fails, memory is accessed that is not the buffer's or
  was not written, or binary data is longer than announced (the JSON reader refuses it).
\<close>

section \<open>State\<close>

datatype stream_fault = AssertFailed | BadMemory | BadInput

type_synonym 'a vsr = "stream_fault + 'a"

record ReadRequest =
  rr_token :: string
  rr_size :: nat

record WriteRequest =
  wr_token :: string
  wr_data :: "byte list"
  wr_offs :: nat
  wr_size :: nat
  wr_eos :: bool

record 'c StreamClient =
  sc_channel :: 'c
  sc_pos :: nat
  sc_read_requests :: "ReadRequest list"
  sc_write_requests :: "WriteRequest list"

record 'c VirtualStream =
  vs_type :: string
  vs_id :: u32
  vs_remote_read :: bool
  vs_remote_write :: bool
  vs_callback :: bool
  vs_ref_cnt :: nat
  vs_deleted :: bool
  vs_clients :: "'c StreamClient list"
  vs_pos :: nat
  vs_buf :: "byte list"
  vs_inp :: nat
  vs_out :: nat
  vs_eos_inp :: bool
  vs_eos_out :: bool
  vs_data_posted :: bool
  vs_space_posted :: bool
  vs_delete_posted :: bool

datatype stream_msg =
    ReadReply string "byte list" nat bool
  | ReadError string tcf_error bool
  | Result string "tcf_error option"
  | StreamCreated string u32 string
  | StreamDisposed string u32

type_synonym 'c outbox = "('c \<times> stream_msg) list"

section \<open>The buffer\<close>

definition vs_buf_len :: "'c VirtualStream \<Rightarrow> nat" where
  "vs_buf_len s = length (vs_buf s)"

definition virtual_stream_data_size :: "'c VirtualStream \<Rightarrow> nat" where
  "virtual_stream_data_size s = (vs_inp s + vs_buf_len s - vs_out s) mod vs_buf_len s"

definition virtual_stream_is_empty :: "'c VirtualStream \<Rightarrow> bool vsr" where
  "virtual_stream_is_empty s = (if vs_deleted s then Inl AssertFailed else Inr (vs_out s = vs_inp s))"

definition virtual_stream_drop_data :: "nat \<Rightarrow> 'c VirtualStream \<Rightarrow> 'c VirtualStream" where
  "virtual_stream_drop_data sz s = s\<lparr>vs_out := (vs_out s + min sz (virtual_stream_data_size s)) mod vs_buf_len s\<rparr>"

definition map_ok :: "('a \<Rightarrow> 'b) \<Rightarrow> 'a vsr \<Rightarrow> 'b vsr" where
  "map_ok f r = bindE r (\<lambda>x. Inr (f x))"

text \<open>\<open>memcpy\<close> in two parts when the end of the buffer is in between.\<close>

definition overwrite :: "byte list \<Rightarrow> nat \<Rightarrow> byte list \<Rightarrow> byte list vsr" where
  "overwrite buf i bs = (if i + length bs > length buf then Inl BadMemory else Inr (take i buf @ bs @ drop (i + length bs) buf))"

definition ring_write :: "byte list \<Rightarrow> nat \<Rightarrow> byte list \<Rightarrow> byte list vsr" where
  "ring_write buf i bs =
     (if i + length bs \<le> length buf then overwrite buf i bs
      else bindE (overwrite buf i (take (length buf - i) bs)) (\<lambda>b. overwrite b 0 (drop (length buf - i) bs)))"

definition ring_read :: "byte list \<Rightarrow> nat \<Rightarrow> nat \<Rightarrow> byte list" where
  "ring_read buf i n =
     (if i + n \<le> length buf then take n (drop i buf) else drop i buf @ take (n - (length buf - i)) buf)"

definition min_pos :: "'c StreamClient list \<Rightarrow> nat option" where
  "min_pos cs = fold (\<lambda>c m. case m of None \<Rightarrow> Some (sc_pos c) | Some p \<Rightarrow> Some (min p (sc_pos c))) cs None"

definition advance_out :: "'c VirtualStream \<Rightarrow> 'c VirtualStream vsr" where
  "advance_out s =
     (let len = virtual_stream_data_size s; buf_pos = vs_pos s - len in
      case min_pos (vs_clients s) of
        None \<Rightarrow> Inr (s\<lparr>vs_out := vs_inp s\<rparr>)
      | Some p \<Rightarrow>
          if p > buf_pos
          then (if p - buf_pos > len then Inl AssertFailed else Inr (s\<lparr>vs_out := (vs_out s + (p - buf_pos)) mod vs_buf_len s\<rparr>))
          else Inr s)"

definition advance_stream_buffer :: "'c VirtualStream \<Rightarrow> 'c VirtualStream vsr" where
  "advance_stream_buffer s =
     (if \<not> vs_remote_read s \<or> (\<exists>c \<in> set (vs_clients s). sc_pos c > vs_pos s) then Inl AssertFailed
      else bindE (advance_out s) (\<lambda>s1.
        Inr (if virtual_stream_data_size s \<noteq> virtual_stream_data_size s1 \<and> \<not> vs_space_posted s1
              then s1\<lparr>vs_space_posted := True\<rparr> else s1)))"

section \<open>Reading\<close>

text \<open>The reply to a read command, and the client behind it.\<close>

definition send_read_reply :: "'c VirtualStream \<Rightarrow> 'c StreamClient \<Rightarrow> string \<Rightarrow> nat \<Rightarrow> (stream_msg \<times> 'c StreamClient) vsr" where
  "send_read_reply s c token sz =
     (let avail = virtual_stream_data_size s in
      if \<not> (avail > 0 \<or> vs_eos_inp s) \<or> sc_pos c > vs_pos s then Inl AssertFailed
      else
        (let behind = vs_pos s - sc_pos c;
             lost = (if avail < behind then behind - avail else 0);
             len = (if avail < behind then avail else behind);
             pos = (vs_inp s + vs_buf_len s - len) mod vs_buf_len s;
             n = min len sz;
             c1 = c\<lparr>sc_pos := sc_pos c + lost + n\<rparr>;
             eos = (sc_pos c1 = vs_pos s \<and> vs_eos_inp s)
         in if sc_pos c1 > vs_pos s \<or> \<not> (eos \<or> lost + n > 0) then Inl AssertFailed
            else Inr (ReadReply token (ring_read (vs_buf s) pos n) lost eos, c1)))"

text \<open>The loop over the pending read requests of a client.\<close>

fun serve_reads ::
  "'c VirtualStream \<Rightarrow> ReadRequest list \<Rightarrow> 'c StreamClient \<Rightarrow> ('c outbox \<times> 'c StreamClient) vsr" where
  "serve_reads s [] c = Inr ([], c\<lparr>sc_read_requests := []\<rparr>)"
| "serve_reads s (r # rs) c =
     (if sc_pos c < vs_pos s \<or> vs_eos_inp s
      then bindE (send_read_reply s c (rr_token r) (rr_size r)) (\<lambda>(m, c1).
             map_ok (\<lambda>(ms, c2). ((sc_channel c, m) # ms, c2)) (serve_reads s rs c1))
      else Inr ([], c\<lparr>sc_read_requests := r # rs\<rparr>))"

fun serve_clients :: "'c VirtualStream \<Rightarrow> 'c StreamClient list \<Rightarrow> ('c outbox \<times> 'c StreamClient list) vsr" where
  "serve_clients s [] = Inr ([], [])"
| "serve_clients s (c # cs) =
     bindE (serve_reads s (sc_read_requests c) c) (\<lambda>(ms, c1).
       map_ok (\<lambda>(ms2, cs1). (ms @ ms2, c1 # cs1)) (serve_clients s cs))"

section \<open>Adding and taking data\<close>

text \<open>The result: an error or the number of bytes taken; what is sent; the stream.\<close>

definition add_bytes :: "byte list \<Rightarrow> bool \<Rightarrow> 'c VirtualStream \<Rightarrow> (nat \<times> 'c VirtualStream) vsr" where
  "add_bytes bs eos s =
     (let free = (vs_out s + vs_buf_len s - vs_inp s - 1) mod vs_buf_len s; len = min (length bs) free
      in map_ok (\<lambda>b. (len, s\<lparr>vs_buf := b, vs_inp := (vs_inp s + len) mod vs_buf_len s, vs_pos := vs_pos s + len,
             vs_eos_inp := (vs_eos_inp s \<or> eos \<and> length bs = len)\<rparr>))
           (ring_write (vs_buf s) (vs_inp s) (take len bs)))"

definition virtual_stream_add_data ::
  "byte list \<Rightarrow> bool \<Rightarrow> 'c VirtualStream \<Rightarrow> ((tcf_error + nat) \<times> 'c outbox \<times> 'c VirtualStream) vsr" where
  "virtual_stream_add_data bs eos s =
     (if vs_eos_inp s
      then Inr (Inl ERR_EOF, [], if vs_remote_read s then s else s\<lparr>vs_data_posted := True\<rparr>)
      else bindE (add_bytes bs eos s) (\<lambda>(n, s1).
        if vs_remote_read s1
        then (if vs_eos_inp s1 \<or> n > 0
              then bindE (serve_clients s1 (vs_clients s1)) (\<lambda>(ms, cs).
                     map_ok (\<lambda>s2. (Inr n, ms, s2)) (advance_stream_buffer (s1\<lparr>vs_clients := cs\<rparr>)))
              else Inr (Inr n, [], s1))
        else Inr (Inr n, [], s1\<lparr>vs_data_posted := True\<rparr>)))"

text \<open>One pending write request of the client at position \<open>i\<close>.\<close>

definition set_writes :: "nat \<Rightarrow> WriteRequest list \<Rightarrow> 'c VirtualStream \<Rightarrow> 'c VirtualStream" where
  "set_writes i rs s = s\<lparr>vs_clients := (vs_clients s)[i := (vs_clients s ! i)\<lparr>sc_write_requests := rs\<rparr>]\<rparr>"

definition pull_client :: "nat \<Rightarrow> 'c VirtualStream \<Rightarrow> ('c outbox \<times> 'c VirtualStream) vsr" where
  "pull_client i s =
     (let ch = sc_channel (vs_clients s ! i) in
      case sc_write_requests (vs_clients s ! i) of
        [] \<Rightarrow> Inr ([], s)
      | r # rs \<Rightarrow>
          if wr_size r > length (wr_data r) then Inl BadMemory
          else bindE (virtual_stream_add_data (drop (wr_offs r) (wr_data r)) (wr_eos r) s) (\<lambda>(res, ms, s1).
            case res of
              Inl e \<Rightarrow> Inr (ms @ (ch, Result (wr_token r) (Some e)) #
                map (\<lambda>q. (ch, Result (wr_token q) (Some ERR_COMMAND_CANCELLED))) rs, set_writes i [] s1)
            | Inr n \<Rightarrow>
                if wr_offs r + n \<ge> wr_size r then Inr (ms @ [(ch, Result (wr_token r) None)], set_writes i rs s1)
                else Inr (ms, set_writes i (r\<lparr>wr_offs := wr_offs r + n\<rparr> # rs) s1)))"

fun pull_clients :: "nat list \<Rightarrow> 'c VirtualStream \<Rightarrow> ('c outbox \<times> 'c VirtualStream) vsr" where
  "pull_clients [] s = Inr ([], s)"
| "pull_clients (i # is) s =
     bindE (pull_client i s) (\<lambda>(ms, s1). map_ok (\<lambda>(ms2, s2). (ms @ ms2, s2)) (pull_clients is s1))"

definition virtual_stream_get_data ::
  "nat \<Rightarrow> 'c VirtualStream \<Rightarrow> (byte list \<times> bool \<times> 'c outbox \<times> 'c VirtualStream) vsr" where
  "virtual_stream_get_data buf_size s =
     (let avail = virtual_stream_data_size s;
          len = min avail buf_size;
          eos = (\<not> avail > buf_size \<and> vs_eos_inp s);
          s0 = s\<lparr>vs_eos_out := (vs_eos_out s \<or> eos)\<rparr>;
          data = ring_read (vs_buf s) (vs_out s) len
      in bindE (if vs_remote_write s0 then pull_clients [0..<length (vs_clients s0)] s0 else Inr ([], s0)) (\<lambda>(ms, s1).
           if \<not> vs_remote_read s1 \<and> len > 0
           then (let s2 = s1\<lparr>vs_out := (vs_out s1 + len) mod vs_buf_len s1\<rparr>
                 in if eos \<and> vs_out s2 \<noteq> vs_inp s2 then Inl AssertFailed else Inr (data, eos, ms, s2\<lparr>vs_space_posted := True\<rparr>))
           else Inr (data, eos, ms, s1)))"

text \<open>The handlers of the posted events; the result tells whether the call back of the stream is called.\<close>

definition notify_data_available :: "'c VirtualStream \<Rightarrow> bool \<times> 'c VirtualStream" where
  "notify_data_available s = (\<not> (vs_deleted s \<or> vs_eos_out s \<or> \<not> vs_callback s), s\<lparr>vs_data_posted := False\<rparr>)"

definition notify_space_available :: "'c VirtualStream \<Rightarrow> bool \<times> 'c VirtualStream" where
  "notify_space_available s = (\<not> (vs_deleted s \<or> vs_eos_inp s \<or> \<not> vs_callback s), s\<lparr>vs_space_posted := False\<rparr>)"

section \<open>Clients\<close>

definition create_client :: "'c \<Rightarrow> 'c VirtualStream \<Rightarrow> 'c VirtualStream" where
  "create_client c s =
     s\<lparr>vs_clients := \<lparr>sc_channel = c, sc_pos = vs_pos s - virtual_stream_data_size s, sc_read_requests = [],
         sc_write_requests = []\<rparr> # vs_clients s,
       vs_ref_cnt := vs_ref_cnt s + 1\<rparr>"

definition delete_client_msgs :: "'c VirtualStream \<Rightarrow> 'c StreamClient \<Rightarrow> 'c outbox" where
  "delete_client_msgs s c =
     (sc_channel c, StreamDisposed (vs_type s) (vs_id s)) #
     map (\<lambda>r. (sc_channel c, ReadError (rr_token r) ERR_COMMAND_CANCELLED True)) (sc_read_requests c) @
     map (\<lambda>r. (sc_channel c, Result (wr_token r) (Some ERR_COMMAND_CANCELLED))) (sc_write_requests c)"

definition delete_client :: "nat \<Rightarrow> 'c VirtualStream \<Rightarrow> ('c outbox \<times> 'c VirtualStream) vsr" where
  "delete_client i s =
     (if vs_ref_cnt s = 0 then Inl AssertFailed
      else
        (let ms = delete_client_msgs s (vs_clients s ! i);
             s1 = s\<lparr>vs_clients := take i (vs_clients s) @ drop (Suc i) (vs_clients s), vs_ref_cnt := vs_ref_cnt s - 1\<rparr>
         in if vs_ref_cnt s1 = 0
            then (if vs_clients s1 \<noteq> [] \<or> \<not> vs_deleted s1 then Inl AssertFailed else Inr (ms, s1\<lparr>vs_delete_posted := True\<rparr>))
            else if vs_remote_read s1 then map_ok (\<lambda>s2. (ms, s2)) (advance_stream_buffer s1)
            else Inr (ms, s1)))"

definition virtual_stream_delete :: "'c VirtualStream \<Rightarrow> 'c VirtualStream vsr" where
  "virtual_stream_delete s =
     (if vs_deleted s then Inl AssertFailed
      else
        (let s1 = s\<lparr>vs_deleted := True, vs_ref_cnt := vs_ref_cnt s - 1\<rparr>
         in if vs_ref_cnt s1 > 0 then Inr s1
            else if vs_clients s1 \<noteq> [] then Inl AssertFailed else Inr (s1\<lparr>vs_delete_posted := True\<rparr>)))"

section \<open>Requests of a client\<close>

definition client_read :: "nat \<Rightarrow> string \<Rightarrow> nat \<Rightarrow> 'c VirtualStream \<Rightarrow> (tcf_error option \<times> 'c outbox \<times> 'c VirtualStream) vsr" where
  "client_read i token sz s =
     (let c = vs_clients s ! i in
      if \<not> vs_remote_read s then Inr (Some ERR_UNSUPPORTED, [], s)
      else if sc_pos c = vs_pos s \<and> \<not> vs_eos_inp s
      then Inr (None, [], s\<lparr>vs_clients := (vs_clients s)[i := c\<lparr>sc_read_requests := sc_read_requests c @ [\<lparr>rr_token = token, rr_size = sz\<rparr>]\<rparr>]\<rparr>)
      else if sc_read_requests c \<noteq> [] then Inl AssertFailed
      else bindE (send_read_reply s c token sz) (\<lambda>(m, c1).
        map_ok (\<lambda>s1. (None, [(sc_channel c, m)], s1)) (advance_stream_buffer (s\<lparr>vs_clients := (vs_clients s)[i := c1]\<rparr>))))"

text \<open>
  The loop of \<open>virtual_stream_write\<close> over the pieces of the binary data, at most 256 bytes each, until data has to be
  put aside (then it goes on to read into that memory). The result: the error, the number of bytes
  added, what is put aside, what is sent, the stream.
\<close>

function write_loop ::
  "nat \<Rightarrow> nat \<Rightarrow> byte list \<Rightarrow> 'c VirtualStream \<Rightarrow> (tcf_error option \<times> nat \<times> byte list option \<times> 'c outbox \<times> 'c VirtualStream) vsr" where
  "write_loop sz offs bs s =
     (if bs = [] then Inr (None, offs, None, [], s)
      else
        (let buf = take 256 bs in
         bindE (virtual_stream_add_data buf False s) (\<lambda>(res, ms, s1).
           case res of
             Inl e \<Rightarrow> Inr (Some e, offs, None, ms, s1)
           | Inr n \<Rightarrow>
               if n < length buf
               then (if sz < offs + length buf then Inl BadMemory
                     else if sz < offs + length bs then Inl BadInput
                     else Inr (None, offs + n, Some (drop n bs), ms, s1))
               else map_ok (\<lambda>(e, o1, d, ms2, s2). (e, o1, d, ms @ ms2, s2)) (write_loop sz (offs + n) (drop 256 bs) s1))))"
  by pat_completeness auto
termination
  by (relation "measure (\<lambda>(sz, offs, bs, s). length bs)") auto

declare write_loop.simps [simp del]

definition client_write ::
  "nat \<Rightarrow> string \<Rightarrow> nat \<Rightarrow> byte list \<Rightarrow> 'c VirtualStream \<Rightarrow> (tcf_error option \<times> 'c outbox \<times> 'c VirtualStream) vsr" where
  "client_write i token sz bs s =
     (let ch = sc_channel (vs_clients s ! i);
          queue = (\<lambda>data offs t. set_writes i (sc_write_requests (vs_clients t ! i) @
            [\<lparr>wr_token = token, wr_data = data, wr_offs = 0, wr_size = sz - offs, wr_eos = False\<rparr>]) t)
      in if \<not> vs_remote_write s then Inr (Some ERR_UNSUPPORTED, [], s)
         else if sc_write_requests (vs_clients s ! i) \<noteq> [] 
         then (if sz < length bs then Inl BadInput else Inr (None, [], queue bs 0 s))
         else bindE (write_loop sz 0 bs s) (\<lambda>(err, offs, data, ms, s1).
           case err of
             Some e \<Rightarrow> Inr (Some e, ms, s1)
           | None \<Rightarrow>
               (case data of
                  Some d \<Rightarrow> Inr (None, ms, queue d offs s1)
                | None \<Rightarrow> Inr (None, ms @ [(ch, Result token None)], s1))))"

definition client_eos :: "nat \<Rightarrow> string \<Rightarrow> 'c VirtualStream \<Rightarrow> (tcf_error option \<times> 'c outbox \<times> 'c VirtualStream) vsr" where
  "client_eos i token s =
     (let ch = sc_channel (vs_clients s ! i) in
      if \<not> vs_remote_write s then Inr (Some ERR_UNSUPPORTED, [], s)
      else if sc_write_requests (vs_clients s ! i) \<noteq> []
      then Inr (None, [], set_writes i (sc_write_requests (vs_clients s ! i) @
        [\<lparr>wr_token = token, wr_data = [], wr_offs = 0, wr_size = 0, wr_eos = True\<rparr>]) s)
      else bindE (virtual_stream_add_data [] True s) (\<lambda>(res, ms, s1).
        case res of Inl e \<Rightarrow> Inr (Some e, ms, s1) | Inr n \<Rightarrow> Inr (None, ms @ [(ch, Result token None)], s1)))"

section \<open>The service\<close>

record 'c streams_service =
  ss_streams :: "'c VirtualStream list"
  ss_subscriptions :: "(string \<times> 'c) list"
  ss_id_cnt :: u32

text \<open>Streams and clients by their place in the lists.\<close>

fun index_where :: "('a \<Rightarrow> bool) \<Rightarrow> 'a list \<Rightarrow> nat option" where
  "index_where p [] = None"
| "index_where p (x # xs) = (if p x then Some 0 else map_option Suc (index_where p xs))"

definition client_of :: "'c \<Rightarrow> 'c VirtualStream \<Rightarrow> nat option" where
  "client_of c s = index_where (\<lambda>x. sc_channel x = c) (vs_clients s)"

definition find_client :: "u32 option \<Rightarrow> 'c \<Rightarrow> 'c streams_service \<Rightarrow> (nat \<times> nat) option" where
  "find_client sid c ss =
     Option.bind sid (\<lambda>n. Option.bind (index_where (\<lambda>s. vs_id s = n \<and> client_of c s \<noteq> None) (ss_streams ss)) (\<lambda>k.
       map_option (\<lambda>i. (k, i)) (client_of c (ss_streams ss ! k))))"

definition virtual_stream_find :: "u32 option \<Rightarrow> 'c streams_service \<Rightarrow> nat option" where
  "virtual_stream_find sid ss = Option.bind sid (\<lambda>n. index_where (\<lambda>s. vs_id s = n \<and> \<not> vs_deleted s) (ss_streams ss))"

definition virtual_stream_create ::
  "string \<Rightarrow> string \<Rightarrow> nat \<Rightarrow> bool \<Rightarrow> bool \<Rightarrow> bool \<Rightarrow> 'c streams_service \<Rightarrow> 'c outbox \<times> 'c streams_service" where
  "virtual_stream_create type ctx buf_len rd wr cb ss =
     (let s = \<lparr>vs_type = type, vs_id = ss_id_cnt ss, vs_remote_read = rd, vs_remote_write = wr, vs_callback = cb, vs_ref_cnt = 1,
                vs_deleted = False, vs_clients = [], vs_pos = 0, vs_buf = replicate (buf_len + 1) 0, vs_inp = 0, vs_out = 0,
                vs_eos_inp = False, vs_eos_out = False, vs_data_posted = False, vs_space_posted = False, vs_delete_posted = False\<rparr>;
          subs = filter (\<lambda>(t, c). t = type) (ss_subscriptions ss)
      in (map (\<lambda>(t, c). (c, StreamCreated type (ss_id_cnt ss) ctx)) subs,
          ss\<lparr>ss_streams := fold (\<lambda>(t, c). create_client c) subs s # ss_streams ss, ss_id_cnt := ss_id_cnt ss + 1\<rparr>))"

definition virtual_stream_subscribe :: "'c \<Rightarrow> string \<Rightarrow> 'c streams_service \<Rightarrow> tcf_error option \<times> 'c streams_service" where
  "virtual_stream_subscribe c type ss =
     (if (type, c) \<in> set (ss_subscriptions ss) then (Some ERR_OTHER, ss)
      else (None, ss\<lparr>ss_subscriptions := (type, c) # ss_subscriptions ss\<rparr>))"

definition virtual_stream_unsubscribe :: "'c \<Rightarrow> string \<Rightarrow> 'c streams_service \<Rightarrow> tcf_error option \<times> 'c streams_service" where
  "virtual_stream_unsubscribe c type ss =
     (if (type, c) \<in> set (ss_subscriptions ss)
      then (None, ss\<lparr>ss_subscriptions := remove1 (type, c) (ss_subscriptions ss)\<rparr>)
      else (Some ERR_INV_CONTEXT, ss))"

text \<open>A request of a client, on the stream it is for.\<close>

definition on_client ::
  "u32 option \<Rightarrow> 'c \<Rightarrow> (nat \<Rightarrow> 'c VirtualStream \<Rightarrow> (tcf_error option \<times> 'c outbox \<times> 'c VirtualStream) vsr) \<Rightarrow> 'c streams_service \<Rightarrow>
     (tcf_error option \<times> 'c outbox \<times> 'c streams_service) vsr" where
  "on_client sid c f ss =
     (case find_client sid c ss of
        None \<Rightarrow> Inr (Some ERR_OTHER, [], ss)
      | Some (k, i) \<Rightarrow>
          bindE (f i (ss_streams ss ! k)) (\<lambda>(e, ms, s). Inr (e, ms, ss\<lparr>ss_streams := (ss_streams ss)[k := s]\<rparr>)))"

definition virtual_stream_connect :: "'c \<Rightarrow> u32 option \<Rightarrow> 'c streams_service \<Rightarrow> tcf_error option \<times> 'c streams_service" where
  "virtual_stream_connect c sid ss =
     (if find_client sid c ss \<noteq> None then (None, ss)
      else (case virtual_stream_find sid ss of
              None \<Rightarrow> (Some ERR_INV_CONTEXT, ss)
            | Some k \<Rightarrow> (None, ss\<lparr>ss_streams := (ss_streams ss)[k := create_client c (ss_streams ss ! k)]\<rparr>)))"

definition disconnect_client :: "nat \<Rightarrow> 'c VirtualStream \<Rightarrow> (tcf_error option \<times> 'c outbox \<times> 'c VirtualStream) vsr" where
  "disconnect_client i s = bindE (delete_client i s) (\<lambda>(ms, s1). Inr (None, ms, s1))"

text \<open>
  The commands. \<open>reply\<close> is sent when the function returns an error, or always for the simple ones.
\<close>

datatype stream_cmd =
    Subscribe string | Unsubscribe string | Read "u32 option" nat | Write "u32 option" nat "byte list" | Eos "u32 option"
  | Connect "u32 option" | Disconnect "u32 option"

definition with_error :: "'c \<Rightarrow> (tcf_error \<Rightarrow> stream_msg) \<Rightarrow> (tcf_error option \<times> 'c outbox \<times> 's) vsr \<Rightarrow> ('c outbox \<times> 's) vsr" where
  "with_error c reply r = bindE r (\<lambda>(e, ms, ss). Inr (case e of None \<Rightarrow> (ms, ss) | Some x \<Rightarrow> (ms @ [(c, reply x)], ss)))"

fun stream_command :: "string \<Rightarrow> 'c \<Rightarrow> stream_cmd \<Rightarrow> 'c streams_service \<Rightarrow> ('c outbox \<times> 'c streams_service) vsr" where
  "stream_command tok c (Subscribe t) ss =
     (case virtual_stream_subscribe c t ss of (e, ss1) \<Rightarrow> Inr ([(c, Result tok e)], ss1))"
| "stream_command tok c (Unsubscribe t) ss =
     (case virtual_stream_unsubscribe c t ss of (e, ss1) \<Rightarrow> Inr ([(c, Result tok e)], ss1))"
| "stream_command tok c (Read sid n) ss = with_error c (\<lambda>e. ReadError tok e False) (on_client sid c (\<lambda>i. client_read i tok n) ss)"
| "stream_command tok c (Write sid n bs) ss =
     with_error c (\<lambda>e. Result tok (Some e)) (on_client sid c (\<lambda>i. client_write i tok n bs) ss)"
| "stream_command tok c (Eos sid) ss = with_error c (\<lambda>e. Result tok (Some e)) (on_client sid c (\<lambda>i. client_eos i tok) ss)"
| "stream_command tok c (Connect sid) ss =
     (case virtual_stream_connect c sid ss of (e, ss1) \<Rightarrow> Inr ([(c, Result tok e)], ss1))"
| "stream_command tok c (Disconnect sid) ss =
     bindE (on_client sid c disconnect_client ss) (\<lambda>(e, ms, ss1). Inr (ms @ [(c, Result tok e)], ss1))"

text \<open>A channel is closed: its clients and subscriptions go.\<close>

fun close_streams :: "'c \<Rightarrow> 'c VirtualStream list \<Rightarrow> ('c outbox \<times> 'c VirtualStream list) vsr" where
  "close_streams c [] = Inr ([], [])"
| "close_streams c (s # ss) =
     bindE (case client_of c s of None \<Rightarrow> Inr ([], s) | Some i \<Rightarrow> delete_client i s) (\<lambda>(ms, s1).
       bindE (close_streams c ss) (\<lambda>(ms2, ss1). Inr (ms @ ms2, s1 # ss1)))"

definition channel_close_listener :: "'c \<Rightarrow> 'c streams_service \<Rightarrow> ('c outbox \<times> 'c streams_service) vsr" where
  "channel_close_listener c ss =
     bindE (close_streams c (ss_streams ss)) (\<lambda>(ms, sts).
       Inr (ms, ss\<lparr>ss_streams := sts, ss_subscriptions := filter (\<lambda>(t, d). d \<noteq> c) (ss_subscriptions ss)\<rparr>))"

text \<open>The event handler \<open>delete_stream\<close> for the stream at position \<open>k\<close>.\<close>

definition delete_stream :: "nat \<Rightarrow> 'c streams_service \<Rightarrow> 'c streams_service vsr" where
  "delete_stream k ss =
     (if vs_clients (ss_streams ss ! k) \<noteq> [] \<or> \<not> vs_deleted (ss_streams ss ! k) then Inl AssertFailed
      else Inr (ss\<lparr>ss_streams := take k (ss_streams ss) @ drop (Suc k) (ss_streams ss)\<rparr>))"

end
