(* ===== verification/StreamDelivery.thy ===== *)
theory StreamDelivery
  imports VirtualStream
begin

text \<open>
  What the Streams service (theory VirtualStream, src/agent/tcf/services/streamsservice.c) promises to the clients of a
  stream they can read: each of them gets all data, from the point where it connected, in order, however the reads of
  the clients interleave with the writes of the agent.
\<close>

section \<open>The ring buffer\<close>

lemma mod_less_twice: "x < 2 * l \<Longrightarrow> x mod l = (if x < l then x else x - l)" for x l :: nat
  by (cases "x < l") (simp_all add: le_mod_geq)

lemma ring_read_length: "i < length buf \<Longrightarrow> n \<le> length buf \<Longrightarrow> length (ring_read buf i n) = n"
  by (auto simp: ring_read_def)

lemma ring_read_nth:
  "i < length buf \<Longrightarrow> n \<le> length buf \<Longrightarrow> j < n \<Longrightarrow> ring_read buf i n ! j = buf ! ((i + j) mod length buf)"
  by (auto simp: ring_read_def nth_append mod_less_twice add.commute)

lemma overwrite_ok:
  "i + length bs \<le> length buf \<Longrightarrow> overwrite buf i bs = Inr (take i buf @ bs @ drop (i + length bs) buf)"
  by (simp add: overwrite_def)

lemma overwrite_nth:
  "i + length bs \<le> length buf \<Longrightarrow> m < length buf \<Longrightarrow>
   (take i buf @ bs @ drop (i + length bs) buf) ! m = (if i \<le> m \<and> m < i + length bs then bs ! (m - i) else buf ! m)"
  by (auto simp: nth_append)

lemma ring_write_ok:
  assumes "i < length buf" "length bs \<le> length buf"
  shows "\<exists>b. ring_write buf i bs = Inr b \<and> length b = length buf \<and>
    (\<forall>m < length buf. b ! m = (let j = (if m \<ge> i then m - i else m + length buf - i) in if j < length bs then bs ! j else buf ! m))"
proof (cases "i + length bs \<le> length buf")
  case True
  then show ?thesis using overwrite_nth [OF True] by (auto simp: ring_write_def overwrite_ok Let_def)
next
  case False
  let ?x = "length buf - i"
  define b1 where "b1 = take i buf @ take ?x bs @ drop (i + length (take ?x bs)) buf"
  define b2 where "b2 = take 0 b1 @ drop ?x bs @ drop (0 + length (drop ?x bs)) b1"
  have l1: "i + length (take ?x bs) \<le> length buf" "length b1 = length buf" using assms False by (auto simp: b1_def)
  have l2: "0 + length (drop ?x bs) \<le> length b1" using assms l1(2) by auto
  have "ring_write buf i bs = Inr b2" using False overwrite_ok [OF l1(1)] overwrite_ok [OF l2] by (simp add: ring_write_def b1_def b2_def)
  moreover have "length b2 = length buf" using l1(2) l2 by (simp add: b2_def)
  moreover have "b2 ! m = (let j = (if m \<ge> i then m - i else m + length buf - i) in if j < length bs then bs ! j else buf ! m)"
    if m: "m < length buf" for m
  proof -
    have "b1 ! m = (if i \<le> m \<and> m < i + length (take ?x bs) then take ?x bs ! (m - i) else buf ! m)"
      unfolding b1_def by (rule overwrite_nth [OF l1(1) m])
    moreover have "b2 ! m = (if 0 \<le> m \<and> m < 0 + length (drop ?x bs) then drop ?x bs ! (m - 0) else b1 ! m)"
      unfolding b2_def by (rule overwrite_nth [OF l2]) (simp add: l1(2) m)
    ultimately show ?thesis using m assms False by (auto simp: Let_def add.commute)
  qed
  ultimately show ?thesis by blast
qed

section \<open>What the buffer holds\<close>

text \<open>\<open>hist\<close> is everything that was ever added to the stream.\<close>

definition ring_ok :: "'c VirtualStream \<Rightarrow> bool" where
  "ring_ok s \<longleftrightarrow> vs_inp s < vs_buf_len s \<and> vs_out s < vs_buf_len s"

definition holds :: "byte list \<Rightarrow> 'c VirtualStream \<Rightarrow> bool" where
  "holds hist s \<longleftrightarrow> length hist = vs_pos s \<and> virtual_stream_data_size s \<le> vs_pos s \<and>
     (\<forall>k. 1 \<le> k \<longrightarrow> k \<le> virtual_stream_data_size s \<longrightarrow> hist ! (vs_pos s - k) = vs_buf s ! ((vs_inp s + vs_buf_len s - k) mod vs_buf_len s))"

lemma data_size_eq: "ring_ok s \<Longrightarrow>
    virtual_stream_data_size s = (if vs_out s \<le> vs_inp s then vs_inp s - vs_out s else vs_inp s + vs_buf_len s - vs_out s)"
  by (auto simp: virtual_stream_data_size_def ring_ok_def mod_less_twice)

lemma data_size_less: "ring_ok s \<Longrightarrow> virtual_stream_data_size s < vs_buf_len s"
  by (simp add: virtual_stream_data_size_def ring_ok_def)

lemma free_eq: "ring_ok s \<Longrightarrow>
    (vs_out s + vs_buf_len s - vs_inp s - 1) mod vs_buf_len s = vs_buf_len s - 1 - virtual_stream_data_size s"
  by (auto simp: data_size_eq ring_ok_def mod_less_twice)

lemma ring_read_hist:
  assumes r: "ring_ok s" and h: "holds hist s" and n: "n \<le> len" "len \<le> virtual_stream_data_size s"
  shows "ring_read (vs_buf s) ((vs_inp s + vs_buf_len s - len) mod vs_buf_len s) n = take n (drop (vs_pos s - len) hist)"
proof (rule nth_equalityI)
  let ?L = "vs_buf_len s" and ?i = "(vs_inp s + vs_buf_len s - len) mod vs_buf_len s"
  have L: "length (vs_buf s) = ?L" by (simp add: vs_buf_len_def)
  have i: "?i < length (vs_buf s)" "n \<le> length (vs_buf s)" using r n data_size_less [OF r] by (auto simp: L ring_ok_def)
  have lp: "len \<le> vs_pos s" "length hist = vs_pos s" using h n by (auto simp: holds_def)
  show "length (ring_read (vs_buf s) ?i n) = length (take n (drop (vs_pos s - len) hist))"
    using ring_read_length [OF i] lp n by simp
  fix j
  assume "j < length (ring_read (vs_buf s) ?i n)"
  then have j: "j < n" using ring_read_length [OF i] by simp
  have "len \<le> ?L" using n data_size_less [OF r] by simp
  then have "(?i + j) mod ?L = (vs_inp s + ?L - len + j) mod ?L" by (simp add: mod_add_left_eq)
  moreover have "vs_inp s + ?L - len + j = vs_inp s + ?L - (len - j)" using j n(1) \<open>len \<le> ?L\<close> by simp
  ultimately have "ring_read (vs_buf s) ?i n ! j = vs_buf s ! ((vs_inp s + ?L - (len - j)) mod ?L)"
    using ring_read_nth [OF i j] by (simp add: L)
  also have "\<dots> = hist ! (vs_pos s - (len - j))" 
    using h j n unfolding holds_def by (metis One_nat_def Suc_leI diff_le_self le_trans less_le_trans zero_less_diff)
  also have "\<dots> = take n (drop (vs_pos s - len) hist) ! j" using j n lp by (simp add: nth_append)
  finally show "ring_read (vs_buf s) ?i n ! j = take n (drop (vs_pos s - len) hist) ! j" .
qed

lemma add_bytes_ok:
  assumes r: "ring_ok s" and h: "holds hist s"
  shows "\<exists>n s1. add_bytes bs eos s = Inr (n, s1) \<and> n \<le> length bs \<and> ring_ok s1 \<and> holds (hist @ take n bs) s1 \<and>
    virtual_stream_data_size s1 = virtual_stream_data_size s + n \<and>
    (\<exists>b i e. s1 = s\<lparr>vs_buf := b, vs_inp := i, vs_pos := vs_pos s + n, vs_eos_inp := e\<rparr> \<and> length b = length (vs_buf s))"
proof -
  let ?L = "vs_buf_len s" and ?z = "virtual_stream_data_size s"
  define n where "n = min (length bs) (?L - 1 - ?z)"
  have L: "length (vs_buf s) = ?L" by (simp add: vs_buf_len_def)
  have z: "?z < ?L" by (rule data_size_less [OF r])
  have n: "n \<le> length bs" "n + ?z < ?L" using z by (auto simp: n_def)
  obtain b where b: "ring_write (vs_buf s) (vs_inp s) (take n bs) = Inr b" "length b = ?L"
      "\<And>m. m < ?L \<Longrightarrow> b ! m = (let j = (if m \<ge> vs_inp s then m - vs_inp s else m + ?L - vs_inp s) in if j < n then bs ! j else vs_buf s ! m)"
    using ring_write_ok [of "vs_inp s" "vs_buf s" "take n bs"] r n by (fastforce simp: L ring_ok_def Let_def)
  let ?s = "s\<lparr>vs_buf := b, vs_inp := (vs_inp s + n) mod ?L, vs_pos := vs_pos s + n, vs_eos_inp := (vs_eos_inp s \<or> eos \<and> length bs = n)\<rparr>"
  have e: "add_bytes bs eos s = Inr (n, ?s)" 
    unfolding add_bytes_def free_eq [OF r] map_ok_def Let_def n_def [symmetric] b(1) by simp
  have L': "vs_buf_len ?s = ?L" using b(2) by (simp add: vs_buf_len_def)
  have r': "ring_ok ?s" using r L' by (simp add: ring_ok_def)
  have z': "virtual_stream_data_size ?s = ?z + n" using r n
    unfolding data_size_eq [OF r] data_size_eq [OF r'] by (auto simp: b(2) [unfolded vs_buf_len_def] vs_buf_len_def ring_ok_def mod_less_twice split: if_splits)
  have "holds (hist @ take n bs) ?s" unfolding holds_def
  proof (intro conjI allI impI)
    show "length (hist @ take n bs) = vs_pos ?s" using h n by (simp add: holds_def)
    show "virtual_stream_data_size ?s \<le> vs_pos ?s" using h z' by (simp add: holds_def)
    fix k
    assume k: "1 \<le> k" "k \<le> virtual_stream_data_size ?s"
    then have kz: "k \<le> ?z + n" using z' by simp
    let ?m = "(vs_inp ?s + ?L - k) mod ?L"
    have m: "?m < ?L" using z by simp
    have hl: "length hist = vs_pos s" "?z \<le> vs_pos s" using h by (simp_all add: holds_def)
    show "(hist @ take n bs) ! (vs_pos ?s - k) = vs_buf ?s ! ((vs_inp ?s + vs_buf_len ?s - k) mod vs_buf_len ?s)"
    proof (cases "k \<le> n")
      case True
      then have "(if ?m \<ge> vs_inp s then ?m - vs_inp s else ?m + ?L - vs_inp s) = n - k"
        using r n k by (auto simp: ring_ok_def mod_less_twice split: if_splits)
      then have "b ! ?m = bs ! (n - k)" using b(3) [OF m] k n True by (simp add: Let_def)
      moreover have "vs_pos s + n - k = length hist + (n - k)" using True hl by simp
      then have "(hist @ take n bs) ! (vs_pos s + n - k) = bs ! (n - k)" using k n True by (simp only: nth_append_length_plus) simp
      ultimately show ?thesis by (simp add: L')
    next
      case False
      have a: "?m = (vs_inp s + ?L - (k - n)) mod ?L" using False r n kz z by (auto simp: ring_ok_def mod_less_twice split: if_splits)
      have g: "\<not> (if ?m \<ge> vs_inp s then ?m - vs_inp s else ?m + ?L - vs_inp s) < n"
        using False r n kz z by (auto simp: ring_ok_def mod_less_twice split: if_splits)
      have c: "hist ! (vs_pos s - (k - n)) = vs_buf s ! ((vs_inp s + ?L - (k - n)) mod ?L)"
      proof -
        have "1 \<le> k - n" "k - n \<le> ?z" using False kz by simp_all
        with h show ?thesis unfolding holds_def by blast
      qed
      have d: "b ! ?m = vs_buf s ! ?m" using b(3) [OF m] g by (simp only: Let_def if_False)
      have "(hist @ take n bs) ! (vs_pos s + n - k) = hist ! (vs_pos s - (k - n))"
      proof -
        have "vs_pos s + n - k = vs_pos s - (k - n)" "vs_pos s - (k - n) < length hist" using False kz hl by simp_all
        then show ?thesis by (simp only: nth_append if_True)
      qed
      also note c
      also note a [symmetric]
      also note d [symmetric]
      finally show ?thesis unfolding L' by simp
    qed
  qed
  with e n r' z' b(2) show ?thesis by (intro exI [of _ n] exI [of _ ?s]) (auto simp: L)
qed

section \<open>Clients\<close>

text \<open>A client is inside of what the buffer holds; it waits only when it has read everything.\<close>

definition reader_ok :: "'c VirtualStream \<Rightarrow> 'c StreamClient \<Rightarrow> bool" where
  "reader_ok s c \<longleftrightarrow> vs_pos s - virtual_stream_data_size s \<le> sc_pos c \<and> sc_pos c \<le> vs_pos s \<and>
     (\<forall>r \<in> set (sc_read_requests c). 0 < rr_size r)"

definition reader_waits :: "'c VirtualStream \<Rightarrow> 'c StreamClient \<Rightarrow> bool" where
  "reader_waits s c \<longleftrightarrow> sc_read_requests c \<noteq> [] \<longrightarrow> sc_pos c = vs_pos s \<and> \<not> vs_eos_inp s"

definition stream_inv :: "byte list \<Rightarrow> 'c VirtualStream \<Rightarrow> bool" where
  "stream_inv hist s \<longleftrightarrow> vs_remote_read s \<and> ring_ok s \<and> holds hist s \<and> (\<forall>c \<in> set (vs_clients s). reader_ok s c \<and> reader_waits s c) \<and>
     distinct (map sc_channel (vs_clients s)) \<and> vs_ref_cnt s = length (vs_clients s) + (if vs_deleted s then 0 else 1)"

text \<open>The data that a channel gets with some messages.\<close>

fun msg_data :: "stream_msg \<Rightarrow> byte list" where
  "msg_data (ReadReply tok bs lost eos) = bs"
| "msg_data _ = []"

definition got :: "'c \<Rightarrow> 'c outbox \<Rightarrow> byte list" where
  "got c ms = concat (map (\<lambda>(d, m). if d = c then msg_data m else []) ms)"

lemma got_simps [simp]: "got c [] = []" "got c ((d, m) # ms) = (if d = c then msg_data m else []) @ got c ms" "got c (ms @ ms2) = got c ms @ got c ms2"
  by (simp_all add: got_def)

lemma got_other: "\<forall>(d, m) \<in> set ms. d \<noteq> c \<Longrightarrow> got c ms = []"
  by (induction ms) auto

lemma reply_ok:
  assumes r: "ring_ok s" "holds hist s" and c: "reader_ok s c" and m: "sc_pos c < vs_pos s \<or> vs_eos_inp s" and z: "0 < z"
  shows "\<exists>n. n \<le> vs_pos s - sc_pos c \<and>
    send_read_reply s c tok z = Inr (ReadReply tok (take n (drop (sc_pos c) hist)) 0 (sc_pos c + n = vs_pos s \<and> vs_eos_inp s), c\<lparr>sc_pos := sc_pos c + n\<rparr>)"
proof -
  let ?len = "vs_pos s - sc_pos c"
  define n where "n = min ?len z"
  have len: "?len \<le> virtual_stream_data_size s" "sc_pos c \<le> vs_pos s" "vs_pos s - ?len = sc_pos c" using c by (auto simp: reader_ok_def)
  have d: "ring_read (vs_buf s) ((vs_inp s + vs_buf_len s - ?len) mod vs_buf_len s) n = take n (drop (sc_pos c) hist)"
    using ring_read_hist [OF r, of n ?len] len by (simp add: n_def)
  have "\<not> virtual_stream_data_size s < ?len" "virtual_stream_data_size s > 0 \<or> vs_eos_inp s" using len m by auto
  moreover have "sc_pos c + n \<le> vs_pos s" "(sc_pos c + n = vs_pos s \<and> vs_eos_inp s) \<or> 0 < n" using len m z by (auto simp: n_def)
  ultimately have "send_read_reply s c tok z =
      Inr (ReadReply tok (take n (drop (sc_pos c) hist)) 0 (sc_pos c + n = vs_pos s \<and> vs_eos_inp s), c\<lparr>sc_pos := sc_pos c + n\<rparr>)"
    using len d by (simp add: send_read_reply_def Let_def flip: n_def)
  then show ?thesis by (intro exI [of _ n]) (simp add: n_def)
qed

lemma serve_reads_ok:
  assumes r: "ring_ok s" "holds hist s"
  shows "reader_ok s c \<Longrightarrow> \<forall>q \<in> set rs. 0 < rr_size q \<Longrightarrow>
    \<exists>ms c'. serve_reads s rs c = Inr (ms, c') \<and> reader_ok s c' \<and> reader_waits s c' \<and> sc_channel c' = sc_channel c \<and> sc_pos c \<le> sc_pos c' \<and>
      (\<forall>(d, m) \<in> set ms. d = sc_channel c) \<and> got (sc_channel c) ms = take (sc_pos c' - sc_pos c) (drop (sc_pos c) hist)"
proof (induction rs arbitrary: c)
  case Nil
  then show ?case by (auto simp: reader_ok_def reader_waits_def)
next
  case (Cons q rs)
  show ?case
  proof (cases "sc_pos c < vs_pos s \<or> vs_eos_inp s")
    case True
    obtain n where n: "n \<le> vs_pos s - sc_pos c" "send_read_reply s c (rr_token q) (rr_size q) =
        Inr (ReadReply (rr_token q) (take n (drop (sc_pos c) hist)) 0 (sc_pos c + n = vs_pos s \<and> vs_eos_inp s), c\<lparr>sc_pos := sc_pos c + n\<rparr>)"
      using reply_ok [OF r Cons.prems(1) True, where z = "rr_size q" and tok = "rr_token q"] Cons.prems(2) by auto
    have c1: "reader_ok s (c\<lparr>sc_pos := sc_pos c + n\<rparr>)" using Cons.prems(1) n(1) by (auto simp: reader_ok_def)
    obtain ms c' where IH: "serve_reads s rs (c\<lparr>sc_pos := sc_pos c + n\<rparr>) = Inr (ms, c')" "reader_ok s c'" "reader_waits s c'"
        "sc_channel c' = sc_channel c" "sc_pos c + n \<le> sc_pos c'" "\<forall>(d, m) \<in> set ms. d = sc_channel c"
        "got (sc_channel c) ms = take (sc_pos c' - (sc_pos c + n)) (drop (sc_pos c + n) hist)"
      using Cons.IH [OF c1] Cons.prems(2) by auto
    have "take n (drop (sc_pos c) hist) @ got (sc_channel c) ms = take (sc_pos c' - sc_pos c) (drop (sc_pos c) hist)"
      using IH(5,7) take_add [of n "sc_pos c' - (sc_pos c + n)" "drop (sc_pos c) hist"] by (simp add: add.commute)
    moreover have "serve_reads s (q # rs) c =
        Inr ((sc_channel c, ReadReply (rr_token q) (take n (drop (sc_pos c) hist)) 0 (sc_pos c + n = vs_pos s \<and> vs_eos_inp s)) # ms, c')"
      using True n(2) IH(1) by (simp add: map_ok_def)
    ultimately show ?thesis using IH(2-6) by (intro exI conjI) (assumption | simp)+
  next
    case False
    with Cons.prems have "reader_waits s (c\<lparr>sc_read_requests := q # rs\<rparr>)" "reader_ok s (c\<lparr>sc_read_requests := q # rs\<rparr>)"
      by (auto simp: reader_waits_def reader_ok_def)
    with False show ?thesis by simp
  qed
qed

lemma serve_clients_ok:
  assumes r: "ring_ok s" "holds hist s"
  shows "\<forall>c \<in> set cs. reader_ok s c \<Longrightarrow> distinct (map sc_channel cs) \<Longrightarrow>
    \<exists>ms cs'. serve_clients s cs = Inr (ms, cs') \<and> map sc_channel cs' = map sc_channel cs \<and> (\<forall>c \<in> set cs'. reader_ok s c \<and> reader_waits s c) \<and>
      (\<forall>(d, m) \<in> set ms. d \<in> sc_channel ` set cs) \<and>
      list_all2 (\<lambda>c c'. sc_pos c \<le> sc_pos c' \<and> got (sc_channel c) ms = take (sc_pos c' - sc_pos c) (drop (sc_pos c) hist)) cs cs'"
proof (induction cs)
  case (Cons c cs)
  obtain m1 c' where c: "serve_reads s (sc_read_requests c) c = Inr (m1, c')" "reader_ok s c'" "reader_waits s c'" "sc_channel c' = sc_channel c"
      "sc_pos c \<le> sc_pos c'" "\<forall>(d, m) \<in> set m1. d = sc_channel c" "got (sc_channel c) m1 = take (sc_pos c' - sc_pos c) (drop (sc_pos c) hist)"
    using serve_reads_ok [OF r, of c "sc_read_requests c"] Cons.prems(1) by (auto simp: reader_ok_def)
  obtain m2 cs' where cs: "serve_clients s cs = Inr (m2, cs')" "map sc_channel cs' = map sc_channel cs" "\<forall>c \<in> set cs'. reader_ok s c \<and> reader_waits s c"
      "\<forall>(d, m) \<in> set m2. d \<in> sc_channel ` set cs"
      "list_all2 (\<lambda>c c'. sc_pos c \<le> sc_pos c' \<and> got (sc_channel c) m2 = take (sc_pos c' - sc_pos c) (drop (sc_pos c) hist)) cs cs'"
    using Cons.IH Cons.prems by auto
  have "got (sc_channel c) m2 = []" by (rule got_other) (use cs(4) Cons.prems(2) in \<open>fastforce\<close>)
  moreover have "got (sc_channel d) m1 = []" if "d \<in> set cs" for d
  proof (rule got_other)
    have "sc_channel d \<noteq> sc_channel c" using Cons.prems(2) that by (metis distinct.simps(2) image_eqI list.set_map list.simps(9))
    with c(6) show "\<forall>(da, m) \<in> set m1. da \<noteq> sc_channel d" by auto
  qed
  ultimately have "list_all2 (\<lambda>c c'. sc_pos c \<le> sc_pos c' \<and> got (sc_channel c) (m1 @ m2) = take (sc_pos c' - sc_pos c) (drop (sc_pos c) hist)) (c # cs) (c' # cs')"
    using c cs(5) by (auto elim!: list.rel_mono_strong)
  with c cs show ?case by (fastforce simp: map_ok_def)
qed simp

section \<open>Forgetting data that everybody has\<close>

lemma min_pos_acc: "fold (\<lambda>c m. case m of None \<Rightarrow> Some (sc_pos c) | Some p \<Rightarrow> Some (min p (sc_pos c))) cs (Some a) =
    Some (fold (\<lambda>c m. min m (sc_pos c)) cs a)"
  by (induction cs arbitrary: a) simp_all

lemma fold_min: "fold (\<lambda>c m. min m (sc_pos c)) cs a \<le> a \<and> (\<forall>c \<in> set cs. fold (\<lambda>c m. min m (sc_pos c)) cs a \<le> sc_pos c) \<and>
    (fold (\<lambda>c m. min m (sc_pos c)) cs a = a \<or> (\<exists>c \<in> set cs. fold (\<lambda>c m. min m (sc_pos c)) cs a = sc_pos c))"
proof (induction cs arbitrary: a)
  case (Cons c cs)
  from Cons.IH [of "min a (sc_pos c)"] show ?case by (auto simp: min_def split: if_splits)
qed simp

lemma min_pos_cases:
  obtains "cs = []" "min_pos cs = None" | p where "min_pos cs = Some p" "\<forall>c \<in> set cs. p \<le> sc_pos c" "\<exists>c \<in> set cs. p = sc_pos c"
proof (cases cs)
  case (Cons c cs')
  have "min_pos cs = Some (fold (\<lambda>c m. min m (sc_pos c)) cs' (sc_pos c))" by (simp add: Cons min_pos_def min_pos_acc)
  with fold_min [of cs' "sc_pos c"] that(2) show ?thesis by (auto simp: Cons)
qed (use that in \<open>simp add: min_pos_def\<close>)

lemma shrink_ok:
  assumes r: "ring_ok s" "holds hist s" and d: "d \<le> virtual_stream_data_size s"
    and s1: "s1 = s\<lparr>vs_out := (vs_out s + d) mod vs_buf_len s\<rparr>"
  shows "ring_ok s1 \<and> holds hist s1 \<and> virtual_stream_data_size s1 = virtual_stream_data_size s - d"
proof -
  have "0 < vs_buf_len s" using r(1) by (auto simp: ring_ok_def)
  then have r1: "ring_ok s1" using r(1) by (auto simp: ring_ok_def vs_buf_len_def s1)
  have z: "virtual_stream_data_size s1 = virtual_stream_data_size s - d"
    using r(1) d data_size_less [OF r(1)] unfolding data_size_eq [OF r(1)] data_size_eq [OF r1]
    by (auto simp: s1 vs_buf_len_def ring_ok_def mod_less_twice split: if_splits)
  moreover have "holds hist s1" using r(2) z by (auto simp: holds_def s1 vs_buf_len_def)
  ultimately show ?thesis using r1 by blast
qed

lemma advance_ok:
  assumes rr: "vs_remote_read s" and r: "ring_ok s" "holds hist s" and c: "\<forall>c \<in> set (vs_clients s). reader_ok s c \<and> reader_waits s c"
  shows "\<exists>s1. advance_stream_buffer s = Inr s1 \<and> ring_ok s1 \<and> holds hist s1 \<and> (\<forall>c \<in> set (vs_clients s1). reader_ok s1 c \<and> reader_waits s1 c) \<and>
    (\<exists>out b. s1 = s\<lparr>vs_out := out, vs_space_posted := b\<rparr>)"
proof -
  let ?z = "virtual_stream_data_size s"
  have le: "\<forall>c \<in> set (vs_clients s). sc_pos c \<le> vs_pos s \<and> vs_pos s - ?z \<le> sc_pos c" using c by (auto simp: reader_ok_def)
  have "\<exists>d \<le> ?z. advance_out s = Inr (s\<lparr>vs_out := (vs_out s + d) mod vs_buf_len s\<rparr>) \<and> (\<forall>c \<in> set (vs_clients s). vs_pos s - (?z - d) \<le> sc_pos c)"
  proof (cases rule: min_pos_cases [of "vs_clients s"])
    case 1
    have "(vs_out s + ?z) mod vs_buf_len s = vs_inp s" using r(1) by (auto simp: data_size_eq ring_ok_def mod_less_twice)
    with 1 show ?thesis by (intro exI [of _ ?z]) (simp add: advance_out_def)
  next
    case (2 p)
    have p: "p \<le> vs_pos s" "vs_pos s - ?z \<le> p" "?z \<le> vs_pos s" using 2 le r(2) by (auto simp: holds_def)
    show ?thesis
    proof (cases "p > vs_pos s - ?z")
      case True
      with p 2 show ?thesis by (intro exI [of _ "p - (vs_pos s - ?z)"]) (auto simp: advance_out_def Let_def)
    next
      case False
      have "vs_out s mod vs_buf_len s = vs_out s" using r(1) by (simp add: ring_ok_def)
      with False p 2 le show ?thesis by (intro exI [of _ 0]) (simp add: advance_out_def Let_def)
    qed
  qed
  then obtain d where d: "d \<le> ?z" "advance_out s = Inr (s\<lparr>vs_out := (vs_out s + d) mod vs_buf_len s\<rparr>)"
      "\<forall>c \<in> set (vs_clients s). vs_pos s - (?z - d) \<le> sc_pos c" by blast
  define t where "t = s\<lparr>vs_out := (vs_out s + d) mod vs_buf_len s\<rparr>"
  note t = shrink_ok [OF r d(1) t_def]
  define s1 where "s1 = (if ?z \<noteq> virtual_stream_data_size t \<and> \<not> vs_space_posted t then t\<lparr>vs_space_posted := True\<rparr> else t)"
  have "advance_stream_buffer s = Inr s1" using rr le d(2) by (auto simp: advance_stream_buffer_def s1_def simp flip: t_def)
  moreover have f: "\<exists>out b. s1 = s\<lparr>vs_out := out, vs_space_posted := b\<rparr>"
  proof (cases "?z \<noteq> virtual_stream_data_size t \<and> \<not> vs_space_posted t")
    case True
    then show ?thesis unfolding s1_def t_def by (simp only: simp_thms if_True) blast
  next
    case False
    have "t = s\<lparr>vs_out := (vs_out s + d) mod vs_buf_len s, vs_space_posted := vs_space_posted s\<rparr>" by (simp add: t_def)
    with False show ?thesis unfolding s1_def by (simp only: simp_thms if_False) blast
  qed
  moreover have "virtual_stream_data_size s1 = ?z - d" "ring_ok s1" "holds hist s1"
    using t by (auto simp: s1_def virtual_stream_data_size_def ring_ok_def holds_def vs_buf_len_def)
  moreover have "\<forall>c \<in> set (vs_clients s1). reader_ok s1 c \<and> reader_waits s1 c"
    using f d(3) c le calculation(3) by (auto simp: reader_ok_def reader_waits_def)
  ultimately show ?thesis by blast
qed

section \<open>Every operation keeps the invariant\<close>

text \<open>A client has moved forward and was sent just what it has passed.\<close>

definition served :: "byte list \<Rightarrow> 'c outbox \<Rightarrow> 'c StreamClient \<Rightarrow> 'c StreamClient \<Rightarrow> bool" where
  "served hist ms c c' \<longleftrightarrow> sc_channel c' = sc_channel c \<and> sc_pos c \<le> sc_pos c' \<and>
     got (sc_channel c) ms = take (sc_pos c' - sc_pos c) (drop (sc_pos c) hist)"

lemma served_same: "list_all2 (served hist []) cs cs"
  by (simp add: list_all2_conv_all_nth served_def)

lemma served_update:
  assumes "i < length cs" "served hist ms (cs ! i) c'" "\<And>j. j < length cs \<Longrightarrow> j \<noteq> i \<Longrightarrow> got (sc_channel (cs ! j)) ms = []"
  shows "list_all2 (served hist ms) cs (cs[i := c'])"
  unfolding list_all2_conv_all_nth
proof (intro conjI allI impI)
  fix j
  assume "j < length cs"
  then show "served hist ms (cs ! j) (cs[i := c'] ! j)" using assms by (cases "j = i") (simp_all add: served_def)
qed simp

lemma add_data_ok:
  assumes inv: "stream_inv hist s"
  shows "\<exists>res ms s'. virtual_stream_add_data bs eos s = Inr (res, ms, s') \<and>
    (let h = hist @ (case res of Inl e \<Rightarrow> [] | Inr n \<Rightarrow> take n bs) in stream_inv h s' \<and> list_all2 (served h ms) (vs_clients s) (vs_clients s'))"
proof (cases "vs_eos_inp s")
  case True
  with inv show ?thesis by (simp add: virtual_stream_add_data_def stream_inv_def served_same)
next
  case False
  have r: "vs_remote_read s" "ring_ok s" "holds hist s" using inv by (simp_all add: stream_inv_def)
  obtain n s1 b i e where a: "add_bytes bs eos s = Inr (n, s1)" "ring_ok s1" "holds (hist @ take n bs) s1"
      "virtual_stream_data_size s1 = virtual_stream_data_size s + n"
      "s1 = s\<lparr>vs_buf := b, vs_inp := i, vs_pos := vs_pos s + n, vs_eos_inp := e\<rparr>"
    using add_bytes_ok [OF r(2,3), of bs eos] by blast
  let ?h = "hist @ take n bs"
  have c1: "\<forall>c \<in> set (vs_clients s). reader_ok s1 c" using inv a(4,5) by (auto simp: stream_inv_def reader_ok_def)
  have d: "distinct (map sc_channel (vs_clients s))" using inv by (simp add: stream_inv_def)
  show ?thesis
  proof (cases "vs_eos_inp s1 \<or> n > 0")
    case True
    obtain ms cs where s: "serve_clients s1 (vs_clients s) = Inr (ms, cs)" "map sc_channel cs = map sc_channel (vs_clients s)"
        "\<forall>c \<in> set cs. reader_ok s1 c \<and> reader_waits s1 c"
        "list_all2 (\<lambda>c c'. sc_pos c \<le> sc_pos c' \<and> got (sc_channel c) ms = take (sc_pos c' - sc_pos c) (drop (sc_pos c) ?h)) (vs_clients s) cs"
      using serve_clients_ok [OF a(2,3) c1 d] by blast
    let ?s2 = "s1\<lparr>vs_clients := cs\<rparr>"
    have z: "virtual_stream_data_size ?s2 = virtual_stream_data_size s1" by (simp add: virtual_stream_data_size_def vs_buf_len_def)
    have "ring_ok ?s2" "holds ?h ?s2" "\<forall>c \<in> set (vs_clients ?s2). reader_ok ?s2 c \<and> reader_waits ?s2 c"
      using a(2,3) s(3) by (auto simp: ring_ok_def holds_def z reader_ok_def reader_waits_def vs_buf_len_def)
    then obtain s3 out p where s3: "advance_stream_buffer ?s2 = Inr s3" "ring_ok s3" "holds ?h s3"
        "\<forall>c \<in> set (vs_clients s3). reader_ok s3 c \<and> reader_waits s3 c" "s3 = ?s2\<lparr>vs_out := out, vs_space_posted := p\<rparr>"
      using advance_ok [of ?s2 ?h] r(1) a(5) by auto
    have "stream_inv ?h s3" using s3 inv a(5) s(2) by (auto simp: stream_inv_def dest: map_eq_imp_length_eq)
    moreover have "list_all2 (served ?h ms) (vs_clients s) (vs_clients s3)"
      using s(2,4) s3(5) by (auto simp: list_all2_conv_all_nth served_def) (metis nth_map)
    moreover have "virtual_stream_add_data bs eos s = Inr (Inr n, ms, s3)"
      using False a(1,5) True r(1) s(1) s3(1) by (simp add: virtual_stream_add_data_def map_ok_def)
    ultimately show ?thesis by simp
  next
    case no_news: False
    have no: "n = 0" "\<not> e" using no_news a(5) by auto
    have "\<forall>c \<in> set (vs_clients s). reader_waits s1 c" using inv a(5) no by (simp add: stream_inv_def reader_waits_def)
    with c1 a inv have "stream_inv ?h s1" by (simp add: stream_inv_def)
    moreover have "virtual_stream_add_data bs eos s = Inr (Inr n, [], s1)"
      using False a(1,5) no_news r(1) by (simp add: virtual_stream_add_data_def)
    ultimately show ?thesis using a(5) by (simp add: served_same)
  qed
qed

lemma client_read_ok:
  assumes inv: "stream_inv hist s" and i: "i < length (vs_clients s)" and z: "0 < z"
  shows "\<exists>ms s'. client_read i tok z s = Inr (None, ms, s') \<and> stream_inv hist s' \<and> list_all2 (served hist ms) (vs_clients s) (vs_clients s')"
proof -
  define c where "c = vs_clients s ! i"
  have c: "c \<in> set (vs_clients s)" "reader_ok s c" "reader_waits s c" using inv i by (auto simp: c_def stream_inv_def)
  have r: "vs_remote_read s" "ring_ok s" "holds hist s" "\<forall>c \<in> set (vs_clients s). reader_ok s c \<and> reader_waits s c"
    using inv by (simp_all add: stream_inv_def)
  have chan: "map sc_channel ((vs_clients s)[i := x]) = map sc_channel (vs_clients s)" if "sc_channel x = sc_channel c" for x
    using that i by (simp add: map_update c_def list_update_same_conv)
  show ?thesis
  proof (cases "sc_pos c = vs_pos s \<and> \<not> vs_eos_inp s")
    case True
    let ?c = "c\<lparr>sc_read_requests := sc_read_requests c @ [\<lparr>rr_token = tok, rr_size = z\<rparr>]\<rparr>"
    let ?s = "s\<lparr>vs_clients := (vs_clients s)[i := ?c]\<rparr>"
    have e: "client_read i tok z s = Inr (None, [], ?s)" using True r(1) by (simp add: client_read_def c_def Let_def)
    have zz: "virtual_stream_data_size ?s = virtual_stream_data_size s" by (simp add: virtual_stream_data_size_def vs_buf_len_def)
    have "reader_ok ?s ?c" "reader_waits ?s ?c" using c True z by (auto simp: reader_ok_def reader_waits_def zz)
    moreover have "reader_ok ?s x \<and> reader_waits ?s x" if "x \<in> set (vs_clients s)" for x
      using r(4) that by (simp add: reader_ok_def reader_waits_def zz)
    ultimately have "\<forall>x \<in> set (vs_clients ?s). reader_ok ?s x \<and> reader_waits ?s x"
      using set_update_subset_insert [of "vs_clients s" i ?c] by auto
    moreover have "ring_ok ?s" "holds hist ?s" using r by (simp_all add: ring_ok_def holds_def zz vs_buf_len_def)
    ultimately have "stream_inv hist ?s" using inv chan [of ?c] by (simp add: stream_inv_def)
    moreover have "list_all2 (served hist []) (vs_clients s) (vs_clients ?s)"
      using served_update [OF i, of hist "[]" ?c] by (simp add: served_def c_def)
    ultimately show ?thesis using e by blast
  next
    case False
    then have m: "sc_pos c < vs_pos s \<or> vs_eos_inp s" and rq: "sc_read_requests c = []"
      using c(2,3) by (auto simp: reader_ok_def reader_waits_def)
    obtain n where n: "n \<le> vs_pos s - sc_pos c" "send_read_reply s c tok z =
        Inr (ReadReply tok (take n (drop (sc_pos c) hist)) 0 (sc_pos c + n = vs_pos s \<and> vs_eos_inp s), c\<lparr>sc_pos := sc_pos c + n\<rparr>)"
      using reply_ok [OF r(2,3) c(2) m z] by blast
    let ?c = "c\<lparr>sc_pos := sc_pos c + n\<rparr>" and ?m = "(sc_channel c, ReadReply tok (take n (drop (sc_pos c) hist)) 0 (sc_pos c + n = vs_pos s \<and> vs_eos_inp s))"
    let ?s = "s\<lparr>vs_clients := (vs_clients s)[i := ?c]\<rparr>"
    have zz: "virtual_stream_data_size ?s = virtual_stream_data_size s" by (simp add: virtual_stream_data_size_def vs_buf_len_def)
    have "reader_ok ?s ?c" "reader_waits ?s ?c" using c n(1) rq by (auto simp: reader_ok_def reader_waits_def zz)
    moreover have "reader_ok ?s x \<and> reader_waits ?s x" if "x \<in> set (vs_clients s)" for x
      using r(4) that by (simp add: reader_ok_def reader_waits_def zz)
    ultimately have "\<forall>x \<in> set (vs_clients ?s). reader_ok ?s x \<and> reader_waits ?s x"
      using set_update_subset_insert [of "vs_clients s" i ?c] by auto
    moreover have "ring_ok ?s" "holds hist ?s" using r by (simp_all add: ring_ok_def holds_def zz vs_buf_len_def)
    ultimately obtain s3 out p where s3: "advance_stream_buffer ?s = Inr s3" "ring_ok s3" "holds hist s3"
        "\<forall>c \<in> set (vs_clients s3). reader_ok s3 c \<and> reader_waits s3 c" "s3 = ?s\<lparr>vs_out := out, vs_space_posted := p\<rparr>"
      using advance_ok [of ?s hist] r(1) by auto
    have "stream_inv hist s3" using s3 inv chan [of ?c] by (simp add: stream_inv_def)
    moreover have "list_all2 (served hist [?m]) (vs_clients s) (vs_clients s3)"
    proof -
      have ne: "sc_channel c \<noteq> sc_channel (vs_clients s ! j)" if "j < length (vs_clients s)" "j \<noteq> i" for j
        using inv i that by (auto simp: stream_inv_def distinct_conv_nth c_def)
      have "served hist [?m] (vs_clients s ! i) ?c" by (simp add: served_def flip: c_def)
      then have "list_all2 (served hist [?m]) (vs_clients s) ((vs_clients s)[i := ?c])"
        by (rule served_update [OF i]) (use ne in auto)
      then show ?thesis by (simp add: s3(5))
    qed
    moreover have "client_read i tok z s = Inr (None, [?m], s3)"
      using False r(1) rq n(2) s3(1) by (simp add: client_read_def map_ok_def Let_def flip: c_def)
    ultimately show ?thesis by blast
  qed
qed

lemma index_where_some: "index_where p xs = Some i \<Longrightarrow> i < length xs \<and> p (xs ! i)"
  by (induction xs arbitrary: i) (auto split: if_splits)

lemma index_where_none: "index_where p xs = None \<longleftrightarrow> (\<forall>x \<in> set xs. \<not> p x)"
  by (induction xs) auto

lemma create_client_ok:
  assumes inv: "stream_inv hist s" and c: "client_of c s = None"
  shows "stream_inv hist (create_client c s)"
proof -
  let ?s = "create_client c s"
  have f: "virtual_stream_data_size ?s = virtual_stream_data_size s" "vs_pos ?s = vs_pos s" "vs_eos_inp ?s = vs_eos_inp s"
    by (simp_all add: virtual_stream_data_size_def vs_buf_len_def create_client_def)
  have "c \<notin> sc_channel ` set (vs_clients s)" using c by (auto simp: client_of_def index_where_none)
  moreover have "reader_ok ?s x" "reader_waits ?s x" if "x \<in> set (vs_clients s)" for x
    using inv that by (simp_all add: stream_inv_def reader_ok_def reader_waits_def f)
  moreover have "ring_ok ?s" "holds hist ?s" using inv
    by (simp_all add: stream_inv_def ring_ok_def holds_def f) (simp_all add: create_client_def vs_buf_len_def)
  ultimately show ?thesis using inv
    by (auto simp: stream_inv_def) (auto simp: create_client_def reader_ok_def reader_waits_def virtual_stream_data_size_def vs_buf_len_def)
qed

lemma got_deleted: "got d (delete_client_msgs s c) = []"
  by (simp add: delete_client_msgs_def got_def comp_def)

lemma delete_client_ok:
  assumes inv: "stream_inv hist s" and i: "i < length (vs_clients s)"
  shows "\<exists>ms s'. delete_client i s = Inr (ms, s') \<and> stream_inv hist s' \<and> vs_clients s' = take i (vs_clients s) @ drop (Suc i) (vs_clients s) \<and>
    (\<forall>c. got c ms = [])"
proof -
  define cs where "cs = take i (vs_clients s) @ drop (Suc i) (vs_clients s)"
  define s1 where "s1 = s\<lparr>vs_clients := cs, vs_ref_cnt := vs_ref_cnt s - 1\<rparr>"
  have ref: "vs_ref_cnt s = length (vs_clients s) + (if vs_deleted s then 0 else 1)" using inv by (simp add: stream_inv_def)
  have cs: "set cs \<subseteq> set (vs_clients s)" "length (vs_clients s) = Suc (length cs)" "distinct (map sc_channel cs)"
  proof -
    have v: "vs_clients s = take i (vs_clients s) @ vs_clients s ! i # drop (Suc i) (vs_clients s)" using i by (rule id_take_nth_drop)
    show "set cs \<subseteq> set (vs_clients s)" unfolding cs_def using set_take_subset [of i] set_drop_subset [of "Suc i"] by fastforce
    show "length (vs_clients s) = Suc (length cs)" using i by (simp add: cs_def)
    have "distinct (map sc_channel (vs_clients s))" using inv by (simp add: stream_inv_def)
    then show "distinct (map sc_channel cs)" by (subst (asm) v) (auto simp: cs_def)
  qed
  have z: "virtual_stream_data_size s1 = virtual_stream_data_size s" by (simp add: s1_def virtual_stream_data_size_def vs_buf_len_def)
  have r: "ring_ok s1" "holds hist s1" "vs_remote_read s1" using inv
    by (simp_all add: stream_inv_def ring_ok_def holds_def z) (simp_all add: s1_def vs_buf_len_def)
  have c: "\<forall>c \<in> set (vs_clients s1). reader_ok s1 c \<and> reader_waits s1 c"
    using inv cs(1) by (auto simp: stream_inv_def reader_ok_def reader_waits_def z) (auto simp: s1_def)
  have ref1: "vs_ref_cnt s1 = length cs + (if vs_deleted s then 0 else 1)" using ref cs(2) by (simp add: s1_def)
  have k: "vs_clients s1 = cs" "vs_deleted s1 = vs_deleted s" by (simp_all add: s1_def)
  show ?thesis
  proof (cases "vs_ref_cnt s1 = 0")
    case True
    then have e: "cs = []" "vs_deleted s" using ref1 by (auto split: if_splits)
    let ?s = "s1\<lparr>vs_delete_posted := True\<rparr>"
    have "delete_client i s = Inr (delete_client_msgs s (vs_clients s ! i), ?s)"
      unfolding delete_client_def Let_def cs_def [symmetric] s1_def [symmetric] using True e k ref cs(2) by simp
    moreover have "stream_inv hist ?s"
      using r c k ref1 e by (simp add: stream_inv_def ring_ok_def holds_def virtual_stream_data_size_def vs_buf_len_def)
    ultimately show ?thesis using k got_deleted by (auto simp flip: cs_def)
  next
    case False
    obtain s2 out p where s2: "advance_stream_buffer s1 = Inr s2" "ring_ok s2" "holds hist s2"
        "\<forall>c \<in> set (vs_clients s2). reader_ok s2 c \<and> reader_waits s2 c" "s2 = s1\<lparr>vs_out := out, vs_space_posted := p\<rparr>"
      using advance_ok [OF r(3,1,2) c] by blast
    have "delete_client i s = Inr (delete_client_msgs s (vs_clients s ! i), s2)"
      unfolding delete_client_def Let_def cs_def [symmetric] s1_def [symmetric] using False r(3) ref cs(2) s2(1) by (simp add: map_ok_def)
    moreover have "stream_inv hist s2" using s2 r(3) cs(3) k ref1 by (simp add: stream_inv_def)
    ultimately show ?thesis using s2(5) k got_deleted by (auto simp flip: cs_def)
  qed
qed

lemma delete_stream_ok:
  assumes inv: "stream_inv hist s" and d: "\<not> vs_deleted s"
  shows "\<exists>s'. virtual_stream_delete s = Inr s' \<and> stream_inv hist s' \<and> vs_clients s' = vs_clients s"
proof -
  have ref: "vs_ref_cnt s = length (vs_clients s) + 1" using inv d by (simp add: stream_inv_def)
  have "stream_inv hist (s\<lparr>vs_deleted := True, vs_ref_cnt := length (vs_clients s), vs_delete_posted := b\<rparr>)" for b
    using inv by (simp add: stream_inv_def ring_ok_def holds_def virtual_stream_data_size_def vs_buf_len_def reader_ok_def reader_waits_def)
  from this [of "vs_delete_posted s"] this [of True] show ?thesis
    using d ref by (cases "vs_clients s") (auto simp: virtual_stream_delete_def Let_def)
qed

section \<open>Runs\<close>

text \<open>
  The life of a stream: what the agent does (adds data, deletes the stream), and what clients do (read with a size
  above zero, connect, disconnect). With the stream go all bytes that were ever added, the bytes that each channel got since
  it connected, and where in the stream it connected.
\<close>

type_synonym 'c run_state = "'c VirtualStream \<times> byte list \<times> ('c \<Rightarrow> byte list) \<times> ('c \<Rightarrow> nat)"

inductive stream_step :: "'c run_state \<Rightarrow> 'c run_state \<Rightarrow> bool" where
  add: "virtual_stream_add_data bs eos s = Inr (res, ms, s') \<Longrightarrow>
    stream_step (s, hist, gt, base) (s', hist @ (case res of Inl e \<Rightarrow> [] | Inr n \<Rightarrow> take n bs), \<lambda>c. gt c @ got c ms, base)"
| read: "client_of c s = Some i \<Longrightarrow> 0 < z \<Longrightarrow> client_read i tok z s = Inr (e, ms, s') \<Longrightarrow>
    stream_step (s, hist, gt, base) (s', hist, \<lambda>c. gt c @ got c ms, base)"
| connect: "client_of c s = None \<Longrightarrow>
    stream_step (s, hist, gt, base) (create_client c s, hist, gt(c := []), base(c := vs_pos s - virtual_stream_data_size s))"
| disconnect: "client_of c s = Some i \<Longrightarrow> delete_client i s = Inr (ms, s') \<Longrightarrow>
    stream_step (s, hist, gt, base) (s', hist, \<lambda>c. gt c @ got c ms, base)"
| delete: "\<not> vs_deleted s \<Longrightarrow> virtual_stream_delete s = Inr s' \<Longrightarrow> stream_step (s, hist, gt, base) (s', hist, gt, base)"

abbreviation stream_run :: "'c run_state \<Rightarrow> 'c run_state \<Rightarrow> bool" where
  "stream_run \<equiv> stream_step\<^sup>*\<^sup>*"

definition delivered :: "'c run_state \<Rightarrow> bool" where
  "delivered st \<longleftrightarrow> (case st of (s, hist, gt, base) \<Rightarrow>
     \<forall>c \<in> set (vs_clients s). base (sc_channel c) \<le> sc_pos c \<and> gt (sc_channel c) = take (sc_pos c - base (sc_channel c)) (drop (base (sc_channel c)) hist))"

lemma slice_more:
  assumes "b \<le> p" "p \<le> q" "p \<le> length hist"
  shows "take (p - b) (drop b hist) @ take (q - p) (drop p (hist @ later)) = take (q - b) (drop b (hist @ later))"
proof -
  have "take (q - b) (drop b (hist @ later)) = take ((p - b) + (q - p)) (drop b (hist @ later))" using assms by simp
  also have "\<dots> = take (p - b) (drop b (hist @ later)) @ take (q - p) (drop (p - b) (drop b (hist @ later)))" by (rule take_add)
  also have "take (p - b) (drop b (hist @ later)) = take (p - b) (drop b hist)" using assms by simp
  finally show ?thesis using assms by (simp add: add.commute)
qed

lemma delivered_served:
  assumes d: "delivered (s, hist, gt, base)" and inv: "stream_inv hist s"
    and a: "list_all2 (served (hist @ later) ms) (vs_clients s) (vs_clients s')"
  shows "delivered (s', hist @ later, \<lambda>c. gt c @ got c ms, base)"
  unfolding delivered_def prod.case
proof
  fix c'
  assume "c' \<in> set (vs_clients s')"
  then obtain j where "j < length (vs_clients s')" "c' = vs_clients s' ! j" by (auto simp: in_set_conv_nth)
  moreover define c where "c = vs_clients s ! j"
  ultimately have c: "c \<in> set (vs_clients s)" "served (hist @ later) ms c c'" using a by (auto simp: list_all2_conv_all_nth)
  have p: "base (sc_channel c) \<le> sc_pos c" "gt (sc_channel c) = take (sc_pos c - base (sc_channel c)) (drop (base (sc_channel c)) hist)"
    using d c(1) by (auto simp: delivered_def)
  have "sc_pos c \<le> length hist" using inv c(1) by (auto simp: stream_inv_def reader_ok_def holds_def)
  with slice_more [OF p(1) _ this, of "sc_pos c'" later] p c(2)
  show "base (sc_channel c') \<le> sc_pos c' \<and> gt (sc_channel c') @ got (sc_channel c') ms =
      take (sc_pos c' - base (sc_channel c')) (drop (base (sc_channel c')) (hist @ later))"
    by (simp add: served_def)
qed

lemma step_keeps:
  assumes "stream_step st st'" "stream_inv (fst (snd st)) (fst st)" "delivered st"
  shows "stream_inv (fst (snd st')) (fst st') \<and> delivered st'"
  using assms(1)
proof cases
  case (add bs eos s res ms s' hist gt base)
  obtain r m t where "virtual_stream_add_data bs eos s = Inr (r, m, t)"
      "stream_inv (hist @ (case r of Inl e \<Rightarrow> [] | Inr n \<Rightarrow> take n bs)) t"
      "list_all2 (served (hist @ (case r of Inl e \<Rightarrow> [] | Inr n \<Rightarrow> take n bs)) m) (vs_clients s) (vs_clients t)"
    using add_data_ok [of hist s bs eos] assms(2) add(1) by (auto simp: Let_def)
  with add delivered_served [of s hist gt base _ m t] assms(2,3) show ?thesis by simp
next
  case (read c s i z tok e ms s' hist gt base)
  have "i < length (vs_clients s)" using index_where_some read(3) by (fastforce simp: client_of_def)
  with client_read_ok [of hist s i z tok] assms(2) read obtain t m where
    "client_read i tok z s = Inr (None, m, t)" "stream_inv hist t" "list_all2 (served hist m) (vs_clients s) (vs_clients t)" by auto
  with read delivered_served [of s hist gt base "[]" m t] assms(2,3) show ?thesis by simp
next
  case (connect c s hist gt base)
  have "c \<notin> sc_channel ` set (vs_clients s)" using connect(3) by (auto simp: client_of_def index_where_none)
  then have "delivered st'" using assms(3) connect(1,2) by (auto simp: delivered_def create_client_def)
  with create_client_ok [of hist s c] connect assms(2) show ?thesis by simp
next
  case (disconnect c s i ms s' hist gt base)
  have "i < length (vs_clients s)" using index_where_some disconnect(3) by (fastforce simp: client_of_def)
  with delete_client_ok [of hist s i] assms(2) disconnect have s': "stream_inv hist s'"
      "vs_clients s' = take i (vs_clients s) @ drop (Suc i) (vs_clients s)" "\<forall>c. got c ms = []" by auto
  then have "set (vs_clients s') \<subseteq> set (vs_clients s)" using set_take_subset set_drop_subset by fastforce
  then have "delivered st'" using assms(3) disconnect(1,2) s'(3) by (auto simp: delivered_def)
  with s'(1) disconnect(2) show ?thesis by simp
next
  case (delete s s' hist gt base)
  with delete_stream_ok [of hist s] assms(2,3) show ?thesis by (auto simp: delivered_def)
qed

definition new_stream :: "string \<Rightarrow> u32 \<Rightarrow> nat \<Rightarrow> 'c VirtualStream" where
  "new_stream type n buf_len = hd (ss_streams (snd (virtual_stream_create type [] buf_len True False True
     \<lparr>ss_streams = [], ss_subscriptions = [], ss_id_cnt = n\<rparr>)))"

lemma new_stream_inv: "stream_inv [] (new_stream type n buf_len)"
  by (simp add: new_stream_def virtual_stream_create_def stream_inv_def ring_ok_def holds_def vs_buf_len_def virtual_stream_data_size_def)

definition stream_reachable :: "'c run_state \<Rightarrow> bool" where
  "stream_reachable st \<longleftrightarrow> (\<exists>type n buf_len gt base. stream_run (new_stream type n buf_len, [], gt, base) st)"

lemma reachable_ok: "stream_reachable st \<Longrightarrow> stream_inv (fst (snd st)) (fst st) \<and> delivered st"
proof -
  have "stream_run a st \<Longrightarrow> stream_inv (fst (snd a)) (fst a) \<Longrightarrow> delivered a \<Longrightarrow> stream_inv (fst (snd st)) (fst st) \<and> delivered st" for a
    by (induction rule: rtranclp_induct) (use step_keeps in blast)+
  moreover have "delivered (new_stream type n buf_len, [], gt, base)" for type n buf_len gt base
    by (simp add: delivered_def new_stream_def virtual_stream_create_def)
  ultimately show "stream_reachable st \<Longrightarrow> stream_inv (fst (snd st)) (fst st) \<and> delivered st"
    using new_stream_inv by (fastforce simp: stream_reachable_def)
qed

section \<open>Properties\<close>

text \<open>
  C19: Whatever the agent and the clients of a readable stream do, in whatever order (data is added, clients connect, read and
  disconnect, the stream is deleted): what each connected channel got so far are the bytes of the stream
  from the place where it connected up to its position, each once and in order. A client whose read command waits has got everything,
  and the end of the stream is not announced.
\<close>

theorem stream_multicast:
  assumes "stream_reachable (s, hist, gt, base)"
  shows "\<forall>c \<in> set (vs_clients s). base (sc_channel c) \<le> sc_pos c \<and> sc_pos c \<le> length hist \<and>
    gt (sc_channel c) = take (sc_pos c - base (sc_channel c)) (drop (base (sc_channel c)) hist) \<and>
    (sc_read_requests c \<noteq> [] \<longrightarrow> gt (sc_channel c) = drop (base (sc_channel c)) hist \<and> \<not> vs_eos_inp s)"
proof
  fix c
  assume c: "c \<in> set (vs_clients s)"
  from reachable_ok [OF assms] have i: "stream_inv hist s" and "delivered (s, hist, gt, base)" by simp_all
  with c have d: "base (sc_channel c) \<le> sc_pos c"
      "gt (sc_channel c) = take (sc_pos c - base (sc_channel c)) (drop (base (sc_channel c)) hist)" by (auto simp: delivered_def)
  have "sc_pos c \<le> length hist" "sc_read_requests c \<noteq> [] \<Longrightarrow> sc_pos c = length hist \<and> \<not> vs_eos_inp s"
    using i c by (auto simp: stream_inv_def reader_ok_def reader_waits_def holds_def)
  with d show "base (sc_channel c) \<le> sc_pos c \<and> sc_pos c \<le> length hist \<and>
    gt (sc_channel c) = take (sc_pos c - base (sc_channel c)) (drop (base (sc_channel c)) hist) \<and>
    (sc_read_requests c \<noteq> [] \<longrightarrow> gt (sc_channel c) = drop (base (sc_channel c)) hist \<and> \<not> vs_eos_inp s)" by auto
qed

text \<open>A run: a client connects, four bytes are offered to a stream with room for three, the client reads two of them.\<close>

definition demo1 :: "nat VirtualStream" where "demo1 = create_client 7 (new_stream ''T'' 1 3)"

definition demo2 :: "nat VirtualStream" where
  "demo2 = (case virtual_stream_add_data [10, 11, 12, 13] False demo1 of Inr (res, ms, s) \<Rightarrow> s | Inl e \<Rightarrow> demo1)"

definition demo3 :: "nat VirtualStream" where
  "demo3 = (case client_read 0 ''t'' 2 demo2 of Inr (res, ms, s) \<Rightarrow> s | Inl e \<Rightarrow> demo2)"

lemmas demo_defs = demo1_def demo2_def demo3_def new_stream_def virtual_stream_create_def create_client_def virtual_stream_data_size_def
  virtual_stream_add_data_def add_bytes_def vs_buf_len_def ring_write_def overwrite_def ring_read_def map_ok_def Let_def client_read_def
  send_read_reply_def advance_stream_buffer_def advance_out_def min_pos_def client_of_def got_def

lemma demo_value: "demo3 = demo2\<lparr>vs_clients := [(vs_clients demo2 ! 0)\<lparr>sc_pos := 2\<rparr>], vs_out := 2, vs_space_posted := True\<rparr>"
  "client_read 0 ''t'' 2 demo2 = Inr (None, [(7, ReadReply ''t'' [10, 11] 0 False)], demo3)"
  "virtual_stream_add_data [10, 11, 12, 13] False demo1 = Inr (Inr 3, [], demo2)"
  "client_of 7 demo2 = Some 0"
  by (simp_all add: demo_defs)

lemma demo_got: "(\<lambda>c. got c [(7, ReadReply tok bs 0 e)]) = (\<lambda>c. [])(7 := bs)"
  by (auto simp: got_def)

lemma demo_reachable: "stream_reachable (demo3, [10, 11, 12], (\<lambda>c. [])(7 := [10, 11]), \<lambda>c. 0)"
proof -
  let ?gt = "(\<lambda>c. []) :: nat \<Rightarrow> byte list" and ?b = "\<lambda>c. 0"
  have "stream_step (new_stream ''T'' 1 3, [], ?gt, ?b) (demo1, [], ?gt, ?b)"
    using stream_step.connect [of 7 "new_stream ''T'' 1 3" "[]" ?gt ?b] by (simp add: demo_defs fun_upd_idem)
  also have "stream_step\<^sup>*\<^sup>* (demo1, [], ?gt, ?b) (demo2, [10, 11, 12], ?gt, ?b)"
    using stream_step.add [OF demo_value(3), of "[]" ?gt ?b] by (auto simp: got_def)
  also have "stream_step (demo2, [10, 11, 12], ?gt, ?b) (demo3, [10, 11, 12], (\<lambda>c. [])(7 := [10, 11]), ?b)"
    using stream_step.read [OF demo_value(4) _ demo_value(2), of "[10, 11, 12]" ?gt ?b] by (simp only: demo_got append_Nil)
  finally show ?thesis unfolding stream_reachable_def by blast
qed

theorem stream_multicast_witness:
  "stream_reachable (demo3, [10, 11, 12], (\<lambda>c. [])(7 := [10, 11]), \<lambda>c. 0) \<and>
   sc_channel (vs_clients demo3 ! 0) = 7 \<and> [10, 11] = take (sc_pos (vs_clients demo3 ! 0)) [10, 11, 12 :: byte]"
proof -
  have c: "vs_clients demo3 ! 0 \<in> set (vs_clients demo3)" "sc_channel (vs_clients demo3 ! 0) = 7" by (simp_all add: demo_defs)
  with stream_multicast [OF demo_reachable] demo_reachable show ?thesis by fastforce
qed



text \<open>
  A client can stop the agent with one command: a read of size zero on a stream that has data for the client and whose end is not known
  fails the assertion at the end of \<open>send_read_reply\<close>. The state before it is one that every reader of the stream gets into.
\<close>

theorem read_zero_asserts:
  assumes "stream_reachable (s, hist, gt, base)" "client_of c s = Some i" "sc_pos (vs_clients s ! i) < length hist" "\<not> vs_eos_inp s"
  shows "client_read i tok 0 s = Inl AssertFailed"
proof -
  from reachable_ok [OF assms(1)] have inv: "stream_inv hist s" by simp
  have i: "i < length (vs_clients s)" using index_where_some assms(2) by (fastforce simp: client_of_def)
  then have c: "reader_ok s (vs_clients s ! i)" "reader_waits s (vs_clients s ! i)" "vs_remote_read s" "length hist = vs_pos s"
    using inv by (auto simp: stream_inv_def holds_def)
  with assms(3,4) show ?thesis by (auto simp: client_read_def send_read_reply_def reader_ok_def reader_waits_def Let_def)
qed

theorem read_zero_asserts_witness:
  "client_of 7 demo3 = Some 0 \<and> client_read 0 ''t'' 0 demo3 = Inl AssertFailed"
proof -
  have "client_of 7 demo3 = Some 0" "sc_pos (vs_clients demo3 ! 0) < length [10, 11, 12 :: byte]" "\<not> vs_eos_inp demo3"
    by (simp_all add: demo_defs)
  with read_zero_asserts [OF demo_reachable] show ?thesis by simp
qed

text \<open>
  C34: A client that announces fewer bytes than it sends writes past the end of a block on the heap: when the data does not fit into the buffer of the
  stream, \<open>virtual_stream_write\<close> allocates what the announced size leaves and copies the whole rest of the piece it has read.
\<close>

theorem write_overflow:
  assumes "vs_remote_write s" "\<not> vs_remote_read s" "\<not> vs_eos_inp s" "ring_ok s" "sc_write_requests (vs_clients s ! i) = []"
    and room: "vs_buf_len s - 1 - virtual_stream_data_size s \<le> sz" and sz: "sz < length bs" "length bs \<le> 256"
  shows "client_write i tok sz bs s = Inl BadMemory"
proof -
  let ?n = "vs_buf_len s - 1 - virtual_stream_data_size s"
  have n: "min (length bs) ?n = ?n" using room sz by simp
  have "vs_inp s < length (vs_buf s)" "length (take ?n bs) \<le> length (vs_buf s)" using assms(4) by (auto simp: ring_ok_def vs_buf_len_def)
  with ring_write_ok obtain b where "ring_write (vs_buf s) (vs_inp s) (take ?n bs) = Inr b" by blast
  then obtain t where "add_bytes bs False s = Inr (?n, t)" "\<not> vs_remote_read t"
    using assms(2) by (simp add: add_bytes_def free_eq [OF assms(4), simplified] n [simplified] map_ok_def Let_def)
  then obtain t where "virtual_stream_add_data bs False s = Inr (Inr ?n, [], t)"
    using assms(3) by (simp add: virtual_stream_add_data_def)
  moreover have "bs \<noteq> []" using sz by auto
  ultimately have "write_loop sz 0 bs s = Inl BadMemory" using room sz by (subst write_loop.simps) simp
  then show ?thesis using assms(1,5) by (simp add: client_write_def Let_def)
qed

definition demo4 :: "nat VirtualStream" where
  "demo4 = create_client 7 (hd (ss_streams (snd (virtual_stream_create ''T'' [] 3 False True True
     \<lparr>ss_streams = [], ss_subscriptions = [], ss_id_cnt = 1\<rparr>))))"

theorem write_overflow_witness: "client_write 0 ''t'' 3 [1, 2, 3, 4, 5] demo4 = Inl BadMemory"
  by (rule write_overflow) (simp_all add: demo4_def demo_defs ring_ok_def)

end
