(* ===== verification/Cache.thy ===== *)
theory Cache
  imports Prelude "HOL-Library.Multiset"
begin

text \<open>
  The asynchronous data caches: src/agent/tcf/framework/cache.c. A cache client is code that needs data from caches. When an item is
  not there, \<open>cache_wait\<close> puts the client into the wait list of the cache and raises \<open>ERR_CACHE_MISS\<close>; once the cache is
  filled, \<open>cache_notify\<close> runs the client again, from its start.

  Clients are C functions of the services. One run of a client is a value of type \<open>body\<close>: what it does to the state, and whether it
  returns or raises an exception. The functions of this theory take the bodies of the runs they start as arguments.

  Transaction listeners, which all get the same events, are a log of the events with the transaction that is current. Locks that the caches
  hold on channels are a multiset of channels; \<open>cs_blocks\<close> counts the copies of arguments on the heap. A wait list is an array of
  \<open>wait_list_max\<close> elements of which the first \<open>wait_list_cnt\<close> are in use. Assertions that fail and accesses outside of arrays are
  faults. \<open>cache_miss_cnt\<close> is a natural number.
\<close>

section \<open>State\<close>

datatype cache_fault = AssertFailed | BadMemory

record 'c WaitingCacheClient =
  wc_id :: u32
  wc_client :: "string option"
  wc_channel :: "'c option"
  wc_args :: "byte list option"
  wc_args_copy :: bool
  wc_time_stamp :: int
  wc_file :: string
  wc_line :: nat

record 'c AbstractCache =
  wait_list_buf :: "'c WaitingCacheClient list"
  wait_list_cnt :: nat

datatype ctle = CTLE_START | CTLE_RETRY | CTLE_ABORT | CTLE_COMMIT

record ('c, 'k) cache_state =
  cs_current :: "'c WaitingCacheClient"
  cs_current_cache :: "'k option"
  cs_miss_cnt :: nat
  cs_wait_buf :: "'c WaitingCacheClient list"
  cs_id_cnt :: u32
  cs_caches :: "'k \<Rightarrow> 'c AbstractCache"
  cs_list :: "'k list"
  cs_def_channel :: "'c option"
  cs_timer_posted :: bool
  cs_posted :: "'c WaitingCacheClient list list"
  cs_locks :: "'c multiset"
  cs_blocks :: nat
  cs_log :: "(ctle \<times> u32) list"

datatype outcome = Returned | Raised tcf_error

type_synonym 'a cr = "cache_fault + 'a"
type_synonym ('c, 'k) body = "('c, 'k) cache_state \<Rightarrow> (outcome \<times> ('c, 'k) cache_state) cr"

definition no_client :: "'c WaitingCacheClient" where
  "no_client = \<lparr>wc_id = 0, wc_client = None, wc_channel = None, wc_args = None, wc_args_copy = False, wc_time_stamp = 0,
     wc_file = [], wc_line = 0\<rparr>"

definition tell :: "ctle \<Rightarrow> ('c, 'k) cache_state \<Rightarrow> ('c, 'k) cache_state" where
  "tell ev s = s\<lparr>cs_log := cs_log s @ [(ev, wc_id (cs_current s))]\<rparr>"

text \<open>The four assignments that end the current transaction.\<close>

definition no_transaction :: "('c, 'k) cache_state \<Rightarrow> ('c, 'k) cache_state" where
  "no_transaction s = s\<lparr>cs_current := no_client, cs_current_cache := None, cs_miss_cnt := 0, cs_def_channel := None\<rparr>"

section \<open>What a client calls\<close>

definition cache_wait :: "int \<Rightarrow> string \<Rightarrow> nat \<Rightarrow> 'k \<Rightarrow> ('c, 'k) body" where
  "cache_wait now file line k s =
     (if wc_client (cs_current s) = None then Inl AssertFailed
      else Inr (Raised ERR_CACHE_MISS, s\<lparr>cs_current_cache := Some k, cs_miss_cnt := cs_miss_cnt s + 1,
        cs_current := (cs_current s)\<lparr>wc_file := file, wc_line := line, wc_time_stamp := now\<rparr>, cs_timer_posted := True\<rparr>))"

definition cache_exit :: "('c, 'k) body" where
  "cache_exit s =
     (if wc_client (cs_current s) = None then Inl AssertFailed
      else if cs_miss_cnt s > 0 then Inr (Raised ERR_CACHE_MISS, s)
      else Inr (Returned, no_transaction (tell CTLE_COMMIT s)))"

definition cache_channel :: "('c, 'k) cache_state \<Rightarrow> 'c option" where
  "cache_channel s =
     (if wc_channel (cs_current s) \<noteq> None then wc_channel (cs_current s)
      else if wc_client (cs_current s) \<noteq> None then cs_def_channel s else None)"

definition cache_set_def_channel :: "'c option \<Rightarrow> ('c, 'k) cache_state \<Rightarrow> ('c, 'k) cache_state" where
  "cache_set_def_channel c s = s\<lparr>cs_def_channel := c\<rparr>"

definition cache_transaction_id :: "('c, 'k) cache_state \<Rightarrow> u32" where
  "cache_transaction_id s = wc_id (cs_current s)"

definition cache_miss_count :: "('c, 'k) cache_state \<Rightarrow> nat" where
  "cache_miss_count s = cs_miss_cnt s"

section \<open>Running a client\<close>

definition lock_channel :: "'c option \<Rightarrow> ('c, 'k) cache_state \<Rightarrow> ('c, 'k) cache_state" where
  "lock_channel c s = (case c of None \<Rightarrow> s | Some x \<Rightarrow> s\<lparr>cs_locks := cs_locks s + {#x#}\<rparr>)"

definition unlock_channel :: "'c option \<Rightarrow> ('c, 'k) cache_state \<Rightarrow> ('c, 'k) cache_state cr" where
  "unlock_channel c s =
     (case c of None \<Rightarrow> Inr s | Some x \<Rightarrow> if x \<in># cs_locks s then Inr (s\<lparr>cs_locks := cs_locks s - {#x#}\<rparr>) else Inl AssertFailed)"

text \<open>The arguments move to the heap when the client waits for the first time.\<close>

definition copy_args :: "('c, 'k) cache_state \<Rightarrow> ('c, 'k) cache_state" where
  "copy_args s =
     (if wc_args (cs_current s) \<noteq> None \<and> \<not> wc_args_copy (cs_current s)
      then s\<lparr>cs_current := (cs_current s)\<lparr>wc_args_copy := True\<rparr>, cs_blocks := cs_blocks s + 1\<rparr> else s)"

definition free_args :: "bool \<Rightarrow> ('c, 'k) cache_state \<Rightarrow> ('c, 'k) cache_state cr" where
  "free_args copied s =
     (if \<not> copied then Inr s else if cs_blocks s = 0 then Inl BadMemory else Inr (s\<lparr>cs_blocks := cs_blocks s - 1\<rparr>))"

definition add_waiting :: "'c WaitingCacheClient \<Rightarrow> 'c AbstractCache \<Rightarrow> 'c AbstractCache cr" where
  "add_waiting w c =
     (let buf = (if wait_list_cnt c \<ge> length (wait_list_buf c) then wait_list_buf c @ replicate 8 no_client else wait_list_buf c)
      in if wait_list_cnt c < length buf
         then Inr (c\<lparr>wait_list_buf := buf[wait_list_cnt c := w], wait_list_cnt := wait_list_cnt c + 1\<rparr>) else Inl BadMemory)"

definition put_to_wait :: "'k \<Rightarrow> ('c, 'k) cache_state \<Rightarrow> ('c, 'k) cache_state cr" where
  "put_to_wait k s =
     (let s1 = copy_args s;
          s2 = (if wait_list_cnt (cs_caches s1 k) = 0 then s1\<lparr>cs_list := cs_list s1 @ [k]\<rparr> else s1);
          s3 = lock_channel (wc_channel (cs_current s2)) s2
      in bindE (add_waiting (cs_current s3) (cs_caches s3 k)) (\<lambda>c.
           Inr (tell CTLE_ABORT (s3\<lparr>cs_caches := (cs_caches s3)(k := c)\<rparr>))))"

text \<open>What happens after the client: \<open>n\<close> and \<open>copied\<close> are the transaction and \<open>args_copy\<close> before it.\<close>

definition after_client :: "u32 \<Rightarrow> bool \<Rightarrow> outcome \<Rightarrow> ('c, 'k) cache_state \<Rightarrow> ('c, 'k) cache_state cr" where
  "after_client n copied out s =
     (let ended = (if wc_id (cs_current s) = 0 \<and> cs_miss_cnt s = 0 then free_args copied s else Inl AssertFailed) in
      case out of
        Returned \<Rightarrow> ended
      | Raised e \<Rightarrow>
          if n \<noteq> wc_id (cs_current s) then ended
          else
            (case cs_current_cache s of
               Some k \<Rightarrow>
                 if e = ERR_CACHE_MISS \<and> cs_miss_cnt s \<noteq> 0 then bindE (put_to_wait k s) (\<lambda>s1. Inr (no_transaction s1))
                 else free_args copied (no_transaction (tell CTLE_COMMIT s))
             | None \<Rightarrow> free_args copied (no_transaction (tell CTLE_COMMIT s))))"

definition run_cache_client :: "bool \<Rightarrow> ('c, 'k) body \<Rightarrow> ('c, 'k) cache_state \<Rightarrow> ('c, 'k) cache_state cr" where
  "run_cache_client retry client s =
     (let n = wc_id (cs_current s); copied = wc_args_copy (cs_current s);
          s1 = tell (if retry then CTLE_RETRY else CTLE_START) (s\<lparr>cs_current_cache := None, cs_miss_cnt := 0, cs_def_channel := None\<rparr>)
      in if n = 0 then Inl AssertFailed
         else bindE (client s1) (\<lambda>(out, s2). after_client n copied out s2))"

definition cache_enter ::
  "string \<Rightarrow> 'c option \<Rightarrow> byte list option \<Rightarrow> ('c, 'k) body \<Rightarrow> ('c, 'k) cache_state \<Rightarrow> ('c, 'k) cache_state cr" where
  "cache_enter name c args client s =
     (if wc_id (cs_current s) \<noteq> 0 \<or> wc_client (cs_current s) \<noteq> None then Inl AssertFailed
      else
        (let n = (if cs_id_cnt s = 0 then cs_id_cnt s + 1 else cs_id_cnt s)
         in run_cache_client False client (s\<lparr>cs_id_cnt := n + 1, cs_current := \<lparr>wc_id = n, wc_client = Some name, wc_channel = c,
              wc_args = args, wc_args_copy = False, wc_time_stamp = 0, wc_file = [], wc_line = 0\<rparr>\<rparr>)))"

section \<open>Waking clients up\<close>

text \<open>The clients in the static buffer from place \<open>i\<close> on; one body for each.\<close>

fun notify_loop :: "('c, 'k) body list \<Rightarrow> nat \<Rightarrow> ('c, 'k) cache_state \<Rightarrow> ('c, 'k) cache_state cr" where
  "notify_loop [] i s = Inr s"
| "notify_loop (b # bs) i s =
     (if i \<ge> length (cs_wait_buf s) then Inl BadMemory
      else bindE (run_cache_client True b (s\<lparr>cs_current := cs_wait_buf s ! i\<rparr>)) (\<lambda>s1.
        if i \<ge> length (cs_wait_buf s1) then Inl BadMemory
        else bindE (unlock_channel (wc_channel (cs_wait_buf s1 ! i)) s1) (notify_loop bs (i + 1))))"

definition bodies :: "(nat \<Rightarrow> ('c, 'k) body) \<Rightarrow> nat \<Rightarrow> ('c, 'k) body list" where
  "bodies client n = map client [0..<n]"

definition cache_notify :: "(nat \<Rightarrow> ('c, 'k) body) \<Rightarrow> 'k \<Rightarrow> ('c, 'k) cache_state \<Rightarrow> ('c, 'k) cache_state cr" where
  "cache_notify client k s =
     (let c = cs_caches s k; cnt = wait_list_cnt c in
      if cnt = 0 then Inr s
      else
        (let buf = (if length (cs_wait_buf s) < cnt then cs_wait_buf s @ replicate (cnt - length (cs_wait_buf s)) no_client
                     else cs_wait_buf s)
         in notify_loop (bodies client cnt) 0
              (s\<lparr>cs_list := remove1 k (cs_list s), cs_caches := (cs_caches s)(k := c\<lparr>wait_list_cnt := 0\<rparr>),
                 cs_wait_buf := take cnt (wait_list_buf c) @ drop cnt buf\<rparr>)))"

text \<open>The same in an event of its own: the array goes with the event, behind the last client there is one that is \<open>NULL\<close>.\<close>

definition cache_notify_later :: "'k \<Rightarrow> ('c, 'k) cache_state \<Rightarrow> ('c, 'k) cache_state" where
  "cache_notify_later k s =
     (let c = cs_caches s k; cnt = wait_list_cnt c in
      if cnt = 0 then s
      else
        (let buf = (if length (wait_list_buf c) \<le> cnt then wait_list_buf c @ replicate (cnt + 1 - length (wait_list_buf c)) no_client
                     else wait_list_buf c)
         in s\<lparr>cs_list := remove1 k (cs_list s), cs_caches := (cs_caches s)(k := \<lparr>wait_list_buf = [], wait_list_cnt = 0\<rparr>),
              cs_posted := cs_posted s @ [buf[cnt := no_client]]\<rparr>))"

fun notify_event_loop :: "(nat \<Rightarrow> ('c, 'k) body) \<Rightarrow> nat \<Rightarrow> 'c WaitingCacheClient list \<Rightarrow> ('c, 'k) cache_state \<Rightarrow> ('c, 'k) cache_state cr" where
  "notify_event_loop client i [] s = Inl BadMemory"
| "notify_event_loop client i (w # ws) s =
     (if wc_client w = None then Inr s
      else bindE (run_cache_client True (client i) (s\<lparr>cs_current := w\<rparr>)) (\<lambda>s1.
        bindE (unlock_channel (wc_channel w) s1) (notify_event_loop client (i + 1) ws)))"

definition cache_notify_event :: "(nat \<Rightarrow> ('c, 'k) body) \<Rightarrow> ('c, 'k) cache_state \<Rightarrow> ('c, 'k) cache_state cr" where
  "cache_notify_event client s =
     (case cs_posted s of [] \<Rightarrow> Inr s | buf # q \<Rightarrow> notify_event_loop client 0 buf (s\<lparr>cs_posted := q\<rparr>))"

definition cache_dispose :: "'k \<Rightarrow> ('c, 'k) cache_state \<Rightarrow> ('c, 'k) cache_state cr" where
  "cache_dispose k s =
     (if wait_list_cnt (cs_caches s k) \<noteq> 0 \<or> k \<in> set (cs_list s) then Inl AssertFailed
      else Inr (s\<lparr>cs_caches := (cs_caches s)(k := \<lparr>wait_list_buf = [], wait_list_cnt = 0\<rparr>)\<rparr>))"

text \<open>The timer that reports clients which wait for 30 seconds or more; the result is what it reports.\<close>

definition stalled :: "int \<Rightarrow> 'c AbstractCache \<Rightarrow> (string \<times> nat) list" where
  "stalled now c = map (\<lambda>w. (wc_file w, wc_line w)) (filter (\<lambda>w. now - wc_time_stamp w \<ge> 30) (take (wait_list_cnt c) (wait_list_buf c)))"

definition cache_timer :: "int \<Rightarrow> ('c, 'k) cache_state \<Rightarrow> ((string \<times> nat) list \<times> ('c, 'k) cache_state) cr" where
  "cache_timer now s =
     (if \<not> cs_timer_posted s \<or> (\<exists>k \<in> set (cs_list s). wait_list_cnt (cs_caches s k) = 0) then Inl AssertFailed
      else Inr (concat (map (\<lambda>k. stalled now (cs_caches s k)) (cs_list s)), s\<lparr>cs_timer_posted := cs_list s \<noteq> []\<rparr>))"

definition cache_initial :: "('c, 'k) cache_state" where
  "cache_initial = \<lparr>cs_current = no_client, cs_current_cache = None, cs_miss_cnt = 0, cs_wait_buf = [], cs_id_cnt = 0,
     cs_caches = (\<lambda>k. \<lparr>wait_list_buf = [], wait_list_cnt = 0\<rparr>), cs_list = [], cs_def_channel = None, cs_timer_posted = False,
     cs_posted = [], cs_locks = {#}, cs_blocks = 0, cs_log = []\<rparr>"

end
