(* ===== verification/CacheRuns.thy ===== *)
theory CacheRuns
  imports Cache
begin

text \<open>
  What the caches (theory Cache, src/agent/tcf/framework/cache.c) promise: no client is lost, none is run twice at the same time, channels are locked
  as long as a client waits for them, and no argument block leaks.
\<close>

section \<open>Clients\<close>

text \<open>
  What a client does in one run, as far as the caches see it: it waits for data (and may catch the exception), leaves the cache, raises an exception,
  announces data of other caches, or starts other clients. Any run of a client gives such a list.
\<close>

datatype ('c, 'k) act =
    Wait int string nat 'k bool
  | Exit bool
  | Throw tcf_error
  | SetDef "'c option"
  | Later 'k
  | Enter string "'c option" "byte list option" "('c, 'k) act list"
  | Notify 'k "('c, 'k) act list list"

definition caught :: "bool \<Rightarrow> ('c, 'k) body \<Rightarrow> ('c, 'k) body \<Rightarrow> ('c, 'k) body" where
  "caught c f g s = bindE (f s) (\<lambda>(out, s1). case out of Returned \<Rightarrow> g s1 | Raised e \<Rightarrow> if c then g s1 else Inr (out, s1))"

definition nth_body :: "('c, 'k) body list \<Rightarrow> nat \<Rightarrow> ('c, 'k) body" where
  "nth_body bs i = (if i < length bs then bs ! i else (\<lambda>s. Inr (Raised ERR_OTHER, s)))"

fun run_acts :: "('c, 'k) act list \<Rightarrow> ('c, 'k) body" where
  "run_acts [] = (\<lambda>s. Inr (Returned, s))"
| "run_acts (Wait t f l k c # as) = caught c (cache_wait t f l k) (run_acts as)"
| "run_acts (Exit c # as) = caught c cache_exit (run_acts as)"
| "run_acts (Throw e # as) = (\<lambda>s. Inr (Raised e, s))"
| "run_acts (SetDef ch # as) = (\<lambda>s. run_acts as (cache_set_def_channel ch s))"
| "run_acts (Later k # as) = (\<lambda>s. run_acts as (cache_notify_later k s))"
| "run_acts (Enter n ch a inner # as) = (\<lambda>s. bindE (cache_enter n ch a (run_acts inner) s) (run_acts as))"
| "run_acts (Notify k inner # as) = (\<lambda>s. bindE (cache_notify (nth_body (map run_acts inner)) k s) (run_acts as))"

text \<open>
  What the caches expect from a client: between \<open>cache_enter\<close> and \<open>cache_exit\<close> (phase \<open>Some missed\<close>, with whether data was missed) it does not
  return, nor start another client; after \<open>cache_exit\<close> (phase \<open>None\<close>) it does not use the caches. It does not call
  \<open>cache_notify\<close> but \<open>cache_notify_later\<close>.
\<close>

fun script_ok :: "bool option \<Rightarrow> ('c, 'k) act list \<Rightarrow> bool" where
  "script_ok ph [] \<longleftrightarrow> ph = None"
| "script_ok ph (Wait t f l k c # as) \<longleftrightarrow> ph \<noteq> None \<and> (c \<longrightarrow> script_ok (Some True) as)"
| "script_ok ph (Exit c # as) \<longleftrightarrow>
     (case ph of None \<Rightarrow> False | Some missed \<Rightarrow> if missed then c \<longrightarrow> script_ok (Some True) as else script_ok None as)"
| "script_ok ph (Throw e # as) \<longleftrightarrow> True"
| "script_ok ph (SetDef ch # as) \<longleftrightarrow> script_ok ph as"
| "script_ok ph (Later k # as) \<longleftrightarrow> script_ok ph as"
| "script_ok ph (Enter n ch a inner # as) \<longleftrightarrow> ph = None \<and> script_ok (Some False) inner \<and> script_ok None as"
| "script_ok ph (Notify k inner # as) \<longleftrightarrow> False"

section \<open>Who waits\<close>

definition clients_of :: "'c AbstractCache \<Rightarrow> 'c WaitingCacheClient list" where
  "clients_of c = take (wait_list_cnt c) (wait_list_buf c)"

definition event_clients :: "'c WaitingCacheClient list \<Rightarrow> 'c WaitingCacheClient list" where
  "event_clients b = takeWhile (\<lambda>w. wc_client w \<noteq> None) b"

definition waiting :: "('c, 'k) cache_state \<Rightarrow> 'c WaitingCacheClient multiset" where
  "waiting s = (\<Sum>k \<in> set (cs_list s). mset (clients_of (cs_caches s k))) + (\<Sum>b \<leftarrow> cs_posted s. mset (event_clients b))"

definition told :: "ctle \<Rightarrow> ('c, 'k) cache_state \<Rightarrow> u32 multiset" where
  "told ev s = mset (map snd (filter (\<lambda>x. fst x = ev) (cs_log s)))"

definition chans :: "'c WaitingCacheClient multiset \<Rightarrow> 'c multiset" where
  "chans W = image_mset the (filter_mset (\<lambda>c. c \<noteq> None) (image_mset wc_channel W))"

definition copies :: "'c WaitingCacheClient multiset \<Rightarrow> nat" where
  "copies W = size (filter_mset wc_args_copy W)"

definition wc_ok :: "'c WaitingCacheClient \<Rightarrow> bool" where
  "wc_ok w \<longleftrightarrow> wc_id w \<noteq> 0 \<and> wc_client w \<noteq> None \<and> wc_args_copy w = (wc_args w \<noteq> None)"

definition lists_ok :: "('c, 'k) cache_state \<Rightarrow> bool" where
  "lists_ok s \<longleftrightarrow> (\<forall>k. wait_list_cnt (cs_caches s k) \<le> length (wait_list_buf (cs_caches s k))) \<and> distinct (cs_list s) \<and>
     (\<forall>k. k \<in> set (cs_list s) \<longleftrightarrow> wait_list_cnt (cs_caches s k) \<noteq> 0) \<and> (\<forall>w \<in># waiting s. wc_ok w) \<and>
     (\<forall>b \<in> set (cs_posted s). \<exists>w \<in> set b. wc_client w = None)"

text \<open>
  The accounts. Besides those for the clients that wait there are \<open>L\<close> locks and \<open>B\<close> blocks; \<open>A\<close> are the transactions that are neither done nor
  waiting, \<open>R\<close> those which run.
\<close>

definition balance :: "'c multiset \<Rightarrow> nat \<Rightarrow> u32 multiset \<Rightarrow> u32 multiset \<Rightarrow> ('c, 'k) cache_state \<Rightarrow> bool" where
  "balance L B A R s \<longleftrightarrow> cs_locks s = chans (waiting s) + L \<and> cs_blocks s = copies (waiting s) + B \<and>
     told CTLE_START s = told CTLE_COMMIT s + image_mset wc_id (waiting s) + A \<and>
     told CTLE_START s + told CTLE_RETRY s = told CTLE_COMMIT s + told CTLE_ABORT s + R"

definition cache_inv :: "'c multiset \<Rightarrow> nat \<Rightarrow> u32 multiset \<Rightarrow> u32 multiset \<Rightarrow> ('c, 'k) cache_state \<Rightarrow> bool" where
  "cache_inv L B A R s \<longleftrightarrow> lists_ok s \<and> balance L B A R s"

text \<open>What clients leave alone: the static buffer of \<open>cache_notify\<close> and who was run again.\<close>

definition retried :: "('c, 'k) cache_state \<Rightarrow> u32 list" where
  "retried s = map snd (filter (\<lambda>x. fst x = CTLE_RETRY) (cs_log s))"

definition frame :: "('c, 'k) cache_state \<Rightarrow> ('c, 'k) cache_state \<Rightarrow> bool" where
  "frame s s' \<longleftrightarrow> cs_wait_buf s' = cs_wait_buf s \<and> retried s' = retried s"

lemma frame_trans [trans]: "frame a b \<Longrightarrow> frame b c \<Longrightarrow> frame a c"
  by (simp add: frame_def)

lemma waiting_fields [simp]:
  "waiting (s\<lparr>cs_current := c\<rparr>) = waiting s" "waiting (s\<lparr>cs_current_cache := cc\<rparr>) = waiting s" "waiting (s\<lparr>cs_miss_cnt := n\<rparr>) = waiting s"
  "waiting (s\<lparr>cs_wait_buf := wb\<rparr>) = waiting s" "waiting (s\<lparr>cs_id_cnt := i\<rparr>) = waiting s" "waiting (s\<lparr>cs_def_channel := d\<rparr>) = waiting s"
  "waiting (s\<lparr>cs_timer_posted := t\<rparr>) = waiting s" "waiting (s\<lparr>cs_locks := l\<rparr>) = waiting s" "waiting (s\<lparr>cs_blocks := b\<rparr>) = waiting s"
  "waiting (s\<lparr>cs_log := g\<rparr>) = waiting s"
  by (simp_all add: waiting_def)

lemma told_fields [simp]:
  "told ev (s\<lparr>cs_current := c\<rparr>) = told ev s" "told ev (s\<lparr>cs_current_cache := cc\<rparr>) = told ev s" "told ev (s\<lparr>cs_miss_cnt := n\<rparr>) = told ev s"
  "told ev (s\<lparr>cs_wait_buf := wb\<rparr>) = told ev s" "told ev (s\<lparr>cs_id_cnt := i\<rparr>) = told ev s" "told ev (s\<lparr>cs_def_channel := d\<rparr>) = told ev s"
  "told ev (s\<lparr>cs_timer_posted := t\<rparr>) = told ev s" "told ev (s\<lparr>cs_locks := l\<rparr>) = told ev s" "told ev (s\<lparr>cs_blocks := b\<rparr>) = told ev s"
  "told ev (s\<lparr>cs_caches := m\<rparr>) = told ev s" "told ev (s\<lparr>cs_list := q\<rparr>) = told ev s" "told ev (s\<lparr>cs_posted := p\<rparr>) = told ev s"
  by (simp_all add: told_def)

lemma inv_fields [simp]:
  "cache_inv L B A R (s\<lparr>cs_current := c\<rparr>) = cache_inv L B A R s" "cache_inv L B A R (s\<lparr>cs_current_cache := cc\<rparr>) = cache_inv L B A R s"
  "cache_inv L B A R (s\<lparr>cs_miss_cnt := n\<rparr>) = cache_inv L B A R s" "cache_inv L B A R (s\<lparr>cs_wait_buf := wb\<rparr>) = cache_inv L B A R s"
  "cache_inv L B A R (s\<lparr>cs_id_cnt := i\<rparr>) = cache_inv L B A R s" "cache_inv L B A R (s\<lparr>cs_def_channel := d\<rparr>) = cache_inv L B A R s"
  "cache_inv L B A R (s\<lparr>cs_timer_posted := t\<rparr>) = cache_inv L B A R s"
  by (simp_all add: cache_inv_def lists_ok_def balance_def)

lemma no_transaction_inv [simp]: "cache_inv L B A R (no_transaction s) = cache_inv L B A R s"
  by (simp add: no_transaction_def)

lemma told_tell: "told ev (tell e s) = told ev s + (if e = ev then {#wc_id (cs_current s)#} else {#})"
  by (simp add: told_def tell_def)

lemma tell_inv:
  defines "n \<equiv> \<lambda>s. {#wc_id (cs_current s)#}"
  shows "cache_inv L B A R s \<Longrightarrow> cache_inv L B (A + n s) (R + n s) (tell CTLE_START s)"
    "cache_inv L B (A + n s) (R + n s) s \<Longrightarrow> cache_inv L B A R (tell CTLE_COMMIT s)"
    "cache_inv L B A (R + n s) s \<Longrightarrow> cache_inv L B A R (tell CTLE_ABORT s)"
    "cache_inv L B A R s \<Longrightarrow> cache_inv L B A (R + n s) (tell CTLE_RETRY s)"
proof -
  have "lists_ok (tell ev s) = lists_ok s" "waiting (tell ev s) = waiting s" "cs_locks (tell ev s) = cs_locks s" "cs_blocks (tell ev s) = cs_blocks s" for ev
    by (simp_all add: lists_ok_def) (simp_all add: tell_def)
  then show "cache_inv L B A R s \<Longrightarrow> cache_inv L B (A + n s) (R + n s) (tell CTLE_START s)"
    "cache_inv L B (A + n s) (R + n s) s \<Longrightarrow> cache_inv L B A R (tell CTLE_COMMIT s)"
    "cache_inv L B A (R + n s) s \<Longrightarrow> cache_inv L B A R (tell CTLE_ABORT s)"
    "cache_inv L B A R s \<Longrightarrow> cache_inv L B A (R + n s) (tell CTLE_RETRY s)"
    by (auto simp: cache_inv_def balance_def told_tell n_def ac_simps)
qed

text \<open>The clients of one cache, and all others.\<close>

definition other_clients :: "'k \<Rightarrow> ('c, 'k) cache_state \<Rightarrow> 'c WaitingCacheClient multiset" where
  "other_clients k s = (\<Sum>j \<in> set (cs_list s) - {k}. mset (clients_of (cs_caches s j))) + (\<Sum>b \<leftarrow> cs_posted s. mset (event_clients b))"

lemma waiting_split:
  assumes "lists_ok s"
  shows "waiting s = other_clients k s + mset (clients_of (cs_caches s k))"
proof (cases "k \<in> set (cs_list s)")
  case True
  then show ?thesis by (simp add: waiting_def other_clients_def sum.remove [of "set (cs_list s)" k] ac_simps)
next
  case False
  then have "wait_list_cnt (cs_caches s k) = 0" using assms by (simp add: lists_ok_def)
  with False show ?thesis by (simp add: waiting_def other_clients_def clients_of_def)
qed

lemma lists_okD:
  assumes "lists_ok s"
  shows "wait_list_cnt (cs_caches s k) \<le> length (wait_list_buf (cs_caches s k))" "distinct (cs_list s)"
    "k \<in> set (cs_list s) \<longleftrightarrow> wait_list_cnt (cs_caches s k) \<noteq> 0" "w \<in># waiting s \<Longrightarrow> wc_ok w"
    "b \<in> set (cs_posted s) \<Longrightarrow> \<exists>w \<in> set b. wc_client w = None"
  using assms by (auto simp: lists_ok_def)

lemma balance_cong:
  assumes "waiting t = waiting s" "cs_locks t = cs_locks s" "cs_blocks t = cs_blocks s" "cs_log t = cs_log s"
  shows "balance L B A R t = balance L B A R s"
  using assms by (simp add: balance_def told_def)

text \<open>A cache changes: its list, and whether it is in the list of caches that have clients.\<close>

lemma change_cache:
  assumes ok: "lists_ok s" and c: "wait_list_cnt c \<le> length (wait_list_buf c)"
    and q: "distinct q" "set q = (if wait_list_cnt c = 0 then set (cs_list s) - {k} else insert k (set (cs_list s)))"
    and w: "\<forall>w \<in> set (clients_of c). wc_ok w"
  defines "t \<equiv> s\<lparr>cs_caches := (cs_caches s)(k := c), cs_list := q\<rparr>"
  shows "lists_ok t" "waiting t = other_clients k s + mset (clients_of c)"
proof -
  have o: "other_clients k t = other_clients k s" using q(2) by (auto simp: other_clients_def t_def intro!: sum.cong)
  have "set q = (if k \<in> set q then insert k (set q - {k}) else set q - {k})" by auto
  then have "waiting t = other_clients k t + mset (clients_of c)"
  proof (cases "k \<in> set q")
    case True
    then show ?thesis by (simp add: waiting_def other_clients_def t_def sum.remove [of "set q" k] ac_simps)
  next
    case False
    then have "wait_list_cnt c = 0" using q(2) by (auto split: if_splits)
    with False show ?thesis by (simp add: waiting_def other_clients_def t_def clients_of_def)
  qed
  with o show wt: "waiting t = other_clients k s + mset (clients_of c)" by simp
  have "\<forall>w \<in># waiting t. wc_ok w"
    using lists_okD(4) [OF ok] w unfolding wt waiting_split [OF ok, of k] by auto
  then show "lists_ok t" using ok c q by (auto simp: lists_ok_def t_def)
qed

lemma notify_later_keeps:
  assumes inv: "cache_inv L B A R s"
  shows "cache_inv L B A R (cache_notify_later k s)" "frame s (cache_notify_later k s)" "cs_current (cache_notify_later k s) = cs_current s"
    "cs_miss_cnt (cache_notify_later k s) = cs_miss_cnt s" "cs_current_cache (cache_notify_later k s) = cs_current_cache s"
proof -
  show "frame s (cache_notify_later k s)" "cs_current (cache_notify_later k s) = cs_current s"
    "cs_miss_cnt (cache_notify_later k s) = cs_miss_cnt s" "cs_current_cache (cache_notify_later k s) = cs_current_cache s"
    by (simp_all add: cache_notify_later_def Let_def frame_def retried_def)
  show "cache_inv L B A R (cache_notify_later k s)"
  proof (cases "wait_list_cnt (cs_caches s k) = 0")
    case False
    define c where "c = cs_caches s k"
    define buf where "buf = (if length (wait_list_buf c) \<le> wait_list_cnt c
      then wait_list_buf c @ replicate (wait_list_cnt c + 1 - length (wait_list_buf c)) no_client else wait_list_buf c)"
    define e where "e = buf[wait_list_cnt c := no_client]"
    let ?c = "\<lparr>wait_list_buf = [], wait_list_cnt = 0\<rparr>" and ?q = "remove1 k (cs_list s)"
    let ?t = "s\<lparr>cs_caches := (cs_caches s)(k := ?c), cs_list := ?q\<rparr>"
    have ok: "lists_ok s" using inv by (simp add: cache_inv_def)
    have le: "wait_list_cnt c \<le> length (wait_list_buf c)" using lists_okD(1) [OF ok] by (simp add: c_def)
    have "take (wait_list_cnt c) buf = clients_of c" "wait_list_cnt c < length buf" using le by (auto simp: buf_def clients_of_def)
    then have b: "e = clients_of c @ no_client # drop (Suc (wait_list_cnt c)) buf" by (simp add: e_def upd_conv_take_nth_drop)
    have "set (clients_of c) \<subseteq> set_mset (waiting s)" using waiting_split [OF ok, of k] by (simp add: c_def)
    then have cl: "\<forall>w \<in> set (clients_of c). wc_ok w" using lists_okD(4) [OF ok] by blast
    have e: "event_clients e = clients_of c" unfolding event_clients_def b
      using cl by (subst takeWhile_append2) (auto simp: no_client_def wc_ok_def)
    have n: "wc_client (no_client :: 'a WaitingCacheClient) = None" by (simp add: no_client_def)
    have t: "lists_ok ?t" "waiting ?t = other_clients k s" using change_cache [OF ok, of ?c ?q k] lists_okD(2) [OF ok] by (auto simp: clients_of_def)
    have eq: "cache_notify_later k s = ?t\<lparr>cs_posted := cs_posted s @ [e]\<rparr>"
      using False by (simp add: cache_notify_later_def Let_def e_def buf_def c_def)
    have w: "waiting (cache_notify_later k s) = waiting s"
      using t(2) unfolding eq waiting_split [OF ok, of k] by (simp add: waiting_def e c_def ac_simps)
    have "\<exists>w \<in> set e. wc_client w = None" using n unfolding b by auto
    with t(1) lists_okD(4) [OF ok] w have "lists_ok (cache_notify_later k s)" by (auto simp: lists_ok_def eq)
    moreover have "balance L B A R (cache_notify_later k s) = balance L B A R s" by (rule balance_cong [OF w]) (simp_all add: eq)
    ultimately show ?thesis using inv by (simp add: cache_inv_def)
  qed (simp add: cache_notify_later_def Let_def inv)
qed

lemma told_lock [simp]: "told ev (lock_channel c s) = told ev s"
  by (simp add: lock_channel_def split: option.split)

lemma chans_add: "chans (add_mset w W) = chans W + (case wc_channel w of None \<Rightarrow> {#} | Some c \<Rightarrow> {#c#})"
  by (simp add: chans_def split: option.split)

lemma copies_add: "copies (add_mset w W) = copies W + (if wc_args_copy w then 1 else 0)"
  by (simp add: copies_def)

lemma add_waiting_ok:
  assumes "wait_list_cnt c \<le> length (wait_list_buf c)"
  shows "\<exists>c'. add_waiting w c = Inr c' \<and> wait_list_cnt c' = Suc (wait_list_cnt c) \<and> wait_list_cnt c' \<le> length (wait_list_buf c') \<and>
    clients_of c' = clients_of c @ [w]"
  using assms by (auto simp: add_waiting_def Let_def clients_of_def take_Suc_conv_app_nth)

definition in_transaction :: "u32 \<Rightarrow> bool \<Rightarrow> ('c, 'k) cache_state \<Rightarrow> bool" where
  "in_transaction n copied s \<longleftrightarrow> wc_id (cs_current s) = n \<and> n \<noteq> 0 \<and> wc_client (cs_current s) \<noteq> None \<and>
     wc_args_copy (cs_current s) = copied \<and> (copied \<longrightarrow> wc_args (cs_current s) \<noteq> None)"

lemma put_to_wait_ok:
  assumes inv: "cache_inv L (B + of_bool copied) (A + {#n#}) (R + {#n#}) s" and tx: "in_transaction n copied s"
  shows "\<exists>s'. put_to_wait k s = Inr s' \<and> cache_inv L B A R s' \<and> frame s s'"
proof -
  define w where "w = (cs_current s)\<lparr>wc_args_copy := (wc_args (cs_current s) \<noteq> None)\<rparr>"
  have wf: "wc_channel w = wc_channel (cs_current s)" "wc_id w = n" "wc_args_copy w = (wc_args (cs_current s) \<noteq> None)" and w: "wc_ok w"
    using tx by (simp_all add: w_def in_transaction_def wc_ok_def)
  define b where "b = cs_blocks s + of_bool (wc_args (cs_current s) \<noteq> None \<and> \<not> copied)"
  have ok: "lists_ok s" using inv by (simp add: cache_inv_def)
  obtain c where c: "add_waiting w (cs_caches s k) = Inr c" "wait_list_cnt c = Suc (wait_list_cnt (cs_caches s k))"
      "wait_list_cnt c \<le> length (wait_list_buf c)" "clients_of c = clients_of (cs_caches s k) @ [w]"
    using add_waiting_ok lists_okD(1) [OF ok] by blast
  define q where "q = (if wait_list_cnt (cs_caches s k) = 0 then cs_list s @ [k] else cs_list s)"
  define t where "t = s\<lparr>cs_caches := (cs_caches s)(k := c), cs_list := q\<rparr>"
  define l where "l = (case wc_channel w of None \<Rightarrow> cs_locks s | Some x \<Rightarrow> cs_locks s + {#x#})"
  define u where "u = t\<lparr>cs_current := w, cs_blocks := b, cs_locks := l\<rparr>"
  have "put_to_wait k s = Inr (tell CTLE_ABORT u)"
  proof -
    have 1: "copy_args s = s\<lparr>cs_current := w, cs_blocks := b\<rparr>"
      using tx by (auto simp: copy_args_def w_def b_def in_transaction_def)
    show ?thesis using c(1) 
      by (auto simp: put_to_wait_def 1 Let_def lock_channel_def u_def t_def q_def l_def split: option.split
        intro!: arg_cong [where f = "tell CTLE_ABORT"] cache_state.equality)
  qed
  moreover have "cache_inv L B A (R + {#n#}) u"
  proof -
    have sub: "\<forall>x \<in> set (clients_of c). wc_ok x"
      using w lists_okD(4) [OF ok] unfolding c(4) waiting_split [OF ok, of k] by auto
    have q: "distinct q" "set q = insert k (set (cs_list s))" using lists_okD(2) [OF ok] lists_okD(3) [OF ok, of k] by (auto simp: q_def)
    have t: "lists_ok t" "waiting t = waiting s + {#w#}"
      using change_cache [OF ok c(3) q(1) _ sub, of k] q(2) unfolding t_def waiting_split [OF ok, of k] by (simp_all add: c(2,4))
    have "lists_ok u" using t(1) by (simp add: u_def lists_ok_def)
    moreover have "balance L B A (R + {#n#}) u" using inv tx wf t(2)
      by (auto simp: cache_inv_def balance_def u_def chans_add copies_add l_def b_def in_transaction_def split: option.split)
        (simp_all add: t_def)
    ultimately show ?thesis by (simp add: cache_inv_def)
  qed
  ultimately show ?thesis using tell_inv(3) [where s = u and L = L and B = B and A = A and R = R] wf(2)
    by (simp add: frame_def retried_def) (simp add: u_def t_def tell_def)
qed

section \<open>A client runs\<close>

text \<open>The client is still in its transaction and raised an exception, or it ended the transaction.\<close>

definition client_result :: "'c multiset \<Rightarrow> nat \<Rightarrow> u32 multiset \<Rightarrow> u32 multiset \<Rightarrow> u32 \<Rightarrow> bool \<Rightarrow> ('c, 'k) cache_state \<Rightarrow>
    (outcome \<times> ('c, 'k) cache_state) cr \<Rightarrow> bool" where
  "client_result L B A R n copied s r \<longleftrightarrow> (\<exists>out s'. r = Inr (out, s') \<and> frame s s' \<and>
     (out \<noteq> Returned \<and> in_transaction n copied s' \<and> cache_inv L B (A + {#n#}) (R + {#n#}) s' \<or>
      cs_current s' = no_client \<and> cs_miss_cnt s' = 0 \<and> cache_inv L B A R s'))"

definition phase_ok :: "u32 \<Rightarrow> bool \<Rightarrow> bool option \<Rightarrow> ('c, 'k) cache_state \<Rightarrow> bool" where
  "phase_ok n copied ph s \<longleftrightarrow>
     (case ph of None \<Rightarrow> cs_current s = no_client \<and> cs_miss_cnt s = 0 | Some missed \<Rightarrow> in_transaction n copied s \<and> missed = (cs_miss_cnt s > 0))"

definition phase_set :: "u32 \<Rightarrow> bool option \<Rightarrow> u32 multiset" where
  "phase_set n ph = (if ph = None then {#} else {#n#})"

lemma client_result_frame: "frame s t \<Longrightarrow> client_result L B A R n copied t r \<Longrightarrow> client_result L B A R n copied s r"
  unfolding client_result_def using frame_trans by blast

lemma free_args_ok:
  "cache_inv L (B + of_bool copied) A R s \<Longrightarrow> \<exists>s'. free_args copied s = Inr s' \<and> cache_inv L B A R s' \<and> frame s s' \<and> cs_current s' = cs_current s \<and>
    cs_miss_cnt s' = cs_miss_cnt s"
  by (auto simp: free_args_def frame_def retried_def cache_inv_def lists_ok_def balance_def)

lemma frame_fields [simp]: "frame s (no_transaction t) = frame s t" "frame (no_transaction t) s = frame t s" "e \<noteq> CTLE_RETRY \<Longrightarrow> frame (tell e t) s = frame t s" "e \<noteq> CTLE_RETRY \<Longrightarrow> frame s (tell e t) = frame s t"
  by (simp_all add: frame_def retried_def no_transaction_def tell_def)

lemma frame_refl [simp]: "frame s s" by (simp add: frame_def)

definition idle :: "('c, 'k) cache_state \<Rightarrow> bool" where
  "idle s \<longleftrightarrow> cs_current s = no_client \<and> cs_miss_cnt s = 0"

lemma idle_no_transaction [simp]: "idle (no_transaction s)"
  by (simp add: idle_def no_transaction_def)

lemma after_client_ok:
  assumes "client_result L (B + of_bool copied) A R n copied s (Inr (out, s1))" "n \<noteq> 0"
  shows "\<exists>s'. after_client n copied out s1 = Inr s' \<and> cache_inv L B A R s' \<and> frame s s' \<and> idle s'"
proof -
  have f: "frame s s1" using assms(1) by (auto simp: client_result_def)
  consider (raised) e where "out = Raised e" "in_transaction n copied s1" "cache_inv L (B + of_bool copied) (A + {#n#}) (R + {#n#}) s1"
    | (ended) "cs_current s1 = no_client" "cs_miss_cnt s1 = 0" "cache_inv L (B + of_bool copied) A R s1"
    using assms(1) by (cases out) (auto simp: client_result_def)
  then show ?thesis
  proof cases
    case raised
    then have n: "n = wc_id (cs_current s1)" by (simp add: in_transaction_def)
    let ?t = "no_transaction (tell CTLE_COMMIT s1)"
    have "cache_inv L (B + of_bool copied) A R ?t" using tell_inv(2) [where s = s1 and A = A and R = R] raised(3) n by simp
    from free_args_ok [OF this] obtain t' where t': "free_args copied ?t = Inr t'" "cache_inv L B A R t'" "frame ?t t'" "cs_current t' = cs_current ?t"
      "cs_miss_cnt t' = cs_miss_cnt ?t" by blast
    moreover have "idle t'" using t'(4,5) idle_no_transaction [of "tell CTLE_COMMIT s1"] by (simp add: idle_def)
    ultimately have c: "\<exists>s'. free_args copied ?t = Inr s' \<and> cache_inv L B A R s' \<and> frame s s' \<and> idle s'"
      using frame_trans [OF f] by simp
    show ?thesis
    proof (cases "cs_current_cache s1")
      case (Some k)
      obtain t where "put_to_wait k s1 = Inr t" "cache_inv L B A R t" "frame s1 t" using put_to_wait_ok [OF raised(3,2)] by blast
      with c Some raised(1) n frame_trans [OF f] show ?thesis by (auto simp: after_client_def Let_def)
    qed (use c raised(1) n in \<open>auto simp: after_client_def Let_def\<close>)
  next
    case ended
    then have "wc_id (cs_current s1) = 0" by (simp add: no_client_def)
    with ended free_args_ok [OF ended(3)] frame_trans [OF f] assms(2) show ?thesis
      by (cases out) (fastforce simp: after_client_def idle_def Let_def)+
  qed
qed

lemma run_client_ok:
  assumes n: "n = wc_id (cs_current s)" "wc_ok (cs_current s) \<or> \<not> retry \<and> \<not> wc_args_copy (cs_current s) \<and> n \<noteq> 0 \<and> wc_client (cs_current s) \<noteq> None"
    and inv: "cache_inv L (B + of_bool (wc_args_copy (cs_current s))) (if retry then A + {#n#} else A) R s"
    and client: "\<And>t. in_transaction n (wc_args_copy (cs_current s)) t \<Longrightarrow> cs_miss_cnt t = 0 \<Longrightarrow> cs_current t = cs_current s \<Longrightarrow>
      cache_inv L (B + of_bool (wc_args_copy (cs_current s))) (A + {#n#}) (R + {#n#}) t \<Longrightarrow>
      client_result L (B + of_bool (wc_args_copy (cs_current s))) A R n (wc_args_copy (cs_current s)) t (body t)"
  shows "\<exists>s'. run_cache_client retry body s = Inr s' \<and> cache_inv L B A R s' \<and> idle s' \<and>
    cs_wait_buf s' = cs_wait_buf s \<and> retried s' = retried s @ (if retry then [n] else [])"
proof -
  let ?c = "wc_args_copy (cs_current s)"
  define s0 where "s0 = s\<lparr>cs_current_cache := None, cs_miss_cnt := 0, cs_def_channel := None\<rparr>"
  define s1 where "s1 = tell (if retry then CTLE_RETRY else CTLE_START) s0"
  have n0: "n \<noteq> 0" using n by (auto simp: wc_ok_def)
  have c1: "cs_current s1 = cs_current s" "cs_miss_cnt s1 = 0" "cs_wait_buf s1 = cs_wait_buf s" by (simp_all add: s1_def s0_def tell_def)
  have tx: "in_transaction n ?c s1" using n n0 c1(1) by (auto simp: in_transaction_def wc_ok_def)
  have "cache_inv L (B + of_bool ?c) (if retry then A + {#n#} else A) R s0" using inv by (simp add: s0_def)
  then have "cache_inv L (B + of_bool ?c) (A + {#n#}) (R + {#n#}) s1"
    using tell_inv(1) [where s = s0 and A = A and R = R] tell_inv(4) [where s = s0 and A = "A + {#n#}" and R = R] n(1) by (auto simp: s1_def) (simp_all add: s0_def)
  from client [OF tx c1(2,1) this] obtain out s2 where r: "body s1 = Inr (out, s2)"
      "client_result L (B + of_bool ?c) A R n ?c s1 (Inr (out, s2))" by (auto simp: client_result_def)
  from after_client_ok [OF r(2) n0] obtain s' where s': "after_client n ?c out s2 = Inr s'" "cache_inv L B A R s'" "frame s1 s'" "idle s'" by blast
  have "run_cache_client retry body s = Inr s'" using s'(1) r(1) n(1) n0 by (simp add: run_cache_client_def Let_def s1_def s0_def)
  moreover have "retried s1 = retried s @ (if retry then [n] else [])" using n(1) by (simp add: retried_def s1_def s0_def tell_def)
  ultimately show ?thesis using s' c1(3) by (simp add: frame_def)
qed

text \<open>The contract of a client.\<close>

definition client_ok :: "('c, 'k) body \<Rightarrow> bool" where
  "client_ok body \<longleftrightarrow> (\<forall>L B A R n copied s. in_transaction n copied s \<longrightarrow> cs_miss_cnt s = 0 \<longrightarrow>
     cache_inv L B (A + {#n#}) (R + {#n#}) s \<longrightarrow> client_result L B A R n copied s (body s))"

lemma cache_enter_ok:
  assumes "client_ok body" "idle s" "cache_inv L B A R s"
  shows "\<exists>s'. cache_enter name ch args body s = Inr s' \<and> cache_inv L B A R s' \<and> idle s' \<and> frame s s'"
proof -
  define n where "n = (if cs_id_cnt s = 0 then cs_id_cnt s + 1 else cs_id_cnt s)"
  define t where "t = s\<lparr>cs_id_cnt := n + 1, cs_current := \<lparr>wc_id = n, wc_client = Some name, wc_channel = ch,
    wc_args = args, wc_args_copy = False, wc_time_stamp = 0, wc_file = [], wc_line = 0\<rparr>\<rparr>"
  have "n \<noteq> 0" by (simp add: n_def)
  then have "\<exists>s'. run_cache_client False body t = Inr s' \<and> cache_inv L B A R s' \<and> idle s' \<and> cs_wait_buf s' = cs_wait_buf t \<and>
      retried s' = retried t @ (if False then [n] else [])"
    by (intro run_client_ok) (use assms(1,3) in \<open>auto simp: t_def client_ok_def\<close>)
  moreover have "cache_enter name ch args body s = run_cache_client False body t"
    using assms(2) by (simp add: cache_enter_def idle_def no_client_def n_def t_def Let_def)
  ultimately show ?thesis by (auto simp: frame_def t_def retried_def)
qed

lemma phase_cases: "phase_ok n copied ph s \<Longrightarrow> (ph = None \<and> idle s) \<or>
    (\<exists>missed. ph = Some missed \<and> in_transaction n copied s \<and> missed = (cs_miss_cnt s > 0) \<and> phase_set n ph = {#n#})"
  by (cases ph) (auto simp: phase_ok_def idle_def phase_set_def)

lemma throw_result: "cache_inv L B (A + phase_set n ph) (R + phase_set n ph) s \<Longrightarrow> phase_ok n copied ph s \<Longrightarrow>
    client_result L B A R n copied s (Inr (Raised e, s))"
  by (cases ph) (auto simp: client_result_def phase_ok_def phase_set_def)

lemma wait_state:
  assumes "in_transaction n copied s" "cache_inv L B A R s"
  shows "\<exists>s'. cache_wait t f l k s = Inr (Raised ERR_CACHE_MISS, s') \<and> in_transaction n copied s' \<and> cs_miss_cnt s' > 0 \<and> cache_inv L B A R s' \<and> frame s s'"
  using assms by (simp add: cache_wait_def in_transaction_def frame_def retried_def)

lemma exit_state:
  assumes "in_transaction n copied s" "cs_miss_cnt s = 0" "cache_inv L B (A + {#n#}) (R + {#n#}) s"
  shows "\<exists>s'. cache_exit s = Inr (Returned, s') \<and> idle s' \<and> cache_inv L B A R s' \<and> frame s s'"
  using assms tell_inv(2) [where s = s and A = A and R = R and L = L and B = B] by (simp add: cache_exit_def in_transaction_def)

lemma script_runs:
  "script_ok ph as \<Longrightarrow> cache_inv L B (A + phase_set n ph) (R + phase_set n ph) s \<Longrightarrow> phase_ok n copied ph s \<Longrightarrow>
    client_result L B A R n copied s (run_acts as s)"
proof (induction ph as arbitrary: L B A R n copied s rule: script_ok.induct)
  case (1 ph)
  then show ?case by (auto simp: client_result_def phase_ok_def phase_set_def)
next
  case (2 ph t f l k c as)
  then have p: "in_transaction n copied s" "phase_set n ph = {#n#}" using phase_cases by fastforce+
  with wait_state [OF p(1) "2.prems"(2), of t f l k] obtain s' where s': "cache_wait t f l k s = Inr (Raised ERR_CACHE_MISS, s')" "in_transaction n copied s'"
      "cs_miss_cnt s' > 0" "cache_inv L B (A + {#n#}) (R + {#n#}) s'" "frame s s'" by auto
  show ?case
  proof (cases c)
    case True
    then have "client_result L B A R n copied s' (run_acts as s')"
      using "2.IH" [of L B A n R s' copied] "2.prems"(1) s' by (simp add: phase_ok_def phase_set_def)
    then show ?thesis using True s'(1) client_result_frame [OF s'(5)] by (simp add: caught_def)
  qed (use s' in \<open>auto simp: caught_def client_result_def\<close>)
next
  case (3 ph c as)
  then obtain missed where p: "ph = Some missed" "in_transaction n copied s" "missed = (cs_miss_cnt s > 0)" "phase_set n ph = {#n#}"
    using phase_cases [of n copied ph s] by (auto split: option.splits)
  show ?case
  proof (cases missed)
    case True
    then have "cache_exit s = Inr (Raised ERR_CACHE_MISS, s)" using p by (simp add: cache_exit_def in_transaction_def)
    moreover have "c \<Longrightarrow> client_result L B A R n copied s (run_acts as s)"
      using "3.IH"(1) [OF p(1) True, of L B A n R s copied] "3.prems" p True by (simp add: phase_set_def)
    ultimately show ?thesis using p True throw_result [OF "3.prems"(2,3)] by (simp add: caught_def)
  next
    case False
    obtain s' where s': "cache_exit s = Inr (Returned, s')" "idle s'" "cache_inv L B A R s'" "frame s s'"
      using exit_state [OF p(2), of L B A R] "3.prems"(2) p False by auto
    then have "client_result L B A R n copied s' (run_acts as s')"
      using "3.IH"(2) [OF p(1) False, of L B A n R s' copied] "3.prems"(1) p(1) False by (simp add: phase_set_def phase_ok_def idle_def)
    then show ?thesis using s'(1) client_result_frame [OF s'(4)] by (simp add: caught_def)
  qed
next
  case (4 ph e as)
  then show ?case by (simp add: throw_result)
next
  case (5 ph ch as)
  have "cache_inv L B (A + phase_set n ph) (R + phase_set n ph) (cache_set_def_channel ch s)" "phase_ok n copied ph (cache_set_def_channel ch s)"
    "frame s (cache_set_def_channel ch s)"
    using 5 by (auto simp: cache_set_def_channel_def phase_ok_def in_transaction_def frame_def retried_def split: option.splits)
  with "5.IH" "5.prems"(1) show ?case by (auto intro: client_result_frame)
next
  case (6 ph k as)
  note k = notify_later_keeps [OF "6.prems"(2), of k]
  have "phase_ok n copied ph (cache_notify_later k s)" using "6.prems"(3) k(3-5) by (simp add: phase_ok_def in_transaction_def split: option.splits)
  with "6.IH" "6.prems"(1) k(1,2) show ?case by (auto intro: client_result_frame)
next
  case (7 ph name ch a inner as)
  have "client_ok (run_acts inner)"
    using "7.IH"(1) "7.prems"(1) by (auto simp: client_ok_def phase_set_def phase_ok_def)
  from cache_enter_ok [OF this, of s L B A R name ch a] "7.prems" obtain s' where s': "cache_enter name ch a (run_acts inner) s = Inr s'"
      "cache_inv L B A R s'" "idle s'" "frame s s'" by (auto simp: phase_set_def phase_ok_def idle_def)
  have "client_result L B A R n copied s' (run_acts as s')"
    using "7.IH"(2) [of L B A n R s' copied] "7.prems"(1) s' by (simp add: phase_set_def phase_ok_def idle_def)
  then show ?case using s'(1) client_result_frame [OF s'(4)] by simp
qed simp

lemma script_client_ok: "script_ok (Some False) as \<Longrightarrow> client_ok (run_acts as)"
  using script_runs [of "Some False" as] by (simp add: client_ok_def phase_set_def phase_ok_def)

section \<open>Clients are run again\<close>

definition chan_of :: "'c WaitingCacheClient \<Rightarrow> 'c multiset" where
  "chan_of w = chans {#w#}"

lemma unlock_ok:
  assumes "cache_inv (L + chan_of w) B A R s" "idle s"
  shows "\<exists>s'. unlock_channel (wc_channel w) s = Inr s' \<and> cache_inv L B A R s' \<and> idle s' \<and> frame s s'"
proof (cases "wc_channel w")
  case None
  then show ?thesis using assms by (simp add: unlock_channel_def chan_of_def chans_def)
next
  case (Some c)
  then show ?thesis using assms
    by (auto simp: unlock_channel_def chan_of_def chans_def cache_inv_def lists_ok_def balance_def idle_def frame_def retried_def)
qed

lemma rerun_ok:
  assumes "client_ok body" "wc_ok w" "cache_inv (L + chan_of w) (B + of_bool (wc_args_copy w)) (A + {#wc_id w#}) R s"
  shows "\<exists>s1 s'. run_cache_client True body (s\<lparr>cs_current := w\<rparr>) = Inr s1 \<and> cs_wait_buf s1 = cs_wait_buf s \<and>
    unlock_channel (wc_channel w) s1 = Inr s' \<and> cache_inv L B A R s' \<and> idle s' \<and> cs_wait_buf s' = cs_wait_buf s \<and> retried s' = retried s @ [wc_id w]"
proof -
  let ?s = "s\<lparr>cs_current := w\<rparr>"
  have "\<exists>s1. run_cache_client True body ?s = Inr s1 \<and> cache_inv (L + chan_of w) B A R s1 \<and> idle s1 \<and> cs_wait_buf s1 = cs_wait_buf ?s \<and>
      retried s1 = retried ?s @ (if True then [wc_id w] else [])"
    by (rule run_client_ok) (use assms in \<open>auto simp: client_ok_def\<close>)
  then obtain s1 where s1: "run_cache_client True body ?s = Inr s1" "cache_inv (L + chan_of w) B A R s1" "idle s1" "cs_wait_buf s1 = cs_wait_buf s"
      "retried s1 = retried s @ [wc_id w]" by (auto simp: retried_def)
  with unlock_ok [OF s1(2,3)] show ?thesis by (auto simp: frame_def)
qed

lemma chans_Cons: "chans (mset (w # ws)) = chans (mset ws) + chan_of w"
  by (simp add: chans_add chan_of_def) (simp add: chans_def)

lemma notify_loop_ok:
  assumes "\<forall>b \<in> set bs. client_ok b" "\<forall>w \<in> set ws. wc_ok w" "length bs = length ws" "cs_wait_buf s = pre @ ws @ post" "length pre = i"
    "cache_inv (L + chans (mset ws)) (B + copies (mset ws)) (A + image_mset wc_id (mset ws)) R s" "idle s"
  shows "\<exists>s'. notify_loop bs i s = Inr s' \<and> cache_inv L B A R s' \<and> idle s' \<and> retried s' = retried s @ map wc_id ws"
  using assms
proof (induction bs arbitrary: ws i s pre)
  case Nil
  then show ?case by (simp add: chans_def copies_def)
next
  case (Cons b bs)
  then obtain w vs where ws: "ws = w # vs" by (cases ws) auto
  have i: "cs_wait_buf s ! i = w" "i < length (cs_wait_buf s)" using Cons.prems(4,5) ws by auto
  have "cache_inv (L + chans (mset vs) + chan_of w) (B + copies (mset vs) + of_bool (wc_args_copy w)) (A + image_mset wc_id (mset vs) + {#wc_id w#}) R s"
    using Cons.prems(6) chans_Cons [of w vs] by (simp add: ws copies_add ac_simps of_bool_def)
  with rerun_ok [of b w] Cons.prems(1,2) ws obtain s1 s2 where r: "run_cache_client True b (s\<lparr>cs_current := w\<rparr>) = Inr s1" "cs_wait_buf s1 = cs_wait_buf s"
      "unlock_channel (wc_channel w) s1 = Inr s2" "cache_inv (L + chans (mset vs)) (B + copies (mset vs)) (A + image_mset wc_id (mset vs)) R s2"
      "idle s2" "cs_wait_buf s2 = cs_wait_buf s" "retried s2 = retried s @ [wc_id w]" by fastforce
  then have "\<exists>s'. notify_loop bs (i + 1) s2 = Inr s' \<and> cache_inv L B A R s' \<and> idle s' \<and> retried s' = retried s2 @ map wc_id vs"
    using Cons.prems ws by (intro Cons.IH [of vs s2 "pre @ [w]"]) auto
  with r i ws show ?case by auto
qed

lemma notify_event_loop_ok:
  assumes "\<forall>i. client_ok (client i)" "\<forall>w \<in> set (event_clients ws). wc_ok w" "\<exists>w \<in> set ws. wc_client w = None"
    "cache_inv (L + chans (mset (event_clients ws))) (B + copies (mset (event_clients ws))) (A + image_mset wc_id (mset (event_clients ws))) R s" "idle s"
  shows "\<exists>s'. notify_event_loop client i ws s = Inr s' \<and> cache_inv L B A R s' \<and> idle s' \<and> retried s' = retried s @ map wc_id (event_clients ws)"
  using assms
proof (induction ws arbitrary: i s)
  case (Cons w ws)
  show ?case
  proof (cases "wc_client w = None")
    case True
    with Cons.prems show ?thesis by (simp add: event_clients_def chans_def copies_def)
  next
    case False
    define vs where "vs = event_clients ws"
    have ws: "event_clients (w # ws) = w # vs" using False by (simp add: event_clients_def vs_def)
    have "cache_inv (L + chans (mset vs) + chan_of w) (B + copies (mset vs) + of_bool (wc_args_copy w)) (A + image_mset wc_id (mset vs) + {#wc_id w#}) R s"
      using Cons.prems(4) chans_Cons [of w vs] by (simp add: ws copies_add ac_simps of_bool_def)
    with rerun_ok [of "client i" w] Cons.prems(1,2) ws obtain s1 s2 where r: "run_cache_client True (client i) (s\<lparr>cs_current := w\<rparr>) = Inr s1"
        "unlock_channel (wc_channel w) s1 = Inr s2" "cache_inv (L + chans (mset vs)) (B + copies (mset vs)) (A + image_mset wc_id (mset vs)) R s2"
        "idle s2" "retried s2 = retried s @ [wc_id w]" by fastforce
    have "\<exists>s'. notify_event_loop client (i + 1) ws s2 = Inr s' \<and> cache_inv L B A R s' \<and> idle s' \<and> retried s' = retried s2 @ map wc_id (event_clients ws)"
      using Cons.prems False r(3,4) ws by (intro Cons.IH) (auto simp: vs_def)
    with r False ws show ?thesis by (auto simp: vs_def)
  qed
qed simp

lemma cache_notify_ok:
  assumes "\<forall>i. client_ok (client i)" "cache_inv L B A R s" "idle s"
  shows "\<exists>s'. cache_notify client k s = Inr s' \<and> cache_inv L B A R s' \<and> idle s' \<and> retried s' = retried s @ map wc_id (clients_of (cs_caches s k))"
proof (cases "wait_list_cnt (cs_caches s k) = 0")
  case False
  define c where "c = cs_caches s k"
  define ws where "ws = clients_of c"
  define buf where "buf = (if length (cs_wait_buf s) < wait_list_cnt c then cs_wait_buf s @ replicate (wait_list_cnt c - length (cs_wait_buf s)) no_client
    else cs_wait_buf s)"
  let ?c = "c\<lparr>wait_list_cnt := 0\<rparr>" and ?q = "remove1 k (cs_list s)"
  let ?t = "s\<lparr>cs_caches := (cs_caches s)(k := ?c), cs_list := ?q\<rparr>"
  let ?s = "?t\<lparr>cs_wait_buf := ws @ drop (wait_list_cnt c) buf\<rparr>"
  have ok: "lists_ok s" using assms(2) by (simp add: cache_inv_def)
  have l: "length ws = wait_list_cnt c" using lists_okD(1) [OF ok, of k] by (simp add: ws_def clients_of_def c_def)
  have w: "\<forall>w \<in> set ws. wc_ok w" using lists_okD(4) [OF ok] unfolding waiting_split [OF ok, of k] by (auto simp: ws_def c_def)
  have t: "lists_ok ?t" "waiting ?t = other_clients k s"
    using change_cache [OF ok, of ?c ?q k] lists_okD(2) [OF ok] by (auto simp: clients_of_def)
  have "waiting s = waiting ?t + mset ws" unfolding waiting_split [OF ok, of k] t(2) by (simp add: ws_def c_def)
  then have "balance (L + chans (mset ws)) (B + copies (mset ws)) (A + image_mset wc_id (mset ws)) R ?t"
    using assms(2) unfolding cache_inv_def balance_def by (auto simp: chans_def copies_def ac_simps)
  then have "cache_inv (L + chans (mset ws)) (B + copies (mset ws)) (A + image_mset wc_id (mset ws)) R ?s" using t(1) by (simp add: cache_inv_def [of _ _ _ _ ?t])
  moreover have "cache_notify client k s = notify_loop (bodies client (wait_list_cnt c)) 0 ?s"
    using False 
    by (auto simp: cache_notify_def Let_def c_def ws_def buf_def clients_of_def intro!: arg_cong [where f = "notify_loop _ 0"] cache_state.equality)
  moreover have "idle ?s" "retried ?s = retried s" using assms(3) by (simp_all add: idle_def retried_def)
  ultimately show ?thesis
    using notify_loop_ok [of "bodies client (wait_list_cnt c)" ws ?s "[]" "drop (wait_list_cnt c) buf" 0 L B A R] assms(1) w l
    by (auto simp: bodies_def ws_def c_def)
qed (use assms in \<open>simp add: cache_notify_def Let_def clients_of_def\<close>)

lemma notify_event_ok:
  assumes "\<forall>i. client_ok (client i)" "cache_inv L B A R s" "idle s"
  shows "\<exists>s'. cache_notify_event client s = Inr s' \<and> cache_inv L B A R s' \<and> idle s' \<and>
    retried s' = retried s @ (case cs_posted s of [] \<Rightarrow> [] | b # q \<Rightarrow> map wc_id (event_clients b))"
proof (cases "cs_posted s")
  case (Cons b q)
  let ?s = "s\<lparr>cs_posted := q\<rparr>"
  have w: "waiting s = waiting ?s + mset (event_clients b)" by (simp add: waiting_def Cons ac_simps)
  have ok: "lists_ok s" using assms(2) by (simp add: cache_inv_def)
  then have "lists_ok ?s" "\<forall>w \<in> set (event_clients b). wc_ok w" "\<exists>w \<in> set b. wc_client w = None"
    using w Cons by (auto simp: lists_ok_def)
  moreover have "balance (L + chans (mset (event_clients b))) (B + copies (mset (event_clients b))) (A + image_mset wc_id (mset (event_clients b))) R ?s"
    using assms(2) w unfolding cache_inv_def balance_def by (auto simp: chans_def copies_def ac_simps)
  moreover have "idle ?s" "retried ?s = retried s" using assms(3) by (simp_all add: idle_def retried_def)
  ultimately show ?thesis using notify_event_loop_ok [of client b L B A R ?s 0] assms(1) Cons
    by (auto simp: cache_notify_event_def cache_inv_def)
qed (use assms in \<open>simp add: cache_notify_event_def\<close>)

section \<open>The life of the caches\<close>

text \<open>
  What the agent does: a command starts a client, a cache has got its data and runs the clients that wait for it, at once or in an event, that event is
  dispatched, a cache is disposed of, the timer fires. Clients are as they should be.
\<close>

inductive cache_step :: "('c, 'k) cache_state \<Rightarrow> ('c, 'k) cache_state \<Rightarrow> bool" where
  enter: "script_ok (Some False) as \<Longrightarrow> cache_enter name ch args (run_acts as) s = Inr s' \<Longrightarrow> cache_step s s'"
| notify: "(\<And>i. script_ok (Some False) (as i)) \<Longrightarrow> cache_notify (\<lambda>i. run_acts (as i)) k s = Inr s' \<Longrightarrow> cache_step s s'"
| later: "cache_step s (cache_notify_later k s)"
| event: "(\<And>i. script_ok (Some False) (as i)) \<Longrightarrow> cache_notify_event (\<lambda>i. run_acts (as i)) s = Inr s' \<Longrightarrow> cache_step s s'"
| dispose: "cache_dispose k s = Inr s' \<Longrightarrow> cache_step s s'"
| timer: "cs_timer_posted s \<Longrightarrow> cache_timer now s = Inr (r, s') \<Longrightarrow> cache_step s s'"

definition cache_reachable :: "('c, 'k) cache_state \<Rightarrow> bool" where
  "cache_reachable s \<longleftrightarrow> cache_step\<^sup>*\<^sup>* cache_initial s"

definition cache_idle_inv :: "('c, 'k) cache_state \<Rightarrow> bool" where
  "cache_idle_inv s \<longleftrightarrow> cache_inv {#} 0 {#} {#} s \<and> idle s"

lemma dispose_keeps:
  assumes "cache_dispose k s = Inr s'" "cache_idle_inv s"
  shows "cache_idle_inv s'"
proof -
  let ?c = "\<lparr>wait_list_buf = [], wait_list_cnt = 0\<rparr>"
  have s': "s' = s\<lparr>cs_caches := (cs_caches s)(k := ?c)\<rparr>" and k: "k \<notin> set (cs_list s)" and z: "wait_list_cnt (cs_caches s k) = 0"
    using assms(1) by (auto simp: cache_dispose_def split: if_splits)
  have ok: "lists_ok s" using assms(2) by (simp add: cache_idle_inv_def cache_inv_def)
  have e: "s' = s\<lparr>cs_caches := (cs_caches s)(k := ?c), cs_list := cs_list s\<rparr>" using s' by simp
  have "lists_ok s'" "waiting s' = other_clients k s" unfolding e
    using change_cache [OF ok, of ?c "cs_list s" k] lists_okD(2) [OF ok] k by (auto simp: clients_of_def)
  moreover have "other_clients k s = waiting s" using waiting_split [OF ok, of k] z by (simp add: clients_of_def)
  ultimately show ?thesis using assms(2) balance_cong [of s' s "{#}" 0 "{#}" "{#}"]
    by (simp add: cache_idle_inv_def cache_inv_def idle_def) (simp add: s')
qed

lemma idle_steps:
  assumes "cache_idle_inv s"
  shows "client_ok b \<Longrightarrow> \<exists>s'. cache_enter name ch args b s = Inr s' \<and> cache_idle_inv s'"
    "(\<And>i. client_ok (f i)) \<Longrightarrow> \<exists>s'. cache_notify f k s = Inr s' \<and> cache_idle_inv s' \<and> retried s' = retried s @ map wc_id (clients_of (cs_caches s k))"
    "(\<And>i. client_ok (f i)) \<Longrightarrow> \<exists>s'. cache_notify_event f s = Inr s' \<and> cache_idle_inv s' \<and>
      retried s' = retried s @ (case cs_posted s of [] \<Rightarrow> [] | b # q \<Rightarrow> map wc_id (event_clients b))"
    "cache_idle_inv (cache_notify_later k s)"
proof -
  have i: "cache_inv {#} 0 {#} {#} s" "idle s" using assms by (simp_all add: cache_idle_inv_def)
  show "client_ok b \<Longrightarrow> \<exists>s'. cache_enter name ch args b s = Inr s' \<and> cache_idle_inv s'"
    using cache_enter_ok [OF _ i(2,1)] unfolding cache_idle_inv_def by blast
  show "(\<And>i. client_ok (f i)) \<Longrightarrow> \<exists>s'. cache_notify f k s = Inr s' \<and> cache_idle_inv s' \<and> retried s' = retried s @ map wc_id (clients_of (cs_caches s k))"
    using cache_notify_ok [OF _ i] unfolding cache_idle_inv_def by blast
  show "(\<And>i. client_ok (f i)) \<Longrightarrow> \<exists>s'. cache_notify_event f s = Inr s' \<and> cache_idle_inv s' \<and>
      retried s' = retried s @ (case cs_posted s of [] \<Rightarrow> [] | b # q \<Rightarrow> map wc_id (event_clients b))"
    using notify_event_ok [OF _ i] unfolding cache_idle_inv_def by blast
  show "cache_idle_inv (cache_notify_later k s)" using notify_later_keeps [OF i(1)] i(2) by (simp add: cache_idle_inv_def idle_def)
qed

lemma step_inv: "cache_step s s' \<Longrightarrow> cache_idle_inv s \<Longrightarrow> cache_idle_inv s'"
proof (induction rule: cache_step.induct)
  case (enter as name ch args s s')
  with idle_steps(1) [OF enter.prems script_client_ok [OF enter.hyps(1)], of name ch args] show ?case by fastforce
next
  case (notify as k s s')
  with idle_steps(2) [OF notify.prems, of "\<lambda>i. run_acts (as i)" k] script_client_ok show ?case by fastforce
next
  case (event as s s')
  with idle_steps(3) [OF event.prems, of "\<lambda>i. run_acts (as i)"] script_client_ok show ?case by fastforce
next
  case (timer s now r s')
  then show ?case by (auto simp: cache_timer_def cache_idle_inv_def idle_def split: if_splits)
qed (simp_all add: idle_steps dispose_keeps)

lemma initial_inv: "cache_idle_inv cache_initial"
  by (simp add: cache_idle_inv_def cache_inv_def lists_ok_def balance_def waiting_def chans_def copies_def told_def idle_def cache_initial_def)

lemma cache_reachable_inv: "cache_reachable s \<Longrightarrow> cache_idle_inv s"
  unfolding cache_reachable_def by (induction rule: rtranclp_induct) (use initial_inv step_inv in blast)+


text \<open>Two commands on two channels miss the same data; a third one gets what it needs.\<close>

definition demo_wait :: "(nat, nat) act list" where
  "demo_wait = [Wait 0 ''f.c'' 10 5 False]"

definition demo_start :: "string \<Rightarrow> nat option \<Rightarrow> (nat, nat) act list \<Rightarrow> (nat, nat) cache_state \<Rightarrow> (nat, nat) cache_state" where
  "demo_start name ch as s = (case cache_enter name ch (Some [1]) (run_acts as) s of Inr t \<Rightarrow> t | Inl e \<Rightarrow> s)"

definition demo_cache :: "(nat, nat) cache_state" where
  "demo_cache = demo_start ''c'' (Some 3) [Exit False] (demo_start ''b'' (Some 2) demo_wait (demo_start ''a'' (Some 1) demo_wait cache_initial))"

lemma demo_start_step:
  assumes "script_ok (Some False) as" "cache_reachable s"
  shows "cache_reachable (demo_start name ch as s)"
proof -
  obtain t where t: "cache_enter name ch (Some [1]) (run_acts as) s = Inr t"
    using idle_steps(1) [OF cache_reachable_inv [OF assms(2)] script_client_ok [OF assms(1)]] by blast
  have "cache_step s t" by (rule cache_step.enter [OF assms(1) t])
  then show ?thesis using assms(2) t by (auto simp: demo_start_def cache_reachable_def)
qed

lemma demo_cache_reachable: "cache_reachable demo_cache"
  unfolding demo_cache_def by (intro demo_start_step) (simp_all add: demo_wait_def cache_reachable_def)

lemma replicate_8: "replicate 8 x = [x, x, x, x, x, x, x, x]"
  by (simp add: numeral_eq_Suc)

lemmas cache_eval = replicate_8 demo_start_def cache_enter_def run_cache_client_def after_client_def put_to_wait_def copy_args_def lock_channel_def add_waiting_def
  free_args_def no_transaction_def tell_def cache_initial_def no_client_def caught_def cache_wait_def cache_exit_def demo_wait_def Let_def
  waiting_def clients_of_def event_clients_def told_def cache_notify_def bodies_def nth_body_def unlock_channel_def


text \<open>
  C16: In every state the agent gets into between two events, no assertion of cache.c fails and no array is left, whatever clients do that follow the rules: a
  client can be started, a cache can be notified and the posted event dispatched, and all clients that wait there are run again, once each and
  in the order they came. A cache can be disposed of exactly when nobody waits for it; the timer finds only caches with clients.
\<close>

theorem cache_assertions:
  assumes "cache_reachable s" and "\<And>i. script_ok (Some False) (as i)"
  shows "(\<exists>s'. cache_enter name ch args (run_acts (as 0)) s = Inr s') \<and>
    (\<exists>s'. cache_notify (\<lambda>i. run_acts (as i)) k s = Inr s' \<and> retried s' = retried s @ map wc_id (clients_of (cs_caches s k))) \<and>
    (\<exists>s'. cache_notify_event (\<lambda>i. run_acts (as i)) s = Inr s' \<and>
      retried s' = retried s @ (case cs_posted s of [] \<Rightarrow> [] | b # q \<Rightarrow> map wc_id (event_clients b))) \<and>
    ((\<exists>s'. cache_dispose k s = Inr s') \<longleftrightarrow> clients_of (cs_caches s k) = []) \<and>
    (cs_timer_posted s \<longrightarrow> (\<exists>r. cache_timer now s = Inr r))"
proof -
  note i = cache_reachable_inv [OF assms(1)]
  then have ok: "lists_ok s" by (simp add: cache_idle_inv_def cache_inv_def)
  have c: "client_ok (run_acts (as i))" for i using script_client_ok assms(2) by blast
  have "(\<exists>s'. cache_dispose k s = Inr s') \<longleftrightarrow> clients_of (cs_caches s k) = []"
    using lists_okD(1,3) [OF ok, of k] by (auto simp: cache_dispose_def clients_of_def)
  moreover have "cs_timer_posted s \<longrightarrow> (\<exists>r. cache_timer now s = Inr r)" using lists_okD(3) [OF ok] by (auto simp: cache_timer_def)
  ultimately show ?thesis
    using idle_steps(1) [OF i c, of name ch args 0] idle_steps(2) [OF i, of "\<lambda>i. run_acts (as i)" k] idle_steps(3) [OF i, of "\<lambda>i. run_acts (as i)"] c by blast
qed

theorem cache_assertions_witness:
  "cache_reachable demo_cache \<and> (\<exists>s'. cache_notify (\<lambda>i. run_acts [Exit False]) 5 demo_cache = Inr s' \<and> retried s' = [1, 2]) \<and>
   (\<exists>s'. cache_dispose 5 demo_cache = Inr s') = False"
proof -
  have d: "clients_of (cs_caches demo_cache 5) \<noteq> []" "map wc_id (clients_of (cs_caches demo_cache 5)) = [1, 2]" "retried demo_cache = []"
    by (simp_all add: demo_cache_def cache_eval retried_def)
  have "script_ok (Some False) [Exit False :: (nat, nat) act]" by simp
  from cache_assertions [OF demo_cache_reachable this, of _ _ _ 5] d demo_cache_reachable show ?thesis by auto
qed

text \<open>
  The rule that clients do not call \<open>cache_notify\<close> matters and is not written down: \<open>cache_notify\<close> keeps the clients it runs in one static array, and a client that
  calls it, outside of its own transaction, overwrites them. Here the first of two clients notifies a cache for which two others wait: the second client is lost, one of the
  others runs twice.
\<close>

definition nested_demo :: "(nat, nat) cache_state" where
  "nested_demo = (let wait = (\<lambda>name k s. case cache_enter name None None (run_acts [Wait 0 ''f.c'' 10 k False]) s of Inr t \<Rightarrow> t | Inl e \<Rightarrow> s)
     in wait ''d'' 6 (wait ''c'' 6 (wait ''b'' 5 (wait ''a'' 5 cache_initial))))"

theorem nested_notify_loses_client:
  "\<exists>s. cache_notify (nth_body [run_acts [Exit False, Notify 6 [[Exit False], [Exit False]]], run_acts [Exit False]]) 5 nested_demo = Inr s \<and>
     told CTLE_START s = {#1, 2, 3, 4#} \<and> waiting s = {#} \<and> told CTLE_COMMIT s = {#1, 3, 4, 4#}"
  by (simp add: nested_demo_def cache_eval upt_rec)

end
