(* ===== verification/ContextQuery.thy ===== *)
theory ContextQuery
  imports Prelude "HOL-Library.Sublist"
begin

text \<open>
  The ContextQuery service: src/agent/tcf/services/contextquery.c. A query is a path of parts that a context and its ancestors have to match; the comment
  in contextquery.h has the grammar and the meaning.

  A C string is a list of characters, its end the end of the list. The buffer \<open>str_buf\<close>, which grows as it is filled, is the text that was put
  into it. A context is given with its ancestors: \<open>ctx # up\<close>, where the parent of \<open>ctx\<close> is the head of \<open>up\<close>. The comparators that other services
  register are arbitrary functions; what \<open>get_context_query_attr_name\<close> would give them is an argument. A part of a query is the
  list of its attributes, the last one first, as the links have it; so is the list of parts.
\<close>

section \<open>State\<close>

record Attribute =
  attr_name :: "string option"
  attr_value :: string

type_synonym part = "Attribute list"

type_synonym 'x comparator = "string \<times> (string \<Rightarrow> 'x \<Rightarrow> string \<Rightarrow> bool)"

record cq_query =
  cq_attrs :: "part list"
  cq_abs_path :: bool

definition add_context_query_comparator :: "string \<Rightarrow> (string \<Rightarrow> 'x \<Rightarrow> string \<Rightarrow> bool) \<Rightarrow> 'x comparator list \<Rightarrow> 'x comparator list" where
  "add_context_query_comparator name f cs = (name, f) # cs"

section \<open>The parser\<close>

abbreviation quote :: char where "quote \<equiv> CHR 0x22"
abbreviation backslash :: char where "backslash \<equiv> CHR 0x5C"

definition is_digit :: "char \<Rightarrow> bool" where
  "is_digit c \<longleftrightarrow> 48 \<le> (of_char c :: nat) \<and> (of_char c :: nat) \<le> 57"

definition is_symbol_char :: "char \<Rightarrow> bool" where
  "is_symbol_char c \<longleftrightarrow> c = CHR ''_'' \<or> is_digit c \<or> 97 \<le> (of_char c :: nat) \<and> (of_char c :: nat) \<le> 122 \<or>
     65 \<le> (of_char c :: nat) \<and> (of_char c :: nat) \<le> 90"

text \<open>The next character is one of these, or the text ends.\<close>

definition ends_with :: "string \<Rightarrow> string \<Rightarrow> bool" where
  "ends_with stops q \<longleftrightarrow> (case q of [] \<Rightarrow> True | c # cs \<Rightarrow> c \<in> set stops)"

definition parse_wildcard :: "string \<Rightarrow> (string \<times> string) result" where
  "parse_wildcard q =
     (let w = (if length q > 1 \<and> q ! 1 = CHR ''*'' then take 2 q else take 1 q); c = drop (length w) q
      in if ends_with ''/'' c then Inr (w, c) else Inl ERR_OTHER)"

definition parse_number :: "string \<Rightarrow> (string \<times> string) result" where
  "parse_number q =
     (let c = dropWhile is_digit q in if ends_with '',/'' c then Inr (takeWhile is_digit q, c) else Inl ERR_OTHER)"

definition parse_symbol :: "string \<Rightarrow> (string \<times> string) result" where
  "parse_symbol q =
     (let c = dropWhile is_symbol_char q in if ends_with ''/=,'' c then Inr (takeWhile is_symbol_char q, c) else Inl ERR_OTHER)"

fun quoted_loop :: "string \<Rightarrow> string \<Rightarrow> (string \<times> string) result" where
  "quoted_loop [] s = Inl ERR_OTHER"
| "quoted_loop (c # cs) s =
     (if c = quote then Inr (s, cs)
      else if c = backslash
      then (case cs of
              [] \<Rightarrow> Inl ERR_OTHER
            | d # ds \<Rightarrow> if d \<noteq> backslash \<and> d \<noteq> quote then Inl ERR_OTHER else quoted_loop ds (s @ [d]))
      else quoted_loop cs (s @ [c]))"

definition parse_quoted_string :: "string \<Rightarrow> (string \<times> string) result" where
  "parse_quoted_string q = quoted_loop (tl q) []"

definition parse_string :: "string \<Rightarrow> (string \<times> string) result" where
  "parse_string q = (if q \<noteq> [] \<and> hd q = quote then parse_quoted_string q else parse_symbol q)"

definition parse_value :: "string \<Rightarrow> (string \<times> string) result" where
  "parse_value q =
     (if q \<noteq> [] \<and> is_digit (hd q) then parse_number q
      else if q \<noteq> [] \<and> hd q = quote then parse_quoted_string q else parse_symbol q)"

definition parse_property :: "string \<Rightarrow> (Attribute \<times> string) result" where
  "parse_property q =
     bindE (parse_string q) (\<lambda>(name, c).
       if c \<noteq> [] \<and> hd c = CHR ''=''
       then
         (if ends_with ''/=,'' (tl c) then Inl ERR_OTHER
          else bindE (parse_value (tl c)) (\<lambda>(v, d).
            if d \<noteq> [] \<and> hd d = CHR ''='' then Inl ERR_OTHER
            else Inr (\<lparr>attr_name = Some name, attr_value = v\<rparr>, d)))
       else Inr (\<lparr>attr_name = None, attr_value = name\<rparr>, c))"

definition parse_attr :: "string \<Rightarrow> (Attribute \<times> string) result" where
  "parse_attr q =
     (if hd q = CHR ''*'' then bindE (parse_wildcard q) (\<lambda>(w, c). Inr (\<lparr>attr_name = None, attr_value = w\<rparr>, c)) else parse_property q)"

text \<open>
  The loop over the text: the attributes of the current part, the parts before it. The result is whether there was an error and the
  parts in \<open>attrs\<close> then. \<open>None\<close> would be a loop that does not end.
\<close>

partial_function (option) parse_loop :: "string \<Rightarrow> part \<Rightarrow> part list \<Rightarrow> (tcf_error option \<times> part list) option" where
  "parse_loop q attr attrs =
     (if q = [] then Some (None, attr # attrs)
      else
        (case parse_attr q of
           Inl e \<Rightarrow> Some (Some e, attrs)
         | Inr (a, c) \<Rightarrow>
             if c \<noteq> [] \<and> hd c = CHR ''/''
             then (if ends_with ''/=,'' (tl c) then Some (Some ERR_OTHER, (a # attr) # attrs) else parse_loop (tl c) [] ((a # attr) # attrs))
             else if c \<noteq> [] \<and> hd c = CHR '',''
             then (if ends_with ''/=,'' (tl c) then Some (Some ERR_OTHER, attrs) else parse_loop (tl c) (a # attr) attrs)
             else parse_loop c (a # attr) attrs))"

definition parse_context_query :: "string option \<Rightarrow> (tcf_error option \<times> cq_query) option" where
  "parse_context_query query =
     (case query of
        None \<Rightarrow> Some (None, \<lparr>cq_attrs = [], cq_abs_path = False\<rparr>)
      | Some q \<Rightarrow>
          if q = [] then Some (None, \<lparr>cq_attrs = [], cq_abs_path = False\<rparr>)
          else
            (let abs_path = (hd q = CHR ''/''); q1 = (if abs_path then tl q else q)
             in if ends_with ''/=,'' q1 then Some (Some ERR_OTHER, \<lparr>cq_attrs = [], cq_abs_path = abs_path\<rparr>)
                else map_option (\<lambda>(e, attrs). (e, \<lparr>cq_attrs = attrs, cq_abs_path = abs_path\<rparr>)) (parse_loop q1 [] [])))"

section \<open>Matching\<close>

definition to_lower :: "char \<Rightarrow> char" where
  "to_lower c = (if 65 \<le> (of_char c :: nat) \<and> (of_char c :: nat) \<le> 90 then char_of ((of_char c :: nat) + 32) else c)"

definition DEFAULT_CONTEXT_QUERY_COMPARATOR :: string where
  "DEFAULT_CONTEXT_QUERY_COMPARATOR = ''*''"

definition match_attribute :: "'x comparator list \<Rightarrow> 'x \<Rightarrow> string \<Rightarrow> string \<Rightarrow> bool" where
  "match_attribute cs ctx key v =
     (case find (\<lambda>(n, f). map to_lower n = map to_lower key) cs of
        Some (n, f) \<Rightarrow> f key ctx v
      | None \<Rightarrow> list_ex (\<lambda>(n, f). n = DEFAULT_CONTEXT_QUERY_COMPARATOR \<and> f key ctx v) cs)"

definition match_attr :: "'x comparator list \<Rightarrow> 'x \<Rightarrow> Attribute \<Rightarrow> bool" where
  "match_attr cs ctx a =
     (case attr_name a of
        Some n \<Rightarrow> match_attribute cs ctx n (attr_value a)
      | None \<Rightarrow> if attr_value a \<noteq> ''*'' then match_attribute cs ctx ''Name'' (attr_value a) else True)"

definition is_any :: "part \<Rightarrow> bool" where
  "is_any p = (attr_name (hd p) = None \<and> attr_value (hd p) = ''**'')"

text \<open>A context and its ancestors, each with its own ancestors.\<close>

fun with_ancestors :: "'x list \<Rightarrow> 'x list list" where
  "with_ancestors [] = []"
| "with_ancestors (x # up) = (x # up) # with_ancestors up"

primrec cq_match :: "'x comparator list \<Rightarrow> bool \<Rightarrow> part list \<Rightarrow> 'x list \<Rightarrow> bool" where
  "cq_match cs abs_path [] path = False"
| "cq_match cs abs_path (p # ps) path =
     (if is_any p then ps = [] \<or> list_ex (cq_match cs abs_path ps) (with_ancestors path)
      else
        (if ps \<noteq> [] then tl path \<noteq> [] \<and> cq_match cs abs_path ps (tl path) else \<not> (abs_path \<and> tl path \<noteq> [])) \<and>
        list_all (match_attr cs (hd path)) p)"

definition run_context_query_ext :: "'x comparator list \<Rightarrow> cq_query \<Rightarrow> 'x list \<Rightarrow> bool" where
  "run_context_query_ext cs q path = (if cq_attrs q = [] then \<not> cq_abs_path q else cq_match cs (cq_abs_path q) (cq_attrs q) path)"

text \<open>\<open>context_query\<close> does not look at the result of the parser.\<close>

definition context_query :: "'x comparator list \<Rightarrow> string option \<Rightarrow> 'x list \<Rightarrow> bool option" where
  "context_query cs query path = map_option (\<lambda>(e, q). run_context_query_ext cs q path) (parse_context_query query)"

section \<open>The commands\<close>

record cq_context =
  ctx_id :: string
  ctx_name :: "string option"
  ctx_exited :: bool

definition cmp_id :: "string \<Rightarrow> cq_context \<Rightarrow> string \<Rightarrow> bool" where
  "cmp_id key ctx v = (ctx_id ctx = v)"

definition cmp_name :: "string \<Rightarrow> cq_context \<Rightarrow> string \<Rightarrow> bool" where
  "cmp_name key ctx v = (case ctx_name ctx of Some n \<Rightarrow> n = v | None \<Rightarrow> ctx_id ctx = v)"

definition ini_context_query_service :: "cq_context comparator list \<Rightarrow> cq_context comparator list" where
  "ini_context_query_service cs = add_context_query_comparator ''Name'' cmp_name (add_context_query_comparator ''ID'' cmp_id cs)"

text \<open>The reply: the error, and the IDs. The contexts come with their ancestors.\<close>

definition command_query :: "cq_context comparator list \<Rightarrow> cq_context list list \<Rightarrow> string option \<Rightarrow> (tcf_error option \<times> string list) option" where
  "command_query cs contexts query =
     map_option (\<lambda>(e, q). (e, if e \<noteq> None then []
       else map (\<lambda>path. ctx_id (hd path)) (filter (\<lambda>path. \<not> ctx_exited (hd path) \<and> run_context_query_ext cs q path) contexts)))
     (parse_context_query query)"

definition command_get_attr_names :: "'x comparator list \<Rightarrow> string list" where
  "command_get_attr_names cs = map fst cs"

end
