(* ===== verification/QuerySpec.thy ===== *)
theory QuerySpec
  imports ContextQuery
begin

text \<open>
  Context queries (theory ContextQuery, src/agent/tcf/services/contextquery.c) against the comment in contextquery.h: the parser returns on every
  text, it reads what the grammar writes, and a context matches a query exactly when the path to it can be cut as the parts say.
\<close>

section \<open>The parser returns\<close>

lemma ends_with_Cons [simp]: "ends_with stops (c # cs) = (c \<in> set stops)" "ends_with stops []"
  by (simp_all add: ends_with_def)

lemma quoted_loop_shrinks: "quoted_loop q s = Inr (t, c) \<Longrightarrow> length c < length q"
  by (induction q s arbitrary: t c rule: quoted_loop.induct) (fastforce split: if_splits list.splits)+

lemma symbol_shrinks:
  assumes "parse_symbol q = Inr (s, c)" "\<not> ends_with ''/=,'' q"
  shows "length c < length q"
proof -
  have c: "c = dropWhile is_symbol_char q" "ends_with ''/=,'' c" using assms(1) by (auto simp: parse_symbol_def Let_def split: if_splits)
  then have "c \<noteq> q" using assms(2) by auto
  then have "takeWhile is_symbol_char q \<noteq> []" using c(1) takeWhile_dropWhile_id [of is_symbol_char q] by force
  then show ?thesis using arg_cong [OF takeWhile_dropWhile_id [of is_symbol_char q], of length] c(1) by (cases "takeWhile is_symbol_char q") auto
qed

lemma string_shrinks: "parse_string q = Inr (s, c) \<Longrightarrow> \<not> ends_with ''/=,'' q \<Longrightarrow> length c < length q"
  using symbol_shrinks quoted_loop_shrinks [of "tl q" "[]"]
  by (fastforce simp: parse_string_def parse_quoted_string_def split: if_splits)

lemma value_shrinks: "parse_value q = Inr (s, c) \<Longrightarrow> length c \<le> length q"
  using quoted_loop_shrinks [of "tl q" "[]"] length_dropWhile_le
  by (fastforce simp: parse_value_def parse_quoted_string_def parse_number_def parse_symbol_def Let_def split: if_splits)

lemma attr_shrinks:
  assumes "parse_attr q = Inr (a, c)" "\<not> ends_with ''/=,'' q"
  shows "length c < length q \<and> (c \<noteq> [] \<longrightarrow> hd c \<noteq> CHR ''='')"
proof (cases "hd q = CHR ''*''")
  case True
  have "q \<noteq> []" using assms(2) by auto
  moreover have "c = [] \<or> hd c = CHR ''/''" using True assms(1)
    by (auto simp: parse_attr_def parse_wildcard_def Let_def bindE_Inr_iff split: if_splits) (auto simp: ends_with_def split: list.splits)
  ultimately show ?thesis using True assms(1) by (auto simp: parse_attr_def parse_wildcard_def Let_def bindE_Inr_iff split: if_splits)
next
  case False
  then have p: "parse_property q = Inr (a, c)" using assms(1) by (simp add: parse_attr_def)
  then obtain s d where d: "parse_string q = Inr (s, d)" by (auto simp: parse_property_def bindE_Inr_iff)
  then have l: "length d < length q" using string_shrinks assms(2) by blast
  show ?thesis
  proof (cases "d \<noteq> [] \<and> hd d = CHR ''=''")
    case True
    with p d obtain v where "parse_value (tl d) = Inr (v, c)" "c \<noteq> [] \<longrightarrow> hd c \<noteq> CHR ''=''"
      by (auto simp: parse_property_def bindE_Inr_iff split: if_splits)
    with l value_shrinks show ?thesis by fastforce
  next
    case False
    with p d l show ?thesis by (auto simp: parse_property_def)
  qed
qed

lemma parse_loop_returns:
  assumes "q = [] \<or> \<not> ends_with ''/=,'' q"
  shows "\<exists>r. parse_loop q attr attrs = Some r"
  using assms
proof (induction q arbitrary: attr attrs rule: length_induct)
  case (1 q)
  show ?case
  proof (cases "q = [] \<or> (\<exists>e. parse_attr q = Inl e)")
    case True
    then show ?thesis by (subst parse_loop.simps) auto
  next
    case False
    then obtain a c where a: "parse_attr q = Inr (a, c)" by (cases "parse_attr q") auto
    have l: "length c < length q" "c \<noteq> [] \<longrightarrow> hd c \<noteq> CHR ''=''" using attr_shrinks [OF a] 1 False by auto
    have t: "\<not> ends_with ''/=,'' (tl c) \<Longrightarrow> length (tl c) < length q \<and> (tl c = [] \<or> \<not> ends_with ''/=,'' (tl c))" using l(1) by simp
    have n: "\<not> (c \<noteq> [] \<and> hd c = CHR ''/'') \<Longrightarrow> \<not> (c \<noteq> [] \<and> hd c = CHR '','') \<Longrightarrow> c = [] \<or> \<not> ends_with ''/=,'' c"
      using l(2) by (cases c) auto
    show ?thesis using 1(1) l(1) t n a by (subst parse_loop.simps) auto
  qed
qed

text \<open>
  The parser of context queries returns on every text, well formed or not: after each attribute the text that is left is shorter, although a symbol can be empty.
\<close>

theorem parse_context_query_returns: "\<exists>e q. parse_context_query query = Some (e, q)"
proof (cases "query = None \<or> query = Some []")
  case False
  then obtain q where q: "query = Some q" "q \<noteq> []" by auto
  let ?q = "if hd q = CHR ''/'' then tl q else q"
  have "ends_with ''/=,'' ?q \<or> (\<exists>r. parse_loop ?q [] [] = Some r)" using parse_loop_returns by blast
  then show ?thesis using q by (auto simp: parse_context_query_def Let_def)
qed (auto simp: parse_context_query_def)

section \<open>The grammar\<close>

text \<open>Queries as the grammar has them. A string is bare (a symbol or a number) or in quotes.\<close>

datatype qstr = Bare string | Quoted string
datatype qpart = Star | StarStar | Named qstr | Props "(qstr \<times> qstr) list"

primrec str_of :: "qstr \<Rightarrow> string" where
  "str_of (Bare s) = s"
| "str_of (Quoted s) = s"

definition esc :: "string \<Rightarrow> string" where
  "esc s = concat (map (\<lambda>c. if c = quote \<or> c = backslash then [backslash, c] else [c]) s)"

primrec print_str :: "qstr \<Rightarrow> string" where
  "print_str (Bare s) = s"
| "print_str (Quoted s) = quote # esc s @ [quote]"

primrec valid_name :: "qstr \<Rightarrow> bool" where
  "valid_name (Bare s) = (s \<noteq> [] \<and> list_all is_symbol_char s)"
| "valid_name (Quoted s) = True"

primrec valid_value :: "qstr \<Rightarrow> bool" where
  "valid_value (Bare s) = (s \<noteq> [] \<and> (if is_digit (hd s) then list_all is_digit s else list_all is_symbol_char s))"
| "valid_value (Quoted s) = True"

fun join :: "char \<Rightarrow> string list \<Rightarrow> string" where
  "join c [] = []"
| "join c [x] = x"
| "join c (x # y # xs) = x @ c # join c (y # xs)"

definition print_prop :: "qstr \<times> qstr \<Rightarrow> string" where
  "print_prop p = print_str (fst p) @ CHR ''='' # print_str (snd p)"

primrec print_part :: "qpart \<Rightarrow> string" where
  "print_part Star = ''*''"
| "print_part StarStar = ''**''"
| "print_part (Named s) = print_str s"
| "print_part (Props ps) = join CHR '','' (map print_prop ps)"

definition print_query :: "bool \<Rightarrow> qpart list \<Rightarrow> string" where
  "print_query abs_path ps = (if abs_path then ''/'' else []) @ join CHR ''/'' (map print_part ps)"

primrec valid_part :: "qpart \<Rightarrow> bool" where
  "valid_part Star = True"
| "valid_part StarStar = True"
| "valid_part (Named s) = valid_name s"
| "valid_part (Props ps) = (ps \<noteq> [] \<and> list_all (\<lambda>(n, v). valid_name n \<and> valid_value v) ps)"

definition prop_attr :: "qstr \<times> qstr \<Rightarrow> Attribute" where
  "prop_attr p = \<lparr>attr_name = Some (str_of (fst p)), attr_value = str_of (snd p)\<rparr>"

primrec part_attrs :: "qpart \<Rightarrow> part" where
  "part_attrs Star = [\<lparr>attr_name = None, attr_value = ''*''\<rparr>]"
| "part_attrs StarStar = [\<lparr>attr_name = None, attr_value = ''**''\<rparr>]"
| "part_attrs (Named s) = [\<lparr>attr_name = None, attr_value = str_of s\<rparr>]"
| "part_attrs (Props ps) = rev (map prop_attr ps)"

section \<open>Reading what the grammar writes\<close>

lemma quoted_loop_esc: "quoted_loop (esc s @ quote # c) t = Inr (t @ s, c)"
  by (induction s arbitrary: t) (auto simp: esc_def)

lemma symbol_stops: "\<not> is_symbol_char (CHR ''/'')" "\<not> is_symbol_char (CHR ''='')" "\<not> is_symbol_char (CHR '','')"
  "\<not> is_symbol_char quote" "\<not> is_symbol_char (CHR ''*'')" "is_digit c \<Longrightarrow> is_symbol_char c" "\<not> is_digit quote"
  "\<not> is_digit (CHR ''/'')" "\<not> is_digit (CHR '','')"
  by (auto simp: is_symbol_char_def is_digit_def)

lemma span_stop:
  assumes "list_all p s" "\<And>x. x \<in> set stops \<Longrightarrow> \<not> p x" "ends_with stops c"
  shows "takeWhile p (s @ c) = s" "dropWhile p (s @ c) = c"
proof -
  have "c = [] \<or> \<not> p (hd c)" using assms(2,3) by (cases c) auto
  then show "takeWhile p (s @ c) = s" "dropWhile p (s @ c) = c"
    using assms(1) by (cases c; auto simp: list_all_iff takeWhile_append2 dropWhile_append2)+
qed

lemma span_symbol:
  assumes "list_all is_symbol_char s" "ends_with ''/=,'' c"
  shows "takeWhile is_symbol_char (s @ c) = s" "dropWhile is_symbol_char (s @ c) = c"
  using span_stop [OF assms(1) _ assms(2)] symbol_stops by auto

lemma span_digit:
  assumes "list_all is_digit s" "ends_with '',/'' c"
  shows "takeWhile is_digit (s @ c) = s" "dropWhile is_digit (s @ c) = c"
  using span_stop [OF assms(1) _ assms(2)] symbol_stops by auto

lemma parse_string_print:
  assumes "valid_name s" "ends_with ''/=,'' c"
  shows "parse_string (print_str s @ c) = Inr (str_of s, c)"
proof (cases s)
  case (Bare t)
  then have "t \<noteq> [] \<and> hd t \<noteq> quote" "list_all is_symbol_char t" using assms(1) symbol_stops by (cases t; auto)+
  with Bare span_symbol [OF _ assms(2)] assms(2) show ?thesis by (simp add: parse_string_def parse_symbol_def)
next
  case (Quoted t)
  then show ?thesis using quoted_loop_esc [of t c "[]"] by (simp add: parse_string_def parse_quoted_string_def)
qed

lemma parse_value_print:
  assumes "valid_value s" "ends_with '',/'' c"
  shows "parse_value (print_str s @ c) = Inr (str_of s, c)"
proof (cases s)
  case (Bare t)
  have e: "ends_with ''/=,'' c" using assms(2) by (cases c) auto
  show ?thesis
  proof (cases "is_digit (hd t)")
    case True
    then show ?thesis using Bare assms span_digit [of t c] by (simp add: parse_value_def parse_number_def)
  next
    case False
    then have "t \<noteq> [] \<and> hd t \<noteq> quote" "list_all is_symbol_char t" using Bare assms(1) symbol_stops by (cases t; auto)+
    with False Bare span_symbol [OF _ e] e show ?thesis by (simp add: parse_value_def parse_symbol_def)
  qed
next
  case (Quoted t)
  then show ?thesis using quoted_loop_esc [of t c "[]"] symbol_stops by (simp add: parse_value_def parse_quoted_string_def)
qed

lemma print_str_head:
  "valid_name s \<or> valid_value s \<Longrightarrow> \<exists>x xs. print_str s = x # xs \<and> x \<noteq> CHR ''*'' \<and> x \<noteq> CHR ''/'' \<and> x \<noteq> CHR ''='' \<and> x \<noteq> CHR '',''"
proof (cases s)
  case (Bare t)
  moreover assume "valid_name s \<or> valid_value s"
  ultimately obtain x xs where "t = x # xs" "is_symbol_char x" using symbol_stops by (cases t) (auto split: if_splits)
  with Bare symbol_stops show ?thesis by auto
qed simp

lemma parse_attr_prop:
  assumes "valid_name (fst p)" "valid_value (snd p)" "ends_with '',/'' c"
  shows "parse_attr (print_prop p @ c) = Inr (prop_attr p, c)"
proof -
  obtain x xs where x: "print_str (fst p) = x # xs" "x \<noteq> CHR ''*''" using print_str_head assms(1) by blast
  obtain y ys where y: "print_str (snd p) = y # ys" "y \<noteq> CHR ''/''" "y \<noteq> CHR ''=''" "y \<noteq> CHR '',''" using print_str_head assms(2) by blast
  have "parse_string (print_str (fst p) @ CHR ''='' # print_str (snd p) @ c) = Inr (str_of (fst p), CHR ''='' # print_str (snd p) @ c)"
    by (rule parse_string_print [OF assms(1)]) simp
  moreover have "parse_value (print_str (snd p) @ c) = Inr (str_of (snd p), c)" by (rule parse_value_print [OF assms(2,3)])
  moreover have "\<not> (c \<noteq> [] \<and> hd c = CHR ''='')" using assms(3) by (cases c) auto
  ultimately show ?thesis using x y by (simp add: parse_attr_def parse_property_def print_prop_def prop_attr_def)
qed

lemma parse_attr_named:
  assumes "valid_name s" "ends_with ''/'' c"
  shows "parse_attr (print_str s @ c) = Inr (\<lparr>attr_name = None, attr_value = str_of s\<rparr>, c)"
proof -
  obtain x xs where x: "print_str s = x # xs" "x \<noteq> CHR ''*''" using print_str_head assms(1) by blast
  have "ends_with ''/=,'' c" "\<not> (c \<noteq> [] \<and> hd c = CHR ''='')" using assms(2) by (cases c; auto)+
  with parse_string_print [OF assms(1), of c] x show ?thesis by (auto simp: parse_attr_def parse_property_def)
qed

lemma parse_attr_star:
  "ends_with ''/'' c \<Longrightarrow> parse_attr (CHR ''*'' # c) = Inr (\<lparr>attr_name = None, attr_value = ''*''\<rparr>, c)"
  "ends_with ''/'' c \<Longrightarrow> parse_attr (CHR ''*'' # CHR ''*'' # c) = Inr (\<lparr>attr_name = None, attr_value = ''**''\<rparr>, c)"
  by (cases c; simp add: parse_attr_def parse_wildcard_def)+

text \<open>One attribute is read; what the loop does with the rest.\<close>

definition rest_loop :: "string \<Rightarrow> part \<Rightarrow> part list \<Rightarrow> (tcf_error option \<times> part list) option" where
  "rest_loop c attr attrs = (if c = [] then Some (None, attr # attrs) else parse_loop (tl c) [] (attr # attrs))"

lemma loop_attr:
  assumes "parse_attr q = Inr (a, c)" "q \<noteq> []" "c = [] \<or> (\<exists>d. c = CHR ''/'' # d \<and> \<not> ends_with ''/=,'' d)"
  shows "parse_loop q attr attrs = rest_loop c (a # attr) attrs"
proof (cases "c = []")
  case True
  then show ?thesis using assms by (subst parse_loop.simps) (simp add: rest_loop_def parse_loop.simps)
next
  case False
  then show ?thesis using assms by (subst parse_loop.simps) (auto simp: rest_loop_def)
qed

lemma join_head: "list_all (\<lambda>x. \<not> ends_with ''/=,'' x) xs \<Longrightarrow> xs \<noteq> [] \<Longrightarrow> \<not> ends_with ''/=,'' (join c xs)"
  by (induction c xs rule: join.induct) (auto simp: ends_with_def split: list.splits)

lemma print_prop_head: "valid_name (fst p) \<Longrightarrow> \<not> ends_with ''/=,'' (print_prop p)"
  using print_str_head [of "fst p"] by (auto simp: print_prop_def)

lemma loop_props:
  assumes "ps \<noteq> []" "list_all (\<lambda>(n, v). valid_name n \<and> valid_value v) ps" "c = [] \<or> (\<exists>d. c = CHR ''/'' # d \<and> \<not> ends_with ''/=,'' d)"
  shows "parse_loop (join CHR '','' (map print_prop ps) @ c) attr attrs = rest_loop c (rev (map prop_attr ps) @ attr) attrs"
  using assms(1,2)
proof (induction ps arbitrary: attr)
  case (Cons p ps)
  have v: "valid_name (fst p)" "valid_value (snd p)" using Cons.prems by auto
  have ne: "\<And>x. print_prop p @ x \<noteq> []" by (simp add: print_prop_def)
  show ?case
  proof (cases ps)
    case Nil
    have "ends_with '',/'' c" using assms(3) by auto
    with Nil loop_attr [OF parse_attr_prop [OF v] ne assms(3)] show ?thesis by simp
  next
    case (Cons p2 ps2)
    let ?d = "join CHR '','' (map print_prop ps) @ c"
    have "\<not> ends_with ''/=,'' (join CHR '','' (map print_prop ps))" using Cons.prems Cons print_prop_head
      by (intro join_head) (auto simp: list_all_iff)
    then have d: "\<not> ends_with ''/=,'' ?d" by (auto simp: ends_with_def split: list.splits)
    have "parse_attr (print_prop p @ CHR '','' # ?d) = Inr (prop_attr p, CHR '','' # ?d)" by (rule parse_attr_prop [OF v]) simp
    then have "parse_loop (print_prop p @ CHR '','' # ?d) attr attrs = parse_loop ?d (prop_attr p # attr) attrs"
      using d ne by (subst parse_loop.simps) simp
    with Cons.IH [of "prop_attr p # attr"] Cons.prems Cons show ?thesis by simp
  qed
qed simp

lemma loop_part:
  assumes "valid_part p" "c = [] \<or> (\<exists>d. c = CHR ''/'' # d \<and> \<not> ends_with ''/=,'' d)"
  shows "parse_loop (print_part p @ c) [] attrs = rest_loop c (part_attrs p) attrs"
proof -
  have e: "ends_with ''/'' c" using assms(2) by auto
  show ?thesis
  proof (cases p)
    case Star
    then show ?thesis using loop_attr [OF parse_attr_star(1) [OF e] _ assms(2)] by simp
  next
    case StarStar
    then show ?thesis using loop_attr [OF parse_attr_star(2) [OF e] _ assms(2)] by simp
  next
    case (Named s)
    then have "valid_name s" using assms(1) by simp
    moreover from this have "print_str s @ c \<noteq> []" using print_str_head [of s] by auto
    ultimately show ?thesis using Named loop_attr [OF parse_attr_named [OF _ e] _ assms(2)] by simp
  next
    case (Props ps)
    then show ?thesis using loop_props [of ps c "[]" attrs] assms by simp
  qed
qed

lemma print_part_head: "valid_part p \<Longrightarrow> \<not> ends_with ''/=,'' (print_part p)"
proof (cases p)
  case (Props ps)
  moreover assume "valid_part p"
  ultimately show ?thesis using print_prop_head by (simp, intro join_head) (auto simp: list_all_iff)
next
  case (Named s)
  moreover assume "valid_part p"
  ultimately show ?thesis using print_str_head [of s] by auto
qed simp_all

lemma loop_parts:
  "ps \<noteq> [] \<Longrightarrow> list_all valid_part ps \<Longrightarrow>
    parse_loop (join CHR ''/'' (map print_part ps)) [] attrs = Some (None, rev (map part_attrs ps) @ attrs)"
proof (induction ps arbitrary: attrs)
  case (Cons p ps)
  show ?case
  proof (cases ps)
    case Nil
    with Cons.prems loop_part [of p "[]" attrs] show ?thesis by (simp add: rest_loop_def)
  next
    case (Cons p2 ps2)
    let ?d = "join CHR ''/'' (map print_part ps)"
    have "\<not> ends_with ''/=,'' ?d" using Cons.prems Cons print_part_head by (intro join_head) (auto simp: list_all_iff)
    then have "parse_loop (print_part p @ CHR ''/'' # ?d) [] attrs = parse_loop ?d [] (part_attrs p # attrs)"
      using Cons.prems loop_part [of p "CHR ''/'' # ?d" attrs] by (simp add: rest_loop_def)
    with Cons.IH [of "part_attrs p # attrs"] Cons.prems Cons show ?thesis by simp
  qed
qed simp

lemma parse_print:
  assumes "ps \<noteq> []" "list_all valid_part ps"
  shows "parse_context_query (Some (print_query abs_path ps)) = Some (None, \<lparr>cq_attrs = rev (map part_attrs ps), cq_abs_path = abs_path\<rparr>)"
proof -
  let ?q = "join CHR ''/'' (map print_part ps)"
  have h: "\<not> ends_with ''/=,'' ?q" using assms print_part_head by (intro join_head) (auto simp: list_all_iff)
  then have n: "?q \<noteq> []" "hd ?q \<noteq> CHR ''/''" by (auto simp: ends_with_def split: list.splits)
  then show ?thesis using h loop_parts [OF assms, of "[]"] by (cases abs_path) (simp_all add: parse_context_query_def print_query_def Let_def)
qed

section \<open>What a query means\<close>

text \<open>
  A part stands for a sequence of contexts, from the top down: one context, or for \<open>**\<close> any number of them; only in the \<open>first\<close> part at least one.
\<close>

definition seg_ok :: "'x comparator list \<Rightarrow> bool \<Rightarrow> part \<Rightarrow> 'x list \<Rightarrow> bool" where
  "seg_ok cs first p xs \<longleftrightarrow> (if is_any p then first \<longrightarrow> xs \<noteq> [] else \<exists>x. xs = [x] \<and> list_all (match_attr cs x) p)"

text \<open>The same for several parts, from the context up, as the code goes.\<close>

fun segs_ok :: "'x comparator list \<Rightarrow> part list \<Rightarrow> 'x list \<Rightarrow> bool" where
  "segs_ok cs [] xs \<longleftrightarrow> False"
| "segs_ok cs [p] xs \<longleftrightarrow> seg_ok cs True p xs"
| "segs_ok cs (p # q # ps) xs \<longleftrightarrow> (\<exists>ys zs. xs = ys @ zs \<and> seg_ok cs False p ys \<and> segs_ok cs (q # ps) zs)"

lemma segs_not_empty: "segs_ok cs ps xs \<Longrightarrow> xs \<noteq> []"
  by (induction cs ps xs rule: segs_ok.induct) (auto simp: seg_ok_def split: if_splits)

lemma with_ancestors_iff: "z \<in> set (with_ancestors path) \<longleftrightarrow> z \<noteq> [] \<and> (\<exists>ys. path = ys @ z)"
  by (induction path) (auto simp: append_eq_Cons_conv Cons_eq_append_conv)

lemma match_segs:
  "path \<noteq> [] \<Longrightarrow> ps \<noteq> [] \<Longrightarrow> cq_match cs a ps path \<longleftrightarrow> (\<exists>xs rest. path = xs @ rest \<and> (a \<longrightarrow> rest = []) \<and> segs_ok cs ps xs)"
proof (induction ps arbitrary: path)
  case (Cons p ps)
  obtain x up where path: "path = x # up" using Cons.prems by (cases path) auto
  show ?case
  proof (cases ps)
    case Nil
    show ?thesis
    proof (cases "is_any p")
      case True
      then have "seg_ok cs True p path" using Cons.prems by (simp add: seg_ok_def)
      then show ?thesis using True Nil by (auto intro: exI [of _ path])
    next
      case False
      then have "(\<exists>xs rest. path = xs @ rest \<and> (a \<longrightarrow> rest = []) \<and> seg_ok cs True p xs) \<longleftrightarrow> (a \<longrightarrow> up = []) \<and> list_all (match_attr cs x) p"
        by (auto simp: path seg_ok_def intro: exI [of _ "[x]"])
      then show ?thesis using Nil False path by simp
    qed
  next
    case (Cons q qs)
    have ne: "ps \<noteq> []" using Cons by simp
    have IH: "z \<noteq> [] \<Longrightarrow> cq_match cs a ps z \<longleftrightarrow> (\<exists>xs rest. z = xs @ rest \<and> (a \<longrightarrow> rest = []) \<and> segs_ok cs ps xs)" for z
      using Cons.IH ne by simp
    have IH': "z \<noteq> [] \<and> cq_match cs a ps z \<longleftrightarrow> (\<exists>xs rest. z = xs @ rest \<and> (a \<longrightarrow> rest = []) \<and> segs_ok cs ps xs)" for z
      using IH [of z] segs_not_empty [of cs ps "[]"] by (cases "z = []") auto
    have s: "segs_ok cs (p # ps) xs \<longleftrightarrow> (\<exists>ys zs. xs = ys @ zs \<and> seg_ok cs False p ys \<and> segs_ok cs ps zs)" for xs by (simp add: Cons)
    show ?thesis
    proof (cases "is_any p")
      case True
      have "cq_match cs a (p # ps) path \<longleftrightarrow> (\<exists>z. (\<exists>ys. path = ys @ z) \<and> z \<noteq> [] \<and> cq_match cs a ps z)"
        using True ne by (simp add: list_ex_iff Bex_def with_ancestors_iff) blast
      also have "\<dots> \<longleftrightarrow> (\<exists>ys zs rest. path = ys @ zs @ rest \<and> (a \<longrightarrow> rest = []) \<and> segs_ok cs ps zs)" unfolding IH' by blast
      also have "\<dots> \<longleftrightarrow> (\<exists>xs rest. path = xs @ rest \<and> (a \<longrightarrow> rest = []) \<and> segs_ok cs (p # ps) xs)" (is "?l \<longleftrightarrow> ?r")
      proof
        assume ?l
        then obtain ys zs rest where "path = (ys @ zs) @ rest" "a \<longrightarrow> rest = []" "segs_ok cs ps zs" by auto
        moreover from this(3) have "segs_ok cs (p # ps) (ys @ zs)" using True by (auto simp: s seg_ok_def)
        ultimately show ?r by blast
      next
        assume ?r
        then obtain xs rest ys zs where "path = xs @ rest" "a \<longrightarrow> rest = []" "xs = ys @ zs" "segs_ok cs ps zs" unfolding s by blast
        then show ?l by (intro exI [of _ ys] exI [of _ zs] exI [of _ rest]) simp
      qed
      finally show ?thesis .
    next
      case False
      have "cq_match cs a (p # ps) path \<longleftrightarrow> up \<noteq> [] \<and> cq_match cs a ps up \<and> list_all (match_attr cs x) p"
        using False ne path by auto
      also have "\<dots> \<longleftrightarrow> (\<exists>xs rest. up = xs @ rest \<and> (a \<longrightarrow> rest = []) \<and> segs_ok cs ps xs) \<and> list_all (match_attr cs x) p"
        using IH' [of up] by blast
      also have "\<dots> \<longleftrightarrow> (\<exists>xs rest. path = xs @ rest \<and> (a \<longrightarrow> rest = []) \<and> segs_ok cs (p # ps) xs)" (is "?l \<longleftrightarrow> ?r")
      proof
        assume ?l
        then obtain zs rest where "up = zs @ rest" "a \<longrightarrow> rest = []" "segs_ok cs ps zs" "list_all (match_attr cs x) p" by blast
        moreover from this(3,4) have "segs_ok cs (p # ps) ([x] @ zs)"
          unfolding s using False by (intro exI [of _ "[x]"] exI [of _ zs]) (simp add: seg_ok_def)
        ultimately show ?r using path by (intro exI [of _ "[x] @ zs"] exI [of _ rest]) simp
      next
        assume ?r
        then obtain ys zs rest where "path = (ys @ zs) @ rest" "a \<longrightarrow> rest = []" "seg_ok cs False p ys" "segs_ok cs ps zs" unfolding s by blast
        moreover from this(1,3) have "ys = [x] \<and> list_all (match_attr cs x) p" using False path by (auto simp: seg_ok_def)
        ultimately show ?l using path by auto
      qed
      finally show ?thesis .
    qed
  qed
qed simp

text \<open>From the top down, with the sequences for the parts one after the other.\<close>

primrec parts_ok :: "'x comparator list \<Rightarrow> bool \<Rightarrow> part list \<Rightarrow> 'x list \<Rightarrow> bool" where
  "parts_ok cs first [] xs \<longleftrightarrow> xs = []"
| "parts_ok cs first (p # ps) xs \<longleftrightarrow> (\<exists>ys zs. xs = ys @ zs \<and> seg_ok cs first p ys \<and> parts_ok cs False ps zs)"

lemma parts_ok_snoc:
  "parts_ok cs first (ps @ [p]) xs \<longleftrightarrow> (\<exists>ys zs. xs = ys @ zs \<and> parts_ok cs first ps ys \<and> seg_ok cs (first \<and> ps = []) p zs)"
proof (induction ps arbitrary: first xs)
  case (Cons q ps)
  have "parts_ok cs first ((q # ps) @ [p]) xs \<longleftrightarrow> (\<exists>ys us vs. xs = ys @ us @ vs \<and> seg_ok cs first q ys \<and> parts_ok cs False ps us \<and> seg_ok cs False p vs)"
    by (auto simp: Cons.IH)
  then show ?case by (auto simp: append_assoc [symmetric] simp del: append_assoc)
qed simp

lemma seg_ok_rev: "seg_ok cs first p (rev xs) = seg_ok cs first p xs"
  by (auto simp: seg_ok_def)

lemma segs_parts: "ps \<noteq> [] \<Longrightarrow> segs_ok cs ps xs \<longleftrightarrow> parts_ok cs True (rev ps) (rev xs)"
proof (induction cs ps xs rule: segs_ok.induct)
  case (3 cs p q ps xs)
  have "segs_ok cs (p # q # ps) xs \<longleftrightarrow> (\<exists>ys zs. xs = ys @ zs \<and> seg_ok cs False p ys \<and> parts_ok cs True (rev (q # ps)) (rev zs))"
    using "3.IH" by (simp del: rev.simps)
  also have "\<dots> \<longleftrightarrow> (\<exists>us vs. rev xs = us @ vs \<and> parts_ok cs True (rev (q # ps)) us \<and> seg_ok cs False p vs)"
  proof safe
    fix us vs
    assume a: "rev xs = us @ vs" "parts_ok cs True (rev (q # ps)) us" "seg_ok cs False p vs"
    then have "xs = rev vs @ rev us" by (metis rev_append rev_rev_ident)
    with a show "\<exists>ys zs. xs = ys @ zs \<and> seg_ok cs False p ys \<and> parts_ok cs True (rev (q # ps)) (rev zs)"
      by (intro exI [of _ "rev vs"] exI [of _ "rev us"]) (simp add: seg_ok_rev del: rev.simps)
  qed (use seg_ok_rev rev_append in blast)
  finally show ?case using parts_ok_snoc [of cs True "rev (q # ps)" p "rev xs"] by simp
qed (auto simp: seg_ok_rev)

text \<open>The parts of the grammar and the sequences of contexts they stand for, from the top down.\<close>

primrec part_means :: "'x comparator list \<Rightarrow> bool \<Rightarrow> qpart \<Rightarrow> 'x list \<Rightarrow> bool" where
  "part_means cs first Star xs \<longleftrightarrow> (\<exists>x. xs = [x])"
| "part_means cs first StarStar xs \<longleftrightarrow> (first \<longrightarrow> xs \<noteq> [])"
| "part_means cs first (Named s) xs \<longleftrightarrow> (\<exists>x. xs = [x] \<and> match_attribute cs x ''Name'' (str_of s))"
| "part_means cs first (Props ps) xs \<longleftrightarrow> (\<exists>x. xs = [x] \<and> list_all (\<lambda>(n, v). match_attribute cs x (str_of n) (str_of v)) ps)"

primrec parts_mean :: "'x comparator list \<Rightarrow> bool \<Rightarrow> qpart list \<Rightarrow> 'x list \<Rightarrow> bool" where
  "parts_mean cs first [] xs \<longleftrightarrow> xs = []"
| "parts_mean cs first (p # ps) xs \<longleftrightarrow> (\<exists>ys zs. xs = ys @ zs \<and> part_means cs first p ys \<and> parts_mean cs False ps zs)"

definition no_wildcard_name :: "qpart \<Rightarrow> bool" where
  "no_wildcard_name p = (case p of Named s \<Rightarrow> str_of s \<noteq> ''*'' \<and> str_of s \<noteq> ''**'' | _ \<Rightarrow> True)"

lemma part_means_seg:
  assumes "valid_part p" "no_wildcard_name p"
  shows "seg_ok cs first (part_attrs p) xs = part_means cs first p xs"
proof (cases p)
  case (Props ps)
  with assms obtain n v qs where q: "ps = qs @ [(n, v)]" by (cases ps rule: rev_cases) auto
  then have "\<not> is_any (part_attrs p)" by (simp add: is_any_def Props prop_attr_def)
  moreover have "list_all (match_attr cs x) (part_attrs p) = list_all (\<lambda>(n, v). match_attribute cs x (str_of n) (str_of v)) ps" for x
    by (auto simp: Props list_all_iff match_attr_def prop_attr_def)
  ultimately show ?thesis by (simp add: Props seg_ok_def)
qed (use assms in \<open>auto simp: seg_ok_def is_any_def match_attr_def no_wildcard_name_def\<close>)

lemma parts_mean_ok:
  "list_all (\<lambda>p. valid_part p \<and> no_wildcard_name p) ps \<Longrightarrow> parts_ok cs first (map part_attrs ps) xs = parts_mean cs first ps xs"
  by (induction ps arbitrary: first xs) (simp_all add: part_means_seg)

section \<open>Properties\<close>


definition demo_comparators :: "string comparator list" where
  "demo_comparators = [(''Name'', \<lambda>key ctx v. ctx = v)]"


text \<open>
  Texts the grammar does not have. \<open>context_query\<close> ignores that the parser reports an error and uses what was parsed before it: a text whose
  first part is wrong matches every context. Two strings in quotes need no comma between them, and a wildcard in quotes is still a wildcard.
\<close>

theorem invalid_query_matches:
  "parse_context_query (Some ''('') = Some (Some ERR_OTHER, \<lparr>cq_attrs = [], cq_abs_path = False\<rparr>) \<and>
   context_query cs (Some ''('') path = Some True \<and>
   parse_context_query (Some ([quote] @ ''a'' @ [quote] @ ''b'')) = parse_context_query (Some ''a,b'') \<and>
   parse_context_query (Some [quote, CHR ''*'', quote]) = parse_context_query (Some ''*'')"
  by (simp add: parse_context_query_def context_query_def run_context_query_ext_def parse_loop.simps parse_attr_def parse_property_def
    parse_string_def parse_symbol_def parse_quoted_string_def parse_wildcard_def is_symbol_char_def is_digit_def Let_def)

text \<open>
  The part \<open>**\<close> stands for any sequence of contexts. At the end of a query it stands for none: the server itself matches what the
  comment says are its descendants. At the start it does not: a context at the top of the tree does not match the query for its name at any depth.
\<close>

theorem any_sequence_uneven:
  assumes "match_attribute cs x ''Name'' ''a''"
  shows "context_query cs (Some ''/a/**'') [x] = Some True \<and> context_query cs (Some ''/**/a'') [x] = Some False \<and>
    context_query cs (Some ''/**/a'') [x, y] = Some True"
  using assms by (simp add: parse_context_query_def context_query_def run_context_query_ext_def parse_loop.simps parse_attr_def parse_property_def
    parse_string_def parse_symbol_def parse_wildcard_def is_symbol_char_def is_digit_def Let_def match_attr_def is_any_def)

theorem any_sequence_uneven_witness:
  "context_query demo_comparators (Some ''/a/**'') [''a''] = Some True \<and> context_query demo_comparators (Some ''/**/a'') [''a''] = Some False"
proof -
  have "match_attribute demo_comparators ''a'' ''Name'' ''a''" by (simp add: demo_comparators_def match_attribute_def to_lower_def)
  from any_sequence_uneven [OF this] show ?thesis by simp
qed

end
