(* ===== verification/StateExc.thy ===== *)
theory StateExc
  imports Prelude
begin

text \<open>
  C code that works on a state and can raise exceptions (type \<open>sx\<close>): a function from the state to a result and the next state. A result is a value or
  a fault. The fault \<open>Exc\<close> is an exception, which a trap of the agent can catch (\<open>set_trap\<close>, src/agent/tcf/framework/exceptions.h); the others end the agent or
  leave it in an unknown state: an assertion that fails, a \<open>NULL\<close> pointer that is used, an access outside of an array, arithmetic that C does not define
  (a shift by the width of the type or more, a division by zero), a loop that does not end.
\<close>

datatype fault = Exc tcf_error | AssertFailed | NullPointer | OutOfBounds | BadArith | Hangs

type_synonym ('s, 'a) sx = "'s \<Rightarrow> (fault + 'a) \<times> 's"

definition ret :: "'a \<Rightarrow> ('s, 'a) sx" where "ret x s = (Inr x, s)"

definition fail :: "fault \<Rightarrow> ('s, 'a) sx" where "fail e s = (Inl e, s)"

definition bindP :: "('s, 'a) sx \<Rightarrow> ('a \<Rightarrow> ('s, 'b) sx) \<Rightarrow> ('s, 'b) sx" where
  "bindP m f s = (case m s of (Inl e, t) \<Rightarrow> (Inl e, t) | (Inr x, t) \<Rightarrow> f x t)"

definition asserts :: "bool \<Rightarrow> ('s, unit) sx" where
  "asserts b = (if b then ret () else fail AssertFailed)"

definition getP :: "('s \<Rightarrow> 'a) \<Rightarrow> ('s, 'a) sx" where "getP f s = (Inr (f s), s)"

definition modP :: "('s \<Rightarrow> 's) \<Rightarrow> ('s, unit) sx" where "modP f s = (Inr (), f s)"

text \<open>\<open>set_trap\<close>: an exception is caught, another fault is not.\<close>

definition catch :: "('s, 'a) sx \<Rightarrow> (tcf_error \<Rightarrow> ('s, 'a) sx) \<Rightarrow> ('s, 'a) sx" where
  "catch m h s = (case m s of (Inl (Exc e), t) \<Rightarrow> h e t | r \<Rightarrow> r)"

definition liftE :: "'a result \<Rightarrow> ('s, 'a) sx" where
  "liftE r = (case r of Inl e \<Rightarrow> fail (Exc e) | Inr x \<Rightarrow> ret x)"

named_theorems pm_simps \<open>evaluation of code on a state\<close>

lemma bindP_simps [simp]:
  "bindP (ret x) f = f x" "bindP (fail e) f = fail e" "bindP (bindP m f) g = bindP m (\<lambda>x. bindP (f x) g)"
  by (auto simp: bindP_def ret_def fail_def fun_eq_iff split: prod.splits sum.splits)

lemma bindP_getP [pm_simps]: "bindP (getP g) f s = f (g s) s"
  by (simp add: bindP_def getP_def)

lemma bindP_modP [pm_simps]: "bindP (modP g) f s = f () (g s)"
  by (simp add: bindP_def modP_def)

lemma bindP_Inr: "m s = (Inr x, t) \<Longrightarrow> bindP m f s = f x t"
  by (simp add: bindP_def)

lemma bindP_Inl: "m s = (Inl e, t) \<Longrightarrow> bindP m f s = (Inl e, t)"
  by (simp add: bindP_def)

lemma bindP_Inr_iff: "bindP m f s = (Inr y, t) \<longleftrightarrow> (\<exists>x u. m s = (Inr x, u) \<and> f x u = (Inr y, t))"
  by (auto simp: bindP_def split: prod.splits sum.splits)

lemma liftE_simps [simp]: "liftE (Inl e) = fail (Exc e)" "liftE (Inr x) = ret x"
  by (simp_all add: liftE_def)

section \<open>Loops\<close>

text \<open>A loop over the elements of a list.\<close>

fun for_each :: "('b \<Rightarrow> ('s, unit) sx) \<Rightarrow> 'b list \<Rightarrow> ('s, unit) sx" where
  "for_each f [] = ret ()"
| "for_each f (x # xs) = bindP (f x) (\<lambda>_. for_each f xs)"

text \<open>A \<open>while\<close> loop; \<open>None\<close> when it does not end.\<close>

partial_function (option) while_sx :: "('s \<Rightarrow> bool) \<Rightarrow> ('s, unit) sx \<Rightarrow> 's \<Rightarrow> ((fault + unit) \<times> 's) option" where
  "while_sx c body s =
     (if c s then (case body s of (Inl e, t) \<Rightarrow> Some (Inl e, t) | (Inr _, t) \<Rightarrow> while_sx c body t) else Some (Inr (), s))"

declare while_sx.simps [code]

definition loopP :: "('s \<Rightarrow> bool) \<Rightarrow> ('s, unit) sx \<Rightarrow> ('s, unit) sx" where
  "loopP c body s = (case while_sx c body s of None \<Rightarrow> (Inl Hangs, s) | Some r \<Rightarrow> r)"

lemma while_sx_ends:
  fixes m :: "'s \<Rightarrow> nat"
  assumes "I s" "\<And>s t. I s \<Longrightarrow> c s \<Longrightarrow> body s = (Inr (), t) \<Longrightarrow> I t \<and> m t < m s"
  shows "\<exists>r. while_sx c body s = Some r"
  using assms(1)
proof (induction s rule: measure_induct_rule [of m])
  case (less s)
  show ?case
  proof (cases "c s \<and> fst (body s) = Inr ()")
    case True
    then obtain t where t: "body s = (Inr (), t)" by (cases "body s") auto
    with assms(2) less.prems True have "I t" "m t < m s" by blast+
    with less.IH obtain r where "while_sx c body t = Some r" by blast
    with t True show ?thesis by (subst while_sx.simps) simp
  next
    case False
    then show ?thesis by (subst while_sx.simps) (auto split: prod.splits sum.splits)
  qed
qed

lemma while_sx_hangs:
  assumes "I s" "\<And>s. I s \<Longrightarrow> c s \<and> (\<exists>t. body s = (Inr (), t) \<and> I t)"
  shows "while_sx c body s = None"
proof -
  have "\<not> (c' = c \<and> body' = body \<and> I s')" if "while_sx c' body' s' = Some r" for c' body' s' r
  proof (rule while_sx.raw_induct [OF _ that, where P = "\<lambda>c' body' s' r. \<not> (c' = c \<and> body' = body \<and> I s')"], rule notI, goal_cases)
    case (1 loop c' body' s' r)
    with assms(2) obtain t where "c s'" "body s' = (Inr (), t)" "I t" by blast
    with 1 show False by auto
  qed
  with assms(1) show ?thesis by (cases "while_sx c body s") blast+
qed

lemma loopP_step: "loopP c body s = (if c s then (case body s of (Inl e, t) \<Rightarrow> (Inl e, t)
    | (Inr _, t) \<Rightarrow> (case while_sx c body t of None \<Rightarrow> (Inl Hangs, s) | Some r \<Rightarrow> r)) else (Inr (), s))"
  unfolding loopP_def by (subst while_sx.simps) (auto split: prod.splits sum.splits)

lemmas [pm_simps] = ret_def fail_def getP_def modP_def asserts_def

end
