(* ===== verification/TcfProtocol.thy ===== *)
theory TcfProtocol
  imports StateExc JsonRead JsonWrite
begin

text \<open>
  The TCF protocol: src/agent/tcf/framework/protocol.c. Services register handlers for commands and events; messages that arrive on a channel are read up
  to their arguments and given to the handler they are for. Commands that the agent itself sends carry a token, by which the reply finds
  its handler.

  All C code below runs in the event dispatch thread, on one state: the tables, the protocols and the channels (see theory StateExc for how code
  on a state is written).

  Handlers are code of other components. A handler together with its client data is a value of type \<open>'h\<close>; the functions here take an argument
  \<open>run\<close> that says what a call does. The calls are logged. When a reader raises an exception the rest of the input does not matter,
  because the channel is closed then; it is left as it was. \<open>addr\<close> gives the addresses that the hash functions use. The texts of traces are not kept.
\<close>

unbundle bit_operations_syntax

section \<open>State\<close>

datatype ChannelState = ChannelStateStartWait | ChannelStateStarted | ChannelStateHelloSent | ChannelStateHelloReceived
  | ChannelStateConnected | ChannelStateRedirectSent | ChannelStateRedirectReceived | ChannelStateDisconnected

datatype 'c owner = OwnerProtocol nat | OwnerChannel 'c

record ('c, 'h) MessageHandlerInfo =
  mh_p :: nat
  mh_service :: "byte list"
  mh_name :: "byte list"
  mh_handler :: 'h

record ('c, 'h) EventHandlerInfo =
  eh_c :: 'c
  eh_service :: "byte list"
  eh_name :: "byte list"
  eh_handler :: 'h

record ('c, 'h) ReplyHandlerInfo =
  rh_addr :: nat
  rh_tokenid :: u64
  rh_c :: 'c
  rh_handler :: "'h option"
  rh_progress :: "'h option"

record 'h Protocol =
  pr_lock_cnt :: nat
  pr_tokenid :: u64
  pr_default_handler :: "'h option"

record Channel =
  ch_inp :: istream
  ch_out :: ostream
  ch_zero_copy :: bool
  ch_protocol :: nat
  ch_peer_services :: "byte list list option"
  ch_congestion_level :: "32 word"
  ch_state :: ChannelState
  ch_disable_zero_copy :: bool
  ch_closed :: bool

text \<open>A call of a handler. Exactly one of the first five is made for a message.\<close>

datatype ('c, 'h) call =
    CommandCall 'h "byte list" 'c
  | ReplyCall 'h 'c "tcf_error option"
  | ProgressCall 'h 'c
  | EventCall 'h 'c
  | DefaultCall 'h 'c "byte list list"
  | OpenedCall 'c

record ('c, 'h) ps =
  ps_services :: "('c owner \<times> byte list) list"
  ps_message_handlers :: "nat \<Rightarrow> ('c, 'h) MessageHandlerInfo list"
  ps_event_handlers :: "nat \<Rightarrow> ('c, 'h) EventHandlerInfo list"
  ps_reply_handlers :: "nat \<Rightarrow> ('c, 'h) ReplyHandlerInfo list"
  ps_protocols :: "nat \<Rightarrow> 'h Protocol option"
  ps_proto_cnt :: nat
  ps_channels :: "'c \<Rightarrow> Channel"
  ps_failed :: "('c, 'h) ReplyHandlerInfo list"
  ps_next_addr :: nat
  ps_calls :: "('c, 'h) call list"

type_synonym ('c, 'h, 'a) pm = "(('c, 'h) ps, 'a) sx"
type_synonym ('c, 'h) runner = "('c, 'h) call \<Rightarrow> ('c, 'h, unit) pm"

section \<open>Sequences\<close>

text \<open>A handler is called with a trap set; nothing is done with the exception.\<close>

definition trapped :: "('c, 'h, unit) pm \<Rightarrow> ('c, 'h, unit) pm" where
  "trapped m = catch m (\<lambda>_. ret ())"

definition channel :: "'c \<Rightarrow> ('c, 'h, Channel) pm" where
  "channel c = getP (\<lambda>s. ps_channels s c)"

definition set_channel :: "'c \<Rightarrow> (Channel \<Rightarrow> Channel) \<Rightarrow> ('c, 'h, unit) pm" where
  "set_channel c f = modP (\<lambda>s. s\<lparr>ps_channels := (ps_channels s)(c := f (ps_channels s c))\<rparr>)"

text \<open>Reading from and writing to a channel.\<close>

definition reads :: "'c \<Rightarrow> (istream \<Rightarrow> 'a \<times> istream) \<Rightarrow> ('c, 'h, 'a) pm" where
  "reads c f = bindP (channel c) (\<lambda>ch. case f (ch_inp ch) of (x, i) \<Rightarrow> bindP (set_channel c (ch_inp_update (\<lambda>_. i))) (\<lambda>_. ret x))"

definition parses :: "'c \<Rightarrow> (istream \<Rightarrow> ('a \<times> istream) result) \<Rightarrow> ('c, 'h, 'a) pm" where
  "parses c f = bindP (channel c) (\<lambda>ch. case f (ch_inp ch) of
     Inl e \<Rightarrow> fail (Exc e) | Inr (x, i) \<Rightarrow> bindP (set_channel c (ch_inp_update (\<lambda>_. i))) (\<lambda>_. ret x))"

definition writes :: "'c \<Rightarrow> (ostream \<Rightarrow> ostream) \<Rightarrow> ('c, 'h, unit) pm" where
  "writes c f = set_channel c (\<lambda>ch. ch\<lparr>ch_out := f (ch_out ch)\<rparr>)"

definition out_stringz :: "byte list \<Rightarrow> ostream \<Rightarrow> ostream" where
  "out_stringz str out = write_stream (write_block_stream out str) 0"

definition ascii :: "string \<Rightarrow> byte list" where
  "ascii str = map (\<lambda>x. of_nat (of_char x)) str"

fun stringz_loop :: "nat \<Rightarrow> byte list \<Rightarrow> istream \<Rightarrow> (byte list \<times> istream) result" where
  "stringz_loop sz str [] = Inl ERR_PROTOCOL"
| "stringz_loop sz str (ch # inp) =
     (if ch \<le> 0 then (if ch = 0 then Inr (str, inp) else Inl ERR_PROTOCOL)
      else stringz_loop sz (if length str < sz - 1 then str @ [sym_byte ch] else str) inp)"

definition read_stringz :: "'c \<Rightarrow> nat \<Rightarrow> ('c, 'h, byte list) pm" where
  "read_stringz c sz = parses c (stringz_loop sz [])"

fun skip_loop :: "istream \<Rightarrow> istream" where
  "skip_loop [] = []"
| "skip_loop (ch # inp) = (if ch = MARKER_EOM \<or> ch = MARKER_EOS then inp else skip_loop inp)"

definition skip_until_EOM :: "'c \<Rightarrow> ('c, 'h, unit) pm" where
  "skip_until_EOM c = reads c (\<lambda>inp. ((), skip_loop inp))"

section \<open>Tables\<close>

definition MEM_USAGE_FACTOR :: nat where "MEM_USAGE_FACTOR = 128"
definition MESSAGE_HASH_SIZE :: nat where "MESSAGE_HASH_SIZE = 5 * MEM_USAGE_FACTOR - 1"
definition EVENT_HASH_SIZE :: nat where "EVENT_HASH_SIZE = 4 * MEM_USAGE_FACTOR - 1"
definition REPLY_HASH_SIZE :: nat where "REPLY_HASH_SIZE = 4 * MEM_USAGE_FACTOR - 1"

definition text_hash :: "nat \<Rightarrow> u64 \<Rightarrow> byte list \<Rightarrow> byte list \<Rightarrow> nat" where
  "text_hash n a service name =
     (let h = fold (\<lambda>b h. h + signed b) (service @ name) (drop_bit 4 (ucast a :: u32))
      in unat ((h + h div of_nat n) mod of_nat n))"

definition message_hash :: "('c owner \<Rightarrow> u64) \<Rightarrow> nat \<Rightarrow> byte list \<Rightarrow> byte list \<Rightarrow> nat" where
  "message_hash addr p service name = text_hash MESSAGE_HASH_SIZE (addr (OwnerProtocol p)) service name"

definition event_hash :: "('c owner \<Rightarrow> u64) \<Rightarrow> 'c \<Rightarrow> byte list \<Rightarrow> byte list \<Rightarrow> nat" where
  "event_hash addr c service name = text_hash EVENT_HASH_SIZE (addr (OwnerChannel c)) service name"

definition reply_hash :: "('c owner \<Rightarrow> u64) \<Rightarrow> 'c \<Rightarrow> u64 \<Rightarrow> nat" where
  "reply_hash addr c tokenid = unat ((drop_bit 4 (ucast (addr (OwnerChannel c)) :: u32) + ucast tokenid) mod of_nat REPLY_HASH_SIZE)"

definition find_message_handler :: "('c owner \<Rightarrow> u64) \<Rightarrow> nat \<Rightarrow> byte list \<Rightarrow> byte list \<Rightarrow> ('c, 'h) ps \<Rightarrow> ('c, 'h) MessageHandlerInfo option" where
  "find_message_handler addr p service name s =
     find (\<lambda>mh. mh_p mh = p \<and> mh_service mh = service \<and> mh_name mh = name) (ps_message_handlers s (message_hash addr p service name))"

definition find_event_handler :: "('c owner \<Rightarrow> u64) \<Rightarrow> 'c \<Rightarrow> byte list \<Rightarrow> byte list \<Rightarrow> ('c, 'h) ps \<Rightarrow> ('c, 'h) EventHandlerInfo option" where
  "find_event_handler addr c service name s =
     find (\<lambda>eh. eh_c eh = c \<and> eh_service eh = service \<and> eh_name eh = name) (ps_event_handlers s (event_hash addr c service name))"

definition is_reply_for :: "'c \<Rightarrow> u64 \<Rightarrow> ('c, 'h) ReplyHandlerInfo \<Rightarrow> bool" where
  "is_reply_for c tokenid rh \<longleftrightarrow> rh_c rh = c \<and> rh_tokenid rh = tokenid"

text \<open>\<open>find_reply_handler\<close>: what is found, and the state with it taken out of the list if it is to be.\<close>

fun remove_first :: "('a \<Rightarrow> bool) \<Rightarrow> 'a list \<Rightarrow> 'a list" where
  "remove_first P [] = []"
| "remove_first P (x # xs) = (if P x then xs else x # remove_first P xs)"

definition find_reply_handler :: "('c owner \<Rightarrow> u64) \<Rightarrow> 'c \<Rightarrow> u64 \<Rightarrow> bool \<Rightarrow> ('c, 'h, ('c, 'h) ReplyHandlerInfo option) pm" where
  "find_reply_handler addr c tokenid taken =
     (let h = reply_hash addr c tokenid in
      bindP (getP (\<lambda>s. find (is_reply_for c tokenid) (ps_reply_handlers s h))) (\<lambda>r.
      bindP (if taken then modP (\<lambda>s. s\<lparr>ps_reply_handlers := (ps_reply_handlers s)(h := remove_first (is_reply_for c tokenid) (ps_reply_handlers s h))\<rparr>)
             else ret ()) (\<lambda>_. ret r)))"

definition protocol_get_service :: "'c owner \<Rightarrow> byte list \<Rightarrow> ('c, 'h, unit) pm" where
  "protocol_get_service owner name =
     bindP (getP (\<lambda>s. (owner, name) \<in> set (ps_services s))) (\<lambda>known.
       if known then ret ()
       else bindP (asserts (name \<noteq> ascii ''ZeroCopy'')) (\<lambda>_. modP (\<lambda>s. s\<lparr>ps_services := (owner, name) # ps_services s\<rparr>)))"

definition free_services :: "'c owner \<Rightarrow> ('c, 'h, unit) pm" where
  "free_services owner = modP (\<lambda>s. s\<lparr>ps_services := filter (\<lambda>x. fst x \<noteq> owner) (ps_services s)\<rparr>)"

section \<open>Registration\<close>

definition set_default_message_handler2 :: "nat \<Rightarrow> 'h option \<Rightarrow> ('c, 'h, unit) pm" where
  "set_default_message_handler2 p handler =
     modP (\<lambda>s. s\<lparr>ps_protocols := (ps_protocols s)(p := map_option (\<lambda>x. x\<lparr>pr_default_handler := handler\<rparr>) (ps_protocols s p))\<rparr>)"

definition add_command_handler2 :: "('c owner \<Rightarrow> u64) \<Rightarrow> nat \<Rightarrow> byte list \<Rightarrow> byte list \<Rightarrow> 'h \<Rightarrow> ('c, 'h, unit) pm" where
  "add_command_handler2 addr p service name handler =
     bindP (protocol_get_service (OwnerProtocol p) service) (\<lambda>_.
       modP (\<lambda>s. let h = message_hash addr p service name in
         s\<lparr>ps_message_handlers := (ps_message_handlers s)(h := \<lparr>mh_p = p, mh_service = service, mh_name = name, mh_handler = handler\<rparr> #
           ps_message_handlers s h)\<rparr>))"

definition add_event_handler2 :: "('c owner \<Rightarrow> u64) \<Rightarrow> 'c \<Rightarrow> byte list \<Rightarrow> byte list \<Rightarrow> 'h \<Rightarrow> ('c, 'h, unit) pm" where
  "add_event_handler2 addr c service name handler =
     bindP (protocol_get_service (OwnerChannel c) service) (\<lambda>_.
       modP (\<lambda>s. let h = event_hash addr c service name in
         s\<lparr>ps_event_handlers := (ps_event_handlers s)(h := \<lparr>eh_c = c, eh_service = service, eh_name = name, eh_handler = handler\<rparr> #
           ps_event_handlers s h)\<rparr>))"

section \<open>Sending commands\<close>

text \<open>The loop for the next token that is not in use; \<open>None\<close> when it does not end.\<close>

partial_function (option) token_loop :: "(u64 \<Rightarrow> bool) \<Rightarrow> u64 \<Rightarrow> (u64 \<times> u64) option" where
  "token_loop used t = (if used t then token_loop used (t + 1) else Some (t, t + 1))"

definition token_used :: "('c owner \<Rightarrow> u64) \<Rightarrow> 'c \<Rightarrow> ('c, 'h) ps \<Rightarrow> u64 \<Rightarrow> bool" where
  "token_used addr c s t \<longleftrightarrow> find (is_reply_for c t) (ps_reply_handlers s (reply_hash addr c t)) \<noteq> None"

definition the_protocol :: "'c \<Rightarrow> ('c, 'h, 'h Protocol) pm" where
  "the_protocol c = bindP (channel c) (\<lambda>ch. bindP (getP (\<lambda>s. ps_protocols s (ch_protocol ch))) (\<lambda>p.
     case p of None \<Rightarrow> fail NullPointer | Some x \<Rightarrow> ret x))"

definition new_addr :: "('c, 'h, nat) pm" where
  "new_addr s = (Inr (ps_next_addr s), s\<lparr>ps_next_addr := ps_next_addr s + 1\<rparr>)"

definition protocol_send_command_with_progress ::
  "('c owner \<Rightarrow> u64) \<Rightarrow> 'c \<Rightarrow> byte list \<Rightarrow> byte list \<Rightarrow> 'h option \<Rightarrow> 'h option \<Rightarrow> ('c, 'h, ('c, 'h) ReplyHandlerInfo) pm" where
  "protocol_send_command_with_progress addr c service name handler progress =
     bindP (the_protocol c) (\<lambda>p. bindP new_addr (\<lambda>a. bindP (channel c) (\<lambda>ch.
       let rh = \<lparr>rh_addr = a, rh_tokenid = 0, rh_c = c, rh_handler = handler, rh_progress = progress\<rparr> in
       if ch_closed ch \<or> ch_peer_services ch = None
       then bindP (modP (\<lambda>s. s\<lparr>ps_failed := ps_failed s @ [rh]\<rparr>)) (\<lambda>_. ret rh)
       else bindP (getP (\<lambda>s. token_loop (token_used addr c s) (pr_tokenid p))) (\<lambda>r.
         case r of
           None \<Rightarrow> fail Hangs
         | Some (t, next_t) \<Rightarrow>
             let rh1 = rh\<lparr>rh_tokenid := t\<rparr>; h = reply_hash addr c t in
             bindP (modP (\<lambda>s. s\<lparr>ps_protocols := (ps_protocols s)(ch_protocol ch \<mapsto> p\<lparr>pr_tokenid := next_t\<rparr>)\<rparr>)) (\<lambda>_.
             bindP (writes c (out_stringz (ascii ''C''))) (\<lambda>_.
             bindP (writes c (\<lambda>out. write_stream (json_write_ulong out t) 0)) (\<lambda>_.
             bindP (writes c (out_stringz service)) (\<lambda>_.
             bindP (writes c (out_stringz name)) (\<lambda>_.
             bindP (modP (\<lambda>s. s\<lparr>ps_reply_handlers := (ps_reply_handlers s)(h := rh1 # ps_reply_handlers s h)\<rparr>)) (\<lambda>_. ret rh1))))))))))"

definition call :: "('c, 'h) runner \<Rightarrow> ('c, 'h) call \<Rightarrow> ('c, 'h, unit) pm" where
  "call run x = bindP (modP (\<lambda>s. s\<lparr>ps_calls := ps_calls s @ [x]\<rparr>)) (\<lambda>_. run x)"

text \<open>The event \<open>send_command_failed\<close> for the command that failed first.\<close>

definition send_command_failed :: "('c, 'h) runner \<Rightarrow> ('c, 'h, unit) pm" where
  "send_command_failed run =
     bindP (getP ps_failed) (\<lambda>q.
       case q of
         [] \<Rightarrow> ret ()
       | rh # rest \<Rightarrow>
           bindP (modP (\<lambda>s. s\<lparr>ps_failed := rest\<rparr>)) (\<lambda>_.
             case rh_handler rh of None \<Rightarrow> ret () | Some h \<Rightarrow> call run (ReplyCall h (rh_c rh) (Some ERR_CHANNEL_CLOSED))))"

section \<open>Hello\<close>

definition connect_done :: "('c, 'h) runner \<Rightarrow> 'c \<Rightarrow> ('c, 'h, unit) pm" where
  "connect_done run c =
     bindP (channel c) (\<lambda>ch. bindP (asserts (ch_state ch = ChannelStateConnected)) (\<lambda>_. call run (OpenedCall c)))"

fun write_names :: "bool \<Rightarrow> byte list list \<Rightarrow> ostream \<Rightarrow> ostream" where
  "write_names comma [] out = out"
| "write_names comma (n # ns) out =
     write_names True ns (json_write_string (if comma then write_stream out (chr CHR '','') else out) (Some n))"

definition service_names :: "'c owner \<Rightarrow> ('c, 'h) ps \<Rightarrow> byte list list" where
  "service_names owner s = map snd (filter (\<lambda>x. fst x = owner) (ps_services s))"

definition send_hello_message :: "('c, 'h) runner \<Rightarrow> 'c \<Rightarrow> ('c, 'h, unit) pm" where
  "send_hello_message run c =
     bindP (channel c) (\<lambda>ch.
     bindP (asserts (ch_state ch = ChannelStateStarted \<or> ch_state ch = ChannelStateHelloReceived)) (\<lambda>_.
     bindP (writes c (\<lambda>out. out_stringz (ascii ''Hello'') (out_stringz (ascii ''Locator'') (out_stringz (ascii ''E'') out)))) (\<lambda>_.
     bindP (getP (service_names (OwnerProtocol (ch_protocol ch)))) (\<lambda>names.
     bindP (writes c (\<lambda>out.
       let out1 = write_stream out (chr CHR ''['');
           out2 = (if ch_disable_zero_copy ch then out1 else json_write_string out1 (Some (ascii ''ZeroCopy'')));
           out3 = write_names (\<not> ch_disable_zero_copy ch) names out2
       in write_stream (write_stream (write_stream out3 (chr CHR '']'')) 0) MARKER_EOM)) (\<lambda>_.
     if ch_state ch = ChannelStateStarted then set_channel c (ch_state_update (\<lambda>_. ChannelStateHelloSent))
     else bindP (set_channel c (ch_state_update (\<lambda>_. ChannelStateConnected))) (\<lambda>_. connect_done run c))))))"

lemma alloc_string_length: "json_read_alloc_string inp = Inr (x, inp1) \<Longrightarrow> length inp1 < length inp"
  by (auto simp: json_read_alloc_string_def Let_def bindE_Inr_iff chr_def split: prod.splits if_splits
    dest!: read_no_whitespace_length json_test_char_length read_string_chars_length)

lemma no_whitespace_le: "length (snd (read_no_whitespace inp)) \<le> length inp"
  by (induction inp) auto

text \<open>The loop over the service names, without a name that is \<open>null\<close>: \<open>strcmp\<close> would use a \<open>NULL\<close> pointer.\<close>

function hello_loop :: "byte list list \<Rightarrow> istream \<Rightarrow> fault + byte list list \<times> istream" where
  "hello_loop names inp =
     (case json_read_alloc_string inp of
        Inl e \<Rightarrow> Inl (Exc e)
      | Inr (None, inp1) \<Rightarrow> Inl NullPointer
      | Inr (Some n, inp1) \<Rightarrow>
          (case read_no_whitespace inp1 of (ch, inp2) \<Rightarrow>
             if ch = chr CHR '','' then hello_loop (names @ [n]) inp2
             else if ch = chr CHR '']'' then Inr (names @ [n], inp2)
             else Inl (Exc ERR_JSON_SYNTAX)))"
  by pat_completeness auto
termination
proof (relation "measure (length \<circ> snd)", goal_cases)
  case 2
  then show ?case by (auto dest!: alloc_string_length arg_cong [of _ _ snd] simp: le_less_trans [OF no_whitespace_le])
qed simp

declare hello_loop.simps [simp del]

definition hello_names :: "istream \<Rightarrow> fault + byte list list option \<times> istream" where
  "hello_names inp =
     (case read_no_whitespace inp of (ch, inp1) \<Rightarrow>
        if ch \<noteq> chr CHR ''['' then Inl (Exc ERR_PROTOCOL)
        else if peek_stream inp1 = chr CHR '']'' then Inr (None, snd (read_stream inp1))
        else bindE (hello_loop [] inp1) (\<lambda>(ns, inp2). Inr (Some ns, inp2)))"

definition event_locator_hello :: "('c, 'h) runner \<Rightarrow> 'c \<Rightarrow> ('c, 'h, unit) pm" where
  "event_locator_hello run c =
     bindP (set_channel c (ch_zero_copy_update (\<lambda>_. False))) (\<lambda>_.
     bindP (channel c) (\<lambda>ch.
       case hello_names (ch_inp ch) of
         Inl e \<Rightarrow> fail e
       | Inr (names, inp1) \<Rightarrow>
           bindP (set_channel c (\<lambda>x. x\<lparr>ch_inp := inp1, ch_zero_copy := (case names of None \<Rightarrow> False | Some ns \<Rightarrow> ascii ''ZeroCopy'' \<in> set ns)\<rparr>)) (\<lambda>_.
           bindP (reads c read_stream) (\<lambda>x.
             if x \<noteq> 0 then fail (Exc ERR_JSON_SYNTAX)
             else bindP (reads c read_stream) (\<lambda>y.
               if y \<noteq> MARKER_EOM then fail (Exc ERR_JSON_SYNTAX)
               else if ch_state ch \<noteq> ChannelStateStarted \<and> ch_state ch \<noteq> ChannelStateHelloSent then ret ()
               else bindP (set_channel c (ch_peer_services_update (\<lambda>_. names))) (\<lambda>_.
                 if ch_state ch = ChannelStateStarted then set_channel c (ch_state_update (\<lambda>_. ChannelStateHelloReceived))
                 else bindP (set_channel c (ch_state_update (\<lambda>_. ChannelStateConnected))) (\<lambda>_. connect_done run c)))))))"

section \<open>Messages\<close>

text \<open>\<open>strtoul\<close> with base 10 on a whole text: the number, or nothing if something is left or it does not fit.\<close>

definition digits_value :: "byte list \<Rightarrow> nat" where
  "digits_value bs = fold (\<lambda>b n. n * 10 + (unat b - 48)) bs 0"

definition strtoul :: "byte list \<Rightarrow> u64 option" where
  "strtoul str =
     (let s1 = dropWhile (\<lambda>b. isspace (byte_sym b)) str;
          neg = (s1 \<noteq> [] \<and> hd s1 = 45);
          s2 = (if s1 \<noteq> [] \<and> (hd s1 = 45 \<or> hd s1 = 43) then tl s1 else s1);
          digits = takeWhile (\<lambda>b. 48 \<le> b \<and> b \<le> 57) s2;
          rest = dropWhile (\<lambda>b. 48 \<le> b \<and> b \<le> 57) s2;
          n = digits_value digits
      in if digits = [] then (if str = [] then Some 0 else None)
         else if rest \<noteq> [] \<or> n \<ge> 2 ^ 64 then None
         else Some (if neg then - of_nat n else of_nat n))"

definition reject :: "'c \<Rightarrow> byte list \<Rightarrow> ('c, 'h, unit) pm" where
  "reject c token =
     bindP (skip_until_EOM c) (\<lambda>_. writes c (\<lambda>out. write_stream (out_stringz token (out_stringz (ascii ''N'') out)) MARKER_EOM))"

definition handle_command :: "('c owner \<Rightarrow> u64) \<Rightarrow> ('c, 'h) runner \<Rightarrow> 'c \<Rightarrow> 'h Protocol \<Rightarrow> ('c, 'h, unit) pm" where
  "handle_command addr run c p =
     bindP (read_stringz c 256) (\<lambda>token. bindP (read_stringz c 256) (\<lambda>service. bindP (read_stringz c 256) (\<lambda>name.
     bindP (channel c) (\<lambda>ch.
       if ch_state ch \<noteq> ChannelStateConnected then reject c token
       else bindP (getP (find_message_handler addr (ch_protocol ch) service name)) (\<lambda>r.
         case r of
           Some mh \<Rightarrow> call run (CommandCall (mh_handler mh) token c)
         | None \<Rightarrow>
             (case pr_default_handler p of
                Some h \<Rightarrow> call run (DefaultCall h c [ascii ''C'', token, service, name])
              | None \<Rightarrow> reject c token))))))"

definition handle_reply :: "('c owner \<Rightarrow> u64) \<Rightarrow> ('c, 'h) runner \<Rightarrow> 'c \<Rightarrow> 'h Protocol \<Rightarrow> char \<Rightarrow> ('c, 'h, unit) pm" where
  "handle_reply addr run c p type =
     bindP (read_stringz c 256) (\<lambda>token.
     bindP (case strtoul token of None \<Rightarrow> ret None | Some t \<Rightarrow> find_reply_handler addr c t (type \<noteq> CHR ''P'')) (\<lambda>r.
       case r of
         None \<Rightarrow>
           (case pr_default_handler p of
              Some h \<Rightarrow> call run (DefaultCall h c [ascii [type], token])
            | None \<Rightarrow> fail (Exc ERR_PROTOCOL))
       | Some rh \<Rightarrow>
           if type = CHR ''P''
           then (case rh_progress rh of Some h \<Rightarrow> call run (ProgressCall h c) | None \<Rightarrow> skip_until_EOM c)
           else bindP (if type = CHR ''N'' then skip_until_EOM c else ret ()) (\<lambda>_.
             case rh_handler rh of
               Some h \<Rightarrow> call run (ReplyCall h c (if type = CHR ''N'' then Some ERR_INV_COMMAND else None))
             | None \<Rightarrow> skip_until_EOM c)))"

definition handle_event :: "('c owner \<Rightarrow> u64) \<Rightarrow> ('c, 'h) runner \<Rightarrow> 'c \<Rightarrow> 'h Protocol \<Rightarrow> ('c, 'h, unit) pm" where
  "handle_event addr run c p =
     bindP (read_stringz c 256) (\<lambda>service. bindP (read_stringz c 256) (\<lambda>name. bindP (channel c) (\<lambda>ch.
       if (ch_state ch = ChannelStateStarted \<or> ch_state ch = ChannelStateHelloSent) \<and> service = ascii ''Locator'' \<and> name = ascii ''Hello''
       then event_locator_hello run c
       else bindP (getP (find_event_handler addr c service name)) (\<lambda>r.
         case r of
           Some eh \<Rightarrow> call run (EventCall (eh_handler eh) c)
         | None \<Rightarrow>
             (case pr_default_handler p of
                Some h \<Rightarrow> call run (DefaultCall h c [ascii ''E'', service, name])
              | None \<Rightarrow> skip_until_EOM c)))))"

text \<open>The digits of the congestion level: the number, the symbol behind it, the rest.\<close>

fun level_digits :: "32 word \<Rightarrow> istream \<Rightarrow> 32 word \<times> sym \<times> istream" where
  "level_digits n [] = (n, MARKER_EOS, [])"
| "level_digits n (ch # inp) =
     (if 48 \<le> ch \<and> ch \<le> 57 then level_digits (n * 10 + of_int (ch - 48)) inp else (n, ch, inp))"

definition read_level :: "istream \<Rightarrow> (bool \<times> 32 word \<times> sym) \<times> istream" where
  "read_level inp =
     (let neg = (peek_stream inp = chr CHR ''-''); inp1 = (if neg then snd (read_stream inp) else inp)
      in case level_digits 0 inp1 of (n, ch, inp2) \<Rightarrow>
           if ch = 0 then (case read_stream inp2 of (ch2, inp3) \<Rightarrow> ((neg, n, ch2), inp3)) else ((neg, n, ch), inp2))"

definition handle_level :: "'c \<Rightarrow> ('c, 'h, unit) pm" where
  "handle_level c =
     bindP (reads c read_level) (\<lambda>(neg, n, ch).
       if ch \<noteq> MARKER_EOM then fail (Exc ERR_PROTOCOL) else set_channel c (ch_congestion_level_update (\<lambda>_. if neg then - n else n)))"

definition handle_protocol_message :: "('c owner \<Rightarrow> u64) \<Rightarrow> ('c, 'h) runner \<Rightarrow> 'c \<Rightarrow> ('c, 'h, unit) pm" where
  "handle_protocol_message addr run c =
     bindP (the_protocol c) (\<lambda>p. bindP (read_stringz c 8) (\<lambda>type.
       if length type \<noteq> 1 then fail (Exc ERR_PROTOCOL)
       else if type = ascii ''C'' then handle_command addr run c p
       else if type = ascii ''R'' then handle_reply addr run c p CHR ''R''
       else if type = ascii ''P'' then handle_reply addr run c p CHR ''P''
       else if type = ascii ''N'' then handle_reply addr run c p CHR ''N''
       else if type = ascii ''E'' then handle_event addr run c p
       else if type = ascii ''F'' then handle_level c
       else
         (case pr_default_handler p of
            Some h \<Rightarrow> call run (DefaultCall h c [type])
          | None \<Rightarrow> fail (Exc ERR_PROTOCOL))))"

section \<open>Closing\<close>

text \<open>
  \<open>channel_closed\<close> walks through each list of reply handlers with a pointer to the place that points to the current one: the head of the list, or the
  node \<open>pred\<close> before it. Handlers are called in between and may add to the list. \<open>unlink\<close> is \<open>*rhp = rh->next\<close>.
\<close>

definition after :: "nat \<Rightarrow> ('c, 'h) ReplyHandlerInfo list \<Rightarrow> ('c, 'h) ReplyHandlerInfo list" where
  "after a xs = tl (dropWhile (\<lambda>x. rh_addr x \<noteq> a) xs)"

definition up_to :: "nat \<Rightarrow> ('c, 'h) ReplyHandlerInfo list \<Rightarrow> ('c, 'h) ReplyHandlerInfo list" where
  "up_to a xs = (let ys = takeWhile (\<lambda>x. rh_addr x \<noteq> a) xs in take (Suc (length ys)) xs)"

definition unlink :: "nat option \<Rightarrow> nat \<Rightarrow> ('c, 'h) ReplyHandlerInfo list \<Rightarrow> ('c, 'h) ReplyHandlerInfo list" where
  "unlink pred a xs = (case pred of None \<Rightarrow> after a xs | Some p \<Rightarrow> up_to p xs @ after a xs)"

definition keep_silent :: "nat \<Rightarrow> ('c, 'h) ReplyHandlerInfo list \<Rightarrow> ('c, 'h) ReplyHandlerInfo list" where
  "keep_silent a xs = map (\<lambda>x. if rh_addr x = a then x\<lparr>rh_handler := None, rh_progress := None\<rparr> else x) xs"

definition set_bucket :: "nat \<Rightarrow> (('c, 'h) ReplyHandlerInfo list \<Rightarrow> ('c, 'h) ReplyHandlerInfo list) \<Rightarrow> ('c, 'h, unit) pm" where
  "set_bucket i f = modP (\<lambda>s. s\<lparr>ps_reply_handlers := (ps_reply_handlers s)(i := f (ps_reply_handlers s i))\<rparr>)"

text \<open>The nodes that are still ahead; what handlers add goes to the head of the list, behind the walk.\<close>

fun close_bucket :: "('c, 'h) runner \<Rightarrow> 'c \<Rightarrow> nat \<Rightarrow> nat option \<Rightarrow> ('c, 'h) ReplyHandlerInfo list \<Rightarrow> ('c, 'h, unit) pm" where
  "close_bucket run c i pred [] = ret ()"
| "close_bucket run c i pred (rh # rhs) =
     (if rh_c rh \<noteq> c then close_bucket run c i (Some (rh_addr rh)) rhs
      else
        bindP (case rh_handler rh of None \<Rightarrow> ret () | Some h \<Rightarrow> trapped (call run (ReplyCall h c (Some ERR_CHANNEL_CLOSED)))) (\<lambda>_.
        bindP (channel c) (\<lambda>ch.
          if ch_state ch \<noteq> ChannelStateDisconnected
          then bindP (set_bucket i (keep_silent (rh_addr rh))) (\<lambda>_. close_bucket run c i (Some (rh_addr rh)) rhs)
          else bindP (set_bucket i (unlink pred (rh_addr rh))) (\<lambda>_. close_bucket run c i pred rhs))))"

fun close_buckets :: "('c, 'h) runner \<Rightarrow> 'c \<Rightarrow> nat list \<Rightarrow> ('c, 'h, unit) pm" where
  "close_buckets run c [] = ret ()"
| "close_buckets run c (i # is) =
     bindP (getP (\<lambda>s. ps_reply_handlers s i)) (\<lambda>rhs. bindP (close_bucket run c i None rhs) (\<lambda>_. close_buckets run c is))"

definition channel_closed :: "('c, 'h) runner \<Rightarrow> 'c \<Rightarrow> ('c, 'h, unit) pm" where
  "channel_closed run c =
     bindP (modP (\<lambda>s. s\<lparr>ps_event_handlers := (\<lambda>i. filter (\<lambda>eh. eh_c eh \<noteq> c) (ps_event_handlers s i))\<rparr>)) (\<lambda>_.
     bindP (free_services (OwnerChannel c)) (\<lambda>_.
     bindP (close_buckets run c [0..<REPLY_HASH_SIZE]) (\<lambda>_.
     set_channel c (ch_peer_services_update (\<lambda>_. None)))))"

section \<open>Protocols\<close>

definition protocol_alloc :: "('c, 'h, nat) pm" where
  "protocol_alloc s = (let n = ps_proto_cnt s in
     (Inr n, s\<lparr>ps_proto_cnt := n + 1, ps_protocols := (ps_protocols s)(n \<mapsto> \<lparr>pr_lock_cnt = 1, pr_tokenid = 1, pr_default_handler = None\<rparr>)\<rparr>))"

definition with_protocol :: "nat \<Rightarrow> ('h Protocol \<Rightarrow> ('c, 'h, unit) pm) \<Rightarrow> ('c, 'h, unit) pm" where
  "with_protocol n f =
     bindP (getP (\<lambda>s. ps_protocols s n)) (\<lambda>p. case p of
       None \<Rightarrow> fail NullPointer
     | Some x \<Rightarrow> bindP (asserts (pr_lock_cnt x > 0)) (\<lambda>_. f x))"

definition protocol_reference :: "nat \<Rightarrow> ('c, 'h, unit) pm" where
  "protocol_reference n =
     with_protocol n (\<lambda>x. modP (\<lambda>s. s\<lparr>ps_protocols := (ps_protocols s)(n \<mapsto> x\<lparr>pr_lock_cnt := pr_lock_cnt x + 1\<rparr>)\<rparr>))"

definition protocol_release :: "nat \<Rightarrow> ('c, 'h, unit) pm" where
  "protocol_release n =
     with_protocol n (\<lambda>x.
       if pr_lock_cnt x > 1
       then modP (\<lambda>s. s\<lparr>ps_protocols := (ps_protocols s)(n \<mapsto> x\<lparr>pr_lock_cnt := pr_lock_cnt x - 1\<rparr>)\<rparr>)
       else bindP (modP (\<lambda>s. s\<lparr>ps_message_handlers := (\<lambda>i. filter (\<lambda>mh. mh_p mh \<noteq> n) (ps_message_handlers s i))\<rparr>)) (\<lambda>_.
         bindP (free_services (OwnerProtocol n)) (\<lambda>_. modP (\<lambda>s. s\<lparr>ps_protocols := (ps_protocols s)(n := None)\<rparr>))))"

end
