(* ===== verification/TcfRpc.thy ===== *)
theory TcfRpc
  imports TcfProtocol JsonRoundtrip
begin

text \<open>
  What the protocol (theory TcfProtocol, src/agent/tcf/framework/protocol.c) promises: a command gets to its handler and the reply back to the one who sent it, pending
  commands have different tokens, both ends of a channel learn each other's services, and when a channel is closed nobody waits forever.
\<close>

section \<open>Sequences\<close>

lemmas [pm_simps] = channel_def set_channel_def writes_def reads_def parses_def

section \<open>Texts\<close>

definition cstring :: "byte list \<Rightarrow> bool" where
  "cstring str \<longleftrightarrow> 0 \<notin> set str"

definition stringz :: "byte list \<Rightarrow> sym list" where
  "stringz str = map byte_sym str @ [0]"

lemma out_stringz_append [simp]: "out_stringz str out = out @ stringz str"
  by (simp add: out_stringz_def stringz_def)

lemma byte_sym_pos: "b \<noteq> 0 \<Longrightarrow> byte_sym b > 0"
  using byte_sym_range(1) [of b] by (simp add: byte_sym_def order.strict_iff_order uint_0_iff)

lemma stringz_loop_reads:
  "cstring str \<Longrightarrow> stringz_loop sz acc (stringz str @ rest) = Inr (take (max (length acc) (sz - 1)) (acc @ str), rest)"
proof (induction str arbitrary: acc)
  case (Cons b str)
  then have b: "byte_sym b > 0" "cstring str" by (auto simp: cstring_def byte_sym_pos)
  show ?case
  proof (cases "length acc < sz - 1")
    case True
    then show ?thesis using b Cons.IH [of "acc @ [b]"] by (simp add: stringz_def max_def)
  next
    case False
    then show ?thesis using b Cons.IH [of acc] by (simp add: stringz_def max_def)
  qed
qed (simp add: stringz_def)

lemma read_stringz_ok:
  assumes "cstring str" "length str < sz" "ch_inp (ps_channels s c) = stringz str @ rest"
  shows "read_stringz c sz s = (Inr str, s\<lparr>ps_channels := (ps_channels s)(c := (ps_channels s c)\<lparr>ch_inp := rest\<rparr>)\<rparr>)"
proof -
  have "max 0 (sz - 1) \<ge> length str" using assms(2) by simp
  then have "stringz_loop sz [] (stringz str @ rest) = Inr (str, rest)" using stringz_loop_reads [OF assms(1), of sz "[]" rest] by simp
  with assms(3) show ?thesis by (simp add: read_stringz_def pm_simps)
qed

section \<open>Numbers\<close>

text \<open>What \<open>json_write_ulong\<close> writes, as bytes, is what \<open>strtoul\<close> reads.\<close>

definition token_text :: "u64 \<Rightarrow> byte list" where
  "token_text t = map sym_byte (decimal (unat t))"

lemma decimal_range: "x \<in> set (decimal n) \<Longrightarrow> 48 \<le> x \<and> x \<le> 57"
  using decimal_digits [of n] by (auto simp: list_all_iff)

lemma sym_byte_digit: "48 \<le> x \<Longrightarrow> x \<le> 57 \<Longrightarrow> 48 \<le> sym_byte x \<and> sym_byte x \<le> 57 \<and> unat (sym_byte x) = nat x"
  by (auto simp: sym_byte_def word_le_nat_alt unat_eq_nat_uint uint_word_of_int)

lemma digits_value_decimal: "digits_value (map sym_byte (decimal n)) = n"
proof (induction n rule: decimal.induct)
  case (1 n)
  have u: "unat (sym_byte (int m + 48)) = m + 48" if "m < 10" for m using sym_byte_digit [of "int m + 48"] that by simp
  show ?case
  proof (cases "10 \<le> n")
    case True
    then show ?thesis using 1 u [of "n mod 10"] by (subst decimal.simps) (simp add: digits_value_def)
  next
    case False
    then show ?thesis using u [of n] by (subst decimal.simps) (simp add: digits_value_def)
  qed
qed

lemma decimal_length: "n < 10 ^ k \<Longrightarrow> 0 < k \<Longrightarrow> length (decimal n) \<le> k"
proof (induction k arbitrary: n)
  case (Suc k)
  show ?case
  proof (cases "10 \<le> n")
    case True
    then have "0 < k" using Suc.prems by (cases k) auto
    moreover have "n div 10 < 10 ^ k" using Suc.prems by (simp add: less_mult_imp_div_less mult.commute)
    ultimately show ?thesis using Suc.IH [of "n div 10"] True by (subst decimal.simps) simp
  qed (subst decimal.simps, simp)
qed simp

lemma token_digit: "b \<in> set (token_text t) \<Longrightarrow> 48 \<le> b \<and> b \<le> 57"
  using decimal_range [of _ "unat t"] sym_byte_digit by (auto simp: token_text_def)

lemma token_text_ok: "cstring (token_text t)" "length (token_text t) < 256" "map byte_sym (token_text t) = decimal (unat t)" "token_text t \<noteq> []"
proof -
  show "cstring (token_text t)" using token_digit [of 0 t] by (auto simp: cstring_def)
  have "unat t < 2 ^ 64" using unsigned_less [of t, where ?'a = nat] by simp
  then have "unat t < 10 ^ 20" by simp
  then show "length (token_text t) < 256" using decimal_length [of "unat t" 20] by (simp add: token_text_def)
  have "list_all is_byte (decimal (unat t))" using decimal_range [of _ "unat t"] by (force simp: list_all_iff is_byte_def)
  from map_sym_byte_inverse [OF this] show "map byte_sym (token_text t) = decimal (unat t)" by (simp add: token_text_def)
  show "token_text t \<noteq> []" using decimal_nonempty by (simp add: token_text_def)
qed

lemma strtoul_token: "strtoul (token_text t) = Some t"
proof -
  let ?s = "token_text t"
  obtain b bs where s: "?s = b # bs" using token_text_ok(4) by (cases ?s) auto
  have b: "48 \<le> b" "b \<le> 57" using token_digit [of b t] s by auto
  then have n: "\<not> isspace (byte_sym b)" "b \<noteq> 45" "b \<noteq> 43"
    by (auto simp: isspace_def byte_sym_def word_le_def)
  have all: "takeWhile (\<lambda>b. 48 \<le> b \<and> b \<le> 57) ?s = ?s" "dropWhile (\<lambda>b. 48 \<le> b \<and> b \<le> 57) ?s = []"
    using token_digit [of _ t] by (auto simp: takeWhile_eq_all_conv dropWhile_eq_Nil_conv)
  have "digits_value ?s = unat t" using digits_value_decimal by (simp add: token_text_def)
  moreover have "unat t < 2 ^ 64" using unsigned_less [of t, where ?'a = nat] by simp
  ultimately show ?thesis using n all s by (simp add: strtoul_def Let_def)
qed

section \<open>Pending commands\<close>

definition pending :: "('c owner \<Rightarrow> u64) \<Rightarrow> ('c, 'h) ps \<Rightarrow> 'c \<Rightarrow> u64 \<Rightarrow> ('c, 'h) ReplyHandlerInfo option" where
  "pending addr s c t = find (is_reply_for c t) (ps_reply_handlers s (reply_hash addr c t))"

text \<open>Each handler is in the list its token belongs to, and no two handlers of a channel have the same token.\<close>

definition replies_ok :: "('c owner \<Rightarrow> u64) \<Rightarrow> ('c, 'h) ps \<Rightarrow> bool" where
  "replies_ok addr s \<longleftrightarrow> (\<forall>i. \<forall>rh \<in> set (ps_reply_handlers s i). reply_hash addr (rh_c rh) (rh_tokenid rh) = i) \<and>
     (\<forall>i. distinct (map (\<lambda>rh. (rh_c rh, rh_tokenid rh)) (ps_reply_handlers s i)))"

lemma find_distinct:
  assumes "distinct (map f xs)" "x \<in> set xs" "\<And>y. P y \<longleftrightarrow> f y = f x"
  shows "find P xs = Some x"
  using assms by (induction xs) (auto simp: rev_image_eqI)

lemma find_remove: "(\<And>x. P x \<Longrightarrow> \<not> Q x) \<Longrightarrow> find P (remove_first Q xs) = find P xs"
  by (induction xs) auto

lemma remove_first_subset: "set (remove_first P xs) \<subseteq> set xs"
  by (induction xs) auto

lemma remove_first_distinct: "distinct (map f xs) \<Longrightarrow> distinct (map f (remove_first P xs))"
proof (induction xs)
  case (Cons x xs)
  then show ?case using remove_first_subset [of P xs] by auto
qed simp

lemma pending_mem:
  assumes "replies_ok addr s" "rh \<in> set (ps_reply_handlers s i)"
  shows "pending addr s (rh_c rh) (rh_tokenid rh) = Some rh"
proof -
  have i: "reply_hash addr (rh_c rh) (rh_tokenid rh) = i" "distinct (map (\<lambda>rh. (rh_c rh, rh_tokenid rh)) (ps_reply_handlers s i))"
    using assms by (auto simp: replies_ok_def)
  then show ?thesis unfolding pending_def i(1) by (intro find_distinct [OF i(2) assms(2)]) (auto simp: is_reply_for_def)
qed

lemma pending_handler: "pending addr s c t = Some rh \<Longrightarrow> rh_c rh = c \<and> rh_tokenid rh = t \<and> rh \<in> set (ps_reply_handlers s (reply_hash addr c t))"
  unfolding pending_def by (auto simp: find_Some_iff is_reply_for_def)

text \<open>The loop for a token ends as long as not all of them are in use.\<close>

lemma token_loop_unused:
  assumes "\<not> used (t + of_nat n)" "\<And>m. m < n \<Longrightarrow> used (t + of_nat m)"
  shows "token_loop used t = Some (t + of_nat n, t + of_nat n + 1)"
  using assms
proof (induction n arbitrary: t)
  case 0
  then show ?case by (subst token_loop.simps) simp
next
  case (Suc n)
  have "used t" using Suc.prems(2) [of 0] by simp
  moreover have "token_loop used (t + 1) = Some (t + 1 + of_nat n, t + 1 + of_nat n + 1)"
    by (rule Suc.IH) (use Suc.prems(1) Suc.prems(2) [of "Suc _"] in \<open>simp_all add: ac_simps\<close>)
  ultimately show ?case by (subst token_loop.simps) (simp add: ac_simps)
qed

lemma token_loop_ok:
  assumes "\<exists>t. \<not> used t"
  shows "\<exists>t. token_loop used t0 = Some (t, t + 1) \<and> \<not> used t"
proof -
  obtain x where "\<not> used x" using assms by blast
  moreover have "x = t0 + of_nat (unat (x - t0))" by simp
  ultimately have ex: "\<exists>n. \<not> used (t0 + of_nat n)" by metis
  define n where "n = (LEAST n. \<not> used (t0 + of_nat n))"
  have "\<not> used (t0 + of_nat n)" unfolding n_def using ex by (rule LeastI_ex)
  moreover have "m < n \<Longrightarrow> used (t0 + of_nat m)" for m using not_less_Least [of m "\<lambda>n. \<not> used (t0 + of_nat n)"] by (auto simp: n_def)
  ultimately show ?thesis using token_loop_unused by blast
qed

section \<open>Commands\<close>

definition can_send :: "('c owner \<Rightarrow> u64) \<Rightarrow> 'c \<Rightarrow> ('c, 'h) ps \<Rightarrow> bool" where
  "can_send addr c s \<longleftrightarrow> \<not> ch_closed (ps_channels s c) \<and> ch_peer_services (ps_channels s c) \<noteq> None \<and>
     ps_protocols s (ch_protocol (ps_channels s c)) \<noteq> None \<and> (\<exists>t. pending addr s c t = None)"

definition command_text :: "u64 \<Rightarrow> byte list \<Rightarrow> byte list \<Rightarrow> sym list" where
  "command_text t service name = stringz (ascii ''C'') @ stringz (token_text t) @ stringz service @ stringz name"

lemma send_command:
  assumes "can_send addr c s"
  shows "\<exists>t rh s'. protocol_send_command_with_progress addr c service name handler progress s = (Inr rh, s') \<and>
    pending addr s c t = None \<and> rh = \<lparr>rh_addr = ps_next_addr s, rh_tokenid = t, rh_c = c, rh_handler = handler, rh_progress = progress\<rparr> \<and>
    ps_reply_handlers s' = (ps_reply_handlers s)(reply_hash addr c t := rh # ps_reply_handlers s (reply_hash addr c t)) \<and>
    ch_out (ps_channels s' c) = ch_out (ps_channels s c) @ command_text t service name \<and>
    ps_channels s' = (ps_channels s)(c := (ps_channels s c)\<lparr>ch_out := ch_out (ps_channels s' c)\<rparr>) \<and> ps_calls s' = ps_calls s"
proof -
  obtain p l where p: "ps_protocols s (ch_protocol (ps_channels s c)) = Some p" "ch_peer_services (ps_channels s c) = Some l"
    using assms by (auto simp: can_send_def)
  have "\<exists>t. \<not> token_used addr c s t" using assms by (auto simp: can_send_def token_used_def pending_def)
  then obtain t where t: "token_loop (token_used addr c s) (pr_tokenid p) = Some (t, t + 1)" "\<not> token_used addr c s t" using token_loop_ok by blast
  have u: "token_used addr c (s\<lparr>ps_next_addr := n\<rparr>) = token_used addr c s" for n by (simp add: token_used_def fun_eq_iff)
  have d: "out @ decimal (unat t) @ [0] = out @ stringz (token_text t)" for out using token_text_ok(3) [of t] by (simp add: stringz_def)
  show ?thesis
    using assms p t unfolding protocol_send_command_with_progress_def the_protocol_def can_send_def
    by (intro exI [of _ t]) (simp add: pm_simps new_addr_def bindP_Inr Let_def u pending_def token_used_def command_text_def
      json_write_ulong_append d option.case_eq_if)
qed

lemma pending_add:
  assumes "ps_reply_handlers s' = (ps_reply_handlers s)(reply_hash addr c t := rh # ps_reply_handlers s (reply_hash addr c t))" "rh_c rh = c" "rh_tokenid rh = t"
  shows "pending addr s' d u = (if d = c \<and> u = t then Some rh else pending addr s d u)"
  using assms by (auto simp: pending_def is_reply_for_def)

lemma replies_add:
  assumes "replies_ok addr s" "pending addr s c t = None" "rh_c rh = c" "rh_tokenid rh = t"
    "ps_reply_handlers s' = (ps_reply_handlers s)(reply_hash addr c t := rh # ps_reply_handlers s (reply_hash addr c t))"
  shows "replies_ok addr s'"
proof -
  have "(c, t) \<notin> (\<lambda>x. (rh_c x, rh_tokenid x)) ` set (ps_reply_handlers s (reply_hash addr c t))"
    using assms(2) by (auto simp: pending_def find_None_iff is_reply_for_def)
  with assms show ?thesis by (simp add: replies_ok_def)
qed

text \<open>
  C10: A command that is sent gets a token that no other pending command of the channel has; the loop that looks for it ends. From then on the reply
  handler is found under it, all others as before. The command is on the channel with that token.
\<close>

theorem send_command_fresh:
  assumes "replies_ok addr s" "can_send addr c s"
  shows "\<exists>rh s'. protocol_send_command_with_progress addr c service name handler progress s = (Inr rh, s') \<and> replies_ok addr s' \<and>
    pending addr s c (rh_tokenid rh) = None \<and> rh_handler rh = handler \<and> rh_progress rh = progress \<and>
    (\<forall>d u. pending addr s' d u = (if d = c \<and> u = rh_tokenid rh then Some rh else pending addr s d u)) \<and>
    ch_out (ps_channels s' c) = ch_out (ps_channels s c) @ command_text (rh_tokenid rh) service name"
proof -
  from send_command [OF assms(2)] obtain t rh s' where
    s': "protocol_send_command_with_progress addr c service name handler progress s = (Inr rh, s')" "pending addr s c t = None"
      "rh = \<lparr>rh_addr = ps_next_addr s, rh_tokenid = t, rh_c = c, rh_handler = handler, rh_progress = progress\<rparr>"
      "ps_reply_handlers s' = (ps_reply_handlers s)(reply_hash addr c t := rh # ps_reply_handlers s (reply_hash addr c t))"
      "ch_out (ps_channels s' c) = ch_out (ps_channels s c) @ command_text t service name" by blast
  have "replies_ok addr s'" by (rule replies_add [OF assms(1) s'(2) _ _ s'(4)]) (simp_all add: s'(3))
  moreover have "pending addr s' d u = (if d = c \<and> u = t then Some rh else pending addr s d u)" for d u
    by (rule pending_add [OF s'(4)]) (simp_all add: s'(3))
  ultimately show ?thesis using s' by simp
qed

section \<open>Dispatch\<close>

definition set_inp :: "'c \<Rightarrow> istream \<Rightarrow> ('c, 'h) ps \<Rightarrow> ('c, 'h) ps" where
  "set_inp c inp s = s\<lparr>ps_channels := (ps_channels s)(c := (ps_channels s c)\<lparr>ch_inp := inp\<rparr>)\<rparr>"

lemma set_inp_simps [simp]:
  "ps_channels (set_inp c inp s) d = (if d = c then (ps_channels s c)\<lparr>ch_inp := inp\<rparr> else ps_channels s d)"
  "ps_protocols (set_inp c inp s) = ps_protocols s" "ps_reply_handlers (set_inp c inp s) = ps_reply_handlers s"
  "find_message_handler addr p service name (set_inp c inp s) = find_message_handler addr p service name s"
  "set_inp c inp (set_inp c inp2 s) = set_inp c inp s" "pending addr (set_inp c inp s) = pending addr s"
  by (simp_all add: set_inp_def find_message_handler_def pending_def fun_eq_iff)

lemma bind_read_stringz:
  assumes "cstring str" "length str < sz" "ch_inp (ps_channels s c) = stringz str @ rest"
  shows "bindP (read_stringz c sz) f s = f str (set_inp c rest s)"
  using read_stringz_ok [OF assms] by (simp add: bindP_Inr set_inp_def)

lemma ascii_types:
  "cstring (ascii ''C'')" "cstring (ascii ''R'')" "cstring (ascii ''N'')" "cstring (ascii ''E'')" "length (ascii [x]) = 1"
  "ascii ''R'' \<noteq> ascii ''C''" "ascii ''N'' \<noteq> ascii ''C''" "ascii ''N'' \<noteq> ascii ''R''" "ascii ''N'' \<noteq> ascii ''P''"
  "ascii ''E'' \<noteq> ascii ''C''" "ascii ''E'' \<noteq> ascii ''R''" "ascii ''E'' \<noteq> ascii ''P''" "ascii ''E'' \<noteq> ascii ''N''"
  by (simp_all add: ascii_def cstring_def)

lemma bind_protocol: "ps_protocols s (ch_protocol (ps_channels s c)) = Some p \<Longrightarrow> bindP (the_protocol c) f s = f p s"
  by (simp add: the_protocol_def bindP_def channel_def getP_def ret_def)

lemma handle_command_text:
  assumes "ch_inp (ps_channels u d) = command_text t service name @ args" "ps_protocols u (ch_protocol (ps_channels u d)) = Some p"
    "ch_state (ps_channels u d) = ChannelStateConnected" "cstring service" "cstring name" "length service < 256" "length name < 256"
  shows "handle_protocol_message addr run d u =
    (case find_message_handler addr (ch_protocol (ps_channels u d)) service name u of
       Some mh \<Rightarrow> call run (CommandCall (mh_handler mh) (token_text t) d) (set_inp d args u)
     | None \<Rightarrow>
         (case pr_default_handler p of
            Some h \<Rightarrow> call run (DefaultCall h d [ascii ''C'', token_text t, service, name]) (set_inp d args u)
          | None \<Rightarrow> reject d (token_text t) (set_inp d args u)))"
proof -
  note t = token_text_ok(1,2) [of t]
  show ?thesis unfolding handle_protocol_message_def handle_command_def bind_protocol [of u d p, OF assms(2)]
    using assms t
    by (simp add: bind_read_stringz [where str = "ascii ''C''" and rest = "stringz (token_text t) @ stringz service @ stringz name @ args"] command_text_def ascii_types
      bind_read_stringz [where str = "token_text t" and rest = "stringz service @ stringz name @ args"]
      bind_read_stringz [where str = service and rest = "stringz name @ args"] bind_read_stringz [where str = name and rest = args]
      bindP_getP channel_def split: option.split)
qed

definition take_reply :: "('c owner \<Rightarrow> u64) \<Rightarrow> 'c \<Rightarrow> u64 \<Rightarrow> ('c, 'h) ps \<Rightarrow> ('c, 'h) ps" where
  "take_reply addr c t s = s\<lparr>ps_reply_handlers := (ps_reply_handlers s)(reply_hash addr c t :=
     remove_first (is_reply_for c t) (ps_reply_handlers s (reply_hash addr c t)))\<rparr>"

lemma bind_find_reply:
  "bindP (find_reply_handler addr c t True) f s = f (pending addr s c t) (take_reply addr c t s)"
  by (simp add: find_reply_handler_def Let_def pm_simps bindP_def pending_def take_reply_def)

lemma handle_reply_text:
  assumes "ch_inp (ps_channels v c) = stringz (ascii ''R'') @ stringz (token_text t) @ answer" "ps_protocols v (ch_protocol (ps_channels v c)) = Some p"
    "pending addr v c t = Some rh"
  shows "handle_protocol_message addr run c v =
    (case rh_handler rh of Some h \<Rightarrow> call run (ReplyCall h c None) | None \<Rightarrow> skip_until_EOM c) (take_reply addr c t (set_inp c answer v))"
proof -
  note t = token_text_ok(1,2) [of t]
  show ?thesis unfolding handle_protocol_message_def handle_reply_def bind_protocol [of v c p, OF assms(2)]
    using assms t
    by (simp add: bind_read_stringz [where str = "ascii ''R''" and rest = "stringz (token_text t) @ answer"] ascii_types strtoul_token
      bind_read_stringz [where str = "token_text t" and rest = answer] bind_find_reply split: option.split)
qed

lemma replies_take:
  assumes "replies_ok addr s"
  shows "replies_ok addr (take_reply addr c t s)" "pending addr (take_reply addr c t s) d u = (if d = c \<and> u = t then None else pending addr s d u)"
proof -
  let ?h = "reply_hash addr c t"
  have d: "distinct (map (\<lambda>rh. (rh_c rh, rh_tokenid rh)) (ps_reply_handlers s ?h))" using assms by (simp add: replies_ok_def)
  show "replies_ok addr (take_reply addr c t s)"
    using assms remove_first_subset [of "is_reply_for c t" "ps_reply_handlers s ?h"] remove_first_distinct [OF d]
    by (auto simp: replies_ok_def take_reply_def)
  have "x \<notin> set (remove_first (is_reply_for c t) xs)" if "distinct (map (\<lambda>rh. (rh_c rh, rh_tokenid rh)) xs)" "is_reply_for c t x" for x xs
    using that by (induction xs) (auto simp: is_reply_for_def rev_image_eqI)
  with d have n: "find (is_reply_for c t) (remove_first (is_reply_for c t) (ps_reply_handlers s ?h)) = None" by (auto simp: find_None_iff)
  have "find (is_reply_for d u) (remove_first (is_reply_for c t) xs) = find (is_reply_for d u) xs" if "\<not> (d = c \<and> u = t)" for xs
    using that by (intro find_remove) (auto simp: is_reply_for_def)
  with n show "pending addr (take_reply addr c t s) d u = (if d = c \<and> u = t then None else pending addr s d u)"
    by (auto simp: pending_def take_reply_def)
qed

text \<open>
  C9: The way of a command and back. What one end sends as a command is, at the other end, a call of the handler that is registered for the service and the name, with the
  token and the arguments still to be read. When the answer comes with this token, whatever has happened on the channel in the meantime, it goes to the
  reply handler of this command, which is pending no more.
\<close>

theorem command_roundtrip:
  assumes "can_send addr c s" and "cstring service" "length service < 256" "cstring name" "length name < 256"
    and send: "protocol_send_command_with_progress addr c service name (Some h) progress s = (Inr rh, s1)"
    and wire: "ch_out (ps_channels s1 c) = ch_out (ps_channels s c) @ sent" "ch_inp (ps_channels u d) = sent @ args"
    and peer: "ps_protocols u (ch_protocol (ps_channels u d)) = Some p" "ch_state (ps_channels u d) = ChannelStateConnected"
      "find_message_handler addr' (ch_protocol (ps_channels u d)) service name u = Some mh"
  shows "\<exists>token. handle_protocol_message addr' run' d u = call run' (CommandCall (mh_handler mh) token d) (set_inp d args u) \<and>
    (\<forall>v answer q. replies_ok addr v \<longrightarrow> ch_inp (ps_channels v c) = stringz (ascii ''R'') @ stringz token @ answer \<longrightarrow>
      pending addr v c (rh_tokenid rh) = Some rh \<longrightarrow> ps_protocols v (ch_protocol (ps_channels v c)) = Some q \<longrightarrow>
      (\<exists>v1. handle_protocol_message addr run c v = call run (ReplyCall h c None) v1 \<and> ch_inp (ps_channels v1 c) = answer \<and>
        (\<forall>e t. pending addr v1 e t = (if e = c \<and> t = rh_tokenid rh then None else pending addr v e t))))"
proof -
  let ?t = "rh_tokenid rh" and ?v1 = "\<lambda>v answer. take_reply addr c (rh_tokenid rh) (set_inp c answer v)"
  from send_command [OF assms(1), of service name "Some h" progress] send have
    rh: "rh_handler rh = Some h" "ch_out (ps_channels s1 c) = ch_out (ps_channels s c) @ command_text ?t service name" by auto
  with wire have "ch_inp (ps_channels u d) = command_text ?t service name @ args" by simp
  from handle_command_text [OF this peer(1,2) assms(2,4,3,5), of addr' run'] peer(3)
  have "handle_protocol_message addr' run' d u = call run' (CommandCall (mh_handler mh) (token_text ?t) d) (set_inp d args u)" by simp
  moreover have "handle_protocol_message addr run c v = call run (ReplyCall h c None) (?v1 v answer) \<and> ch_inp (ps_channels (?v1 v answer) c) = answer \<and>
      (\<forall>e t. pending addr (?v1 v answer) e t = (if e = c \<and> t = ?t then None else pending addr v e t))"
    if "replies_ok addr v" "ch_inp (ps_channels v c) = stringz (ascii ''R'') @ stringz (token_text ?t) @ answer"
      "pending addr v c ?t = Some rh" "ps_protocols v (ch_protocol (ps_channels v c)) = Some q" for v answer q
  proof -
    have "replies_ok addr (set_inp c answer v)" using that(1) by (simp add: replies_ok_def)
    from replies_take(2) [OF this] handle_reply_text [OF that(2,4,3), of run] rh(1) show ?thesis by (simp add: take_reply_def)
  qed
  ultimately show ?thesis by blast
qed

lemma reject_text:
  "reject d token u = (Inr (), u\<lparr>ps_channels := (ps_channels u)(d := (ps_channels u d)\<lparr>ch_inp := skip_loop (ch_inp (ps_channels u d)),
     ch_out := ch_out (ps_channels u d) @ stringz (ascii ''N'') @ stringz token @ [MARKER_EOM]\<rparr>)\<rparr>)"
  by (simp add: reject_def skip_until_EOM_def pm_simps bindP_def)

lemma ps_swap: "s\<lparr>ps_reply_handlers := x, ps_channels := y\<rparr> = s\<lparr>ps_channels := y, ps_reply_handlers := x\<rparr>"
  by (cases s) simp

lemma handle_refusal_text:
  assumes "ch_inp (ps_channels v c) = stringz (ascii ''N'') @ stringz (token_text t) @ MARKER_EOM # more_inp" "ps_protocols v (ch_protocol (ps_channels v c)) = Some p"
    "pending addr v c t = Some rh" "rh_handler rh = Some h"
  shows "handle_protocol_message addr run c v = call run (ReplyCall h c (Some ERR_INV_COMMAND)) (take_reply addr c t (set_inp c more_inp v))"
proof -
  note t = token_text_ok(1,2) [of t]
  have sk: "bindP (skip_until_EOM c) f (take_reply addr c t (set_inp c (MARKER_EOM # more_inp) v)) = f () (take_reply addr c t (set_inp c more_inp v))" for f
    by (simp add: skip_until_EOM_def pm_simps bindP_def take_reply_def set_inp_def ps_swap)
  show ?thesis unfolding handle_protocol_message_def handle_reply_def bind_protocol [of v c p, OF assms(2)]
    using assms t sk
    by (simp add: bind_read_stringz [where str = "ascii ''N''" and rest = "stringz (token_text t) @ MARKER_EOM # more_inp"] ascii_types strtoul_token
      bind_read_stringz [where str = "token_text t" and rest = "MARKER_EOM # more_inp"] bind_find_reply del: marker_defs)
qed

text \<open>
  C36: A command that the other end has no handler for is refused there, after its arguments were skipped, and nothing is called; the one who sent it is told that the command is
  not known, by a call of the reply handler.
\<close>

theorem unknown_command_refused:
  assumes "ch_inp (ps_channels u d) = command_text t service name @ args @ MARKER_EOM # later" "MARKER_EOM \<notin> set args" "MARKER_EOS \<notin> set args"
    and "cstring service" "length service < 256" "cstring name" "length name < 256"
    and peer: "ps_protocols u (ch_protocol (ps_channels u d)) = Some p" "ch_state (ps_channels u d) = ChannelStateConnected"
      "find_message_handler addr' (ch_protocol (ps_channels u d)) service name u = None" "pr_default_handler p = None"
    and answer: "ch_inp (ps_channels v c) = drop (length (ch_out (ps_channels u d))) (ch_out (ps_channels u1 d)) @ more_inp"
      "handle_protocol_message addr' run' d u = (r, u1)" "ps_protocols v (ch_protocol (ps_channels v c)) = Some q"
      "pending addr v c t = Some rh" "rh_handler rh = Some h"
  shows "r = Inr () \<and> ps_calls u1 = ps_calls u \<and> ch_inp (ps_channels u1 d) = later \<and>
    handle_protocol_message addr run c v = call run (ReplyCall h c (Some ERR_INV_COMMAND)) (take_reply addr c t (set_inp c more_inp v))"
proof -
  have sk: "skip_loop (args @ MARKER_EOM # later) = later" using assms(2,3) by (induction args) auto
  have "handle_protocol_message addr' run' d u = reject d (token_text t) (set_inp d (args @ MARKER_EOM # later) u)"
    using handle_command_text [OF assms(1) peer(1,2) assms(4,6,5,7), of addr' run'] peer(3,4) by simp
  then have u1: "r = Inr ()" "u1 = u\<lparr>ps_channels := (ps_channels u)(d := (ps_channels u d)\<lparr>ch_inp := later,
      ch_out := ch_out (ps_channels u d) @ stringz (ascii ''N'') @ stringz (token_text t) @ [MARKER_EOM]\<rparr>)\<rparr>"
    using answer(2) sk by (simp_all add: reject_text del: marker_defs) (simp add: set_inp_def)
  then have "ch_inp (ps_channels v c) = stringz (ascii ''N'') @ stringz (token_text t) @ MARKER_EOM # more_inp" using answer(1) by simp
  from handle_refusal_text [OF this answer(3-5), of run] u1 show ?thesis by simp
qed

section \<open>Hello\<close>

fun names_text :: "byte list list \<Rightarrow> sym list" where
  "names_text [] = []"
| "names_text [n] = json_string n"
| "names_text (n # m # ns) = json_string n @ chr CHR '','' # names_text (m # ns)"

definition hello_text :: "byte list list \<Rightarrow> sym list" where
  "hello_text ns = chr CHR ''['' # names_text ns @ [chr CHR '']'', 0, MARKER_EOM]"

lemma write_names_append:
  "list_all cstring ns \<Longrightarrow> write_names comma ns out = out @ (if comma \<and> ns \<noteq> [] then chr CHR '','' # names_text ns else names_text ns)"
proof (induction ns arbitrary: comma out)
  case (Cons n ns)
  have "write_names comma (n # ns) out = write_names True ns ((if comma then out @ [chr CHR '',''] else out) @ json_string n)"
    using Cons.prems by (simp add: json_write_string_append cstring_def)
  also have "\<dots> = ((if comma then out @ [chr CHR '',''] else out) @ json_string n) @ (if ns \<noteq> [] then chr CHR '','' # names_text ns else [])"
    using Cons.IH [of True] Cons.prems by simp
  finally show ?case by (cases ns) auto
qed simp

lemma hello_loop_reads:
  "ns \<noteq> [] \<Longrightarrow> hello_loop acc (names_text ns @ chr CHR '']'' # rest) = Inr (acc @ ns, rest)"
proof (induction ns arbitrary: acc rule: names_text.induct)
  case (2 n)
  then show ?case by (subst hello_loop.simps) (simp add: alloc_string_json isspace_def chr_def)
next
  case (3 n m ns)
  then show ?case by (subst hello_loop.simps) (simp add: alloc_string_json isspace_def chr_def)
qed simp

lemma hello_names_reads:
  "hello_names (chr CHR ''['' # names_text ns @ chr CHR '']'' # rest) = Inr (if ns = [] then None else Some ns, rest)"
proof (cases ns)
  case Nil
  then show ?thesis by (simp add: hello_names_def isspace_def chr_def)
next
  case (Cons n ms)
  have "peek_stream (names_text ns @ x) = 34" for x by (cases ms) (simp_all add: Cons json_string_def)
  then show ?thesis using hello_loop_reads [of ns "[]" rest] Cons by (simp add: hello_names_def isspace_def chr_def)
qed

definition hello_services :: "'c \<Rightarrow> ('c, 'h) ps \<Rightarrow> byte list list" where
  "hello_services c s = (if ch_disable_zero_copy (ps_channels s c) then [] else [ascii ''ZeroCopy'']) @
     service_names (OwnerProtocol (ch_protocol (ps_channels s c))) s"

definition hello_message :: "byte list list \<Rightarrow> sym list" where
  "hello_message ns = stringz (ascii ''E'') @ stringz (ascii ''Locator'') @ stringz (ascii ''Hello'') @ hello_text ns"

definition after_hello :: "'c \<Rightarrow> ChannelState \<Rightarrow> ('c, 'h) ps \<Rightarrow> ('c, 'h) ps" where
  "after_hello c st s = s\<lparr>ps_channels := (ps_channels s)(c := (ps_channels s c)\<lparr>ch_state := st\<rparr>)\<rparr>"

lemma send_hello_text:
  assumes "list_all cstring (service_names (OwnerProtocol (ch_protocol (ps_channels s c))) s)"
    "ch_state (ps_channels s c) = ChannelStateStarted \<or> ch_state (ps_channels s c) = ChannelStateHelloReceived"
  defines "s1 \<equiv> s\<lparr>ps_channels := (ps_channels s)(c := (ps_channels s c)\<lparr>ch_out := ch_out (ps_channels s c) @ hello_message (hello_services c s)\<rparr>)\<rparr>"
  shows "send_hello_message run c s =
    (if ch_state (ps_channels s c) = ChannelStateStarted then (Inr (), after_hello c ChannelStateHelloSent s1)
     else call run (OpenedCall c) (after_hello c ChannelStateConnected s1))"
proof -
  let ?ns = "service_names (OwnerProtocol (ch_protocol (ps_channels s c))) s"
  have z: "cstring (ascii ''ZeroCopy'')" by (simp add: ascii_def cstring_def)
  have w: "write_names comma ?ns out = out @ (if comma \<and> ?ns \<noteq> [] then 44 # names_text ?ns else names_text ?ns)" for comma out
    using write_names_append [OF assms(1)] by simp
  have c: "names_text (n # ns) = json_string n @ (if ns = [] then [] else 44 # names_text ns)" for n ns by (cases ns) simp_all
  have sn: "service_names o' (s\<lparr>ps_channels := f\<rparr>) = service_names o' s" for o' f by (simp add: service_names_def)
  show ?thesis
    using assms(2) z
    by (auto simp: w c send_hello_message_def connect_done_def pm_simps bindP_getP bindP_modP Let_def s1_def after_hello_def sn hello_services_def
      hello_message_def hello_text_def json_write_string_append cstring_def)
qed

text \<open>The order of the updates of a channel.\<close>

lemma channel_swap:
  "ch\<lparr>ch_out := t, ch_inp := i\<rparr> = ch\<lparr>ch_inp := i, ch_out := t\<rparr>"
  "ch\<lparr>ch_zero_copy := z, ch_inp := i\<rparr> = ch\<lparr>ch_inp := i, ch_zero_copy := z\<rparr>"
  "ch\<lparr>ch_zero_copy := z, ch_out := t\<rparr> = ch\<lparr>ch_out := t, ch_zero_copy := z\<rparr>"
  "ch\<lparr>ch_peer_services := l, ch_inp := i\<rparr> = ch\<lparr>ch_inp := i, ch_peer_services := l\<rparr>"
  "ch\<lparr>ch_peer_services := l, ch_out := t\<rparr> = ch\<lparr>ch_out := t, ch_peer_services := l\<rparr>"
  "ch\<lparr>ch_peer_services := l, ch_zero_copy := z\<rparr> = ch\<lparr>ch_zero_copy := z, ch_peer_services := l\<rparr>"
  "ch\<lparr>ch_state := st, ch_inp := i\<rparr> = ch\<lparr>ch_inp := i, ch_state := st\<rparr>"
  "ch\<lparr>ch_state := st, ch_out := t\<rparr> = ch\<lparr>ch_out := t, ch_state := st\<rparr>"
  "ch\<lparr>ch_state := st, ch_zero_copy := z\<rparr> = ch\<lparr>ch_zero_copy := z, ch_state := st\<rparr>"
  "ch\<lparr>ch_state := st, ch_peer_services := l\<rparr> = ch\<lparr>ch_peer_services := l, ch_state := st\<rparr>"
  by (cases ch, simp)+

definition greeted :: "'c \<Rightarrow> byte list list \<Rightarrow> istream \<Rightarrow> ChannelState \<Rightarrow> ('c, 'h) ps \<Rightarrow> ('c, 'h) ps" where
  "greeted c ns rest st s = s\<lparr>ps_channels := (ps_channels s)(c := (ps_channels s c)\<lparr>ch_inp := rest, ch_zero_copy := (ascii ''ZeroCopy'' \<in> set ns),
     ch_peer_services := (if ns = [] then None else Some ns), ch_state := st\<rparr>)\<rparr>"

lemma event_hello:
  assumes "ch_inp (ps_channels s c) = hello_text ns @ rest" "ch_state (ps_channels s c) = ChannelStateStarted \<or> ch_state (ps_channels s c) = ChannelStateHelloSent"
  shows "event_locator_hello run c s =
    (if ch_state (ps_channels s c) = ChannelStateStarted then (Inr (), greeted c ns rest ChannelStateHelloReceived s)
     else call run (OpenedCall c) (greeted c ns rest ChannelStateConnected s))"
proof -
  have n: "hello_names (91 # names_text ns @ 93 # 0 # - 1 # rest) = Inr (if ns = [] then None else Some ns, 0 # - 1 # rest)"
    using hello_names_reads [of ns "0 # - 1 # rest"] by simp
  have z: "(case if ns = [] then None else Some ns of None \<Rightarrow> False | Some ns \<Rightarrow> x \<in> set ns) = (x \<in> set ns)" for x by simp
  show ?thesis unfolding event_locator_hello_def using assms
    by (auto simp: pm_simps bindP_getP bindP_modP hello_text_def n greeted_def connect_done_def channel_swap)
qed

lemma receive_hello:
  assumes "ch_inp (ps_channels s c) = hello_message ns @ rest" "ps_protocols s (ch_protocol (ps_channels s c)) = Some p"
    "ch_state (ps_channels s c) = ChannelStateStarted \<or> ch_state (ps_channels s c) = ChannelStateHelloSent"
  shows "handle_protocol_message addr run c s =
    (if ch_state (ps_channels s c) = ChannelStateStarted then (Inr (), greeted c ns rest ChannelStateHelloReceived s)
     else call run (OpenedCall c) (greeted c ns rest ChannelStateConnected s))"
proof -
  have l: "cstring (ascii ''Locator'')" "length (ascii ''Locator'') < 256" "cstring (ascii ''Hello'')" "length (ascii ''Hello'') < 256"
    by (simp_all add: cstring_def ascii_def)
  let ?t = "set_inp c (hello_text ns @ rest) s"
  have g: "greeted c ns rest st ?t = greeted c ns rest st s" for st by (simp add: greeted_def set_inp_def)
  have "handle_protocol_message addr run c s = event_locator_hello run c ?t"
    unfolding handle_protocol_message_def handle_event_def bind_protocol [of s c p, OF assms(2)] using assms(1,3) l
    by (auto simp: bind_read_stringz [where str = "ascii ''E''" and rest = "stringz (ascii ''Locator'') @ stringz (ascii ''Hello'') @ hello_text ns @ rest"]
      bind_read_stringz [where str = "ascii ''Locator''" and rest = "stringz (ascii ''Hello'') @ hello_text ns @ rest"]
      bind_read_stringz [where str = "ascii ''Hello''" and rest = "hello_text ns @ rest"] hello_message_def ascii_types channel_def bindP_getP)
  with event_hello [of ?t c ns rest run] assms(3) g show ?thesis by simp
qed

text \<open>
  C11: The greeting. A channel that was started sends its hello and gets the one of the peer, in either order: then it is connected, the listeners are told once, and
  it has the services of the peer and knows whether it can take binary data. What it sends is what the peer reads as its services.
\<close>

theorem hello_exchange:
  assumes "ch_state (ps_channels s c) = ChannelStateStarted" "ch_inp (ps_channels s c) = hello_message ns @ rest"
    and "ps_protocols s (ch_protocol (ps_channels s c)) = Some p" "list_all cstring (service_names (OwnerProtocol (ch_protocol (ps_channels s c))) s)"
  defines "done \<equiv> s\<lparr>ps_channels := (ps_channels s)(c := (ps_channels s c)\<lparr>ch_inp := rest, ch_out := ch_out (ps_channels s c) @ hello_message (hello_services c s),
    ch_zero_copy := (ascii ''ZeroCopy'' \<in> set ns), ch_peer_services := (if ns = [] then None else Some ns), ch_state := ChannelStateConnected\<rparr>)\<rparr>"
  shows "bindP (send_hello_message run c) (\<lambda>_. handle_protocol_message addr run c) s = call run (OpenedCall c) done \<and>
    bindP (handle_protocol_message addr run c) (\<lambda>_. send_hello_message run c) s = call run (OpenedCall c) done"
proof
  let ?out = "ch_out (ps_channels s c) @ hello_message (hello_services c s)"
  let ?s1 = "after_hello c ChannelStateHelloSent (s\<lparr>ps_channels := (ps_channels s)(c := (ps_channels s c)\<lparr>ch_out := ?out\<rparr>)\<rparr>)"
  have "send_hello_message run c s = (Inr (), ?s1)" using send_hello_text [OF assms(4), of run] assms(1) by simp
  then have "bindP (send_hello_message run c) (\<lambda>_. handle_protocol_message addr run c) s = handle_protocol_message addr run c ?s1" by (rule bindP_Inr)
  also have "\<dots> = call run (OpenedCall c) (greeted c ns rest ChannelStateConnected ?s1)"
    using receive_hello [of ?s1 c ns rest p addr run] assms(2,3) by (simp add: after_hello_def)
  also have "greeted c ns rest ChannelStateConnected ?s1 = done" by (simp add: greeted_def after_hello_def done_def channel_swap)
  finally show "bindP (send_hello_message run c) (\<lambda>_. handle_protocol_message addr run c) s = call run (OpenedCall c) done" .
next
  let ?s1 = "greeted c ns rest ChannelStateHelloReceived s"
  have same: "hello_services c ?s1 = hello_services c s" "service_names x ?s1 = service_names x s" for x
    by (simp_all add: hello_services_def service_names_def greeted_def)
  have f: "ch_state (ps_channels ?s1 c) = ChannelStateHelloReceived" "ch_protocol (ps_channels ?s1 c) = ch_protocol (ps_channels s c)"
    by (simp_all add: greeted_def)
  have "handle_protocol_message addr run c s = (Inr (), ?s1)" using receive_hello [OF assms(2,3), of addr run] assms(1) by simp
  then have "bindP (handle_protocol_message addr run c) (\<lambda>_. send_hello_message run c) s = send_hello_message run c ?s1" by (rule bindP_Inr)
  also have "\<dots> = call run (OpenedCall c) (after_hello c ChannelStateConnected (?s1\<lparr>ps_channels := (ps_channels ?s1)(c := (ps_channels ?s1 c)
      \<lparr>ch_out := ch_out (ps_channels ?s1 c) @ hello_message (hello_services c s)\<rparr>)\<rparr>))"
    using send_hello_text [of ?s1 c run] assms(4) f same by simp
  also have "after_hello c ChannelStateConnected (?s1\<lparr>ps_channels := (ps_channels ?s1)(c := (ps_channels ?s1 c)
      \<lparr>ch_out := ch_out (ps_channels ?s1 c) @ hello_message (hello_services c s)\<rparr>)\<rparr>) = done"
    by (simp add: greeted_def after_hello_def done_def channel_swap)
  finally show "bindP (handle_protocol_message addr run c) (\<lambda>_. send_hello_message run c) s = call run (OpenedCall c) done" .
qed


section \<open>A channel is closed\<close>

lemma after_unlink:
  assumes "rh_addr rh \<notin> rh_addr ` set pre"
  shows "after (rh_addr rh) (pre @ rh # rhs) = rhs"
proof -
  have "dropWhile (\<lambda>x. rh_addr x \<noteq> rh_addr rh) (pre @ rh # rhs) = rh # rhs"
    using assms by (subst dropWhile_append2) (auto simp: image_iff)
  then show ?thesis by (simp add: after_def)
qed

lemma unlink_mid:
  assumes "distinct (map rh_addr (pre @ rh # rhs))" "pred = (if pre = [] then None else Some (rh_addr (last pre)))"
  shows "unlink pred (rh_addr rh) (pre @ rh # rhs) = pre @ rhs"
proof (cases pre rule: rev_cases)
  case Nil
  then show ?thesis using assms(2) after_unlink [of rh "[]" rhs] by (simp add: unlink_def)
next
  case (snoc ys y)
  have "takeWhile (\<lambda>x. rh_addr x \<noteq> rh_addr y) (ys @ y # rh # rhs) = ys"
    using assms(1) snoc by (subst takeWhile_append2) (auto simp: image_iff)
  then have "up_to (rh_addr y) (pre @ rh # rhs) = pre" by (simp add: up_to_def snoc Let_def)
  moreover have "rh_addr rh \<notin> rh_addr ` set pre" using assms(1) by auto
  ultimately show ?thesis using assms(2) after_unlink [of rh pre rhs] snoc by (simp add: unlink_def)
qed

text \<open>Handlers that may raise exceptions but leave the protocol and the channels alone.\<close>

definition quiet :: "('c, 'h) runner \<Rightarrow> bool" where
  "quiet run \<longleftrightarrow> (\<forall>x s. (\<exists>r. run x s = (r, s) \<and> (\<forall>e. r = Inl e \<longrightarrow> (\<exists>y. e = Exc y))))"

definition closing_calls :: "'c \<Rightarrow> ('c, 'h) ReplyHandlerInfo list \<Rightarrow> ('c, 'h) call list" where
  "closing_calls c rhs = map (\<lambda>h. ReplyCall h c (Some ERR_CHANNEL_CLOSED)) (List.map_filter rh_handler (filter (\<lambda>rh. rh_c rh = c) rhs))"

lemma closing_calls_simps [simp]:
  "closing_calls c [] = []"
  "closing_calls c (rh # rhs) = (if rh_c rh = c then (case rh_handler rh of None \<Rightarrow> [] | Some h \<Rightarrow> [ReplyCall h c (Some ERR_CHANNEL_CLOSED)]) else []) @
    closing_calls c rhs"
  by (auto simp: closing_calls_def map_filter_simps split: option.split)

lemma quiet_call: "quiet run \<Longrightarrow> bindP (trapped (call run x)) f s = f () (s\<lparr>ps_calls := ps_calls s @ [x]\<rparr>)"
proof -
  assume "quiet run"
  then obtain r where "run x (s\<lparr>ps_calls := ps_calls s @ [x]\<rparr>) = (r, s\<lparr>ps_calls := ps_calls s @ [x]\<rparr>)" "\<forall>e. r = Inl e \<longrightarrow> (\<exists>y. e = Exc y)"
    unfolding quiet_def by blast
  then show ?thesis by (cases r) (auto simp: bindP_def trapped_def catch_def call_def modP_def ret_def)
qed

lemma close_bucket_ok:
  assumes q: "quiet run" and d: "ch_state (ps_channels s c) = ChannelStateDisconnected" and "ps_reply_handlers s i = pre @ rhs"
    "distinct (map rh_addr (pre @ rhs))" "pred = (if pre = [] then None else Some (rh_addr (last pre)))"
  shows "close_bucket run c i pred rhs s =
    (Inr (), s\<lparr>ps_reply_handlers := (ps_reply_handlers s)(i := pre @ filter (\<lambda>rh. rh_c rh \<noteq> c) rhs), ps_calls := ps_calls s @ closing_calls c rhs\<rparr>)"
  using assms(2-5)
proof (induction rhs arbitrary: s pre pred)
  case Nil
  have "(ps_reply_handlers s)(i := pre) = ps_reply_handlers s" using Nil by (simp add: fun_upd_idem)
  then show ?case by (simp add: ret_def)
next
  case (Cons rh rhs)
  show ?case
  proof (cases "rh_c rh = c")
    case False
    then show ?thesis using Cons.IH [of s "pre @ [rh]" "Some (rh_addr rh)"] Cons.prems by simp
  next
    case True
    let ?calls = "case rh_handler rh of None \<Rightarrow> [] | Some h \<Rightarrow> [ReplyCall h c (Some ERR_CHANNEL_CLOSED)]"
    let ?s1 = "s\<lparr>ps_calls := ps_calls s @ ?calls\<rparr>"
    let ?s2 = "?s1\<lparr>ps_reply_handlers := (ps_reply_handlers s)(i := pre @ rhs)\<rparr>"
    have "close_bucket run c i pred (rh # rhs) s = close_bucket run c i pred rhs ?s2"
      using True Cons.prems(1,2) unlink_mid [OF Cons.prems(3,4)]
      by (cases "rh_handler rh") (simp_all add: channel_def bindP_getP set_bucket_def bindP_modP quiet_call [OF q])
    also have "\<dots> = (Inr (), ?s2\<lparr>ps_reply_handlers := (ps_reply_handlers ?s2)(i := pre @ filter (\<lambda>rh. rh_c rh \<noteq> c) rhs),
        ps_calls := ps_calls ?s2 @ closing_calls c rhs\<rparr>)"
      by (rule Cons.IH) (use Cons.prems in auto)
    finally show ?thesis using True by (auto intro!: ps.equality)
  qed
qed

lemma close_buckets_ok:
  assumes q: "quiet run" and d: "ch_state (ps_channels s c) = ChannelStateDisconnected" and "\<forall>i. distinct (map rh_addr (ps_reply_handlers s i))" "distinct is"
  shows "close_buckets run c is s =
    (Inr (), s\<lparr>ps_reply_handlers := (\<lambda>i. if i \<in> set is then filter (\<lambda>rh. rh_c rh \<noteq> c) (ps_reply_handlers s i) else ps_reply_handlers s i),
      ps_calls := ps_calls s @ concat (map (\<lambda>i. closing_calls c (ps_reply_handlers s i)) is)\<rparr>)"
  using assms(2-4)
proof (induction "is" arbitrary: s)
  case Nil
  then show ?case by (simp add: ret_def)
next
  case (Cons i "is")
  let ?s1 = "s\<lparr>ps_reply_handlers := (ps_reply_handlers s)(i := filter (\<lambda>rh. rh_c rh \<noteq> c) (ps_reply_handlers s i)),
    ps_calls := ps_calls s @ closing_calls c (ps_reply_handlers s i)\<rparr>"
  have "distinct (map rh_addr (ps_reply_handlers s i))" using Cons.prems(2) by blast
  then have "close_bucket run c i None (ps_reply_handlers s i) s = (Inr (), ?s1)"
    using close_bucket_ok [OF q Cons.prems(1), of i "[]" "ps_reply_handlers s i" None] by simp
  then have "close_buckets run c (i # is) s = close_buckets run c is ?s1" by (simp add: bindP_getP bindP_Inr)
  also have "\<dots> = (Inr (), ?s1\<lparr>ps_reply_handlers := (\<lambda>j. if j \<in> set is then filter (\<lambda>rh. rh_c rh \<noteq> c) (ps_reply_handlers ?s1 j) else ps_reply_handlers ?s1 j),
      ps_calls := ps_calls ?s1 @ concat (map (\<lambda>i. closing_calls c (ps_reply_handlers ?s1 i)) is)\<rparr>)"
    using Cons.prems by (intro Cons.IH) (auto simp: distinct_map_filter)
  also have "map (\<lambda>j. closing_calls c (ps_reply_handlers ?s1 j)) is = map (\<lambda>j. closing_calls c (ps_reply_handlers s j)) is"
    using Cons.prems(3) by auto
  also have "(\<lambda>j. if j \<in> set is then filter (\<lambda>rh. rh_c rh \<noteq> c) (ps_reply_handlers ?s1 j) else ps_reply_handlers ?s1 j) =
      (\<lambda>j. if j \<in> set (i # is) then filter (\<lambda>rh. rh_c rh \<noteq> c) (ps_reply_handlers s j) else ps_reply_handlers s j)"
    using Cons.prems(3) by (auto simp: fun_eq_iff)
  finally show ?case by simp
qed


section \<open>Examples\<close>

definition demo_channel :: Channel where
  "demo_channel = \<lparr>ch_inp = [], ch_out = [], ch_zero_copy = False, ch_protocol = 0, ch_peer_services = Some [ascii ''X''], ch_congestion_level = 0,
     ch_state = ChannelStateConnected, ch_disable_zero_copy = False, ch_closed = False\<rparr>"

text \<open>A protocol with one command handler and two channels; the command handler is 7.\<close>

definition demo_ps :: "(nat, nat) ps" where
  "demo_ps = \<lparr>ps_services = [(OwnerProtocol 0, ascii ''X'')],
     ps_message_handlers = (\<lambda>i. [\<lparr>mh_p = 0, mh_service = ascii ''X'', mh_name = ascii ''go'', mh_handler = 7\<rparr>]),
     ps_event_handlers = (\<lambda>i. []), ps_reply_handlers = (\<lambda>i. []), ps_protocols = [0 \<mapsto> \<lparr>pr_lock_cnt = 1, pr_tokenid = 1, pr_default_handler = None\<rparr>],
     ps_proto_cnt = 1, ps_channels = (\<lambda>c. demo_channel), ps_failed = [], ps_next_addr = 0, ps_calls = []\<rparr>"

definition demo_inp :: "nat \<Rightarrow> istream \<Rightarrow> (nat, nat) ps" where
  "demo_inp c inp = set_inp c inp demo_ps"

lemma demo_can_send: "replies_ok addr demo_ps" "can_send addr c demo_ps"
  by (simp_all add: replies_ok_def can_send_def demo_ps_def demo_channel_def pending_def)

lemma demo_texts: "cstring (ascii ''X'')" "cstring (ascii ''go'')" "length (ascii ''X'') < 256" "length (ascii ''go'') < 256"
  by (simp_all add: cstring_def ascii_def)

lemma demo_inp_facts: "ch_inp (ps_channels (demo_inp c inp) c) = inp" "ps_protocols (demo_inp c inp) (ch_protocol (ps_channels (demo_inp c inp) c)) =
    Some \<lparr>pr_lock_cnt = 1, pr_tokenid = 1, pr_default_handler = None\<rparr>" "ch_state (ps_channels (demo_inp c inp) c) = ChannelStateConnected"
  "find_message_handler addr (ch_protocol (ps_channels (demo_inp c inp) c)) (ascii ''X'') (ascii ''go'') (demo_inp c inp) =
    Some \<lparr>mh_p = 0, mh_service = ascii ''X'', mh_name = ascii ''go'', mh_handler = 7\<rparr>"
  by (simp_all add: demo_inp_def) (simp_all add: demo_ps_def demo_channel_def find_message_handler_def)

theorem send_command_fresh_witness:
  "\<exists>rh s'. protocol_send_command_with_progress (\<lambda>x. 0) 1 (ascii ''X'') (ascii ''go'') (Some 5) None demo_ps = (Inr rh, s') \<and>
     pending (\<lambda>x. 0) s' 1 (rh_tokenid rh) = Some rh"
  using send_command_fresh [OF demo_can_send, of "\<lambda>x. 0" 1 "ascii ''X''" "ascii ''go''" "Some 5" None] by auto

definition demo_run :: "(nat, nat) runner" where
  "demo_run x s = (Inr (), s)"

theorem command_roundtrip_witness:
  "\<exists>token inp. handle_protocol_message (\<lambda>x. 0) demo_run 2 (demo_inp 2 (inp @ [9])) = call demo_run (CommandCall 7 token 2) (demo_inp 2 [9])"
proof -
  from send_command [OF demo_can_send(2), of "\<lambda>x. 0" 1 "ascii ''X''" "ascii ''go''" "Some 5" None] obtain t rh s1 where
    s1: "protocol_send_command_with_progress (\<lambda>x. 0) 1 (ascii ''X'') (ascii ''go'') (Some 5) None demo_ps = (Inr rh, s1)"
      "ch_out (ps_channels s1 1) = ch_out (ps_channels demo_ps 1) @ command_text t (ascii ''X'') (ascii ''go'')" by blast
  let ?t = "command_text t (ascii ''X'') (ascii ''go'')"
  note f = demo_inp_facts [where c = 2 and inp = "?t @ [9]"]
  from command_roundtrip [OF demo_can_send(2) demo_texts(1,3,2,4) s1 f(1-3) f(4) [where addr = "\<lambda>x. 0"], where run' = demo_run and run = demo_run] obtain token where
    "handle_protocol_message (\<lambda>x. 0) demo_run 2 (demo_inp 2 (?t @ [9])) = call demo_run (CommandCall 7 token 2) (set_inp 2 [9] (demo_inp 2 (?t @ [9])))" by auto
  then show ?thesis by (auto simp: demo_inp_def)
qed

theorem unknown_command_refused_witness:
  "\<exists>v. handle_protocol_message (\<lambda>x. 0) demo_run 1 v = call demo_run (ReplyCall 5 1 (Some ERR_INV_COMMAND)) (take_reply (\<lambda>x. 0) 1 4 (set_inp 1 [] v))"
proof -
  let ?rh = "\<lparr>rh_addr = 0, rh_tokenid = 4, rh_c = 1, rh_handler = Some 5, rh_progress = None\<rparr>" and ?x = "ascii ''X''" and ?n = "ascii ''no''"
  let ?u = "demo_inp 2 (command_text 4 ?x ?n @ [] @ MARKER_EOM # [])"
  let ?u1 = "snd (handle_protocol_message (\<lambda>x. 0) demo_run 2 ?u)" and ?r = "fst (handle_protocol_message (\<lambda>x. 0) demo_run 2 ?u)"
  let ?v = "set_inp 1 (drop (length (ch_out (ps_channels ?u 2))) (ch_out (ps_channels ?u1 2)) @ []) (demo_ps\<lparr>ps_reply_handlers := \<lambda>i. [?rh]\<rparr>)"
  note f = demo_inp_facts [where c = 2 and inp = "command_text 4 ?x ?n @ [] @ MARKER_EOM # []"]
  have n: "find_message_handler (\<lambda>x. 0) (ch_protocol (ps_channels ?u 2)) ?x ?n ?u = None" "cstring ?n" "length ?n < 256"
    by (simp_all add: demo_inp_def cstring_def) (simp_all add: demo_ps_def find_message_handler_def ascii_def)
  have v: "ch_inp (ps_channels ?v 1) = drop (length (ch_out (ps_channels ?u 2))) (ch_out (ps_channels ?u1 2)) @ []"
      "handle_protocol_message (\<lambda>x. 0) demo_run 2 ?u = (?r, ?u1)"
      "ps_protocols ?v (ch_protocol (ps_channels ?v 1)) = Some \<lparr>pr_lock_cnt = 1, pr_tokenid = 1, pr_default_handler = None\<rparr>"
      "pending (\<lambda>x. 0) ?v 1 4 = Some ?rh" "rh_handler ?rh = Some 5"
    by simp_all (simp_all add: demo_ps_def demo_channel_def pending_def is_reply_for_def)
  have "handle_protocol_message (\<lambda>x. 0) demo_run 1 ?v = call demo_run (ReplyCall 5 1 (Some ERR_INV_COMMAND)) (take_reply (\<lambda>x. 0) 1 4 (set_inp 1 [] ?v))"
    using unknown_command_refused [OF f(1) _ _ demo_texts(1,3) n(2,3) f(2,3) n(1) _ v, of demo_run] by simp
  then show ?thesis by blast
qed

text \<open>Both orders of the greeting on a channel that has just been started; the peer has one service and no zero copy.\<close>

definition demo_started :: "(nat, nat) ps" where
  "demo_started = demo_ps\<lparr>ps_channels := (\<lambda>c. demo_channel\<lparr>ch_state := ChannelStateStarted, ch_inp := hello_message [ascii ''Y'']\<rparr>)\<rparr>"

theorem hello_exchange_witness:
  "\<exists>s. bindP (send_hello_message demo_run 1) (\<lambda>_. handle_protocol_message (\<lambda>x. 0) demo_run 1) demo_started = call demo_run (OpenedCall 1) s \<and>
     ch_peer_services (ps_channels s 1) = Some [ascii ''Y''] \<and> ch_state (ps_channels s 1) = ChannelStateConnected"
proof -
  have h: "ch_state (ps_channels demo_started 1) = ChannelStateStarted" "ch_inp (ps_channels demo_started 1) = hello_message [ascii ''Y''] @ []"
      "ps_protocols demo_started (ch_protocol (ps_channels demo_started 1)) = Some \<lparr>pr_lock_cnt = 1, pr_tokenid = 1, pr_default_handler = None\<rparr>"
      "list_all cstring (service_names (OwnerProtocol (ch_protocol (ps_channels demo_started 1))) demo_started)"
    by (simp_all add: demo_started_def demo_ps_def demo_channel_def service_names_def demo_texts)
  from hello_exchange [OF h, of demo_run "\<lambda>x. 0"] show ?thesis by (intro exI) (rule conjI, erule conjunct1, simp)
qed



text \<open>A handler that, when its channel is closed, sends a command on another channel. The two channels have addresses such that both tokens get to the same list.\<close>

definition demo_addr :: "nat owner \<Rightarrow> u64" where
  "demo_addr x = (if x = OwnerChannel 1 then 16 else 0)"

definition sending_run :: "(nat, nat) runner" where
  "sending_run x = (case x of
     ReplyCall h c e \<Rightarrow> bindP (protocol_send_command_with_progress demo_addr 2 (ascii ''X'') (ascii ''go'') (Some 9) None) (\<lambda>_. ret ())
   | _ \<Rightarrow> ret ())"

definition closing_demo :: "(nat, nat) ps" where
  "closing_demo = demo_ps\<lparr>ps_protocols := [0 \<mapsto> \<lparr>pr_lock_cnt = 1, pr_tokenid = 2, pr_default_handler = None\<rparr>],
     ps_channels := (\<lambda>c. demo_channel)(1 := demo_channel\<lparr>ch_state := ChannelStateDisconnected, ch_closed := True\<rparr>), ps_next_addr := 1,
     ps_reply_handlers := (\<lambda>i. [])(2 := [\<lparr>rh_addr = 0, rh_tokenid = 1, rh_c = 1, rh_handler = Some 5, rh_progress = None\<rparr>])\<rparr>"

lemma close_buckets_append: "close_buckets run c (is @ js) = bindP (close_buckets run c is) (\<lambda>_. close_buckets run c js)"
  by (induction "is") simp_all

lemma close_buckets_empty: "\<forall>i \<in> set is. ps_reply_handlers s i = [] \<Longrightarrow> close_buckets run c is s = (Inr (), s)"
  by (induction "is") (simp_all add: bindP_getP ret_def)

lemma demo_hash: "reply_hash demo_addr 2 2 = 2"
  by (simp add: reply_hash_def demo_addr_def REPLY_HASH_SIZE_def MEM_USAGE_FACTOR_def)

abbreviation new_rh :: "(nat, nat) ReplyHandlerInfo" where
  "new_rh \<equiv> \<lparr>rh_addr = 1, rh_tokenid = 2, rh_c = 2, rh_handler = Some 9, rh_progress = None\<rparr>"

lemma sending_call:
  assumes "ps_protocols s 0 = Some \<lparr>pr_lock_cnt = 1, pr_tokenid = 2, pr_default_handler = None\<rparr>" "ps_channels s 2 = demo_channel" "ps_next_addr s = 1"
    "find (is_reply_for 2 2) (ps_reply_handlers s 2) = None"
  shows "\<exists>t. sending_run (ReplyCall h c e) s = (Inr (), t) \<and> ps_reply_handlers t = (ps_reply_handlers s)(2 := new_rh # ps_reply_handlers s 2) \<and>
    ch_out (ps_channels t 2) = command_text 2 (ascii ''X'') (ascii ''go'') \<and> ps_protocols t 0 \<noteq> None \<and>
    (\<forall>d. ch_state (ps_channels t d) = ch_state (ps_channels s d)) \<and> ch_protocol (ps_channels t 2) = 0 \<and>
    pr_default_handler (the (ps_protocols t 0)) = None"
proof -
  have "token_loop (token_used demo_addr 2 s) 2 = Some (2, 3)" using assms(4) by (subst token_loop.simps) (simp add: token_used_def demo_hash)
  moreover have "token_used demo_addr 2 (s\<lparr>ps_next_addr := n\<rparr>) = token_used demo_addr 2 s" for n by (simp add: token_used_def fun_eq_iff)
  moreover have "decimal (unat (2 :: u64)) @ [0] = stringz (token_text 2)" using token_text_ok(3) [of 2] by (simp add: stringz_def)
  ultimately show ?thesis using assms
    by (simp add: sending_run_def protocol_send_command_with_progress_def the_protocol_def pm_simps new_addr_def bindP_Inr Let_def demo_channel_def
      json_write_ulong_append command_text_def demo_hash)
qed

lemma handle_stray_reply:
  assumes "ch_inp (ps_channels v c) = stringz (ascii ''R'') @ stringz (token_text t) @ answer" "ps_protocols v (ch_protocol (ps_channels v c)) = Some p"
    "pending addr v c t = None" "pr_default_handler p = None"
  shows "fst (handle_protocol_message addr run c v) = Inl (Exc ERR_PROTOCOL)"
proof -
  note t = token_text_ok(1,2) [of t]
  show ?thesis unfolding handle_protocol_message_def handle_reply_def bind_protocol [of v c p, OF assms(2)]
    using assms t
    by (simp add: bind_read_stringz [where str = "ascii ''R''" and rest = "stringz (token_text t) @ answer"] ascii_types strtoul_token
      bind_read_stringz [where str = "token_text t" and rest = answer] bind_find_reply fail_def del: marker_defs)
qed

text \<open>
  The walk over the list of reply handlers does not survive a handler that sends a command: the new handler is put at the head of the list, and when the one that was called
  was the first, it is unlinked by setting the head to what comes after it. The command has been sent, and its reply, when it comes, is a protocol error.
\<close>

theorem close_loses_handler:
  "\<exists>s. channel_closed sending_run 1 closing_demo = (Inr (), s) \<and> ch_out (ps_channels s 2) = command_text 2 (ascii ''X'') (ascii ''go'') \<and>
     ps_reply_handlers s = (\<lambda>i. []) \<and>
     fst (handle_protocol_message demo_addr demo_run 2 (set_inp 2 (stringz (ascii ''R'') @ stringz (token_text 2) @ [MARKER_EOM]) s)) = Inl (Exc ERR_PROTOCOL)"
proof -
  let ?rh = "\<lparr>rh_addr = 0, rh_tokenid = 1, rh_c = 1, rh_handler = Some 5, rh_progress = None\<rparr>"
  let ?s0 = "closing_demo\<lparr>ps_event_handlers := (\<lambda>i. []), ps_services := [(OwnerProtocol 0, ascii ''X'')]\<rparr>"
  let ?s1 = "?s0\<lparr>ps_calls := ps_calls ?s0 @ [ReplyCall 5 1 (Some ERR_CHANNEL_CLOSED)]\<rparr>"
  have b: "ps_reply_handlers ?s0 = (\<lambda>i. [])(2 := [?rh])" by (simp add: closing_demo_def)
  have pre: "ps_protocols ?s1 0 = Some \<lparr>pr_lock_cnt = 1, pr_tokenid = 2, pr_default_handler = None\<rparr>" "ps_channels ?s1 2 = demo_channel" "ps_next_addr ?s1 = 1"
    "find (is_reply_for 2 2) (ps_reply_handlers ?s1 2) = None" by (simp_all add: closing_demo_def is_reply_for_def)
  obtain t where t: "sending_run (ReplyCall 5 1 (Some ERR_CHANNEL_CLOSED)) ?s1 = (Inr (), t)" "ps_reply_handlers t = (\<lambda>i. [])(2 := [new_rh, ?rh])"
      "ch_out (ps_channels t 2) = command_text 2 (ascii ''X'') (ascii ''go'')" "ps_protocols t 0 \<noteq> None" "ch_state (ps_channels t 1) = ChannelStateDisconnected"
      "ch_protocol (ps_channels t 2) = 0" "pr_default_handler (the (ps_protocols t 0)) = None"
    using sending_call [OF pre, of 5 1 "Some ERR_CHANNEL_CLOSED"] by (auto simp: closing_demo_def)
  let ?t = "t\<lparr>ps_reply_handlers := (\<lambda>i. [])\<rparr>"
  have e: "(\<lambda>i :: nat. [] :: (nat, nat) ReplyHandlerInfo list)(2 := []) = (\<lambda>i. [])" by auto
  have "close_bucket sending_run 1 2 None [?rh] ?s0 = (Inr (), ?t)"
    using t(1,2,5) by (simp add: trapped_def catch_def call_def bindP_def modP_def channel_def getP_def set_bucket_def unlink_def after_def ret_def e)
  then have two: "close_buckets sending_run 1 [2] ?s0 = (Inr (), ?t)" by (simp add: bindP_getP b bindP_Inr ret_def del: close_bucket.simps)
  have z: "close_buckets sending_run 1 [0, 1] ?s0 = (Inr (), ?s0)" by (rule close_buckets_empty) (simp add: b)
  have r: "close_buckets sending_run 1 [3..<REPLY_HASH_SIZE] ?t = (Inr (), ?t)" by (rule close_buckets_empty) simp
  have "[0..<REPLY_HASH_SIZE] = [0, 1] @ [2] @ [3..<REPLY_HASH_SIZE]" by (simp add: upt_rec REPLY_HASH_SIZE_def MEM_USAGE_FACTOR_def)
  then have "close_buckets sending_run 1 [0..<REPLY_HASH_SIZE] ?s0 = (Inr (), ?t)"
    using z two r by (simp only: close_buckets_append bindP_def prod.case sum.case)
  then have c: "channel_closed sending_run 1 closing_demo = set_channel 1 (ch_peer_services_update (\<lambda>_. None)) ?t"
    by (simp add: channel_closed_def free_services_def bindP_modP bindP_Inr closing_demo_def demo_ps_def)
  let ?u = "?t\<lparr>ps_channels := (ps_channels t)(1 := (ps_channels t 1)\<lparr>ch_peer_services := None\<rparr>)\<rparr>"
  let ?v = "set_inp 2 (stringz (ascii ''R'') @ stringz (token_text 2) @ [MARKER_EOM]) ?u"
  obtain p where p: "ps_protocols t 0 = Some p" "pr_default_handler p = None" using t(4,7) by auto
  have "ch_inp (ps_channels ?v 2) = stringz (ascii ''R'') @ stringz (token_text 2) @ [MARKER_EOM]" "ps_protocols ?v (ch_protocol (ps_channels ?v 2)) = Some p"
    "pending demo_addr ?v 2 2 = None" using p(1) t(6) by simp_all (simp_all add: pending_def)
  from handle_stray_reply [OF this p(2), of demo_run] c t(3) show ?thesis
    by (intro exI [of _ ?u]) (simp add: set_channel_def modP_def)
qed

end
