(* ===== verification/DwarfIO.thy ===== *)
theory DwarfIO
  imports StateExc VM
begin

text \<open>
  Reading the debug sections of an ELF file: src/agent/tcf/services/dwarfio.c, the part that the readers of frame information use, with the types of
  src/agent/tcf/services/tcf_elf.h. \<open>dio\<close> has the static variables of dwarfio.c: the current section, its bytes and the position in it.

  The data of a section is what \<open>elf_load\<close> gives, an error or the bytes. Relocation (dwarfreloc.c) is the argument \<open>drl\<close>: it takes the position in the section,
  the value that was read there and its size, and returns the value with the section it points to.
\<close>

unbundle bit_operations_syntax

section \<open>Sections\<close>

record ELF_Section =
  es_index :: u32
  es_name :: "string option"
  es_addr :: u64
  es_size :: u64
  es_alignment :: u32
  es_alloc :: bool
  es_data :: "byte list result"

record ELF_File =
  ef_sections :: "ELF_Section list"
  ef_big_endian :: bool
  ef_elf64 :: bool
  ef_machine :: nat

record dio =
  dio_data :: "byte list"
  dio_pos :: u64
  dio_len :: u64
  dio_big_endian :: bool
  dio_addr_size :: nat

type_synonym drl = "u64 \<Rightarrow> u64 \<Rightarrow> nat \<Rightarrow> (u64 \<times> u32 option) result"

definition no_section :: dio where
  "no_section = \<lparr>dio_data = [], dio_pos = 0, dio_len = 0, dio_big_endian = False, dio_addr_size = 4\<rparr>"

definition dio_EnterSection :: "ELF_File \<Rightarrow> ELF_Section \<Rightarrow> u64 \<Rightarrow> (dio, unit) sx" where
  "dio_EnterSection file sec offs =
     bindP (liftE (es_data sec)) (\<lambda>data.
       if offs > es_size sec then fail (Exc ERR_INV_DWARF)
       else bindP (modP (\<lambda>_. \<lparr>dio_data = data, dio_pos = offs, dio_len = es_size sec, dio_big_endian = ef_big_endian file,
              dio_addr_size = (if ef_elf64 file then 8 else 4)\<rparr>)) (\<lambda>_.
            asserts (offs < es_size sec)))"

definition dio_ExitSection :: "(dio, unit) sx" where
  "dio_ExitSection = modP (\<lambda>d. d\<lparr>dio_data := [], dio_pos := 0, dio_len := 0\<rparr>)"

definition dio_GetPos :: "(dio, u64) sx" where
  "dio_GetPos = getP dio_pos"

text \<open>The argument of \<open>dio_Skip\<close> is signed; added to the position it wraps around.\<close>

definition dio_Skip :: "u64 \<Rightarrow> (dio, unit) sx" where
  "dio_Skip n d = (if dio_pos d + n > dio_len d then (Inl (Exc ERR_EOF), d) else (Inr (), d\<lparr>dio_pos := dio_pos d + n\<rparr>))"

definition dio_SetPos :: "u64 \<Rightarrow> (dio, unit) sx" where
  "dio_SetPos pos d = (if pos > dio_len d then (Inl (Exc ERR_EOF), d) else (Inr (), d\<lparr>dio_pos := pos\<rparr>))"

section \<open>Numbers\<close>

definition dio_ReadU1 :: "(dio, byte) sx" where
  "dio_ReadU1 d =
     (if dio_pos d \<ge> dio_len d then (Inl (Exc ERR_EOF), d)
      else if unat (dio_pos d) \<ge> length (dio_data d) then (Inl OutOfBounds, d)
      else (Inr (dio_data d ! unat (dio_pos d)), d\<lparr>dio_pos := dio_pos d + 1\<rparr>))"

text \<open>\<open>n\<close> bytes as a number, in the byte order of the file.\<close>

definition dio_ReadN :: "nat \<Rightarrow> (dio, u64) sx" where
  "dio_ReadN n d =
     (let bs = take n (drop (unat (dio_pos d)) (dio_data d)) in
      if dio_pos d + of_nat n > dio_len d then (Inl (Exc ERR_EOF), d)
      else if length bs < n then (Inl OutOfBounds, d)
      else (Inr (bytes_value (if dio_big_endian d then bs else rev bs)), d\<lparr>dio_pos := dio_pos d + of_nat n\<rparr>))"

definition dio_ReadU2 :: "(dio, u16) sx" where
  "dio_ReadU2 = bindP (dio_ReadN 2) (\<lambda>x. ret (ucast x))"

definition dio_ReadU4 :: "(dio, u32) sx" where
  "dio_ReadU4 = bindP (dio_ReadN 4) (\<lambda>x. ret (ucast x))"

definition dio_ReadU8 :: "(dio, u64) sx" where
  "dio_ReadU8 = dio_ReadN 8"

lemma dio_ReadU1_pos:
  "dio_ReadU1 d = (Inr b, d1) \<Longrightarrow> d1 = d\<lparr>dio_pos := dio_pos d + 1\<rparr> \<and> unat (dio_pos d) < unat (dio_len d) \<and>
     unat (dio_pos d + 1) = unat (dio_pos d) + 1"
proof -
  assume "dio_ReadU1 d = (Inr b, d1)"
  then have "d1 = d\<lparr>dio_pos := dio_pos d + 1\<rparr>" "dio_pos d < dio_len d" by (auto simp: dio_ReadU1_def split: if_splits)
  moreover from this(2) have "unat (dio_pos d) < unat (dio_len d)" by (simp add: word_less_nat_alt)
  moreover have "unat (dio_len d) < 2 ^ LENGTH(64)" by (rule unsigned_less)
  then have "unat (dio_pos d + 1) = unat (dio_pos d) + 1" using \<open>unat (dio_pos d) < unat (dio_len d)\<close> by (simp add: unat_word_ariths)
  ultimately show ?thesis by simp
qed

text \<open>The loop of the LEB128 readers, for values of any width: the value, the last byte and its shift.\<close>

function leb128_loop :: "nat \<Rightarrow> 'a::len word \<Rightarrow> (dio, 'a word \<times> byte \<times> nat) sx" where
  "leb128_loop i res d =
     (case dio_ReadU1 d of
        (Inl e, d1) \<Rightarrow> (Inl e, d1)
      | (Inr n, d1) \<Rightarrow>
          if i \<ge> LENGTH('a) then (Inl BadArith, d1)
          else
            (let res1 = res OR push_bit i (ucast (n AND 0x7F))
             in if n AND 0x80 = 0 then (Inr (res1, n, i), d1) else leb128_loop (i + 7) res1 d1))"
  by pat_completeness auto
termination
  by (relation "measure (\<lambda>(i, res, d). unat (dio_len d) - unat (dio_pos d))") (auto dest!: dio_ReadU1_pos [OF sym])

declare leb128_loop.simps [simp del]

definition dio_ReadULEB128 :: "(dio, u32) sx" where
  "dio_ReadULEB128 = bindP (leb128_loop 0 0) (\<lambda>(res, n, i). ret res)"

definition dio_ReadSLEB128 :: "(dio, u32) sx" where
  "dio_ReadSLEB128 = bindP (leb128_loop 0 0) (\<lambda>(res, n, i). ret (res OR push_bit i (- ucast (n AND 0x40))))"

definition dio_ReadU8LEB128 :: "(dio, u64) sx" where
  "dio_ReadU8LEB128 = bindP (leb128_loop 0 0) (\<lambda>(res, n, i). ret res)"

definition dio_ReadS8LEB128 :: "(dio, u64) sx" where
  "dio_ReadS8LEB128 = bindP (leb128_loop 0 0) (\<lambda>(res, n, i). ret (res OR push_bit i (- ucast (n AND 0x40))))"

text \<open>An address, with the index of the section it points to if it was relocated.\<close>

definition dio_ReadAddressX :: "drl \<Rightarrow> nat \<Rightarrow> (dio, u64 \<times> u32 option) sx" where
  "dio_ReadAddressX drl sz =
     bindP dio_GetPos (\<lambda>pos.
       if sz = 2 \<or> sz = 4 \<or> sz = 8 then bindP (dio_ReadN sz) (\<lambda>x. liftE (drl pos x sz))
       else fail (Exc ERR_INV_DWARF))"

definition dio_ReadAddress :: "drl \<Rightarrow> (dio, u64 \<times> u32 option) sx" where
  "dio_ReadAddress drl = bindP (getP dio_addr_size) (dio_ReadAddressX drl)"

text \<open>A text that ends with a zero byte; the empty one is \<open>NULL\<close>.\<close>

function string_loop :: "byte list \<Rightarrow> (dio, byte list) sx" where
  "string_loop str d =
     (case dio_ReadU1 d of
        (Inl e, d1) \<Rightarrow> (Inl e, d1)
      | (Inr b, d1) \<Rightarrow> if b = 0 then (Inr str, d1) else string_loop (str @ [b]) d1)"
  by pat_completeness auto
termination
  by (relation "measure (\<lambda>(str, d). unat (dio_len d) - unat (dio_pos d))") (auto dest!: dio_ReadU1_pos [OF sym])

declare string_loop.simps [simp del]

definition dio_ReadString :: "(dio, byte list) sx" where
  "dio_ReadString = string_loop []"

end
