(* ===== verification/LocExpr.thy ===== *)
theory LocExpr
  imports StateExc VM
begin

text \<open>
  Location expressions: src/agent/tcf/framework/cpudefs.c. Symbol readers and stack unwinders say where a value is by a list of commands
  (\<open>LocationExpressionCommand\<close>, cpudefs.h), which are executed in a stack frame.

  The target that is being debugged is a state of type \<open>'t\<close> with the operations of \<open>target_ops\<close>; a stack frame is a value of type \<open>'f\<close>, \<open>None\<close> for \<open>NULL\<close>.
  \<open>tg_read_reg\<close> and \<open>tg_write_reg\<close> are \<open>read_reg_bytes\<close> and \<open>write_reg_bytes\<close> for all bytes of a register, or \<open>context_read_reg\<close> and \<open>context_write_reg\<close> when there
  is no frame. The evaluation stack is a list, top first; the C code makes room for one more entry before each command, and no command pushes more than one.
\<close>

unbundle bit_operations_syntax

section \<open>Commands\<close>

record RegisterDefinition =
  rd_num :: nat
  rd_size :: nat
  rd_dwarf_id :: int
  rd_big_endian :: bool

datatype sft_cmd =
    SFT_CMD_NUMBER u64
  | SFT_CMD_RD_REG RegisterDefinition
  | SFT_CMD_FP
  | SFT_CMD_RD_MEM u64 bool
  | SFT_CMD_ADD | SFT_CMD_SUB | SFT_CMD_MUL | SFT_CMD_DIV | SFT_CMD_AND | SFT_CMD_OR | SFT_CMD_XOR | SFT_CMD_NEG
  | SFT_CMD_GE | SFT_CMD_GT | SFT_CMD_LE | SFT_CMD_LT | SFT_CMD_SHL | SFT_CMD_SHR
  | SFT_CMD_ARG nat
  | SFT_CMD_LOCATION bool "byte list" nat
  | SFT_CMD_FCALL
  | SFT_CMD_WR_REG RegisterDefinition
  | SFT_CMD_WR_MEM u64 bool
  | SFT_CMD_PIECE "byte list option" "RegisterDefinition option" u32 u32
  | SFT_CMD_LOAD u64 bool
  | SFT_CMD_STORE
  | SFT_CMD_SET_ARG nat
  | SFT_CMD_RD_REG_PCXI_TRICORE RegisterDefinition

record ('t, 'f) target_ops =
  tg_read_mem :: "'t \<Rightarrow> u64 \<Rightarrow> nat \<Rightarrow> byte list result"
  tg_write_mem :: "'t \<Rightarrow> u64 \<Rightarrow> byte list \<Rightarrow> 't result"
  tg_read_reg :: "'t \<Rightarrow> 'f option \<Rightarrow> RegisterDefinition \<Rightarrow> byte list result"
  tg_write_reg :: "'t \<Rightarrow> 'f option \<Rightarrow> RegisterDefinition \<Rightarrow> byte list \<Rightarrow> 't result"
  tg_frame_fp :: "'f \<Rightarrow> u64"

text \<open>
  \<open>LocationExpressionState\<close>, as far as \<open>evaluate_location_expression\<close> uses it. \<open>le_vm\<close> evaluates an embedded DWARF expression: the machine of theory VM
  with the environment and fuel that the caller gives it.
\<close>

record ('t, 'f) les =
  le_target :: 't
  le_stk :: "u64 list"
  le_pieces :: "RegisterDefinition LocationPiece list"
  le_args :: "u64 list"
  le_state_args :: "u64 list"
  le_args_copied :: bool
  le_sft_cmd :: "sft_cmd option"

record ('t, 'f) loc_env =
  lo_ops :: "('t, 'f) target_ops"
  lo_frame :: "'f option"
  lo_vm :: "'t \<Rightarrow> (RegisterDefinition, 'f) vm \<Rightarrow> (RegisterDefinition, 'f) vm vmr option"

type_synonym ('t, 'f, 'a) lm = "(('t, 'f) les, 'a) sx"

section \<open>Registers and memory\<close>

definition read_reg_value :: "('t, 'f) target_ops \<Rightarrow> 'f option \<Rightarrow> RegisterDefinition \<Rightarrow> 't \<Rightarrow> u64 result" where
  "read_reg_value ops frame reg t =
     (if frame = None then Inl ERR_INV_CONTEXT
      else if rd_size reg > 8 then Inl ERR_INV_DATA_SIZE
      else bindE (tg_read_reg ops t frame reg) (\<lambda>buf. Inr (bytes_value (if rd_big_endian reg then buf else rev buf))))"

definition write_reg_value :: "('t, 'f) target_ops \<Rightarrow> 'f option \<Rightarrow> RegisterDefinition \<Rightarrow> u64 \<Rightarrow> 't \<Rightarrow> 't result" where
  "write_reg_value ops frame reg v t =
     (if frame = None then Inl ERR_INV_CONTEXT
      else if rd_size reg > 8 then Inl ERR_INV_DATA_SIZE
      else (let buf = value_bytes (rd_size reg) v in tg_write_reg ops t frame reg (if rd_big_endian reg then rev buf else buf)))"

section \<open>Pieces\<close>

definition bit_pos :: "bool \<Rightarrow> nat \<Rightarrow> nat" where
  "bit_pos be n = (if be then 7 - n mod 8 else n mod 8)"

definition get_bit :: "bool \<Rightarrow> byte list \<Rightarrow> nat \<Rightarrow> bool" where
  "get_bit be bs i = bit (bs ! (i div 8)) (bit_pos be i)"

definition put_bit :: "bool \<Rightarrow> nat \<Rightarrow> bool \<Rightarrow> byte list \<Rightarrow> byte list" where
  "put_bit be i b bs = bs[i div 8 := (if b then set_bit (bit_pos be i) (bs ! (i div 8)) else unset_bit (bit_pos be i) (bs ! (i div 8)))]"

definition piece_bits :: "'r LocationPiece \<Rightarrow> u32" where
  "piece_bits p = (if lp_bit_size p \<noteq> 0 then lp_bit_size p else ucast (lp_size p * 8))"

definition piece_size :: "'r LocationPiece \<Rightarrow> u32" where
  "piece_size p = (if lp_size p \<noteq> 0 then ucast (lp_size p) else (lp_bit_offs p + lp_bit_size p + 7) div 8)"

definition pieces_bits :: "'r LocationPiece list \<Rightarrow> u32" where
  "pieces_bits ps = sum_list (map piece_bits ps)"

text \<open>The bits of a piece that are copied.\<close>

definition piece_range :: "'r LocationPiece \<Rightarrow> nat list" where
  "piece_range p = [unat (lp_bit_offs p)..<unat (lp_bit_offs p + piece_bits p)]"

definition check_piece :: "'r LocationPiece \<Rightarrow> unit result" where
  "check_piece p = (if lp_optimized_away p \<or> lp_implicit_pointer p \<noteq> 0 then Inl ERR_OTHER else Inr ())"

text \<open>
  The buffer of a register piece: the register's bytes in the byte order of the value, with zero bytes added when the piece is larger than the register. The C code keeps a
  pointer \<open>rbf\<close> to the register's bytes in it; here the number of bytes before them.
\<close>

definition reg_pad :: "bool \<Rightarrow> RegisterDefinition \<Rightarrow> nat \<Rightarrow> nat" where
  "reg_pad be reg n = (if rd_size reg < n \<and> be then n - rd_size reg else 0)"

definition swap_reg :: "bool \<Rightarrow> RegisterDefinition \<Rightarrow> byte list \<Rightarrow> byte list" where
  "swap_reg be reg bs = (if rd_big_endian reg \<noteq> be then rev bs else bs)"

definition reg_buffer :: "bool \<Rightarrow> RegisterDefinition \<Rightarrow> nat \<Rightarrow> byte list \<Rightarrow> byte list" where
  "reg_buffer be reg n bs = replicate (reg_pad be reg n) 0 @ swap_reg be reg bs @ replicate (n - rd_size reg - reg_pad be reg n) 0"

definition piece_data :: "('t, 'f) target_ops \<Rightarrow> 'f option \<Rightarrow> bool \<Rightarrow> RegisterDefinition LocationPiece \<Rightarrow> 't \<Rightarrow> byte list result" where
  "piece_data ops frame be p t =
     (let n = unat (piece_size p) in
      case lp_reg p of
        Some reg \<Rightarrow> bindE (tg_read_reg ops t frame reg) (\<lambda>bs. Inr (reg_buffer be reg n bs))
      | None \<Rightarrow>
          (case lp_value p of
             Some v \<Rightarrow> Inr v
           | None \<Rightarrow> tg_read_mem ops t (lp_addr p) n))"

text \<open>Copying bits: \<open>None\<close> when one of the buffers is too small.\<close>

fun copy_bits :: "bool \<Rightarrow> byte list \<Rightarrow> nat list \<Rightarrow> nat \<Rightarrow> byte list \<Rightarrow> byte list option" where
  "copy_bits be src [] offs bf = Some bf"
| "copy_bits be src (i # is) offs bf =
     (if i div 8 \<ge> length src then None
      else if get_bit be src i
      then (if offs div 8 \<ge> length bf then None else copy_bits be src is (offs + 1) (put_bit be offs True bf))
      else copy_bits be src is (offs + 1) bf)"

definition some_or :: "fault \<Rightarrow> 'a option \<Rightarrow> ('s, 'a) sx" where
  "some_or e r = (case r of None \<Rightarrow> fail e | Some x \<Rightarrow> ret x)"

fun read_pieces_loop :: "('t, 'f) target_ops \<Rightarrow> 'f option \<Rightarrow> bool \<Rightarrow> RegisterDefinition LocationPiece list \<Rightarrow> nat \<Rightarrow> byte list \<Rightarrow> ('t, byte list) sx" where
  "read_pieces_loop ops frame be [] offs bf = ret bf"
| "read_pieces_loop ops frame be (p # ps) offs bf =
     bindP (liftE (check_piece p)) (\<lambda>_.
     bindP (getP (piece_data ops frame be p)) (\<lambda>r.
     bindP (liftE r) (\<lambda>pbf.
     bindP (some_or OutOfBounds (copy_bits be pbf (piece_range p) offs bf)) (\<lambda>bf1.
     read_pieces_loop ops frame be ps (offs + length (piece_range p)) bf1))))"

definition read_location_pieces :: "('t, 'f) target_ops \<Rightarrow> 'f option \<Rightarrow> RegisterDefinition LocationPiece list \<Rightarrow> bool \<Rightarrow> ('t, byte list) sx" where
  "read_location_pieces ops frame ps be =
     (let n = unat (pieces_bits ps + 7) div 8
      in read_pieces_loop ops frame be ps (if be then unat (of_nat (n * 8) - pieces_bits ps) else 0) (replicate n 0))"

fun write_bits :: "bool \<Rightarrow> byte list \<Rightarrow> nat list \<Rightarrow> nat \<Rightarrow> byte list \<Rightarrow> byte list option" where
  "write_bits be bf [] offs pbf = Some pbf"
| "write_bits be bf (i # is) offs pbf =
     (if offs div 8 \<ge> length bf then write_bits be bf is (offs + 1) pbf
      else if i div 8 \<ge> length pbf then None
      else write_bits be bf is (offs + 1) (put_bit be i (get_bit be bf offs) pbf))"

definition write_piece :: "('t, 'f) target_ops \<Rightarrow> 'f option \<Rightarrow> bool \<Rightarrow> RegisterDefinition LocationPiece \<Rightarrow> byte list \<Rightarrow> 't \<Rightarrow> 't result" where
  "write_piece ops frame be p pbf t =
     (case lp_reg p of
        Some reg \<Rightarrow> tg_write_reg ops t frame reg (swap_reg be reg (take (rd_size reg) (drop (reg_pad be reg (unat (piece_size p))) pbf)))
      | None \<Rightarrow> tg_write_mem ops t (lp_addr p) (take (unat (piece_size p)) pbf))"

fun write_pieces_loop :: "('t, 'f) target_ops \<Rightarrow> 'f option \<Rightarrow> bool \<Rightarrow> byte list \<Rightarrow> RegisterDefinition LocationPiece list \<Rightarrow> nat \<Rightarrow> ('t, unit) sx" where
  "write_pieces_loop ops frame be bf [] offs = ret ()"
| "write_pieces_loop ops frame be bf (p # ps) offs =
     bindP (liftE (check_piece p)) (\<lambda>_.
     bindP (if lp_reg p = None \<and> lp_value p \<noteq> None then fail (Exc ERR_OTHER) else ret ()) (\<lambda>_.
     bindP (getP (piece_data ops frame be p)) (\<lambda>r.
     bindP (liftE r) (\<lambda>pbf.
     bindP (some_or OutOfBounds (write_bits be bf (piece_range p) offs pbf)) (\<lambda>pbf1.
     bindP (getP (write_piece ops frame be p pbf1)) (\<lambda>w.
     bindP (liftE w) (\<lambda>t.
     bindP (modP (\<lambda>_. t)) (\<lambda>_.
     write_pieces_loop ops frame be bf ps (offs + length (piece_range p))))))))))"

definition write_location_pieces ::
  "('t, 'f) target_ops \<Rightarrow> 'f option \<Rightarrow> RegisterDefinition LocationPiece list \<Rightarrow> bool \<Rightarrow> byte list \<Rightarrow> ('t, unit) sx" where
  "write_location_pieces ops frame ps be bf =
     (let n = unat (pieces_bits ps + 7) div 8
      in write_pieces_loop ops frame be bf ps
           (if be \<and> length bf \<ge> n then unat (of_nat (length bf * 8) - pieces_bits ps) else 0))"

section \<open>Evaluation\<close>

definition push_le :: "u64 \<Rightarrow> ('t, 'f, unit) lm" where
  "push_le v = modP (\<lambda>s. s\<lparr>le_stk := v # le_stk s\<rparr>)"

abbreviation location_expression_error :: "('t, 'f, 'a) lm" where
  "location_expression_error \<equiv> fail (Exc ERR_OTHER)"

definition pop_le :: "('t, 'f, u64) lm" where
  "pop_le = bindP (getP le_stk) (\<lambda>stk. case stk of [] \<Rightarrow> location_expression_error | v # r \<Rightarrow> bindP (modP (le_stk_update (\<lambda>_. r))) (\<lambda>_. ret v))"

text \<open>Commands with two operands: nothing is popped when there are fewer.\<close>

definition binary_le :: "(u64 \<Rightarrow> u64 \<Rightarrow> ('t, 'f, u64) lm) \<Rightarrow> ('t, 'f, unit) lm" where
  "binary_le f =
     bindP (getP le_stk) (\<lambda>stk. case stk of
       y # x # r \<Rightarrow> bindP (f x y) (\<lambda>v. modP (le_stk_update (\<lambda>_. v # r)))
     | _ \<Rightarrow> location_expression_error)"

definition on_target :: "('t \<Rightarrow> 'a result) \<Rightarrow> ('t, 'f, 'a) lm" where
  "on_target f = bindP (getP (\<lambda>s. f (le_target s))) liftE"

definition bool_val :: "bool \<Rightarrow> u64" where "bool_val b = (if b then 1 else 0)"

definition shift_le :: "(nat \<Rightarrow> u64 \<Rightarrow> u64) \<Rightarrow> u64 \<Rightarrow> u64 \<Rightarrow> ('t, 'f, u64) lm" where
  "shift_le f x y = (if y \<ge> 64 then fail BadArith else ret (f (unat y) x))"

text \<open>
  Reading memory: up to eight bytes are a number. A larger value is left where it is, as a piece, when it is the only thing the expression
  yields; \<open>last_cmd\<close> says that the command is the last one.
\<close>

definition rd_mem :: "('t, 'f) loc_env \<Rightarrow> bool \<Rightarrow> u64 \<Rightarrow> bool \<Rightarrow> ('t, 'f, unit) lm" where
  "rd_mem env last_cmd sz be =
     bindP (getP id) (\<lambda>s. case le_stk s of
       [] \<Rightarrow> location_expression_error
     | a # r \<Rightarrow>
         if sz \<le> 8
         then bindP (on_target (\<lambda>t. tg_read_mem (lo_ops env) t a (unat sz))) (\<lambda>buf.
                modP (le_stk_update (\<lambda>_. bytes_value (if be then buf else rev buf) # r)))
         else if le_pieces s = [] \<and> last_cmd \<and> r = []
         then modP (\<lambda>s. s\<lparr>le_pieces := [no_piece\<lparr>lp_addr := a, lp_size := sz\<rparr>], le_stk := []\<rparr>)
         else fail (Exc ERR_INV_DATA_SIZE))"

definition location_vm :: "('t, 'f) loc_env \<Rightarrow> bool \<Rightarrow> byte list \<Rightarrow> nat \<Rightarrow> ('t, 'f) les \<Rightarrow> (RegisterDefinition, 'f) vm" where
  "location_vm env be code addr_size s =
     \<lparr>vm_frame = lo_frame env, vm_args = le_state_args s, vm_code = code, vm_code_pos = 0, vm_code_len = length code, vm_big_endian = be, vm_addr_size = addr_size,
      vm_pieces = le_pieces s, vm_pieces_max = length (le_pieces s), vm_stk = map (\<lambda>v. (v, 0)) (le_stk s), vm_stk_max = length (le_stk s),
      vm_reg_def = None, vm_value = None, vm_implicit = 0\<rparr>"

definition run_location :: "('t, 'f) loc_env \<Rightarrow> bool \<Rightarrow> byte list \<Rightarrow> nat \<Rightarrow> ('t, 'f, unit) lm" where
  "run_location env be code addr_size s =
     (case lo_vm env (le_target s) (location_vm env be code addr_size s) of
        None \<Rightarrow> (Inl Hangs, s)
      | Some (Inl (Raise e)) \<Rightarrow> (Inl (Exc e), s)
      | Some (Inl Undefined) \<Rightarrow> (Inl OutOfBounds, s)
      | Some (Inr v) \<Rightarrow> (Inr (), s\<lparr>le_pieces := vm_pieces v, le_stk := map fst (vm_stk v)\<rparr>))"

definition new_piece_le :: "byte list option \<Rightarrow> RegisterDefinition option \<Rightarrow> u32 \<Rightarrow> u32 \<Rightarrow> ('t, 'f, unit) lm" where
  "new_piece_le value reg bit_offs bit_size =
     (let p = (if bit_offs = 0 \<and> bit_size mod 8 = 0 then no_piece\<lparr>lp_size := ucast (bit_size div 8)\<rparr>
               else no_piece\<lparr>lp_bit_offs := bit_offs, lp_bit_size := bit_size\<rparr>)
      in if reg \<noteq> None \<or> value \<noteq> None
         then modP (\<lambda>s. s\<lparr>le_pieces := le_pieces s @ [p\<lparr>lp_reg := reg, lp_value := value\<rparr>]\<rparr>)
         else bindP pop_le (\<lambda>a. modP (\<lambda>s. s\<lparr>le_pieces := le_pieces s @ [p\<lparr>lp_addr := a\<rparr>]\<rparr>)))"

definition write_mem_le :: "('t, 'f) loc_env \<Rightarrow> u64 \<Rightarrow> bool \<Rightarrow> ('t, 'f, unit) lm" where
  "write_mem_le env sz be =
     bindP (getP le_stk) (\<lambda>stk. case stk of
       v # a # r \<Rightarrow>
         bindP (asserts (sz \<le> 8)) (\<lambda>_.
         bindP (on_target (\<lambda>t. let buf = value_bytes (unat sz) v in tg_write_mem (lo_ops env) t a (if be then rev buf else buf))) (\<lambda>t.
         modP (\<lambda>s. s\<lparr>le_target := t, le_stk := r\<rparr>)))
     | _ \<Rightarrow> location_expression_error)"

definition load_pieces :: "('t, 'f) loc_env \<Rightarrow> bool \<Rightarrow> ('t, 'f, unit) lm" where
  "load_pieces env be s =
     (case read_location_pieces (lo_ops env) (lo_frame env) (le_pieces s) be (le_target s) of
        (Inl e, t) \<Rightarrow> (Inl e, s\<lparr>le_target := t\<rparr>)
      | (Inr buf, t) \<Rightarrow>
          (Inr (), s\<lparr>le_target := t, le_pieces := [], le_stk := bytes_value (if be then buf else rev buf) # le_stk s\<rparr>))"

text \<open>
  Setting an argument beyond the end moves the arguments to a new array; \<open>state->args\<close>, which embedded expressions use, stays with the old one.
\<close>

definition set_arg :: "nat \<Rightarrow> u64 \<Rightarrow> ('t, 'f) les \<Rightarrow> ('t, 'f) les" where
  "set_arg n v s =
     (if n \<ge> length (le_args s)
      then s\<lparr>le_args := (le_args s @ replicate (Suc n - length (le_args s)) 0)[n := v], le_args_copied := True\<rparr>
      else s\<lparr>le_args := (le_args s)[n := v], le_state_args := (if le_args_copied s then le_state_args s else (le_args s)[n := v])\<rparr>)"

definition eval_cmd :: "('t, 'f) loc_env \<Rightarrow> bool \<Rightarrow> sft_cmd \<Rightarrow> ('t, 'f, unit) lm" where
  "eval_cmd env last_cmd cmd =
     (case cmd of
        SFT_CMD_NUMBER n \<Rightarrow> push_le n
      | SFT_CMD_RD_REG reg \<Rightarrow> bindP (on_target (read_reg_value (lo_ops env) (lo_frame env) reg)) push_le
      | SFT_CMD_RD_REG_PCXI_TRICORE reg \<Rightarrow>
          bindP (on_target (read_reg_value (lo_ops env) (lo_frame env) reg)) (\<lambda>pcxi.
            push_le (push_bit 6 (pcxi AND 0xFFFF) OR push_bit 12 (pcxi AND 0xF0000)))
      | SFT_CMD_WR_REG reg \<Rightarrow>
          bindP (getP le_stk) (\<lambda>stk. case stk of
            [] \<Rightarrow> location_expression_error
          | v # r \<Rightarrow> bindP (on_target (write_reg_value (lo_ops env) (lo_frame env) reg v)) (\<lambda>t. modP (\<lambda>s. s\<lparr>le_target := t, le_stk := r\<rparr>)))
      | SFT_CMD_FP \<Rightarrow> (case lo_frame env of None \<Rightarrow> fail (Exc ERR_INV_CONTEXT) | Some f \<Rightarrow> push_le (tg_frame_fp (lo_ops env) f))
      | SFT_CMD_LOAD sz be \<Rightarrow> bindP (getP le_pieces) (\<lambda>ps. if ps \<noteq> [] then load_pieces env be else rd_mem env last_cmd sz be)
      | SFT_CMD_RD_MEM sz be \<Rightarrow> rd_mem env last_cmd sz be
      | SFT_CMD_WR_MEM sz be \<Rightarrow> write_mem_le env sz be
      | SFT_CMD_ADD \<Rightarrow> binary_le (\<lambda>x y. ret (x + y))
      | SFT_CMD_SUB \<Rightarrow> binary_le (\<lambda>x y. ret (x - y))
      | SFT_CMD_MUL \<Rightarrow> binary_le (\<lambda>x y. ret (x * y))
      | SFT_CMD_DIV \<Rightarrow> binary_le (\<lambda>x y. if y = 0 then fail (Exc ERR_OTHER) else ret (x div y))
      | SFT_CMD_AND \<Rightarrow> binary_le (\<lambda>x y. ret (x AND y))
      | SFT_CMD_OR \<Rightarrow> binary_le (\<lambda>x y. ret (x OR y))
      | SFT_CMD_XOR \<Rightarrow> binary_le (\<lambda>x y. ret (x XOR y))
      | SFT_CMD_NEG \<Rightarrow> bindP pop_le (\<lambda>_. ret ())
      | SFT_CMD_GE \<Rightarrow> binary_le (\<lambda>x y. ret (bool_val (x \<ge> y)))
      | SFT_CMD_GT \<Rightarrow> binary_le (\<lambda>x y. ret (bool_val (x > y)))
      | SFT_CMD_LE \<Rightarrow> binary_le (\<lambda>x y. ret (bool_val (x \<le> y)))
      | SFT_CMD_LT \<Rightarrow> binary_le (\<lambda>x y. ret (bool_val (x < y)))
      | SFT_CMD_SHL \<Rightarrow> binary_le (shift_le push_bit)
      | SFT_CMD_SHR \<Rightarrow> binary_le (shift_le drop_bit)
      | SFT_CMD_ARG n \<Rightarrow> bindP (getP le_args) (\<lambda>args. if n \<ge> length args then location_expression_error else push_le (args ! n))
      | SFT_CMD_SET_ARG n \<Rightarrow>
          bindP pop_le (\<lambda>v. modP (set_arg n v))
      | SFT_CMD_LOCATION be code addr_size \<Rightarrow> run_location env be code addr_size
      | SFT_CMD_FCALL \<Rightarrow> modP (\<lambda>s. s\<lparr>le_sft_cmd := Some cmd\<rparr>)
      | SFT_CMD_PIECE value reg bit_offs bit_size \<Rightarrow> new_piece_le value reg bit_offs bit_size
      | SFT_CMD_STORE \<Rightarrow> location_expression_error)"

fun eval_cmds :: "('t, 'f) loc_env \<Rightarrow> sft_cmd list \<Rightarrow> ('t, 'f, unit) lm" where
  "eval_cmds env [] = ret ()"
| "eval_cmds env (cmd # cmds) =
     bindP (getP le_sft_cmd) (\<lambda>c. if c \<noteq> None then ret () else bindP (eval_cmd env (cmds = []) cmd) (\<lambda>_. eval_cmds env cmds))"

text \<open>Two values that are left are added up.\<close>

definition evaluate_location_expression :: "('t, 'f) loc_env \<Rightarrow> sft_cmd list \<Rightarrow> u64 list \<Rightarrow> 't \<Rightarrow> (fault + ('t, 'f) les) \<times> 't" where
  "evaluate_location_expression env cmds args t =
     (case eval_cmds env cmds \<lparr>le_target = t, le_stk = [], le_pieces = [], le_args = args, le_state_args = args, le_args_copied = False, le_sft_cmd = None\<rparr> of
        (Inl e, s) \<Rightarrow> (Inl e, le_target s)
      | (Inr _, s) \<Rightarrow>
          (Inr (case le_stk s of [y, x] \<Rightarrow> s\<lparr>le_stk := [x + y]\<rparr> | _ \<Rightarrow> s), le_target s))"

end
