(* ===== verification/FrameInfo.thy ===== *)
theory FrameInfo
  imports DwarfIO LocExpr
begin

text \<open>
  Unwinding of stack frames: src/agent/tcf/services/dwarfframe.c. The sections .debug_frame and .eh_frame of a file have a description of each function's
  frame (an FDE, which refers to common information, a CIE): instructions that say, for each address of the function, where the caller's
  registers are. The agent executes the instructions up to the address it is interested in and turns the rules it got into location expressions (theory LocExpr).

  \<open>fr\<close> has the static variables of dwarfframe.c. Arrays that grow as needed are lists. The environment \<open>frame_env\<close> is code of other components: relocation,
  mapping of addresses to where the file is loaded, and the register definitions of the target.
\<close>

unbundle bit_operations_syntax

section \<open>State\<close>

abbreviation (input) "EM_386 \<equiv> (3 :: nat)"
abbreviation (input) "EM_PPC \<equiv> (20 :: nat)"
abbreviation (input) "EM_PPC64 \<equiv> (21 :: nat)"
abbreviation (input) "EM_V800 \<equiv> (36 :: nat)"
abbreviation (input) "EM_ARM \<equiv> (40 :: nat)"
abbreviation (input) "EM_SPARCV9 \<equiv> (43 :: nat)"
abbreviation (input) "EM_TRICORE \<equiv> (44 :: nat)"
abbreviation (input) "EM_X86_64 \<equiv> (62 :: nat)"
abbreviation (input) "EM_V850 \<equiv> (87 :: nat)"
abbreviation (input) "EM_AARCH64 \<equiv> (183 :: nat)"
abbreviation (input) "EM_MICROBLAZE \<equiv> (189 :: nat)"
abbreviation (input) "EM_RISCV \<equiv> (243 :: nat)"

datatype frame_rule = RULE_NONE | RULE_OFFSET | RULE_SAME_VALUE | RULE_REGISTER | RULE_EXPRESSION | RULE_VAL_OFFSET | RULE_VAL_EXPRESSION

record FrameInfoRange =
  fi_section :: u32
  fi_addr :: u64
  fi_size :: u64
  fi_offset :: u64

record FrameInfoIndex =
  ix_file :: ELF_File
  ix_section :: ELF_Section
  ix_relocatable :: bool
  ix_ranges :: "FrameInfoRange list"

record RegisterRules =
  rr_rule :: frame_rule
  rr_offset :: u32
  rr_expression :: u64

record StackFrameRegisters =
  cfa_rule :: frame_rule
  cfa_offset :: u32
  cfa_register :: u32
  cfa_expression :: u64
  sf_regs :: "RegisterRules list"

record StackFrameRules =
  ru_file :: ELF_File
  ru_section :: ELF_Section
  ru_text_addr :: "u64 option"
  ru_eh_frame :: bool
  ru_machine :: nat
  ru_version :: byte
  ru_address_size :: byte
  ru_segment_size :: byte
  ru_code_alignment :: u32
  ru_data_alignment :: u32
  ru_cie_pos :: u64
  ru_cie_aug :: "byte list"
  ru_lsda_encoding :: byte
  ru_prh_encoding :: byte
  ru_addr_encoding :: byte
  ru_location :: u64
  ru_return_address_register :: u32

record fr =
  fr_dio :: dio
  fr_rules :: StackFrameRules
  fr_frame_regs :: StackFrameRegisters
  fr_cie_regs :: StackFrameRegisters
  fr_regs_stack :: "StackFrameRegisters list"
  fr_regs_stack_pos :: nat
  fr_trace_cmds :: "sft_cmd list"
  fr_trace_addr :: u64
  fr_trace_size :: u64
  fr_trace_fp :: "sft_cmd list"
  fr_trace_regs :: "(RegisterDefinition \<times> sft_cmd list) list"
  fr_indexes :: "FrameInfoIndex list"

record frame_env =
  fe_drl :: "ELF_Section \<Rightarrow> drl"
  fe_map_address :: "u32 option \<Rightarrow> u64 \<Rightarrow> u64 result"
  fe_reg_by_id :: "bool \<Rightarrow> u32 \<Rightarrow> RegisterDefinition result"
  fe_pc :: "RegisterDefinition option"

type_synonym 'a fm = "(fr, 'a) sx"

definition on_dio :: "(dio, 'a) sx \<Rightarrow> 'a fm" where
  "on_dio m s = (case m (fr_dio s) of (r, d) \<Rightarrow> (r, s\<lparr>fr_dio := d\<rparr>))"

definition rules :: "(StackFrameRules \<Rightarrow> 'a) \<Rightarrow> 'a fm" where
  "rules f = getP (\<lambda>s. f (fr_rules s))"

definition set_rules :: "(StackFrameRules \<Rightarrow> StackFrameRules) \<Rightarrow> unit fm" where
  "set_rules f = modP (\<lambda>s. s\<lparr>fr_rules := f (fr_rules s)\<rparr>)"

definition set_frame :: "(StackFrameRegisters \<Rightarrow> StackFrameRegisters) \<Rightarrow> unit fm" where
  "set_frame f = modP (\<lambda>s. s\<lparr>fr_frame_regs := f (fr_frame_regs s)\<rparr>)"

section \<open>Register rules\<close>

definition no_rule :: RegisterRules where
  "no_rule = \<lparr>rr_rule = RULE_NONE, rr_offset = 0, rr_expression = 0\<rparr>"

abbreviation same_value :: RegisterRules where "same_value \<equiv> no_rule\<lparr>rr_rule := RULE_SAME_VALUE\<rparr>"
abbreviation val_offset :: RegisterRules where "val_offset \<equiv> no_rule\<lparr>rr_rule := RULE_VAL_OFFSET\<rparr>"

definition in_link :: "u32 \<Rightarrow> u32 \<Rightarrow> nat \<Rightarrow> RegisterRules" where
  "in_link ra link n = (if int n = sint ra then no_rule\<lparr>rr_rule := RULE_REGISTER, rr_offset := link\<rparr> else no_rule)"

text \<open>The rules that the architecture implies for register \<open>n\<close>, and how many registers there are at least; \<open>ra\<close> is the return address register.\<close>

definition implied_rule :: "nat \<Rightarrow> u32 \<Rightarrow> nat \<Rightarrow> RegisterRules" where
  "implied_rule m ra n =
     (if m = EM_386 then (if n = 4 then val_offset else if n \<in> {3, 5, 6, 7} then same_value else no_rule)
      else if m = EM_X86_64 then (if n \<in> {3, 6, 12, 13, 14, 15} then same_value else if n = 7 then val_offset else no_rule)
      else if m = EM_PPC then
        (if n = 1 then val_offset else if 14 \<le> n \<and> n \<le> 31 \<or> 46 \<le> n \<and> n \<le> 63 then same_value else in_link ra 108 n)
      else if m = EM_PPC64 then
        (if n = 1 then val_offset else if 14 \<le> n \<and> n \<le> 31 \<or> 46 \<le> n \<and> n \<le> 63 then same_value else in_link ra 65 n)
      else if m = EM_ARM then
        (if 4 \<le> n \<and> n \<le> 11 then same_value else if n = 13 then val_offset else if n = 128 then same_value else in_link ra 14 n)
      else if m = EM_TRICORE then
        (if n \<le> 7 \<or> 18 \<le> n \<and> n \<le> 23 then same_value else if n = 26 then val_offset else in_link ra 27 n)
      else if m = EM_V800 \<or> m = EM_V850 then
        (if n = 0 \<or> 6 \<le> n \<and> n \<le> 29 then same_value else if n = 3 then val_offset else in_link ra 31 n)
      else if m = EM_MICROBLAZE then
        (if n = 0 \<or> 19 \<le> n \<and> n \<le> 31 \<or> n = 2 \<or> n = 13 \<or> n = 14 then same_value else if n = 1 then val_offset else in_link ra 15 n)
      else if m = EM_AARCH64 then
        (if 19 \<le> n \<and> n \<le> 29 then same_value else if n = 31 then val_offset else in_link ra 30 n)
      else if m = EM_RISCV then
        (if n = 0 \<or> 8 \<le> n \<and> n \<le> 9 \<or> 18 \<le> n \<and> n \<le> 27 then same_value else if n = 2 then val_offset else in_link ra 1 n)
      else no_rule)"

definition min_reg_cnt :: "nat \<Rightarrow> nat" where
  "min_reg_cnt m =
     (if m = EM_386 then 8 else if m = EM_X86_64 then 16 else if m = EM_PPC \<or> m = EM_PPC64 then 64 else if m = EM_ARM then 129
      else if m = EM_TRICORE then 50 else if m = EM_V800 \<or> m = EM_V850 \<or> m = EM_MICROBLAZE \<or> m = EM_AARCH64 then 32
      else if m = EM_RISCV then 28 else 0)"

function get_reg_loop :: "nat \<Rightarrow> u32 \<Rightarrow> int \<Rightarrow> nat \<Rightarrow> RegisterRules list \<Rightarrow> RegisterRules list" where
  "get_reg_loop m ra reg mn rs =
     (if int (length rs) \<le> reg \<or> length rs < mn then get_reg_loop m ra reg (min_reg_cnt m) (rs @ [implied_rule m ra (length rs)]) else rs)"
  by pat_completeness auto
termination
  by (relation "measure (\<lambda>(m, ra, reg, mn, rs). max (nat (reg + 1)) (max mn (min_reg_cnt m)) - length rs)") auto

declare get_reg_loop.simps [simp del]

text \<open>The register number is an \<open>int\<close>; the result of \<open>get_reg\<close> points before the array if it is negative.\<close>

definition get_reg :: "u32 \<Rightarrow> StackFrameRules \<Rightarrow> StackFrameRegisters \<Rightarrow> StackFrameRegisters" where
  "get_reg n ru sr = sr\<lparr>sf_regs := get_reg_loop (ru_machine ru) (ru_return_address_register ru) (sint n) 0 (sf_regs sr)\<rparr>"

definition reg_index :: "u32 \<Rightarrow> nat fm" where
  "reg_index n = (if sint n < 0 then fail OutOfBounds else ret (nat (sint n)))"

definition frame_reg :: "u32 \<Rightarrow> nat fm" where
  "frame_reg n = bindP (rules id) (\<lambda>ru. bindP (set_frame (get_reg n ru)) (\<lambda>_. reg_index n))"

definition cie_reg :: "u32 \<Rightarrow> RegisterRules fm" where
  "cie_reg n = bindP (rules id) (\<lambda>ru.
     bindP (modP (\<lambda>s. s\<lparr>fr_cie_regs := get_reg n ru (fr_cie_regs s)\<rparr>)) (\<lambda>_.
     bindP (reg_index n) (\<lambda>i. getP (\<lambda>s. sf_regs (fr_cie_regs s) ! i))))"

definition set_frame_reg :: "nat \<Rightarrow> (RegisterRules \<Rightarrow> RegisterRules) \<Rightarrow> unit fm" where
  "set_frame_reg i f = set_frame (\<lambda>sr. sr\<lparr>sf_regs := (sf_regs sr)[i := f (sf_regs sr ! i)]\<rparr>)"

definition clear_frame_registers :: StackFrameRegisters where
  "clear_frame_registers = \<lparr>cfa_rule = RULE_NONE, cfa_offset = 0, cfa_register = 0, cfa_expression = 0, sf_regs = []\<rparr>"

text \<open>The copy of a register set: each register of the source is also looked up in the destination, which adds the implied rules there.\<close>

definition copy_register_rules :: "StackFrameRules \<Rightarrow> StackFrameRegisters \<Rightarrow> StackFrameRegisters" where
  "copy_register_rules ru src =
     fold (\<lambda>n dst. (get_reg (of_nat n) ru dst)\<lparr>sf_regs := (sf_regs (get_reg (of_nat n) ru dst))[n := sf_regs src ! n]\<rparr>) [0..<length (sf_regs src)]
       (src\<lparr>sf_regs := []\<rparr>)"

definition get_regs_stack_item :: "nat \<Rightarrow> StackFrameRegisters list \<Rightarrow> StackFrameRegisters list" where
  "get_regs_stack_item n st = st @ replicate (Suc n - length st) clear_frame_registers"

section \<open>Pointers in frame information\<close>

definition EH_PE_omit :: byte where "EH_PE_omit = 0xff"

text \<open>An indirect pointer: the value is read from the section that has the address, zero if none has.\<close>

definition read_indirect :: "ELF_File \<Rightarrow> nat \<Rightarrow> u64 \<Rightarrow> u64 fm" where
  "read_indirect file sz v =
     (case find (\<lambda>sec. es_alloc sec \<and> es_addr sec \<le> v \<and> es_addr sec + es_size sec \<ge> v + of_nat sz) (tl (ef_sections file)) of
        None \<Rightarrow> ret 0
      | Some sec \<Rightarrow> bindP (liftE (es_data sec)) (\<lambda>data.
          let bs = take sz (drop (unat (v - es_addr sec)) data)
          in if length bs < sz then fail OutOfBounds else ret (bytes_value (if ef_big_endian file then bs else rev bs))))"

definition pointer_base :: "byte \<Rightarrow> bool \<Rightarrow> u64 \<Rightarrow> u64 fm" where
  "pointer_base encoding with_sec func_addr =
     bindP (on_dio dio_GetPos) (\<lambda>pos. bindP (rules id) (\<lambda>ru.
       let base = drop_bit 4 encoding AND 7 in
       if base = 0 \<or> base = 4 then ret func_addr
       else if base = 1 then ret (if with_sec then pos + es_addr (ru_section ru) else 0)
       else if base = 3 then ret (if with_sec then es_addr (ru_section ru) else 0)
       else if base = 2 then ret (case ru_text_addr ru of Some a \<Rightarrow> (if with_sec then a else 0) | None \<Rightarrow> 0)
       else if base = 5 then
         (let sz = ucast (ru_address_size ru) in
          if sz = 0 then fail BadArith
          else bindP (if pos mod sz \<noteq> 0 then on_dio (dio_SetPos (pos + (sz - pos mod sz))) else ret ()) (\<lambda>_. ret 0))
       else fail (Exc ERR_INV_DWARF)))"

definition read_frame_data_pointer :: "frame_env \<Rightarrow> byte \<Rightarrow> bool \<Rightarrow> u64 \<Rightarrow> (u64 \<times> u32 option) fm" where
  "read_frame_data_pointer env encoding with_sec func_addr =
     (if encoding = EH_PE_omit then ret (0, None)
      else bindP (pointer_base encoding with_sec func_addr) (\<lambda>v. bindP (rules id) (\<lambda>ru.
        let drl = fe_drl env (ru_section ru); form = encoding AND 0xf;
            plus = (\<lambda>f. bindP f (\<lambda>(x, sec). ret (v + x, sec)))
        in bindP
          (if form = 0x00 then plus (on_dio (dio_ReadAddress drl))
           else if form = 0x01 then bindP (on_dio dio_ReadU8LEB128) (\<lambda>x. ret (v + x, None))
           else if form = 0x02 then plus (on_dio (dio_ReadAddressX drl 2))
           else if form = 0x03 then plus (on_dio (dio_ReadAddressX drl 4))
           else if form = 0x04 then plus (on_dio (dio_ReadAddressX drl 8))
           else if form = 0x09 then bindP (on_dio dio_ReadS8LEB128) (\<lambda>x. ret (v + x, None))
           else if form = 0x0a then bindP (on_dio (dio_ReadAddressX drl 2)) (\<lambda>(x, sec). ret (v + scast (ucast x :: u16), sec))
           else if form = 0x0b then bindP (on_dio (dio_ReadAddressX drl 4)) (\<lambda>(x, sec). ret (v + scast (ucast x :: u32), sec))
           else if form = 0x0c then plus (on_dio (dio_ReadAddressX drl 8))
           else fail (Exc ERR_INV_DWARF))
          (\<lambda>(w, sec).
             if encoding AND 0x80 \<noteq> 0
             then bindP (read_indirect (ru_file ru) (unat (ru_address_size ru)) w) (\<lambda>x. ret (x, sec))
             else ret (w, sec)))))"

section \<open>Instructions\<close>

abbreviation (input) "CFA_nop \<equiv> (0x00 :: byte)"
abbreviation (input) "CFA_set_loc \<equiv> (0x01 :: byte)"
abbreviation (input) "CFA_advance_loc1 \<equiv> (0x02 :: byte)"
abbreviation (input) "CFA_advance_loc2 \<equiv> (0x03 :: byte)"
abbreviation (input) "CFA_advance_loc4 \<equiv> (0x04 :: byte)"
abbreviation (input) "CFA_offset_extended \<equiv> (0x05 :: byte)"
abbreviation (input) "CFA_restore_extended \<equiv> (0x06 :: byte)"
abbreviation (input) "CFA_undefined \<equiv> (0x07 :: byte)"
abbreviation (input) "CFA_same_value \<equiv> (0x08 :: byte)"
abbreviation (input) "CFA_register \<equiv> (0x09 :: byte)"
abbreviation (input) "CFA_remember_state \<equiv> (0x0a :: byte)"
abbreviation (input) "CFA_restore_state \<equiv> (0x0b :: byte)"
abbreviation (input) "CFA_def_cfa \<equiv> (0x0c :: byte)"
abbreviation (input) "CFA_def_cfa_register \<equiv> (0x0d :: byte)"
abbreviation (input) "CFA_def_cfa_offset \<equiv> (0x0e :: byte)"
abbreviation (input) "CFA_def_cfa_expression \<equiv> (0x0f :: byte)"
abbreviation (input) "CFA_expression \<equiv> (0x10 :: byte)"
abbreviation (input) "CFA_offset_extended_sf \<equiv> (0x11 :: byte)"
abbreviation (input) "CFA_def_cfa_sf \<equiv> (0x12 :: byte)"
abbreviation (input) "CFA_def_cfa_offset_sf \<equiv> (0x13 :: byte)"
abbreviation (input) "CFA_val_offset \<equiv> (0x14 :: byte)"
abbreviation (input) "CFA_val_offset_sf \<equiv> (0x15 :: byte)"
abbreviation (input) "CFA_val_expression \<equiv> (0x16 :: byte)"
abbreviation (input) "CFA_GNU_window_save \<equiv> (0x2d :: byte)"
abbreviation (input) "CFA_GNU_args_size \<equiv> (0x2e :: byte)"
abbreviation (input) "CFA_GNU_negative_offset_ext \<equiv> (0x2f :: byte)"

abbreviation read_uleb :: "u32 fm" where "read_uleb \<equiv> on_dio dio_ReadULEB128"
abbreviation read_sleb :: "u32 fm" where "read_sleb \<equiv> on_dio dio_ReadSLEB128"

definition advance_loc :: "u32 \<Rightarrow> unit fm" where
  "advance_loc n = set_rules (\<lambda>ru. ru\<lparr>ru_location := ru_location ru + ucast (n * ru_code_alignment ru)\<rparr>)"

text \<open>A rule with an operand: the rule is set before the operand is read. \<open>operand\<close> reads it.\<close>

definition reg_rule :: "u32 \<Rightarrow> frame_rule \<Rightarrow> u32 fm \<Rightarrow> unit fm" where
  "reg_rule n rule operand =
     bindP (frame_reg n) (\<lambda>i.
     bindP (set_frame_reg i (rr_rule_update (\<lambda>_. rule))) (\<lambda>_.
     bindP operand (\<lambda>x.
     set_frame_reg i (rr_offset_update (\<lambda>_. x)))))"

definition factored :: "u32 fm \<Rightarrow> u32 fm" where
  "factored operand = bindP operand (\<lambda>x. bindP (rules ru_data_alignment) (\<lambda>a. ret (x * a)))"

definition reg_expression :: "u32 \<Rightarrow> frame_rule \<Rightarrow> unit fm" where
  "reg_expression n rule =
     bindP (frame_reg n) (\<lambda>i.
     bindP (set_frame_reg i (rr_rule_update (\<lambda>_. rule))) (\<lambda>_.
     bindP read_uleb (\<lambda>sz.
     bindP (set_frame_reg i (rr_offset_update (\<lambda>_. sz))) (\<lambda>_.
     bindP (on_dio dio_GetPos) (\<lambda>pos.
     bindP (set_frame_reg i (rr_expression_update (\<lambda>_. pos))) (\<lambda>_.
     on_dio (dio_Skip (scast sz))))))))"

definition restore_reg :: "u32 \<Rightarrow> unit fm" where
  "restore_reg n = bindP (frame_reg n) (\<lambda>i. bindP (cie_reg n) (\<lambda>r. set_frame_reg i (\<lambda>_. r)))"

definition remember_state :: "unit fm" where
  "remember_state =
     bindP (rules id) (\<lambda>ru. modP (\<lambda>s. let p = fr_regs_stack_pos s in
       s\<lparr>fr_regs_stack_pos := p + 1, fr_regs_stack := (get_regs_stack_item p (fr_regs_stack s))[p := copy_register_rules ru (fr_frame_regs s)]\<rparr>))"

definition restore_state :: "unit fm" where
  "restore_state =
     bindP (getP fr_regs_stack_pos) (\<lambda>p.
       if p = 0 then fail (Exc ERR_INV_DWARF)
       else bindP (rules id) (\<lambda>ru. modP (\<lambda>s. s\<lparr>fr_regs_stack_pos := p - 1, fr_regs_stack := get_regs_stack_item (p - 1) (fr_regs_stack s),
              fr_frame_regs := copy_register_rules ru (get_regs_stack_item (p - 1) (fr_regs_stack s) ! (p - 1))\<rparr>)))"

definition set_cfa_rule :: "frame_rule \<Rightarrow> unit fm" where
  "set_cfa_rule r = set_frame (cfa_rule_update (\<lambda>_. r))"

definition read_cfa_register :: "unit fm" where
  "read_cfa_register = bindP read_uleb (\<lambda>n. set_frame (cfa_register_update (\<lambda>_. n)))"

definition read_cfa_offset :: "u32 fm \<Rightarrow> unit fm" where
  "read_cfa_offset operand = bindP operand (\<lambda>x. set_frame (cfa_offset_update (\<lambda>_. x)))"

definition cfa_expr :: "unit fm" where
  "cfa_expr =
     bindP (set_cfa_rule RULE_EXPRESSION) (\<lambda>_.
     bindP (read_cfa_offset read_uleb) (\<lambda>_.
     bindP (on_dio dio_GetPos) (\<lambda>pos.
     bindP (set_frame (cfa_expression_update (\<lambda>_. pos))) (\<lambda>_.
     bindP (getP (\<lambda>s. cfa_offset (fr_frame_regs s))) (\<lambda>sz. on_dio (dio_Skip (scast sz)))))))"

definition window_save :: "unit fm" where
  "window_save =
     bindP (rules ru_machine) (\<lambda>m.
     bindP (for_each (\<lambda>n. reg_rule (of_nat n) RULE_REGISTER (ret (of_nat n + 16))) [8..<16]) (\<lambda>_.
     for_each (\<lambda>n. reg_rule (of_nat n) RULE_OFFSET (ret ((of_nat n - 16) * (if m = EM_SPARCV9 then 8 else 4)))) [16..<32]))"

definition short_instruction :: "byte \<Rightarrow> unit fm" where
  "short_instruction op =
     (let k = drop_bit 6 op; n = ucast (op AND 0x3f) in
      if k = 0 then fail (Exc ERR_INV_DWARF)
      else if k = 1 then advance_loc n
      else if k = 2 then reg_rule n RULE_OFFSET (factored read_uleb)
      else restore_reg n)"

definition exec_op :: "frame_env \<Rightarrow> u64 \<Rightarrow> byte \<Rightarrow> unit fm" where
  "exec_op env func_addr op =
     (if op = CFA_nop then ret ()
      else if op = CFA_set_loc then
        bindP (rules ru_addr_encoding) (\<lambda>e. bindP (read_frame_data_pointer env e True func_addr) (\<lambda>(a, _). set_rules (ru_location_update (\<lambda>_. a))))
      else if op = CFA_advance_loc1 then bindP (on_dio dio_ReadU1) (\<lambda>n. advance_loc (ucast n))
      else if op = CFA_advance_loc2 then bindP (on_dio dio_ReadU2) (\<lambda>n. advance_loc (ucast n))
      else if op = CFA_advance_loc4 then bindP (on_dio dio_ReadU4) advance_loc
      else if op = CFA_offset_extended then bindP read_uleb (\<lambda>n. reg_rule n RULE_OFFSET (factored read_uleb))
      else if op = CFA_restore_extended then bindP read_uleb restore_reg
      else if op = CFA_undefined then bindP read_uleb (\<lambda>n. bindP (frame_reg n) (\<lambda>i. set_frame_reg i (\<lambda>_. no_rule)))
      else if op = CFA_same_value then bindP read_uleb (\<lambda>n. bindP (frame_reg n) (\<lambda>i. set_frame_reg i (rr_rule_update (\<lambda>_. RULE_SAME_VALUE))))
      else if op = CFA_register then bindP read_uleb (\<lambda>n. reg_rule n RULE_REGISTER read_uleb)
      else if op = CFA_remember_state then remember_state
      else if op = CFA_restore_state then restore_state
      else if op = CFA_def_cfa then bindP (set_cfa_rule RULE_OFFSET) (\<lambda>_. bindP read_cfa_register (\<lambda>_. read_cfa_offset read_uleb))
      else if op = CFA_def_cfa_register then bindP (set_cfa_rule RULE_OFFSET) (\<lambda>_. read_cfa_register)
      else if op = CFA_def_cfa_offset then bindP (set_cfa_rule RULE_OFFSET) (\<lambda>_. read_cfa_offset read_uleb)
      else if op = CFA_def_cfa_expression then cfa_expr
      else if op = CFA_expression then bindP read_uleb (\<lambda>n. reg_expression n RULE_EXPRESSION)
      else if op = CFA_offset_extended_sf then bindP read_uleb (\<lambda>n. reg_rule n RULE_OFFSET (factored read_sleb))
      else if op = CFA_def_cfa_sf then bindP (set_cfa_rule RULE_OFFSET) (\<lambda>_. bindP read_cfa_register (\<lambda>_. read_cfa_offset (factored read_sleb)))
      else if op = CFA_def_cfa_offset_sf then bindP (set_cfa_rule RULE_OFFSET) (\<lambda>_. read_cfa_offset (factored read_sleb))
      else if op = CFA_val_offset then bindP read_uleb (\<lambda>n. reg_rule n RULE_VAL_OFFSET (factored read_uleb))
      else if op = CFA_val_offset_sf then bindP read_uleb (\<lambda>n. reg_rule n RULE_VAL_OFFSET (factored read_sleb))
      else if op = CFA_val_expression then bindP read_uleb (\<lambda>n. reg_expression n RULE_VAL_EXPRESSION)
      else if op = CFA_GNU_window_save then window_save
      else if op = CFA_GNU_args_size then bindP read_uleb (\<lambda>_. ret ())
      else if op = CFA_GNU_negative_offset_ext then
        bindP read_uleb (\<lambda>n. reg_rule n RULE_OFFSET (factored (bindP read_sleb (\<lambda>x. ret (- x)))))
      else short_instruction op)"

definition exec_stack_frame_instruction :: "frame_env \<Rightarrow> u64 \<Rightarrow> unit fm" where
  "exec_stack_frame_instruction env func_addr = bindP (on_dio dio_ReadU1) (exec_op env func_addr)"

section \<open>Commands\<close>

definition add_command :: "sft_cmd \<Rightarrow> unit fm" where
  "add_command cmd = modP (\<lambda>s. s\<lparr>fr_trace_cmds := fr_trace_cmds s @ [cmd]\<rparr>)"

definition add_commands :: "sft_cmd list \<Rightarrow> unit fm" where
  "add_commands cmds = for_each add_command cmds"

abbreviation add_number :: "u64 \<Rightarrow> unit fm" where
  "add_number n \<equiv> add_command (SFT_CMD_NUMBER n)"

definition big_endian_file :: "bool fm" where
  "big_endian_file = rules (\<lambda>ru. ef_big_endian (ru_file ru))"

definition reg_by_id :: "frame_env \<Rightarrow> u32 \<Rightarrow> RegisterDefinition result fm" where
  "reg_by_id env n = rules (\<lambda>ru. fe_reg_by_id env (ru_eh_frame ru) n)"

definition base_register :: "frame_env \<Rightarrow> u32 \<Rightarrow> u64 \<Rightarrow> unit fm" where
  "base_register env n offs =
     bindP (reg_by_id env n) (\<lambda>r. bindP (liftE r) (\<lambda>def.
       add_commands (SFT_CMD_RD_REG def # (if offs \<noteq> 0 then [SFT_CMD_NUMBER offs, SFT_CMD_ADD] else []))))"

definition expression_op :: "frame_env \<Rightarrow> byte \<Rightarrow> unit fm" where
  "expression_op env op =
     (if op = 0x03 then
        bindP (rules id) (\<lambda>ru. bindP (on_dio (dio_ReadAddress (fe_drl env (ru_section ru)))) (\<lambda>(a, sec).
          bindP (liftE (fe_map_address env sec a)) add_number))
      else if op = 0x06 then
        bindP (rules ru_address_size) (\<lambda>sz. bindP big_endian_file (\<lambda>be. add_command (SFT_CMD_RD_MEM (ucast sz) be)))
      else if op = 0x94 then
        bindP (on_dio dio_ReadU1) (\<lambda>sz. bindP big_endian_file (\<lambda>be. add_command (SFT_CMD_RD_MEM (ucast sz) be)))
      else if op = 0x08 then bindP (on_dio dio_ReadU1) (\<lambda>x. add_number (ucast x))
      else if op = 0x09 then bindP (on_dio dio_ReadU1) (\<lambda>x. add_number (scast x))
      else if op = 0x0a then bindP (on_dio dio_ReadU2) (\<lambda>x. add_number (ucast x))
      else if op = 0x0b then bindP (on_dio dio_ReadU2) (\<lambda>x. add_number (scast x))
      else if op = 0x0c then bindP (on_dio dio_ReadU4) (\<lambda>x. add_number (ucast x))
      else if op = 0x0d then bindP (on_dio dio_ReadU4) (\<lambda>x. add_number (scast x))
      else if op = 0x0e \<or> op = 0x0f then bindP (on_dio dio_ReadU8) add_number
      else if op = 0x10 then bindP (on_dio dio_ReadU8LEB128) add_number
      else if op = 0x11 then bindP (on_dio dio_ReadS8LEB128) add_number
      else if op = 0x1a then add_command SFT_CMD_AND
      else if op = 0x1c then add_command SFT_CMD_SUB
      else if op = 0x21 then add_command SFT_CMD_OR
      else if op = 0x22 then add_command SFT_CMD_ADD
      else if op = 0x23 then bindP (on_dio dio_ReadU8LEB128) (\<lambda>x. add_commands [SFT_CMD_NUMBER x, SFT_CMD_ADD])
      else if op = 0x2a then add_command SFT_CMD_GE
      else if op = 0x2b then add_command SFT_CMD_GT
      else if op = 0x2c then add_command SFT_CMD_LE
      else if op = 0x2d then add_command SFT_CMD_LT
      else if op = 0x24 then add_command SFT_CMD_SHL
      else if 0x30 \<le> op \<and> op \<le> 0x4f then add_number (ucast (op - 0x30))
      else if 0x50 \<le> op \<and> op \<le> 0x6f then base_register env (ucast (op - 0x50)) 0
      else if op = 0x90 then bindP read_uleb (\<lambda>n. base_register env n 0)
      else if 0x70 \<le> op \<and> op \<le> 0x8f then bindP (on_dio dio_ReadS8LEB128) (base_register env (ucast (op - 0x70)))
      else if op = 0x92 then bindP read_uleb (\<lambda>n. bindP (on_dio dio_ReadS8LEB128) (base_register env n))
      else if op = 0x96 then ret ()
      else fail (Exc ERR_UNSUPPORTED))"

definition add_dwarf_expression_commands :: "frame_env \<Rightarrow> u64 \<Rightarrow> u32 \<Rightarrow> unit fm" where
  "add_dwarf_expression_commands env offs sz =
     bindP (rules id) (\<lambda>ru.
     bindP (on_dio (dio_EnterSection (ru_file ru) (ru_section ru) offs)) (\<lambda>_.
     loopP (\<lambda>s. dio_pos (fr_dio s) < offs + ucast sz) (bindP (on_dio dio_ReadU1) (expression_op env))))"

text \<open>The commands for one register. \<open>dst\<close> is the register in the caller's frame, \<open>src\<close> the one with the same number in the frame that is unwound.\<close>

definition rule_commands :: "frame_env \<Rightarrow> RegisterRules \<Rightarrow> RegisterDefinition \<Rightarrow> RegisterDefinition option \<Rightarrow> bool fm" where
  "rule_commands env reg dst src =
     bindP big_endian_file (\<lambda>be.
       let rd = SFT_CMD_RD_MEM (of_nat (rd_size dst)) be in
       case rr_rule reg of
         RULE_OFFSET \<Rightarrow>
           bindP (add_commands (SFT_CMD_FP # (if rr_offset reg \<noteq> 0 then [SFT_CMD_NUMBER (scast (rr_offset reg)), SFT_CMD_ADD] else []) @ [rd])) (\<lambda>_. ret True)
       | RULE_VAL_OFFSET \<Rightarrow>
           bindP (add_commands (SFT_CMD_FP # (if rr_offset reg \<noteq> 0 then [SFT_CMD_NUMBER (scast (rr_offset reg)), SFT_CMD_ADD] else []))) (\<lambda>_. ret True)
       | RULE_SAME_VALUE \<Rightarrow> (case src of None \<Rightarrow> ret False | Some def \<Rightarrow> bindP (add_command (SFT_CMD_RD_REG def)) (\<lambda>_. ret True))
       | RULE_REGISTER \<Rightarrow>
           bindP (reg_by_id env (rr_offset reg)) (\<lambda>r. case r of Inl _ \<Rightarrow> ret True | Inr def \<Rightarrow> bindP (add_command (SFT_CMD_RD_REG def)) (\<lambda>_. ret True))
       | RULE_EXPRESSION \<Rightarrow>
           bindP (add_command SFT_CMD_FP) (\<lambda>_. bindP (add_dwarf_expression_commands env (rr_expression reg) (rr_offset reg)) (\<lambda>_.
             bindP (add_command rd) (\<lambda>_. ret True)))
       | RULE_VAL_EXPRESSION \<Rightarrow>
           bindP (add_command SFT_CMD_FP) (\<lambda>_. bindP (add_dwarf_expression_commands env (rr_expression reg) (rr_offset reg)) (\<lambda>_. ret True))
       | RULE_NONE \<Rightarrow> fail (Exc ERR_INV_DWARF))"

text \<open>What some architectures add: the return address of MicroBlaze is that of the call, bit 0 of an ARM address says which instruction set.\<close>

definition machine_commands :: "RegisterDefinition \<Rightarrow> StackFrameRules \<Rightarrow> sft_cmd list" where
  "machine_commands dst ru =
     (if ru_machine ru = EM_MICROBLAZE \<and> rd_dwarf_id dst = 32 \<and> ru_return_address_register ru = 15 then [SFT_CMD_NUMBER 8, SFT_CMD_ADD] else []) @
     (if ru_machine ru = EM_ARM \<and> rd_dwarf_id dst = 15 then [SFT_CMD_NUMBER 0xfffffffe, SFT_CMD_AND] else [])"

definition generate_register_commands :: "frame_env \<Rightarrow> RegisterRules \<Rightarrow> RegisterDefinition option \<Rightarrow> RegisterDefinition option \<Rightarrow> unit fm" where
  "generate_register_commands env reg dst_def src =
     (case dst_def of
        None \<Rightarrow> ret ()
      | Some dst \<Rightarrow>
          bindP (modP (fr_trace_cmds_update (\<lambda>_. []))) (\<lambda>_.
          bindP (rule_commands env reg dst src) (\<lambda>go.
            if \<not> go then ret ()
            else bindP (rules (machine_commands dst)) (\<lambda>cmds. bindP (add_commands cmds) (\<lambda>_.
              modP (\<lambda>s. if fr_trace_cmds s = [] then s else s\<lparr>fr_trace_regs := fr_trace_regs s @ [(dst, fr_trace_cmds s)]\<rparr>))))))"

definition def_by_id :: "frame_env \<Rightarrow> u32 \<Rightarrow> RegisterDefinition option fm" where
  "def_by_id env n = bindP (reg_by_id env n) (\<lambda>r. ret (case r of Inl _ \<Rightarrow> None | Inr def \<Rightarrow> Some def))"

definition cfa_commands :: "frame_env \<Rightarrow> StackFrameRegisters \<Rightarrow> unit fm" where
  "cfa_commands env sr =
     (case cfa_rule sr of
        RULE_OFFSET \<Rightarrow>
          bindP (def_by_id env (cfa_register sr)) (\<lambda>r. bindP (rules ru_machine) (\<lambda>m.
            case r of
              None \<Rightarrow> ret ()
            | Some def \<Rightarrow>
                add_commands ((if m = EM_TRICORE \<and> rd_dwarf_id def = 41 then SFT_CMD_RD_REG_PCXI_TRICORE def else SFT_CMD_RD_REG def) #
                  (if cfa_offset sr \<noteq> 0 then [SFT_CMD_NUMBER (scast (cfa_offset sr)), SFT_CMD_ADD] else []))))
      | RULE_EXPRESSION \<Rightarrow> add_dwarf_expression_commands env (cfa_expression sr) (cfa_offset sr)
      | _ \<Rightarrow> fail (Exc ERR_INV_DWARF))"

definition generate_commands :: "frame_env \<Rightarrow> unit fm" where
  "generate_commands env =
     bindP (rules ru_return_address_register) (\<lambda>ra.
     bindP (frame_reg ra) (\<lambda>i.
     bindP (getP (\<lambda>s. sf_regs (fr_frame_regs s))) (\<lambda>rs.
     bindP (if rr_rule (rs ! i) = RULE_NONE then ret ()
            else bindP (def_by_id env ra) (\<lambda>def. generate_register_commands env (rs ! i) (fe_pc env) def)) (\<lambda>_.
     bindP (for_each (\<lambda>n. if rr_rule (rs ! n) = RULE_NONE then ret ()
                           else bindP (def_by_id env (of_nat n)) (\<lambda>def. generate_register_commands env (rs ! n) def def)) [0..<length rs]) (\<lambda>_.
     bindP (modP (fr_trace_cmds_update (\<lambda>_. []))) (\<lambda>_.
     bindP (getP fr_frame_regs) (\<lambda>sr.
     bindP (cfa_commands env sr) (\<lambda>_.
     modP (\<lambda>s. s\<lparr>fr_trace_fp := fr_trace_cmds s\<rparr>)))))))))"

section \<open>Procedure linkage table\<close>

definition no_rules :: StackFrameRules where
  "no_rules = \<lparr>ru_file = \<lparr>ef_sections = [], ef_big_endian = False, ef_elf64 = False, ef_machine = 0\<rparr>,
     ru_section = \<lparr>es_index = 0, es_name = None, es_addr = 0, es_size = 0, es_alignment = 0, es_alloc = False, es_data = Inr []\<rparr>,
     ru_text_addr = None, ru_eh_frame = False, ru_machine = 0, ru_version = 0, ru_address_size = 0, ru_segment_size = 0, ru_code_alignment = 0,
     ru_data_alignment = 0, ru_cie_pos = 0, ru_cie_aug = [], ru_lsda_encoding = 0, ru_prh_encoding = 0, ru_addr_encoding = 0, ru_location = 0,
     ru_return_address_register = 0\<rparr>"

definition plt_offset :: "u64 \<Rightarrow> u32 \<Rightarrow> u32" where
  "plt_offset offs w = (if offs = 0 then 2 * w else if offs < 16 then 3 * w else if (offs - 16) mod 16 < 11 then w else 2 * w)"

definition plt_frame :: "frame_env \<Rightarrow> u32 \<Rightarrow> u32 \<Rightarrow> u32 \<Rightarrow> unit fm" where
  "plt_frame env ra reg offs =
     bindP (set_rules (ru_return_address_register_update (\<lambda>_. ra))) (\<lambda>_.
     set_frame (\<lambda>sr. sr\<lparr>cfa_rule := RULE_OFFSET, cfa_register := reg, cfa_offset := offs\<rparr>))"

definition generate_plt_section_commands :: "frame_env \<Rightarrow> ELF_File \<Rightarrow> u64 \<Rightarrow> unit fm" where
  "generate_plt_section_commands env file offs =
     bindP (set_rules (\<lambda>_. no_rules\<lparr>ru_file := file, ru_machine := ef_machine file, ru_address_size := (if ef_elf64 file then 8 else 4)\<rparr>)) (\<lambda>_.
     bindP (modP (\<lambda>s. s\<lparr>fr_cie_regs := clear_frame_registers, fr_frame_regs := clear_frame_registers\<rparr>)) (\<lambda>_.
       let m = ef_machine file in
       if m = EM_386 then
         bindP (plt_frame env 8 4 (plt_offset offs 4)) (\<lambda>_. bindP (reg_rule 8 RULE_OFFSET (ret (- 4))) (\<lambda>_. generate_commands env))
       else if m = EM_X86_64 then
         bindP (plt_frame env 16 7 (plt_offset offs 8)) (\<lambda>_. bindP (reg_rule 16 RULE_OFFSET (ret (- 8))) (\<lambda>_. generate_commands env))
       else if m = EM_PPC then bindP (plt_frame env 108 1 0) (\<lambda>_. generate_commands env)
       else if m = EM_PPC64 then bindP (plt_frame env 65 1 0) (\<lambda>_. generate_commands env)
       else if m = EM_ARM then bindP (plt_frame env 14 13 0) (\<lambda>_. generate_commands env)
       else if m = EM_MICROBLAZE then bindP (plt_frame env 15 1 0) (\<lambda>_. generate_commands env)
       else if m = EM_AARCH64 then bindP (plt_frame env 30 31 0) (\<lambda>_. generate_commands env)
       else if m = EM_RISCV then bindP (plt_frame env 1 2 0) (\<lambda>_. generate_commands env)
       else ret ()))"

section \<open>Common information and frame descriptions\<close>

text \<open>The length of an entry: 32 bits, or 64 bits behind a marker. The second component says which.\<close>

definition read_length :: "(u64 \<times> bool) fm" where
  "read_length =
     bindP (on_dio dio_ReadU4) (\<lambda>n. if n = - 1 then bindP (on_dio dio_ReadU8) (\<lambda>m. ret (m, True)) else ret (ucast n, False))"

definition aug_item :: "frame_env \<Rightarrow> byte \<Rightarrow> unit fm" where
  "aug_item env c =
     (if c = 0x4c then bindP (on_dio dio_ReadU1) (\<lambda>e. set_rules (ru_lsda_encoding_update (\<lambda>_. e)))
      else if c = 0x50 then
        bindP (on_dio dio_ReadU1) (\<lambda>e. bindP (set_rules (ru_prh_encoding_update (\<lambda>_. e))) (\<lambda>_.
        bindP (on_dio dio_GetPos) (\<lambda>pos.
        catch (bindP (read_frame_data_pointer env e False 0) (\<lambda>_. ret ()))
          (\<lambda>_. bindP (rules ru_address_size) (\<lambda>sz. on_dio (dio_SetPos (pos + ucast sz)))))))
      else if c = 0x52 then bindP (on_dio dio_ReadU1) (\<lambda>e. set_rules (ru_addr_encoding_update (\<lambda>_. e)))
      else ret ())"

definition has_aug_data :: "byte list \<Rightarrow> bool" where
  "has_aug_data aug \<longleftrightarrow> aug \<noteq> [] \<and> hd aug = 0x7a"

definition read_cie_aug :: "frame_env \<Rightarrow> byte list \<Rightarrow> unit fm" where
  "read_cie_aug env aug =
     (if has_aug_data aug
      then bindP read_uleb (\<lambda>len. bindP (on_dio dio_GetPos) (\<lambda>pos. bindP (for_each (aug_item env) (tl aug)) (\<lambda>_. on_dio (dio_SetPos (pos + ucast len)))))
      else ret ())"

definition read_cie_sizes :: "byte \<Rightarrow> unit fm" where
  "read_cie_sizes version =
     (if version \<ge> 4
      then bindP (on_dio dio_ReadU1) (\<lambda>a. bindP (set_rules (ru_address_size_update (\<lambda>_. a))) (\<lambda>_.
           bindP (on_dio dio_ReadU1) (\<lambda>g. set_rules (ru_segment_size_update (\<lambda>_. g)))))
      else set_rules (\<lambda>ru. ru\<lparr>ru_address_size := (if ef_elf64 (ru_file ru) then 8 else 4), ru_segment_size := 0\<rparr>))"

definition read_cie_header :: "frame_env \<Rightarrow> unit fm" where
  "read_cie_header env =
     bindP (on_dio dio_ReadU1) (\<lambda>version. bindP (set_rules (ru_version_update (\<lambda>_. version))) (\<lambda>_.
     if version \<noteq> 1 \<and> version \<noteq> 3 \<and> version \<noteq> 4 then fail (Exc ERR_INV_DWARF)
     else
       bindP (on_dio dio_ReadString) (\<lambda>aug. bindP (set_rules (ru_cie_aug_update (\<lambda>_. aug))) (\<lambda>_.
       bindP (rules ru_section) (\<lambda>sec.
       bindP (if aug = [0x65, 0x68] then bindP (on_dio (dio_ReadAddress (fe_drl env sec))) (\<lambda>_. ret ()) else ret ()) (\<lambda>_.
       bindP (read_cie_sizes version) (\<lambda>_. bindP (rules ru_segment_size) (\<lambda>seg.
       if seg \<noteq> 0 then fail (Exc ERR_INV_DWARF)
       else
         bindP read_uleb (\<lambda>ca. bindP (set_rules (ru_code_alignment_update (\<lambda>_. ca))) (\<lambda>_.
         bindP read_sleb (\<lambda>da. bindP (set_rules (ru_data_alignment_update (\<lambda>_. da))) (\<lambda>_.
         bindP read_uleb (\<lambda>ra. bindP (set_rules (\<lambda>ru. ru\<lparr>ru_return_address_register := ra, ru_lsda_encoding := 0, ru_prh_encoding := 0, ru_addr_encoding := 0\<rparr>)) (\<lambda>_.
         read_cie_aug env aug))))))))))))))"

definition exec_instructions :: "frame_env \<Rightarrow> u64 \<Rightarrow> u64 \<Rightarrow> unit fm" where
  "exec_instructions env func_addr end_pos = loopP (\<lambda>s. dio_pos (fr_dio s) < end_pos) (exec_stack_frame_instruction env func_addr)"

definition read_frame_cie :: "frame_env \<Rightarrow> u64 \<Rightarrow> unit fm" where
  "read_frame_cie env pos =
     bindP (on_dio dio_GetPos) (\<lambda>saved_pos.
     bindP (set_rules (ru_cie_pos_update (\<lambda>_. pos))) (\<lambda>_.
     bindP (rules (\<lambda>ru. es_size (ru_section ru))) (\<lambda>size.
     if pos \<ge> size then fail (Exc ERR_INV_DWARF)
     else
       bindP (on_dio (dio_SetPos pos)) (\<lambda>_.
       bindP read_length (\<lambda>(len, dwarf64).
       bindP (on_dio dio_GetPos) (\<lambda>body.
       bindP (on_dio (dio_Skip (if dwarf64 then 8 else 4))) (\<lambda>_.
       bindP (read_cie_header env) (\<lambda>_.
       bindP (modP (\<lambda>s. s\<lparr>fr_cie_regs := clear_frame_registers, fr_frame_regs := clear_frame_registers, fr_regs_stack_pos := 0\<rparr>)) (\<lambda>_.
       bindP (exec_instructions env 0 (body + len)) (\<lambda>_.
       bindP (rules id) (\<lambda>ru.
       bindP (modP (\<lambda>s. s\<lparr>fr_cie_regs := copy_register_rules ru (fr_frame_regs s)\<rparr>)) (\<lambda>_.
       on_dio (dio_SetPos saved_pos)))))))))))))"

text \<open>
  The loop over the instructions of an FDE; \<open>loc0\<close> is the start of the current row of the table. The result is the start of the row that has \<open>ip\<close>.
  \<open>None\<close>: the loop does not end.
\<close>

partial_function (option) fde_loop :: "frame_env \<Rightarrow> u64 \<Rightarrow> u64 \<Rightarrow> u64 \<Rightarrow> u64 \<Rightarrow> u64 \<Rightarrow> fr \<Rightarrow> ((fault + u64) \<times> fr) option" where
  "fde_loop env ip addr rng fde_end loc0 s =
     (if dio_pos (fr_dio s) \<ge> fde_end
      then Some (Inr loc0, s\<lparr>fr_rules := (fr_rules s)\<lparr>ru_location := addr + rng\<rparr>\<rparr>)
      else
        (case exec_stack_frame_instruction env addr s of
           (Inl e, t) \<Rightarrow> Some (Inl e, t)
         | (Inr _, t) \<Rightarrow>
             if \<not> loc0 \<le> ip then Some (Inl AssertFailed, t)
             else if ru_location (fr_rules t) > ip then Some (Inr loc0, t)
             else fde_loop env ip addr rng fde_end (ru_location (fr_rules t)) t))"

definition fde_row :: "frame_env \<Rightarrow> u64 \<Rightarrow> u64 \<Rightarrow> u64 \<Rightarrow> u64 \<Rightarrow> u64 fm" where
  "fde_row env ip addr rng fde_end s = (case fde_loop env ip addr rng fde_end addr s of None \<Rightarrow> (Inl Hangs, s) | Some r \<Rightarrow> r)"

definition is_fde :: "bool \<Rightarrow> bool \<Rightarrow> u64 \<Rightarrow> bool" where
  "is_fde eh_frame dwarf64 cie_ref = (if eh_frame then cie_ref \<noteq> 0 else if dwarf64 then cie_ref \<noteq> - 1 else cie_ref \<noteq> 0xffffffff)"

definition read_cie_ref :: "bool \<Rightarrow> u64 fm" where
  "read_cie_ref dwarf64 = (if dwarf64 then on_dio dio_ReadU8 else bindP (on_dio dio_ReadU4) (\<lambda>x. ret (ucast x)))"

definition need_cie :: "frame_env \<Rightarrow> u64 \<Rightarrow> unit fm" where
  "need_cie env cie_ref = bindP (rules ru_cie_pos) (\<lambda>p. if cie_ref \<noteq> p then read_frame_cie env cie_ref else ret ())"

definition skip_fde_aug :: "unit fm" where
  "skip_fde_aug = bindP (rules ru_cie_aug) (\<lambda>aug. if has_aug_data aug then bindP read_uleb (\<lambda>n. on_dio (dio_Skip (ucast n))) else ret ())"

definition use_row :: "frame_env \<Rightarrow> u64 \<Rightarrow> u64 \<Rightarrow> u64 \<Rightarrow> u64 \<Rightarrow> unit fm" where
  "use_row env ip addr rng loc0 =
     bindP (modP (\<lambda>s. s\<lparr>fr_trace_addr := loc0, fr_trace_size := ru_location (fr_rules s) - loc0\<rparr>)) (\<lambda>_.
     bindP (rules ru_machine) (\<lambda>m.
       if m = EM_ARM \<and> ip + 4 = addr + rng then ret ()
       else bindP (generate_commands env) (\<lambda>_.
         modP (\<lambda>s. if fr_trace_regs s = [] then s\<lparr>fr_trace_fp := [], fr_trace_addr := 0, fr_trace_size := 0\<rparr> else s))))"

definition read_frame_fde :: "frame_env \<Rightarrow> u64 \<Rightarrow> u64 \<Rightarrow> unit fm" where
  "read_frame_fde env ip fde_pos =
     bindP (rules id) (\<lambda>ru.
     bindP (on_dio (dio_EnterSection (ru_file ru) (ru_section ru) fde_pos)) (\<lambda>_.
     bindP (on_dio dio_ReadU4) (\<lambda>n.
     bindP (asserts (n > 0)) (\<lambda>_.
     bindP (if n = - 1 then bindP (on_dio dio_ReadU8) (\<lambda>m. ret (m, True)) else ret (ucast n, False)) (\<lambda>(len, dwarf64).
     bindP (on_dio dio_GetPos) (\<lambda>ref_pos.
     bindP (read_cie_ref dwarf64) (\<lambda>cie_ref.
     bindP (asserts (is_fde (ru_eh_frame ru) dwarf64 cie_ref)) (\<lambda>_.
     bindP (need_cie env (if ru_eh_frame ru then ref_pos - cie_ref else cie_ref)) (\<lambda>_.
     bindP (rules ru_addr_encoding) (\<lambda>e.
     bindP (read_frame_data_pointer env e True 0) (\<lambda>(addr, _).
     bindP (read_frame_data_pointer env e False 0) (\<lambda>(rng, _).
     bindP (asserts (addr \<le> ip \<and> addr + rng > ip)) (\<lambda>_.
     bindP skip_fde_aug (\<lambda>_.
     bindP (rules id) (\<lambda>ru1.
     bindP (modP (\<lambda>s. s\<lparr>fr_frame_regs := copy_register_rules ru1 (fr_cie_regs s), fr_rules := ru1\<lparr>ru_location := addr\<rparr>, fr_regs_stack_pos := 0\<rparr>)) (\<lambda>_.
     bindP (fde_row env ip addr rng (ref_pos + len)) (\<lambda>loc0.
     bindP (use_row env ip addr rng loc0) (\<lambda>_.
     on_dio dio_ExitSection))))))))))))))))))"

section \<open>Search index\<close>

definition set_index :: "nat \<Rightarrow> (FrameInfoIndex \<Rightarrow> FrameInfoIndex) \<Rightarrow> unit fm" where
  "set_index k f = modP (\<lambda>s. s\<lparr>fr_indexes := (fr_indexes s)[k := f (fr_indexes s ! k)]\<rparr>)"

definition set_last_range :: "nat \<Rightarrow> (FrameInfoRange \<Rightarrow> FrameInfoRange) \<Rightarrow> unit fm" where
  "set_last_range k f = set_index k (\<lambda>ix. ix\<lparr>ix_ranges := butlast (ix_ranges ix) @ [f (last (ix_ranges ix))]\<rparr>)"

definition cmp_frame_info_ranges :: "FrameInfoRange \<Rightarrow> FrameInfoRange \<Rightarrow> int" where
  "cmp_frame_info_ranges x y =
     (if fi_section x < fi_section y then - 1 else if fi_section x > fi_section y then 1
      else if fi_addr x < fi_addr y then - 1 else if fi_addr x > fi_addr y then 1 else 0)"

text \<open>\<open>qsort\<close>: any order of ranges that compare as equal would do; here they keep the order they have.\<close>

fun insert_range :: "FrameInfoRange \<Rightarrow> FrameInfoRange list \<Rightarrow> FrameInfoRange list" where
  "insert_range x [] = [x]"
| "insert_range x (y # ys) = (if cmp_frame_info_ranges x y \<le> 0 then x # y # ys else y # insert_range x ys)"

definition sort_ranges :: "FrameInfoRange list \<Rightarrow> FrameInfoRange list" where
  "sort_ranges rs = foldr insert_range rs []"

definition add_range :: "frame_env \<Rightarrow> nat \<Rightarrow> u64 \<Rightarrow> unit fm" where
  "add_range env k fde_pos =
     bindP (set_index k (\<lambda>ix. ix\<lparr>ix_ranges := ix_ranges ix @ [\<lparr>fi_section = 0, fi_addr = 0, fi_size = 0, fi_offset = 0\<rparr>]\<rparr>)) (\<lambda>_.
     bindP (rules ru_addr_encoding) (\<lambda>e.
     bindP (read_frame_data_pointer env e True 0) (\<lambda>(addr, sec).
     bindP (set_last_range k (fi_addr_update (\<lambda>_. addr))) (\<lambda>_.
     bindP (read_frame_data_pointer env e False 0) (\<lambda>(size, _).
     bindP (set_last_range k (fi_size_update (\<lambda>_. size))) (\<lambda>_.
     bindP (case sec of None \<Rightarrow> ret ()
            | Some i \<Rightarrow> bindP (set_last_range k (fi_section_update (\<lambda>_. i))) (\<lambda>_. set_index k (ix_relocatable_update (\<lambda>_. True)))) (\<lambda>_.
     set_last_range k (fi_offset_update (\<lambda>_. fde_pos)))))))))"

definition index_entry :: "frame_env \<Rightarrow> nat \<Rightarrow> unit fm" where
  "index_entry env k =
     bindP (rules id) (\<lambda>ru.
     bindP (on_dio dio_GetPos) (\<lambda>fde_pos.
     bindP (on_dio dio_ReadU4) (\<lambda>n.
     if n = 0 then ret ()
     else
       bindP (if n = - 1 then bindP (on_dio dio_ReadU8) (\<lambda>m. ret (m, True)) else ret (ucast n, False)) (\<lambda>(len, dwarf64).
       bindP (on_dio dio_GetPos) (\<lambda>ref_pos.
         let fde_end = ref_pos + len; al = ucast (es_alignment (ru_section ru)) in
         if fde_end > es_size (ru_section ru)
         then (if al > 1 \<and> fde_pos mod al \<noteq> 0 then on_dio (dio_SetPos (fde_pos + al - fde_pos mod al)) else fail (Exc ERR_INV_DWARF))
         else
           bindP (read_cie_ref dwarf64) (\<lambda>cie_ref.
           bindP (if is_fde (ru_eh_frame ru) dwarf64 cie_ref
                  then bindP (need_cie env (if ru_eh_frame ru then ref_pos - cie_ref else cie_ref)) (\<lambda>_. add_range env k fde_pos)
                  else ret ()) (\<lambda>_.
           on_dio (dio_SetPos fde_end))))))))"

definition create_search_index :: "frame_env \<Rightarrow> nat \<Rightarrow> unit fm" where
  "create_search_index env k =
     bindP (rules id) (\<lambda>ru.
     bindP (on_dio (dio_EnterSection (ru_file ru) (ru_section ru) 0)) (\<lambda>_.
     bindP (loopP (\<lambda>s. dio_pos (fr_dio s) < es_size (ru_section ru)) (index_entry env k)) (\<lambda>_.
     bindP (on_dio dio_ExitSection) (\<lambda>_.
     set_index k (\<lambda>ix. ix\<lparr>ix_ranges := sort_ranges (ix_ranges ix)\<rparr>)))))"

text \<open>The binary search: the position of the description of the function that has \<open>ip\<close>.\<close>

function search_ranges :: "u32 \<Rightarrow> u64 \<Rightarrow> FrameInfoRange list \<Rightarrow> nat \<Rightarrow> nat \<Rightarrow> u64 option" where
  "search_ranges sec ip rs l h =
     (if l < h
      then
        (let k = (l + h) div 2; r = rs ! k in
         if sec < fi_section r then search_ranges sec ip rs l k
         else if sec > fi_section r then search_ranges sec ip rs (k + 1) h
         else if fi_addr r > ip then search_ranges sec ip rs l k
         else if fi_addr r + fi_size r < fi_addr r then Some (fi_offset r)
         else if fi_addr r + fi_size r \<le> ip then search_ranges sec ip rs (k + 1) h
         else Some (fi_offset r))
      else None)"
  by pat_completeness auto
termination
  by (relation "measure (\<lambda>(sec, ip, rs, l, h). h - l)") auto

declare search_ranges.simps [simp del]

text \<open>The section of the same name in the file that has the debug information, when that is another file.\<close>

definition text_in_file :: "ELF_File \<Rightarrow> bool \<Rightarrow> ELF_Section option \<Rightarrow> ELF_Section option" where
  "text_in_file file elsewhere text =
     (case text of
        None \<Rightarrow> None
      | Some t \<Rightarrow>
          if elsewhere
          then (case find (\<lambda>sec. es_name sec \<noteq> None \<and> es_name sec = es_name t) (tl (ef_sections file)) of None \<Rightarrow> Some t | Some sec \<Rightarrow> Some sec)
          else Some t)"

definition start_section :: "FrameInfoIndex \<Rightarrow> ELF_Section option \<Rightarrow> StackFrameRules" where
  "start_section ix text =
     no_rules\<lparr>ru_file := ix_file ix, ru_section := ix_section ix, ru_text_addr := map_option es_addr text,
       ru_eh_frame := (es_name (ix_section ix) = Some ''.eh_frame''), ru_machine := ef_machine (ix_file ix), ru_cie_pos := - 1\<rparr>"

definition read_frame_info_section :: "frame_env \<Rightarrow> bool \<Rightarrow> ELF_Section option \<Rightarrow> u64 \<Rightarrow> nat \<Rightarrow> unit fm" where
  "read_frame_info_section env elsewhere text0 ip k =
     bindP (getP (\<lambda>s. fr_indexes s ! k)) (\<lambda>ix0.
       let text = text_in_file (ix_file ix0) elsewhere text0 in
       bindP (set_rules (\<lambda>_. start_section ix0 text)) (\<lambda>_.
       bindP (if ix_ranges ix0 = [] then create_search_index env k else ret ()) (\<lambda>_.
       bindP (getP (\<lambda>s. fr_indexes s ! k)) (\<lambda>ix.
         let sec = (case text of Some t \<Rightarrow> (if ix_relocatable ix then es_index t else 0) | None \<Rightarrow> 0) in
         case search_ranges sec ip (ix_ranges ix) 0 (length (ix_ranges ix)) of
           None \<Rightarrow> ret ()
         | Some offs \<Rightarrow> read_frame_fde env ip offs))))"

definition read_plt :: "frame_env \<Rightarrow> ELF_File \<Rightarrow> ELF_Section option \<Rightarrow> u64 \<Rightarrow> unit fm" where
  "read_plt env file text addr =
     (case text of
        None \<Rightarrow> ret ()
      | Some t \<Rightarrow>
          if es_name t = Some ''.plt''
          then
            bindP (asserts (addr \<ge> es_addr t)) (\<lambda>_.
            bindP (asserts (addr < es_addr t + es_size t)) (\<lambda>_.
            bindP (generate_plt_section_commands env file (addr - es_addr t)) (\<lambda>_.
            modP (\<lambda>s. if fr_trace_fp s \<noteq> [] then s\<lparr>fr_trace_addr := addr, fr_trace_size := 1\<rparr> else s))))
          else ret ())"

text \<open>
  The indexes of \<open>fr_indexes\<close> are those of the file with the debug information followed by those of the file itself, as in the two loops of the C code, or only the latter if
  there is one file. \<open>n\<close> is the number of the former.
\<close>

fun read_indexes :: "frame_env \<Rightarrow> ELF_File \<Rightarrow> ELF_Section option \<Rightarrow> u64 \<Rightarrow> nat \<Rightarrow> nat list \<Rightarrow> unit fm" where
  "read_indexes env file text addr n [] = read_plt env file text addr"
| "read_indexes env file text addr n (k # ks) =
     bindP (read_frame_info_section env (k < n) text addr k) (\<lambda>_.
     bindP (getP fr_trace_fp) (\<lambda>fp. if fp \<noteq> [] then ret () else read_indexes env file text addr n ks))"

definition get_dwarf_stack_frame_info :: "frame_env \<Rightarrow> ELF_File \<Rightarrow> nat \<Rightarrow> ELF_Section option \<Rightarrow> u64 \<Rightarrow> unit fm" where
  "get_dwarf_stack_frame_info env file n text addr =
     bindP (modP (\<lambda>s. s\<lparr>fr_trace_regs := [], fr_trace_fp := [], fr_trace_addr := 0, fr_trace_size := 0\<rparr>)) (\<lambda>_.
     bindP (getP (\<lambda>s. length (fr_indexes s))) (\<lambda>m. read_indexes env file text addr n [0..<m]))"

end
