(* ===== verification/FrameUnwind.thy ===== *)
theory FrameUnwind
  imports FrameInfo VMCode
begin

text \<open>
  What the unwinder (theory FrameInfo, src/agent/tcf/services/dwarfframe.c) computes: the readers of dwarfio.c invert the encodings of numbers, and the instructions of a
  frame description change the rules of the frame as the DWARF standard says. Theory FrameTable goes on with whole programs of instructions.
\<close>

unbundle bit_operations_syntax

section \<open>The bytes ahead\<close>

definition ahead :: "dio \<Rightarrow> byte list" where
  "ahead d = drop (unat (dio_pos d)) (take (unat (dio_len d)) (dio_data d))"

definition fwd :: "nat \<Rightarrow> dio \<Rightarrow> dio" where
  "fwd k d = d\<lparr>dio_pos := dio_pos d + of_nat k\<rparr>"

lemma fwd_simps [simp]:
  "fwd 0 d = d" "fwd k (fwd j d) = fwd (j + k) d" "dio_len (fwd k d) = dio_len d" "dio_data (fwd k d) = dio_data d"
  "dio_big_endian (fwd k d) = dio_big_endian d" "dio_addr_size (fwd k d) = dio_addr_size d" "dio_pos (fwd k d) = dio_pos d + of_nat k"
  by (simp_all add: fwd_def add.assoc)

lemma ahead_bounds: "ahead d = bs @ r \<Longrightarrow> bs @ r \<noteq> [] \<Longrightarrow> unat (dio_pos d) + length bs \<le> unat (dio_len d) \<and> unat (dio_pos d) + length bs \<le> length (dio_data d)"
proof -
  assume a: "ahead d = bs @ r" "bs @ r \<noteq> []"
  then have "min (unat (dio_len d)) (length (dio_data d)) - unat (dio_pos d) = length (bs @ r)" by (metis ahead_def length_drop length_take min.commute)
  moreover have "0 < length (bs @ r)" using a(2) unfolding length_greater_0_conv .
  ultimately show ?thesis unfolding length_append by linarith
qed

lemma unat_fwd:
  assumes "unat (dio_pos d) + k \<le> unat (dio_len d)"
  shows "unat (dio_pos d + of_nat k) = unat (dio_pos d) + k"
proof -
  have "unat (dio_len d) < 2 ^ LENGTH(64)" by (rule unsigned_less)
  with assms show ?thesis by (simp add: unat_word_ariths unat_of_nat)
qed

lemma ahead_fwd: "ahead d = bs @ r \<Longrightarrow> ahead (fwd (length bs) d) = r"
proof -
  assume a: "ahead d = bs @ r"
  show ?thesis
  proof (cases "bs @ r = []")
    case True
    with a show ?thesis by (simp add: fwd_def)
  next
    case False
    then have "unat (dio_pos d + of_nat (length bs)) = unat (dio_pos d) + length bs" using ahead_bounds [OF a] by (intro unat_fwd) simp
    then have "ahead (fwd (length bs) d) = drop (length bs) (ahead d)" by (simp add: ahead_def add.commute)
    with a show ?thesis by simp
  qed
qed

lemma ReadU1_at: "ahead d = b # r \<Longrightarrow> dio_ReadU1 d = (Inr b, fwd 1 d)"
proof -
  assume a: "ahead d = b # r"
  then have l: "unat (dio_pos d) < unat (dio_len d)" "unat (dio_pos d) < length (dio_data d)" using ahead_bounds [of d "[b]" r] by simp_all
  have "ahead d ! 0 = dio_data d ! unat (dio_pos d)" using l by (simp add: ahead_def)
  with a l show ?thesis by (simp add: dio_ReadU1_def fwd_def word_le_nat_alt)
qed

text \<open>The LEB128 readers read like those of the DWARF machine.\<close>

definition as_vm :: "dio \<Rightarrow> (unit, unit) vm" where
  "as_vm d = \<lparr>vm_frame = None, vm_args = [], vm_code = dio_data d, vm_code_pos = unat (dio_pos d), vm_code_len = unat (dio_len d), vm_big_endian = False, vm_addr_size = 0,
     vm_pieces = [], vm_pieces_max = 0, vm_stk = [], vm_stk_max = 0, vm_reg_def = None, vm_value = None, vm_implicit = 0\<rparr>"

lemma upcoming_as_vm [simp]: "upcoming (as_vm d) = ahead d"
  by (simp add: upcoming_def ahead_def as_vm_def)

lemma read_u1_as_vm:
  "read_u1 (as_vm d) = (case dio_ReadU1 d of (Inr b, d1) \<Rightarrow> Inr (b, as_vm d1) | (Inl e, d1) \<Rightarrow> (if e = OutOfBounds then Inl Undefined else inv_dwarf))"
proof (cases "dio_pos d < dio_len d \<and> unat (dio_pos d) < length (dio_data d)")
  case True
  then have r: "dio_ReadU1 d = (Inr (dio_data d ! unat (dio_pos d)), d\<lparr>dio_pos := dio_pos d + 1\<rparr>)" by (auto simp: dio_ReadU1_def)
  from dio_ReadU1_pos [OF this] True r show ?thesis by (simp add: read_u1_def as_vm_def)
next
  case False
  then show ?thesis by (auto simp: dio_ReadU1_def read_u1_def as_vm_def word_less_nat_alt word_le_nat_alt)
qed

lemma leb_as_vm: "leb_loop i res (as_vm d) = Inr (x, s) \<Longrightarrow> \<exists>d1. leb128_loop i res d = (Inr x, d1) \<and> s = as_vm d1 \<and> (\<exists>k. d1 = fwd k d)"
proof (induction i res d rule: leb128_loop.induct)
  case (1 i res d)
  obtain r d1 where rd: "dio_ReadU1 d = (r, d1)" by fastforce
  from 1(2) have "\<exists>n. r = Inr n"
    by (subst (asm) leb_loop.simps) (auto simp: read_u1_as_vm rd bindE_Inr_iff split: sum.splits if_splits)
  then obtain n where n: "r = Inr n" by blast
  have d1: "d1 = fwd 1 d" using dio_ReadU1_pos [of d n d1] rd n by (simp add: fwd_def)
  let ?res = "res OR push_bit i (ucast (n AND 0x7F))"
  from 1(2) have i: "i < LENGTH('a)"
    by (subst (asm) leb_loop.simps) (auto simp: read_u1_as_vm rd n Let_def split: if_splits)
  from 1(2) i have e: "(if n AND 0x80 = 0 then Inr ((?res, n, i), as_vm d1) else leb_loop (i + 7) ?res (as_vm d1)) = Inr (x, s)"
    by (subst (asm) leb_loop.simps) (simp add: read_u1_as_vm rd n Let_def)
  show ?case
  proof (cases "n AND 0x80 = 0")
    case True
    with e i rd n d1 show ?thesis by (subst leb128_loop.simps) (auto simp: Let_def)
  next
    case False
    with e have "leb_loop (i + 7) ?res (as_vm d1) = Inr (x, s)" by simp
    from 1(1) [OF rd [symmetric] n _ refl False this] i obtain d2 k where d2: "leb128_loop (i + 7) ?res d1 = (Inr x, d2)" "s = as_vm d2" "d2 = fwd k d1" by auto
    moreover have "leb128_loop i res d = leb128_loop (i + 7) ?res d1" using False i rd n by (subst leb128_loop.simps) (simp add: Let_def)
    ultimately show ?thesis using d1 by auto
  qed
qed

lemma as_vm_pos: "unat (dio_pos d) + k \<le> unat (dio_len d) \<Longrightarrow> as_vm (fwd j d) = adv k (as_vm d) \<Longrightarrow> fwd j d = fwd k d"
proof -
  assume k: "unat (dio_pos d) + k \<le> unat (dio_len d)" and e: "as_vm (fwd j d) = adv k (as_vm d)"
  from e have "unat (dio_pos d + of_nat j) = unat (dio_pos d) + k" by (simp add: as_vm_def adv_def)
  with unat_fwd [OF k] have "dio_pos d + of_nat j = dio_pos d + of_nat k" by (metis unsigned_word_eqI)
  then show ?thesis by (simp add: fwd_def)
qed

lemma leb_at:
  assumes "ahead d = bs @ r" "bs \<noteq> []" "leb_loop 0 0 (as_vm d) = Inr (x, adv (length bs) (as_vm d))"
  shows "leb128_loop 0 0 d = (Inr x, fwd (length bs) d)"
proof -
  obtain k where k: "leb128_loop 0 0 d = (Inr x, fwd k d)" "as_vm (fwd k d) = adv (length bs) (as_vm d)" using leb_as_vm [OF assms(3)] by auto
  have "fwd k d = fwd (length bs) d" using ahead_bounds [OF assms(1)] assms(2) k(2) by (intro as_vm_pos) auto
  with k show ?thesis by simp
qed

lemma leb_not_Nil: "uleb n \<noteq> []" "sleb v \<noteq> []"
  by (subst uleb.simps, simp) (subst sleb.simps, simp)

lemma ReadULEB128_at:
  assumes "ahead d = uleb n @ r" "n < 2 ^ 32"
  shows "dio_ReadULEB128 d = (Inr (of_nat n), fwd (length (uleb n)) d)"
proof -
  obtain b j where "leb_loop 0 (0 :: u32) (as_vm d) = Inr ((of_nat n, b, j), adv (length (uleb n)) (as_vm d))"
    using leb_loop_uleb [where 'a = 32 and s = "as_vm d", of n r 0 0] assms by auto
  from leb_at [OF assms(1) leb_not_Nil(1) this] show ?thesis by (simp add: dio_ReadULEB128_def bindP_def ret_def)
qed

lemma ReadU8LEB128_at:
  assumes "ahead d = uleb n @ r" "n < 2 ^ 64"
  shows "dio_ReadU8LEB128 d = (Inr (of_nat n), fwd (length (uleb n)) d)"
proof -
  obtain b j where "leb_loop 0 (0 :: u64) (as_vm d) = Inr ((of_nat n, b, j), adv (length (uleb n)) (as_vm d))"
    using leb_loop_uleb [where 'a = 64 and s = "as_vm d", of n r 0 0] assms by auto
  from leb_at [OF assms(1) leb_not_Nil(1) this] show ?thesis by (simp add: dio_ReadU8LEB128_def bindP_def ret_def)
qed

lemma leb_sleb_at:
  assumes "ahead d = sleb v @ r" "- (2 ^ (LENGTH('a::len) - 1)) \<le> v" "v < 2 ^ (LENGTH('a) - 1)"
  shows "\<exists>x n i. leb128_loop 0 (0 :: 'a word) d = (Inr (x, n, i), fwd (length (sleb v)) d) \<and> x OR push_bit i (- ucast (n AND 0x40)) = of_int v"
proof -
  have "bindE (leb_loop 0 0 (as_vm d)) (\<lambda>((x, n, j), s1). Inr (x OR push_bit j (- ucast (n AND 0x40)), s1)) =
      (Inr (of_int v :: 'a word, adv (length (sleb v)) (as_vm d)) :: (_ \<times> (unit, unit) vm) vmr)"
    using leb_loop_sleb [where 'a = 'a and s = "as_vm d", of v r 0 0] assms by simp
  then obtain x n i where l: "leb_loop 0 (0 :: 'a word) (as_vm d) = Inr ((x, n, i), adv (length (sleb v)) (as_vm d))"
      "x OR push_bit i (- ucast (n AND 0x40)) = of_int v" by (auto simp: bindE_Inr_iff)
  from leb_at [OF assms(1) leb_not_Nil(2) l(1)] l(2) show ?thesis by blast
qed

lemma ReadSLEB128_at:
  assumes "ahead d = sleb v @ r" "- (2 ^ 31) \<le> v" "v < 2 ^ 31"
  shows "dio_ReadSLEB128 d = (Inr (of_int v), fwd (length (sleb v)) d)"
  using leb_sleb_at [where 'a = 32, OF assms(1)] assms(2,3) by (auto simp: dio_ReadSLEB128_def bindP_def ret_def)

lemma ReadS8LEB128_at:
  assumes "ahead d = sleb v @ r" "- (2 ^ 63) \<le> v" "v < 2 ^ 63"
  shows "dio_ReadS8LEB128 d = (Inr (of_int v), fwd (length (sleb v)) d)"
  using leb_sleb_at [where 'a = 64, OF assms(1)] assms(2,3) by (auto simp: dio_ReadS8LEB128_def bindP_def ret_def)

lemma ReadN_at:
  assumes "ahead d = bs @ r" "bs \<noteq> []"
  shows "dio_ReadN (length bs) d = (Inr (bytes_value (if dio_big_endian d then bs else rev bs)), fwd (length bs) d)"
proof -
  note b = ahead_bounds [OF assms(1)] assms(2)
  have u: "unat (dio_pos d + of_nat (length bs)) = unat (dio_pos d) + length bs" using b by (intro unat_fwd) simp
  have "take (length bs) (ahead d) = bs" using assms(1) by simp
  then have "take (length bs) (drop (unat (dio_pos d)) (dio_data d)) = bs"
    using b by (simp add: ahead_def drop_take min_def) (smt (verit) add.commute le_add_diff_inverse2 nat_add_left_cancel_le take_take min.absorb1 le_diff_conv2 add_leD1)
  with b u show ?thesis by (simp add: dio_ReadN_def Let_def fwd_def word_less_nat_alt not_less word_le_nat_alt)
qed


lemma bytes_value_snoc: "bytes_value (bs @ [b]) = push_bit 8 (bytes_value bs) OR ucast b"
  by (simp add: bytes_value_def)

lemma byte_join: "push_bit 8 (take_bit n (drop_bit 8 v)) OR ucast (ucast v :: byte) = take_bit (n + 8) (v :: u64)"
proof (rule bit_word_eqI)
  fix k
  assume "k < LENGTH(64)"
  then show "bit (push_bit 8 (take_bit n (drop_bit 8 v)) OR ucast (ucast v :: byte)) k \<longleftrightarrow> bit (take_bit (n + 8) v) k"
    by (cases "k < 8") (auto simp: bit_or_iff bit_push_bit_iff bit_take_bit_iff bit_drop_bit_eq bit_unsigned_iff)
qed

lemma bytes_value_bytes: "bytes_value (rev (value_bytes k v)) = take_bit (8 * k) v"
proof (induction k arbitrary: v)
  case 0
  then show ?case by (simp add: bytes_value_def)
next
  case (Suc k)
  then show ?case using byte_join [of "8 * k" v] by (simp add: bytes_value_snoc add.commute)
qed

text \<open>A number of \<open>k\<close> bytes in the byte order of the file.\<close>

definition number_bytes :: "bool \<Rightarrow> nat \<Rightarrow> u64 \<Rightarrow> byte list" where
  "number_bytes be k v = (if be then rev (value_bytes k v) else value_bytes k v)"

lemma length_number_bytes [simp]: "length (number_bytes be k v) = k"
  by (simp add: number_bytes_def)

lemma ReadN_number:
  assumes "ahead d = number_bytes (dio_big_endian d) k v @ r" "0 < k"
  shows "dio_ReadN k d = (Inr (take_bit (8 * k) v), fwd k d)"
proof -
  have "number_bytes (dio_big_endian d) k v \<noteq> []" using assms(2) by (metis length_number_bytes less_not_refl list.size(3))
  from ReadN_at [OF assms(1) this] show ?thesis by (cases "dio_big_endian d") (simp_all add: number_bytes_def bytes_value_bytes)
qed

section \<open>Code on the state\<close>

lemma bind_on_dio: "m (fr_dio s) = (Inr x, d) \<Longrightarrow> bindP (on_dio m) f s = f x (s\<lparr>fr_dio := d\<rparr>)"
  by (simp add: bindP_def on_dio_def)

lemma bind_rules [pm_simps]:
  "bindP (rules g) f s = f (g (fr_rules s)) s" "bindP (set_rules h) k s = k () (s\<lparr>fr_rules := h (fr_rules s)\<rparr>)"
  "bindP (set_frame e) k s = k () (s\<lparr>fr_frame_regs := e (fr_frame_regs s)\<rparr>)"
  by (simp_all add: rules_def set_rules_def set_frame_def pm_simps)

lemma run_rules [pm_simps]: "set_rules h s = (Inr (), s\<lparr>fr_rules := h (fr_rules s)\<rparr>)" "set_frame e s = (Inr (), s\<lparr>fr_frame_regs := e (fr_frame_regs s)\<rparr>)"
  by (simp_all add: set_rules_def set_frame_def modP_def)

section \<open>Register sets\<close>

text \<open>
  The rule of a register: the one in the array, or the one that the architecture implies if the array ends before it. Looking a register up with \<open>get_reg\<close> changes the
  array but no rule.
\<close>

definition rule_of :: "nat \<Rightarrow> u32 \<Rightarrow> StackFrameRegisters \<Rightarrow> nat \<Rightarrow> RegisterRules" where
  "rule_of m ra sr n = (if n < length (sf_regs sr) then sf_regs sr ! n else implied_rule m ra n)"

lemma get_reg_loop_ext:
  "\<exists>k. length rs \<le> k \<and> get_reg_loop m ra reg mn rs = rs @ map (implied_rule m ra) [length rs..<k] \<and> reg < int k \<and> int k \<le> max (int (length rs)) (max (reg + 1) (int (max mn (min_reg_cnt m))))"
proof (induction m ra reg mn rs rule: get_reg_loop.induct)
  case (1 m ra reg mn rs)
  show ?case
  proof (cases "int (length rs) \<le> reg \<or> length rs < mn")
    case True
    with 1 obtain k where k: "Suc (length rs) \<le> k" "get_reg_loop m ra reg (min_reg_cnt m) (rs @ [implied_rule m ra (length rs)]) =
        (rs @ [implied_rule m ra (length rs)]) @ map (implied_rule m ra) [Suc (length rs)..<k]" "reg < int k"
        "int k \<le> max (int (Suc (length rs))) (max (reg + 1) (int (min_reg_cnt m)))" by auto
    then have "[length rs..<k] = length rs # [Suc (length rs)..<k]" by (simp add: upt_conv_Cons)
    with k True show ?thesis by (subst get_reg_loop.simps) (intro exI [of _ k], auto)
  next
    case False
    then show ?thesis by (subst get_reg_loop.simps) (intro exI [of _ "length rs"], auto)
  qed
qed

lemma rule_of_append: "sf_regs sr' = sf_regs sr @ map (implied_rule m ra) [length (sf_regs sr)..<k] \<Longrightarrow> rule_of m ra sr' = rule_of m ra sr"
  by (rule ext) (auto simp: rule_of_def nth_append)

lemma get_reg_view:
  "rule_of (ru_machine ru) (ru_return_address_register ru) (get_reg n ru sr) = rule_of (ru_machine ru) (ru_return_address_register ru) sr"
  "sint n < int (length (sf_regs (get_reg n ru sr)))" "cfa_rule (get_reg n ru sr) = cfa_rule sr" "cfa_offset (get_reg n ru sr) = cfa_offset sr"
  "cfa_register (get_reg n ru sr) = cfa_register sr" "cfa_expression (get_reg n ru sr) = cfa_expression sr"
  "int (length (sf_regs (get_reg n ru sr))) \<le> max (int (length (sf_regs sr))) (max (sint n + 1) (int (min_reg_cnt (ru_machine ru))))"
proof -
  obtain k where k: "length (sf_regs sr) \<le> k" "get_reg_loop (ru_machine ru) (ru_return_address_register ru) (sint n) 0 (sf_regs sr) =
      sf_regs sr @ map (implied_rule (ru_machine ru) (ru_return_address_register ru)) [length (sf_regs sr)..<k]" "sint n < int k"
      "int k \<le> max (int (length (sf_regs sr))) (max (sint n + 1) (int (min_reg_cnt (ru_machine ru))))"
    using get_reg_loop_ext [of "sf_regs sr" "ru_machine ru" "ru_return_address_register ru" "sint n" 0] by auto
  then show "rule_of (ru_machine ru) (ru_return_address_register ru) (get_reg n ru sr) = rule_of (ru_machine ru) (ru_return_address_register ru) sr"
    by (intro rule_of_append [of _ _ _ _ k]) (simp add: get_reg_def)
  from k show "sint n < int (length (sf_regs (get_reg n ru sr)))"
    "int (length (sf_regs (get_reg n ru sr))) \<le> max (int (length (sf_regs sr))) (max (sint n + 1) (int (min_reg_cnt (ru_machine ru))))"
    by (simp_all add: get_reg_def)
qed (simp_all add: get_reg_def)

text \<open>Register numbers below \<open>2 ^ 31\<close> are array indices.\<close>

lemma sint_reg: "n < 2 ^ 31 \<Longrightarrow> sint (of_nat n :: u32) = int n"
  by (simp add: signed_of_nat signed_take_bit_eq_if_positive take_bit_int_eq_self bit_iff_odd)

text \<open>What an instruction can change in a register set, in terms of the rules.\<close>

definition regs_ok :: "nat \<Rightarrow> StackFrameRegisters \<Rightarrow> bool" where
  "regs_ok m sr \<longleftrightarrow> length (sf_regs sr) \<le> 2 ^ 31 \<and> (sf_regs sr = [] \<or> min_reg_cnt m \<le> length (sf_regs sr))"

lemma min_reg_cnt_small: "min_reg_cnt m \<le> 129"
  by (simp add: min_reg_cnt_def)

lemma get_reg_bound: "n < 2 ^ 31 \<Longrightarrow> length (sf_regs sr) \<le> 2 ^ 31 \<Longrightarrow> length (sf_regs (get_reg (of_nat n) ru sr)) \<le> 2 ^ 31"
  using get_reg_view(7) [of "of_nat n" ru sr] min_reg_cnt_small [of "ru_machine ru"] sint_reg [of n] by auto

lemma get_reg_loop_min: "min_reg_cnt m \<le> length (get_reg_loop m ra reg (min_reg_cnt m) rs)"
proof (induction m ra reg "min_reg_cnt m" rs rule: get_reg_loop.induct)
  case (1 m ra reg rs)
  then show ?case by (subst get_reg_loop.simps) auto
qed

lemma get_reg_ok:
  assumes "n < 2 ^ 31" "regs_ok (ru_machine ru) sr"
  shows "regs_ok (ru_machine ru) (get_reg (of_nat n) ru sr)"
proof -
  let ?loop = "get_reg_loop (ru_machine ru) (ru_return_address_register ru) (sint (of_nat n :: u32))"
  have "?loop 0 (sf_regs sr) = sf_regs sr \<or> min_reg_cnt (ru_machine ru) \<le> length (?loop 0 (sf_regs sr))"
    by (cases "int (length (sf_regs sr)) \<le> sint (of_nat n :: u32)") (simp_all add: get_reg_loop.simps [of _ _ _ 0] get_reg_loop_min)
  with assms get_reg_bound [OF assms(1), of sr ru] show ?thesis by (auto simp: regs_ok_def get_reg_def)
qed

record aframe =
  af_rule :: frame_rule
  af_offset :: u32
  af_register :: u32
  af_expression :: u64
  af_regs :: "nat \<Rightarrow> RegisterRules"

definition frame_view :: "nat \<Rightarrow> u32 \<Rightarrow> StackFrameRegisters \<Rightarrow> aframe" where
  "frame_view m ra sr = \<lparr>af_rule = cfa_rule sr, af_offset = cfa_offset sr, af_register = cfa_register sr, af_expression = cfa_expression sr, af_regs = rule_of m ra sr\<rparr>"

lemma frame_view_simps [simp]:
  "af_rule (frame_view m ra sr) = cfa_rule sr" "af_offset (frame_view m ra sr) = cfa_offset sr" "af_register (frame_view m ra sr) = cfa_register sr"
  "af_expression (frame_view m ra sr) = cfa_expression sr" "af_regs (frame_view m ra sr) = rule_of m ra sr"
  by (simp_all add: frame_view_def)

lemma frame_view_get_reg [simp]:
  "frame_view (ru_machine ru) (ru_return_address_register ru) (get_reg n ru sr) = frame_view (ru_machine ru) (ru_return_address_register ru) sr"
  by (simp add: frame_view_def get_reg_view)

text \<open>A copy has the same rules.\<close>

lemma copy_view:
  assumes "regs_ok (ru_machine ru) src"
  shows "frame_view (ru_machine ru) (ru_return_address_register ru) (copy_register_rules ru src) = frame_view (ru_machine ru) (ru_return_address_register ru) src"
    "regs_ok (ru_machine ru) (copy_register_rules ru src)"
proof -
  let ?m = "ru_machine ru" and ?ra = "ru_return_address_register ru"
  let ?f = "\<lambda>n dst. (get_reg (of_nat n) ru dst)\<lparr>sf_regs := (sf_regs (get_reg (of_nat n) ru dst))[n := sf_regs src ! n]\<rparr>"
  let ?dst = "\<lambda>k. fold ?f [0..<k] (src\<lparr>sf_regs := []\<rparr>)"
  have inv: "cfa_rule (?dst k) = cfa_rule src \<and> cfa_offset (?dst k) = cfa_offset src \<and> cfa_register (?dst k) = cfa_register src \<and>
      cfa_expression (?dst k) = cfa_expression src \<and> k \<le> length (sf_regs (?dst k)) \<and> length (sf_regs (?dst k)) \<le> 2 ^ 31 \<and>
      rule_of ?m ?ra (?dst k) = (\<lambda>n. if n < k then sf_regs src ! n else implied_rule ?m ?ra n)" if "k \<le> length (sf_regs src)" for k
    using that
  proof (induction k)
    case (Suc k)
    let ?g = "get_reg (of_nat k) ru (?dst k)"
    have k: "k < 2 ^ 31" using Suc.prems assms by (simp add: regs_ok_def)
    then have l: "k < length (sf_regs ?g)" using get_reg_view(2) [of "of_nat k" ru "?dst k"] sint_reg [of k] by simp
    have "length (sf_regs ?g) \<le> 2 ^ 31" using Suc k by (intro get_reg_bound) simp_all
    moreover have "rule_of ?m ?ra (?g\<lparr>sf_regs := (sf_regs ?g)[k := x]\<rparr>) = (rule_of ?m ?ra ?g)(k := x)" for x using l by (auto simp: rule_of_def fun_eq_iff)
    ultimately show ?case using Suc l by (auto simp: get_reg_view fun_eq_iff)
  qed (simp add: rule_of_def fun_eq_iff)
  have "frame_view ?m ?ra (?dst (length (sf_regs src))) = frame_view ?m ?ra src" "length (sf_regs (?dst (length (sf_regs src)))) \<le> 2 ^ 31"
    "length (sf_regs src) \<le> length (sf_regs (?dst (length (sf_regs src))))"
    using inv [of "length (sf_regs src)"] by (simp_all add: frame_view_def rule_of_def fun_eq_iff)
  then show "frame_view ?m ?ra (copy_register_rules ru src) = frame_view ?m ?ra src" "regs_ok ?m (copy_register_rules ru src)"
    using assms by (auto simp: copy_register_rules_def regs_ok_def)
qed

section \<open>The table of a frame description\<close>

text \<open>
  The instructions of the DWARF standard (version 4, section 6.4.2, with the GNU extensions), and what they do to the current row of the table: its location, the rule of the
  frame address and those of the registers. \<open>ca\<close> and \<open>da\<close> are the alignment factors, \<open>ini\<close> the rules of the common information. An expression is the position of its code.
\<close>

datatype cfi =
    CfiNop | CfiAdvance nat | CfiOffset nat nat | CfiOffsetSf nat int | CfiValOffset nat nat | CfiValOffsetSf nat int | CfiNegOffset nat int
  | CfiRegister nat nat | CfiSame nat | CfiUndefined nat | CfiRestore nat | CfiRemember | CfiRestoreState
  | CfiDefCfa nat nat | CfiDefCfaSf nat int | CfiDefCfaRegister nat | CfiDefCfaOffset nat | CfiDefCfaOffsetSf int
  | CfiDefCfaExpression "byte list" | CfiExpression nat "byte list" | CfiValExpression nat "byte list" | CfiArgsSize nat

record acfi =
  ac_loc :: u64
  ac_frame :: aframe
  ac_stack :: "aframe list"

definition upd_rule :: "nat \<Rightarrow> (RegisterRules \<Rightarrow> RegisterRules) \<Rightarrow> acfi \<Rightarrow> acfi" where
  "upd_rule n f a = a\<lparr>ac_frame := (ac_frame a)\<lparr>af_regs := (af_regs (ac_frame a))(n := f (af_regs (ac_frame a) n))\<rparr>\<rparr>"

definition upd_cfa :: "(aframe \<Rightarrow> aframe) \<Rightarrow> acfi \<Rightarrow> acfi" where
  "upd_cfa f a = a\<lparr>ac_frame := f (ac_frame a)\<rparr>"

abbreviation with_offset :: "frame_rule \<Rightarrow> u32 \<Rightarrow> RegisterRules \<Rightarrow> RegisterRules" where
  "with_offset r x \<equiv> \<lambda>rr. rr\<lparr>rr_rule := r, rr_offset := x\<rparr>"

fun cfi_step :: "u32 \<Rightarrow> u32 \<Rightarrow> (nat \<Rightarrow> RegisterRules) \<Rightarrow> u64 \<Rightarrow> cfi \<Rightarrow> acfi \<Rightarrow> acfi option" where
  "cfi_step ca da ini pos CfiNop a = Some a"
| "cfi_step ca da ini pos (CfiAdvance n) a = Some (a\<lparr>ac_loc := ac_loc a + ucast (of_nat n * ca)\<rparr>)"
| "cfi_step ca da ini pos (CfiOffset n x) a = Some (upd_rule n (with_offset RULE_OFFSET (of_nat x * da)) a)"
| "cfi_step ca da ini pos (CfiOffsetSf n x) a = Some (upd_rule n (with_offset RULE_OFFSET (of_int x * da)) a)"
| "cfi_step ca da ini pos (CfiValOffset n x) a = Some (upd_rule n (with_offset RULE_VAL_OFFSET (of_nat x * da)) a)"
| "cfi_step ca da ini pos (CfiValOffsetSf n x) a = Some (upd_rule n (with_offset RULE_VAL_OFFSET (of_int x * da)) a)"
| "cfi_step ca da ini pos (CfiNegOffset n x) a = Some (upd_rule n (with_offset RULE_OFFSET (- of_int x * da)) a)"
| "cfi_step ca da ini pos (CfiRegister n x) a = Some (upd_rule n (with_offset RULE_REGISTER (of_nat x)) a)"
| "cfi_step ca da ini pos (CfiSame n) a = Some (upd_rule n (rr_rule_update (\<lambda>_. RULE_SAME_VALUE)) a)"
| "cfi_step ca da ini pos (CfiUndefined n) a = Some (upd_rule n (\<lambda>_. no_rule) a)"
| "cfi_step ca da ini pos (CfiRestore n) a = Some (upd_rule n (\<lambda>_. ini n) a)"
| "cfi_step ca da ini pos CfiRemember a = Some (a\<lparr>ac_stack := ac_frame a # ac_stack a\<rparr>)"
| "cfi_step ca da ini pos CfiRestoreState a = (case ac_stack a of [] \<Rightarrow> None | f # fs \<Rightarrow> Some (a\<lparr>ac_frame := f, ac_stack := fs\<rparr>))"
| "cfi_step ca da ini pos (CfiDefCfa n x) a = Some (upd_cfa (\<lambda>f. f\<lparr>af_rule := RULE_OFFSET, af_register := of_nat n, af_offset := of_nat x\<rparr>) a)"
| "cfi_step ca da ini pos (CfiDefCfaSf n x) a = Some (upd_cfa (\<lambda>f. f\<lparr>af_rule := RULE_OFFSET, af_register := of_nat n, af_offset := of_int x * da\<rparr>) a)"
| "cfi_step ca da ini pos (CfiDefCfaRegister n) a = Some (upd_cfa (\<lambda>f. f\<lparr>af_rule := RULE_OFFSET, af_register := of_nat n\<rparr>) a)"
| "cfi_step ca da ini pos (CfiDefCfaOffset x) a = Some (upd_cfa (\<lambda>f. f\<lparr>af_rule := RULE_OFFSET, af_offset := of_nat x\<rparr>) a)"
| "cfi_step ca da ini pos (CfiDefCfaOffsetSf x) a = Some (upd_cfa (\<lambda>f. f\<lparr>af_rule := RULE_OFFSET, af_offset := of_int x * da\<rparr>) a)"
| "cfi_step ca da ini pos (CfiDefCfaExpression bs) a =
     Some (upd_cfa (\<lambda>f. f\<lparr>af_rule := RULE_EXPRESSION, af_offset := of_nat (length bs), af_expression := pos + 1 + of_nat (length (uleb (length bs)))\<rparr>) a)"
| "cfi_step ca da ini pos (CfiExpression n bs) a =
     Some (upd_rule n (\<lambda>_. \<lparr>rr_rule = RULE_EXPRESSION, rr_offset = of_nat (length bs),
       rr_expression = pos + 1 + of_nat (length (uleb n)) + of_nat (length (uleb (length bs)))\<rparr>) a)"
| "cfi_step ca da ini pos (CfiValExpression n bs) a =
     Some (upd_rule n (\<lambda>_. \<lparr>rr_rule = RULE_VAL_EXPRESSION, rr_offset = of_nat (length bs),
       rr_expression = pos + 1 + of_nat (length (uleb n)) + of_nat (length (uleb (length bs)))\<rparr>) a)"
| "cfi_step ca da ini pos (CfiArgsSize n) a = Some a"

text \<open>The code of an instruction, with the short forms of compilers where there are some.\<close>

fun cfi_code :: "bool \<Rightarrow> cfi \<Rightarrow> byte list" where
  "cfi_code be CfiNop = [CFA_nop]"
| "cfi_code be (CfiAdvance n) =
     (if n < 64 then [of_nat (64 + n)] else if n < 2 ^ 8 then [CFA_advance_loc1, of_nat n]
      else if n < 2 ^ 16 then CFA_advance_loc2 # number_bytes be 2 (of_nat n) else CFA_advance_loc4 # number_bytes be 4 (of_nat n))"
| "cfi_code be (CfiOffset n x) = (if n < 64 then of_nat (128 + n) # uleb x else CFA_offset_extended # uleb n @ uleb x)"
| "cfi_code be (CfiOffsetSf n x) = CFA_offset_extended_sf # uleb n @ sleb x"
| "cfi_code be (CfiValOffset n x) = CFA_val_offset # uleb n @ uleb x"
| "cfi_code be (CfiValOffsetSf n x) = CFA_val_offset_sf # uleb n @ sleb x"
| "cfi_code be (CfiNegOffset n x) = CFA_GNU_negative_offset_ext # uleb n @ sleb x"
| "cfi_code be (CfiRegister n x) = CFA_register # uleb n @ uleb x"
| "cfi_code be (CfiSame n) = CFA_same_value # uleb n"
| "cfi_code be (CfiUndefined n) = CFA_undefined # uleb n"
| "cfi_code be (CfiRestore n) = (if n < 64 then [of_nat (192 + n)] else CFA_restore_extended # uleb n)"
| "cfi_code be CfiRemember = [CFA_remember_state]"
| "cfi_code be CfiRestoreState = [CFA_restore_state]"
| "cfi_code be (CfiDefCfa n x) = CFA_def_cfa # uleb n @ uleb x"
| "cfi_code be (CfiDefCfaSf n x) = CFA_def_cfa_sf # uleb n @ sleb x"
| "cfi_code be (CfiDefCfaRegister n) = CFA_def_cfa_register # uleb n"
| "cfi_code be (CfiDefCfaOffset x) = CFA_def_cfa_offset # uleb x"
| "cfi_code be (CfiDefCfaOffsetSf x) = CFA_def_cfa_offset_sf # sleb x"
| "cfi_code be (CfiDefCfaExpression bs) = CFA_def_cfa_expression # uleb (length bs) @ bs"
| "cfi_code be (CfiExpression n bs) = CFA_expression # uleb n @ uleb (length bs) @ bs"
| "cfi_code be (CfiValExpression n bs) = CFA_val_expression # uleb n @ uleb (length bs) @ bs"
| "cfi_code be (CfiArgsSize n) = CFA_GNU_args_size # uleb n"

text \<open>Operands that fit.\<close>

definition sint_ok :: "int \<Rightarrow> bool" where
  "sint_ok x \<longleftrightarrow> - (2 ^ 31) \<le> x \<and> x < 2 ^ 31"

fun cfi_ok :: "cfi \<Rightarrow> bool" where
  "cfi_ok CfiNop = True"
| "cfi_ok (CfiAdvance n) = (n < 2 ^ 32)"
| "cfi_ok (CfiOffset n x) = (n < 2 ^ 31 \<and> x < 2 ^ 32)"
| "cfi_ok (CfiOffsetSf n x) = (n < 2 ^ 31 \<and> sint_ok x)"
| "cfi_ok (CfiValOffset n x) = (n < 2 ^ 31 \<and> x < 2 ^ 32)"
| "cfi_ok (CfiValOffsetSf n x) = (n < 2 ^ 31 \<and> sint_ok x)"
| "cfi_ok (CfiNegOffset n x) = (n < 2 ^ 31 \<and> sint_ok x)"
| "cfi_ok (CfiRegister n x) = (n < 2 ^ 31 \<and> x < 2 ^ 32)"
| "cfi_ok (CfiSame n) = (n < 2 ^ 31)"
| "cfi_ok (CfiUndefined n) = (n < 2 ^ 31)"
| "cfi_ok (CfiRestore n) = (n < 2 ^ 31)"
| "cfi_ok CfiRemember = True"
| "cfi_ok CfiRestoreState = True"
| "cfi_ok (CfiDefCfa n x) = (n < 2 ^ 32 \<and> x < 2 ^ 32)"
| "cfi_ok (CfiDefCfaSf n x) = (n < 2 ^ 32 \<and> sint_ok x)"
| "cfi_ok (CfiDefCfaRegister n) = (n < 2 ^ 32)"
| "cfi_ok (CfiDefCfaOffset x) = (x < 2 ^ 32)"
| "cfi_ok (CfiDefCfaOffsetSf x) = sint_ok x"
| "cfi_ok (CfiDefCfaExpression bs) = (length bs < 2 ^ 31)"
| "cfi_ok (CfiExpression n bs) = (n < 2 ^ 31 \<and> length bs < 2 ^ 31)"
| "cfi_ok (CfiValExpression n bs) = (n < 2 ^ 31 \<and> length bs < 2 ^ 31)"
| "cfi_ok (CfiArgsSize n) = (n < 2 ^ 32)"

section \<open>Execution of instructions\<close>

definition upd_reg :: "nat \<Rightarrow> (RegisterRules \<Rightarrow> RegisterRules) \<Rightarrow> StackFrameRules \<Rightarrow> StackFrameRegisters \<Rightarrow> StackFrameRegisters" where
  "upd_reg n f ru sr = (let g = get_reg (of_nat n) ru sr in g\<lparr>sf_regs := (sf_regs g)[n := f (sf_regs g ! n)]\<rparr>)"

lemma get_reg_length: "n < 2 ^ 31 \<Longrightarrow> n < length (sf_regs (get_reg (of_nat n) ru sr))"
  using get_reg_view(2) [of "of_nat n" ru sr] sint_reg [of n] by simp

lemma upd_reg_view:
  assumes "n < 2 ^ 31"
  shows "frame_view (ru_machine ru) (ru_return_address_register ru) (upd_reg n f ru sr) =
      (let v = frame_view (ru_machine ru) (ru_return_address_register ru) sr in v\<lparr>af_regs := (af_regs v)(n := f (af_regs v n))\<rparr>)"
    and "regs_ok (ru_machine ru) sr \<Longrightarrow> regs_ok (ru_machine ru) (upd_reg n f ru sr)"
proof -
  let ?g = "get_reg (of_nat n) ru sr" and ?m = "ru_machine ru" and ?ra = "ru_return_address_register ru"
  note l = get_reg_length [OF assms, of ru sr]
  have "rule_of ?m ?ra (?g\<lparr>sf_regs := (sf_regs ?g)[n := f (sf_regs ?g ! n)]\<rparr>) = (rule_of ?m ?ra ?g)(n := f (rule_of ?m ?ra ?g n))"
    using l by (auto simp: rule_of_def fun_eq_iff)
  then show "frame_view ?m ?ra (upd_reg n f ru sr) = (let v = frame_view ?m ?ra sr in v\<lparr>af_regs := (af_regs v)(n := f (af_regs v n))\<rparr>)"
    by (simp add: upd_reg_def frame_view_def get_reg_view Let_def)
  show "regs_ok ?m (upd_reg n f ru sr)" if "regs_ok ?m sr" using get_reg_ok [OF assms that] by (simp add: regs_ok_def upd_reg_def Let_def)
qed

lemma bind_frame_reg: "n < 2 ^ 31 \<Longrightarrow> bindP (frame_reg (of_nat n)) f s = f n (s\<lparr>fr_frame_regs := get_reg (of_nat n) (fr_rules s) (fr_frame_regs s)\<rparr>)"
  by (simp add: frame_reg_def pm_simps reg_index_def sint_reg)

lemma run_set_reg [pm_simps]:
  "set_frame_reg i f s = (Inr (), s\<lparr>fr_frame_regs := (fr_frame_regs s)\<lparr>sf_regs := (sf_regs (fr_frame_regs s))[i := f (sf_regs (fr_frame_regs s) ! i)]\<rparr>\<rparr>)"
  "bindP (set_frame_reg i f) k s = k () (s\<lparr>fr_frame_regs := (fr_frame_regs s)\<lparr>sf_regs := (sf_regs (fr_frame_regs s))[i := f (sf_regs (fr_frame_regs s) ! i)]\<rparr>\<rparr>)"
  by (simp_all add: set_frame_reg_def pm_simps)

text \<open>An operand: it reads, from any state with these bytes ahead and these factors, and does nothing else.\<close>

definition operand_at :: "u32 fm \<Rightarrow> u32 \<Rightarrow> dio \<Rightarrow> StackFrameRules \<Rightarrow> dio \<Rightarrow> bool" where
  "operand_at m x d ru d1 \<longleftrightarrow> (\<forall>s. fr_dio s = d \<longrightarrow> fr_rules s = ru \<longrightarrow> m s = (Inr x, s\<lparr>fr_dio := d1\<rparr>))"

lemma reg_rule_at:
  assumes "n < 2 ^ 31" "operand_at m x (fr_dio s) (fr_rules s) d1"
  shows "reg_rule (of_nat n) rule m s = (Inr (), s\<lparr>fr_dio := d1, fr_frame_regs := upd_reg n (with_offset rule x) (fr_rules s) (fr_frame_regs s)\<rparr>)"
proof -
  let ?s = "\<lambda>r. s\<lparr>fr_frame_regs := r\<rparr>"
  have b: "bindP m f (?s r) = f x (?s r\<lparr>fr_dio := d1\<rparr>)" for f r using assms(2) by (simp add: operand_at_def bindP_def)
  show ?thesis
    using get_reg_length [OF assms(1), of "fr_rules s" "fr_frame_regs s"] assms(1) by (simp add: reg_rule_def b bind_frame_reg pm_simps upd_reg_def Let_def)
qed

lemma operand_uleb: "ahead d = uleb n @ r \<Longrightarrow> n < 2 ^ 32 \<Longrightarrow> operand_at read_uleb (of_nat n) d ru (fwd (length (uleb n)) d)"
  by (simp add: operand_at_def on_dio_def ReadULEB128_at)

lemma operand_sleb: "ahead d = sleb v @ r \<Longrightarrow> sint_ok v \<Longrightarrow> operand_at read_sleb (of_int v) d ru (fwd (length (sleb v)) d)"
  by (simp add: operand_at_def on_dio_def ReadSLEB128_at sint_ok_def)

lemma operand_neg: "operand_at m x d ru d1 \<Longrightarrow> operand_at (bindP m (\<lambda>x. ret (- x))) (- x) d ru d1"
  by (simp add: operand_at_def bindP_def ret_def)

lemma operand_factored: "operand_at m x d ru d1 \<Longrightarrow> operand_at (factored m) (x * ru_data_alignment ru) d ru d1"
  by (simp add: operand_at_def factored_def bindP_def rules_def getP_def ret_def)

lemma bind_operand: "operand_at m x (fr_dio s) (fr_rules s) d1 \<Longrightarrow> bindP m f s = f x (s\<lparr>fr_dio := d1\<rparr>)"
  by (simp add: operand_at_def bindP_def)

lemma ahead_part: "ahead d = (bs @ cs) @ r \<Longrightarrow> ahead d = bs @ (cs @ r)"
  by simp

lemma op_short: "64 \<le> unat op \<Longrightarrow> exec_op env a op = short_instruction op"
  by (auto simp: exec_op_def)

lemma short_ops:
  assumes "n < 64"
  shows "drop_bit 6 (of_nat (64 + n) :: byte) = 1 \<and> (of_nat (64 + n) :: byte) AND 0x3f = of_nat n \<and> 64 \<le> unat (of_nat (64 + n) :: byte)"
    "drop_bit 6 (of_nat (128 + n) :: byte) = 2 \<and> (of_nat (128 + n) :: byte) AND 0x3f = of_nat n \<and> 64 \<le> unat (of_nat (128 + n) :: byte)"
    "drop_bit 6 (of_nat (192 + n) :: byte) = 3 \<and> (of_nat (192 + n) :: byte) AND 0x3f = of_nat n \<and> 64 \<le> unat (of_nat (192 + n) :: byte)"
proof -
  have "list_all (\<lambda>n. (drop_bit 6 (of_nat (64 + n) :: byte) = 1 \<and> (of_nat (64 + n) :: byte) AND 0x3f = of_nat n \<and> 64 \<le> unat (of_nat (64 + n) :: byte)) \<and>
      (drop_bit 6 (of_nat (128 + n) :: byte) = 2 \<and> (of_nat (128 + n) :: byte) AND 0x3f = of_nat n \<and> 64 \<le> unat (of_nat (128 + n) :: byte)) \<and>
      (drop_bit 6 (of_nat (192 + n) :: byte) = 3 \<and> (of_nat (192 + n) :: byte) AND 0x3f = of_nat n \<and> 64 \<le> unat (of_nat (192 + n) :: byte))) [0..<64]" by code_simp
  then have "\<forall>n \<in> {0..<64}. (drop_bit 6 (of_nat (64 + n) :: byte) = 1 \<and> (of_nat (64 + n) :: byte) AND 0x3f = of_nat n \<and> 64 \<le> unat (of_nat (64 + n) :: byte)) \<and>
      (drop_bit 6 (of_nat (128 + n) :: byte) = 2 \<and> (of_nat (128 + n) :: byte) AND 0x3f = of_nat n \<and> 64 \<le> unat (of_nat (128 + n) :: byte)) \<and>
      (drop_bit 6 (of_nat (192 + n) :: byte) = 3 \<and> (of_nat (192 + n) :: byte) AND 0x3f = of_nat n \<and> 64 \<le> unat (of_nat (192 + n) :: byte))"
    unfolding list_all_iff set_upt .
  moreover have "n \<in> {0..<64}" using assms by simp
  ultimately show "drop_bit 6 (of_nat (64 + n) :: byte) = 1 \<and> (of_nat (64 + n) :: byte) AND 0x3f = of_nat n \<and> 64 \<le> unat (of_nat (64 + n) :: byte)"
    "drop_bit 6 (of_nat (128 + n) :: byte) = 2 \<and> (of_nat (128 + n) :: byte) AND 0x3f = of_nat n \<and> 64 \<le> unat (of_nat (128 + n) :: byte)"
    "drop_bit 6 (of_nat (192 + n) :: byte) = 3 \<and> (of_nat (192 + n) :: byte) AND 0x3f = of_nat n \<and> 64 \<le> unat (of_nat (192 + n) :: byte)" by blast+
qed

lemma short_reg: "n < 64 \<Longrightarrow> ucast (of_nat n :: byte) = (of_nat n :: u32)"
  by (simp add: unsigned_of_nat take_bit_nat_eq_self)

abbreviation mach :: "fr \<Rightarrow> nat" where "mach s \<equiv> ru_machine (fr_rules s)"
abbreviation retreg :: "fr \<Rightarrow> u32" where "retreg s \<equiv> ru_return_address_register (fr_rules s)"

definition fr_inv :: "fr \<Rightarrow> bool" where
  "fr_inv s \<longleftrightarrow> regs_ok (mach s) (fr_frame_regs s) \<and> regs_ok (mach s) (fr_cie_regs s) \<and> fr_regs_stack_pos s \<le> length (fr_regs_stack s) \<and>
     (\<forall>i < fr_regs_stack_pos s. regs_ok (mach s) (fr_regs_stack s ! i))"

definition view :: "fr \<Rightarrow> acfi" where
  "view s = \<lparr>ac_loc = ru_location (fr_rules s), ac_frame = frame_view (mach s) (retreg s) (fr_frame_regs s),
     ac_stack = map (frame_view (mach s) (retreg s)) (rev (take (fr_regs_stack_pos s) (fr_regs_stack s)))\<rparr>"

definition initial_rules :: "fr \<Rightarrow> nat \<Rightarrow> RegisterRules" where
  "initial_rules s = rule_of (mach s) (retreg s) (fr_cie_regs s)"

text \<open>What the instructions leave alone.\<close>

definition others :: "fr \<Rightarrow> StackFrameRules \<times> sft_cmd list \<times> u64 \<times> u64 \<times> sft_cmd list \<times> (RegisterDefinition \<times> sft_cmd list) list \<times> FrameInfoIndex list \<times> (nat \<Rightarrow> RegisterRules)" where
  "others s = ((fr_rules s)\<lparr>ru_location := 0\<rparr>, fr_trace_cmds s, fr_trace_addr s, fr_trace_size s, fr_trace_fp s, fr_trace_regs s, fr_indexes s, initial_rules s)"

text \<open>The instruction at the position does what the standard says.\<close>

definition does :: "frame_env \<Rightarrow> u64 \<Rightarrow> fr \<Rightarrow> nat \<Rightarrow> acfi \<Rightarrow> bool" where
  "does env fa s k a \<longleftrightarrow> (\<exists>t. exec_stack_frame_instruction env fa s = (Inr (), t) \<and> view t = a \<and> fr_dio t = fwd k (fr_dio s) \<and> fr_inv t \<and> others t = others s)"

lemma doesI_frame:
  assumes "exec_stack_frame_instruction env fa s = (Inr (), s\<lparr>fr_dio := fwd k (fr_dio s), fr_frame_regs := R\<rparr>)" "regs_ok (mach s) R" "fr_inv s"
    "frame_view (mach s) (retreg s) R = ac_frame a" "ac_loc a = ac_loc (view s)" "ac_stack a = ac_stack (view s)"
  shows "does env fa s k a"
  using assms by (auto simp: does_def view_def fr_inv_def others_def initial_rules_def)

lemma exec_at:
  "ahead (fr_dio s) = op # bs \<Longrightarrow> exec_stack_frame_instruction env fa s = exec_op env fa op (s\<lparr>fr_dio := fwd 1 (fr_dio s)\<rparr>)"
  by (simp add: exec_stack_frame_instruction_def bind_on_dio ReadU1_at)

text \<open>Instructions that give a register a rule with an operand.\<close>

lemma does_reg_rule:
  assumes "ahead (fr_dio s) = op # bs @ r" "n < 2 ^ 31" "fr_inv s"
    and "exec_op env fa op (s\<lparr>fr_dio := fwd 1 (fr_dio s)\<rparr>) = reg_rule (of_nat n) rule m (s\<lparr>fr_dio := fwd j (fr_dio s)\<rparr>)"
    and "operand_at m x (fwd j (fr_dio s)) (fr_rules s) (fwd (Suc (length bs)) (fr_dio s))"
  shows "does env fa s (Suc (length bs)) (upd_rule n (with_offset rule x) (view s))"
proof (rule doesI_frame)
  let ?R = "upd_reg n (with_offset rule x) (fr_rules s) (fr_frame_regs s)"
  show "exec_stack_frame_instruction env fa s = (Inr (), s\<lparr>fr_dio := fwd (Suc (length bs)) (fr_dio s), fr_frame_regs := ?R\<rparr>)"
    using exec_at [OF assms(1), of env fa] assms(4,5) reg_rule_at [OF assms(2), of m x "s\<lparr>fr_dio := fwd j (fr_dio s)\<rparr>" "fwd (Suc (length bs)) (fr_dio s)" rule] by simp
  show "regs_ok (mach s) ?R" using assms(2,3) by (intro upd_reg_view(2)) (simp_all add: fr_inv_def)
  show "frame_view (mach s) (retreg s) ?R = ac_frame (upd_rule n (with_offset rule x) (view s))"
    using upd_reg_view(1) [OF assms(2)] by (simp add: upd_rule_def view_def Let_def)
qed (use assms(3) in \<open>simp_all add: upd_rule_def\<close>)

lemma does_reg:
  assumes "ahead (fr_dio s) = op # bs @ r" "n < 2 ^ 31" "fr_inv s"
    and "exec_op env fa op (s\<lparr>fr_dio := fwd 1 (fr_dio s)\<rparr>) =
      (Inr (), s\<lparr>fr_dio := fwd (Suc (length bs)) (fr_dio s), fr_frame_regs := upd_reg n f (fr_rules s) (fr_frame_regs s)\<rparr>)"
  shows "does env fa s (Suc (length bs)) (upd_rule n f (view s))"
proof (rule doesI_frame)
  let ?R = "upd_reg n f (fr_rules s) (fr_frame_regs s)"
  show "exec_stack_frame_instruction env fa s = (Inr (), s\<lparr>fr_dio := fwd (Suc (length bs)) (fr_dio s), fr_frame_regs := ?R\<rparr>)"
    using exec_at [OF assms(1), of env fa] assms(4) by simp
  show "regs_ok (mach s) ?R" using assms(2,3) by (intro upd_reg_view(2)) (simp_all add: fr_inv_def)
  show "frame_view (mach s) (retreg s) ?R = ac_frame (upd_rule n f (view s))"
    using upd_reg_view(1) [OF assms(2)] by (simp add: upd_rule_def view_def Let_def)
qed (use assms(3) in \<open>simp_all add: upd_rule_def\<close>)

lemma does_cfa:
  assumes "ahead (fr_dio s) = op # bs @ r" "fr_inv s"
    and "exec_op env fa op (s\<lparr>fr_dio := fwd 1 (fr_dio s)\<rparr>) =
      (Inr (), s\<lparr>fr_dio := fwd (Suc (length bs)) (fr_dio s), fr_frame_regs := g (fr_frame_regs s)\<rparr>)"
    and "frame_view (mach s) (retreg s) (g (fr_frame_regs s)) = f (frame_view (mach s) (retreg s) (fr_frame_regs s))" "sf_regs (g (fr_frame_regs s)) = sf_regs (fr_frame_regs s)"
  shows "does env fa s (Suc (length bs)) (upd_cfa f (view s))"
proof (rule doesI_frame)
  show "exec_stack_frame_instruction env fa s = (Inr (), s\<lparr>fr_dio := fwd (Suc (length bs)) (fr_dio s), fr_frame_regs := g (fr_frame_regs s)\<rparr>)"
    using exec_at [OF assms(1), of env fa] assms(3) by simp
qed (use assms in \<open>simp_all add: upd_cfa_def view_def fr_inv_def regs_ok_def\<close>)

lemma uleb_reads:
  assumes "ahead d = uleb n @ r" "n < 2 ^ 32" "fr_dio s = d"
  shows "bindP read_uleb f s = f (of_nat n) (s\<lparr>fr_dio := fwd (length (uleb n)) d\<rparr>)"
  using bind_on_dio [of dio_ReadULEB128 s "of_nat n" "fwd (length (uleb n)) d" f] ReadULEB128_at [OF assms(1,2)] assms(3) by simp

text \<open>Two operands behind the instruction.\<close>

lemma two_operands:
  assumes "ahead d = op # (xs @ ys) @ r"
  shows "ahead (fwd 1 d) = xs @ (ys @ r)" "ahead (fwd (Suc (length xs)) d) = ys @ r" "fwd (length ys) (fwd (Suc (length xs)) d) = fwd (Suc (length (xs @ ys))) d"
  using ahead_fwd [of d "[op]" "(xs @ ys) @ r"] ahead_fwd [of d "op # xs" "ys @ r"] assms by simp_all

lemma view_simps [simp]: "ac_loc (view s) = ru_location (fr_rules s)" "ac_frame (view s) = frame_view (mach s) (retreg s) (fr_frame_regs s)"
  by (simp_all add: view_def)

lemma does_rule_operand:
  assumes "\<And>s. exec_op env fa op s = bindP read_uleb (\<lambda>n. reg_rule n rule m) s" "ahead (fr_dio s) = op # (uleb n @ ys) @ r" "n < 2 ^ 31" "fr_inv s"
    and "\<And>d r. ahead d = ys @ r \<Longrightarrow> operand_at m x d (fr_rules s) (fwd (length ys) d)"
  shows "does env fa s (Suc (length (uleb n @ ys))) (upd_rule n (with_offset rule x) (view s))"
proof (rule does_reg_rule [OF assms(2-4)])
  note t = two_operands [OF assms(2)]
  have "n < 2 ^ 32" using assms(3) by simp
  from uleb_reads [OF t(1) this, of "s\<lparr>fr_dio := fwd 1 (fr_dio s)\<rparr>"] assms(1)
  show "exec_op env fa op (s\<lparr>fr_dio := fwd 1 (fr_dio s)\<rparr>) = reg_rule (of_nat n) rule m (s\<lparr>fr_dio := fwd (Suc (length (uleb n))) (fr_dio s)\<rparr>)" by simp
  from assms(5) [OF t(2)] t(3)
  show "operand_at m x (fwd (Suc (length (uleb n))) (fr_dio s)) (fr_rules s) (fwd (Suc (length (uleb n @ ys))) (fr_dio s))" by simp
qed

lemma exec_offset:
  assumes "cfi_ok (CfiOffset n x)" "ahead (fr_dio s) = cfi_code be (CfiOffset n x) @ r" "fr_inv s"
  shows "does env fa s (length (cfi_code be (CfiOffset n x))) (upd_rule n (with_offset RULE_OFFSET (of_nat x * ru_data_alignment (fr_rules s))) (view s))"
proof -
  have op: "operand_at (factored read_uleb) (of_nat x * ru_data_alignment (fr_rules s)) d (fr_rules s) (fwd (length (uleb x)) d)" if "ahead d = uleb x @ r'" for d r'
    using operand_factored [OF operand_uleb [OF that]] assms(1) by simp
  show ?thesis
  proof (cases "n < 64")
    case True
    then have a: "ahead (fr_dio s) = of_nat (128 + n) # uleb x @ r" using assms(2) by simp
    have "does env fa s (Suc (length (uleb x))) (upd_rule n (with_offset RULE_OFFSET (of_nat x * ru_data_alignment (fr_rules s))) (view s))"
    proof (rule does_reg_rule [OF a _ assms(3)])
      show "n < 2 ^ 31" using True by simp
      show "exec_op env fa (of_nat (128 + n)) (s\<lparr>fr_dio := fwd 1 (fr_dio s)\<rparr>) = reg_rule (of_nat n) RULE_OFFSET (factored read_uleb) (s\<lparr>fr_dio := fwd 1 (fr_dio s)\<rparr>)"
        using short_ops(2) [OF True] short_reg [OF True] by (simp add: op_short short_instruction_def Let_def del: of_nat_add)
      have "ahead (fwd 1 (fr_dio s)) = uleb x @ r" using ahead_fwd [of "fr_dio s" "[of_nat (128 + n)]"] a by simp
      from op [OF this] show "operand_at (factored read_uleb) (of_nat x * ru_data_alignment (fr_rules s)) (fwd 1 (fr_dio s)) (fr_rules s) (fwd (Suc (length (uleb x))) (fr_dio s))" by simp
    qed
    with True show ?thesis by simp
  next
    case False
    have "does env fa s (Suc (length (uleb n @ uleb x))) (upd_rule n (with_offset RULE_OFFSET (of_nat x * ru_data_alignment (fr_rules s))) (view s))"
      by (rule does_rule_operand [of env fa CFA_offset_extended RULE_OFFSET "factored read_uleb"]) (use False assms op in \<open>auto simp: exec_op_def\<close>)
    with False show ?thesis by simp
  qed
qed

lemma exec_rules:
  assumes "fr_inv s" "da = ru_data_alignment (fr_rules s)" "n < 2 ^ 31"
  shows
    "ahead (fr_dio s) = cfi_code be (CfiOffsetSf n v) @ r \<Longrightarrow> sint_ok v \<Longrightarrow>
       does env fa s (length (cfi_code be (CfiOffsetSf n v))) (upd_rule n (with_offset RULE_OFFSET (of_int v * da)) (view s))"
    "ahead (fr_dio s) = cfi_code be (CfiValOffset n x) @ r \<Longrightarrow> x < 2 ^ 32 \<Longrightarrow>
       does env fa s (length (cfi_code be (CfiValOffset n x))) (upd_rule n (with_offset RULE_VAL_OFFSET (of_nat x * da)) (view s))"
    "ahead (fr_dio s) = cfi_code be (CfiValOffsetSf n v) @ r \<Longrightarrow> sint_ok v \<Longrightarrow>
       does env fa s (length (cfi_code be (CfiValOffsetSf n v))) (upd_rule n (with_offset RULE_VAL_OFFSET (of_int v * da)) (view s))"
    "ahead (fr_dio s) = cfi_code be (CfiNegOffset n v) @ r \<Longrightarrow> sint_ok v \<Longrightarrow>
       does env fa s (length (cfi_code be (CfiNegOffset n v))) (upd_rule n (with_offset RULE_OFFSET (- of_int v * da)) (view s))"
    "ahead (fr_dio s) = cfi_code be (CfiRegister n x) @ r \<Longrightarrow> x < 2 ^ 32 \<Longrightarrow>
       does env fa s (length (cfi_code be (CfiRegister n x))) (upd_rule n (with_offset RULE_REGISTER (of_nat x)) (view s))"
proof -
  note f = operand_factored [OF operand_sleb] operand_factored [OF operand_uleb] operand_factored [OF operand_neg [OF operand_sleb]]
  show "ahead (fr_dio s) = cfi_code be (CfiOffsetSf n v) @ r \<Longrightarrow> sint_ok v \<Longrightarrow>
      does env fa s (length (cfi_code be (CfiOffsetSf n v))) (upd_rule n (with_offset RULE_OFFSET (of_int v * da)) (view s))"
    using does_rule_operand [of env fa CFA_offset_extended_sf RULE_OFFSET "factored read_sleb" s n "sleb v" r] assms f(1) by (simp add: exec_op_def)
  show "ahead (fr_dio s) = cfi_code be (CfiValOffset n x) @ r \<Longrightarrow> x < 2 ^ 32 \<Longrightarrow>
      does env fa s (length (cfi_code be (CfiValOffset n x))) (upd_rule n (with_offset RULE_VAL_OFFSET (of_nat x * da)) (view s))"
    using does_rule_operand [of env fa CFA_val_offset RULE_VAL_OFFSET "factored read_uleb" s n "uleb x" r] assms f(2) by (simp add: exec_op_def)
  show "ahead (fr_dio s) = cfi_code be (CfiValOffsetSf n v) @ r \<Longrightarrow> sint_ok v \<Longrightarrow>
      does env fa s (length (cfi_code be (CfiValOffsetSf n v))) (upd_rule n (with_offset RULE_VAL_OFFSET (of_int v * da)) (view s))"
    using does_rule_operand [of env fa CFA_val_offset_sf RULE_VAL_OFFSET "factored read_sleb" s n "sleb v" r] assms f(1) by (simp add: exec_op_def)
  show "ahead (fr_dio s) = cfi_code be (CfiNegOffset n v) @ r \<Longrightarrow> sint_ok v \<Longrightarrow>
      does env fa s (length (cfi_code be (CfiNegOffset n v))) (upd_rule n (with_offset RULE_OFFSET (- of_int v * da)) (view s))"
    using does_rule_operand [of env fa CFA_GNU_negative_offset_ext RULE_OFFSET "factored (bindP read_sleb (\<lambda>x. ret (- x)))" s n "sleb v" r] assms f(3)
    by (simp add: exec_op_def)
  show "ahead (fr_dio s) = cfi_code be (CfiRegister n x) @ r \<Longrightarrow> x < 2 ^ 32 \<Longrightarrow>
      does env fa s (length (cfi_code be (CfiRegister n x))) (upd_rule n (with_offset RULE_REGISTER (of_nat x)) (view s))"
    using does_rule_operand [of env fa CFA_register RULE_REGISTER read_uleb s n "uleb x" r] assms operand_uleb by (simp add: exec_op_def)
qed

text \<open>Instructions with a register number alone.\<close>

lemma one_operand:
  assumes "ahead d = op # xs @ r"
  shows "ahead (fwd 1 d) = xs @ r" "fwd (length xs) (fwd 1 d) = fwd (Suc (length xs)) d"
  using ahead_fwd [of d "[op]" "xs @ r"] assms by simp_all

lemma exec_same:
  assumes "ahead (fr_dio s) = cfi_code be (CfiSame n) @ r" "fr_inv s" "n < 2 ^ 31"
  shows "does env fa s (length (cfi_code be (CfiSame n))) (upd_rule n (rr_rule_update (\<lambda>_. RULE_SAME_VALUE)) (view s))"
proof -
  have a: "ahead (fr_dio s) = CFA_same_value # uleb n @ r" using assms(1) by simp
  have "does env fa s (Suc (length (uleb n))) (upd_rule n (rr_rule_update (\<lambda>_. RULE_SAME_VALUE)) (view s))"
    using assms(3) by (intro does_reg [OF a assms(3,2)]) (simp add: exec_op_def uleb_reads [OF one_operand(1) [OF a]] bind_frame_reg pm_simps upd_reg_def Let_def)
  then show ?thesis by simp
qed

lemma exec_undefined:
  assumes "ahead (fr_dio s) = cfi_code be (CfiUndefined n) @ r" "fr_inv s" "n < 2 ^ 31"
  shows "does env fa s (length (cfi_code be (CfiUndefined n))) (upd_rule n (\<lambda>_. no_rule) (view s))"
proof -
  have a: "ahead (fr_dio s) = CFA_undefined # uleb n @ r" using assms(1) by simp
  have "does env fa s (Suc (length (uleb n))) (upd_rule n (\<lambda>_. no_rule) (view s))"
    using assms(3) by (intro does_reg [OF a assms(3,2)]) (simp add: exec_op_def uleb_reads [OF one_operand(1) [OF a]] bind_frame_reg pm_simps upd_reg_def Let_def)
  then show ?thesis by simp
qed

lemma restore_at:
  assumes "n < 2 ^ 31"
  shows "restore_reg (of_nat n) s = (Inr (), s\<lparr>fr_cie_regs := get_reg (of_nat n) (fr_rules s) (fr_cie_regs s),
    fr_frame_regs := upd_reg n (\<lambda>_. initial_rules s n) (fr_rules s) (fr_frame_regs s)\<rparr>)"
proof -
  let ?g = "get_reg (of_nat n) (fr_rules s) (fr_cie_regs s)"
  have "rule_of (mach s) (retreg s) ?g n = initial_rules s n" by (simp add: initial_rules_def get_reg_view(1))
  then have "sf_regs ?g ! n = initial_rules s n" using get_reg_length [OF assms, of "fr_rules s" "fr_cie_regs s"] by (simp add: rule_of_def)
  then show ?thesis using assms by (simp add: restore_reg_def bind_frame_reg cie_reg_def bind_rules bindP_modP bindP_getP run_set_reg reg_index_def sint_reg upd_reg_def Let_def)
qed

lemma does_restore:
  assumes "exec_stack_frame_instruction env fa s = restore_reg (of_nat n) (s\<lparr>fr_dio := fwd k (fr_dio s)\<rparr>)" "fr_inv s" "n < 2 ^ 31"
  shows "does env fa s k (upd_rule n (\<lambda>_. initial_rules s n) (view s))"
proof -
  let ?t = "s\<lparr>fr_dio := fwd k (fr_dio s), fr_cie_regs := get_reg (of_nat n) (fr_rules s) (fr_cie_regs s),
    fr_frame_regs := upd_reg n (\<lambda>_. initial_rules s n) (fr_rules s) (fr_frame_regs s)\<rparr>"
  have "initial_rules (s\<lparr>fr_dio := fwd k (fr_dio s)\<rparr>) = initial_rules s" by (simp add: initial_rules_def)
  then have "exec_stack_frame_instruction env fa s = (Inr (), ?t)" using assms(1) restore_at [OF assms(3), of "s\<lparr>fr_dio := fwd k (fr_dio s)\<rparr>"] by simp
  moreover have "view ?t = upd_rule n (\<lambda>_. initial_rules s n) (view s)" using upd_reg_view(1) [OF assms(3)] by (simp add: view_def upd_rule_def Let_def)
  moreover have "fr_inv ?t" using assms(2,3) upd_reg_view(2) [OF assms(3)] get_reg_ok [OF assms(3)] by (simp add: fr_inv_def)
  moreover have "initial_rules ?t = initial_rules s" by (simp add: initial_rules_def get_reg_view(1))
  then have "others ?t = others s" by (simp add: others_def)
  ultimately show ?thesis unfolding does_def by simp
qed

lemma exec_restore:
  assumes "ahead (fr_dio s) = cfi_code be (CfiRestore n) @ r" "fr_inv s" "n < 2 ^ 31"
  shows "does env fa s (length (cfi_code be (CfiRestore n))) (upd_rule n (\<lambda>_. initial_rules s n) (view s))"
proof (rule does_restore [OF _ assms(2,3)])
  show "exec_stack_frame_instruction env fa s = restore_reg (of_nat n) (s\<lparr>fr_dio := fwd (length (cfi_code be (CfiRestore n))) (fr_dio s)\<rparr>)"
  proof (cases "n < 64")
    case True
    then have a: "ahead (fr_dio s) = of_nat (192 + n) # r" using assms(1) by simp
    have "exec_op env fa (of_nat (192 + n)) s' = restore_reg (of_nat n) s'" for s'
      using short_ops(3) [OF True] short_reg [OF True] by (simp add: op_short short_instruction_def Let_def del: of_nat_add)
    with exec_at [OF a, of env fa] True show ?thesis by simp
  next
    case False
    then have a: "ahead (fr_dio s) = CFA_restore_extended # uleb n @ r" using assms(1) by simp
    have "exec_op env fa CFA_restore_extended s' = bindP read_uleb restore_reg s'" for s' by (simp add: exec_op_def)
    with exec_at [OF a, of env fa] uleb_reads [OF one_operand(1) [OF a], of "s\<lparr>fr_dio := fwd 1 (fr_dio s)\<rparr>" restore_reg] assms(3) False show ?thesis by simp
  qed
qed

text \<open>Remembering and restoring all rules.\<close>

lemma take_update_snoc: "p \<le> length st \<Longrightarrow> take (Suc p) ((get_regs_stack_item p st)[p := x]) = take p st @ [x]"
proof -
  assume p: "p \<le> length st"
  have l: "p < length (get_regs_stack_item p st)" by (simp add: get_regs_stack_item_def)
  have "take (Suc p) ((get_regs_stack_item p st)[p := x]) = take p (get_regs_stack_item p st) @ [x]" using l by (simp add: take_Suc_conv_app_nth)
  also have "take p (get_regs_stack_item p st) = take p st" using p by (simp add: get_regs_stack_item_def)
  finally show ?thesis .
qed

lemma nth_update_item: "i < p \<Longrightarrow> p \<le> length st \<Longrightarrow> (get_regs_stack_item p st)[p := x] ! i = st ! i"
  by (simp add: get_regs_stack_item_def nth_append)

lemma exec_remember:
  assumes "ahead (fr_dio s) = cfi_code be CfiRemember @ r" "fr_inv s"
  shows "does env fa s (length (cfi_code be CfiRemember)) ((view s)\<lparr>ac_stack := ac_frame (view s) # ac_stack (view s)\<rparr>)"
proof -
  let ?p = "fr_regs_stack_pos s" and ?c = "copy_register_rules (fr_rules s) (fr_frame_regs s)"
  let ?t = "s\<lparr>fr_dio := fwd 1 (fr_dio s), fr_regs_stack_pos := ?p + 1, fr_regs_stack := (get_regs_stack_item ?p (fr_regs_stack s))[?p := ?c]\<rparr>"
  have i: "?p \<le> length (fr_regs_stack s)" "regs_ok (mach s) (fr_frame_regs s)" using assms(2) by (simp_all add: fr_inv_def)
  have "exec_stack_frame_instruction env fa s = (Inr (), ?t)"
    using exec_at [of s CFA_remember_state r env fa] assms(1) by (simp add: exec_op_def remember_state_def pm_simps Let_def)
  moreover have "view ?t = (view s)\<lparr>ac_stack := ac_frame (view s) # ac_stack (view s)\<rparr>"
    using take_update_snoc [OF i(1), of ?c] copy_view(1) [OF i(2)] by (simp add: view_def)
  moreover have "fr_inv ?t" using assms(2) i copy_view(2) [OF i(2)]
    by (auto simp: fr_inv_def less_Suc_eq nth_update_item) (simp_all add: get_regs_stack_item_def nth_append)
  ultimately show ?thesis unfolding does_def by (simp add: others_def initial_rules_def)
qed

lemma exec_restore_state:
  assumes "ahead (fr_dio s) = cfi_code be CfiRestoreState @ r" "fr_inv s" "ac_stack (view s) = f # fs"
  shows "does env fa s (length (cfi_code be CfiRestoreState)) ((view s)\<lparr>ac_frame := f, ac_stack := fs\<rparr>)"
proof -
  let ?p = "fr_regs_stack_pos s"
  have i: "?p \<le> length (fr_regs_stack s)" using assms(2) by (simp add: fr_inv_def)
  have p: "0 < ?p" using assms(3) by (cases ?p) (auto simp: view_def)
  then obtain q where q: "?p = Suc q" by (cases ?p) auto
  let ?c = "copy_register_rules (fr_rules s) (fr_regs_stack s ! q)"
  let ?t = "s\<lparr>fr_dio := fwd 1 (fr_dio s), fr_regs_stack_pos := q, fr_frame_regs := ?c\<rparr>"
  have st: "take ?p (fr_regs_stack s) = take q (fr_regs_stack s) @ [fr_regs_stack s ! q]" using i q by (simp add: take_Suc_conv_app_nth)
  then have f: "f = frame_view (mach s) (retreg s) (fr_regs_stack s ! q)" "fs = map (frame_view (mach s) (retreg s)) (rev (take q (fr_regs_stack s)))"
    using assms(3) by (simp_all add: view_def)
  have sm: "regs_ok (mach s) (fr_regs_stack s ! q)" using assms(2) q by (simp add: fr_inv_def)
  have it: "get_regs_stack_item q (fr_regs_stack s) = fr_regs_stack s" using i q by (simp add: get_regs_stack_item_def)
  have "exec_stack_frame_instruction env fa s = (Inr (), ?t)"
    using exec_at [of s CFA_restore_state r env fa] assms(1) q it by (simp add: exec_op_def restore_state_def pm_simps)
  moreover have "view ?t = (view s)\<lparr>ac_frame := f, ac_stack := fs\<rparr>" using f copy_view(1) [OF sm] by (simp add: view_def)
  moreover have "fr_inv ?t" using assms(2) q copy_view(2) [OF sm] by (simp add: fr_inv_def)
  ultimately show ?thesis unfolding does_def by (simp add: others_def initial_rules_def)
qed

text \<open>The rule of the frame address.\<close>

lemma sleb_reads:
  assumes "ahead d = sleb v @ r" "sint_ok v" "fr_dio s = d"
  shows "bindP read_sleb f s = f (of_int v) (s\<lparr>fr_dio := fwd (length (sleb v)) d\<rparr>)"
  using bind_on_dio [of dio_ReadSLEB128 s "of_int v" "fwd (length (sleb v)) d" f] ReadSLEB128_at [OF assms(1)] assms(2,3) by (simp add: sint_ok_def)

lemmas cfa_defs = exec_op_def set_cfa_rule_def read_cfa_register_def read_cfa_offset_def factored_def bind_rules run_rules

lemma exec_def_cfa:
  assumes "fr_inv s" "da = ru_data_alignment (fr_rules s)"
  shows
    "ahead (fr_dio s) = cfi_code be (CfiDefCfa n x) @ r \<Longrightarrow> n < 2 ^ 32 \<Longrightarrow> x < 2 ^ 32 \<Longrightarrow> does env fa s (length (cfi_code be (CfiDefCfa n x)))
       (upd_cfa (\<lambda>f. f\<lparr>af_rule := RULE_OFFSET, af_register := of_nat n, af_offset := of_nat x\<rparr>) (view s))"
    "ahead (fr_dio s) = cfi_code be (CfiDefCfaSf n v) @ r \<Longrightarrow> n < 2 ^ 32 \<Longrightarrow> sint_ok v \<Longrightarrow> does env fa s (length (cfi_code be (CfiDefCfaSf n v)))
       (upd_cfa (\<lambda>f. f\<lparr>af_rule := RULE_OFFSET, af_register := of_nat n, af_offset := of_int v * da\<rparr>) (view s))"
    "ahead (fr_dio s) = cfi_code be (CfiDefCfaRegister n) @ r \<Longrightarrow> n < 2 ^ 32 \<Longrightarrow> does env fa s (length (cfi_code be (CfiDefCfaRegister n)))
       (upd_cfa (\<lambda>f. f\<lparr>af_rule := RULE_OFFSET, af_register := of_nat n\<rparr>) (view s))"
    "ahead (fr_dio s) = cfi_code be (CfiDefCfaOffset x) @ r \<Longrightarrow> x < 2 ^ 32 \<Longrightarrow> does env fa s (length (cfi_code be (CfiDefCfaOffset x)))
       (upd_cfa (\<lambda>f. f\<lparr>af_rule := RULE_OFFSET, af_offset := of_nat x\<rparr>) (view s))"
    "ahead (fr_dio s) = cfi_code be (CfiDefCfaOffsetSf v) @ r \<Longrightarrow> sint_ok v \<Longrightarrow> does env fa s (length (cfi_code be (CfiDefCfaOffsetSf v)))
       (upd_cfa (\<lambda>f. f\<lparr>af_rule := RULE_OFFSET, af_offset := of_int v * da\<rparr>) (view s))"
proof goal_cases
  case 1
  then have a: "ahead (fr_dio s) = CFA_def_cfa # (uleb n @ uleb x) @ r" by simp
  note t = two_operands [OF a]
  from 1 have "does env fa s (Suc (length (uleb n @ uleb x))) (upd_cfa (\<lambda>f. f\<lparr>af_rule := RULE_OFFSET, af_register := of_nat n, af_offset := of_nat x\<rparr>) (view s))"
    by (intro does_cfa [OF a assms(1), where g = "\<lambda>g. g\<lparr>cfa_rule := RULE_OFFSET, cfa_register := of_nat n, cfa_offset := of_nat x\<rparr>"])
      (simp_all add: cfa_defs uleb_reads [OF t(1)] uleb_reads [OF t(2)] frame_view_def rule_of_def fun_eq_iff)
  then show ?case by simp
next
  case 2
  then have a: "ahead (fr_dio s) = CFA_def_cfa_sf # (uleb n @ sleb v) @ r" by simp
  note t = two_operands [OF a]
  from 2 have "does env fa s (Suc (length (uleb n @ sleb v))) (upd_cfa (\<lambda>f. f\<lparr>af_rule := RULE_OFFSET, af_register := of_nat n, af_offset := of_int v * da\<rparr>) (view s))"
    by (intro does_cfa [OF a assms(1), where g = "\<lambda>g. g\<lparr>cfa_rule := RULE_OFFSET, cfa_register := of_nat n, cfa_offset := of_int v * da\<rparr>"])
      (simp_all add: cfa_defs uleb_reads [OF t(1)] sleb_reads [OF t(2)] frame_view_def rule_of_def fun_eq_iff assms(2))
  then show ?case by simp
next
  case 3
  then have a: "ahead (fr_dio s) = CFA_def_cfa_register # uleb n @ r" by simp
  from 3 have "does env fa s (Suc (length (uleb n))) (upd_cfa (\<lambda>f. f\<lparr>af_rule := RULE_OFFSET, af_register := of_nat n\<rparr>) (view s))"
    by (intro does_cfa [OF a assms(1), where g = "\<lambda>g. g\<lparr>cfa_rule := RULE_OFFSET, cfa_register := of_nat n\<rparr>"])
      (simp_all add: cfa_defs uleb_reads [OF one_operand(1) [OF a]] frame_view_def rule_of_def fun_eq_iff)
  then show ?case by simp
next
  case 4
  then have a: "ahead (fr_dio s) = CFA_def_cfa_offset # uleb x @ r" by simp
  from 4 have "does env fa s (Suc (length (uleb x))) (upd_cfa (\<lambda>f. f\<lparr>af_rule := RULE_OFFSET, af_offset := of_nat x\<rparr>) (view s))"
    by (intro does_cfa [OF a assms(1), where g = "\<lambda>g. g\<lparr>cfa_rule := RULE_OFFSET, cfa_offset := of_nat x\<rparr>"])
      (simp_all add: cfa_defs uleb_reads [OF one_operand(1) [OF a]] frame_view_def rule_of_def fun_eq_iff)
  then show ?case by simp
next
  case 5
  then have a: "ahead (fr_dio s) = CFA_def_cfa_offset_sf # sleb v @ r" by simp
  from 5 have "does env fa s (Suc (length (sleb v))) (upd_cfa (\<lambda>f. f\<lparr>af_rule := RULE_OFFSET, af_offset := of_int v * da\<rparr>) (view s))"
    by (intro does_cfa [OF a assms(1), where g = "\<lambda>g. g\<lparr>cfa_rule := RULE_OFFSET, cfa_offset := of_int v * da\<rparr>"])
      (simp_all add: cfa_defs sleb_reads [OF one_operand(1) [OF a]] frame_view_def rule_of_def fun_eq_iff assms(2))
  then show ?case by simp
qed

text \<open>Expressions are skipped.\<close>

lemma skip_at:
  assumes "ahead d = bs @ r" "bs \<noteq> [] \<or> unat (dio_pos d) \<le> unat (dio_len d)" "length bs < 2 ^ 31"
  shows "dio_Skip (scast (of_nat (length bs) :: u32)) d = (Inr (), fwd (length bs) d)"
proof -
  have "sint (of_nat (length bs) :: u32) = int (length bs)" using assms(3) by (rule sint_reg)
  then have c: "scast (of_nat (length bs) :: u32) = (of_nat (length bs) :: u64)" by (metis of_int_of_nat_eq of_int_sint)
  have "unat (dio_pos d) + length bs \<le> unat (dio_len d)" using ahead_bounds [OF assms(1)] assms(2) by (cases "bs = []") auto
  then have "\<not> dio_len d < dio_pos d + of_nat (length bs)" using unat_fwd [of d "length bs"] by (simp add: word_less_nat_alt)
  then show ?thesis unfolding c by (simp add: dio_Skip_def fwd_def)
qed

lemma skip_reads:
  assumes "ahead d = bs @ r" "unat (dio_pos d) \<le> unat (dio_len d)" "length bs < 2 ^ 31" "fr_dio s = d"
  shows "on_dio (dio_Skip (scast (of_nat (length bs) :: u32))) s = (Inr (), s\<lparr>fr_dio := fwd (length bs) d\<rparr>)"
  using skip_at [OF assms(1)] assms(2-4) by (simp add: on_dio_def)

lemma pos_reads: "bindP (on_dio dio_GetPos) f s = f (dio_pos (fr_dio s)) s"
  by (simp add: bindP_def on_dio_def dio_GetPos_def getP_def)

lemma pos_inside: "ahead d = bs @ r \<Longrightarrow> bs \<noteq> [] \<Longrightarrow> unat (dio_pos (fwd (length bs) d)) \<le> unat (dio_len d)"
  using ahead_bounds [of d bs r] unat_fwd [of d "length bs"] by simp

lemma exec_cfa_expression:
  assumes "ahead (fr_dio s) = cfi_code be (CfiDefCfaExpression bs) @ r" "fr_inv s" "length bs < 2 ^ 31"
  shows "does env fa s (length (cfi_code be (CfiDefCfaExpression bs))) (upd_cfa (\<lambda>f. f\<lparr>af_rule := RULE_EXPRESSION, af_offset := of_nat (length bs),
    af_expression := dio_pos (fr_dio s) + 1 + of_nat (length (uleb (length bs)))\<rparr>) (view s))"
proof -
  let ?n = "length bs" and ?u = "uleb (length bs)"
  have a: "ahead (fr_dio s) = CFA_def_cfa_expression # (?u @ bs) @ r" using assms(1) by simp
  note t = two_operands [OF a]
  have p: "unat (dio_pos (fwd (Suc (length ?u)) (fr_dio s))) \<le> unat (dio_len (fwd (Suc (length ?u)) (fr_dio s)))"
    using pos_inside [of "fr_dio s" "CFA_def_cfa_expression # ?u" "bs @ r"] a by simp
  have "does env fa s (Suc (length (?u @ bs))) (upd_cfa (\<lambda>f. f\<lparr>af_rule := RULE_EXPRESSION, af_offset := of_nat ?n,
      af_expression := dio_pos (fr_dio s) + 1 + of_nat (length ?u)\<rparr>) (view s))"
    using assms(3) by (intro does_cfa [OF a assms(2), where g = "\<lambda>g. g\<lparr>cfa_rule := RULE_EXPRESSION, cfa_offset := of_nat ?n,
        cfa_expression := dio_pos (fr_dio s) + 1 + of_nat (length ?u)\<rparr>"])
      (simp_all add: cfa_defs cfa_expr_def uleb_reads [OF t(1)] pos_reads bindP_getP skip_reads [OF t(2) p] frame_view_def rule_of_def fun_eq_iff add.assoc)
  then show ?thesis by simp
qed

lemma rule_all: "(x\<lparr>rr_rule := a, rr_offset := b, rr_expression := c\<rparr>) = \<lparr>rr_rule = a, rr_offset = b, rr_expression = c\<rparr>"
  by (cases x) simp

lemma exec_reg_expression:
  assumes "\<And>s. exec_op env fa op s = bindP read_uleb (\<lambda>n. reg_expression n rule) s" "ahead (fr_dio s) = op # (uleb n @ uleb (length bs) @ bs) @ r" "fr_inv s"
    "n < 2 ^ 31" "length bs < 2 ^ 31"
  shows "does env fa s (Suc (length (uleb n @ uleb (length bs) @ bs))) (upd_rule n (\<lambda>_. \<lparr>rr_rule = rule, rr_offset = of_nat (length bs),
    rr_expression = dio_pos (fr_dio s) + 1 + of_nat (length (uleb n)) + of_nat (length (uleb (length bs)))\<rparr>) (view s))"
proof -
  let ?u = "uleb n" and ?w = "uleb (length bs)" and ?d = "fr_dio s"
  note t = two_operands [OF assms(2)]
  have w: "ahead (fwd (Suc (length ?u)) ?d) = ?w @ (bs @ r)" using t(2) by simp
  have b: "ahead (fwd (Suc (length ?u + length ?w)) ?d) = bs @ r" using ahead_fwd [of ?d "op # ?u @ ?w" "bs @ r"] assms(2) by simp
  have p: "unat (dio_pos (fwd (Suc (length ?u + length ?w)) ?d)) \<le> unat (dio_len (fwd (Suc (length ?u + length ?w)) ?d))"
    using pos_inside [of ?d "op # ?u @ ?w" "bs @ r"] assms(2) by simp
  show ?thesis
    using assms(4,5) get_reg_length [OF assms(4), of "fr_rules s" "fr_frame_regs s"]
    by (intro does_reg [OF assms(2,4,3)])
      (simp add: assms(1) uleb_reads [OF t(1)] reg_expression_def bind_frame_reg run_set_reg uleb_reads [OF w] pos_reads skip_reads [OF b p] upd_reg_def rule_all Let_def add.assoc)
qed

lemma exec_advance:
  assumes "ahead (fr_dio s) = cfi_code (dio_big_endian (fr_dio s)) (CfiAdvance n) @ r" "fr_inv s" "n < 2 ^ 32"
  shows "does env fa s (length (cfi_code (dio_big_endian (fr_dio s)) (CfiAdvance n))) ((view s)\<lparr>ac_loc := ac_loc (view s) + ucast (of_nat n * ru_code_alignment (fr_rules s))\<rparr>)"
proof -
  let ?be = "dio_big_endian (fr_dio s)" and ?k = "length (cfi_code (dio_big_endian (fr_dio s)) (CfiAdvance n))"
  let ?t = "s\<lparr>fr_dio := fwd ?k (fr_dio s), fr_rules := (fr_rules s)\<lparr>ru_location := ru_location (fr_rules s) + ucast (of_nat n * ru_code_alignment (fr_rules s))\<rparr>\<rparr>"
  have num: "dio_ReadN j (fwd 1 (fr_dio s)) = (Inr (of_nat n), fwd (Suc j) (fr_dio s))"
    if "ahead (fr_dio s) = op # number_bytes ?be j (of_nat n) @ r" "0 < j" "n < 2 ^ (8 * j)" for op j
  proof -
    have "take_bit (8 * j) (of_nat n :: u64) = of_nat n" using that(3) by (metis of_nat_take_bit take_bit_nat_eq_self_iff take_bit_of_nat)
    with ReadN_number [of "fwd 1 (fr_dio s)" j "of_nat n" r] one_operand(1) [OF that(1)] that(2) show ?thesis by simp
  qed
  have "exec_stack_frame_instruction env fa s = (Inr (), ?t)"
  proof (cases "n < 64")
    case True
    then have a: "ahead (fr_dio s) = of_nat (64 + n) # r" using assms(1) by simp
    have "exec_op env fa (of_nat (64 + n)) s' = advance_loc (of_nat n) s'" for s'
      using short_ops(1) [OF True] short_reg [OF True] by (simp add: op_short short_instruction_def Let_def del: of_nat_add)
    with exec_at [OF a, of env fa] True show ?thesis by (simp add: advance_loc_def run_rules)
  next
    case n: False
    show ?thesis
    proof (cases "n < 2 ^ 8")
      case True
      then have a: "ahead (fr_dio s) = CFA_advance_loc1 # [of_nat n] @ r" using assms(1) n by simp
      have "ucast (of_nat n :: byte) = (of_nat n :: u32)" using True by (simp add: unsigned_of_nat take_bit_nat_eq_self)
      with exec_at [OF a, of env fa] ReadU1_at [OF one_operand(1) [OF a, simplified]] True n show ?thesis
        by (simp add: exec_op_def bind_on_dio advance_loc_def run_rules)
    next
      case m: False
      show ?thesis
      proof (cases "n < 2 ^ 16")
        case True
        then have a: "ahead (fr_dio s) = CFA_advance_loc2 # number_bytes ?be 2 (of_nat n) @ r" using assms(1) n m by simp
        have "ucast (ucast (of_nat n :: u64) :: u16) = (of_nat n :: u32)" using True by (simp add: unsigned_of_nat take_bit_nat_eq_self)
        with exec_at [OF a, of env fa] num [OF a] True n m show ?thesis
          by (simp add: exec_op_def bind_on_dio dio_ReadU2_def bindP_def on_dio_def ret_def advance_loc_def run_rules)
      next
        case False
        then have a: "ahead (fr_dio s) = CFA_advance_loc4 # number_bytes ?be 4 (of_nat n) @ r" using assms(1) n m by simp
        have "ucast (of_nat n :: u64) = (of_nat n :: u32)" using assms(3) by (simp add: unsigned_of_nat take_bit_nat_eq_self)
        with exec_at [OF a, of env fa] num [OF a] False n m assms(3) show ?thesis
          by (simp add: exec_op_def bind_on_dio dio_ReadU4_def bindP_def on_dio_def ret_def advance_loc_def run_rules)
      qed
    qed
  qed
  then show ?thesis using assms(2) unfolding does_def by (simp add: view_def fr_inv_def others_def initial_rules_def)
qed

text \<open>All instructions.\<close>

theorem exec_cfi:
  assumes "cfi_ok i" "ahead (fr_dio s) = cfi_code (dio_big_endian (fr_dio s)) i @ r" "fr_inv s"
    and "cfi_step (ru_code_alignment (fr_rules s)) (ru_data_alignment (fr_rules s)) (initial_rules s) (dio_pos (fr_dio s)) i (view s) = Some a"
  shows "does env fa s (length (cfi_code (dio_big_endian (fr_dio s)) i)) a"
proof (cases i)
  case CfiNop
  then have "exec_stack_frame_instruction env fa s = (Inr (), s\<lparr>fr_dio := fwd 1 (fr_dio s)\<rparr>)"
    using exec_at [of s CFA_nop r env fa] assms(2) by (simp add: exec_op_def ret_def)
  with CfiNop assms show ?thesis by (simp add: does_def view_def fr_inv_def others_def initial_rules_def)
next
  case (CfiArgsSize n)
  then have b: "ahead (fr_dio s) = CFA_GNU_args_size # uleb n @ r" using assms(2) by simp
  have "exec_stack_frame_instruction env fa s = (Inr (), s\<lparr>fr_dio := fwd (Suc (length (uleb n))) (fr_dio s)\<rparr>)"
    using exec_at [OF b, of env fa] uleb_reads [OF one_operand(1) [OF b], of "s\<lparr>fr_dio := fwd 1 (fr_dio s)\<rparr>" "\<lambda>_. ret ()"] assms(1) CfiArgsSize
    by (simp add: exec_op_def ret_def)
  with CfiArgsSize assms show ?thesis by (simp add: does_def view_def fr_inv_def others_def initial_rules_def)
next
  case (CfiExpression n bs)
  with assms exec_reg_expression [of env fa CFA_expression RULE_EXPRESSION s n bs r] show ?thesis by (simp add: exec_op_def)
next
  case (CfiValExpression n bs)
  with assms exec_reg_expression [of env fa CFA_val_expression RULE_VAL_EXPRESSION s n bs r] show ?thesis by (simp add: exec_op_def)
next
  case (CfiAdvance n)
  with assms exec_advance [of s n r env fa] show ?thesis by simp
next
  case CfiRestoreState
  with assms exec_restore_state [OF assms(2) [unfolded CfiRestoreState] assms(3)] show ?thesis by (auto split: list.splits)
next
  case (CfiOffset n x)
  with assms exec_offset [of n x s "dio_big_endian (fr_dio s)" r env fa] show ?thesis by simp
next
  case (CfiDefCfaExpression bs)
  with assms exec_cfa_expression [of s "dio_big_endian (fr_dio s)" bs r env fa] show ?thesis by simp
next
  case (CfiSame n)
  with assms exec_same [of s "dio_big_endian (fr_dio s)" n r env fa] show ?thesis by simp
next
  case (CfiUndefined n)
  with assms exec_undefined [of s "dio_big_endian (fr_dio s)" n r env fa] show ?thesis by simp
next
  case (CfiRestore n)
  with assms exec_restore [of s "dio_big_endian (fr_dio s)" n r env fa] show ?thesis by simp
next
  case CfiRemember
  with assms exec_remember [of s "dio_big_endian (fr_dio s)" r env fa] show ?thesis by simp
next
  case (CfiOffsetSf n x)
  with assms exec_rules(1) [OF assms(3) refl, of n "dio_big_endian (fr_dio s)" x r env fa] show ?thesis by simp
next
  case (CfiValOffset n x)
  with assms exec_rules(2) [OF assms(3) refl, of n "dio_big_endian (fr_dio s)" x r env fa] show ?thesis by simp
next
  case (CfiValOffsetSf n x)
  with assms exec_rules(3) [OF assms(3) refl, of n "dio_big_endian (fr_dio s)" x r env fa] show ?thesis by simp
next
  case (CfiNegOffset n x)
  with assms exec_rules(4) [OF assms(3) refl, of n "dio_big_endian (fr_dio s)" x r env fa] show ?thesis by simp
next
  case (CfiRegister n x)
  with assms exec_rules(5) [OF assms(3) refl, of n "dio_big_endian (fr_dio s)" x r env fa] show ?thesis by simp
next
  case (CfiDefCfa n x)
  with assms exec_def_cfa(1) [OF assms(3) refl, of "dio_big_endian (fr_dio s)" n x r env fa] show ?thesis by simp
next
  case (CfiDefCfaSf n x)
  with assms exec_def_cfa(2) [OF assms(3) refl, of "dio_big_endian (fr_dio s)" n x r env fa] show ?thesis by simp
next
  case (CfiDefCfaRegister n)
  with assms exec_def_cfa(3) [OF assms(3) refl, of "dio_big_endian (fr_dio s)" n r env fa] show ?thesis by simp
next
  case (CfiDefCfaOffset x)
  with assms exec_def_cfa(4) [OF assms(3) refl, of "dio_big_endian (fr_dio s)" x r env fa] show ?thesis by simp
next
  case (CfiDefCfaOffsetSf x)
  with assms exec_def_cfa(5) [OF assms(3) refl, of "dio_big_endian (fr_dio s)" x r env fa] show ?thesis by simp
qed

end
