(* ===== verification/FrameTable.thy ===== *)
theory FrameTable
  imports FrameUnwind "HOL-Library.Sublist"
begin

text \<open>
  The table of a frame description as a whole: a program of frame instructions defines rows, each with the addresses it is for; the agent takes the row that has the address
  (src/agent/tcf/services/dwarfframe.c, \<open>read_frame_fde\<close> and \<open>read_frame_cie\<close>).
\<close>

unbundle bit_operations_syntax

section \<open>Rows\<close>

text \<open>
  The rows of a table: start and end of each, and its rules. \<open>hi\<close> is the end of the function, \<open>pos\<close> where the program is. \<open>None\<close> when the program restores what it did not
  remember, goes back, or past the end.
\<close>

type_synonym row = "u64 \<times> u64 \<times> aframe"

fun cfi_rows :: "bool \<Rightarrow> u32 \<Rightarrow> u32 \<Rightarrow> (nat \<Rightarrow> RegisterRules) \<Rightarrow> u64 \<Rightarrow> u64 \<Rightarrow> cfi list \<Rightarrow> acfi \<Rightarrow> row list option" where
  "cfi_rows be ca da ini hi pos [] a = (if ac_loc a \<le> hi then Some [(ac_loc a, hi, ac_frame a)] else None)"
| "cfi_rows be ca da ini hi pos (i # is) a =
     (case cfi_step ca da ini pos i a of
        None \<Rightarrow> None
      | Some b \<Rightarrow>
          if ac_loc b < ac_loc a then None
          else map_option (\<lambda>rs. if ac_loc b = ac_loc a then rs else (ac_loc a, ac_loc b, ac_frame a) # rs)
            (cfi_rows be ca da ini hi (pos + of_nat (length (cfi_code be i))) is b))"

definition covers :: "u64 \<Rightarrow> row \<Rightarrow> bool" where
  "covers ip r \<longleftrightarrow> fst r \<le> ip \<and> ip < fst (snd r)"

definition cfi_program :: "bool \<Rightarrow> cfi list \<Rightarrow> byte list" where
  "cfi_program be is = concat (map (cfi_code be) is)"

lemma cfi_code_length: "0 < length (cfi_code be i)"
  by (cases i) auto

lemma loc_frame: "cfi_step ca da ini pos i a = Some b \<Longrightarrow> ac_loc b \<noteq> ac_loc a \<Longrightarrow> ac_frame b = ac_frame a"
  by (cases i) (auto simp: upd_rule_def upd_cfa_def split: list.splits)

lemma rows_before: "cfi_rows be ca da ini hi pos is a = Some rs \<Longrightarrow> ip < ac_loc a \<Longrightarrow> filter (covers ip) rs = []"
proof (induction "is" arbitrary: pos a rs)
  case Nil
  then show ?case by (auto simp: covers_def split: if_splits)
next
  case (Cons i "is")
  then obtain b qs where b: "cfi_step ca da ini pos i a = Some b" "\<not> ac_loc b < ac_loc a"
      "cfi_rows be ca da ini hi (pos + of_nat (length (cfi_code be i))) is b = Some qs"
      "rs = (if ac_loc b = ac_loc a then qs else (ac_loc a, ac_loc b, ac_frame a) # qs)" by (auto split: option.splits if_splits)
  from Cons.prems(2) b(2) have "ip < ac_loc b" by simp
  from Cons.IH [OF b(3) this] b(4) Cons.prems(2) show ?case by (auto simp: covers_def)
qed

lemma others_view:
  assumes "others t = others s"
  shows "ru_code_alignment (fr_rules t) = ru_code_alignment (fr_rules s)" "ru_data_alignment (fr_rules t) = ru_data_alignment (fr_rules s)" "initial_rules t = initial_rules s"
proof -
  have e: "(fr_rules t)\<lparr>ru_location := 0\<rparr> = (fr_rules s)\<lparr>ru_location := 0\<rparr>" using assms by (simp add: others_def)
  show "ru_code_alignment (fr_rules t) = ru_code_alignment (fr_rules s)" using arg_cong [OF e, of ru_code_alignment] by simp
  show "ru_data_alignment (fr_rules t) = ru_data_alignment (fr_rules s)" using arg_cong [OF e, of ru_data_alignment] by simp
  show "initial_rules t = initial_rules s" using assms by (simp add: others_def)
qed

lemma fde_loop_row:
  assumes "cfi_rows (dio_big_endian (fr_dio s)) (ru_code_alignment (fr_rules s)) (ru_data_alignment (fr_rules s)) (initial_rules s) (addr + rng) (dio_pos (fr_dio s)) is (view s) = Some rs"
    "ahead (fr_dio s) = cfi_program (dio_big_endian (fr_dio s)) is @ r" "list_all cfi_ok is" "fr_inv s" "ac_loc (view s) \<le> ip" "ip < addr + rng"
  shows "\<exists>t l h f. filter (covers ip) rs = [(l, h, f)] \<and>
    fde_loop env ip addr rng (dio_pos (fr_dio s) + of_nat (length (cfi_program (dio_big_endian (fr_dio s)) is))) (ac_loc (view s)) s = Some (Inr l, t) \<and>
    ac_loc (view t) = h \<and> ac_frame (view t) = f \<and> fr_inv t \<and> others t = others s"
  using assms
proof (induction "is" arbitrary: s rs)
  case Nil
  let ?t = "s\<lparr>fr_rules := (fr_rules s)\<lparr>ru_location := addr + rng\<rparr>\<rparr>"
  have "fr_inv ?t" "others ?t = others s" using Nil.prems(4) by (simp_all add: fr_inv_def others_def initial_rules_def)
  with Nil.prems show ?case by (subst fde_loop.simps) (auto simp: covers_def cfi_program_def split: if_splits)
next
  case (Cons i "is")
  let ?be = "dio_big_endian (fr_dio s)" and ?ca = "ru_code_alignment (fr_rules s)" and ?da = "ru_data_alignment (fr_rules s)" and ?d = "fr_dio s" and ?c = "cfi_code (dio_big_endian (fr_dio s)) i"
  let ?fin = "dio_pos ?d + of_nat (length (cfi_program ?be (i # is)))"
  from Cons.prems(1) obtain b qs where b: "cfi_step ?ca ?da (initial_rules s) (dio_pos ?d) i (view s) = Some b" "\<not> ac_loc b < ac_loc (view s)"
      "cfi_rows ?be ?ca ?da (initial_rules s) (addr + rng) (dio_pos ?d + of_nat (length ?c)) is b = Some qs"
      "rs = (if ac_loc b = ac_loc (view s) then qs else (ac_loc (view s), ac_loc b, ac_frame (view s)) # qs)" by (auto split: option.splits if_splits)
  have a: "ahead ?d = ?c @ (cfi_program ?be is @ r)" using Cons.prems(2) by (simp add: cfi_program_def)
  have ok: "cfi_ok i" "list_all cfi_ok is" using Cons.prems(3) by simp_all
  from exec_cfi [OF ok(1) a Cons.prems(4) b(1)] obtain t where
    t: "exec_stack_frame_instruction env addr s = (Inr (), t)" "view t = b" "fr_dio t = fwd (length ?c) ?d" "fr_inv t" "others t = others s" unfolding does_def by blast
  have bound: "unat (dio_pos ?d) + length (cfi_program ?be (i # is)) \<le> unat (dio_len ?d)"
    using ahead_bounds [OF Cons.prems(2)] cfi_code_length [of ?be i] by (simp add: cfi_program_def)
  have lt: "dio_pos ?d < ?fin" using unat_fwd [OF bound] cfi_code_length [of ?be i] by (simp add: word_less_nat_alt cfi_program_def)
  have step: "fde_loop env ip addr rng ?fin (ac_loc (view s)) s =
      (if ac_loc b > ip then Some (Inr (ac_loc (view s)), t) else fde_loop env ip addr rng ?fin (ac_loc b) t)"
    using lt t(1,2) Cons.prems(5) by (subst fde_loop.simps) auto
  show ?case
  proof (cases "ac_loc b > ip")
    case True
    then have n: "ac_loc b \<noteq> ac_loc (view s)" using Cons.prems(5) by auto
    have "filter (covers ip) rs = [(ac_loc (view s), ac_loc b, ac_frame b)]"
      using rows_before [OF b(3) True] b(4) n True Cons.prems(5) loc_frame [OF b(1) n] by (simp add: covers_def)
    with step True t show ?thesis by (auto simp: n)
  next
    case False
    then have f: "filter (covers ip) rs = filter (covers ip) qs" using b(4) by (auto simp: covers_def)
    note o = others_view [OF t(5)]
    have be: "dio_big_endian (fr_dio t) = ?be" "dio_pos (fr_dio t) = dio_pos ?d + of_nat (length ?c)" using t(3) by simp_all
    have e: "dio_pos (fr_dio t) + of_nat (length (cfi_program ?be is)) = ?fin" by (simp add: be cfi_program_def add.assoc)
    have "ahead (fr_dio t) = cfi_program ?be is @ r" using ahead_fwd [OF a] t(3) by simp
    with Cons.IH [of t qs] b(3) t(2,4) ok(2) False Cons.prems(6) have
      "\<exists>u l h f. filter (covers ip) qs = [(l, h, f)] \<and> fde_loop env ip addr rng ?fin (ac_loc b) t = Some (Inr l, u) \<and>
        ac_loc (view u) = h \<and> ac_frame (view u) = f \<and> fr_inv u \<and> others u = others t" by (simp add: o be e [unfolded be] del: view_simps)
    with step False f t(5) show ?thesis by auto
  qed
qed

section \<open>Common information\<close>

text \<open>The program of the common information is run to its end.\<close>

fun cfi_run :: "bool \<Rightarrow> u32 \<Rightarrow> u32 \<Rightarrow> (nat \<Rightarrow> RegisterRules) \<Rightarrow> u64 \<Rightarrow> cfi list \<Rightarrow> acfi \<Rightarrow> acfi option" where
  "cfi_run be ca da ini pos [] a = Some a"
| "cfi_run be ca da ini pos (i # is) a =
     (case cfi_step ca da ini pos i a of None \<Rightarrow> None | Some b \<Rightarrow> cfi_run be ca da ini (pos + of_nat (length (cfi_code be i))) is b)"

lemma loopP_done: "\<not> c s \<Longrightarrow> loopP c body s = (Inr (), s)"
  by (simp add: loopP_step)

lemma loopP_next: "c s \<Longrightarrow> body s = (Inr (), t) \<Longrightarrow> loopP c body t = (Inr (), u) \<Longrightarrow> loopP c body s = (Inr (), u)"
  unfolding loopP_def by (subst while_sx.simps) (auto split: option.splits)

lemma exec_instructions_run:
  assumes "cfi_run (dio_big_endian (fr_dio s)) (ru_code_alignment (fr_rules s)) (ru_data_alignment (fr_rules s)) (initial_rules s) (dio_pos (fr_dio s)) is (view s) = Some a"
    "ahead (fr_dio s) = cfi_program (dio_big_endian (fr_dio s)) is @ r" "list_all cfi_ok is" "fr_inv s"
  shows "\<exists>t. exec_instructions env fa (dio_pos (fr_dio s) + of_nat (length (cfi_program (dio_big_endian (fr_dio s)) is))) s = (Inr (), t) \<and>
    view t = a \<and> fr_dio t = fwd (length (cfi_program (dio_big_endian (fr_dio s)) is)) (fr_dio s) \<and> fr_inv t \<and> others t = others s"
  using assms
proof (induction "is" arbitrary: s)
  case Nil
  then show ?case by (simp add: exec_instructions_def loopP_done cfi_program_def del: view_simps)
next
  case (Cons i "is")
  let ?be = "dio_big_endian (fr_dio s)" and ?d = "fr_dio s" and ?c = "cfi_code (dio_big_endian (fr_dio s)) i"
  let ?fin = "dio_pos ?d + of_nat (length (cfi_program ?be (i # is)))"
  from Cons.prems(1) obtain b where b: "cfi_step (ru_code_alignment (fr_rules s)) (ru_data_alignment (fr_rules s)) (initial_rules s) (dio_pos ?d) i (view s) = Some b"
      "cfi_run ?be (ru_code_alignment (fr_rules s)) (ru_data_alignment (fr_rules s)) (initial_rules s) (dio_pos ?d + of_nat (length ?c)) is b = Some a"
    by (auto split: option.splits)
  have x: "ahead ?d = ?c @ (cfi_program ?be is @ r)" using Cons.prems(2) by (simp add: cfi_program_def)
  have ok: "cfi_ok i" "list_all cfi_ok is" using Cons.prems(3) by simp_all
  from exec_cfi [OF ok(1) x Cons.prems(4) b(1)] obtain t where
    t: "exec_stack_frame_instruction env fa s = (Inr (), t)" "view t = b" "fr_dio t = fwd (length ?c) ?d" "fr_inv t" "others t = others s" unfolding does_def by blast
  have bound: "unat (dio_pos ?d) + length (cfi_program ?be (i # is)) \<le> unat (dio_len ?d)"
    using ahead_bounds [OF Cons.prems(2)] cfi_code_length [of ?be i] by (simp add: cfi_program_def)
  have lt: "dio_pos ?d < ?fin" using unat_fwd [OF bound] cfi_code_length [of ?be i] by (simp add: word_less_nat_alt cfi_program_def)
  note o = others_view [OF t(5)]
  have be: "dio_big_endian (fr_dio t) = ?be" "dio_pos (fr_dio t) = dio_pos ?d + of_nat (length ?c)" using t(3) by simp_all
  have e: "dio_pos ?d + of_nat (length ?c) + of_nat (length (cfi_program ?be is)) = ?fin" by (simp add: cfi_program_def add.assoc)
  have "ahead (fr_dio t) = cfi_program ?be is @ r" using ahead_fwd [OF x] t(3) by simp
  with Cons.IH [of t] b(2) t(2,4) ok(2) obtain u where
    u: "exec_instructions env fa ?fin t = (Inr (), u)" "view u = a" "fr_dio u = fwd (length (cfi_program ?be is)) (fr_dio t)" "fr_inv u" "others u = others t"
    by (auto simp: o be e simp del: view_simps)
  have "exec_instructions env fa ?fin s = (Inr (), u)"
    unfolding exec_instructions_def by (rule loopP_next [OF lt t(1) u(1) [unfolded exec_instructions_def]])
  with u t(3,5) show ?case by (simp add: cfi_program_def)
qed

text \<open>
  Common information as compilers write it: with the address encoding in an augmentation, or without. \<open>mark\<close> marks the entry as common information, \<open>asz\<close> is the size of an address.
\<close>

record cie =
  ci_version :: byte
  ci_enc :: "byte option"
  ci_ca :: nat
  ci_da :: int
  ci_ra :: nat
  ci_code :: "cfi list"

definition cie_aug :: "cie \<Rightarrow> byte list" where
  "cie_aug c = (case ci_enc c of None \<Rightarrow> [] | Some e \<Rightarrow> [0x7a, 0x52])"

definition cie_enc :: "cie \<Rightarrow> byte" where
  "cie_enc c = (case ci_enc c of None \<Rightarrow> 0 | Some e \<Rightarrow> e)"

definition cie_header :: "nat \<Rightarrow> cie \<Rightarrow> byte list" where
  "cie_header asz c = ci_version c # cie_aug c @ 0 # (if ci_version c = 4 then [of_nat asz, 0] else []) @
     uleb (ci_ca c) @ sleb (ci_da c) @ uleb (ci_ra c) @ (case ci_enc c of None \<Rightarrow> [] | Some e \<Rightarrow> [1, e])"

definition cie_body :: "bool \<Rightarrow> nat \<Rightarrow> u64 \<Rightarrow> cie \<Rightarrow> byte list" where
  "cie_body be asz mark c = number_bytes be 4 mark @ cie_header asz c @ cfi_program be (ci_code c)"

definition cie_bytes :: "bool \<Rightarrow> nat \<Rightarrow> u64 \<Rightarrow> cie \<Rightarrow> byte list" where
  "cie_bytes be asz mark c = number_bytes be 4 (of_nat (length (cie_body be asz mark c))) @ cie_body be asz mark c"

definition cie_ok :: "cie \<Rightarrow> bool" where
  "cie_ok c \<longleftrightarrow> ci_version c \<in> {1, 3, 4} \<and> ci_ca c < 2 ^ 32 \<and> sint_ok (ci_da c) \<and> ci_ra c < 2 ^ 31 \<and> list_all cfi_ok (ci_code c)"

lemma number_bytes_Nil [simp]: "number_bytes be k v = [] \<longleftrightarrow> k = 0"
  by (metis length_0_conv length_number_bytes)

lemma u1_reads: "ahead d = b # r \<Longrightarrow> fr_dio s = d \<Longrightarrow> bindP (on_dio dio_ReadU1) f s = f b (s\<lparr>fr_dio := fwd 1 d\<rparr>)"
  using bind_on_dio [of dio_ReadU1 s b "fwd 1 d" f] by (simp add: ReadU1_at)

lemma take_bit_bytes: "n < 2 ^ (8 * k) \<Longrightarrow> take_bit (8 * k) (of_nat n :: u64) = of_nat n"
  by (metis of_nat_take_bit take_bit_nat_eq_self_iff take_bit_of_nat)

lemma u4_reads:
  assumes "ahead d = number_bytes (dio_big_endian d) 4 (of_nat n) @ r" "n < 2 ^ 32" "fr_dio s = d"
  shows "bindP (on_dio dio_ReadU4) f s = f (of_nat n) (s\<lparr>fr_dio := fwd 4 d\<rparr>)"
proof -
  have "dio_ReadU4 d = (Inr (of_nat n), fwd 4 d)"
    using ReadN_number [OF assms(1)] assms(2) take_bit_bytes [of n 4] by (simp add: dio_ReadU4_def bindP_def ret_def unsigned_of_nat take_bit_nat_eq_self)
  from bind_on_dio [of dio_ReadU4 s _ _ f] this assms(3) show ?thesis by simp
qed

lemma string_loop_at: "ahead d = bs @ 0 # r \<Longrightarrow> 0 \<notin> set bs \<Longrightarrow> string_loop acc d = (Inr (acc @ bs), fwd (Suc (length bs)) d)"
proof (induction bs arbitrary: acc d)
  case Nil
  then show ?case by (subst string_loop.simps) (simp add: ReadU1_at)
next
  case (Cons b bs)
  then have "ahead (fwd 1 d) = bs @ 0 # r" using ahead_fwd [of d "[b]"] by simp
  with Cons show ?case by (subst string_loop.simps) (simp add: ReadU1_at)
qed

lemma string_reads:
  "ahead d = bs @ 0 # r \<Longrightarrow> 0 \<notin> set bs \<Longrightarrow> fr_dio s = d \<Longrightarrow> bindP (on_dio dio_ReadString) f s = f bs (s\<lparr>fr_dio := fwd (Suc (length bs)) d\<rparr>)"
  using bind_on_dio [of dio_ReadString s bs "fwd (Suc (length bs)) d" f] string_loop_at [of d bs r "[]"] by (simp add: dio_ReadString_def)

lemma ahead_cut: "ahead d = bs @ r \<Longrightarrow> length bs = k \<Longrightarrow> ahead (fwd k d) = r"
  using ahead_fwd by blast

text \<open>Setting the position.\<close>

lemma set_pos_reads: "pos \<le> dio_len d \<Longrightarrow> fr_dio s = d \<Longrightarrow> bindP (on_dio (dio_SetPos pos)) f s = f () (s\<lparr>fr_dio := d\<lparr>dio_pos := pos\<rparr>\<rparr>)"
  by (simp add: bind_on_dio dio_SetPos_def)

lemma inside: "ahead d = bs @ r \<Longrightarrow> bs @ r \<noteq> [] \<Longrightarrow> dio_pos d + of_nat (length bs) \<le> dio_len d"
  using ahead_bounds [of d bs r] unat_fwd [of d "length bs"] by (simp add: word_le_nat_alt)

lemma run_set_pos: "pos \<le> dio_len (fr_dio s) \<Longrightarrow> on_dio (dio_SetPos pos) s = (Inr (), s\<lparr>fr_dio := (fr_dio s)\<lparr>dio_pos := pos\<rparr>\<rparr>)"
  by (simp add: on_dio_def dio_SetPos_def)

definition header_rules :: "u64 \<Rightarrow> nat \<Rightarrow> cie \<Rightarrow> StackFrameRules \<Rightarrow> StackFrameRules" where
  "header_rules pos asz c ru = ru\<lparr>ru_cie_pos := pos, ru_version := ci_version c, ru_cie_aug := cie_aug c, ru_address_size := of_nat asz, ru_segment_size := 0,
     ru_code_alignment := of_nat (ci_ca c), ru_data_alignment := of_int (ci_da c), ru_return_address_register := of_nat (ci_ra c),
     ru_lsda_encoding := 0, ru_prh_encoding := 0, ru_addr_encoding := cie_enc c\<rparr>"

abbreviation addr_size :: "ELF_File \<Rightarrow> nat" where "addr_size file \<equiv> if ef_elf64 file then 8 else 4"

lemma read_cie_sizes_at:
  assumes "v \<in> {1, 3, 4}" "fr_dio s = d" "asz = addr_size (ru_file (fr_rules s))" "ahead d = (if v = 4 then [of_nat asz, 0] else []) @ r"
  shows "bindP (read_cie_sizes v) f s = f () (s\<lparr>fr_dio := fwd (if v = 4 then 2 else 0) d, fr_rules := (fr_rules s)\<lparr>ru_address_size := of_nat asz, ru_segment_size := 0\<rparr>\<rparr>)"
proof (cases "v = 4")
  case True
  then have a: "ahead d = of_nat asz # 0 # r" "ahead (fwd 1 d) = 0 # r" using assms(4) ahead_cut [of d "[of_nat asz]" "0 # r" 1] by simp_all
  show ?thesis using True assms(2) by (simp add: read_cie_sizes_def u1_reads [OF a(1)] u1_reads [OF a(2)] bind_rules numeral_2_eq_2)
next
  case False
  then have "\<not> v \<ge> 4" using assms(1) by (auto simp: word_le_nat_alt)
  with False assms(2) [symmetric] assms(3) show ?thesis by (simp add: read_cie_sizes_def bind_rules)
qed

lemma aug_item_R: "aug_item env 0x52 = bindP (on_dio dio_ReadU1) (\<lambda>e. set_rules (ru_addr_encoding_update (\<lambda>_. e)))"
  by (simp add: aug_item_def)

lemma read_cie_aug_at:
  assumes "fr_dio s = d" "ahead d = (case ci_enc c of None \<Rightarrow> [] | Some e \<Rightarrow> [1, e]) @ r" "ru_addr_encoding (fr_rules s) = 0"
  shows "read_cie_aug env (cie_aug c) s = (Inr (), s\<lparr>fr_dio := fwd (case ci_enc c of None \<Rightarrow> 0 | Some e \<Rightarrow> 2) d,
    fr_rules := (fr_rules s)\<lparr>ru_addr_encoding := cie_enc c\<rparr>\<rparr>)"
proof (cases "ci_enc c")
  case None
  then show ?thesis using assms by (simp add: read_cie_aug_def cie_aug_def cie_enc_def has_aug_data_def ret_def)
next
  case (Some e)
  have u: "uleb 1 = [1]" by (subst uleb.simps) simp
  have a: "ahead d = uleb 1 @ (e # r)" using assms(2) Some u by simp
  have b: "ahead (fwd 1 d) = e # r" using ahead_cut [OF a, of 1] u by simp
  have n: "uleb (Suc 0) = [1]" using u by simp
  have p: "dio_pos d + 1 + 1 \<le> dio_len d" using inside [of d "[1, e]" r] assms(2) Some by (simp add: add.assoc)
  then have q: "2 + dio_pos d \<le> dio_len d" by (simp add: add.assoc add.commute)
  show ?thesis using assms(1) Some q
    by (simp add: read_cie_aug_def cie_aug_def cie_enc_def has_aug_data_def uleb_reads [OF a] n pos_reads aug_item_R u1_reads [OF b] bind_rules run_set_pos fwd_def add.commute)
qed

lemma read_cie_header_at:
  assumes "fr_dio s = d" "ahead d = cie_header asz c @ r" "cie_ok c" "asz = addr_size (ru_file (fr_rules s))"
  shows "read_cie_header env s = (Inr (), s\<lparr>fr_dio := fwd (length (cie_header asz c)) d, fr_rules := header_rules (ru_cie_pos (fr_rules s)) asz c (fr_rules s)\<rparr>)"
proof -
  let ?S = "if ci_version c = 4 then [of_nat asz, 0] else []" and ?E = "case ci_enc c of None \<Rightarrow> [] | Some e \<Rightarrow> [1, e]"
  define d1 where "d1 = fwd 1 d"
  define d2 where "d2 = fwd (Suc (length (cie_aug c))) d1"
  define d3 where "d3 = fwd (if ci_version c = 4 then 2 else 0) d2"
  define d4 where "d4 = fwd (length (uleb (ci_ca c))) d3"
  define d5 where "d5 = fwd (length (sleb (ci_da c))) d4"
  define d6 where "d6 = fwd (length (uleb (ci_ra c))) d5"
  have a0: "ahead d = ci_version c # cie_aug c @ 0 # ?S @ uleb (ci_ca c) @ sleb (ci_da c) @ uleb (ci_ra c) @ ?E @ r" using assms(2) by (simp add: cie_header_def)
  have a1: "ahead d1 = cie_aug c @ 0 # ?S @ uleb (ci_ca c) @ sleb (ci_da c) @ uleb (ci_ra c) @ ?E @ r"
    unfolding d1_def using a0 by (intro ahead_cut [where bs = "[ci_version c]"]) simp_all
  have a2: "ahead d2 = ?S @ uleb (ci_ca c) @ sleb (ci_da c) @ uleb (ci_ra c) @ ?E @ r"
    unfolding d2_def using a1 by (intro ahead_cut [where bs = "cie_aug c @ [0]"]) simp_all
  have a3: "ahead d3 = uleb (ci_ca c) @ sleb (ci_da c) @ uleb (ci_ra c) @ ?E @ r" unfolding d3_def by (rule ahead_cut [OF a2]) simp
  have a4: "ahead d4 = sleb (ci_da c) @ uleb (ci_ra c) @ ?E @ r" unfolding d4_def by (rule ahead_cut [OF a3]) simp
  have a5: "ahead d5 = uleb (ci_ra c) @ ?E @ r" unfolding d5_def by (rule ahead_cut [OF a4]) simp
  have a6: "ahead d6 = ?E @ r" unfolding d6_def by (rule ahead_cut [OF a5]) simp
  have aug: "0 \<notin> set (cie_aug c)" "cie_aug c \<noteq> [0x65, 0x68]" by (auto simp: cie_aug_def split: option.splits)
  have ok: "ci_version c \<in> {1, 3, 4}" "ci_ca c < 2 ^ 32" "sint_ok (ci_da c)" "ci_ra c < 2 ^ 32" using assms(3) by (auto simp: cie_ok_def)
  have v: "\<not> (ci_version c \<noteq> 1 \<and> ci_version c \<noteq> 3 \<and> ci_version c \<noteq> 4)" using ok(1) by auto
  have e: "fwd (case ci_enc c of None \<Rightarrow> 0 | Some e \<Rightarrow> 2) d6 = fwd (length (cie_header asz c)) d"
    by (simp add: d1_def d2_def d3_def d4_def d5_def d6_def cie_header_def ac_simps split: option.splits)
  have z: "bindP (read_cie_sizes (ci_version c)) f (s\<lparr>fr_dio := d2, fr_rules := R\<rparr>) =
      f () (s\<lparr>fr_dio := d3, fr_rules := R\<lparr>ru_address_size := of_nat asz, ru_segment_size := 0\<rparr>\<rparr>)" if "ru_file R = ru_file (fr_rules s)" for f R
    using read_cie_sizes_at [OF ok(1) _ _ a2, of "s\<lparr>fr_dio := d2, fr_rules := R\<rparr>" f] that assms(4) by (simp flip: d3_def)
  show ?thesis
    unfolding read_cie_header_def
    by (simp add: u1_reads [OF a0 assms(1)] string_reads [OF a1 aug(1)] uleb_reads [OF a3 ok(2)] sleb_reads [OF a4 ok(3)] uleb_reads [OF a5 ok(4)] read_cie_aug_at [OF _ a6]
        z bind_rules v aug(2) e header_rules_def del: fwd_simps One_nat_def flip: d1_def d2_def d4_def d5_def d6_def)
qed

definition cie_start :: "nat \<Rightarrow> u32 \<Rightarrow> u64 \<Rightarrow> acfi" where
  "cie_start m ra loc = \<lparr>ac_loc = loc, ac_frame = \<lparr>af_rule = RULE_NONE, af_offset = 0, af_register = 0, af_expression = 0, af_regs = implied_rule m ra\<rparr>, ac_stack = []\<rparr>"

lemma view_clear [simp]: "frame_view m ra clear_frame_registers = ac_frame (cie_start m ra loc)" "regs_ok k clear_frame_registers"
  by (simp_all add: frame_view_def clear_frame_registers_def rule_of_def cie_start_def regs_ok_def fun_eq_iff)

lemma cfi_step_loc: "cfi_step ca da ini pos i a = Some b \<Longrightarrow> \<exists>k. cfi_step ca da ini pos i (a\<lparr>ac_loc := l\<rparr>) = Some (b\<lparr>ac_loc := k\<rparr>)"
  by (cases i) (auto simp: upd_rule_def upd_cfa_def split: list.splits intro: exI [of _ l])

lemma cfi_run_loc: "cfi_run be ca da ini pos is a = Some b \<Longrightarrow> \<exists>k. cfi_run be ca da ini pos is (a\<lparr>ac_loc := l\<rparr>) = Some (b\<lparr>ac_loc := k\<rparr>)"
proof (induction "is" arbitrary: pos a l)
  case (Cons i "is")
  then obtain x where x: "cfi_step ca da ini pos i a = Some x" "cfi_run be ca da ini (pos + of_nat (length (cfi_code be i))) is x = Some b" by (auto split: option.splits)
  from cfi_step_loc [OF x(1), of l] Cons.IH [OF x(2)] show ?case by fastforce
qed auto

lemma read_length_at:
  assumes "ahead d = number_bytes (dio_big_endian d) 4 (of_nat n) @ r" "n < 2 ^ 32 - 1" "fr_dio s = d"
  shows "bindP read_length f s = f (of_nat n, False) (s\<lparr>fr_dio := fwd 4 d\<rparr>)"
proof -
  have u: "unat (of_nat n :: u32) = n" using assms(2) by (simp add: unat_of_nat)
  have m: "unat (- 1 :: u32) = 2 ^ 32 - 1" by (simp add: unsigned_minus_1_eq_mask mask_eq_exp_minus_1)
  have "(of_nat n :: u32) \<noteq> - 1" using u m assms(2) by (metis less_irrefl)
  moreover have "ucast (of_nat n :: u32) = (of_nat n :: u64)" using u by (metis of_nat_unat ucast_id)
  ultimately show ?thesis using assms by (simp add: read_length_def u4_reads [OF assms(1)])
qed

lemma skip4_reads:
  assumes "ahead d = bs @ r" "length bs = 4" "fr_dio s = d"
  shows "bindP (on_dio (dio_Skip 4)) f s = f () (s\<lparr>fr_dio := fwd 4 d\<rparr>)"
proof -
  have "bs @ r \<noteq> []" using assms(2) by auto
  from inside [OF assms(1) this] have "\<not> dio_pos d + 4 > dio_len d" using assms(2) by simp
  with assms(3) show ?thesis by (simp add: bind_on_dio dio_Skip_def fwd_def)
qed

definition outputs :: "fr \<Rightarrow> sft_cmd list \<times> u64 \<times> u64 \<times> sft_cmd list \<times> (RegisterDefinition \<times> sft_cmd list) list \<times> FrameInfoIndex list" where
  "outputs s = (fr_trace_cmds s, fr_trace_addr s, fr_trace_size s, fr_trace_fp s, fr_trace_regs s, fr_indexes s)"

lemma others_outputs: "others t = others s \<Longrightarrow> outputs t = outputs s \<and> (fr_rules t)\<lparr>ru_location := 0\<rparr> = (fr_rules s)\<lparr>ru_location := 0\<rparr>"
  by (simp add: others_def outputs_def)

lemma same_rules: "ru\<lparr>ru_location := 0\<rparr> = ru'\<lparr>ru_location := 0\<rparr> \<Longrightarrow> \<exists>l. ru = ru'\<lparr>ru_location := l\<rparr>"
  by (cases ru, cases ru') auto

lemma read_frame_cie_at:
  fixes s :: fr and c :: cie
  defines "d \<equiv> fr_dio s" and "m \<equiv> ru_machine (fr_rules s)" and "ra \<equiv> of_nat (ci_ra c) :: u32" and "be \<equiv> dio_big_endian (fr_dio s)"
  assumes "ahead (d\<lparr>dio_pos := pos\<rparr>) = cie_bytes be asz mark c @ r" "cie_ok c" "asz = addr_size (ru_file (fr_rules s))"
    "dio_len d = es_size (ru_section (fr_rules s))" "dio_pos d \<le> dio_len d" "length (cie_body be asz mark c) < 2 ^ 32 - 1"
    "cfi_run be (of_nat (ci_ca c)) (of_int (ci_da c)) (implied_rule m ra) (pos + of_nat (8 + length (cie_header asz c))) (ci_code c) (cie_start m ra 0) = Some a"
  shows "\<exists>t. read_frame_cie env pos s = (Inr (), t) \<and> fr_dio t = d \<and> (fr_rules t)\<lparr>ru_location := 0\<rparr> = (header_rules pos asz c (fr_rules s))\<lparr>ru_location := 0\<rparr> \<and>
    frame_view m ra (fr_cie_regs t) = ac_frame a \<and> regs_ok m (fr_cie_regs t) \<and> outputs t = outputs s"
proof -
  let ?H = "header_rules pos asz c (fr_rules s)" and ?prog = "cfi_program be (ci_code c)" and ?body = "cie_body be asz mark c"
  define d1 where "d1 = d\<lparr>dio_pos := pos\<rparr>"
  define d2 where "d2 = fwd 4 d1"
  define d3 where "d3 = fwd 4 d2"
  define d4 where "d4 = fwd (length (cie_header asz c)) d3"
  have be: "dio_big_endian d1 = be" "dio_big_endian d2 = be" "dio_big_endian d4 = be" by (simp_all add: d1_def d2_def d3_def d4_def d_def be_def)
  have a1: "ahead d1 = number_bytes (dio_big_endian d1) 4 (of_nat (length ?body)) @ ?body @ r" using assms(5) be by (simp add: cie_bytes_def d1_def)
  have a2: "ahead d2 = number_bytes be 4 mark @ cie_header asz c @ ?prog @ r" unfolding d2_def using ahead_cut [OF a1, of 4] by (simp add: cie_body_def)
  have a3: "ahead d3 = cie_header asz c @ ?prog @ r" unfolding d3_def by (rule ahead_cut [OF a2]) simp
  have a4: "ahead d4 = ?prog @ r" unfolding d4_def by (rule ahead_cut [OF a3]) simp
  have "unat pos + 4 \<le> unat (dio_len d)" using ahead_bounds [of d1 "number_bytes (dio_big_endian d1) 4 (of_nat (length ?body))"] a1 by (simp add: d1_def cie_body_def)
  then have p: "\<not> es_size (ru_section (fr_rules s)) \<le> pos" "pos \<le> dio_len d" using assms(8) by (simp_all add: word_less_nat_alt word_le_nat_alt)
  let ?S = "s\<lparr>fr_dio := d4, fr_rules := ?H, fr_cie_regs := clear_frame_registers, fr_frame_regs := clear_frame_registers, fr_regs_stack_pos := 0\<rparr>"
  have h: "ru_machine ?H = m" "ru_return_address_register ?H = ra" "ru_code_alignment ?H = of_nat (ci_ca c)" "ru_data_alignment ?H = of_int (ci_da c)"
    by (simp_all add: header_rules_def m_def ra_def)
  have v: "view ?S = cie_start m ra (ru_location ?H)" by (simp add: view_def h frame_view_def clear_frame_registers_def rule_of_def cie_start_def fun_eq_iff)
  have ini: "initial_rules ?S = implied_rule m ra" by (simp add: initial_rules_def h rule_of_def clear_frame_registers_def fun_eq_iff)
  have inv: "fr_inv ?S" by (simp add: fr_inv_def)
  have q: "dio_pos d4 = pos + of_nat (8 + length (cie_header asz c))" by (simp add: d1_def d2_def d3_def d4_def)
  obtain k where k: "cfi_run be (of_nat (ci_ca c)) (of_int (ci_da c)) (implied_rule m ra) (dio_pos d4) (ci_code c) (cie_start m ra (ru_location ?H)) = Some (a\<lparr>ac_loc := k\<rparr>)"
    using cfi_run_loc [OF assms(11), of "ru_location ?H"] by (auto simp: cie_start_def q)
  have ok: "list_all cfi_ok (ci_code c)" using assms(6) by (simp add: cie_ok_def)
  have fin: "dio_pos d2 + of_nat (length ?body) = dio_pos d4 + of_nat (length ?prog)" by (simp add: d2_def d3_def d4_def cie_body_def ac_simps)
  obtain t where t: "exec_instructions env 0 (dio_pos d2 + of_nat (length ?body)) ?S = (Inr (), t)" "view t = a\<lparr>ac_loc := k\<rparr>" "fr_dio t = fwd (length ?prog) d4"
      "fr_inv t" "others t = others ?S"
    using exec_instructions_run [of ?S "ci_code c" "a\<lparr>ac_loc := k\<rparr>" r env 0] k a4 ok inv by (auto simp: be h ini v fin simp del: view_simps)
  have o: "outputs t = outputs s" "(fr_rules t)\<lparr>ru_location := 0\<rparr> = ?H\<lparr>ru_location := 0\<rparr>" using others_outputs [OF t(5)] by (simp_all add: outputs_def)
  then obtain l where l: "fr_rules t = ?H\<lparr>ru_location := l\<rparr>" using same_rules by blast
  let ?R = "copy_register_rules (fr_rules t) (fr_frame_regs t)"
  have sm: "regs_ok (mach t) (fr_frame_regs t)" using t(4) by (simp add: fr_inv_def)
  have R: "frame_view m ra ?R = ac_frame a" "regs_ok m ?R"
    using copy_view [OF sm] arg_cong [OF t(2), of ac_frame] by (simp_all add: l h)
  have hd: "bindP (read_cie_header env) f (s\<lparr>fr_rules := (fr_rules s)\<lparr>ru_cie_pos := pos\<rparr>, fr_dio := d3\<rparr>) = f () (s\<lparr>fr_dio := d4, fr_rules := ?H\<rparr>)" for f
    using read_cie_header_at [OF _ a3 assms(6), of "s\<lparr>fr_rules := (fr_rules s)\<lparr>ru_cie_pos := pos\<rparr>, fr_dio := d3\<rparr>" env] assms(7)
    by (simp add: bindP_Inr d4_def header_rules_def)
  have ex: "bindP (exec_instructions env 0 (dio_pos d2 + of_nat (length ?body))) f ?S = f () t" for f by (simp only: bindP_def t(1) prod.case sum.case)
  have l: "dio_len (fr_dio t) = dio_len d" "(fr_dio t)\<lparr>dio_pos := dio_pos d\<rparr> = d" by (simp_all add: t(3) d1_def d2_def d3_def d4_def fwd_def)
  have "read_frame_cie env pos s = (Inr (), t\<lparr>fr_cie_regs := ?R, fr_dio := d\<rparr>)"
    unfolding read_frame_cie_def
    by (simp add: pos_reads bind_rules p set_pos_reads [OF p(2)] read_length_at [OF a1 assms(10)] skip4_reads [OF a2] hd bindP_modP ex run_set_pos l assms(9)
        del: fwd_simps One_nat_def flip: d_def d1_def d2_def d3_def)
  with R o show ?thesis by (auto simp: outputs_def)
qed

section \<open>Frame descriptions\<close>

text \<open>
  An address in frame information, absolute (encoding 0) or relative to where it is (0x1b: four bytes, signed). A size is never relative.
\<close>

definition pointer_bytes :: "bool \<Rightarrow> nat \<Rightarrow> byte \<Rightarrow> u64 \<Rightarrow> byte list" where
  "pointer_bytes be asz e v = number_bytes be (if e = 0 then asz else 4) v"

definition pointer_from :: "byte \<Rightarrow> u64 \<Rightarrow> u64" where
  "pointer_from e here = (if e = 0 then 0 else here)"

definition pointer_ok :: "nat \<Rightarrow> byte \<Rightarrow> u64 \<Rightarrow> bool" where
  "pointer_ok asz e v \<longleftrightarrow> (if e = 0 then take_bit (8 * asz) v = v else e = 0x1b \<and> scast (ucast v :: u32) = v)"

definition no_reloc :: drl where
  "no_reloc pos x n = Inr (x, None)"

lemma ReadAddressX_at:
  assumes "ahead d = number_bytes (dio_big_endian d) k v @ r" "k \<in> {2, 4, 8}"
  shows "dio_ReadAddressX no_reloc k d = (Inr (take_bit (8 * k) v, None), fwd k d)"
  using ReadN_number [OF assms(1)] assms(2) by (auto simp: dio_ReadAddressX_def dio_GetPos_def bindP_def getP_def no_reloc_def liftE_def ret_def)

lemma pointer_at:
  assumes "ahead d = pointer_bytes (dio_big_endian d) asz e (v - (if w then pointer_from e (dio_pos d + es_addr (ru_section (fr_rules s))) else 0)) @ r"
    "fr_dio s = d" "pointer_ok asz e (v - (if w then pointer_from e (dio_pos d + es_addr (ru_section (fr_rules s))) else 0))" "asz = dio_addr_size d" "asz \<in> {4, 8}"
    "fe_drl env (ru_section (fr_rules s)) = no_reloc"
  shows "read_frame_data_pointer env e w 0 s = (Inr (v, None), s\<lparr>fr_dio := fwd (length (pointer_bytes (dio_big_endian d) asz e v)) d\<rparr>)"
proof (cases "e = 0")
  case True
  then have "ahead d = number_bytes (dio_big_endian d) asz v @ r" "take_bit (8 * asz) v = v" using assms(1,3) by (auto simp: pointer_bytes_def pointer_from_def pointer_ok_def split: if_splits)
  with ReadAddressX_at [of d asz v r] assms(4,5) have "dio_ReadAddress no_reloc d = (Inr (v, None), fwd asz d)" by (auto simp: dio_ReadAddress_def bindP_getP)
  with True assms(2,6) show ?thesis
    by (simp add: read_frame_data_pointer_def EH_PE_omit_def pointer_base_def pos_reads bind_rules bind_on_dio pointer_bytes_def ret_def)
next
  case False
  let ?b = "if w then dio_pos d + es_addr (ru_section (fr_rules s)) else 0"
  have e: "e = 0x1b" using assms(3) False by (simp add: pointer_ok_def)
  have n: "ahead d = number_bytes (dio_big_endian d) 4 (v - ?b) @ r" "scast (ucast (v - ?b) :: u32) = v - ?b"
    using assms(1,3) e by (auto simp: pointer_bytes_def pointer_from_def pointer_ok_def split: if_splits)
  have u: "ucast (take_bit 32 x :: u64) = (ucast x :: u32)" for x
    by (rule bit_word_eqI) (auto simp: bit_unsigned_iff bit_take_bit_iff)
  have "dio_ReadAddressX no_reloc 4 d = (Inr (take_bit 32 (v - ?b), None), fwd 4 d)" using ReadAddressX_at [OF n(1)] by simp
  with e assms(2,6) n(2) show ?thesis
    by (cases w) (simp_all add: read_frame_data_pointer_def EH_PE_omit_def pointer_base_def pos_reads bind_rules bind_on_dio pointer_bytes_def u ret_def)
qed

lemmas pointer_reads = pointer_at [THEN bindP_Inr]

record fde =
  fd_addr :: u64
  fd_size :: u64
  fd_code :: "cfi list"

text \<open>\<open>cref\<close> refers to the common information, \<open>here\<close> is the address of the pointer.\<close>

definition fde_header :: "bool \<Rightarrow> nat \<Rightarrow> u64 \<Rightarrow> u64 \<Rightarrow> cie \<Rightarrow> fde \<Rightarrow> byte list" where
  "fde_header be asz cref here c f = number_bytes be 4 cref @ pointer_bytes be asz (cie_enc c) (fd_addr f - pointer_from (cie_enc c) here) @
     pointer_bytes be asz (cie_enc c) (fd_size f) @ (if ci_enc c = None then [] else [0])"

definition fde_body :: "bool \<Rightarrow> nat \<Rightarrow> u64 \<Rightarrow> u64 \<Rightarrow> cie \<Rightarrow> fde \<Rightarrow> byte list" where
  "fde_body be asz cref here c f = fde_header be asz cref here c f @ cfi_program be (fd_code f)"

definition fde_bytes :: "bool \<Rightarrow> nat \<Rightarrow> u64 \<Rightarrow> u64 \<Rightarrow> cie \<Rightarrow> fde \<Rightarrow> byte list" where
  "fde_bytes be asz cref here c f = number_bytes be 4 (of_nat (length (fde_body be asz cref here c f))) @ fde_body be asz cref here c f"

text \<open>The section has the description \<open>f\<close> at \<open>fpos\<close> and its common information \<open>c\<close> at \<open>cpos\<close>.\<close>

definition cie_ref :: "StackFrameRules \<Rightarrow> u64 \<Rightarrow> u64 \<Rightarrow> u64" where
  "cie_ref ru cpos fpos = (if ru_eh_frame ru then fpos + 4 - cpos else cpos)"

definition ptr_addr :: "StackFrameRules \<Rightarrow> u64 \<Rightarrow> u64" where
  "ptr_addr ru fpos = fpos + 8 + es_addr (ru_section ru)"

definition in_section :: "StackFrameRules \<Rightarrow> byte list \<Rightarrow> u64 \<Rightarrow> cie \<Rightarrow> u64 \<Rightarrow> fde \<Rightarrow> u64 \<Rightarrow> bool" where
  "in_section ru data cpos c fpos f mark \<longleftrightarrow>
     (let be = ef_big_endian (ru_file ru); asz = addr_size (ru_file ru); body = fde_body be asz (cie_ref ru cpos fpos) (ptr_addr ru fpos) c f in
      es_data (ru_section ru) = Inr data \<and> unat (es_size (ru_section ru)) = length data \<and>
      prefix (cie_bytes be asz mark c) (drop (unat cpos) data) \<and> cie_ok c \<and> length (cie_body be asz mark c) < 2 ^ 32 - 1 \<and>
      prefix (fde_bytes be asz (cie_ref ru cpos fpos) (ptr_addr ru fpos) c f) (drop (unat fpos) data) \<and> list_all cfi_ok (fd_code f) \<and> length body < 2 ^ 32 - 1 \<and>
      unat (cie_ref ru cpos fpos) < 2 ^ 32 - 1 \<and> (ru_eh_frame ru \<longrightarrow> cie_ref ru cpos fpos \<noteq> 0) \<and>
      pointer_ok asz (cie_enc c) (fd_addr f - pointer_from (cie_enc c) (ptr_addr ru fpos)) \<and> pointer_ok asz (cie_enc c) (fd_size f))"

text \<open>The rules that the common information gives, and the table.\<close>

definition cie_frame :: "StackFrameRules \<Rightarrow> u64 \<Rightarrow> cie \<Rightarrow> aframe option" where
  "cie_frame ru cpos c =
     (let asz = addr_size (ru_file ru); ra = of_nat (ci_ra c) in
      map_option ac_frame (cfi_run (ef_big_endian (ru_file ru)) (of_nat (ci_ca c)) (of_int (ci_da c)) (implied_rule (ru_machine ru) ra)
        (cpos + of_nat (8 + length (cie_header asz c))) (ci_code c) (cie_start (ru_machine ru) ra 0)))"

definition fde_table :: "StackFrameRules \<Rightarrow> u64 \<Rightarrow> cie \<Rightarrow> u64 \<Rightarrow> fde \<Rightarrow> row list option" where
  "fde_table ru cpos c fpos f =
     (let be = ef_big_endian (ru_file ru); asz = addr_size (ru_file ru) in
      case cie_frame ru cpos c of
        None \<Rightarrow> None
      | Some fr \<Rightarrow>
          cfi_rows be (of_nat (ci_ca c)) (of_int (ci_da c)) (af_regs fr) (fd_addr f + fd_size f)
            (fpos + 4 + of_nat (length (fde_header be asz (cie_ref ru cpos fpos) (ptr_addr ru fpos) c f)))
            (fd_code f) \<lparr>ac_loc = fd_addr f, ac_frame = fr, ac_stack = []\<rparr>)"

definition section_at :: "StackFrameRules \<Rightarrow> byte list \<Rightarrow> u64 \<Rightarrow> dio" where
  "section_at ru data pos = \<lparr>dio_data = data, dio_pos = pos, dio_len = es_size (ru_section ru), dio_big_endian = ef_big_endian (ru_file ru), dio_addr_size = addr_size (ru_file ru)\<rparr>"

lemma ahead_section: "unat (es_size (ru_section ru)) = length data \<Longrightarrow> ahead (section_at ru data pos) = drop (unat pos) data"
  by (simp add: ahead_def section_at_def)

lemma enter_section:
  assumes "es_data (ru_section ru) = Inr data" "unat (es_size (ru_section ru)) = length data" "prefix bs (drop (unat pos) data)" "bs \<noteq> []" "ru = fr_rules s"
  shows "bindP (on_dio (dio_EnterSection (ru_file ru) (ru_section ru) pos)) k s = k () (s\<lparr>fr_dio := section_at ru data pos\<rparr>)"
proof -
  have "unat pos < length data" using assms(3,4) by (auto simp: prefix_def) (metis Nil_is_append_conv drop_all not_le_imp_less)
  then have "pos < es_size (ru_section ru)" "\<not> es_size (ru_section ru) < pos" using assms(2) by (simp_all add: word_less_nat_alt)
  with assms(1,5) show ?thesis by (simp add: bindP_def on_dio_def dio_EnterSection_def modP_def asserts_def ret_def section_at_def)
qed

lemma uleb_0: "uleb 0 = [0]"
  by (subst uleb.simps) simp

lemma skip_fde_aug_at:
  assumes "ru_cie_aug (fr_rules s) = cie_aug c" "fr_dio s = d" "ahead d = (if ci_enc c = None then [] else [0]) @ r" "dio_pos d \<le> dio_len d"
  shows "bindP skip_fde_aug f s = f () (s\<lparr>fr_dio := fwd (if ci_enc c = None then 0 else 1) d\<rparr>)"
proof (cases "ci_enc c")
  case None
  then show ?thesis using assms(1) assms(2) [symmetric] by (simp add: skip_fde_aug_def bind_rules cie_aug_def has_aug_data_def)
next
  case (Some e)
  then have a: "ahead d = uleb 0 @ r" using assms(3) uleb_0 by simp
  have "dio_pos d + 1 \<le> dio_len d" using inside [OF a] uleb_0 by simp
  then have "\<not> dio_pos (fwd 1 d) + 0 > dio_len (fwd 1 d)" by simp
  then have "on_dio (dio_Skip 0) (s\<lparr>fr_dio := fwd 1 d\<rparr>) = (Inr (), s\<lparr>fr_dio := fwd 1 d\<rparr>)" by (simp add: on_dio_def dio_Skip_def del: One_nat_def)
  with Some show ?thesis using assms(1,2)
    by (simp add: skip_fde_aug_def bind_rules cie_aug_def has_aug_data_def uleb_reads [OF a] uleb_0 bindP_Inr del: fwd_simps)
qed

lemma need_cie_at:
  assumes "in_section (fr_rules s) data cpos c fpos f mark" "fr_dio s = fwd k (section_at (fr_rules s) data fpos)" "dio_pos (fr_dio s) \<le> dio_len (fr_dio s)" "ru_cie_pos (fr_rules s) \<noteq> cpos"
    "cie_frame (fr_rules s) cpos c = Some fr"
  shows "\<exists>t. need_cie env cpos s = (Inr (), t) \<and> fr_dio t = fr_dio s \<and>
    (fr_rules t)\<lparr>ru_location := 0\<rparr> = (header_rules cpos (addr_size (ru_file (fr_rules s))) c (fr_rules s))\<lparr>ru_location := 0\<rparr> \<and>
    frame_view (ru_machine (fr_rules s)) (of_nat (ci_ra c)) (fr_cie_regs t) = fr \<and> regs_ok (ru_machine (fr_rules s)) (fr_cie_regs t) \<and> outputs t = outputs s"
proof -
  let ?ru = "fr_rules s" and ?be = "ef_big_endian (ru_file (fr_rules s))" and ?asz = "addr_size (ru_file (fr_rules s))"
  note sec = assms(1) [unfolded in_section_def Let_def]
  have be: "dio_big_endian (fr_dio s) = ?be" "dio_len (fr_dio s) = es_size (ru_section ?ru)" by (simp_all add: assms(2) section_at_def)
  have "(fr_dio s)\<lparr>dio_pos := cpos\<rparr> = section_at ?ru data cpos" by (simp add: assms(2) section_at_def fwd_def)
  then obtain r where r: "ahead ((fr_dio s)\<lparr>dio_pos := cpos\<rparr>) = cie_bytes ?be ?asz mark c @ r"
    using sec ahead_section [of ?ru data cpos] by (auto simp: prefix_def)
  from assms(5) obtain a where a: "cfi_run ?be (of_nat (ci_ca c)) (of_int (ci_da c)) (implied_rule (ru_machine ?ru) (of_nat (ci_ra c)))
      (cpos + of_nat (8 + length (cie_header ?asz c))) (ci_code c) (cie_start (ru_machine ?ru) (of_nat (ci_ra c)) 0) = Some a" "fr = ac_frame a"
    by (auto simp: cie_frame_def Let_def)
  have "\<exists>t. read_frame_cie env cpos s = (Inr (), t) \<and> fr_dio t = fr_dio s \<and> (fr_rules t)\<lparr>ru_location := 0\<rparr> = (header_rules cpos ?asz c ?ru)\<lparr>ru_location := 0\<rparr> \<and>
      frame_view (ru_machine ?ru) (of_nat (ci_ra c)) (fr_cie_regs t) = ac_frame a \<and> regs_ok (ru_machine ?ru) (fr_cie_regs t) \<and> outputs t = outputs s"
    using r sec assms(3) a(1) be by (intro read_frame_cie_at [where mark = mark and r = r]) (simp_all del: of_nat_add)
  with assms(4) a(2) show ?thesis by (simp add: need_cie_def bind_rules)
qed

lemma u4_facts: "n < 2 ^ 32 - 1 \<Longrightarrow> (of_nat n :: u32) \<noteq> - 1" "n < 2 ^ 32 \<Longrightarrow> ucast (of_nat n :: u32) = (of_nat n :: u64)" "0 < n \<Longrightarrow> n < 2 ^ 32 \<Longrightarrow> (0 :: u32) < of_nat n"
proof -
  have m: "unat (- 1 :: u32) = 2 ^ 32 - 1" by (simp add: unsigned_minus_1_eq_mask mask_eq_exp_minus_1)
  have u: "unat (of_nat n :: u32) = n" if "n < 2 ^ 32" using that by (simp add: unat_of_nat)
  show "(of_nat n :: u32) \<noteq> - 1" if "n < 2 ^ 32 - 1" using u m that by (metis less_imp_diff_less less_irrefl nat_less_le diff_less zero_less_one less_trans zero_less_numeral zero_less_power)
  show "ucast (of_nat n :: u32) = (of_nat n :: u64)" if "n < 2 ^ 32" using u [OF that] by (metis of_nat_unat ucast_id)
  show "(0 :: u32) < of_nat n" if "0 < n" "n < 2 ^ 32" using u [OF that(2)] that(1) by (simp add: word_less_nat_alt)
qed

lemma read_cie_ref_at:
  assumes "ahead d = number_bytes (dio_big_endian d) 4 v @ r" "unat v < 2 ^ 32" "fr_dio s = d"
  shows "bindP (read_cie_ref False) f s = f v (s\<lparr>fr_dio := fwd 4 d\<rparr>)"
  using assms u4_facts(2) [of "unat v"] by (simp add: read_cie_ref_def u4_reads [of d "unat v" r])

text \<open>The part of \<open>read_frame_fde\<close> after the common information is there.\<close>

definition fde_tail :: "frame_env \<Rightarrow> u64 \<Rightarrow> u64 \<Rightarrow> unit fm" where
  "fde_tail env ip fde_end = bindP (rules ru_addr_encoding) (\<lambda>e.
     bindP (read_frame_data_pointer env e True 0) (\<lambda>(addr, _).
     bindP (read_frame_data_pointer env e False 0) (\<lambda>(rng, _).
     bindP (asserts (addr \<le> ip \<and> addr + rng > ip)) (\<lambda>_.
     bindP skip_fde_aug (\<lambda>_.
     bindP (rules id) (\<lambda>ru1.
     bindP (modP (\<lambda>s. s\<lparr>fr_frame_regs := copy_register_rules ru1 (fr_cie_regs s), fr_rules := ru1\<lparr>ru_location := addr\<rparr>, fr_regs_stack_pos := 0\<rparr>)) (\<lambda>_.
     bindP (fde_row env ip addr rng fde_end) (\<lambda>loc0.
     bindP (use_row env ip addr rng loc0) (\<lambda>_.
     on_dio dio_ExitSection)))))))))"

lemma read_frame_fde_tail:
  "read_frame_fde env ip fde_pos =
     bindP (rules id) (\<lambda>ru.
     bindP (on_dio (dio_EnterSection (ru_file ru) (ru_section ru) fde_pos)) (\<lambda>_.
     bindP (on_dio dio_ReadU4) (\<lambda>n.
     bindP (asserts (n > 0)) (\<lambda>_.
     bindP (if n = - 1 then bindP (on_dio dio_ReadU8) (\<lambda>m. ret (m, True)) else ret (ucast n, False)) (\<lambda>(len, dwarf64).
     bindP (on_dio dio_GetPos) (\<lambda>ref_pos.
     bindP (read_cie_ref dwarf64) (\<lambda>cie_ref.
     bindP (asserts (is_fde (ru_eh_frame ru) dwarf64 cie_ref)) (\<lambda>_.
     bindP (need_cie env (if ru_eh_frame ru then ref_pos - cie_ref else cie_ref)) (\<lambda>_. fde_tail env ip (ref_pos + len))))))))))"
  unfolding read_frame_fde_def fde_tail_def ..

lemma fde_start_at:
  assumes "in_section (fr_rules s) data cpos c fpos f mark"
  defines "ru \<equiv> fr_rules s" and "be \<equiv> ef_big_endian (ru_file (fr_rules s))" and "asz \<equiv> addr_size (ru_file (fr_rules s))"
  shows "\<exists>r. ahead (fwd 8 (section_at ru data fpos)) = drop 4 (fde_header be asz (cie_ref ru cpos fpos) (ptr_addr ru fpos) c f) @ cfi_program be (fd_code f) @ r \<and>
    dio_pos (fwd 8 (section_at ru data fpos)) \<le> dio_len (fwd 8 (section_at ru data fpos)) \<and>
    read_frame_fde env ip fpos s = bindP (need_cie env cpos) (\<lambda>_. fde_tail env ip (fpos + 4 + of_nat (length (fde_body be asz (cie_ref ru cpos fpos) (ptr_addr ru fpos) c f))))
      (s\<lparr>fr_dio := fwd 8 (section_at ru data fpos)\<rparr>)"
proof -
  let ?cref = "cie_ref ru cpos fpos" and ?h = "ptr_addr ru fpos" and ?d = "section_at ru data fpos"
  let ?body = "fde_body be asz ?cref ?h c f" and ?hd = "fde_header be asz ?cref ?h c f"
  have dat: "es_data (ru_section ru) = Inr data" "unat (es_size (ru_section ru)) = length data" "prefix (fde_bytes be asz ?cref ?h c f) (drop (unat fpos) data)"
    "length ?body < 2 ^ 32 - 1" "unat ?cref < 2 ^ 32 - 1" "ru_eh_frame ru \<Longrightarrow> ?cref \<noteq> 0"
    using assms(1) by (auto simp: in_section_def Let_def ru_def be_def asz_def)
  from dat(2,3) obtain r where a0: "ahead ?d = number_bytes be 4 (of_nat (length ?body)) @ ?body @ r" by (auto simp: ahead_section prefix_def fde_bytes_def)
  have be: "dio_big_endian ?d = be" "dio_big_endian (fwd 4 ?d) = be" by (simp_all add: section_at_def be_def ru_def)
  have hd: "?hd = number_bytes be 4 ?cref @ drop 4 ?hd" by (simp add: fde_header_def)
  have a1: "ahead (fwd 4 ?d) = number_bytes be 4 ?cref @ drop 4 ?hd @ cfi_program be (fd_code f) @ r"
    using ahead_cut [OF a0, of 4] hd by (simp add: fde_body_def)
  have a2: "ahead (fwd 8 ?d) = drop 4 ?hd @ cfi_program be (fd_code f) @ r" using ahead_cut [OF a1, of 4] by simp
  have p: "dio_pos (fwd 8 ?d) \<le> dio_len (fwd 8 ?d)"
    using inside [of ?d "number_bytes be 4 (of_nat (length ?body)) @ number_bytes be 4 ?cref" "drop 4 ?hd @ cfi_program be (fd_code f) @ r"] a0 hd by (simp add: fde_body_def)
  have b0: "ahead ?d = number_bytes (dio_big_endian ?d) 4 (of_nat (length ?body)) @ ?body @ r" using a0 by (simp only: be)
  have b1: "ahead (fwd 4 ?d) = number_bytes (dio_big_endian (fwd 4 ?d)) 4 ?cref @ drop 4 ?hd @ cfi_program be (fd_code f) @ r" using a1 by (simp only: be)
  have n: "length ?body < 2 ^ 32" "0 < length ?body" using dat(4) hd by (simp_all add: fde_body_def fde_header_def)
  have fd: "is_fde (ru_eh_frame ru) False ?cref"
  proof -
    have "?cref \<noteq> 0xffffffff" using dat(5) by auto
    with dat(6) show ?thesis by (simp add: is_fde_def)
  qed
  have c32: "unat ?cref < 2 ^ 32" using dat(5) by simp
  have cp: "ru_eh_frame ru \<Longrightarrow> fpos + 4 - ?cref = cpos" "\<not> ru_eh_frame ru \<Longrightarrow> ?cref = cpos" by (simp_all add: cie_ref_def)
  have pos: "dio_pos ?d = fpos" by (simp add: section_at_def)
  have ne: "fde_bytes be asz ?cref ?h c f \<noteq> []" by (simp add: fde_bytes_def)
  have "read_frame_fde env ip fpos s = bindP (need_cie env cpos) (\<lambda>_. fde_tail env ip (fpos + 4 + of_nat (length ?body))) (s\<lparr>fr_dio := fwd 8 ?d\<rparr>)"
    unfolding read_frame_fde_tail
    by (simp only: bind_rules enter_section [OF dat(1-3) ne meta_eq_to_obj_eq [OF ru_def]] id_apply flip: ru_def)
      (simp add: u4_reads [OF b0 n(1)] u4_facts(1) [OF dat(4)] u4_facts(2) [OF n(1)] u4_facts(3) [OF n(2,1)] asserts_def pos_reads pos read_cie_ref_at [OF b1 c32] fd, simp add: cp)
  with a2 p show ?thesis by blast
qed

lemma fde_tail_at:
  fixes t :: fr and c :: cie and f :: fde and cref :: u64
  defines "R \<equiv> fr_rules t" and "d \<equiv> fr_dio t" and "be \<equiv> dio_big_endian (fr_dio t)" and "asz \<equiv> dio_addr_size (fr_dio t)"
  defines "here \<equiv> dio_pos (fr_dio t) + es_addr (ru_section (fr_rules t))" and "H \<equiv> fde_header be asz cref (dio_pos (fr_dio t) + es_addr (ru_section (fr_rules t))) c f"
  assumes a: "ahead d = drop 4 H @ cfi_program be (fd_code f) @ r" and p: "dio_pos d \<le> dio_len d" "asz \<in> {4, 8}"
    and ptr: "pointer_ok asz (cie_enc c) (fd_addr f - pointer_from (cie_enc c) here)" "pointer_ok asz (cie_enc c) (fd_size f)" "fe_drl env (ru_section R) = no_reloc"
    and R: "ru_addr_encoding R = cie_enc c" "ru_cie_aug R = cie_aug c" and sm: "regs_ok (ru_machine R) (fr_cie_regs t)"
    and ip: "fd_addr f \<le> ip" "ip < fd_addr f + fd_size f" "list_all cfi_ok (fd_code f)"
    and rows: "cfi_rows be (ru_code_alignment R) (ru_data_alignment R) (initial_rules t) (fd_addr f + fd_size f) (dio_pos d + of_nat (length H) - 4) (fd_code f)
      \<lparr>ac_loc = fd_addr f, ac_frame = frame_view (mach t) (retreg t) (fr_cie_regs t), ac_stack = []\<rparr> = Some rs"
  shows "\<exists>u l h fr. filter (covers ip) rs = [(l, h, fr)] \<and>
    fde_tail env ip (dio_pos d - 4 + of_nat (length H + length (cfi_program be (fd_code f)))) t =
      bindP (use_row env ip (fd_addr f) (fd_size f) l) (\<lambda>_. on_dio dio_ExitSection) u \<and>
    ac_loc (view u) = h \<and> ac_frame (view u) = fr \<and> fr_inv u \<and> outputs u = outputs t \<and> fr_rules u = R\<lparr>ru_location := h\<rparr>"
proof -
  let ?e = "cie_enc c" and ?p = "cfi_program be (fd_code f)" and ?z = "if ci_enc c = None then [] else [0 :: byte]"
  let ?P1 = "pointer_bytes be asz ?e (fd_addr f - pointer_from ?e here)" and ?P2 = "pointer_bytes be asz ?e (fd_size f)"
  define d1 where "d1 = fwd (length (pointer_bytes be asz ?e (fd_addr f))) d"
  define d2 where "d2 = fwd (length ?P2) d1"
  define d3 where "d3 = fwd (if ci_enc c = None then 0 else 1) d2"
  have be: "dio_big_endian d = be" "dio_big_endian d1 = be" "dio_big_endian d3 = be" by (simp_all add: d_def be_def d1_def d2_def d3_def)
  have a0: "ahead d = ?P1 @ ?P2 @ ?z @ ?p @ r" using a by (simp add: H_def fde_header_def here_def)
  have a1: "ahead d1 = ?P2 @ ?z @ ?p @ r" unfolding d1_def by (rule ahead_cut [OF a0]) (simp add: pointer_bytes_def)
  have a2: "ahead d2 = ?z @ ?p @ r" unfolding d2_def by (rule ahead_cut [OF a1]) simp
  have a3: "ahead d3 = ?p @ r" unfolding d3_def by (rule ahead_cut [OF a2]) simp
  have "dio_pos d + of_nat (length (?P1 @ ?P2)) \<le> dio_len d"
    using inside [of d "?P1 @ ?P2" "?z @ ?p @ r"] a0 p(2) by (auto simp: pointer_bytes_def)
  then have p2: "dio_pos d2 \<le> dio_len d2" by (simp add: d2_def d1_def pointer_bytes_def ac_simps)
  let ?T = "t\<lparr>fr_dio := d3, fr_frame_regs := copy_register_rules R (fr_cie_regs t), fr_rules := R\<lparr>ru_location := fd_addr f\<rparr>, fr_regs_stack_pos := 0\<rparr>"
  have v: "view ?T = \<lparr>ac_loc = fd_addr f, ac_frame = frame_view (mach t) (retreg t) (fr_cie_regs t), ac_stack = []\<rparr>"
    using copy_view(1) [OF sm] by (simp add: view_def R_def)
  have inv: "fr_inv ?T" using copy_view(2) [OF sm] sm by (simp add: fr_inv_def)
  have ini: "initial_rules ?T = initial_rules t" by (simp add: initial_rules_def R_def)
  have pos: "dio_pos d3 = dio_pos d + of_nat (length H) - 4"
    by (simp add: d3_def d2_def d1_def H_def fde_header_def pointer_bytes_def)
  have fin: "dio_pos d - 4 + of_nat (length H + length ?p) = dio_pos d3 + of_nat (length ?p)" by (simp add: pos)
  from fde_loop_row [of ?T "fd_addr f" "fd_size f" "fd_code f" rs r ip env] rows a3 ip inv
  obtain u l h fr where u: "filter (covers ip) rs = [(l, h, fr)]"
      "fde_loop env ip (fd_addr f) (fd_size f) (dio_pos d3 + of_nat (length ?p)) (fd_addr f) ?T = Some (Inr l, u)"
      "ac_loc (view u) = h" "ac_frame (view u) = fr" "fr_inv u" "others u = others ?T"
    by (auto simp: be v ini pos R_def [symmetric] simp del: view_simps)
  have row: "fde_row env ip (fd_addr f) (fd_size f) (dio_pos d3 + of_nat (length ?p)) ?T = (Inr l, u)" by (simp add: fde_row_def u(2))
  have o: "outputs u = outputs t" "(fr_rules u)\<lparr>ru_location := 0\<rparr> = R\<lparr>ru_location := 0\<rparr>" using others_outputs [OF u(6)] by (simp_all add: outputs_def)
  then have rules: "fr_rules u = R\<lparr>ru_location := h\<rparr>" using same_rules [OF o(2)] u(3) by auto
  have dd: "fr_dio t = d" "dio_addr_size d = asz" "dio_addr_size d1 = asz" "dio_pos d + es_addr (ru_section (fr_rules t)) = here" "fe_drl env (ru_section (fr_rules t)) = no_reloc"
    using ptr(3) by (simp_all add: d_def asz_def here_def R_def d1_def)
  have "read_frame_data_pointer env ?e True 0 t = (Inr (fd_addr f, None), t\<lparr>fr_dio := fwd (length (pointer_bytes (dio_big_endian d) asz ?e (fd_addr f))) d\<rparr>)"
    by (rule pointer_at [where r = "?P2 @ ?z @ ?p @ r"]) (simp_all only: be dd a0 ptr p(2) if_True)
  then have q1: "bindP (read_frame_data_pointer env ?e True 0) k t = k (fd_addr f, None) (t\<lparr>fr_dio := d1\<rparr>)" for k
    by (simp only: bindP_def be d1_def prod.case sum.case)
  have "read_frame_data_pointer env ?e False 0 (t\<lparr>fr_dio := d1\<rparr>) =
      (Inr (fd_size f, None), t\<lparr>fr_dio := d1, fr_dio := fwd (length (pointer_bytes (dio_big_endian d1) asz ?e (fd_size f))) d1\<rparr>)"
    by (rule pointer_at [where r = "?z @ ?p @ r"]) (simp_all only: be dd a1 ptr p(2) if_False diff_zero, simp_all add: dd)
  then have q2: "bindP (read_frame_data_pointer env ?e False 0) k (t\<lparr>fr_dio := d1\<rparr>) = k (fd_size f, None) (t\<lparr>fr_dio := d2\<rparr>)" for k
    by (simp add: bindP_def be d2_def)
  have q3: "bindP skip_fde_aug k (t\<lparr>fr_dio := d2\<rparr>) = k () (t\<lparr>fr_dio := d3\<rparr>)" for k
    using skip_fde_aug_at [of "t\<lparr>fr_dio := d2\<rparr>" c d2 "?p @ r" k] a2 p2 R(2) by (simp add: R_def d3_def)
  have q4: "bindP (fde_row env ip (fd_addr f) (fd_size f) (dio_pos d3 + of_nat (length ?p))) k ?T = k l u" for k by (simp only: bindP_def row prod.case sum.case)
  have "fde_tail env ip (dio_pos d - 4 + of_nat (length H + length ?p)) t = bindP (use_row env ip (fd_addr f) (fd_size f) l) (\<lambda>_. on_dio dio_ExitSection) u"
    unfolding fde_tail_def fin
    by (simp only: bind_rules R(1) [unfolded R_def] q1 q2 prod.case) (simp add: ip(1,2) asserts_def q3 bind_rules bindP_modP q4 [unfolded R_def])
  with u o rules show ?thesis by blast
qed

lemma header_fields [simp]:
  "ru_machine (header_rules pos asz c ru) = ru_machine ru" "ru_return_address_register (header_rules pos asz c ru) = of_nat (ci_ra c)" "ru_code_alignment (header_rules pos asz c ru) = of_nat (ci_ca c)"
  "ru_data_alignment (header_rules pos asz c ru) = of_int (ci_da c)" "ru_section (header_rules pos asz c ru) = ru_section ru" "ru_file (header_rules pos asz c ru) = ru_file ru"
  "ru_addr_encoding (header_rules pos asz c ru) = cie_enc c" "ru_cie_aug (header_rules pos asz c ru) = cie_aug c" "ru_eh_frame (header_rules pos asz c ru) = ru_eh_frame ru"
  by (simp_all add: header_rules_def)

lemma read_frame_fde_row:
  assumes "in_section (fr_rules s) data cpos c fpos f mark" "ru_cie_pos (fr_rules s) \<noteq> cpos" "fe_drl env (ru_section (fr_rules s)) = no_reloc"
    "fde_table (fr_rules s) cpos c fpos f = Some rs" "fd_addr f \<le> ip" "ip < fd_addr f + fd_size f"
  shows "\<exists>u l h fr. filter (covers ip) rs = [(l, h, fr)] \<and>
    read_frame_fde env ip fpos s = bindP (use_row env ip (fd_addr f) (fd_size f) l) (\<lambda>_. on_dio dio_ExitSection) u \<and>
    ac_loc (view u) = h \<and> ac_frame (view u) = fr \<and> fr_inv u \<and> outputs u = outputs s \<and>
    fr_rules u = (header_rules cpos (addr_size (ru_file (fr_rules s))) c (fr_rules s))\<lparr>ru_location := h\<rparr>"
proof -
  let ?ru = "fr_rules s" and ?be = "ef_big_endian (ru_file (fr_rules s))" and ?asz = "addr_size (ru_file (fr_rules s))" and ?cref = "cie_ref (fr_rules s) cpos fpos"
  let ?d = "fwd 8 (section_at ?ru data fpos)" and ?H = "fde_header ?be ?asz ?cref (ptr_addr ?ru fpos) c f" and ?p = "cfi_program ?be (fd_code f)"
  let ?hr = "header_rules cpos ?asz c ?ru"
  from fde_start_at [OF assms(1), of env ip] obtain r where r: "ahead ?d = drop 4 ?H @ ?p @ r" "dio_pos ?d \<le> dio_len ?d"
      "read_frame_fde env ip fpos s = bindP (need_cie env cpos) (\<lambda>_. fde_tail env ip (fpos + 4 + of_nat (length (?H @ ?p)))) (s\<lparr>fr_dio := ?d\<rparr>)"
    unfolding fde_body_def by blast
  from assms(4) obtain fr where fr: "cie_frame ?ru cpos c = Some fr" "cfi_rows ?be (of_nat (ci_ca c)) (of_int (ci_da c)) (af_regs fr) (fd_addr f + fd_size f)
      (fpos + 4 + of_nat (length ?H)) (fd_code f) \<lparr>ac_loc = fd_addr f, ac_frame = fr, ac_stack = []\<rparr> = Some rs"
    by (auto simp: fde_table_def Let_def split: option.splits)
  from need_cie_at [of "s\<lparr>fr_dio := ?d\<rparr>" data cpos c fpos f mark 8 fr env] assms(1,2) r(2) fr(1) obtain t where
    t: "need_cie env cpos (s\<lparr>fr_dio := ?d\<rparr>) = (Inr (), t)" "fr_dio t = ?d" "(fr_rules t)\<lparr>ru_location := 0\<rparr> = ?hr\<lparr>ru_location := 0\<rparr>"
      "frame_view (ru_machine ?ru) (of_nat (ci_ra c)) (fr_cie_regs t) = fr" "regs_ok (ru_machine ?ru) (fr_cie_regs t)" "outputs t = outputs s"
    by (auto simp: outputs_def)
  from same_rules [OF t(3)] obtain l0 where l0: "fr_rules t = ?hr\<lparr>ru_location := l0\<rparr>" by blast
  have ini: "initial_rules t = af_regs fr" using t(4) by (auto simp: initial_rules_def l0)
  have d: "dio_big_endian ?d = ?be" "dio_addr_size ?d = ?asz" "dio_pos ?d = fpos + 8" "dio_pos ?d + es_addr (ru_section ?ru) = ptr_addr ?ru fpos"
    by (simp_all add: section_at_def ptr_addr_def)
  note sec = assms(1) [unfolded in_section_def Let_def]
  have "\<exists>u l h fr. filter (covers ip) rs = [(l, h, fr)] \<and>
      fde_tail env ip (dio_pos ?d - 4 + of_nat (length ?H + length ?p)) t = bindP (use_row env ip (fd_addr f) (fd_size f) l) (\<lambda>_. on_dio dio_ExitSection) u \<and>
      ac_loc (view u) = h \<and> ac_frame (view u) = fr \<and> fr_inv u \<and> outputs u = outputs t \<and> fr_rules u = (fr_rules t)\<lparr>ru_location := h\<rparr>"
    using fde_tail_at [of t ?cref c f r env ip rs] r(1,2) sec assms(3,5,6) fr(2) t(2,4,5) d ini by (simp add: l0 ac_simps del: view_simps fwd_simps)
  moreover have e: "fpos + 4 + of_nat (length (?H @ ?p)) = dio_pos ?d - 4 + of_nat (length ?H + length ?p)" unfolding d(3) length_append by simp
  have "read_frame_fde env ip fpos s = fde_tail env ip (dio_pos ?d - 4 + of_nat (length ?H + length ?p)) t"
    unfolding r(3) e bindP_def t(1) by simp
  ultimately show ?thesis by (simp add: t(6) l0 del: view_simps)
qed

end
