(* ===== verification/FrameValues.thy ===== *)
theory FrameValues
  imports FrameTable "HOL-Library.Multiset"
begin

text \<open>
  From a row of the table to the values of the caller's registers: the commands that \<open>generate_commands\<close> makes of the rules, what they compute on a target, and the
  search for the description of a function. The last section has the flaws that the model shows.
\<close>

unbundle bit_operations_syntax

section \<open>Commands of a row\<close>

lemma add_commands_at [pm_simps]: "add_commands cmds s = (Inr (), s\<lparr>fr_trace_cmds := fr_trace_cmds s @ cmds\<rparr>)"
  unfolding add_commands_def by (induction cmds arbitrary: s) (simp_all add: add_command_def bindP_modP ret_def)

lemma bind_add_commands [pm_simps]: "bindP (add_commands cmds) k s = k () (s\<lparr>fr_trace_cmds := fr_trace_cmds s @ cmds\<rparr>)"
  by (simp add: bindP_def add_commands_at)

lemma bind_add_command [pm_simps]: "bindP (add_command cmd) k s = k () (s\<lparr>fr_trace_cmds := fr_trace_cmds s @ [cmd]\<rparr>)"
  by (simp add: add_command_def bindP_modP)

lemma bind_scope [pm_simps]:
  "bindP big_endian_file k s = k (ef_big_endian (ru_file (fr_rules s))) s" "bindP (reg_by_id env n) k2 s = k2 (fe_reg_by_id env (ru_eh_frame (fr_rules s)) n) s"
  by (simp_all add: big_endian_file_def reg_by_id_def bind_rules)

definition reg_def :: "frame_env \<Rightarrow> bool \<Rightarrow> u32 \<Rightarrow> RegisterDefinition option" where
  "reg_def env eh n = (case fe_reg_by_id env eh n of Inl _ \<Rightarrow> None | Inr def \<Rightarrow> Some def)"

lemma bind_def_by_id [pm_simps]: "bindP (def_by_id env n) k s = k (reg_def env (ru_eh_frame (fr_rules s)) n) s"
  by (simp add: def_by_id_def bind_scope reg_def_def)

text \<open>Rules without expressions, and their commands.\<close>

definition plain :: "frame_rule \<Rightarrow> bool" where
  "plain r \<longleftrightarrow> r \<noteq> RULE_EXPRESSION \<and> r \<noteq> RULE_VAL_EXPRESSION"

definition from_cfa :: "u32 \<Rightarrow> sft_cmd list" where
  "from_cfa offs = SFT_CMD_FP # (if offs \<noteq> 0 then [SFT_CMD_NUMBER (scast offs), SFT_CMD_ADD] else [])"

definition rule_cmds :: "frame_env \<Rightarrow> StackFrameRules \<Rightarrow> RegisterRules \<Rightarrow> RegisterDefinition \<Rightarrow> RegisterDefinition option \<Rightarrow> sft_cmd list option" where
  "rule_cmds env ru reg dst src =
     (case rr_rule reg of
        RULE_OFFSET \<Rightarrow> Some (from_cfa (rr_offset reg) @ [SFT_CMD_RD_MEM (of_nat (rd_size dst)) (ef_big_endian (ru_file ru))])
      | RULE_VAL_OFFSET \<Rightarrow> Some (from_cfa (rr_offset reg))
      | RULE_SAME_VALUE \<Rightarrow> map_option (\<lambda>def. [SFT_CMD_RD_REG def]) src
      | RULE_REGISTER \<Rightarrow> Some (case reg_def env (ru_eh_frame ru) (rr_offset reg) of None \<Rightarrow> [] | Some def \<Rightarrow> [SFT_CMD_RD_REG def])
      | _ \<Rightarrow> None)"

definition reg_entry :: "frame_env \<Rightarrow> StackFrameRules \<Rightarrow> RegisterRules \<Rightarrow> RegisterDefinition option \<Rightarrow> RegisterDefinition option \<Rightarrow> (RegisterDefinition \<times> sft_cmd list) list" where
  "reg_entry env ru reg dst_def src =
     (if rr_rule reg = RULE_NONE then []
      else case dst_def of
        None \<Rightarrow> []
      | Some dst \<Rightarrow>
          (case rule_cmds env ru reg dst src of
             None \<Rightarrow> []
           | Some cmds \<Rightarrow> if cmds @ machine_commands dst ru = [] then [] else [(dst, cmds @ machine_commands dst ru)]))"

lemma rule_commands_at:
  assumes "plain (rr_rule reg)" "rr_rule reg \<noteq> RULE_NONE"
  shows "rule_commands env reg dst src s =
    (case rule_cmds env (fr_rules s) reg dst src of
       None \<Rightarrow> (Inr False, s)
     | Some cmds \<Rightarrow> (Inr True, s\<lparr>fr_trace_cmds := fr_trace_cmds s @ cmds\<rparr>))"
proof -
  have "s\<lparr>fr_trace_cmds := fr_trace_cmds s\<rparr> = s" by simp
  then show ?thesis
    using assms by (cases "rr_rule reg")
      (auto simp: rule_commands_def pm_simps rule_cmds_def plain_def from_cfa_def reg_def_def Let_def split: option.splits sum.splits)
qed

lemma generate_register_commands_at:
  assumes "plain (rr_rule reg)" "rr_rule reg \<noteq> RULE_NONE"
  shows "\<exists>X. generate_register_commands env reg dst_def src s = (Inr (), s\<lparr>fr_trace_cmds := X, fr_trace_regs := fr_trace_regs s @ reg_entry env (fr_rules s) reg dst_def src\<rparr>)"
proof (cases dst_def)
  case None
  then show ?thesis by (intro exI [of _ "fr_trace_cmds s"]) (simp add: generate_register_commands_def reg_entry_def ret_def)
next
  case (Some dst)
  show ?thesis
  proof (cases "rule_cmds env (fr_rules s) reg dst src")
    case None
    with Some assms show ?thesis
      by (intro exI [of _ "[]"]) (simp add: generate_register_commands_def reg_entry_def bindP_modP bindP_def [of "rule_commands _ _ _ _"] rule_commands_at ret_def)
  next
    case c: (Some cmds)
    with Some assms show ?thesis
      by (intro exI [of _ "cmds @ machine_commands dst (fr_rules s)"])
        (simp add: generate_register_commands_def reg_entry_def bindP_modP bindP_def [of "rule_commands _ _ _ _"] rule_commands_at bind_rules bind_add_commands modP_def)
  qed
qed

text \<open>The commands of all registers: first the program counter, from the return address register, then the registers \<open>0\<close> to \<open>n - 1\<close>.\<close>

definition row_regs :: "frame_env \<Rightarrow> StackFrameRules \<Rightarrow> (nat \<Rightarrow> RegisterRules) \<Rightarrow> nat \<Rightarrow> (RegisterDefinition \<times> sft_cmd list) list" where
  "row_regs env ru rls n =
     (let ra = ru_return_address_register ru; eh = ru_eh_frame ru in
      reg_entry env ru (rls (unat ra)) (fe_pc env) (reg_def env eh ra) @
      concat (map (\<lambda>i. reg_entry env ru (rls i) (reg_def env eh (of_nat i)) (reg_def env eh (of_nat i))) [0..<n]))"

definition cfa_cmds :: "StackFrameRules \<Rightarrow> RegisterDefinition \<Rightarrow> u32 \<Rightarrow> sft_cmd list" where
  "cfa_cmds ru def offs =
     (if ru_machine ru = EM_TRICORE \<and> rd_dwarf_id def = 41 then SFT_CMD_RD_REG_PCXI_TRICORE def else SFT_CMD_RD_REG def) #
     (if offs \<noteq> 0 then [SFT_CMD_NUMBER (scast offs), SFT_CMD_ADD] else [])"

lemma reg_commands_step:
  assumes "plain (rr_rule reg)"
  shows "\<exists>X. (if rr_rule reg = RULE_NONE then ret () else bindP (def_by_id env n) (\<lambda>def. generate_register_commands env reg (g def) def)) s =
    (Inr (), s\<lparr>fr_trace_cmds := X, fr_trace_regs := fr_trace_regs s @
      reg_entry env (fr_rules s) reg (g (reg_def env (ru_eh_frame (fr_rules s)) n)) (reg_def env (ru_eh_frame (fr_rules s)) n)\<rparr>)"
proof (cases "rr_rule reg = RULE_NONE")
  case True
  then show ?thesis by (intro exI [of _ "fr_trace_cmds s"]) (simp add: reg_entry_def ret_def)
next
  case False
  with generate_register_commands_at [OF assms False, of env] show ?thesis by (simp add: bind_def_by_id)
qed

lemma reg_commands_loop:
  assumes "\<And>i. i \<in> set is \<Longrightarrow> plain (rr_rule (rs ! i))"
  shows "\<exists>X. for_each (\<lambda>n. if rr_rule (rs ! n) = RULE_NONE then ret () else bindP (def_by_id env (of_nat n)) (\<lambda>def. generate_register_commands env (rs ! n) def def)) is s =
    (Inr (), s\<lparr>fr_trace_cmds := X, fr_trace_regs := fr_trace_regs s @
      concat (map (\<lambda>i. reg_entry env (fr_rules s) (rs ! i) (reg_def env (ru_eh_frame (fr_rules s)) (of_nat i)) (reg_def env (ru_eh_frame (fr_rules s)) (of_nat i))) is)\<rparr>)"
  using assms
proof (induction "is" arbitrary: s)
  case Nil
  then show ?case by (intro exI [of _ "fr_trace_cmds s"]) (simp add: ret_def)
next
  case (Cons i "is")
  let ?body = "\<lambda>n. if rr_rule (rs ! n) = RULE_NONE then ret () else bindP (def_by_id env (of_nat n)) (\<lambda>def. generate_register_commands env (rs ! n) def def)"
  let ?def = "\<lambda>i. reg_def env (ru_eh_frame (fr_rules s)) (of_nat i)"
  from reg_commands_step [of "rs ! i" env "of_nat i" "\<lambda>x. x" s] Cons.prems obtain X where
    X: "?body i s = (Inr (), s\<lparr>fr_trace_cmds := X, fr_trace_regs := fr_trace_regs s @ reg_entry env (fr_rules s) (rs ! i) (?def i) (?def i)\<rparr>)" by auto
  let ?s1 = "s\<lparr>fr_trace_cmds := X, fr_trace_regs := fr_trace_regs s @ reg_entry env (fr_rules s) (rs ! i) (?def i) (?def i)\<rparr>"
  from Cons.IH [of ?s1] Cons.prems obtain Y where
    "for_each ?body is ?s1 = (Inr (), ?s1\<lparr>fr_trace_cmds := Y, fr_trace_regs := fr_trace_regs ?s1 @ concat (map (\<lambda>i. reg_entry env (fr_rules s) (rs ! i) (?def i) (?def i)) is)\<rparr>)" by auto
  moreover have "for_each ?body (i # is) s = for_each ?body is ?s1" by (simp only: for_each.simps bindP_def X prod.case sum.case)
  ultimately show ?case by auto
qed

lemma generate_commands_at:
  assumes "ra = ru_return_address_register (fr_rules s)" "unat ra < 2 ^ 31" "fr_inv s"
    and "frame_view (mach s) (retreg s) (fr_frame_regs s) = fr" "\<And>i. plain (rr_rule (af_regs fr i))"
    and "af_rule fr = RULE_OFFSET" "reg_def env (ru_eh_frame (fr_rules s)) (af_register fr) = Some def"
  shows "\<exists>R X. generate_commands env s = (Inr (), s\<lparr>fr_frame_regs := R, fr_trace_cmds := X,
      fr_trace_regs := fr_trace_regs s @ row_regs env (fr_rules s) (af_regs fr) (length (sf_regs (get_reg ra (fr_rules s) (fr_frame_regs s)))),
      fr_trace_fp := cfa_cmds (fr_rules s) def (af_offset fr)\<rparr>)"
proof -
  let ?ru = "fr_rules s" and ?R = "get_reg ra (fr_rules s) (fr_frame_regs s)" and ?s1 = "s\<lparr>fr_frame_regs := get_reg ra (fr_rules s) (fr_frame_regs s)\<rparr>"
  have n: "of_nat (unat ra) = ra" by simp
  have len: "unat ra < length (sf_regs ?R)" using get_reg_length [OF assms(2), of ?ru "fr_frame_regs s"] by simp
  have v: "frame_view (mach s) (retreg s) ?R = fr" using assms(4) by simp
  have rl: "sf_regs ?R ! i = af_regs fr i" if "i < length (sf_regs ?R)" for i
  proof -
    have "rule_of (mach s) (retreg s) ?R i = af_regs fr i" by (simp only: v [symmetric] frame_view_simps)
    with that show ?thesis by (simp only: rule_of_def if_True)
  qed
  have fld: "cfa_rule ?R = RULE_OFFSET" "cfa_register ?R = af_register fr" "cfa_offset ?R = af_offset fr" using assms(4,6) by (auto simp: get_reg_view)
  from reg_commands_step [of "sf_regs ?R ! unat ra" env ra "\<lambda>_. fe_pc env" ?s1] obtain X where
    X: "(if rr_rule (sf_regs ?R ! unat ra) = RULE_NONE then ret () else bindP (def_by_id env ra) (\<lambda>def. generate_register_commands env (sf_regs ?R ! unat ra) (fe_pc env) def)) ?s1 =
      (Inr (), ?s1\<lparr>fr_trace_cmds := X, fr_trace_regs := fr_trace_regs s @ reg_entry env ?ru (af_regs fr (unat ra)) (fe_pc env) (reg_def env (ru_eh_frame ?ru) ra)\<rparr>)"
    using assms(5) rl [OF len] by auto
  let ?s2 = "?s1\<lparr>fr_trace_cmds := X, fr_trace_regs := fr_trace_regs s @ reg_entry env ?ru (af_regs fr (unat ra)) (fe_pc env) (reg_def env (ru_eh_frame ?ru) ra)\<rparr>"
  let ?body = "\<lambda>n. if rr_rule (sf_regs ?R ! n) = RULE_NONE then ret ()
    else bindP (def_by_id env (of_nat n)) (\<lambda>def. generate_register_commands env (sf_regs ?R ! n) def def)"
  have "concat (map (\<lambda>i. reg_entry env ?ru (sf_regs ?R ! i) (reg_def env (ru_eh_frame ?ru) (of_nat i)) (reg_def env (ru_eh_frame ?ru) (of_nat i))) [0..<length (sf_regs ?R)]) =
      concat (map (\<lambda>i. reg_entry env ?ru (af_regs fr i) (reg_def env (ru_eh_frame ?ru) (of_nat i)) (reg_def env (ru_eh_frame ?ru) (of_nat i))) [0..<length (sf_regs ?R)])"
    by (intro arg_cong [where f = concat] map_cong refl) (simp add: rl)
  with reg_commands_loop [of "[0..<length (sf_regs ?R)]" "sf_regs ?R" env ?s2] obtain Y where
    Y: "for_each ?body [0..<length (sf_regs ?R)] ?s2 = (Inr (), ?s1\<lparr>fr_trace_cmds := Y, fr_trace_regs := fr_trace_regs s @ row_regs env ?ru (af_regs fr) (length (sf_regs ?R))\<rparr>)"
    using assms(1,5) rl by (auto simp: row_regs_def Let_def)
  have b1: "bindP (frame_reg ra) k s = k (unat ra) ?s1" for k :: "nat \<Rightarrow> unit fm" using bind_frame_reg [OF assms(2), of k s] n by simp
  have g: "sf_regs (fr_frame_regs ?s1) = sf_regs ?R" by simp
  have b2: "bindP (if rr_rule (sf_regs ?R ! unat ra) = RULE_NONE then ret ()
      else bindP (def_by_id env ra) (\<lambda>def. generate_register_commands env (sf_regs ?R ! unat ra) (fe_pc env) def)) k ?s1 = k () ?s2" for k :: "unit \<Rightarrow> unit fm"
    by (simp only: bindP_def X prod.case sum.case)
  have b3: "bindP (for_each ?body [0..<length (sf_regs ?R)]) k ?s2 =
      k () (?s1\<lparr>fr_trace_cmds := Y, fr_trace_regs := fr_trace_regs s @ row_regs env ?ru (af_regs fr) (length (sf_regs ?R))\<rparr>)" for k :: "unit \<Rightarrow> unit fm"
    by (simp only: bindP_def Y prod.case sum.case)
  have "generate_commands env s = (Inr (), s\<lparr>fr_frame_regs := ?R, fr_trace_cmds := cfa_cmds ?ru def (af_offset fr),
      fr_trace_regs := fr_trace_regs s @ row_regs env ?ru (af_regs fr) (length (sf_regs ?R)), fr_trace_fp := cfa_cmds ?ru def (af_offset fr)\<rparr>)"
    unfolding generate_commands_def
    by (simp only: bind_rules b1 bindP_getP g b2 b3 flip: assms(1)) (simp add: bindP_modP bindP_getP cfa_commands_def fld bind_def_by_id bind_rules assms(7) bind_add_commands modP_def cfa_cmds_def)
  then show ?thesis by blast
qed

text \<open>Registers without a rule of their own, beyond the array, have no implied rule either; the return address register is in the array.\<close>

lemma implied_beyond: "min_reg_cnt m \<le> n \<Longrightarrow> int n \<noteq> sint ra \<Longrightarrow> rr_rule (implied_rule m ra n) = RULE_NONE"
proof -
  assume n: "min_reg_cnt m \<le> n" "int n \<noteq> sint ra"
  have l: "in_link ra k n = no_rule" for k using n(2) by (simp add: in_link_def)
  consider "m = EM_386" | "m = EM_X86_64" | "m = EM_PPC" | "m = EM_PPC64" | "m = EM_ARM" | "m = EM_TRICORE" | "m = EM_V800" | "m = EM_V850" | "m = EM_MICROBLAZE"
    | "m = EM_AARCH64" | "m = EM_RISCV" | "m \<notin> {EM_386, EM_X86_64, EM_PPC, EM_PPC64, EM_ARM, EM_TRICORE, EM_V800, EM_V850, EM_MICROBLAZE, EM_AARCH64, EM_RISCV}" by blast
  then show ?thesis using n(1) by cases (auto simp: implied_rule_def min_reg_cnt_def l no_rule_def)
qed

lemma all_registers:
  assumes "fr_inv s" "unat (retreg s) < 2 ^ 31" "rr_rule (rule_of (mach s) (retreg s) (fr_frame_regs s) n) \<noteq> RULE_NONE"
  shows "n < length (sf_regs (get_reg (retreg s) (fr_rules s) (fr_frame_regs s)))"
proof (rule ccontr)
  let ?R = "get_reg (retreg s) (fr_rules s) (fr_frame_regs s)"
  assume n: "\<not> n < length (sf_regs ?R)"
  have len: "unat (retreg s) < length (sf_regs ?R)" using get_reg_length [OF assms(2), of "fr_rules s" "fr_frame_regs s"] by simp
  have "regs_ok (mach s) ?R" using get_reg_ok [OF assms(2), of "fr_rules s" "fr_frame_regs s"] assms(1) by (simp add: fr_inv_def)
  with len have "min_reg_cnt (mach s) \<le> length (sf_regs ?R)" by (auto simp: regs_ok_def)
  moreover have "sint (retreg s) = int (unat (retreg s))" using sint_reg [OF assms(2)] by simp
  then have "int n \<noteq> sint (retreg s)" using n len by linarith
  ultimately have "rr_rule (implied_rule (mach s) (retreg s) n) = RULE_NONE" using n by (intro implied_beyond) auto
  moreover have "rule_of (mach s) (retreg s) ?R n = implied_rule (mach s) (retreg s) n" using n by (simp only: rule_of_def if_False)
  ultimately show False using assms(3) by (simp add: get_reg_view)
qed

text \<open>
  The row is used: the result is valid for its addresses, with commands for every register that has a rule. The row is not used for the last instruction of an ARM function.
\<close>

lemma use_row_at:
  assumes "fr_inv s" "unat (retreg s) < 2 ^ 31" "frame_view (mach s) (retreg s) (fr_frame_regs s) = fr" "\<And>i. plain (rr_rule (af_regs fr i))"
    "af_rule fr = RULE_OFFSET" "reg_def env (ru_eh_frame (fr_rules s)) (af_register fr) = Some def" "\<not> (mach s = EM_ARM \<and> ip + 4 = addr + rng)" "fr_trace_regs s = []"
  shows "\<exists>t n. bindP (use_row env ip addr rng l) (\<lambda>_. on_dio dio_ExitSection) s = (Inr (), t) \<and> (\<forall>i. rr_rule (af_regs fr i) \<noteq> RULE_NONE \<longrightarrow> i < n) \<and>
    fr_trace_regs t = row_regs env (fr_rules s) (af_regs fr) n \<and>
    (fr_trace_regs t \<noteq> [] \<longrightarrow> fr_trace_addr t = l \<and> fr_trace_size t = ru_location (fr_rules s) - l \<and> fr_trace_fp t = cfa_cmds (fr_rules s) def (af_offset fr))"
proof -
  let ?n = "length (sf_regs (get_reg (retreg s) (fr_rules s) (fr_frame_regs s)))" and ?s = "s\<lparr>fr_trace_addr := l, fr_trace_size := ru_location (fr_rules s) - l\<rparr>"
  have "fr_inv ?s" using assms(1) by (simp add: fr_inv_def)
  with generate_commands_at [OF refl, of ?s fr env def] assms obtain R X where
    g: "generate_commands env ?s = (Inr (), ?s\<lparr>fr_frame_regs := R, fr_trace_cmds := X, fr_trace_regs := row_regs env (fr_rules s) (af_regs fr) ?n,
      fr_trace_fp := cfa_cmds (fr_rules s) def (af_offset fr)\<rparr>)" by auto
  have b: "bindP (generate_commands env) k ?s = k () (?s\<lparr>fr_frame_regs := R, fr_trace_cmds := X, fr_trace_regs := row_regs env (fr_rules s) (af_regs fr) ?n,
      fr_trace_fp := cfa_cmds (fr_rules s) def (af_offset fr)\<rparr>)" for k :: "unit \<Rightarrow> unit fm" by (simp only: bindP_def g prod.case sum.case)
  have all: "\<forall>i. rr_rule (af_regs fr i) \<noteq> RULE_NONE \<longrightarrow> i < ?n" using all_registers [OF assms(1,2)] assms(3) by auto
  have a: "(mach s = EM_ARM \<and> ip + 4 = addr + rng) = False" using assms(7) by simp
  have e: "on_dio dio_ExitSection u = (Inr (), u\<lparr>fr_dio := (fr_dio u)\<lparr>dio_data := [], dio_pos := 0, dio_len := 0\<rparr>\<rparr>)" for u by (simp add: on_dio_def dio_ExitSection_def modP_def)
  show ?thesis
    using all by (intro exI [of _ "snd (bindP (use_row env ip addr rng l) (\<lambda>_. on_dio dio_ExitSection) s)"] exI [of _ ?n])
      (simp add: use_row_def bindP_modP bind_rules a b e)
qed

section \<open>Values\<close>

text \<open>What a rule says about the value of a register \<open>dst\<close> of the caller, on a target and in a frame whose address is known: where it is in memory, or which register has it.\<close>

definition memory_value :: "('t, 'f) loc_env \<Rightarrow> bool \<Rightarrow> u64 \<Rightarrow> nat \<Rightarrow> 't \<Rightarrow> u64 result" where
  "memory_value le be a n t = bindE (tg_read_mem (lo_ops le) t a n) (\<lambda>bs. Inr (bytes_value (if be then bs else rev bs)))"

definition rule_value :: "('t, 'f) loc_env \<Rightarrow> frame_env \<Rightarrow> StackFrameRules \<Rightarrow> RegisterRules \<Rightarrow> RegisterDefinition \<Rightarrow> RegisterDefinition \<Rightarrow> u64 \<Rightarrow> 't \<Rightarrow> u64 result" where
  "rule_value le env ru reg dst src cfa t =
     (case rr_rule reg of
        RULE_OFFSET \<Rightarrow> memory_value le (ef_big_endian (ru_file ru)) (cfa + scast (rr_offset reg)) (rd_size dst) t
      | RULE_VAL_OFFSET \<Rightarrow> Inr (cfa + scast (rr_offset reg))
      | RULE_SAME_VALUE \<Rightarrow> read_reg_value (lo_ops le) (lo_frame le) src t
      | RULE_REGISTER \<Rightarrow> read_reg_value (lo_ops le) (lo_frame le) (the (reg_def env (ru_eh_frame ru) (rr_offset reg))) t
      | _ \<Rightarrow> Inl ERR_INV_DWARF)"

text \<open>MicroBlaze: the caller continues behind the call and its delay slot. ARM: bit 0 of a code address is not part of it.\<close>

definition machine_value :: "RegisterDefinition \<Rightarrow> StackFrameRules \<Rightarrow> u64 \<Rightarrow> u64" where
  "machine_value dst ru v =
     (let w = (if ru_machine ru = EM_MICROBLAZE \<and> rd_dwarf_id dst = 32 \<and> ru_return_address_register ru = 15 then v + 8 else v)
      in if ru_machine ru = EM_ARM \<and> rd_dwarf_id dst = 15 then w AND 0xfffffffe else w)"

definition fresh :: "u64 list \<Rightarrow> 't \<Rightarrow> ('t, 'f) les" where
  "fresh args t = \<lparr>le_target = t, le_stk = [], le_pieces = [], le_args = args, le_state_args = args, le_args_copied = False, le_sft_cmd = None\<rparr>"

definition yields :: "('t, 'f) loc_env \<Rightarrow> sft_cmd list \<Rightarrow> 't \<Rightarrow> u64 result \<Rightarrow> bool" where
  "yields le cmds t r \<longleftrightarrow> (\<forall>args. evaluate_location_expression le cmds args t =
     (case r of Inl e \<Rightarrow> (Inl (Exc e), t) | Inr v \<Rightarrow> (Inr ((fresh args t)\<lparr>le_stk := [v]\<rparr>), t)))"

text \<open>Commands that push one value, and commands that change it.\<close>

definition goes :: "('t, 'f) loc_env \<Rightarrow> sft_cmd list \<Rightarrow> ('t, 'f) les \<Rightarrow> u64 result \<Rightarrow> bool" where
  "goes le cmds s r \<longleftrightarrow> (\<forall>rest. case r of
       Inl e \<Rightarrow> (\<exists>u. eval_cmds le (cmds @ rest) s = (Inl (Exc e), u) \<and> le_target u = le_target s)
     | Inr v \<Rightarrow> eval_cmds le (cmds @ rest) s = eval_cmds le rest (s\<lparr>le_stk := [v]\<rparr>))"

definition pushes :: "('t, 'f) loc_env \<Rightarrow> sft_cmd list \<Rightarrow> 't \<Rightarrow> u64 result \<Rightarrow> bool" where
  "pushes le cmds t r \<longleftrightarrow> (\<forall>args. goes le cmds (fresh args t) r)"

lemma fresh_simps [simp]: "le_target (fresh args t) = t" "le_stk (fresh args t) = []" "le_pieces (fresh args t) = []" "le_sft_cmd (fresh args t) = None"
  by (simp_all add: fresh_def)

lemma pushes_yields:
  assumes "pushes le cmds t r"
  shows "yields le cmds t r"
  unfolding yields_def evaluate_location_expression_def fresh_def [symmetric]
proof
  fix args
  have "case r of Inl e \<Rightarrow> (\<exists>u. eval_cmds le (cmds @ []) (fresh args t) = (Inl (Exc e), u) \<and> le_target u = le_target (fresh args t))
      | Inr v \<Rightarrow> eval_cmds le (cmds @ []) (fresh args t) = eval_cmds le [] ((fresh args t)\<lparr>le_stk := [v]\<rparr>)"
    using assms unfolding pushes_def goes_def by blast
  then show "(case eval_cmds le cmds (fresh args t) of (Inl e, s) \<Rightarrow> (Inl e, le_target s)
      | (Inr _, s) \<Rightarrow> (Inr (case le_stk s of [y, x] \<Rightarrow> s\<lparr>le_stk := [x + y]\<rparr> | _ \<Rightarrow> s), le_target s)) =
    (case r of Inl e \<Rightarrow> (Inl (Exc e), t) | Inr v \<Rightarrow> (Inr ((fresh args t)\<lparr>le_stk := [v]\<rparr>), t))" by (cases r) (auto simp: ret_def)
qed

lemma eval_step: "le_sft_cmd s = None \<Longrightarrow> eval_cmds le (cmd # cmds) s = bindP (eval_cmd le (cmds = []) cmd) (\<lambda>_. eval_cmds le cmds) s"
  by (simp add: bindP_getP)

lemmas eval_defs = eval_step eval_cmd_def push_le_def on_target_def binary_le_def bindP_modP bindP_getP fail_def

lemma pushes_reg: "pushes le [SFT_CMD_RD_REG def] t (read_reg_value (lo_ops le) (lo_frame le) def t)"
  by (auto simp: pushes_def goes_def eval_defs simp del: eval_cmds.simps split: sum.splits)

lemma pushes_cfa:
  assumes "lo_frame le = Some f"
  shows "pushes le (from_cfa offs) t (Inr (tg_frame_fp (lo_ops le) f + scast offs))"
proof -
  have "scast (0 :: u32) = (0 :: u64)" by simp
  then show ?thesis using assms
    by (auto simp: pushes_def goes_def from_cfa_def eval_defs simp del: eval_cmds.simps)
qed

text \<open>A command that takes the value and puts another one.\<close>

lemma pushes_then:
  assumes "pushes le cmds t r" "\<And>args v. r = Inr v \<Longrightarrow> goes le cmds' ((fresh args t)\<lparr>le_stk := [v]\<rparr>) (g v)"
  shows "pushes le (cmds @ cmds') t (bindE r g)"
proof (cases r)
  case (Inl e)
  with assms(1) show ?thesis by (simp add: pushes_def goes_def)
next
  case (Inr v)
  show ?thesis
    unfolding pushes_def
  proof
    fix args
    have "goes le cmds' ((fresh args t)\<lparr>le_stk := [v]\<rparr>) (g v)" using assms(2) Inr by blast
    moreover have "eval_cmds le (cmds @ rest) (fresh args t) = eval_cmds le rest ((fresh args t)\<lparr>le_stk := [v]\<rparr>)" for rest
      using assms(1) Inr by (simp add: pushes_def goes_def)
    ultimately show "goes le (cmds @ cmds') (fresh args t) (bindE r g)" using Inr by (cases "g v") (simp_all add: goes_def)
  qed
qed

lemma goes_memory: "sz \<le> 8 \<Longrightarrow> goes le [SFT_CMD_RD_MEM sz be] ((fresh args t)\<lparr>le_stk := [a]\<rparr>) (memory_value le be a (unat sz) t)"
  by (cases "tg_read_mem (lo_ops le) t a (unat sz)") (auto simp: goes_def eval_defs rd_mem_def memory_value_def simp del: eval_cmds.simps)

lemma goes_machine: "goes le (machine_commands dst ru) ((fresh args t)\<lparr>le_stk := [v]\<rparr>) (Inr (machine_value dst ru v))"
  by (auto simp: goes_def machine_commands_def machine_value_def eval_defs simp del: eval_cmds.simps)

lemma goes_nothing: "goes le [] ((fresh args t)\<lparr>le_stk := [v]\<rparr>) (Inr v)"
  by (simp add: goes_def)

lemma rule_pushes:
  assumes "rule_cmds env ru reg dst src = Some cmds" "lo_frame le = Some f" "rd_size dst \<le> 8" "rr_rule reg = RULE_REGISTER \<Longrightarrow> reg_def env (ru_eh_frame ru) (rr_offset reg) \<noteq> None"
  shows "pushes le cmds t (rule_value le env ru reg dst (the src) (tg_frame_fp (lo_ops le) f) t)"
proof (cases "rr_rule reg")
  case RULE_OFFSET
  have sz: "(of_nat (rd_size dst) :: u64) \<le> 8" "unat (of_nat (rd_size dst) :: u64) = rd_size dst" using assms(3) by (simp_all add: word_le_nat_alt unat_of_nat)
  let ?be = "ef_big_endian (ru_file ru)"
  have "pushes le (from_cfa (rr_offset reg) @ [SFT_CMD_RD_MEM (of_nat (rd_size dst)) ?be]) t
      (bindE (Inr (tg_frame_fp (lo_ops le) f + scast (rr_offset reg))) (\<lambda>a. memory_value le ?be a (unat (of_nat (rd_size dst) :: u64)) t))"
    by (rule pushes_then [OF pushes_cfa [OF assms(2)] goes_memory [OF sz(1)]])
  with RULE_OFFSET assms(1) sz(2) show ?thesis by (auto simp: rule_cmds_def rule_value_def)
next
  case RULE_VAL_OFFSET
  with assms pushes_cfa [OF assms(2)] show ?thesis by (auto simp: rule_cmds_def rule_value_def)
qed (use assms pushes_reg [where le = le and t = t, unfolded assms(2)] in \<open>auto simp: rule_cmds_def rule_value_def split: option.splits\<close>)


text \<open>The frame address: the value of a register plus an offset.\<close>

lemma cfa_value:
  assumes "\<not> (ru_machine ru = EM_TRICORE \<and> rd_dwarf_id def = 41)"
  shows "yields le (cfa_cmds ru def offs) t (bindE (read_reg_value (lo_ops le) (lo_frame le) def t) (\<lambda>v. Inr (v + scast offs)))"
proof -
  let ?more = "if offs \<noteq> 0 then [SFT_CMD_NUMBER (scast offs), SFT_CMD_ADD] else []"
  have "goes le ?more ((fresh args t)\<lparr>le_stk := [v]\<rparr>) (Inr (v + scast offs))" for args v
    by (auto simp: goes_def eval_defs simp del: eval_cmds.simps)
  from pushes_then [OF pushes_reg this, of def] assms show ?thesis by (intro pushes_yields) (simp only: cfa_cmds_def if_False append.simps)
qed

section \<open>From a frame description to the result\<close>

fun plain_cfi :: "cfi \<Rightarrow> bool" where
  "plain_cfi (CfiDefCfaExpression bs) = False"
| "plain_cfi (CfiExpression n bs) = False"
| "plain_cfi (CfiValExpression n bs) = False"
| "plain_cfi i = True"

definition plain_frame :: "aframe \<Rightarrow> bool" where
  "plain_frame fr \<longleftrightarrow> (\<forall>i. plain (rr_rule (af_regs fr i)))"

definition plain_state :: "acfi \<Rightarrow> bool" where
  "plain_state a \<longleftrightarrow> plain_frame (ac_frame a) \<and> list_all plain_frame (ac_stack a)"

lemma plain_rules [simp]: "plain RULE_NONE" "plain RULE_OFFSET" "plain RULE_SAME_VALUE" "plain RULE_REGISTER" "plain RULE_VAL_OFFSET" "plain (rr_rule no_rule)"
  by (simp_all add: plain_def no_rule_def)

lemma plain_step:
  assumes "cfi_step ca da ini pos i a = Some b" "plain_cfi i" "plain_state a" "\<And>n. plain (rr_rule (ini n))"
  shows "plain_state b"
  using assms by (cases i) (auto simp: plain_state_def plain_frame_def upd_rule_def upd_cfa_def split: list.splits)

lemma plain_run: "cfi_run be ca da ini pos is a = Some b \<Longrightarrow> list_all plain_cfi is \<Longrightarrow> plain_state a \<Longrightarrow> (\<And>n. plain (rr_rule (ini n))) \<Longrightarrow> plain_state b"
proof (induction "is" arbitrary: pos a)
  case (Cons i "is")
  then show ?case by (auto split: option.splits dest: plain_step)
qed simp

lemma plain_rows:
  "cfi_rows be ca da ini hi pos is a = Some rs \<Longrightarrow> list_all plain_cfi is \<Longrightarrow> plain_state a \<Longrightarrow> (\<And>n. plain (rr_rule (ini n))) \<Longrightarrow> (l, h, fr) \<in> set rs \<Longrightarrow> plain_frame fr"
proof (induction "is" arbitrary: pos a rs)
  case Nil
  then show ?case by (auto simp: plain_state_def split: if_splits)
next
  case (Cons i "is")
  then obtain b qs where b: "cfi_step ca da ini pos i a = Some b" "cfi_rows be ca da ini hi (pos + of_nat (length (cfi_code be i))) is b = Some qs"
      "rs = (if ac_loc b = ac_loc a then qs else (ac_loc a, ac_loc b, ac_frame a) # qs)" by (auto split: option.splits if_splits)
  have "plain_state b" using plain_step [OF b(1)] Cons.prems by simp
  with Cons.IH [OF b(2)] Cons.prems b(3) show ?case by (auto simp: plain_state_def split: if_splits)
qed

lemma plain_if: "plain (rr_rule a) \<Longrightarrow> plain (rr_rule b) \<Longrightarrow> plain (rr_rule (if c then a else b))"
  by simp

lemma plain_implied: "plain (rr_rule (implied_rule m ra n))"
  unfolding implied_rule_def in_link_def by (intro plain_if) simp_all

lemma plain_table:
  assumes "fde_table ru cpos c fpos f = Some rs" "list_all plain_cfi (ci_code c)" "list_all plain_cfi (fd_code f)" "(l, h, fr) \<in> set rs"
  shows "plain_frame fr"
proof -
  from assms(1) obtain a where a: "cfi_run (ef_big_endian (ru_file ru)) (of_nat (ci_ca c)) (of_int (ci_da c)) (implied_rule (ru_machine ru) (of_nat (ci_ra c)))
      (cpos + of_nat (8 + length (cie_header (addr_size (ru_file ru)) c))) (ci_code c) (cie_start (ru_machine ru) (of_nat (ci_ra c)) 0) = Some a"
      "cfi_rows (ef_big_endian (ru_file ru)) (of_nat (ci_ca c)) (of_int (ci_da c)) (af_regs (ac_frame a)) (fd_addr f + fd_size f)
        (fpos + 4 + of_nat (length (fde_header (ef_big_endian (ru_file ru)) (addr_size (ru_file ru)) (cie_ref ru cpos fpos) (ptr_addr ru fpos) c f)))
        (fd_code f) \<lparr>ac_loc = fd_addr f, ac_frame = ac_frame a, ac_stack = []\<rparr> = Some rs"
    by (auto simp: fde_table_def cie_frame_def Let_def split: option.splits)
  have "plain_state (cie_start (ru_machine ru) (of_nat (ci_ra c)) 0)" by (simp add: plain_state_def plain_frame_def cie_start_def plain_implied)
  with plain_run [OF a(1) assms(2)] have p: "plain_frame (ac_frame a)" by (simp add: plain_implied plain_state_def)
  show ?thesis using p by (intro plain_rows [OF a(2) assms(3) _ _ assms(4)]) (auto simp: plain_state_def plain_frame_def)
qed

definition row_usable :: "frame_env \<Rightarrow> bool \<Rightarrow> row \<Rightarrow> bool" where
  "row_usable env eh r \<longleftrightarrow> (case r of (l, h, fr) \<Rightarrow> af_rule fr = RULE_OFFSET \<and> reg_def env eh (af_register fr) \<noteq> None)"

lemma location_free [simp]:
  "rule_cmds env (ru\<lparr>ru_location := l\<rparr>) reg dst src = rule_cmds env ru reg dst src" "machine_commands dst (ru\<lparr>ru_location := l\<rparr>) = machine_commands dst ru"
  "cfa_cmds (ru\<lparr>ru_location := l\<rparr>) def offs = cfa_cmds ru def offs"
  by (cases "rr_rule reg") (simp_all add: rule_cmds_def machine_commands_def cfa_cmds_def)

lemma row_regs_location [simp]: "row_regs env (ru\<lparr>ru_location := l\<rparr>) rls n = row_regs env ru rls n"
proof -
  have "reg_entry env (ru\<lparr>ru_location := l\<rparr>) reg dst src = reg_entry env ru reg dst src" for reg dst src by (auto simp: reg_entry_def split: option.splits)
  then show ?thesis by (simp add: row_regs_def Let_def)
qed

text \<open>
  C3: Unwinding a stack frame. For a frame description as compilers write it, in a section of an executable, the agent takes the one row of the table that has the address;
  the result holds for the addresses of the row and has commands for the frame address and for every register with a rule, starting with the program counter. (The last
  instruction of an ARM function is left to other means, and so is a row without any commands.)
\<close>

theorem unwind_row:
  assumes "in_section (fr_rules s) data cpos c fpos f mark" "ru_cie_pos (fr_rules s) \<noteq> cpos" "fe_drl env (ru_section (fr_rules s)) = no_reloc"
    and "fde_table (fr_rules s) cpos c fpos f = Some rs" "list_all plain_cfi (ci_code c)" "list_all plain_cfi (fd_code f)" "list_all (row_usable env (ru_eh_frame (fr_rules s))) rs"
    and "fd_addr f \<le> ip" "ip < fd_addr f + fd_size f" "\<not> (ru_machine (fr_rules s) = EM_ARM \<and> ip + 4 = fd_addr f + fd_size f)" "fr_trace_regs s = []"
  shows "\<exists>t l h fr n. filter (covers ip) rs = [(l, h, fr)] \<and> read_frame_fde env ip fpos s = (Inr (), t) \<and>
    (let ru = header_rules cpos (addr_size (ru_file (fr_rules s))) c (fr_rules s) in
     fr_trace_regs t = row_regs env ru (af_regs fr) n \<and> (\<forall>i. rr_rule (af_regs fr i) \<noteq> RULE_NONE \<longrightarrow> i < n) \<and>
     (fr_trace_regs t \<noteq> [] \<longrightarrow> fr_trace_addr t = l \<and> fr_trace_size t = h - l \<and>
       fr_trace_fp t = cfa_cmds ru (the (reg_def env (ru_eh_frame (fr_rules s)) (af_register fr))) (af_offset fr)))"
proof -
  from read_frame_fde_row [OF assms(1-4,8,9)] obtain u l h fr where
    u: "filter (covers ip) rs = [(l, h, fr)]" "read_frame_fde env ip fpos s = bindP (use_row env ip (fd_addr f) (fd_size f) l) (\<lambda>_. on_dio dio_ExitSection) u"
      "ac_loc (view u) = h" "ac_frame (view u) = fr" "fr_inv u" "outputs u = outputs s" "fr_rules u = (header_rules cpos (addr_size (ru_file (fr_rules s))) c (fr_rules s))\<lparr>ru_location := h\<rparr>" by blast
  have "(l, h, fr) \<in> set (filter (covers ip) rs)" using u(1) by simp
  then have m: "(l, h, fr) \<in> set rs" by simp
  have p: "plain (rr_rule (af_regs fr i))" for i using plain_table [OF assms(4-6) m] by (simp add: plain_frame_def)
  from assms(7) m obtain def where def: "af_rule fr = RULE_OFFSET" "reg_def env (ru_eh_frame (fr_rules s)) (af_register fr) = Some def"
    by (auto simp: list_all_iff row_usable_def)
  have ra: "ci_ra c < 2 ^ 31" using assms(1) by (auto simp: in_section_def Let_def cie_ok_def)
  then have ra: "unat (retreg u) < 2 ^ 31" by (simp add: u(7) unat_of_nat)
  have v: "frame_view (mach u) (retreg u) (fr_frame_regs u) = fr" using u(4) by simp
  have d: "reg_def env (ru_eh_frame (fr_rules u)) (af_register fr) = Some def" "\<not> (mach u = EM_ARM \<and> ip + 4 = fd_addr f + fd_size f)" "fr_trace_regs u = []"
    using def(2) assms(10,11) u(6) by (simp_all add: u(7) outputs_def)
  from use_row_at [OF u(5) ra v p def(1) d] obtain t n where "bindP (use_row env ip (fd_addr f) (fd_size f) l) (\<lambda>_. on_dio dio_ExitSection) u = (Inr (), t)"
      "\<forall>i. rr_rule (af_regs fr i) \<noteq> RULE_NONE \<longrightarrow> i < n" "fr_trace_regs t = row_regs env (fr_rules u) (af_regs fr) n"
      "fr_trace_regs t \<noteq> [] \<longrightarrow> fr_trace_addr t = l \<and> fr_trace_size t = ru_location (fr_rules u) - l \<and> fr_trace_fp t = cfa_cmds (fr_rules u) def (af_offset fr)" by blast
  with u(1,2) def show ?thesis by (intro exI [of _ t] exI [of _ l] exI [of _ h] exI [of _ fr] exI [of _ n]) (simp add: u(7) Let_def)
qed

text \<open>An x86-64 function with a frame pointer.\<close>

definition ex_cie :: cie where
  "ex_cie = \<lparr>ci_version = 1, ci_enc = None, ci_ca = 1, ci_da = - 8, ci_ra = 16, ci_code = [CfiDefCfa 7 8, CfiOffset 16 1]\<rparr>"

definition ex_fde :: fde where
  "ex_fde = \<lparr>fd_addr = 0x1000, fd_size = 0x20, fd_code = [CfiAdvance 1, CfiDefCfaOffset 16, CfiOffset 6 2, CfiAdvance 3, CfiDefCfaRegister 6]\<rparr>"

definition ex_data :: "byte list" where
  "ex_data = cie_bytes False 8 0xffffffff ex_cie @ fde_bytes False 8 0 0 ex_cie ex_fde"

definition ex_rules :: StackFrameRules where
  "ex_rules = no_rules\<lparr>ru_file := \<lparr>ef_sections = [], ef_big_endian = False, ef_elf64 = True, ef_machine = 62\<rparr>,
     ru_section := \<lparr>es_index = 1, es_name = Some ''.debug_frame'', es_addr = 0, es_size = of_nat (length ex_data), es_alignment = 8, es_alloc = False, es_data = Inr ex_data\<rparr>,
     ru_machine := 62, ru_cie_pos := - 1\<rparr>"

definition ex_state :: fr where
  "ex_state = \<lparr>fr_dio = no_section, fr_rules = ex_rules, fr_frame_regs = clear_frame_registers, fr_cie_regs = clear_frame_registers, fr_regs_stack = [], fr_regs_stack_pos = 0,
     fr_trace_cmds = [], fr_trace_addr = 0, fr_trace_size = 0, fr_trace_fp = [], fr_trace_regs = [], fr_indexes = []\<rparr>"

definition ex_env :: frame_env where
  "ex_env = \<lparr>fe_drl = (\<lambda>_. no_reloc), fe_map_address = (\<lambda>_. Inr), fe_reg_by_id = (\<lambda>_ n. Inr \<lparr>rd_num = unat n, rd_size = 8, rd_dwarf_id = uint n, rd_big_endian = False\<rparr>), fe_pc = None\<rparr>"

lemma ex_bytes: "cie_bytes False 8 0xffffffff ex_cie = [14, 0, 0, 0, 255, 255, 255, 255, 1, 0, 1, 120, 16, 12, 7, 8, 144, 1]"
  by code_simp

lemma ex_bytes2: "fde_bytes False 8 0 0 ex_cie ex_fde = [28, 0, 0, 0, 0, 0, 0, 0, 0, 16, 0, 0, 0, 0, 0, 0, 32, 0, 0, 0, 0, 0, 0, 0, 65, 14, 16, 134, 2, 67, 13, 6]"
  by code_simp

lemma ex_lengths: "length (cie_body False 8 0xffffffff ex_cie) = 14" "length (fde_body False 8 0 0 ex_cie ex_fde) = 28" "length ex_data = 50"
  by code_simp+

lemma ex_in_section: "in_section ex_rules ex_data 0 ex_cie 18 ex_fde 0xffffffff"
proof -
  have r: "ru_file ex_rules = \<lparr>ef_sections = [], ef_big_endian = False, ef_elf64 = True, ef_machine = 62\<rparr>" "ru_eh_frame ex_rules = False"
    "es_data (ru_section ex_rules) = Inr ex_data" "unat (es_size (ru_section ex_rules)) = length ex_data" "cie_ref ex_rules 0 18 = 0"
    by (simp_all add: ex_rules_def no_rules_def ex_lengths cie_ref_def)
  have e: "cie_enc ex_cie = 0" by (simp add: cie_enc_def ex_cie_def)
  have h: "fde_bytes False 8 0 (ptr_addr ex_rules 18) ex_cie ex_fde = fde_bytes False 8 0 0 ex_cie ex_fde"
    "fde_body False 8 0 (ptr_addr ex_rules 18) ex_cie ex_fde = fde_body False 8 0 0 ex_cie ex_fde"
    by (simp_all add: fde_bytes_def fde_body_def fde_header_def e pointer_from_def)
  have k: "cie_ok ex_cie" "list_all cfi_ok (fd_code ex_fde)" by (simp_all add: cie_ok_def ex_cie_def ex_fde_def sint_ok_def)
  have p: "pointer_ok 8 0 v" for v by (simp add: pointer_ok_def take_bit_word_eq_self)
  have d: "prefix (cie_bytes False 8 0xffffffff ex_cie) ex_data" "prefix (fde_bytes False 8 0 0 ex_cie ex_fde) (drop 18 ex_data)"
    by (simp_all add: ex_data_def ex_bytes ex_bytes2)
  show ?thesis by (simp add: in_section_def r h k p d e ex_lengths pointer_from_def)
qed

lemma ex_table:
  "case fde_table ex_rules 0 ex_cie 18 ex_fde of None \<Rightarrow> False | Some rs \<Rightarrow> list_all (row_usable ex_env False) rs \<and>
     map (\<lambda>(l, h, fr). (l, h, af_register fr, af_offset fr, rr_rule (af_regs fr 7))) (filter (covers 0x1002) rs) = [(0x1001, 0x1004, 7, 16, RULE_VAL_OFFSET)]"
  by code_simp

theorem unwind_row_witness:
  "\<exists>t. read_frame_fde ex_env 0x1002 18 ex_state = (Inr (), t) \<and> fr_trace_addr t = 0x1001 \<and> fr_trace_size t = 3 \<and>
     fr_trace_fp t = [SFT_CMD_RD_REG \<lparr>rd_num = 7, rd_size = 8, rd_dwarf_id = 7, rd_big_endian = False\<rparr>, SFT_CMD_NUMBER 16, SFT_CMD_ADD]"
proof -
  obtain rs where rs: "fde_table ex_rules 0 ex_cie 18 ex_fde = Some rs" "list_all (row_usable ex_env False) rs"
      "map (\<lambda>(l, h, fr). (l, h, af_register fr, af_offset fr, rr_rule (af_regs fr 7))) (filter (covers 0x1002) rs) = [(0x1001, 0x1004, 7, 16, RULE_VAL_OFFSET)]"
    using ex_table by (auto split: option.splits)
  have s: "fr_rules ex_state = ex_rules" "fr_trace_regs ex_state = []" "ru_cie_pos ex_rules \<noteq> 0" "ru_eh_frame ex_rules = False" "ru_machine ex_rules = 62" by (simp_all add: ex_state_def ex_rules_def no_rules_def)
  have c: "list_all plain_cfi (ci_code ex_cie)" "list_all plain_cfi (fd_code ex_fde)" "fd_addr ex_fde \<le> 0x1002" "0x1002 < fd_addr ex_fde + fd_size ex_fde" "fe_drl ex_env (ru_section ex_rules) = no_reloc"
    by (simp_all add: ex_cie_def ex_fde_def ex_env_def)
  have z: "addr_size (ru_file ex_rules) = 8" by (simp add: ex_rules_def)
  note w = unwind_row [where s = ex_state and data = ex_data and cpos = 0 and c = ex_cie and fpos = 18 and f = ex_fde and mark = "0xffffffff" and env = ex_env and rs = rs and ip = "0x1002",
    unfolded s(1) z s(4) Let_def, OF ex_in_section s(3) c(5) rs(1) c(1,2) rs(2) c(3,4)]
  have "\<not> (ru_machine ex_rules = EM_ARM \<and> 0x1002 + 4 = fd_addr ex_fde + fd_size ex_fde)" by (simp add: s)
  from w [OF this s(2)] obtain t l h fr n where t: "filter (covers 0x1002) rs = [(l, h, fr)]" "read_frame_fde ex_env 0x1002 18 ex_state = (Inr (), t)"
      "fr_trace_regs t = row_regs ex_env (header_rules 0 8 ex_cie ex_rules) (af_regs fr) n" "\<forall>i. rr_rule (af_regs fr i) \<noteq> RULE_NONE \<longrightarrow> i < n"
      "fr_trace_regs t \<noteq> [] \<longrightarrow> fr_trace_addr t = l \<and> fr_trace_size t = h - l \<and>
       fr_trace_fp t = cfa_cmds (header_rules 0 8 ex_cie ex_rules) (the (reg_def ex_env False (af_register fr))) (af_offset fr)" by blast
  from rs(3) t(1) have f: "l = 0x1001" "h = 0x1004" "af_register fr = 7" "af_offset fr = 16" "rr_rule (af_regs fr 7) = RULE_VAL_OFFSET" by simp_all
  have d: "reg_def ex_env eh k = Some \<lparr>rd_num = unat k, rd_size = 8, rd_dwarf_id = uint k, rd_big_endian = False\<rparr>" for eh k by (simp add: reg_def_def ex_env_def)
  have "7 < n" using t(4) f(5) by auto
  moreover have "reg_entry ex_env (header_rules 0 8 ex_cie ex_rules) (af_regs fr 7) (reg_def ex_env False 7) (reg_def ex_env False 7) \<noteq> []"
    by (simp add: reg_entry_def f d rule_cmds_def from_cfa_def)
  ultimately have "fr_trace_regs t \<noteq> []" unfolding t(3) row_regs_def Let_def header_fields s(4)
    by (auto intro!: bexI [of _ 7])
  with t f have "fr_trace_addr t = 0x1001 \<and> fr_trace_size t = 3 \<and> fr_trace_fp t = cfa_cmds (header_rules 0 8 ex_cie ex_rules) (the (reg_def ex_env False 7)) 16" by simp
  then show ?thesis using t(2) by (simp add: cfa_cmds_def s d)
qed

definition ex_loc :: "(unit, u64) loc_env" where
  "ex_loc = \<lparr>lo_ops = \<lparr>tg_read_mem = (\<lambda>_ a n. Inr (value_bytes n a)), tg_write_mem = (\<lambda>t _ _. Inr t), tg_read_reg = (\<lambda>_ _ r. Inr (replicate (rd_size r) 0)),
     tg_write_reg = (\<lambda>t _ _ _. Inr t), tg_frame_fp = (\<lambda>f. f)\<rparr>, lo_frame = Some 0x7000, lo_vm = (\<lambda>_ _. None)\<rparr>"

definition ex_reg :: "nat \<Rightarrow> RegisterDefinition" where
  "ex_reg n = \<lparr>rd_num = n, rd_size = 8, rd_dwarf_id = int n, rd_big_endian = False\<rparr>"


section \<open>The search for a description\<close>

text \<open>The ranges of different functions have no common address.\<close>

definition range_ok :: "FrameInfoRange \<Rightarrow> bool" where
  "range_ok r \<longleftrightarrow> 0 < fi_size r \<and> unat (fi_addr r) + unat (fi_size r) < 2 ^ 64"

definition has_ip :: "u32 \<Rightarrow> u64 \<Rightarrow> FrameInfoRange \<Rightarrow> bool" where
  "has_ip sec ip r \<longleftrightarrow> fi_section r = sec \<and> fi_addr r \<le> ip \<and> ip < fi_addr r + fi_size r"

definition ends_before :: "FrameInfoRange \<Rightarrow> FrameInfoRange \<Rightarrow> bool" where
  "ends_before x y \<longleftrightarrow> fi_section x < fi_section y \<or> fi_section x = fi_section y \<and> unat (fi_addr x) + unat (fi_size x) \<le> unat (fi_addr y)"

lemma cmp_le: "cmp_frame_info_ranges x y \<le> 0 \<longleftrightarrow> fi_section x < fi_section y \<or> fi_section x = fi_section y \<and> fi_addr x \<le> fi_addr y"
  by (auto simp: cmp_frame_info_ranges_def)

lemma range_end: "range_ok r \<Longrightarrow> unat (fi_addr r + fi_size r) = unat (fi_addr r) + unat (fi_size r)"
  by (simp add: range_ok_def unat_word_ariths)

lemma mset_sort: "mset (sort_ranges rs) = mset rs"
proof -
  have "mset (insert_range x xs) = add_mset x (mset xs)" for x xs by (induction xs) auto
  then have "mset (foldr insert_range rs []) = mset rs" by (induction rs) simp_all
  then show ?thesis by (simp add: sort_ranges_def)
qed

lemma sorted_sort: "sorted_wrt (\<lambda>x y. cmp_frame_info_ranges x y \<le> 0) (sort_ranges rs)"
proof -
  have set: "set (insert_range x xs) = insert x (set xs)" for x xs by (induction xs) auto
  have "sorted_wrt (\<lambda>x y. cmp_frame_info_ranges x y \<le> 0) (insert_range x xs)" if "sorted_wrt (\<lambda>x y. cmp_frame_info_ranges x y \<le> 0) xs" for x xs
    using that by (induction xs) (auto simp: set cmp_le)
  then have "sorted_wrt (\<lambda>x y. cmp_frame_info_ranges x y \<le> 0) (foldr insert_range rs [])" by (induction rs) simp_all
  then show ?thesis by (simp add: sort_ranges_def)
qed

lemma find_append: "find P (xs @ ys) = (case find P xs of None \<Rightarrow> find P ys | Some x \<Rightarrow> Some x)"
  by (induction xs) auto

lemma segment: "l \<le> k \<Longrightarrow> k < h \<Longrightarrow> map f [l..<h] = map f [l..<k] @ f k # map f [Suc k..<h]"
  using upt_add_eq_append [of l k "h - k"] by (simp add: upt_conv_Cons)

lemma find_none: "(\<And>j. l \<le> j \<Longrightarrow> j < h \<Longrightarrow> \<not> P (f j)) \<Longrightarrow> find P (map f [l..<h]) = None"
  by (auto simp: find_None_iff)

lemma has_ip_unat: "range_ok x \<Longrightarrow> has_ip sec ip x \<longleftrightarrow> fi_section x = sec \<and> unat (fi_addr x) \<le> unat ip \<and> unat ip < unat (fi_addr x) + unat (fi_size x)"
  by (simp add: has_ip_def word_le_nat_alt word_less_nat_alt range_end)

lemma not_later:
  assumes "ends_before r x" "sec < fi_section r \<or> sec = fi_section r \<and> ip < fi_addr r"
  shows "\<not> has_ip sec ip x"
proof
  assume "has_ip sec ip x"
  then have x: "fi_section x = sec" "fi_addr x \<le> ip" by (simp_all add: has_ip_def)
  from assms(1) have "fi_section r < fi_section x \<or> fi_section r = fi_section x \<and> fi_addr r \<le> fi_addr x" unfolding ends_before_def word_le_nat_alt by linarith
  with assms(2) x show False by (metis leD less_asym less_irrefl order_trans)
qed

lemma not_earlier:
  assumes "ends_before x r" "range_ok x" "range_ok r" "fi_section r < sec \<or> sec = fi_section r \<and> fi_addr r + fi_size r \<le> ip"
  shows "\<not> has_ip sec ip x" "\<not> has_ip sec ip r"
proof -
  have r: "fi_section r < sec \<or> sec = fi_section r \<and> unat (fi_addr r) + unat (fi_size r) \<le> unat ip"
    using assms(4) unfolding word_le_nat_alt range_end [OF assms(3)] .
  show "\<not> has_ip sec ip r" unfolding has_ip_unat [OF assms(3)] using r by auto
  show "\<not> has_ip sec ip x" unfolding has_ip_unat [OF assms(2)] using r assms(1) unfolding ends_before_def by auto
qed

lemma not_before: "ends_before x r \<Longrightarrow> range_ok x \<Longrightarrow> range_ok r \<Longrightarrow> has_ip sec ip r \<Longrightarrow> \<not> has_ip sec ip x"
  unfolding has_ip_unat ends_before_def by auto

lemma search_finds:
  assumes "sorted_wrt ends_before ss" "list_all range_ok ss" "h \<le> length ss"
  shows "search_ranges sec ip ss l h = map_option fi_offset (find (has_ip sec ip) (map ((!) ss) [l..<h]))"
  using assms(3)
proof (induction "h - l" arbitrary: l h rule: less_induct)
  case less
  show ?case
  proof (cases "l < h")
    case False
    then show ?thesis by (subst search_ranges.simps) simp
  next
    case lh: True
    define k where "k = (l + h) div 2"
    let ?r = "ss ! k"
    have k: "l \<le> k" "k < h" using lh by (simp_all add: k_def)
    have ok: "range_ok (ss ! j)" if "j < h" for j using that less.prems assms(2) by (simp add: list_all_length)
    have ord: "ends_before (ss ! i) (ss ! j)" if "i < j" "j < h" for i j using that less.prems assms(1) by (simp add: sorted_wrt_iff_nth_less)
    have split: "find (has_ip sec ip) (map ((!) ss) [l..<h]) = (case find (has_ip sec ip) (map ((!) ss) [l..<k]) of
        None \<Rightarrow> find (has_ip sec ip) (?r # map ((!) ss) [Suc k..<h]) | Some x \<Rightarrow> Some x)" by (simp only: segment [OF k] find_append)
    have left: "search_ranges sec ip ss l k = map_option fi_offset (find (has_ip sec ip) (map ((!) ss) [l..<k]))" using k less.prems by (intro less.hyps) auto
    have right: "search_ranges sec ip ss (k + 1) h = map_option fi_offset (find (has_ip sec ip) (map ((!) ss) [Suc k..<h]))" using less.hyps [of h "Suc k"] k less.prems by simp
    have later: "\<not> has_ip sec ip (ss ! j)" if "k \<le> j" "j < h" "sec < fi_section ?r \<or> sec = fi_section ?r \<and> ip < fi_addr ?r" for j
    proof (cases "k = j")
      case True
      with that(3) show ?thesis by (auto simp: has_ip_def)
    next
      case False
      with not_later [OF ord that(3)] that(1,2) show ?thesis by simp
    qed
    have earlier: "\<not> has_ip sec ip (ss ! j)" if "j < k" "fi_section ?r < sec \<or> sec = fi_section ?r \<and> fi_addr ?r + fi_size ?r \<le> ip" for j
      using not_earlier(1) [OF ord ok ok that(2)] that(1) k by simp
    have before: "\<not> has_ip sec ip (ss ! j)" if "j < k" "has_ip sec ip ?r" for j
      using not_before [OF ord ok ok that(2)] that(1) k by simp
    have w: "\<not> fi_addr ?r + fi_size ?r < fi_addr ?r" using range_end [OF ok] k by (simp add: word_less_nat_alt)
    have step: "search_ranges sec ip ss l h =
        (if sec < fi_section ?r \<or> sec = fi_section ?r \<and> ip < fi_addr ?r then search_ranges sec ip ss l k
         else if fi_section ?r < sec \<or> sec = fi_section ?r \<and> fi_addr ?r + fi_size ?r \<le> ip then search_ranges sec ip ss (k + 1) h else Some (fi_offset ?r))"
      using lh w by (subst search_ranges.simps) (auto simp: Let_def k_def [symmetric])
    consider (a) "sec < fi_section ?r \<or> sec = fi_section ?r \<and> ip < fi_addr ?r"
      | (b) "\<not> (sec < fi_section ?r \<or> sec = fi_section ?r \<and> ip < fi_addr ?r)" "fi_section ?r < sec \<or> sec = fi_section ?r \<and> fi_addr ?r + fi_size ?r \<le> ip"
      | (c) "has_ip sec ip ?r" using linorder_less_linear [of sec "fi_section ?r"] linorder_le_less_linear [of "fi_addr ?r" ip] linorder_le_less_linear [of "fi_addr ?r + fi_size ?r" ip]
      unfolding has_ip_def by blast
    then show ?thesis
    proof cases
      case a
      have "find (has_ip sec ip) (map ((!) ss) [k..<h]) = None" using later a by (intro find_none) blast
      then have "find (has_ip sec ip) (?r # map ((!) ss) [Suc k..<h]) = None" using k by (simp add: upt_conv_Cons)
      with a step left split show ?thesis by (simp split: option.splits)
    next
      case b
      have "find (has_ip sec ip) (map ((!) ss) [l..<k]) = None" using earlier b(2) by (intro find_none) blast
      moreover have "\<not> has_ip sec ip ?r" using b(2) unfolding has_ip_def by (metis leD less_irrefl)
      ultimately show ?thesis using b step right split by auto
    next
      case c
      have "find (has_ip sec ip) (map ((!) ss) [l..<k]) = None" using before c by (intro find_none) blast
      moreover have "\<not> (sec < fi_section ?r \<or> sec = fi_section ?r \<and> ip < fi_addr ?r)" "\<not> (fi_section ?r < sec \<or> sec = fi_section ?r \<and> fi_addr ?r + fi_size ?r \<le> ip)"
        using c unfolding has_ip_def by (metis leD less_irrefl)+
      ultimately show ?thesis using c step split by auto
    qed
  qed
qed

text \<open>Every address belongs to at most one range.\<close>

definition apart :: "FrameInfoRange list \<Rightarrow> bool" where
  "apart rs \<longleftrightarrow> (\<forall>sec ip. length (filter (has_ip sec ip) rs) \<le> 1)"

lemma apart_nth:
  assumes "apart rs" "i < j" "j < length rs"
  shows "\<not> (has_ip sec ip (rs ! i) \<and> has_ip sec ip (rs ! j))"
proof
  assume "has_ip sec ip (rs ! i) \<and> has_ip sec ip (rs ! j)"
  with assms have "{i, j} \<subseteq> {k. k < length rs \<and> has_ip sec ip (rs ! k)}" by auto
  then have "card {i, j} \<le> length (filter (has_ip sec ip) rs)" unfolding length_filter_conv_card by (intro card_mono) simp_all
  with assms show False unfolding apart_def by (metis One_nat_def card_2_iff less_irrefl not_less_eq_eq numeral_2_eq_2 order_trans)
qed

lemma apart_sort: "apart (sort_ranges rs) \<longleftrightarrow> apart rs"
proof -
  have "length (filter P (sort_ranges rs)) = length (filter P rs)" for P
    using arg_cong [OF mset_sort, of "\<lambda>m. size (filter_mset P m)" rs] by (simp flip: size_mset mset_filter)
  then show ?thesis by (simp add: apart_def)
qed

lemma ends_before_sort:
  assumes "list_all range_ok rs" "apart rs"
  shows "sorted_wrt ends_before (sort_ranges rs)"
  unfolding sorted_wrt_iff_nth_less
proof (intro allI impI)
  fix i j assume ij: "i < j" "j < length (sort_ranges rs)"
  let ?x = "sort_ranges rs ! i" and ?y = "sort_ranges rs ! j"
  have ok: "range_ok ?x" "range_ok ?y" using assms(1) ij mset_sort [of rs, THEN mset_eq_setD] nth_mem [of _ "sort_ranges rs"]
    by (simp_all add: list_all_iff)
  have "fi_section ?x < fi_section ?y \<or> fi_section ?x = fi_section ?y \<and> fi_addr ?x \<le> fi_addr ?y"
    using sorted_sort [of rs] ij by (simp add: sorted_wrt_iff_nth_less cmp_le)
  moreover have "\<not> (has_ip (fi_section ?y) (fi_addr ?y) ?x \<and> has_ip (fi_section ?y) (fi_addr ?y) ?y)"
    using apart_nth [OF _ ij] assms(2) by (simp add: apart_sort)
  moreover have "has_ip (fi_section ?y) (fi_addr ?y) ?y" using ok(2) by (simp add: has_ip_unat) (simp add: range_ok_def word_less_nat_alt)
  ultimately show "ends_before ?x ?y" unfolding has_ip_unat [OF ok(1)] ends_before_def word_le_nat_alt by linarith
qed

lemma find_filter: "find P xs = (case filter P xs of [] \<Rightarrow> None | x # _ \<Rightarrow> Some x)"
  by (induction xs) auto

lemma find_sort:
  assumes "apart rs"
  shows "find (has_ip sec ip) (sort_ranges rs) = find (has_ip sec ip) rs"
proof -
  have m: "mset (filter (has_ip sec ip) (sort_ranges rs)) = mset (filter (has_ip sec ip) rs)" by (simp add: mset_sort)
  have "length (filter (has_ip sec ip) rs) \<le> 1" using assms by (simp add: apart_def)
  then have "filter (has_ip sec ip) (sort_ranges rs) = filter (has_ip sec ip) rs"
    using m by (cases "filter (has_ip sec ip) rs") (auto simp del: mset_filter)
  then show ?thesis by (simp only: find_filter)
qed

text \<open>
  C15: the binary search over the sorted index of one section finds the same function description as a
  look at every range of the section in the order they were read, when every address belongs to at most
  one of the ranges: the offset of the description whose range has the address, and nothing when no range has it.
\<close>

theorem frame_search:
  assumes "list_all range_ok rs" "apart rs"
  shows "search_ranges sec ip (sort_ranges rs) 0 (length (sort_ranges rs)) = map_option fi_offset (find (has_ip sec ip) rs)"
proof -
  have "list_all range_ok (sort_ranges rs)" using assms(1) mset_sort [of rs, THEN mset_eq_setD] by (simp add: list_all_iff)
  from search_finds [OF ends_before_sort [OF assms] this order_refl] show ?thesis by (simp add: map_nth find_sort [OF assms(2)])
qed

theorem frame_search_witness:
  "search_ranges 0 0x2010 (sort_ranges [\<lparr>fi_section = 0, fi_addr = 0x2000, fi_size = 0x20, fi_offset = 7\<rparr>, \<lparr>fi_section = 0, fi_addr = 0x1000, fi_size = 0x10, fi_offset = 9\<rparr>])
     0 2 = Some 7"
proof -
  let ?rs = "[\<lparr>fi_section = 0, fi_addr = 0x2000, fi_size = 0x20, fi_offset = 7\<rparr>, \<lparr>fi_section = 0, fi_addr = 0x1000, fi_size = 0x10, fi_offset = 9\<rparr>] :: FrameInfoRange list"
  have "\<not> ((0x2000 :: u64) \<le> ip \<and> ip < 0x1010)" for ip by (auto simp: word_le_nat_alt word_less_nat_alt)
  then have "apart ?rs" by (auto simp: apart_def has_ip_def)
  moreover have "list_all range_ok ?rs" by (simp add: range_ok_def)
  moreover have "map_option fi_offset (find (has_ip 0 0x2010) ?rs) = Some 7" by (simp add: has_ip_def)
  moreover have "length (sort_ranges ?rs) = 2" by (simp add: sort_ranges_def cmp_frame_info_ranges_def)
  ultimately show ?thesis using frame_search [of ?rs 0 "0x2010"] by simp
qed

section \<open>Flaws\<close>

text \<open>A register of the caller that is found by an expression: in memory, at the address that register 7 has, plus 8.\<close>

definition ex_expression :: fr where
  "ex_expression = ex_state\<lparr>fr_rules := ex_rules\<lparr>ru_section := (ru_section ex_rules)\<lparr>es_size := 2, es_data := Inr [0x77, 0x08]\<rparr>\<rparr>\<rparr>"

lemma ex_expression_commands:
  "case generate_register_commands ex_env \<lparr>rr_rule = RULE_EXPRESSION, rr_offset = 2, rr_expression = 0\<rparr> (Some (ex_reg 16)) None ex_expression of
     (r, t) \<Rightarrow> r = Inr () \<and> fr_trace_regs t = [(ex_reg 16, [SFT_CMD_FP, SFT_CMD_RD_REG (ex_reg 7), SFT_CMD_NUMBER 8, SFT_CMD_ADD, SFT_CMD_RD_MEM 8 False])]"
  by code_simp

lemma yields_left_over:
  assumes "lo_frame le = Some f"
  shows "yields le [SFT_CMD_FP, SFT_CMD_RD_REG def, SFT_CMD_NUMBER n, SFT_CMD_ADD, SFT_CMD_RD_MEM 8 be] t
     (bindE (read_reg_value (lo_ops le) (lo_frame le) def t) (\<lambda>v. bindE (memory_value le be (v + n) 8 t) (\<lambda>m. Inr (tg_frame_fp (lo_ops le) f + m))))"
proof (cases "read_reg_value (lo_ops le) (Some f) def t")
  case (Inl e)
  then show ?thesis by (simp add: yields_def evaluate_location_expression_def eval_defs assms)
next
  case (Inr v)
  then show ?thesis
    by (cases "tg_read_mem (lo_ops le) t (v + n) 8")
      (simp_all add: yields_def evaluate_location_expression_def eval_defs rd_mem_def memory_value_def fresh_def assms ret_def)
qed



text \<open>An instruction \<open>DW_CFA_def_cfa_expression\<close> whose length, 0xfffffffa, is negative as the \<open>I4_T\<close> that the rule keeps it in.\<close>

definition ex_hang :: fr where
  "ex_hang = ex_state\<lparr>fr_dio := \<lparr>dio_data = [0x0f, 0xfa, 0xff, 0xff, 0xff, 0x0f], dio_pos = 0, dio_len = 6, dio_big_endian = False, dio_addr_size = 8\<rparr>\<rparr>"

definition ex_hung :: fr where
  "ex_hung = ex_hang\<lparr>fr_frame_regs := clear_frame_registers\<lparr>cfa_rule := RULE_EXPRESSION, cfa_offset := - 6, cfa_expression := 6\<rparr>\<rparr>"

lemma ex_hang_step:
  "exec_stack_frame_instruction ex_env 0 ex_hang = (Inr (), ex_hung)" "exec_stack_frame_instruction ex_env 0 ex_hung = (Inr (), ex_hung)"
  by code_simp+


end
