(* ===== verification/Breakpoints.thy ===== *)
theory Breakpoints
  imports StateExc
begin

text \<open>
  Planting of breakpoints: src/agent/tcf/services/breakpoints.c, the part that keeps break instructions, and the access to target memory that goes
  with it, src/agent/system/GNU/Linux/tcf/context-linux.c on a 64-bit host. A software breakpoint overwrites code of the target; the agent remembers
  the code and shows it to clients as if the breakpoint was not there.

  Structures are known by the address of their memory, a number: \<open>ctx\<close> of a context, \<open>bpa\<close> of a breakpoint, \<open>bia\<close> of a break instruction.
  \<open>bps\<close> has the static variables of breakpoints.c and what the code changes in contexts. The hash table \<open>addr2instr\<close>, which
  only speeds up a search (both lists of an instruction are in the order of creation), is not kept. What the code uses of the contexts, of \<open>ptrace\<close>, of the processor's debug
  registers and of other services is the environment \<open>bp_env\<close>; it does not change while one of the functions runs.

  An error is what \<open>errno\<close> stands for: a code, or a code with the text that \<open>set_errno\<close> gave it. An error report has the same data, and reports
  are compared by it.
\<close>

unbundle bit_operations_syntax

section \<open>Data\<close>

type_synonym ctx = nat
type_synonym bpa = nat
type_synonym bia = nat

datatype errno = Posix int | Tcf tcf_error | Message tcf_error string

abbreviation (input) "ESRCH \<equiv> Posix 3"
abbreviation (input) "EFAULT \<equiv> Posix 14"

fun get_error_code :: "errno \<Rightarrow> tcf_error option" where
  "get_error_code (Posix n) = None"
| "get_error_code (Tcf e) = Some e"
| "get_error_code (Message e m) = Some e"

record BreakpointInfo =
  bp_type :: "string option"
  bp_location :: "string option"
  bp_file :: "string option"
  bp_line_offs_check :: bool
  bp_access_mode :: u32
  bp_instruction_cnt :: int
  bp_error :: "errno option"
  bp_attrs_changed :: bool
  bp_status_changed :: bool
  bp_hit_count :: "(ctx \<times> u32) list"

record InstructionRef =
  ref_bp :: bpa
  ref_ctx :: ctx
  ref_addr :: u64
  ref_cnt :: u32
  ref_line_offs_error :: bool

text \<open>\<open>bi_refs\<close> has the \<open>ref_cnt\<close> elements of the array \<open>refs\<close>; \<open>bi_bp_encoding\<close> has \<open>bp_size\<close> bytes.\<close>

record BreakInstruction =
  cb_ctx :: ctx
  cb_address :: u64
  cb_length :: u64
  cb_access_types :: u32
  bi_saved_code :: "byte list"
  bi_planted_code :: "byte list"
  bi_saved_size :: nat
  bi_planting_error :: "errno option"
  bi_address_error :: "errno option"
  bi_ph_address_error :: "errno option"
  bi_stepping_over_bp :: int
  bi_refs :: "InstructionRef list"
  bi_no_addr :: bool
  bi_virtual_addr :: bool
  bi_hardware :: bool
  bi_valid :: bool
  bi_planted :: bool
  bi_dirty :: bool
  bi_unsupported :: bool
  bi_planted_as_sw_bp :: bool
  bi_isa_conflict :: bool
  bi_bp_encoding :: "byte list option"
  bi_ph_ctx :: "ctx option"
  bi_ph_addr :: u64

definition MAX_BI_SIZE :: nat where "MAX_BI_SIZE = 16"

abbreviation (input) "CTX_BP_ACCESS_INSTRUCTION \<equiv> (0x04 :: u32)"
abbreviation (input) "CTX_BP_ACCESS_VIRTUAL \<equiv> (0x10 :: u32)"
abbreviation (input) "CTX_BP_ACCESS_SOFTWARE \<equiv> (0x20 :: u32)"
abbreviation (input) "CTX_BP_ACCESS_NO_ADDRESS \<equiv> (0x40 :: u32)"

text \<open>\<open>MemoryErrorInfo\<close> of context-linux.c: the error, the number of valid bytes and of those that cannot be accessed.\<close>

record 't bps =
  bs_target :: 't
  bs_bp :: "bpa \<Rightarrow> BreakpointInfo"
  bs_bi :: "bia \<Rightarrow> BreakInstruction"
  bs_instructions :: "bia list"
  bs_next :: bia
  bs_ctx_instruction_cnt :: "ctx \<Rightarrow> int"
  bs_ctx_refs :: "ctx \<Rightarrow> int"
  bs_disposing :: "ctx list"
  bs_stopped_by_cb :: "ctx \<Rightarrow> bia list"
  bs_planting_instruction :: bool
  bs_planted_sw_bp_cnt :: int
  bs_mem_err_info :: "(errno \<times> u64 \<times> u64) option"

text \<open>
  \<open>ev_peek\<close> and \<open>ev_poke\<close> are \<open>PTRACE_PEEKDATA\<close> and \<open>PTRACE_POKEDATA\<close>: a word of eight bytes of the memory of a process, given by a thread of it.
  \<open>ev_plant\<close> and \<open>ev_unplant\<close> are \<open>context_plant_breakpoint\<close> and \<open>context_unplant_breakpoint\<close>, with context, address, length and access types;
  \<open>ev_canonical\<close> is \<open>context_get_canonical_addr\<close>, with context, address, block address and block size. \<open>ev_line_ok\<close> tells whether
  \<open>address_to_line\<close> finds the line of a breakpoint. \<open>ev_isa\<close> is \<open>context_get_isa\<close> for a client (\<open>None\<close>: the default), which may give the
  encoding of the break instruction, and whether the instruction set has a name.
\<close>

record 't bp_env =
  ev_exited :: "ctx \<Rightarrow> bool"
  ev_exiting :: "ctx \<Rightarrow> bool"
  ev_all_stopped :: "ctx \<Rightarrow> bool"
  ev_process :: "ctx \<Rightarrow> ctx"
  ev_mem :: "ctx \<Rightarrow> ctx"
  ev_parent :: "ctx \<Rightarrow> ctx option"
  ev_children :: "ctx \<Rightarrow> ctx list"
  ev_pid :: "ctx \<Rightarrow> int"
  ev_process_state :: "int \<Rightarrow> char"
  ev_canonical :: "ctx \<Rightarrow> u64 \<Rightarrow> errno + ctx \<times> u64 \<times> u64 \<times> u64"
  ev_peek :: "'t \<Rightarrow> int \<Rightarrow> u64 \<Rightarrow> errno + byte list"
  ev_poke :: "'t \<Rightarrow> int \<Rightarrow> u64 \<Rightarrow> byte list \<Rightarrow> errno + 't"
  ev_plant :: "'t \<Rightarrow> bia \<Rightarrow> ctx \<times> u64 \<times> u64 \<times> u32 \<Rightarrow> errno option \<times> 't"
  ev_unplant :: "'t \<Rightarrow> bia \<Rightarrow> ctx \<times> u64 \<times> u64 \<times> u32 \<Rightarrow> errno option \<times> 't"
  ev_line_ok :: "BreakpointInfo \<Rightarrow> ctx \<Rightarrow> u64 \<Rightarrow> bool"
  ev_channels :: "nat list"
  ev_isa :: "nat option \<Rightarrow> ctx \<Rightarrow> u64 \<Rightarrow> (bool \<times> byte list) option"
  ev_break_instruction :: "ctx \<Rightarrow> byte list option"

type_synonym ('t, 'a) bm = "('t bps, 'a) sx"

definition get_bi :: "bia \<Rightarrow> ('t, BreakInstruction) bm" where
  "get_bi i = getP (\<lambda>s. bs_bi s i)"

definition set_bi :: "bia \<Rightarrow> (BreakInstruction \<Rightarrow> BreakInstruction) \<Rightarrow> ('t, unit) bm" where
  "set_bi i f = modP (\<lambda>s. s\<lparr>bs_bi := (bs_bi s)(i := f (bs_bi s i))\<rparr>)"

definition set_bp :: "bpa \<Rightarrow> (BreakpointInfo \<Rightarrow> BreakpointInfo) \<Rightarrow> ('t, unit) bm" where
  "set_bp b f = modP (\<lambda>s. s\<lparr>bs_bp := (bs_bp s)(b := f (bs_bp s b))\<rparr>)"

text \<open>References to contexts are counted (context.c). For a context that is not used any more \<open>dispose_ctx\<close> is posted; \<open>bs_disposing\<close> has these contexts.\<close>

definition context_lock :: "ctx \<Rightarrow> ('t, unit) bm" where
  "context_lock c =
     bindP (getP (\<lambda>s. bs_ctx_refs s c)) (\<lambda>n.
     bindP (asserts (n > 0)) (\<lambda>_.
     modP (\<lambda>s. s\<lparr>bs_ctx_refs := (bs_ctx_refs s)(c := n + 1)\<rparr>)))"

definition context_unlock :: "'t bp_env \<Rightarrow> ctx \<Rightarrow> ('t, unit) bm" where
  "context_unlock env c =
     bindP (getP (\<lambda>s. bs_ctx_refs s c)) (\<lambda>n.
     bindP (asserts (n > 0)) (\<lambda>_.
     bindP (modP (\<lambda>s. s\<lparr>bs_ctx_refs := (bs_ctx_refs s)(c := n - 1)\<rparr>)) (\<lambda>_.
       if n - 1 = 0
       then bindP (asserts (ev_exited env c)) (\<lambda>_. modP (\<lambda>s. s\<lparr>bs_disposing := bs_disposing s @ [c]\<rparr>))
       else ret ())))"

section \<open>Break instructions are hidden from clients\<close>

text \<open>The bytes of an instruction that are in the part of a buffer that is for \<open>sz\<close> bytes of memory at \<open>addr\<close>: index in the instruction, index in the buffer.\<close>

definition common_bytes :: "BreakInstruction \<Rightarrow> ctx \<Rightarrow> u64 \<Rightarrow> u64 \<Rightarrow> (nat \<times> nat) list" where
  "common_bytes bi mem addr sz =
     (if \<not> bi_planted bi \<or> bi_saved_size bi = 0 \<or> cb_ctx bi \<noteq> mem \<or> cb_address bi + of_nat (bi_saved_size bi) \<le> addr \<or> cb_address bi \<ge> addr + sz
      then []
      else
        map (\<lambda>i. (i, unat (cb_address bi + of_nat i - addr)))
          (filter (\<lambda>i. \<not> cb_address bi + of_nat i < addr \<and> \<not> cb_address bi + of_nat i \<ge> addr + sz) [0..<bi_saved_size bi]))"

definition put_saved :: "BreakInstruction \<Rightarrow> ctx \<Rightarrow> u64 \<Rightarrow> u64 \<Rightarrow> byte list \<Rightarrow> byte list" where
  "put_saved bi mem addr sz buf = fold (\<lambda>(i, k) b. b[k := bi_saved_code bi ! i]) (common_bytes bi mem addr sz) buf"

definition take_written :: "ctx \<Rightarrow> u64 \<Rightarrow> u64 \<Rightarrow> BreakInstruction \<times> byte list \<Rightarrow> BreakInstruction \<times> byte list" where
  "take_written mem addr sz x =
     fold (\<lambda>(i, k) (bi, b). (bi\<lparr>bi_saved_code := (bi_saved_code bi)[i := b ! k]\<rparr>, b[k := bi_planted_code bi ! i])) (common_bytes (fst x) mem addr sz) x"

text \<open>How much of the memory is in one block: all that is left when no software breakpoint is planted.\<close>

definition sw_planted :: "'t bps \<Rightarrow> bia \<Rightarrow> bool" where
  "sw_planted s i \<longleftrightarrow> bi_planted (bs_bi s i) \<and> bi_saved_size (bs_bi s i) \<noteq> 0"

definition next_block :: "'t bp_env \<Rightarrow> ctx \<Rightarrow> u64 \<Rightarrow> u64 \<Rightarrow> errno + ctx \<times> u64 \<times> u64" where
  "next_block env c addr sz =
     bindE (ev_canonical env c addr) (\<lambda>(mem, mem_addr, mem_base, mem_size).
       Inr (mem, mem_addr, if mem_base + mem_size - mem_addr < sz then mem_base + mem_size - mem_addr else sz))"

text \<open>\<open>check_breakpoints_on_memory_read\<close>: a block of size 0 makes the loop run forever.\<close>

function check_read_loop :: "'t bp_env \<Rightarrow> ctx \<Rightarrow> u64 \<Rightarrow> byte list \<Rightarrow> ('t, errno option \<times> byte list) bm" where
  "check_read_loop env c addr buf s =
     (if buf = [] then (Inr (None, []), s)
      else if \<not> list_ex (sw_planted s) (bs_instructions s) then (Inr (None, buf), s)
      else
        (case next_block env c addr (of_nat (length buf)) of
           Inl e \<Rightarrow> (Inr (Some e, buf), s)
         | Inr (mem, mem_addr, sz) \<Rightarrow>
             if sz = 0 then (Inl Hangs, s)
             else
               (let b = fold (\<lambda>i b. put_saved (bs_bi s i) mem mem_addr sz b) (bs_instructions s) (take (unat sz) buf)
                in bindP (check_read_loop env c (addr + sz) (drop (unat sz) buf)) (\<lambda>(e, r). ret (e, b @ r)) s)))"
  by pat_completeness auto
termination
  by (relation "measure (\<lambda>(env, c, addr, buf, s). length buf)") (auto simp: word_greater_zero_iff unat_gt_0)

definition check_breakpoints_on_memory_read :: "'t bp_env \<Rightarrow> ctx \<Rightarrow> u64 \<Rightarrow> byte list \<Rightarrow> ('t, errno option \<times> byte list) bm" where
  "check_breakpoints_on_memory_read env c addr buf =
     bindP (getP bs_planting_instruction) (\<lambda>p. if p then ret (None, buf) else check_read_loop env c addr buf)"

definition write_block :: "ctx \<Rightarrow> u64 \<Rightarrow> u64 \<Rightarrow> bia list \<Rightarrow> byte list \<times> (bia \<Rightarrow> BreakInstruction) \<Rightarrow> byte list \<times> (bia \<Rightarrow> BreakInstruction)" where
  "write_block mem addr sz is x = fold (\<lambda>i (b, h). let (bi, b1) = take_written mem addr sz (h i, b) in (b1, h(i := bi))) is x"

function check_write_loop :: "'t bp_env \<Rightarrow> ctx \<Rightarrow> u64 \<Rightarrow> byte list \<Rightarrow> ('t, errno option \<times> byte list) bm" where
  "check_write_loop env c addr buf s =
     (if buf = [] then (Inr (None, []), s)
      else if \<not> list_ex (sw_planted s) (bs_instructions s) then (Inr (None, buf), s)
      else
        (case next_block env c addr (of_nat (length buf)) of
           Inl e \<Rightarrow> (Inr (Some e, buf), s)
         | Inr (mem, mem_addr, sz) \<Rightarrow>
             if sz = 0 then (Inl Hangs, s)
             else
               (let (b, h) = write_block mem mem_addr sz (bs_instructions s) (take (unat sz) buf, bs_bi s)
                in bindP (check_write_loop env c (addr + sz) (drop (unat sz) buf)) (\<lambda>(e, r). ret (e, b @ r)) (s\<lparr>bs_bi := h\<rparr>))))"
  by pat_completeness auto
termination
  by (relation "measure (\<lambda>(env, c, addr, buf, s). length buf)") (auto simp: word_greater_zero_iff unat_gt_0)

definition check_breakpoints_on_memory_write :: "'t bp_env \<Rightarrow> ctx \<Rightarrow> u64 \<Rightarrow> byte list \<Rightarrow> ('t, errno option \<times> byte list) bm" where
  "check_breakpoints_on_memory_write env c addr buf =
     bindP (getP bs_planting_instruction) (\<lambda>p. if p then ret (None, buf) else check_write_loop env c addr buf)"

declare check_read_loop.simps [simp del] check_write_loop.simps [simp del]

section \<open>Target memory\<close>

text \<open>
  The loops over the words of \<open>address\<close> up to \<open>fin\<close>; the result has the word whose access failed. A word that is not in the range as a whole is copied byte by
  byte. Behind the last word of the address space the address wraps around, so the loops may run on.
  A write leaves its buffer with the code of the breakpoints in it (memoryservice.c gives it a copy for this reason); the buffer is not part of the result.
\<close>

definition word_bytes :: "u64 \<Rightarrow> u64 \<Rightarrow> u64 \<Rightarrow> (nat \<times> nat) list" where
  "word_bytes address fin w = map (\<lambda>i. (i, unat (w + of_nat i - address))) (filter (\<lambda>i. w + of_nat i \<ge> address \<and> w + of_nat i < fin) [0..<8])"

definition get_word :: "u64 \<Rightarrow> u64 \<Rightarrow> u64 \<Rightarrow> byte list \<Rightarrow> byte list \<Rightarrow> fault + byte list" where
  "get_word address fin w word buf =
     (if w < address \<or> w + 8 > fin then Inr (fold (\<lambda>(i, k) b. b[k := word ! i]) (word_bytes address fin w) buf)
      else if unat (w - address) + 8 > length buf then Inl OutOfBounds
      else Inr (take (unat (w - address)) buf @ word @ drop (unat (w - address) + 8) buf))"

partial_function (option) peek_words :: "'t bp_env \<Rightarrow> 't \<Rightarrow> int \<Rightarrow> u64 \<Rightarrow> u64 \<Rightarrow> u64 \<Rightarrow> byte list \<Rightarrow> (fault + (errno \<times> u64) option \<times> byte list) option" where
  "peek_words env t pid address fin w buf =
     (if w < fin
      then (case ev_peek env t pid w of
              Inl e \<Rightarrow> Some (Inr (Some (e, w), buf))
            | Inr word \<Rightarrow> (case get_word address fin w word buf of Inl f \<Rightarrow> Some (Inl f) | Inr b \<Rightarrow> peek_words env t pid address fin (w + 8) b))
      else Some (Inr (None, buf)))"

definition new_word :: "'t bp_env \<Rightarrow> 't \<Rightarrow> int \<Rightarrow> u64 \<Rightarrow> u64 \<Rightarrow> u64 \<Rightarrow> byte list \<Rightarrow> fault + errno + byte list" where
  "new_word env t pid address fin w buf =
     (if w < address \<or> w + 8 > fin
      then (case ev_peek env t pid w of
              Inl e \<Rightarrow> Inr (Inl e)
            | Inr word \<Rightarrow> Inr (Inr (fold (\<lambda>(i, k) x. x[i := buf ! k]) (word_bytes address fin w) word)))
      else if unat (w - address) + 8 > length buf then Inl OutOfBounds
      else Inr (Inr (take 8 (drop (unat (w - address)) buf))))"

partial_function (option) poke_words :: "'t bp_env \<Rightarrow> int \<Rightarrow> u64 \<Rightarrow> u64 \<Rightarrow> byte list \<Rightarrow> u64 \<Rightarrow> 't \<Rightarrow> ((fault + (errno \<times> u64) option) \<times> 't) option" where
  "poke_words env pid address fin buf w t =
     (if w < fin
      then (case new_word env t pid address fin w buf of
              Inl f \<Rightarrow> Some (Inl f, t)
            | Inr (Inl e) \<Rightarrow> Some (Inr (Some (e, w)), t)
            | Inr (Inr word) \<Rightarrow> (case ev_poke env t pid w word of Inl e \<Rightarrow> Some (Inr (Some (e, w)), t) | Inr t1 \<Rightarrow> poke_words env pid address fin buf (w + 8) t1))
      else Some (Inr None, t))"

declare peek_words.simps [code] poke_words.simps [code]

text \<open>How many bytes behind \<open>w\<close> cannot be accessed, for the extended error report.\<close>

function error_size :: "'t bp_env \<Rightarrow> 't \<Rightarrow> int \<Rightarrow> errno \<Rightarrow> u64 \<Rightarrow> u64 \<Rightarrow> u64 \<Rightarrow> nat \<Rightarrow> u64" where
  "error_size env t pid e w valid sz n =
     (if n < 0x1000 \<and> valid + of_nat n < sz \<and> ev_peek env t pid (w + of_nat n) = Inl e then error_size env t pid e w valid sz (n + 8) else of_nat n)"
  by pat_completeness auto
termination
  by (relation "measure (\<lambda>(env, t, pid, e, w, valid, sz, n). 0x1000 - n)") auto

declare error_size.simps [simp del]

definition set_mem_err :: "'t bp_env \<Rightarrow> ctx \<Rightarrow> errno \<Rightarrow> u64 \<Rightarrow> u64 \<Rightarrow> u64 \<Rightarrow> ('t, unit) bm" where
  "set_mem_err env c e w valid sz = modP (\<lambda>s. s\<lparr>bs_mem_err_info := Some (e, valid, error_size env (bs_target s) (ev_pid env c) e w valid sz 8)\<rparr>)"

text \<open>Another thread of a process whose main thread is a zombie.\<close>

definition other_thread :: "'t bp_env \<Rightarrow> ctx \<Rightarrow> ctx option" where
  "other_thread env c = find (\<lambda>x. \<not> ev_exited env x \<and> ev_pid env x \<noteq> ev_pid env c \<and> ev_process_state env (ev_pid env x) = CHR ''t'') (ev_children env c)"

definition children_ok :: "'t bp_env \<Rightarrow> ctx \<Rightarrow> bool" where
  "children_ok env c \<longleftrightarrow>
     list_all (\<lambda>x. ev_parent env x = Some c)
       (case other_thread env c of None \<Rightarrow> ev_children env c | Some y \<Rightarrow> takeWhile (\<lambda>x. x \<noteq> y) (ev_children env c) @ [y])"

definition word_start :: "u64 \<Rightarrow> u64" where
  "word_start a = a AND NOT 7"

definition retry_in :: "'t bp_env \<Rightarrow> ctx \<Rightarrow> (errno \<times> u64) option \<Rightarrow> ctx option" where
  "retry_in env c err = (if map_option fst err = Some ESRCH \<and> c = ev_mem env c then other_thread env c else None)"

definition retry_asserts :: "'t bp_env \<Rightarrow> ctx \<Rightarrow> (errno \<times> u64) option \<Rightarrow> bool" where
  "retry_asserts env c err \<longleftrightarrow> (map_option fst err = Some ESRCH \<and> c = ev_mem env c \<longrightarrow> children_ok env c)"

definition valid_size :: "u64 \<Rightarrow> u64 \<Rightarrow> (errno \<times> u64) option \<Rightarrow> u64" where
  "valid_size address sz err =
     (case err of None \<Rightarrow> sz | Some (e, w) \<Rightarrow> if w > address then (if w - address > sz then sz else w - address) else 0)"

definition read_done :: "'t bp_env \<Rightarrow> ctx \<Rightarrow> u64 \<Rightarrow> (errno \<times> u64) option \<Rightarrow> byte list \<Rightarrow> ('t, errno option \<times> byte list) bm" where
  "read_done env c address err buf =
     (let sz = of_nat (length buf); valid = valid_size address sz err in
      bindP (check_breakpoints_on_memory_read env c address (take (unat valid) buf)) (\<lambda>(e, b).
      if e \<noteq> None then ret (e, b @ drop (unat valid) buf)
      else
        bindP (case err of None \<Rightarrow> ret () | Some (e, w) \<Rightarrow> set_mem_err env c e w valid sz) (\<lambda>_.
        ret (map_option fst err, b @ drop (unat valid) buf))))"

partial_function (option) read_mem_in :: "'t bp_env \<Rightarrow> ctx \<Rightarrow> u64 \<Rightarrow> byte list \<Rightarrow> 't bps \<Rightarrow> ((fault + errno option \<times> byte list) \<times> 't bps) option" where
  "read_mem_in env c address buf s =
     (if ev_exited env c then Some (Inl AssertFailed, s)
      else if buf = [] then Some (Inr (None, []), s\<lparr>bs_mem_err_info := None\<rparr>)
      else if address + of_nat (length buf) < address then Some (Inr (Some EFAULT, buf), s\<lparr>bs_mem_err_info := None\<rparr>)
      else
        (case peek_words env (bs_target s) (ev_pid env c) address (address + of_nat (length buf)) (word_start address) buf of
           None \<Rightarrow> Some (Inl Hangs, s\<lparr>bs_mem_err_info := None\<rparr>)
         | Some (Inl f) \<Rightarrow> Some (Inl f, s\<lparr>bs_mem_err_info := None\<rparr>)
         | Some (Inr (err, b)) \<Rightarrow>
             if \<not> retry_asserts env c err then Some (Inl AssertFailed, s\<lparr>bs_mem_err_info := None\<rparr>)
             else (case retry_in env c err of
                     Some x \<Rightarrow> read_mem_in env x address b (s\<lparr>bs_mem_err_info := None\<rparr>)
                   | None \<Rightarrow> Some (read_done env c address err b (s\<lparr>bs_mem_err_info := None\<rparr>)))))"

definition context_read_mem :: "'t bp_env \<Rightarrow> ctx \<Rightarrow> u64 \<Rightarrow> byte list \<Rightarrow> ('t, errno option \<times> byte list) bm" where
  "context_read_mem env c address buf s = (case read_mem_in env c address buf s of None \<Rightarrow> (Inl Hangs, s) | Some r \<Rightarrow> r)"

definition write_done :: "'t bp_env \<Rightarrow> ctx \<Rightarrow> u64 \<Rightarrow> u64 \<Rightarrow> (errno \<times> u64) option \<Rightarrow> ('t, errno option) bm" where
  "write_done env c address sz err =
     (case err of
        None \<Rightarrow> ret None
      | Some (e, w) \<Rightarrow> bindP (set_mem_err env c e w (if w > address then w - address else 0) sz) (\<lambda>_. ret (Some e)))"

partial_function (option) write_mem_in :: "'t bp_env \<Rightarrow> ctx \<Rightarrow> u64 \<Rightarrow> byte list \<Rightarrow> 't bps \<Rightarrow> ((fault + errno option) \<times> 't bps) option" where
  "write_mem_in env c address buf s =
     (if ev_exited env c then Some (Inl AssertFailed, s)
      else if buf = [] then Some (Inr None, s\<lparr>bs_mem_err_info := None\<rparr>)
      else if address + of_nat (length buf) < address then Some (Inr (Some EFAULT), s\<lparr>bs_mem_err_info := None\<rparr>)
      else
        (case check_breakpoints_on_memory_write env c address buf (s\<lparr>bs_mem_err_info := None\<rparr>) of
           (Inl f, s1) \<Rightarrow> Some (Inl f, s1)
         | (Inr (Some e, b), s1) \<Rightarrow> Some (Inr (Some e), s1)
         | (Inr (None, b), s1) \<Rightarrow>
             (case poke_words env (ev_pid env c) address (address + of_nat (length buf)) b (word_start address) (bs_target s1) of
                None \<Rightarrow> Some (Inl Hangs, s1)
              | Some (Inl f, t) \<Rightarrow> Some (Inl f, s1\<lparr>bs_target := t\<rparr>)
              | Some (Inr err, t) \<Rightarrow>
                  if \<not> retry_asserts env c err then Some (Inl AssertFailed, s1\<lparr>bs_target := t\<rparr>)
                  else (case retry_in env c err of
                          None \<Rightarrow> Some (write_done env c address (of_nat (length buf)) err (s1\<lparr>bs_target := t\<rparr>))
                        | Some x \<Rightarrow>
                            (case check_breakpoints_on_memory_read env c address b (s1\<lparr>bs_target := t\<rparr>) of
                               (Inl f, s2) \<Rightarrow> Some (Inl f, s2)
                             | (Inr (Some e, b2), s2) \<Rightarrow> Some (Inr (Some e), s2)
                             | (Inr (None, b2), s2) \<Rightarrow> write_mem_in env x address b2 s2)))))"

definition context_write_mem :: "'t bp_env \<Rightarrow> ctx \<Rightarrow> u64 \<Rightarrow> byte list \<Rightarrow> ('t, errno option) bm" where
  "context_write_mem env c address buf s = (case write_mem_in env c address buf s of None \<Rightarrow> (Inl Hangs, s) | Some r \<Rightarrow> r)"

declare read_mem_in.simps [code] write_mem_in.simps [code]

text \<open>The mapping of addresses on Linux: each process has its own memory, at the addresses it uses.\<close>

definition linux_canonical :: "(ctx \<Rightarrow> ctx) \<Rightarrow> ctx \<Rightarrow> u64 \<Rightarrow> errno + ctx \<times> u64 \<times> u64 \<times> u64" where
  "linux_canonical mem c addr = Inr (mem c, addr, addr AND NOT 0xfffff, 0x100000)"

section \<open>Planting and removing\<close>

definition new_bi :: BreakInstruction where
  "new_bi = \<lparr>cb_ctx = 0, cb_address = 0, cb_length = 0, cb_access_types = 0, bi_saved_code = replicate MAX_BI_SIZE 0, bi_planted_code = replicate MAX_BI_SIZE 0,
     bi_saved_size = 0, bi_planting_error = None, bi_address_error = None, bi_ph_address_error = None, bi_stepping_over_bp = 0, bi_refs = [], bi_no_addr = False,
     bi_virtual_addr = False, bi_hardware = False, bi_valid = False, bi_planted = False, bi_dirty = False, bi_unsupported = False, bi_planted_as_sw_bp = False,
     bi_isa_conflict = False, bi_bp_encoding = None, bi_ph_ctx = None, bi_ph_addr = 0\<rparr>"

definition get_bp_access_types :: "BreakpointInfo \<Rightarrow> bool \<Rightarrow> u32" where
  "get_bp_access_types bp virtual_addr =
     (let a = bp_access_mode bp;
          b = (if a = 0 \<and> (bp_file bp \<noteq> None \<or> bp_location bp \<noteq> None) then a OR CTX_BP_ACCESS_INSTRUCTION else a);
          c = (if virtual_addr \<and> bp_type bp = Some ''Software'' then b OR CTX_BP_ACCESS_SOFTWARE else b)
      in if virtual_addr then c OR CTX_BP_ACCESS_VIRTUAL else c)"

text \<open>\<open>select_sw_breakpoint_isa\<close>: the encoding that all instructions with this canonical address agree on.\<close>

fun select_sw_breakpoint_isa :: "ctx \<Rightarrow> u64 \<Rightarrow> BreakInstruction list \<Rightarrow> byte list option \<Rightarrow> errno + byte list option" where
  "select_sw_breakpoint_isa c a [] encoding = Inr encoding"
| "select_sw_breakpoint_isa c a (bi # bis) encoding =
     (if bi_ph_ctx bi = Some c \<and> bi_ph_addr bi = a
      then
        if bi_isa_conflict bi \<or> (encoding \<noteq> None \<and> bi_bp_encoding bi \<noteq> None \<and> encoding \<noteq> bi_bp_encoding bi)
        then Inl (Message ERR_OTHER ''Conflicting software breakpoint in shared memory'')
        else select_sw_breakpoint_isa c a bis (if encoding = None then bi_bp_encoding bi else encoding)
      else select_sw_breakpoint_isa c a bis encoding)"

definition set_planting :: "bool \<Rightarrow> ('t, unit) bm" where
  "set_planting b = modP (\<lambda>s. s\<lparr>bs_planting_instruction := b\<rparr>)"

definition add_sw_bp_cnt :: "int \<Rightarrow> ('t, unit) bm" where
  "add_sw_bp_cnt n = modP (\<lambda>s. s\<lparr>bs_planted_sw_bp_cnt := bs_planted_sw_bp_cnt s + n\<rparr>)"

definition no_code :: "BreakInstruction \<Rightarrow> bool" where
  "no_code bi \<longleftrightarrow> bi_virtual_addr bi \<and> cb_access_types bi AND CTX_BP_ACCESS_INSTRUCTION \<noteq> 0 \<and>
     \<not> list_ex (\<lambda>r. ref_cnt r > 0 \<and> \<not> ref_line_offs_error r) (bi_refs bi)"

definition plant_in_context :: "'t bp_env \<Rightarrow> bia \<Rightarrow> ('t, errno option) bm" where
  "plant_in_context env i =
     bindP (get_bi i) (\<lambda>bi.
     bindP (getP (\<lambda>s. ev_plant env (bs_target s) i (cb_ctx bi, cb_address bi, cb_length bi, cb_access_types bi))) (\<lambda>(err, t).
     bindP (modP (bs_target_update (\<lambda>_. t))) (\<lambda>_.
     bindP (set_bi i (bi_unsupported_update (\<lambda>_. Option.bind err get_error_code = Some ERR_UNSUPPORTED))) (\<lambda>_.
     ret err))))"

text \<open>The code of the target is saved and overwritten.\<close>

definition plant_code :: "'t bp_env \<Rightarrow> bia \<Rightarrow> byte list \<Rightarrow> ('t, errno option) bm" where
  "plant_code env i encoding =
     (let n = length encoding in
      bindP (set_bi i (bi_saved_size_update (\<lambda>_. n))) (\<lambda>_.
      bindP (asserts (0 < n \<and> n \<le> MAX_BI_SIZE)) (\<lambda>_.
      bindP (set_planting True) (\<lambda>_.
      bindP (set_bi i (bi_planted_code_update (\<lambda>p. encoding @ drop n p))) (\<lambda>_.
      bindP (get_bi i) (\<lambda>bi.
      bindP (context_read_mem env (cb_ctx bi) (cb_address bi) (take n (bi_saved_code bi))) (\<lambda>(e, b).
      bindP (set_bi i (bi_saved_code_update (\<lambda>c. b @ drop n c))) (\<lambda>_.
      bindP (if e \<noteq> None then ret e else context_write_mem env (cb_ctx bi) (cb_address bi) (take n (bi_planted_code bi))) (\<lambda>err.
      bindP (set_planting False) (\<lambda>_.
      ret err))))))))))"

definition plant_software :: "'t bp_env \<Rightarrow> bia \<Rightarrow> ('t, errno option) bm" where
  "plant_software env i =
     bindP (get_bi i) (\<lambda>bi.
     bindP (getP bs_instructions) (\<lambda>is.
     bindP (asserts (i \<in> set is)) (\<lambda>_.
     bindP (getP (\<lambda>s. select_sw_breakpoint_isa (cb_ctx bi) (cb_address bi) (map (bs_bi s) is) None)) (\<lambda>r.
       case r of
         Inl e \<Rightarrow> ret (Some e)
       | Inr None \<Rightarrow> ret (Some (Message ERR_OTHER ''Cannot find instruction opcode for software breakpoint''))
       | Inr (Some encoding) \<Rightarrow> plant_code env i encoding))))"

definition status_changed :: "bia \<Rightarrow> ('t, unit) bm" where
  "status_changed i = bindP (get_bi i) (\<lambda>bi. for_each (\<lambda>r. set_bp (ref_bp r) (bp_status_changed_update (\<lambda>_. True))) (bi_refs bi))"

definition end_planting :: "bia \<Rightarrow> nat \<Rightarrow> errno option \<Rightarrow> ('t, unit) bm" where
  "end_planting i saved_size err =
     bindP (get_bi i) (\<lambda>bi.
     bindP (if saved_size \<noteq> bi_saved_size bi \<or> bi_planting_error bi \<noteq> err
            then bindP (set_bi i (bi_planting_error_update (\<lambda>_. err))) (\<lambda>_. status_changed i)
            else ret ()) (\<lambda>_.
     bindP (set_bi i (bi_planted_update (\<lambda>_. err = None))) (\<lambda>_.
     if err = None \<and> \<not> bi_virtual_addr bi then add_sw_bp_cnt 1 else ret ())))"

definition can_plant :: "'t bp_env \<Rightarrow> BreakInstruction \<Rightarrow> bool" where
  "can_plant env bi \<longleftrightarrow> bi_stepping_over_bp bi = 0 \<and> \<not> bi_planted bi \<and> \<not> bi_dirty bi \<and> \<not> ev_exited env (cb_ctx bi) \<and> \<not> ev_exiting env (cb_ctx bi) \<and>
     bi_valid bi \<and> bi_refs bi \<noteq> [] \<and> bi_address_error bi = None \<and> ev_all_stopped env (cb_ctx bi)"

definition plant_instruction :: "'t bp_env \<Rightarrow> bia \<Rightarrow> ('t, unit) bm" where
  "plant_instruction env i =
     bindP (get_bi i) (\<lambda>bi.
     bindP (asserts (can_plant env bi)) (\<lambda>_.
     bindP (set_bi i (\<lambda>b. b\<lparr>bi_saved_size := 0, bi_unsupported := False\<rparr>)) (\<lambda>_.
     bindP (if no_code bi then ret (Some (Message ERR_OTHER ''No code at requested breakpoint position'')) else plant_in_context env i) (\<lambda>err.
     bindP (get_bi i) (\<lambda>b.
     bindP (if bi_unsupported b \<and> \<not> bi_virtual_addr b \<and> \<not> bi_hardware b then plant_software env i
            else if err = Some (Tcf ERR_UNSUPPORTED)
            then ret (Some (case bi_ph_address_error b of Some e \<Rightarrow> e | None \<Rightarrow> Message ERR_OTHER ''Unsupported set of breakpoint attributes''))
            else ret err) (\<lambda>err2.
     end_planting i (bi_saved_size bi) err2))))))"

text \<open>The code is put back unless the target has changed it.\<close>

definition restore_code :: "'t bp_env \<Rightarrow> BreakInstruction \<Rightarrow> ('t, errno option) bm" where
  "restore_code env bi =
     (let n = bi_saved_size bi in
      bindP (set_planting True) (\<lambda>_.
      bindP (context_read_mem env (cb_ctx bi) (cb_address bi) (replicate n 0)) (\<lambda>(e, b).
      bindP (if e = None \<and> b = take n (bi_planted_code bi) then context_write_mem env (cb_ctx bi) (cb_address bi) (take n (bi_saved_code bi)) else ret e) (\<lambda>err.
      bindP (set_planting False) (\<lambda>_. ret err)))))"

definition unplant_in_context :: "'t bp_env \<Rightarrow> bia \<Rightarrow> BreakInstruction \<Rightarrow> ('t, errno option) bm" where
  "unplant_in_context env i bi =
     bindP (getP (\<lambda>s. ev_unplant env (bs_target s) i (cb_ctx bi, cb_address bi, cb_length bi, cb_access_types bi))) (\<lambda>(err, t).
     bindP (modP (bs_target_update (\<lambda>_. t))) (\<lambda>_.
     bindP (if err = None
            then modP (\<lambda>s. s\<lparr>bs_stopped_by_cb := (bs_stopped_by_cb s)(cb_ctx bi := remove1 i (bs_stopped_by_cb s (cb_ctx bi)))\<rparr>)
            else ret ()) (\<lambda>_. ret err)))"

definition remove_instruction :: "'t bp_env \<Rightarrow> bia \<Rightarrow> ('t, errno option) bm" where
  "remove_instruction env i =
     bindP (get_bi i) (\<lambda>bi.
     bindP (asserts (bi_planted bi \<and> bi_planting_error bi = None \<and> bi_address_error bi = None \<and> ev_all_stopped env (cb_ctx bi))) (\<lambda>_.
     bindP (if bi_saved_size bi = 0 then unplant_in_context env i bi
            else if ev_exited env (cb_ctx bi) then ret None else restore_code env bi) (\<lambda>err.
     if err \<noteq> None then ret err
     else
       bindP (if \<not> bi_virtual_addr bi then add_sw_bp_cnt (- 1) else ret ()) (\<lambda>_.
       bindP (set_bi i (\<lambda>b. b\<lparr>bi_planted := False, bi_dirty := False\<rparr>)) (\<lambda>_. ret None)))))"

section \<open>The list of instructions\<close>

definition is_canonical_addr :: "'t bp_env \<Rightarrow> ctx \<Rightarrow> u64 \<Rightarrow> bool" where
  "is_canonical_addr env c a = (case ev_canonical env c a of Inl _ \<Rightarrow> False | Inr (mem, mem_addr, _) \<Rightarrow> mem = c \<and> a = mem_addr)"

definition find_instruction :: "'t bp_env \<Rightarrow> ctx \<Rightarrow> bool \<Rightarrow> u64 \<Rightarrow> u32 \<Rightarrow> u64 \<Rightarrow> ('t, bia option) bm" where
  "find_instruction env c virtual_addr a types len =
     bindP (asserts (virtual_addr \<or> is_canonical_addr env c a)) (\<lambda>_.
     getP (\<lambda>s. find (\<lambda>i. let bi = bs_bi s i in cb_ctx bi = c \<and> cb_address bi = a \<and> cb_length bi = len \<and> cb_access_types bi = types \<and>
       bi_virtual_addr bi = virtual_addr \<and> \<not> bi_no_addr bi) (bs_instructions s)))"

text \<open>A new structure, zeroed, at the end of the list.\<close>

definition alloc_instruction :: "(BreakInstruction \<Rightarrow> BreakInstruction) \<Rightarrow> ('t, bia) bm" where
  "alloc_instruction f s = (Inr (bs_next s), s\<lparr>bs_bi := (bs_bi s)(bs_next s := f new_bi), bs_instructions := bs_instructions s @ [bs_next s], bs_next := bs_next s + 1\<rparr>)"

definition add_instruction :: "'t bp_env \<Rightarrow> ctx \<Rightarrow> bool \<Rightarrow> u64 \<Rightarrow> u32 \<Rightarrow> u64 \<Rightarrow> ('t, bia) bm" where
  "add_instruction env c virtual_addr a types len =
     bindP (find_instruction env c virtual_addr a types len) (\<lambda>r.
     bindP (asserts (r = None)) (\<lambda>_.
     bindP (context_lock c) (\<lambda>_.
     alloc_instruction (\<lambda>b. b\<lparr>cb_ctx := c, cb_address := a, cb_length := len, cb_access_types := types, bi_virtual_addr := virtual_addr\<rparr>))))"

definition clear_refs :: "ctx \<Rightarrow> bpa option \<Rightarrow> BreakInstruction \<Rightarrow> BreakInstruction" where
  "clear_refs c bp bi =
     (let hit = (\<lambda>r. ref_ctx r = c \<and> (bp = None \<or> bp = Some (ref_bp r)))
      in bi\<lparr>bi_refs := map (\<lambda>r. if hit r then r\<lparr>ref_cnt := 0\<rparr> else r) (bi_refs bi), bi_valid := bi_valid bi \<and> \<not> list_ex hit (bi_refs bi)\<rparr>)"

definition clear_instruction_refs :: "'t bp_env \<Rightarrow> ctx \<Rightarrow> bpa option \<Rightarrow> ('t, unit) bm" where
  "clear_instruction_refs env c bp =
     bindP (asserts (ev_all_stopped env c)) (\<lambda>_.
     bindP (getP bs_instructions) (for_each (\<lambda>i. set_bi i (clear_refs c bp))))"

definition free_instruction :: "'t bp_env \<Rightarrow> bia \<Rightarrow> ('t, unit) bm" where
  "free_instruction env i =
     bindP (get_bi i) (\<lambda>bi.
     bindP (asserts (\<not> bi_dirty bi \<and> \<not> bi_planted bi \<and> bi_refs bi = [] \<and> bi_stepping_over_bp bi = 0)) (\<lambda>_.
     bindP (modP (\<lambda>s. s\<lparr>bs_instructions := remove1 i (bs_instructions s)\<rparr>)) (\<lambda>_.
     context_unlock env (cb_ctx bi))))"

definition count_ref :: "int \<Rightarrow> bpa \<Rightarrow> ctx \<Rightarrow> ('t, unit) bm" where
  "count_ref n bp c =
     bindP (set_bp bp (\<lambda>b. b\<lparr>bp_instruction_cnt := bp_instruction_cnt b + n, bp_status_changed := True\<rparr>)) (\<lambda>_.
     modP (\<lambda>s. s\<lparr>bs_ctx_instruction_cnt := (bs_ctx_instruction_cnt s)(c := bs_ctx_instruction_cnt s c + n)\<rparr>))"

text \<open>\<open>validate_bi_refs\<close>: references that are gone are removed from the array.\<close>

definition ref_gone :: "'t bp_env \<Rightarrow> InstructionRef \<Rightarrow> bool" where
  "ref_gone env r \<longleftrightarrow> ref_cnt r = 0 \<or> ev_exiting env (ref_ctx r) \<or> ev_exited env (ref_ctx r)"

definition validate_ref :: "'t bp_env \<Rightarrow> bia \<Rightarrow> InstructionRef \<Rightarrow> ('t, unit) bm" where
  "validate_ref env i r =
     (if ref_gone env r
      then
        bindP (count_ref (- 1) (ref_bp r) (ref_ctx r)) (\<lambda>_.
        bindP (context_unlock env (ref_ctx r)) (\<lambda>_.
        set_bi i (\<lambda>b. b\<lparr>bi_dirty := bi_dirty b \<or> bi_planted b\<rparr>)))
      else
        bindP (getP (\<lambda>s. bp_attrs_changed (bs_bp s (ref_bp r)))) (\<lambda>changed.
        set_bi i (\<lambda>b. b\<lparr>bi_dirty := bi_dirty b \<or> changed \<and> bi_planted b\<rparr>)))"

definition validate_bi_refs :: "'t bp_env \<Rightarrow> bia \<Rightarrow> ('t, unit) bm" where
  "validate_bi_refs env i =
     bindP (get_bi i) (\<lambda>bi.
     bindP (asserts (\<not> bi_valid bi)) (\<lambda>_.
     bindP (for_each (validate_ref env i) (bi_refs bi)) (\<lambda>_.
     set_bi i (\<lambda>b. b\<lparr>bi_refs := filter (\<lambda>r. \<not> ref_gone env r) (bi_refs b), bi_valid := True\<rparr>))))"

section \<open>References of breakpoints to instructions\<close>

definition on_ref :: "bia \<Rightarrow> nat \<Rightarrow> (InstructionRef \<Rightarrow> InstructionRef) \<Rightarrow> ('t, unit) bm" where
  "on_ref i k f = set_bi i (\<lambda>b. b\<lparr>bi_refs := (bi_refs b)[k := f (bi_refs b ! k)]\<rparr>)"

definition verify_line_offset :: "'t bp_env \<Rightarrow> bia \<Rightarrow> nat \<Rightarrow> ('t, unit) bm" where
  "verify_line_offset env i k =
     bindP (get_bi i) (\<lambda>bi.
       let ref = bi_refs bi ! k; code = (bi_virtual_addr bi \<and> cb_access_types bi AND CTX_BP_ACCESS_INSTRUCTION \<noteq> 0) in
       bindP (asserts (\<not> code \<or> ref_ctx ref = cb_ctx bi \<and> ref_addr ref = cb_address bi)) (\<lambda>_.
       bindP (getP (\<lambda>s. bs_bp s (ref_bp ref))) (\<lambda>bp.
       on_ref i k (ref_line_offs_error_update (\<lambda>_. code \<and> bp_file bp \<noteq> None \<and> bp_line_offs_check bp \<and> \<not> ev_line_ok env bp (ref_ctx ref) (ref_addr ref))))))"

definition add_ref :: "'t bp_env \<Rightarrow> bpa \<Rightarrow> ctx \<Rightarrow> u64 \<Rightarrow> bia \<Rightarrow> ('t, bia) bm" where
  "add_ref env bp c a i =
     bindP (set_bi i (\<lambda>b. b\<lparr>bi_valid := False,
       bi_refs := bi_refs b @ [\<lparr>ref_bp = bp, ref_ctx = c, ref_addr = a, ref_cnt = 1, ref_line_offs_error = False\<rparr>]\<rparr>)) (\<lambda>_.
     bindP (context_lock c) (\<lambda>_.
     bindP (count_ref 1 bp c) (\<lambda>_.
     bindP (get_bi i) (\<lambda>bi.
     bindP (verify_line_offset env i (length (bi_refs bi) - 1)) (\<lambda>_.
     ret i)))))"

definition find_no_addr :: "ctx \<Rightarrow> bpa \<Rightarrow> errno option \<Rightarrow> 't bps \<Rightarrow> bia option" where
  "find_no_addr c bp address_error s =
     find (\<lambda>i. let bi = bs_bi s i in cb_ctx bi = c \<and> bi_no_addr bi \<and> map (\<lambda>r. (ref_ctx r, ref_bp r)) (bi_refs bi) = [(c, bp)] \<and>
       bi_address_error bi = address_error) (bs_instructions s)"

definition index_of :: "('a \<Rightarrow> bool) \<Rightarrow> 'a list \<Rightarrow> nat option" where
  "index_of P xs = find (\<lambda>k. P (xs ! k)) [0..<length xs]"

text \<open>Without an address, e.g. for a signal, and with an error of the address.\<close>

definition link_no_addr :: "'t bp_env \<Rightarrow> bpa \<Rightarrow> ctx \<Rightarrow> errno option \<Rightarrow> ('t, bia) bm" where
  "link_no_addr env bp c address_error =
     bindP (getP (find_no_addr c bp address_error)) (\<lambda>r. case r of
       Some i \<Rightarrow> bindP (on_ref i 0 (\<lambda>r. r\<lparr>ref_cnt := ref_cnt r + 1\<rparr>)) (\<lambda>_. ret i)
     | None \<Rightarrow>
         bindP (context_lock c) (\<lambda>_.
         bindP (alloc_instruction (\<lambda>b. b\<lparr>cb_ctx := c, bi_no_addr := True, cb_access_types := CTX_BP_ACCESS_NO_ADDRESS, bi_address_error := address_error\<rparr>)) (\<lambda>i.
         add_ref env bp c 0 i)))"

definition link_ref :: "'t bp_env \<Rightarrow> bpa \<Rightarrow> ctx \<Rightarrow> u64 \<Rightarrow> bia \<Rightarrow> ('t, bia) bm" where
  "link_ref env bp c a i =
     bindP (get_bi i) (\<lambda>bi. case index_of (\<lambda>r. ref_bp r = bp \<and> ref_ctx r = c) (bi_refs bi) of
       None \<Rightarrow> add_ref env bp c a i
     | Some k \<Rightarrow>
         bindP (asserts (\<not> bi_valid bi \<or> \<not> bi_virtual_addr bi)) (\<lambda>_.
         bindP (on_ref i k (\<lambda>r. r\<lparr>ref_addr := a, ref_cnt := ref_cnt r + 1\<rparr>)) (\<lambda>_.
         bindP (verify_line_offset env i k) (\<lambda>_.
         ret i))))"

definition link_breakpoint_instruction :: "'t bp_env \<Rightarrow> bpa \<Rightarrow> ctx \<Rightarrow> u64 \<Rightarrow> u64 \<Rightarrow> ctx option \<Rightarrow> bool \<Rightarrow> u64 \<Rightarrow> errno option \<Rightarrow> ('t, bia) bm" where
  "link_breakpoint_instruction env bp c ctx_addr len mem virtual_addr mem_addr address_error =
     bindP (asserts (mem = None \<or> address_error = None)) (\<lambda>_.
     case mem of
       None \<Rightarrow>
         bindP (asserts (ctx_addr = 0 \<and> mem_addr = 0 \<and> \<not> virtual_addr)) (\<lambda>_. link_no_addr env bp c address_error)
     | Some m \<Rightarrow>
         bindP (getP (\<lambda>s. get_bp_access_types (bs_bp s bp) virtual_addr)) (\<lambda>types.
         bindP (find_instruction env m virtual_addr mem_addr types len) (\<lambda>r. case r of
           None \<Rightarrow> bindP (add_instruction env m virtual_addr mem_addr types len) (add_ref env bp c ctx_addr)
         | Some i \<Rightarrow> link_ref env bp c ctx_addr i)))"

definition address_expression_error :: "'t bp_env \<Rightarrow> ctx \<Rightarrow> bpa \<Rightarrow> errno \<Rightarrow> ('t, bia option) bm" where
  "address_expression_error env c bp e =
     bindP (getP (\<lambda>s. bp_error (bs_bp s bp))) (\<lambda>err.
     bindP (asserts (err = None)) (\<lambda>_.
     if get_error_code e = Some ERR_CACHE_MISS then ret None
     else bindP (link_breakpoint_instruction env bp c 0 0 None False 0 (Some e)) (\<lambda>i. ret (Some i))))"

definition plant_breakpoint :: "'t bp_env \<Rightarrow> ctx \<Rightarrow> bpa \<Rightarrow> u64 \<Rightarrow> u64 \<Rightarrow> ('t, unit) bm" where
  "plant_breakpoint env c bp a len = bindP (link_breakpoint_instruction env bp c a len (Some c) True a None) (\<lambda>_. ret ())"

fun foldP :: "('a \<Rightarrow> 'b \<Rightarrow> ('s, 'b) sx) \<Rightarrow> 'a list \<Rightarrow> 'b \<Rightarrow> ('s, 'b) sx" where
  "foldP f [] y = ret y"
| "foldP f (x # xs) y = bindP (f x y) (foldP f xs)"

definition plant_at_canonical_address :: "'t bp_env \<Rightarrow> bia \<Rightarrow> ('t, bia list) bm" where
  "plant_at_canonical_address env v =
     bindP (get_bi v) (\<lambda>v_bi.
     bindP (asserts (bi_valid v_bi \<and> \<not> bi_no_addr v_bi \<and> \<not> bi_hardware v_bi \<and> bi_virtual_addr v_bi \<and> bi_ph_ctx v_bi \<noteq> None)) (\<lambda>_.
     foldP (\<lambda>r cs.
       bindP (asserts (ref_ctx r = cb_ctx v_bi)) (\<lambda>_.
       bindP (link_breakpoint_instruction env (ref_bp r) (cb_ctx v_bi) (cb_address v_bi) (cb_length v_bi) (bi_ph_ctx v_bi) False (bi_ph_addr v_bi) None) (\<lambda>i.
       bindP (get_bi i) (\<lambda>bi.
       bindP (asserts (bi_refs bi \<noteq> [] \<and> \<not> bi_virtual_addr bi \<and> (length (bi_refs bi) > 1 \<or> ref_bp (hd (bi_refs bi)) = ref_bp r))) (\<lambda>_.
       ret (cs @ [i])))))) (bi_refs v_bi) []))"

section \<open>Planting all that is new, removing what is obsolete\<close>

text \<open>
  \<open>flush_instructions\<close>: \<open>lst\<close> is the local list of the function. The loops over the list go over the elements it has when they start: what the loop for virtual
  addresses adds is not for a virtual address, and that loop does nothing with it.
\<close>

definition is_hardware :: "'t bps \<Rightarrow> BreakInstruction \<Rightarrow> bool" where
  "is_hardware s bi \<longleftrightarrow>
     bi_no_addr bi \<or> \<not> (cb_access_types bi AND NOT (CTX_BP_ACCESS_VIRTUAL OR CTX_BP_ACCESS_SOFTWARE) = CTX_BP_ACCESS_INSTRUCTION \<and> cb_length bi = 1) \<or>
     list_ex (\<lambda>r. ref_cnt r \<noteq> 0 \<and> bp_type (bs_bp s (ref_bp r)) = Some ''Hardware'') (bi_refs bi)"

definition flush_validate :: "'t bp_env \<Rightarrow> bia \<Rightarrow> bia list \<Rightarrow> ('t, bia list) bm" where
  "flush_validate env i lst =
     bindP (get_bi i) (\<lambda>bi.
       if bi_address_error bi \<noteq> None then
         bindP (asserts (bi_no_addr bi \<and> \<not> bi_planted bi)) (\<lambda>_.
         if bi_valid bi then ret lst
         else bindP (validate_bi_refs env i) (\<lambda>_.
              bindP (set_bi i (\<lambda>b. b\<lparr>bi_planted_as_sw_bp := False, bi_hardware := False\<rparr>)) (\<lambda>_. ret lst)))
       else if \<not> bi_valid bi then
         bindP (getP (\<lambda>s. is_hardware s bi)) (\<lambda>hw.
         bindP (set_bi i (\<lambda>b. b\<lparr>bi_planted_as_sw_bp := False, bi_hardware := hw\<rparr>)) (\<lambda>_.
         bindP (if hw \<or> bi_virtual_addr bi then validate_bi_refs env i else ret ()) (\<lambda>_.
         ret (lst @ [i]))))
       else if bi_hardware bi \<and> \<not> bi_planted bi \<and> ev_all_stopped env (cb_ctx bi) then ret (lst @ [i])
       else ret lst)"

definition flush_unplant :: "'t bp_env \<Rightarrow> bia \<Rightarrow> bia list \<Rightarrow> ('t, bia list) bm" where
  "flush_unplant env i lst =
     bindP (get_bi i) (\<lambda>bi.
       if \<not> bi_valid bi then bindP (asserts (\<not> bi_hardware bi \<and> \<not> bi_virtual_addr bi)) (\<lambda>_. ret lst)
       else if bi_stepping_over_bp bi \<noteq> 0 then ret lst
       else
         bindP (if bi_planted bi
                then
                  bindP (asserts (bi_address_error bi = None)) (\<lambda>_.
                  if bi_dirty bi \<or> bi_refs bi = [] \<and> bi_virtual_addr bi \<or> bi_saved_size bi = 0 \<and> \<not> bi_hardware bi
                  then bindP (remove_instruction env i) (\<lambda>_. ret ()) else ret ())
                else ret ()) (\<lambda>_.
         bindP (get_bi i) (\<lambda>b.
           if bi_planted b \<or> bi_refs b = [] \<or> ev_exiting env (cb_ctx b) \<or> ev_exited env (cb_ctx b) then ret (remove1 i lst) else ret lst)))"

definition plant_if_not :: "'t bp_env \<Rightarrow> bia \<Rightarrow> ('t, unit) bm" where
  "plant_if_not env i = bindP (get_bi i) (\<lambda>bi. if bi_planted bi then ret () else plant_instruction env i)"

definition flush_hardware :: "'t bp_env \<Rightarrow> bia \<Rightarrow> bia list \<Rightarrow> ('t, bia list) bm" where
  "flush_hardware env i lst =
     bindP (get_bi i) (\<lambda>bi. if bi_hardware bi then bindP (plant_if_not env i) (\<lambda>_. ret (remove1 i lst)) else ret lst)"

definition add_canonical :: "bia \<Rightarrow> bia list \<Rightarrow> ('t, bia list) bm" where
  "add_canonical i lst =
     bindP (get_bi i) (\<lambda>ca.
     bindP (asserts (\<not> bi_hardware ca \<and> \<not> bi_virtual_addr ca)) (\<lambda>_. ret (if i \<in> set lst then lst else lst @ [i])))"

definition flush_virtual :: "'t bp_env \<Rightarrow> bia \<Rightarrow> bia list \<Rightarrow> ('t, bia list) bm" where
  "flush_virtual env i lst =
     bindP (get_bi i) (\<lambda>bi.
       if \<not> bi_virtual_addr bi then ret lst
       else
         bindP (asserts (bi_refs bi \<noteq> [])) (\<lambda>_.
         bindP (plant_if_not env i) (\<lambda>_.
         bindP (get_bi i) (\<lambda>b.
         bindP (if \<not> bi_planted b \<and> bi_unsupported b \<and> cb_length b = 1 \<and> bi_ph_ctx b \<noteq> None
                then
                  bindP (plant_at_canonical_address env i) (\<lambda>cs.
                  bindP (set_bi i (bi_planted_as_sw_bp_update (\<lambda>_. True))) (\<lambda>_.
                  foldP add_canonical cs lst))
                else ret lst) (\<lambda>lst2.
         ret (remove1 i lst2))))))"

definition flush_canonical :: "'t bp_env \<Rightarrow> bia \<Rightarrow> ('t, unit) bm" where
  "flush_canonical env i =
     bindP (get_bi i) (\<lambda>bi.
     bindP (asserts (\<not> bi_hardware bi \<and> \<not> bi_virtual_addr bi)) (\<lambda>_.
     bindP (if bi_valid bi then ret () else validate_bi_refs env i) (\<lambda>_.
     bindP (get_bi i) (\<lambda>b.
       if bi_address_error b \<noteq> None then ret ()
       else
         bindP (asserts (\<not> bi_no_addr b)) (\<lambda>_.
         if bi_stepping_over_bp b \<noteq> 0 \<or> bi_refs b = [] then ret () else plant_if_not env i)))))"

definition flush_free :: "'t bp_env \<Rightarrow> bia \<Rightarrow> ('t, unit) bm" where
  "flush_free env i =
     bindP (get_bi i) (\<lambda>bi.
     bindP (asserts (bi_valid bi)) (\<lambda>_.
       if bi_refs bi \<noteq> [] \<or> bi_stepping_over_bp bi \<noteq> 0 then ret ()
       else
         bindP (if bi_planted bi \<and> ev_all_stopped env (cb_ctx bi) then bindP (remove_instruction env i) (\<lambda>_. ret ()) else ret ()) (\<lambda>_.
         bindP (get_bi i) (\<lambda>b. if bi_planted b then ret () else free_instruction env i))))"

definition flush_instructions :: "'t bp_env \<Rightarrow> ('t, unit) bm" where
  "flush_instructions env =
     bindP (bindP (getP bs_instructions) (\<lambda>is. foldP (flush_validate env) is [])) (\<lambda>l1.
     bindP (foldP (flush_unplant env) l1 l1) (\<lambda>l2.
     bindP (foldP (flush_hardware env) l2 l2) (\<lambda>l3.
     bindP (foldP (flush_virtual env) l3 l3) (\<lambda>l4.
     bindP (for_each (flush_canonical env) l4) (\<lambda>_.
     bindP (getP bs_instructions) (for_each (flush_free env)))))))"

section \<open>Hit counts\<close>

definition get_bp_hit_count :: "ctx \<Rightarrow> BreakpointInfo \<Rightarrow> u32" where
  "get_bp_hit_count c bp = sum_list (map snd (filter (\<lambda>(x, n). x = c) (bp_hit_count bp)))"

fun inc_count :: "ctx \<Rightarrow> (ctx \<times> u32) list \<Rightarrow> u32 \<times> (ctx \<times> u32) list" where
  "inc_count c [] = (0, [])"
| "inc_count c ((x, n) # xs) = (if x = c then (n + 1, (x, n + 1) # xs) else (case inc_count c xs of (m, ys) \<Rightarrow> (m, (x, n) # ys)))"

text \<open>The list is searched for the context; a count that has wrapped around to 0 looks as if there was none.\<close>

definition inc_bp_hit_count :: "ctx \<Rightarrow> BreakpointInfo \<Rightarrow> u32 \<times> BreakpointInfo" where
  "inc_bp_hit_count c bp =
     (case inc_count c (bp_hit_count bp) of
        (n, xs) \<Rightarrow> if n = 0 then (1, bp\<lparr>bp_hit_count := (c, 1) # xs, bp_status_changed := True\<rparr>) else (n, bp\<lparr>bp_hit_count := xs, bp_status_changed := True\<rparr>))"

definition reset_bp_hit_count :: "BreakpointInfo \<Rightarrow> BreakpointInfo" where
  "reset_bp_hit_count bp = bp\<lparr>bp_hit_count := [], bp_status_changed := bp_status_changed bp \<or> bp_hit_count bp \<noteq> []\<rparr>"

section \<open>Processes that fork, call exec or are left alone\<close>

definition clone_instruction :: "'t bp_env \<Rightarrow> ctx \<Rightarrow> bia \<Rightarrow> ('t, unit) bm" where
  "clone_instruction env child i =
     bindP (get_bi i) (\<lambda>bi.
     bindP (add_instruction env child (bi_virtual_addr bi) (cb_address bi) (cb_access_types bi) (cb_length bi)) (\<lambda>ci.
     bindP (set_bi ci (\<lambda>b. let n = bi_saved_size bi in
       b\<lparr>bi_saved_code := take n (bi_saved_code bi) @ drop n (bi_saved_code b), bi_planted_code := take n (bi_planted_code bi) @ drop n (bi_planted_code b), bi_saved_size := n,
         bi_refs := map (ref_ctx_update (\<lambda>_. child)) (bi_refs bi)\<rparr>)) (\<lambda>_.
     bindP (for_each (\<lambda>r. bindP (context_lock child) (\<lambda>_. count_ref 1 (ref_bp r) child)) (bi_refs bi)) (\<lambda>_.
     bindP (set_bi ci (\<lambda>b. b\<lparr>bi_valid := True, bi_planted := True\<rparr>)) (\<lambda>_.
     if \<not> bi_virtual_addr bi then add_sw_bp_cnt 1 else ret ())))))"

definition planted_in :: "ctx \<Rightarrow> BreakInstruction \<Rightarrow> bool" where
  "planted_in mem bi \<longleftrightarrow> bi_planted bi \<and> bi_saved_size bi \<noteq> 0 \<and> cb_ctx bi = mem"

text \<open>Instructions that the loop adds are not of the process that forks, and the loop passes over them.\<close>

definition clone_breakpoints_on_process_fork :: "'t bp_env \<Rightarrow> ctx \<Rightarrow> ctx \<Rightarrow> ('t, unit) bm" where
  "clone_breakpoints_on_process_fork env parent child =
     bindP (asserts (child = ev_process env child \<and> child \<noteq> ev_process env parent)) (\<lambda>_.
     bindP (getP bs_instructions) (for_each (\<lambda>i. bindP (get_bi i) (\<lambda>bi.
       if planted_in (ev_process env parent) bi then clone_instruction env child i else ret ()))))"

definition invalidate_breakpoints_on_process_exec :: "'t bp_env \<Rightarrow> ctx \<Rightarrow> ('t, unit) bm" where
  "invalidate_breakpoints_on_process_exec env c =
     bindP (getP bs_instructions) (for_each (\<lambda>i. bindP (get_bi i) (\<lambda>bi.
       if planted_in (ev_process env c) bi
       then bindP (if \<not> bi_virtual_addr bi then add_sw_bp_cnt (- 1) else ret ()) (\<lambda>_. set_bi i (bi_planted_update (\<lambda>_. False)))
       else ret ())))"

definition drop_ref :: "'t bp_env \<Rightarrow> InstructionRef \<Rightarrow> ('t, unit) bm" where
  "drop_ref env r =
     bindP (getP (\<lambda>s. bp_instruction_cnt (bs_bp s (ref_bp r)))) (\<lambda>n.
     bindP (asserts (n > 0)) (\<lambda>_.
     bindP (count_ref (- 1) (ref_bp r) (ref_ctx r)) (\<lambda>_.
     context_unlock env (ref_ctx r))))"

definition unplant_one :: "'t bp_env \<Rightarrow> ctx \<Rightarrow> bia \<Rightarrow> errno option \<Rightarrow> ('t, errno option) bm" where
  "unplant_one env c i err =
     bindP (get_bi i) (\<lambda>bi.
       if cb_ctx bi \<noteq> c then ret err
       else
         bindP (if bi_planted bi then remove_instruction env i else ret None) (\<lambda>e.
           if e \<noteq> None then ret e
           else
             bindP (for_each (drop_ref env) (bi_refs bi)) (\<lambda>_.
             bindP (set_bi i (bi_refs_update (\<lambda>_. []))) (\<lambda>_.
             bindP (free_instruction env i) (\<lambda>_. ret err)))))"

definition unplant_breakpoints :: "'t bp_env \<Rightarrow> ctx \<Rightarrow> ('t, errno option) bm" where
  "unplant_breakpoints env c = bindP (getP bs_instructions) (\<lambda>is. foldP (unplant_one env c) is None)"

section \<open>Encoding of the break instruction\<close>

fun channel_isas :: "(bool \<times> byte list) option list \<Rightarrow> byte list option \<Rightarrow> byte list option \<times> bool" where
  "channel_isas [] encoding = (encoding, False)"
| "channel_isas (x # xs) encoding =
     (case x of
        Some (named, e) \<Rightarrow>
          if named \<and> e \<noteq> []
          then (case encoding of None \<Rightarrow> channel_isas xs (Some e) | Some f \<Rightarrow> if e \<noteq> f then (encoding, True) else channel_isas xs encoding)
          else channel_isas xs encoding
      | None \<Rightarrow> channel_isas xs encoding)"

definition bp_opcode :: "'t bp_env \<Rightarrow> ctx \<Rightarrow> u64 \<Rightarrow> byte list option \<times> bool" where
  "bp_opcode env c a =
     (let (enc, conflict) = channel_isas (map (\<lambda>ch. ev_isa env (Some ch) c a) (ev_channels env)) None;
          enc2 = (if enc = None then (case ev_isa env None c a of Some (_, e) \<Rightarrow> if e \<noteq> [] then Some e else None | None \<Rightarrow> None) else enc)
      in (if enc2 = None then ev_break_instruction env c else enc2, conflict))"

definition get_opcode :: "'t bp_env \<Rightarrow> BreakInstruction \<Rightarrow> BreakInstruction" where
  "get_opcode env bi =
     (if \<not> bi_valid bi \<and> \<not> bi_no_addr bi \<and> \<not> bi_hardware bi \<and> bi_virtual_addr bi
      then
        (let b = bi\<lparr>bi_isa_conflict := False, bi_bp_encoding := None, bi_ph_ctx := None, bi_ph_addr := 0, bi_ph_address_error := None\<rparr>
         in if bi_refs bi \<noteq> [] \<and> \<not> ev_exiting env (cb_ctx bi) \<and> \<not> ev_exited env (cb_ctx bi) \<and> cb_access_types bi AND CTX_BP_ACCESS_INSTRUCTION \<noteq> 0
            then (case ev_canonical env (cb_ctx bi) (cb_address bi) of
                    Inl e \<Rightarrow> b\<lparr>bi_ph_address_error := Some e\<rparr>
                  | Inr (c, a, _) \<Rightarrow>
                      b\<lparr>bi_bp_encoding := fst (bp_opcode env (cb_ctx bi) (cb_address bi)), bi_isa_conflict := snd (bp_opcode env (cb_ctx bi) (cb_address bi)),
                        bi_ph_ctx := Some c, bi_ph_addr := a\<rparr>)
            else b)
      else bi)"

definition get_bp_opcodes :: "'t bp_env \<Rightarrow> ('t, unit) bm" where
  "get_bp_opcodes env = bindP (getP bs_instructions) (for_each (\<lambda>i. set_bi i (get_opcode env)))"

definition is_breakpoint_address :: "'t bp_env \<Rightarrow> ctx \<Rightarrow> u64 \<Rightarrow> ('t, bool) bm" where
  "is_breakpoint_address env c a =
     bindP (getP bs_planted_sw_bp_cnt) (\<lambda>n.
       if n = 0 then ret False
       else
         (case ev_canonical env c a of
            Inl _ \<Rightarrow> ret False
          | Inr (mem, mem_addr, _) \<Rightarrow>
              bindP (find_instruction env mem False mem_addr CTX_BP_ACCESS_INSTRUCTION 1) (\<lambda>r. case r of
                None \<Rightarrow> ret False
              | Some i \<Rightarrow> bindP (get_bi i) (\<lambda>bi. bindP (asserts (\<not> bi_virtual_addr bi)) (\<lambda>_. ret (bi_planted bi))))))"

end
