(* ===== verification/BreakMemory.thy ===== *)
theory BreakMemory
  imports Breakpoints
begin

text \<open>
  What clients see of a memory with breakpoints in it (theory Breakpoints, src/agent/tcf/services/breakpoints.c): the memory without them. Reads, writes,
  planting and removing are related to a plain memory.
\<close>

unbundle bit_operations_syntax

section \<open>Buffers\<close>

lemma length_fold_update [simp]: "length (fold (\<lambda>(i, k) b. b[k := f i]) xs b) = length b"
  by (induction xs arbitrary: b) auto

lemma nth_fold_update:
  assumes "distinct (map snd xs)" "k < length b"
  shows "fold (\<lambda>(i, k) b. b[k := f i]) xs b ! k = (case find (\<lambda>x. snd x = k) xs of None \<Rightarrow> b ! k | Some (i, _) \<Rightarrow> f i)"
  using assms
proof (induction xs arbitrary: b)
  case (Cons x xs)
  obtain i j where x: "x = (i, j)" by force
  show ?case
  proof (cases "j = k")
    case True
    with Cons.prems x have "find (\<lambda>x. snd x = k) xs = None" by (force simp: find_None_iff)
    with True x Cons show ?thesis by simp
  next
    case False
    with x Cons show ?thesis by (simp split: option.splits)
  qed
qed simp

lemma find_snd: "(i, k) \<in> set xs \<Longrightarrow> distinct (map snd xs) \<Longrightarrow> find (\<lambda>x. snd x = k) xs = Some (i, k)"
  by (induction xs) (auto simp: image_iff)

lemma unat_plus_small: "unat (a :: u64) + k < 2 ^ 64 \<Longrightarrow> unat (a + of_nat k) = unat a + k"
  using unat_of_nat [where 'a = 64, of "unat a + k"] by simp

section \<open>The bytes of an instruction\<close>

definition hides :: "BreakInstruction \<Rightarrow> ctx \<Rightarrow> nat \<Rightarrow> bool" where
  "hides bi m a \<longleftrightarrow> bi_planted bi \<and> cb_ctx bi = m \<and> unat (cb_address bi) \<le> a \<and> a < unat (cb_address bi) + bi_saved_size bi"

definition bi_fits :: "BreakInstruction \<Rightarrow> bool" where
  "bi_fits bi \<longleftrightarrow> unat (cb_address bi) + bi_saved_size bi < 2 ^ 64 \<and> bi_saved_size bi \<le> MAX_BI_SIZE \<and>
     length (bi_saved_code bi) = MAX_BI_SIZE \<and> length (bi_planted_code bi) = MAX_BI_SIZE"

lemma common_bytes_nat:
  assumes "bi_fits bi" "unat addr + unat sz < 2 ^ 64"
  shows "common_bytes bi mem addr sz =
     (if bi_planted bi \<and> cb_ctx bi = mem
      then map (\<lambda>i. (i, unat (cb_address bi) + i - unat addr))
        (filter (\<lambda>i. unat addr \<le> unat (cb_address bi) + i \<and> unat (cb_address bi) + i < unat addr + unat sz) [0..<bi_saved_size bi])
      else [])"
proof -
  let ?B = "unat (cb_address bi)" and ?n = "bi_saved_size bi"
  have u: "unat (cb_address bi + of_nat i) = ?B + i" if "i \<le> ?n" for i using assms(1) that by (intro unat_plus_small) (simp add: bi_fits_def)
  have e: "unat (addr + sz) = unat addr + unat sz" using assms(2) by (simp add: unat_word_ariths)
  have f: "(\<not> cb_address bi + of_nat i < addr \<and> \<not> addr + sz \<le> cb_address bi + of_nat i) \<longleftrightarrow> unat addr \<le> ?B + i \<and> ?B + i < unat addr + unat sz" if "i \<le> ?n" for i
    using u [OF that] e by (auto simp: word_less_nat_alt word_le_nat_alt)
  have m: "unat (cb_address bi + of_nat i - addr) = ?B + i - unat addr" if "i \<le> ?n" "unat addr \<le> ?B + i" for i
    using u [OF that(1)] that(2) by (simp add: unat_sub word_le_nat_alt)
  have l: "map (\<lambda>i. (i, unat (cb_address bi + of_nat i - addr)))
      (filter (\<lambda>i. \<not> cb_address bi + of_nat i < addr \<and> \<not> addr + sz \<le> cb_address bi + of_nat i) [0..<?n]) =
    map (\<lambda>i. (i, ?B + i - unat addr)) (filter (\<lambda>i. unat addr \<le> ?B + i \<and> ?B + i < unat addr + unat sz) [0..<?n])"
    using f m by (intro map_cong filter_cong) auto
  have c: "filter (\<lambda>i. unat addr \<le> ?B + i \<and> ?B + i < unat addr + unat sz) [0..<?n] = []"
    if "?n = 0 \<or> cb_address bi + of_nat ?n \<le> addr \<or> cb_address bi \<ge> addr + sz"
    using that u [of ?n] e by (auto simp: filter_empty_conv word_le_nat_alt)
  show ?thesis unfolding common_bytes_def using l c by auto
qed

lemma distinct_common: "bi_fits bi \<Longrightarrow> unat addr + unat sz < 2 ^ 64 \<Longrightarrow> distinct (map snd (common_bytes bi mem addr sz))"
  by (auto simp: common_bytes_nat distinct_map comp_def inj_on_def)

lemma find_common:
  assumes "bi_fits bi" "unat addr + unat sz < 2 ^ 64" "k < unat sz"
  shows "find (\<lambda>x. snd x = k) (common_bytes bi mem addr sz) = (if hides bi mem (unat addr + k) then Some (unat addr + k - unat (cb_address bi), k) else None)"
proof -
  let ?B = "unat (cb_address bi)" and ?x = "unat addr + k - unat (cb_address bi)"
  have d: "distinct (map snd (common_bytes bi mem addr sz))" by (rule distinct_common [OF assms(1,2)])
  show ?thesis
  proof (cases "hides bi mem (unat addr + k)")
    case False
    then have "\<forall>x \<in> set (common_bytes bi mem addr sz). snd x \<noteq> k" unfolding common_bytes_nat [OF assms(1,2)] hides_def by auto
    with False show ?thesis by (force simp: find_None_iff)
  next
    case True
    then have m: "(?x, k) \<in> set (common_bytes bi mem addr sz)" unfolding common_bytes_nat [OF assms(1,2)] hides_def using assms(3) by (auto simp: image_iff)
    from find_snd [OF m d] True show ?thesis by simp
  qed
qed

lemma length_put_saved [simp]: "length (put_saved bi mem addr sz b) = length b"
  by (simp add: put_saved_def)

definition planted_fits :: "BreakInstruction \<Rightarrow> bool" where
  "planted_fits bi \<longleftrightarrow> (bi_planted bi \<longrightarrow> bi_fits bi)"

lemma common_not_planted: "\<not> bi_planted bi \<Longrightarrow> common_bytes bi mem addr sz = []"
  by (simp add: common_bytes_def)

lemma nth_put_saved:
  assumes "planted_fits bi" "unat addr + unat sz < 2 ^ 64" "k < unat sz" "length b = unat sz"
  shows "put_saved bi mem addr sz b ! k = (if hides bi mem (unat addr + k) then bi_saved_code bi ! (unat addr + k - unat (cb_address bi)) else b ! k)"
proof (cases "bi_planted bi")
  case True
  with assms show ?thesis by (simp add: put_saved_def planted_fits_def nth_fold_update [OF distinct_common] find_common)
qed (simp add: put_saved_def common_not_planted hides_def)

section \<open>What clients see\<close>

text \<open>The address of a byte is that in the memory of its process. \<open>shown\<close> is the byte that is shown where the memory has \<open>r\<close>.\<close>

definition hider :: "(bia \<Rightarrow> BreakInstruction) \<Rightarrow> bia list \<Rightarrow> ctx \<Rightarrow> nat \<Rightarrow> bia option" where
  "hider h is m a = find (\<lambda>i. hides (h i) m a) is"

definition shown :: "(bia \<Rightarrow> BreakInstruction) \<Rightarrow> bia list \<Rightarrow> ctx \<Rightarrow> nat \<Rightarrow> byte \<Rightarrow> byte" where
  "shown h is m a r = (case hider h is m a of None \<Rightarrow> r | Some i \<Rightarrow> bi_saved_code (h i) ! (a - unat (cb_address (h i))))"

definition instructions_ok :: "(bia \<Rightarrow> BreakInstruction) \<Rightarrow> bia list \<Rightarrow> bool" where
  "instructions_ok h is \<longleftrightarrow> distinct is \<and> (\<forall>i \<in> set is. planted_fits (h i)) \<and>
     (\<forall>i \<in> set is. \<forall>j \<in> set is. \<forall>m a. hides (h i) m a \<and> hides (h j) m a \<longrightarrow> i = j)"

lemma instructions_ok_Cons: "instructions_ok h (i # is) \<Longrightarrow> instructions_ok h is"
  by (auto simp: instructions_ok_def)

lemma hider_Some: "instructions_ok h is \<Longrightarrow> i \<in> set is \<Longrightarrow> hides (h i) m a \<Longrightarrow> hider h is m a = Some i"
proof (induction "is")
  case (Cons j js)
  then show ?case by (cases "hides (h j) m a") (auto simp: hider_def instructions_ok_def)
qed simp

lemma hider_None: "hider h is m a = None \<longleftrightarrow> (\<forall>i \<in> set is. \<not> hides (h i) m a)"
  by (auto simp: hider_def find_None_iff)

lemma hider_find: "hider h is m a = Some i \<Longrightarrow> i \<in> set is \<and> hides (h i) m a"
  by (auto simp: hider_def find_Some_iff)

lemma length_read_block [simp]: "length (fold (\<lambda>i b. put_saved (h i) mem addr sz b) is b) = length b"
  by (induction "is" arbitrary: b) auto

lemma nth_read_block:
  assumes "instructions_ok h is" "unat addr + unat sz < 2 ^ 64" "k < unat sz" "length b = unat sz"
  shows "fold (\<lambda>i b. put_saved (h i) mem addr sz b) is b ! k = shown h is mem (unat addr + k) (b ! k)"
  using assms(1,4)
proof (induction "is" arbitrary: b)
  case (Cons i "is")
  have ok: "instructions_ok h is" "planted_fits (h i)" using Cons.prems by (auto simp: instructions_ok_def)
  have n: "put_saved (h i) mem addr sz b ! k =
      (if hides (h i) mem (unat addr + k) then bi_saved_code (h i) ! (unat addr + k - unat (cb_address (h i))) else b ! k)"
    by (rule nth_put_saved [OF ok(2) assms(2,3) Cons.prems(2)])
  show ?case
  proof (cases "hides (h i) mem (unat addr + k)")
    case True
    then have "hider h is mem (unat addr + k) = None" using Cons.prems(1) by (auto simp: hider_None instructions_ok_def)
    with True n Cons.IH [OF ok(1)] Cons.prems(2) show ?thesis by (simp add: shown_def hider_def)
  next
    case False
    with n Cons.IH [OF ok(1)] Cons.prems(2) show ?thesis by (simp add: shown_def hider_def split: option.splits)
  qed
qed (simp add: shown_def hider_def)

text \<open>Addresses are mapped directly: a process has its own memory. This is how Linux does it.\<close>

definition direct :: "'t bp_env \<Rightarrow> bool" where
  "direct env \<longleftrightarrow> (\<forall>c a. case ev_canonical env c a of Inl _ \<Rightarrow> False | Inr (m, b, base, n) \<Rightarrow> m = ev_mem env c \<and> b = a \<and> base + n - a \<noteq> 0)"

lemma word_split_mask: "(a :: 'a :: len word) = (a AND NOT m) + (a AND m)"
proof -
  have "(a AND NOT m) AND (a AND m) = 0" by (rule bit_eqI) (auto simp: bit_simps)
  then have "(a AND NOT m) + (a AND m) = (a AND NOT m) OR (a AND m)" by (rule disjunctive_add_eq_or)
  also have "\<dots> = a" by (rule bit_eqI) (auto simp: bit_simps)
  finally show ?thesis by simp
qed

lemma linux_direct:
  assumes "ev_canonical env = linux_canonical (ev_mem env)"
  shows "direct env"
proof -
  have g: "x = q" if "r + x - b = 0" "b = r + q" for x r q b :: u64 using that by simp
  have "(a AND NOT 0xfffff) + 0x100000 - a \<noteq> 0" for a :: u64
  proof
    assume "(a AND NOT 0xfffff) + 0x100000 - a = 0"
    from g [OF this word_split_mask] have "a AND 0xfffff = 0x100000" by (rule sym)
    moreover have "a AND 0xfffff \<le> 0xfffff" by (rule word_and_le1)
    ultimately have "(0x100000 :: u64) \<le> 0xfffff" by (simp only:)
    then show False by simp
  qed
  then show ?thesis by (simp add: direct_def assms linux_canonical_def)
qed

lemma next_block_direct:
  assumes "direct env" "0 < n"
  shows "\<exists>sz. next_block env c a n = Inr (ev_mem env c, a, sz) \<and> 0 < sz \<and> sz \<le> n"
proof -
  from assms(1) obtain base k where "ev_canonical env c a = Inr (ev_mem env c, a, base, k)" "base + k - a \<noteq> 0"
    unfolding direct_def by (elim allE [of _ c] allE [of _ a]) (auto split: sum.splits prod.splits)
  with assms(2) show ?thesis by (auto simp: next_block_def word_gt_0)
qed

lemma not_planted_hides: "\<not> list_ex (sw_planted s) (bs_instructions s) \<Longrightarrow> i \<in> set (bs_instructions s) \<Longrightarrow> \<not> hides (bs_bi s i) m a"
  by (auto simp: list_ex_iff sw_planted_def hides_def)

lemma check_read_loop_at:
  assumes "direct env" "instructions_ok (bs_bi s) (bs_instructions s)" "unat addr + length buf < 2 ^ 64"
  shows "check_read_loop env c addr buf s =
    (Inr (None, map (\<lambda>k. shown (bs_bi s) (bs_instructions s) (ev_mem env c) (unat addr + k) (buf ! k)) [0..<length buf]), s)"
  using assms(3)
proof (induction "length buf" arbitrary: addr buf rule: less_induct)
  case less
  let ?sh = "\<lambda>a r. shown (bs_bi s) (bs_instructions s) (ev_mem env c) a r"
  show ?case
  proof (cases "buf = [] \<or> \<not> list_ex (sw_planted s) (bs_instructions s)")
    case True
    have "?sh a r = r" if "\<not> list_ex (sw_planted s) (bs_instructions s)" for a r
      using that not_planted_hides [OF that] hider_None [of "bs_bi s" "bs_instructions s" "ev_mem env c" a] by (simp add: shown_def)
    with True show ?thesis by (subst check_read_loop.simps) (auto simp: map_nth)
  next
    case False
    have len: "unat (of_nat (length buf) :: u64) = length buf" using less.prems by (simp add: unat_of_nat)
    then have "0 < (of_nat (length buf) :: u64)" using False by (simp add: word_less_nat_alt)
    from next_block_direct [OF assms(1) this] obtain sz where
      sz: "next_block env c addr (of_nat (length buf)) = Inr (ev_mem env c, addr, sz)" "0 < sz" "sz \<le> of_nat (length buf)" by blast
    have n: "0 < unat sz" "unat sz \<le> length buf" using sz(2,3) len by (simp_all add: word_less_nat_alt word_le_nat_alt)
    have a: "unat (addr + sz) = unat addr + unat sz" using n less.prems by (simp add: unat_word_ariths)
    have w: "unat addr + unat sz < 2 ^ 64" using n less.prems by simp
    let ?b = "fold (\<lambda>i b. put_saved (bs_bi s i) (ev_mem env c) addr sz b) (bs_instructions s) (take (unat sz) buf)"
    have r: "check_read_loop env c (addr + sz) (drop (unat sz) buf) s =
        (Inr (None, map (\<lambda>k. ?sh (unat (addr + sz) + k) (drop (unat sz) buf ! k)) [0..<length buf - unat sz]), s)"
      using less.hyps [of "drop (unat sz) buf" "addr + sz"] n less.prems a False by simp
    have "?b @ map (\<lambda>k. ?sh (unat (addr + sz) + k) (drop (unat sz) buf ! k)) [0..<length buf - unat sz] = map (\<lambda>k. ?sh (unat addr + k) (buf ! k)) [0..<length buf]"
      using n nth_read_block [OF assms(2) w, of _ "take (unat sz) buf" "ev_mem env c"] by (intro nth_equalityI) (auto simp: nth_append a)
    with r sz False show ?thesis by (subst check_read_loop.simps) (simp add: bindP_def ret_def Let_def)
  qed
qed

section \<open>Writing\<close>

text \<open>The byte \<open>j\<close> of an instruction is in the part of the memory that is written.\<close>

definition in_part :: "BreakInstruction \<Rightarrow> ctx \<Rightarrow> nat \<Rightarrow> nat \<Rightarrow> nat \<Rightarrow> bool" where
  "in_part bi m a n j \<longleftrightarrow> hides bi m (unat (cb_address bi) + j) \<and> a \<le> unat (cb_address bi) + j \<and> unat (cb_address bi) + j < a + n"

lemma fold_take_written:
  assumes "distinct (map snd xs)"
  shows "fold (\<lambda>(i, k) (bi, b). (bi\<lparr>bi_saved_code := (bi_saved_code bi)[i := b ! k]\<rparr>, b[k := bi_planted_code bi ! i])) xs (bi, b) =
    (bi\<lparr>bi_saved_code := fold (\<lambda>(i, k) c. c[k := b ! i]) (map prod.swap xs) (bi_saved_code bi)\<rparr>, fold (\<lambda>(i, k) c. c[k := bi_planted_code bi ! i]) xs b)"
  using assms
proof (induction xs arbitrary: bi b)
  case (Cons x xs)
  obtain i k where x: "x = (i, k)" by force
  have "fold (\<lambda>(i, k) c. c[k := b[k' := v] ! i]) (map prod.swap ys) c = fold (\<lambda>(i, k) c. c[k := b ! i]) (map prod.swap ys) c"
    if "k' \<notin> snd ` set ys" for ys :: "(nat \<times> nat) list" and c k' v using that by (induction ys arbitrary: c) auto
  with Cons x show ?case by simp
qed simp

lemma find_common_fst:
  assumes "bi_fits bi" "unat addr + unat sz < 2 ^ 64"
  shows "find (\<lambda>x. snd x = j) (map prod.swap (common_bytes bi mem addr sz)) =
    (if in_part bi mem (unat addr) (unat sz) j then Some (unat (cb_address bi) + j - unat addr, j) else None)"
    and "distinct (map snd (map prod.swap (common_bytes bi mem addr sz)))"
proof -
  let ?xs = "map prod.swap (common_bytes bi mem addr sz)"
  show d: "distinct (map snd ?xs)" by (simp add: common_bytes_nat [OF assms] comp_def)
  show "find (\<lambda>x. snd x = j) ?xs = (if in_part bi mem (unat addr) (unat sz) j then Some (unat (cb_address bi) + j - unat addr, j) else None)"
  proof (cases "in_part bi mem (unat addr) (unat sz) j")
    case False
    then have "\<forall>x \<in> set ?xs. snd x \<noteq> j" by (auto simp: common_bytes_nat [OF assms] in_part_def hides_def)
    with False show ?thesis by (force simp: find_None_iff)
  next
    case True
    then have m: "(unat (cb_address bi) + j - unat addr, j) \<in> set ?xs" by (auto simp: common_bytes_nat [OF assms] in_part_def hides_def image_iff)
    from find_snd [OF m d] True show ?thesis by simp
  qed
qed

lemma take_written_at:
  assumes "planted_fits bi" "unat addr + unat sz < 2 ^ 64" "length b = unat sz"
  obtains code b1 where "take_written mem addr sz (bi, b) = (bi\<lparr>bi_saved_code := code\<rparr>, b1)" "length code = length (bi_saved_code bi)" "length b1 = length b"
    "\<And>j. j < length code \<Longrightarrow> code ! j = (if in_part bi mem (unat addr) (unat sz) j then b ! (unat (cb_address bi) + j - unat addr) else bi_saved_code bi ! j)"
    "\<And>k. k < unat sz \<Longrightarrow> b1 ! k = (if hides bi mem (unat addr + k) then bi_planted_code bi ! (unat addr + k - unat (cb_address bi)) else b ! k)"
proof (cases "bi_planted bi")
  case False
  then have "take_written mem addr sz (bi, b) = (bi, b)" "in_part bi mem (unat addr) (unat sz) j = False" "hides bi mem k = False" for j k
    by (simp_all add: take_written_def common_not_planted in_part_def hides_def)
  then show ?thesis by (intro that [of "bi_saved_code bi" b]) simp_all
next
  case True
  then have f: "bi_fits bi" using assms(1) by (simp add: planted_fits_def)
  let ?xs = "common_bytes bi mem addr sz"
  let ?code = "fold (\<lambda>(i, k) c. c[k := b ! i]) (map prod.swap ?xs) (bi_saved_code bi)" and ?b1 = "fold (\<lambda>(i, k) c. c[k := bi_planted_code bi ! i]) ?xs b"
  show ?thesis
  proof (rule that [of ?code ?b1])
    show "take_written mem addr sz (bi, b) = (bi\<lparr>bi_saved_code := ?code\<rparr>, ?b1)"
      by (simp add: take_written_def fold_take_written [OF distinct_common [OF f assms(2)]])
    show "?code ! j = (if in_part bi mem (unat addr) (unat sz) j then b ! (unat (cb_address bi) + j - unat addr) else bi_saved_code bi ! j)" if "j < length ?code" for j
      using that nth_fold_update [OF find_common_fst(2) [OF f assms(2)], of j "bi_saved_code bi" "\<lambda>i. b ! i" mem] by (simp add: find_common_fst(1) [OF f assms(2)])
    show "?b1 ! k = (if hides bi mem (unat addr + k) then bi_planted_code bi ! (unat addr + k - unat (cb_address bi)) else b ! k)" if "k < unat sz" for k
      using that assms(3) by (simp add: nth_fold_update [OF distinct_common [OF f assms(2)]] find_common [OF f assms(2)])
  qed simp_all
qed

text \<open>What a write does: to the code that the instructions remember, and to the bytes that go to the memory.\<close>

definition code_written :: "ctx \<Rightarrow> nat \<Rightarrow> byte list \<Rightarrow> bia list \<Rightarrow> (bia \<Rightarrow> BreakInstruction) \<Rightarrow> (bia \<Rightarrow> BreakInstruction) \<Rightarrow> bool" where
  "code_written m a b is h h1 \<longleftrightarrow> (\<forall>i. \<exists>code. h1 i = (h i)\<lparr>bi_saved_code := code\<rparr> \<and> length code = length (bi_saved_code (h i)) \<and>
     (\<forall>j < length code. code ! j = (if i \<in> set is \<and> in_part (h i) m a (length b) j then b ! (unat (cb_address (h i)) + j - a) else bi_saved_code (h i) ! j)))"

definition bytes_written :: "ctx \<Rightarrow> nat \<Rightarrow> byte list \<Rightarrow> bia list \<Rightarrow> (bia \<Rightarrow> BreakInstruction) \<Rightarrow> byte list" where
  "bytes_written m a b is h = map (\<lambda>k. case hider h is m (a + k) of None \<Rightarrow> b ! k | Some i \<Rightarrow> bi_planted_code (h i) ! (a + k - unat (cb_address (h i)))) [0..<length b]"

lemma saved_code_fields [simp]:
  "hides (bi\<lparr>bi_saved_code := code\<rparr>) m a = hides bi m a" "in_part (bi\<lparr>bi_saved_code := code\<rparr>) m a n j = in_part bi m a n j"
  by (simp_all add: hides_def in_part_def)

lemma planted_fits_code: "length code = length (bi_saved_code bi) \<Longrightarrow> planted_fits (bi\<lparr>bi_saved_code := code\<rparr>) = planted_fits bi"
  by (simp add: planted_fits_def bi_fits_def)

lemma code_written_fields:
  assumes "code_written m a b is h h1"
  shows "hides (h1 i) x y = hides (h i) x y" "planted_fits (h1 i) = planted_fits (h i)" "cb_address (h1 i) = cb_address (h i)" "bi_planted_code (h1 i) = bi_planted_code (h i)"
    "hider h1 js x y = hider h js x y" "instructions_ok h1 js = instructions_ok h js" "bi_saved_size (h1 i) = bi_saved_size (h i)" "cb_ctx (h1 i) = cb_ctx (h i)" "bi_planted (h1 i) = bi_planted (h i)"
    "length (bi_saved_code (h1 i)) = length (bi_saved_code (h i))" "in_part (h1 i) x n u v = in_part (h i) x n u v"
proof -
  have *: "\<exists>code. h1 i = (h i)\<lparr>bi_saved_code := code\<rparr> \<and> length code = length (bi_saved_code (h i))" for i using assms unfolding code_written_def by blast
  show f: "hides (h1 i) x y = hides (h i) x y" "planted_fits (h1 i) = planted_fits (h i)" for i x y using * [of i] by (auto simp: planted_fits_code)
  show "hider h1 js x y = hider h js x y" by (simp add: hider_def f)
  show "instructions_ok h1 js = instructions_ok h js" by (simp add: instructions_ok_def f)
  show "cb_address (h1 i) = cb_address (h i)" "bi_planted_code (h1 i) = bi_planted_code (h i)" "bi_saved_size (h1 i) = bi_saved_size (h i)" "cb_ctx (h1 i) = cb_ctx (h i)"
    "bi_planted (h1 i) = bi_planted (h i)" "length (bi_saved_code (h1 i)) = length (bi_saved_code (h i))" "in_part (h1 i) x n u v = in_part (h i) x n u v"
    using * [of i] by auto
qed

lemma write_block_at:
  assumes "instructions_ok h is" "unat addr + unat sz < 2 ^ 64" "length b = unat sz"
  shows "\<exists>h1. write_block mem addr sz is (b, h) = (bytes_written mem (unat addr) b is h, h1) \<and> code_written mem (unat addr) b is h h1"
  using assms(1,3)
proof (induction "is" arbitrary: b h)
  case Nil
  have "map ((!) b) [0..<length b] = b" by (rule map_nth)
  with Nil show ?case by (auto simp: write_block_def bytes_written_def code_written_def hider_def map_nth intro!: exI [of _ "bi_saved_code _"])
next
  case (Cons i "is")
  let ?A = "unat addr" and ?S = "unat sz"
  have ok: "instructions_ok h is" "planted_fits (h i)" "i \<notin> set is" and dis: "\<And>j m a. j \<in> set is \<Longrightarrow> hides (h j) m a \<Longrightarrow> \<not> hides (h i) m a"
    using Cons.prems(1) by (auto simp: instructions_ok_def)
  obtain code b1 where t: "take_written mem addr sz (h i, b) = ((h i)\<lparr>bi_saved_code := code\<rparr>, b1)" "length code = length (bi_saved_code (h i))" "length b1 = length b"
    "\<And>j. j < length code \<Longrightarrow> code ! j = (if in_part (h i) mem ?A ?S j then b ! (unat (cb_address (h i)) + j - ?A) else bi_saved_code (h i) ! j)"
    "\<And>k. k < ?S \<Longrightarrow> b1 ! k = (if hides (h i) mem (?A + k) then bi_planted_code (h i) ! (?A + k - unat (cb_address (h i))) else b ! k)"
    by (rule take_written_at [OF ok(2) assms(2) Cons.prems(2)]) blast
  let ?h = "h(i := (h i)\<lparr>bi_saved_code := code\<rparr>)"
  have f0: "hides (?h j) = hides (h j)" for j by (auto simp: fun_eq_iff hides_def)
  then have f: "hides (?h j) = hides (h j)" "cb_address (?h j) = cb_address (h j)" "bi_planted_code (?h j) = bi_planted_code (h j)" "hider ?h js m a = hider h js m a" for j js m a
    unfolding hider_def f0 by simp_all
  have ok2: "instructions_ok ?h is" using ok t(2) unfolding instructions_ok_def f by (auto simp: planted_fits_code)
  have "length b1 = unat sz" using t(3) Cons.prems(2) by simp
  from Cons.IH [OF ok2 this] obtain h1 where
    h1: "write_block mem addr sz is (b1, ?h) = (bytes_written mem ?A b1 is ?h, h1)" "code_written mem ?A b1 is ?h h1" by blast
  have s: "write_block mem addr sz (i # is) (b, h) = write_block mem addr sz is (b1, ?h)" by (simp add: write_block_def t(1))
  have "bytes_written mem ?A b1 is ?h = bytes_written mem ?A b1 is h" unfolding bytes_written_def f ..
  also have "\<dots> = bytes_written mem ?A b (i # is) h"
  proof (rule nth_equalityI)
    fix k assume "k < length (bytes_written mem ?A b1 is h)"
    then have k: "k < ?S" "k < length b1" "k < length b" using t(3) Cons.prems(2) by (simp_all add: bytes_written_def)
    show "bytes_written mem ?A b1 is h ! k = bytes_written mem ?A b (i # is) h ! k"
    proof (cases "hides (h i) mem (?A + k)")
      case True
      then have "hider h is mem (?A + k) = None" using dis by (auto simp: hider_None)
      with True k t(5) show ?thesis by (simp add: bytes_written_def hider_def)
    next
      case False
      with k t(5) show ?thesis by (simp add: bytes_written_def hider_def split: option.splits)
    qed
  qed (simp add: bytes_written_def t(3))
  finally have w: "bytes_written mem ?A b1 is ?h = bytes_written mem ?A b (i # is) h" .
  have "code_written mem ?A b (i # is) h h1"
    unfolding code_written_def
  proof
    fix j
    from h1(2) obtain c where c: "h1 j = (?h j)\<lparr>bi_saved_code := c\<rparr>" "length c = length (bi_saved_code (?h j))"
      "\<And>k. k < length c \<Longrightarrow> c ! k = (if j \<in> set is \<and> in_part (?h j) mem ?A (length b1) k then b1 ! (unat (cb_address (?h j)) + k - ?A) else bi_saved_code (?h j) ! k)"
      unfolding code_written_def by blast
    have "c ! k = (if j \<in> set (i # is) \<and> in_part (h j) mem ?A (length b) k then b ! (unat (cb_address (h j)) + k - ?A) else bi_saved_code (h j) ! k)" if "k < length c" for k
    proof (cases "j = i")
      case True
      with c(2) c(3) [OF that] that ok(3) t(2,4) Cons.prems(2) show ?thesis by simp
    next
      case False
      have "b1 ! (unat (cb_address (h j)) + k - ?A) = b ! (unat (cb_address (h j)) + k - ?A)" if "j \<in> set is" "in_part (h j) mem ?A (length b) k"
      proof -
        have "unat (cb_address (h j)) + k - ?A < ?S" "?A + (unat (cb_address (h j)) + k - ?A) = unat (cb_address (h j)) + k" using that(2) Cons.prems(2) by (auto simp: in_part_def)
        moreover have "\<not> hides (h i) mem (unat (cb_address (h j)) + k)" using dis [OF that(1)] that(2) by (auto simp: in_part_def)
        ultimately show ?thesis using t(5) by simp
      qed
      with c(3) [OF that] False t(3) show ?thesis by simp
    qed
    with c show "\<exists>code. h1 j = (h j)\<lparr>bi_saved_code := code\<rparr> \<and> length code = length (bi_saved_code (h j)) \<and>
       (\<forall>k < length code. code ! k = (if j \<in> set (i # is) \<and> in_part (h j) mem ?A (length b) k then b ! (unat (cb_address (h j)) + k - ?A) else bi_saved_code (h j) ! k))"
      using t(2) by (intro exI [of _ c]) auto
  qed
  with s h1(1) w show ?case by auto
qed

lemma code_written_trans:
  assumes "code_written m a b1 is h h1" "code_written m (a + length b1) b2 is h1 h2"
  shows "code_written m a (b1 @ b2) is h h2"
  unfolding code_written_def
proof
  fix i
  note f = code_written_fields [OF assms(1)]
  from assms(1) obtain c where c: "h1 i = (h i)\<lparr>bi_saved_code := c\<rparr>" "length c = length (bi_saved_code (h i))"
    "\<And>j. j < length c \<Longrightarrow> c ! j = (if i \<in> set is \<and> in_part (h i) m a (length b1) j then b1 ! (unat (cb_address (h i)) + j - a) else bi_saved_code (h i) ! j)"
    unfolding code_written_def by blast
  from assms(2) obtain d where d: "h2 i = (h1 i)\<lparr>bi_saved_code := d\<rparr>" "length d = length (bi_saved_code (h1 i))"
    "\<And>j. j < length d \<Longrightarrow> d ! j = (if i \<in> set is \<and> in_part (h1 i) m (a + length b1) (length b2) j then b2 ! (unat (cb_address (h1 i)) + j - (a + length b1)) else bi_saved_code (h1 i) ! j)"
    unfolding code_written_def by blast
  have "d ! j = (if i \<in> set is \<and> in_part (h i) m a (length (b1 @ b2)) j then (b1 @ b2) ! (unat (cb_address (h i)) + j - a) else bi_saved_code (h i) ! j)" if "j < length d" for j
    using d(3) [OF that] c(3) [of j] that c(1,2) d(2) unfolding f(3,11) by (auto simp: in_part_def nth_append)
  with c d show "\<exists>code. h2 i = (h i)\<lparr>bi_saved_code := code\<rparr> \<and> length code = length (bi_saved_code (h i)) \<and>
     (\<forall>j < length code. code ! j = (if i \<in> set is \<and> in_part (h i) m a (length (b1 @ b2)) j then (b1 @ b2) ! (unat (cb_address (h i)) + j - a) else bi_saved_code (h i) ! j))"
    by (intro exI [of _ d]) simp
qed

lemma bytes_written_append:
  assumes "code_written m a b1 is h h1"
  shows "bytes_written m a (b1 @ b2) is h = bytes_written m a b1 is h @ bytes_written m (a + length b1) b2 is h1"
  by (rule nth_equalityI) (auto simp: bytes_written_def nth_append code_written_fields [OF assms] add.assoc split: option.splits)

lemma nothing_written:
  assumes "\<And>i m a. i \<in> set is \<Longrightarrow> \<not> hides (h i) m a"
  shows "bytes_written m a b is h = b" "code_written m a b is h h"
proof -
  have "hider h is m x = None" for x using assms by (auto simp: hider_None)
  then show "bytes_written m a b is h = b" by (simp add: bytes_written_def map_nth)
  show "code_written m a b is h h" unfolding code_written_def
    by (intro allI exI [of _ "bi_saved_code (h _)"]) (use assms in \<open>auto simp: in_part_def\<close>)
qed

lemma check_write_loop_at:
  assumes "direct env" "instructions_ok (bs_bi s) (bs_instructions s)" "unat addr + length buf < 2 ^ 64"
  shows "\<exists>h1. check_write_loop env c addr buf s =
      (Inr (None, bytes_written (ev_mem env c) (unat addr) buf (bs_instructions s) (bs_bi s)), s\<lparr>bs_bi := h1\<rparr>) \<and>
    code_written (ev_mem env c) (unat addr) buf (bs_instructions s) (bs_bi s) h1"
  using assms(2,3)
proof (induction "length buf" arbitrary: addr buf s rule: less_induct)
  case less
  show ?case
  proof (cases "buf = [] \<or> \<not> list_ex (sw_planted s) (bs_instructions s)")
    case True
    show ?thesis
    proof (cases "buf = []")
      case True
      have "code_written (ev_mem env c) (unat addr) [] (bs_instructions s) (bs_bi s) (bs_bi s)"
        unfolding code_written_def by (intro allI exI [of _ "bi_saved_code (bs_bi s _)"]) (auto simp: in_part_def)
      with True show ?thesis by (subst check_write_loop.simps) (auto simp: bytes_written_def intro!: exI [of _ "bs_bi s"])
    next
      case False
      with True have p: "\<not> list_ex (sw_planted s) (bs_instructions s)" by simp
      from nothing_written [OF not_planted_hides [OF p], where b = buf] False p show ?thesis
        by (subst check_write_loop.simps) (auto intro!: exI [of _ "bs_bi s"])
    qed
  next
    case False
    have len: "unat (of_nat (length buf) :: u64) = length buf" using less.prems by (simp add: unat_of_nat)
    then have "0 < (of_nat (length buf) :: u64)" using False by (simp add: word_less_nat_alt)
    from next_block_direct [OF assms(1) this] obtain sz where
      sz: "next_block env c addr (of_nat (length buf)) = Inr (ev_mem env c, addr, sz)" "0 < sz" "sz \<le> of_nat (length buf)" by blast
    have n: "0 < unat sz" "unat sz \<le> length buf" using sz(2,3) len by (simp_all add: word_less_nat_alt word_le_nat_alt)
    have a: "unat (addr + sz) = unat addr + unat sz" using n less.prems by (simp add: unat_word_ariths)
    have w: "unat addr + unat sz < 2 ^ 64" "length (take (unat sz) buf) = unat sz" using n less.prems by simp_all
    from write_block_at [OF less.prems(1) w] obtain h1 where
      h1: "write_block (ev_mem env c) addr sz (bs_instructions s) (take (unat sz) buf, bs_bi s) =
          (bytes_written (ev_mem env c) (unat addr) (take (unat sz) buf) (bs_instructions s) (bs_bi s), h1)"
        "code_written (ev_mem env c) (unat addr) (take (unat sz) buf) (bs_instructions s) (bs_bi s) h1" by blast
    have "instructions_ok h1 (bs_instructions s)" using code_written_fields(6) [OF h1(2)] less.prems(1) by simp
    with less.hyps [of "drop (unat sz) buf" "s\<lparr>bs_bi := h1\<rparr>" "addr + sz"] n less.prems a False obtain h2 where
      h2: "check_write_loop env c (addr + sz) (drop (unat sz) buf) (s\<lparr>bs_bi := h1\<rparr>) =
          (Inr (None, bytes_written (ev_mem env c) (unat addr + unat sz) (drop (unat sz) buf) (bs_instructions s) h1), s\<lparr>bs_bi := h2\<rparr>)"
        "code_written (ev_mem env c) (unat addr + unat sz) (drop (unat sz) buf) (bs_instructions s) h1 h2" by auto
    have "check_write_loop env c addr buf s = (Inr (None, bytes_written (ev_mem env c) (unat addr) buf (bs_instructions s) (bs_bi s)), s\<lparr>bs_bi := h2\<rparr>)"
      using bytes_written_append [OF h1(2), of "drop (unat sz) buf"] w(2) h1(1) h2(1) sz False
      by (subst check_write_loop.simps) (simp add: bindP_def ret_def Let_def)
    moreover have "code_written (ev_mem env c) (unat addr) buf (bs_instructions s) (bs_bi s) h2"
      using code_written_trans [OF h1(2)] h2(2) w(2) by fastforce
    ultimately show ?thesis by blast
  qed
qed

section \<open>Words of the target's memory\<close>

text \<open>
  What \<open>ptrace\<close> is documented to do: to read and write words of the memory of the process. \<open>raw t m a\<close> is the byte at \<open>a\<close> in the memory of process \<open>m\<close> when the target is
  in state \<open>t\<close>.
\<close>

definition ptrace_ok :: "'t bp_env \<Rightarrow> ('t \<Rightarrow> ctx \<Rightarrow> nat \<Rightarrow> byte) \<Rightarrow> bool" where
  "ptrace_ok env raw \<longleftrightarrow>
     (\<forall>t c w ws. ev_peek env t (ev_pid env c) w = Inr ws \<longrightarrow> ws = map (\<lambda>i. raw t (ev_mem env c) (unat w + i)) [0..<8]) \<and>
     (\<forall>t c w ws t1. ev_poke env t (ev_pid env c) w ws = Inr t1 \<longrightarrow>
       raw t1 = (\<lambda>m a. if m = ev_mem env c \<and> unat w \<le> a \<and> a < unat w + 8 then ws ! (a - unat w) else raw t m a))"

definition accessible :: "'t bp_env \<Rightarrow> ctx \<Rightarrow> nat \<Rightarrow> nat \<Rightarrow> bool" where
  "accessible env c a n \<longleftrightarrow> (\<forall>t w ws. unat w < a + n \<and> a < unat w + 8 \<longrightarrow>
     (\<exists>x. ev_peek env t (ev_pid env c) w = Inr x) \<and> (\<exists>t1. ev_poke env t (ev_pid env c) w ws = Inr t1))"

lemma word_start_bounds: "unat (word_start a) \<le> unat a" "unat a < unat (word_start a) + 8"
proof -
  have "a AND 7 \<le> 7" by (rule word_and_le1)
  then have l: "unat (a AND 7) \<le> 7" by (simp add: word_le_nat_alt)
  have "word_start a \<le> a" unfolding word_start_def by (simp add: word_and_le2)
  then show le: "unat (word_start a) \<le> unat a" by (simp add: word_le_nat_alt)
  have "a - word_start a = a AND 7" using word_split_mask [of a 7] unfolding word_start_def by (metis add_diff_cancel_left')
  then have "unat a - unat (word_start a) = unat (a AND 7)" using \<open>word_start a \<le> a\<close> by (metis unat_sub)
  with l le show "unat a < unat (word_start a) + 8" by simp
qed

text \<open>A buffer of \<open>n\<close> bytes for the memory at \<open>a\<close>, not in the last word of the address space.\<close>

definition buffer_at :: "u64 \<Rightarrow> u64 \<Rightarrow> nat \<Rightarrow> bool" where
  "buffer_at address fin n \<longleftrightarrow> fin = address + of_nat n \<and> unat address + n + 8 \<le> 2 ^ 64"

lemma buffer_fin: "buffer_at address fin n \<Longrightarrow> unat fin = unat address + n"
  by (simp add: buffer_at_def unat_plus_small)

lemma word_bytes_nat:
  assumes "buffer_at address fin n" "w < fin"
  shows "word_bytes address fin w = map (\<lambda>i. (i, unat w + i - unat address)) (filter (\<lambda>i. unat address \<le> unat w + i \<and> unat w + i < unat address + n) [0..<8])"
proof -
  have "unat w < unat address + n" using assms buffer_fin by (simp add: word_less_nat_alt)
  then have u: "unat (w + of_nat i) = unat w + i" if "i < 8" for i using that assms(1) by (intro unat_plus_small) (simp add: buffer_at_def)
  have "unat (w + of_nat i - address) = unat w + i - unat address" if "i < 8" "unat address \<le> unat w + i" for i
    using u [OF that(1)] that(2) by (simp add: unat_sub word_le_nat_alt)
  then show ?thesis unfolding word_bytes_def using u buffer_fin [OF assms(1)]
    by (intro map_cong filter_cong) (auto simp: word_le_nat_alt word_less_nat_alt)
qed

lemma word_in_buffer:
  assumes "buffer_at address fin n" "w < fin" "\<not> (w < address \<or> w + 8 > fin)"
  shows "unat address \<le> unat w" "unat w + 8 \<le> unat address + n" "unat (w - address) = unat w - unat address"
proof -
  have "unat w < unat address + n" using assms buffer_fin by (simp add: word_less_nat_alt)
  then have "unat (w + of_nat 8) = unat w + 8" using assms(1) by (intro unat_plus_small) (simp add: buffer_at_def)
  then show "unat address \<le> unat w" "unat w + 8 \<le> unat address + n" "unat (w - address) = unat w - unat address"
    using assms(3) buffer_fin [OF assms(1)] by (auto simp: word_less_nat_alt unat_sub word_le_nat_alt)
qed

lemma get_word_at:
  assumes "buffer_at address fin n" "w < fin" "length word = 8" "length buf = n"
  shows "\<exists>b. get_word address fin w word buf = Inr b \<and> length b = n \<and>
    (\<forall>k < n. b ! k = (if unat w \<le> unat address + k \<and> unat address + k < unat w + 8 then word ! (unat address + k - unat w) else buf ! k))"
proof (cases "w < address \<or> w + 8 > fin")
  case True
  let ?xs = "word_bytes address fin w"
  note n = word_bytes_nat [OF assms(1,2)]
  have d: "distinct (map snd ?xs)" by (auto simp: n distinct_map comp_def inj_on_def)
  have "find (\<lambda>x. snd x = k) ?xs = (if unat w \<le> unat address + k \<and> unat address + k < unat w + 8 then Some (unat address + k - unat w, k) else None)" if "k < n" for k
  proof (cases "unat w \<le> unat address + k \<and> unat address + k < unat w + 8")
    case True
    then have "(unat address + k - unat w, k) \<in> set ?xs" using that by (auto simp: n image_iff)
    from find_snd [OF this d] True show ?thesis by simp
  next
    case False
    then have "\<forall>x \<in> set ?xs. snd x \<noteq> k" by (auto simp: n)
    then have "find (\<lambda>x. snd x = k) ?xs = None" by (force simp: find_None_iff)
    with False show ?thesis by simp
  qed
  with True assms(4) show ?thesis by (auto simp: get_word_def nth_fold_update [OF d])
next
  case False
  note b = word_in_buffer [OF assms(1,2) False]
  have "unat (w - address) + 8 \<le> length buf" using b assms(4) by simp
  with False b assms(3,4) show ?thesis by (auto simp: get_word_def nth_append min_def add.commute)
qed

lemma peek_words_at:
  assumes "ptrace_ok env raw" "buffer_at address fin n" "accessible env c (unat address) n" "unat address < unat w + 8" "length buf = n"
  shows "\<exists>b. peek_words env t (ev_pid env c) address fin w buf = Some (Inr (None, b)) \<and> length b = n \<and>
    (\<forall>k < n. b ! k = (if unat w \<le> unat address + k then raw t (ev_mem env c) (unat address + k) else buf ! k))"
  using assms(4,5)
proof (induction "unat fin - unat w" arbitrary: w buf rule: less_induct)
  case less
  note fin = buffer_fin [OF assms(2)]
  show ?case
  proof (cases "w < fin")
    case False
    then show ?thesis using fin less.prems by (subst peek_words.simps) (auto simp: word_less_nat_alt)
  next
    case True
    then have l: "unat w < unat address + n" using fin by (simp add: word_less_nat_alt)
    then have w8: "unat (w + 8) = unat w + 8" using unat_plus_small [of w 8] assms(2) by (simp add: buffer_at_def)
    from assms(3) l less.prems(1) obtain ws where ws: "ev_peek env t (ev_pid env c) w = Inr ws" unfolding accessible_def by blast
    with assms(1) have wm: "ws = map (\<lambda>i. raw t (ev_mem env c) (unat w + i)) [0..<8]" unfolding ptrace_ok_def by blast
    then have "length ws = 8" by simp
    from get_word_at [OF assms(2) True this less.prems(2)] obtain b where b: "get_word address fin w ws buf = Inr b" "length b = n"
      "\<And>k. k < n \<Longrightarrow> b ! k = (if unat w \<le> unat address + k \<and> unat address + k < unat w + 8 then ws ! (unat address + k - unat w) else buf ! k)" by blast
    have "unat fin - unat (w + 8) < unat fin - unat w" using w8 l fin by simp
    from less.hyps [OF this _ b(2)] less.prems(1) w8 obtain d where d: "peek_words env t (ev_pid env c) address fin (w + 8) b = Some (Inr (None, d))" "length d = n"
      "\<And>k. k < n \<Longrightarrow> d ! k = (if unat w + 8 \<le> unat address + k then raw t (ev_mem env c) (unat address + k) else b ! k)" by auto
    have "d ! k = (if unat w \<le> unat address + k then raw t (ev_mem env c) (unat address + k) else buf ! k)" if "k < n" for k
      using d(3) [OF that] b(3) [OF that] wm by auto
    with d True ws b(1) show ?thesis by (subst peek_words.simps) simp
  qed
qed

lemma new_word_at:
  assumes "ptrace_ok env raw" "buffer_at address fin n" "w < fin" "length buf = n" "\<exists>x. ev_peek env t (ev_pid env c) w = Inr x"
  shows "\<exists>ws. new_word env t (ev_pid env c) address fin w buf = Inr (Inr ws) \<and>
    (\<forall>i < 8. ws ! i = (if unat address \<le> unat w + i \<and> unat w + i < unat address + n then buf ! (unat w + i - unat address) else raw t (ev_mem env c) (unat w + i)))"
proof (cases "w < address \<or> w + 8 > fin")
  case True
  from assms(5) obtain ws where ws: "ev_peek env t (ev_pid env c) w = Inr ws" by blast
  with assms(1) have wm: "ws = map (\<lambda>i. raw t (ev_mem env c) (unat w + i)) [0..<8]" unfolding ptrace_ok_def by blast
  let ?xs = "map prod.swap (word_bytes address fin w)"
  note n = word_bytes_nat [OF assms(2,3)]
  have d: "distinct (map snd ?xs)" by (auto simp: n comp_def)
  have f: "find (\<lambda>x. snd x = i) ?xs = (if unat address \<le> unat w + i \<and> unat w + i < unat address + n then Some (unat w + i - unat address, i) else None)" if "i < 8" for i
  proof (cases "unat address \<le> unat w + i \<and> unat w + i < unat address + n")
    case True
    then have "(unat w + i - unat address, i) \<in> set ?xs" using that by (auto simp: n image_iff)
    from find_snd [OF this d] True show ?thesis by simp
  next
    case False
    then have "\<forall>x \<in> set ?xs. snd x \<noteq> i" by (auto simp: n)
    then have "find (\<lambda>x. snd x = i) ?xs = None" by (force simp: find_None_iff)
    with False show ?thesis by simp
  qed
  have "fold (\<lambda>(i, k) x. x[i := buf ! k]) (word_bytes address fin w) ws = fold (\<lambda>(i, k) x. x[k := buf ! i]) ?xs ws" unfolding fold_map by (intro fold_cong) (auto simp: fun_eq_iff)
  with True ws wm f show ?thesis by (auto simp: new_word_def nth_fold_update [OF d])
next
  case False
  note b = word_in_buffer [OF assms(2,3) False]
  have "unat (w - address) + 8 \<le> length buf" using b assms(4) by simp
  with False b assms(4) show ?thesis by (auto simp: new_word_def add.commute)
qed

lemma poke_words_at:
  assumes "ptrace_ok env raw" "buffer_at address fin n" "accessible env c (unat address) n" "unat address < unat w + 8" "length buf = n"
  shows "\<exists>t1. poke_words env (ev_pid env c) address fin buf w t = Some (Inr None, t1) \<and>
    raw t1 = (\<lambda>m a. if m = ev_mem env c \<and> unat address \<le> a \<and> a < unat address + n \<and> unat w \<le> a then buf ! (a - unat address) else raw t m a)"
  using assms(4)
proof (induction "unat fin - unat w" arbitrary: w t rule: less_induct)
  case less
  note fin = buffer_fin [OF assms(2)]
  show ?case
  proof (cases "w < fin")
    case False
    then have "\<not> (unat address \<le> a \<and> a < unat address + n \<and> unat w \<le> a)" for a using fin by (auto simp: word_less_nat_alt)
    with False show ?thesis by (subst poke_words.simps) (auto simp: fun_eq_iff)
  next
    case True
    then have l: "unat w < unat address + n" using fin by (simp add: word_less_nat_alt)
    then have w8: "unat (w + 8) = unat w + 8" using unat_plus_small [of w 8] assms(2) by (simp add: buffer_at_def)
    from assms(3) l less.prems(1) have acc: "\<exists>x. ev_peek env t (ev_pid env c) w = Inr x" "\<And>ws. \<exists>t1. ev_poke env t (ev_pid env c) w ws = Inr t1" unfolding accessible_def by blast+
    from new_word_at [OF assms(1,2) True assms(5) acc(1)] obtain ws where ws: "new_word env t (ev_pid env c) address fin w buf = Inr (Inr ws)"
      "\<And>i. i < 8 \<Longrightarrow> ws ! i = (if unat address \<le> unat w + i \<and> unat w + i < unat address + n then buf ! (unat w + i - unat address) else raw t (ev_mem env c) (unat w + i))" by blast
    from acc(2) obtain t1 where t1: "ev_poke env t (ev_pid env c) w ws = Inr t1" by blast
    with assms(1) have r1: "raw t1 = (\<lambda>m a. if m = ev_mem env c \<and> unat w \<le> a \<and> a < unat w + 8 then ws ! (a - unat w) else raw t m a)" unfolding ptrace_ok_def by blast
    have "unat fin - unat (w + 8) < unat fin - unat w" using w8 l fin by simp
    from less.hyps [OF this, of t1] less.prems w8 obtain t2 where t2: "poke_words env (ev_pid env c) address fin buf (w + 8) t1 = Some (Inr None, t2)"
      "raw t2 = (\<lambda>m a. if m = ev_mem env c \<and> unat address \<le> a \<and> a < unat address + n \<and> unat w + 8 \<le> a then buf ! (a - unat address) else raw t1 m a)" by auto
    have "raw t2 m a = (if m = ev_mem env c \<and> unat address \<le> a \<and> a < unat address + n \<and> unat w \<le> a then buf ! (a - unat address) else raw t m a)" for m a
    proof (cases "m = ev_mem env c \<and> unat w \<le> a \<and> a < unat w + 8")
      case True
      then have "raw t2 m a = ws ! (a - unat w)" by (simp add: t2(2) r1)
      also have "\<dots> = (if unat address \<le> a \<and> a < unat address + n then buf ! (a - unat address) else raw t m a)" using ws(2) [of "a - unat w"] True by auto
      finally show ?thesis using True by simp
    next
      case False
      then show ?thesis by (auto simp: t2(2) r1)
    qed
    with t2(1) True ws(1) t1 show ?thesis by (subst poke_words.simps) (auto simp: fun_eq_iff)
  qed
qed

section \<open>Reading and writing with breakpoints planted\<close>

definition bp_inv :: "('t \<Rightarrow> ctx \<Rightarrow> nat \<Rightarrow> byte) \<Rightarrow> 't bps \<Rightarrow> bool" where
  "bp_inv raw s \<longleftrightarrow> instructions_ok (bs_bi s) (bs_instructions s) \<and> \<not> bs_planting_instruction s \<and>
     (\<forall>i \<in> set (bs_instructions s). length (bi_saved_code (bs_bi s i)) = MAX_BI_SIZE \<and> length (bi_planted_code (bs_bi s i)) = MAX_BI_SIZE \<and>
       (\<forall>m a. hides (bs_bi s i) m a \<longrightarrow> raw (bs_target s) m a = bi_planted_code (bs_bi s i) ! (a - unat (cb_address (bs_bi s i)))))"

definition seen :: "('t \<Rightarrow> ctx \<Rightarrow> nat \<Rightarrow> byte) \<Rightarrow> 't bps \<Rightarrow> ctx \<Rightarrow> nat \<Rightarrow> byte" where
  "seen raw s m a = shown (bs_bi s) (bs_instructions s) m a (raw (bs_target s) m a)"

definition plain_write :: "ctx \<Rightarrow> nat \<Rightarrow> byte list \<Rightarrow> (ctx \<Rightarrow> nat \<Rightarrow> byte) \<Rightarrow> ctx \<Rightarrow> nat \<Rightarrow> byte" where
  "plain_write m a bs f = (\<lambda>m1 x. if m1 = m \<and> a \<le> x \<and> x < a + length bs then bs ! (x - a) else f m1 x)"

definition plain_read :: "ctx \<Rightarrow> nat \<Rightarrow> nat \<Rightarrow> (ctx \<Rightarrow> nat \<Rightarrow> byte) \<Rightarrow> byte list" where
  "plain_read m a n f = map (\<lambda>k. f m (a + k)) [0..<n]"

text \<open>Memory that a context can access, and not in the last word of the address space.\<close>

definition access_ok :: "'t bp_env \<Rightarrow> ctx \<Rightarrow> u64 \<Rightarrow> nat \<Rightarrow> bool" where
  "access_ok env c address n \<longleftrightarrow> \<not> ev_exited env c \<and> unat address + n + 8 \<le> 2 ^ 64 \<and> accessible env c (unat address) n"

lemma access_buffer:
  assumes "access_ok env c address n"
  shows "buffer_at address (address + of_nat n) n" "\<not> address + of_nat n < address" "unat (of_nat n :: u64) = n" "unat address + n < 2 ^ 64"
proof -
  show b: "buffer_at address (address + of_nat n) n" using assms by (simp add: access_ok_def buffer_at_def)
  show "\<not> address + of_nat n < address" using buffer_fin [OF b] by (simp add: word_less_nat_alt)
  show "unat (of_nat n :: u64) = n" "unat address + n < 2 ^ 64" using assms by (simp_all add: access_ok_def unat_of_nat)
qed

lemma read_words:
  assumes "ptrace_ok env raw" "access_ok env c address (length buf)"
  shows "peek_words env t (ev_pid env c) address (address + of_nat (length buf)) (word_start address) buf =
    Some (Inr (None, plain_read (ev_mem env c) (unat address) (length buf) (raw t)))"
proof -
  have a: "accessible env c (unat address) (length buf)" using assms(2) by (simp add: access_ok_def)
  from peek_words_at [OF assms(1) access_buffer(1) [OF assms(2)] a word_start_bounds(2) refl, of t] obtain b where
    b: "peek_words env t (ev_pid env c) address (address + of_nat (length buf)) (word_start address) buf = Some (Inr (None, b))" "length b = length buf"
      "\<And>k. k < length buf \<Longrightarrow> b ! k = (if unat (word_start address) \<le> unat address + k then raw t (ev_mem env c) (unat address + k) else buf ! k)" by blast
  have "b = plain_read (ev_mem env c) (unat address) (length buf) (raw t)"
    using b(2,3) word_start_bounds(1) [of address] by (intro nth_equalityI) (auto simp: plain_read_def)
  with b(1) show ?thesis by simp
qed

lemma context_read_mem_at:
  assumes "ptrace_ok env raw" "access_ok env c address (length buf)"
    and "check_breakpoints_on_memory_read env c address (plain_read (ev_mem env c) (unat address) (length buf) (raw (bs_target s))) (s\<lparr>bs_mem_err_info := None\<rparr>) =
      (Inr (None, b), s\<lparr>bs_mem_err_info := None\<rparr>)" "length b = length buf"
  shows "context_read_mem env c address buf s = (Inr (None, b), s\<lparr>bs_mem_err_info := None\<rparr>)"
proof (cases "buf = []")
  case True
  with assms(2,4) show ?thesis unfolding context_read_mem_def by (subst read_mem_in.simps) (simp add: access_ok_def)
next
  case False
  note a = access_buffer [OF assms(2)]
  let ?r = "plain_read (ev_mem env c) (unat address) (length buf) (raw (bs_target s))"
  have l: "length ?r = length buf" by (simp add: plain_read_def)
  have v: "valid_size address (of_nat (length buf)) None = of_nat (length buf)" by (simp add: valid_size_def)
  have d: "read_done env c address None ?r (s\<lparr>bs_mem_err_info := None\<rparr>) = (Inr (None, b), s\<lparr>bs_mem_err_info := None\<rparr>)"
    using assms(3) by (simp add: read_done_def l v a(3) Let_def bindP_def ret_def)
  have x: "\<not> ev_exited env c" using assms(2) by (simp add: access_ok_def)
  show ?thesis unfolding context_read_mem_def
    by (subst read_mem_in.simps) (simp add: False a(2) x read_words [OF assms(1,2)] retry_asserts_def retry_in_def d)
qed

text \<open>While the agent plants an instruction it reads and writes the memory as it is.\<close>

lemma read_planting:
  assumes "ptrace_ok env raw" "access_ok env c address (length buf)" "bs_planting_instruction s"
  shows "context_read_mem env c address buf s = (Inr (None, plain_read (ev_mem env c) (unat address) (length buf) (raw (bs_target s))), s\<lparr>bs_mem_err_info := None\<rparr>)"
  by (rule context_read_mem_at [OF assms(1,2)]) (simp_all add: check_breakpoints_on_memory_read_def bindP_getP assms(3) ret_def plain_read_def)

lemma read_seen:
  assumes "ptrace_ok env raw" "direct env" "access_ok env c address (length buf)" "bp_inv raw s"
  shows "context_read_mem env c address buf s = (Inr (None, plain_read (ev_mem env c) (unat address) (length buf) (seen raw s)), s\<lparr>bs_mem_err_info := None\<rparr>)"
proof -
  let ?r = "plain_read (ev_mem env c) (unat address) (length buf) (raw (bs_target s))" and ?s = "s\<lparr>bs_mem_err_info := None\<rparr>"
  have i: "instructions_ok (bs_bi ?s) (bs_instructions ?s)" "\<not> bs_planting_instruction s" using assms(4) by (simp_all add: bp_inv_def)
  have "unat address + length ?r < 2 ^ 64" using access_buffer(4) [OF assms(3)] by (simp add: plain_read_def)
  from check_read_loop_at [OF assms(2) i(1) this, of c] have
    "check_breakpoints_on_memory_read env c address ?r ?s = (Inr (None, plain_read (ev_mem env c) (unat address) (length buf) (seen raw s)), ?s)"
    using i(2) by (simp add: check_breakpoints_on_memory_read_def bindP_getP plain_read_def seen_def)
  from context_read_mem_at [OF assms(1,3) this] show ?thesis by (simp add: plain_read_def)
qed

lemma write_words:
  assumes "ptrace_ok env raw" "access_ok env c address (length buf)"
  shows "\<exists>t1. poke_words env (ev_pid env c) address (address + of_nat (length buf)) buf (word_start address) t = Some (Inr None, t1) \<and>
    raw t1 = plain_write (ev_mem env c) (unat address) buf (raw t)"
proof -
  have a: "accessible env c (unat address) (length buf)" using assms(2) by (simp add: access_ok_def)
  from poke_words_at [OF assms(1) access_buffer(1) [OF assms(2)] a word_start_bounds(2) refl, of t] obtain t1 where
    t1: "poke_words env (ev_pid env c) address (address + of_nat (length buf)) buf (word_start address) t = Some (Inr None, t1)"
      "raw t1 = (\<lambda>m a. if m = ev_mem env c \<and> unat address \<le> a \<and> a < unat address + length buf \<and> unat (word_start address) \<le> a then buf ! (a - unat address) else raw t m a)" by blast
  have "raw t1 = plain_write (ev_mem env c) (unat address) buf (raw t)" using word_start_bounds(1) [of address] by (auto simp: t1(2) plain_write_def fun_eq_iff)
  with t1(1) show ?thesis by blast
qed

lemma context_write_mem_at:
  assumes "ptrace_ok env raw" "access_ok env c address (length buf)"
    and "check_breakpoints_on_memory_write env c address buf (s\<lparr>bs_mem_err_info := None\<rparr>) = (Inr (None, b), s1)" "length b = length buf"
  shows "\<exists>t1. context_write_mem env c address buf s = (Inr None, (if buf = [] then s\<lparr>bs_mem_err_info := None\<rparr> else s1)\<lparr>bs_target := t1\<rparr>) \<and>
    raw t1 = plain_write (ev_mem env c) (unat address) b (raw (if buf = [] then bs_target s else bs_target s1))"
proof (cases "buf = []")
  case True
  have "context_write_mem env c address buf s = (Inr None, s\<lparr>bs_mem_err_info := None, bs_target := bs_target s\<rparr>)"
    using assms(2) True unfolding context_write_mem_def by (subst write_mem_in.simps) (simp add: access_ok_def)
  moreover have "plain_write (ev_mem env c) (unat address) b f = f" for f using True assms(4) by (auto simp: plain_write_def fun_eq_iff)
  ultimately show ?thesis using True by (intro exI [of _ "bs_target s"]) simp
next
  case False
  note a = access_buffer [OF assms(2)]
  have "access_ok env c address (length b)" using assms(2,4) by simp
  from write_words [OF assms(1) this, of "bs_target s1"] obtain t1 where
    t1: "poke_words env (ev_pid env c) address (address + of_nat (length buf)) b (word_start address) (bs_target s1) = Some (Inr None, t1)"
      "raw t1 = plain_write (ev_mem env c) (unat address) b (raw (bs_target s1))" using assms(4) by auto
  have x: "\<not> ev_exited env c" using assms(2) by (simp add: access_ok_def)
  have "context_write_mem env c address buf s = (Inr None, s1\<lparr>bs_target := t1\<rparr>)" unfolding context_write_mem_def
    by (subst write_mem_in.simps) (simp add: False a(2) x assms(3) t1(1) retry_asserts_def retry_in_def write_done_def ret_def)
  with t1(2) False show ?thesis by auto
qed

lemma write_planting:
  assumes "ptrace_ok env raw" "access_ok env c address (length buf)" "bs_planting_instruction s"
  shows "\<exists>t1. context_write_mem env c address buf s = (Inr None, s\<lparr>bs_mem_err_info := None, bs_target := t1\<rparr>) \<and>
    raw t1 = plain_write (ev_mem env c) (unat address) buf (raw (bs_target s))"
proof -
  have "check_breakpoints_on_memory_write env c address buf (s\<lparr>bs_mem_err_info := None\<rparr>) = (Inr (None, buf), s\<lparr>bs_mem_err_info := None\<rparr>)"
    by (simp add: check_breakpoints_on_memory_write_def bindP_getP assms(3) ret_def)
  from context_write_mem_at [OF assms(1,2) this] show ?thesis by auto
qed

lemma written_inv:
  assumes "bp_inv raw s" "code_written m a buf (bs_instructions s) (bs_bi s) h1" "bs_bi s1 = h1" "bs_instructions s1 = bs_instructions s"
    and "bs_planting_instruction s1 = bs_planting_instruction s" "raw (bs_target s1) = plain_write m a (bytes_written m a buf (bs_instructions s) (bs_bi s)) (raw (bs_target s))"
  shows "bp_inv raw s1" "seen raw s1 = plain_write m a buf (seen raw s)"
proof -
  let ?is = "bs_instructions s" and ?h = "bs_bi s" and ?b = "bytes_written m a buf (bs_instructions s) (bs_bi s)"
  note f = code_written_fields [OF assms(2)]
  have ok: "instructions_ok ?h ?is" using assms(1) by (simp add: bp_inv_def)
  have lb: "length ?b = length buf" by (simp add: bytes_written_def)
  have h: "raw (bs_target s1) x y = bi_planted_code (?h i) ! (y - unat (cb_address (?h i)))" if "i \<in> set ?is" "hides (?h i) x y" for i x y
  proof (cases "x = m \<and> a \<le> y \<and> y < a + length buf")
    case True
    then have r: "raw (bs_target s1) x y = ?b ! (y - a)" by (simp add: assms(6) plain_write_def lb)
    have k: "y - a < length buf" "a + (y - a) = y" using True by auto
    have "?b ! (y - a) = bi_planted_code (?h i) ! (y - unat (cb_address (?h i)))" using True that hider_Some [OF ok that(1), of m y] by (simp add: bytes_written_def k)
    with r show ?thesis by simp
  next
    case False
    with that assms(1) show ?thesis by (auto simp: assms(6) plain_write_def lb bp_inv_def)
  qed
  show "bp_inv raw s1" using assms(1,5) h unfolding bp_inv_def assms(3,4) f(1,3,4,6,10) by simp
  show "seen raw s1 = plain_write m a buf (seen raw s)"
  proof (intro ext)
    fix x y
    show "seen raw s1 x y = plain_write m a buf (seen raw s) x y"
    proof (cases "hider ?h ?is x y")
      case None
      then show ?thesis by (auto simp: seen_def shown_def assms(3,4,6) f(5) plain_write_def bytes_written_def)
    next
      case (Some i)
      then have i: "i \<in> set ?is" "hides (?h i) x y" by (auto dest: hider_find)
      then have fit: "bi_saved_size (?h i) \<le> MAX_BI_SIZE" "length (bi_saved_code (?h i)) = MAX_BI_SIZE" using ok by (auto simp: instructions_ok_def planted_fits_def bi_fits_def hides_def)
      from assms(2) obtain code where c: "h1 i = (?h i)\<lparr>bi_saved_code := code\<rparr>" "length code = length (bi_saved_code (?h i))"
        "\<And>j. j < length code \<Longrightarrow> code ! j = (if i \<in> set ?is \<and> in_part (?h i) m a (length buf) j then buf ! (unat (cb_address (?h i)) + j - a) else bi_saved_code (?h i) ! j)"
        unfolding code_written_def by blast
      have j: "y - unat (cb_address (?h i)) < length code" "unat (cb_address (?h i)) + (y - unat (cb_address (?h i))) = y" using i(2) fit c(2) by (auto simp: hides_def)
      have p: "in_part (?h i) m a (length buf) (y - unat (cb_address (?h i))) \<longleftrightarrow> x = m \<and> a \<le> y \<and> y < a + length buf" using i(2) j(2) by (auto simp: in_part_def hides_def)
      show ?thesis using Some i c(3) [OF j(1)] by (simp add: seen_def shown_def assms(3,4) f(5) c(1) p j(2) plain_write_def)
    qed
  qed
qed

lemma write_seen:
  assumes "ptrace_ok env raw" "direct env" "access_ok env c address (length buf)" "bp_inv raw s"
  shows "\<exists>s1. context_write_mem env c address buf s = (Inr None, s1) \<and> bp_inv raw s1 \<and> seen raw s1 = plain_write (ev_mem env c) (unat address) buf (seen raw s)"
proof -
  let ?s = "s\<lparr>bs_mem_err_info := None\<rparr>" and ?m = "ev_mem env c"
  have i: "instructions_ok (bs_bi ?s) (bs_instructions ?s)" "\<not> bs_planting_instruction s" using assms(4) by (simp_all add: bp_inv_def)
  have "bp_inv raw ?s" "seen raw ?s = seen raw s" using assms(4) by (simp_all add: bp_inv_def seen_def fun_eq_iff)
  note inv = this
  from check_write_loop_at [OF assms(2) i(1) access_buffer(4) [OF assms(3)], of c] obtain h1 where
    h1: "check_breakpoints_on_memory_write env c address buf ?s = (Inr (None, bytes_written ?m (unat address) buf (bs_instructions s) (bs_bi s)), ?s\<lparr>bs_bi := h1\<rparr>)"
      "code_written ?m (unat address) buf (bs_instructions s) (bs_bi s) h1"
    using i(2) by (auto simp: check_breakpoints_on_memory_write_def bindP_getP)
  from context_write_mem_at [OF assms(1,3) h1(1)] obtain t1 where
    t1: "context_write_mem env c address buf s = (Inr None, (if buf = [] then ?s else ?s\<lparr>bs_bi := h1\<rparr>)\<lparr>bs_target := t1\<rparr>)"
      "raw t1 = plain_write ?m (unat address) (bytes_written ?m (unat address) buf (bs_instructions s) (bs_bi s)) (raw (bs_target s))"
    by (auto simp: bytes_written_def split: if_splits)
  show ?thesis
  proof (cases "buf = []")
    case True
    with t1(2) have "raw t1 = raw (bs_target s)" by (auto simp: plain_write_def bytes_written_def fun_eq_iff)
    with True t1(1) inv show ?thesis by (auto simp: bp_inv_def seen_def plain_write_def fun_eq_iff)
  next
    case False
    let ?s1 = "?s\<lparr>bs_bi := h1, bs_target := t1\<rparr>"
    have "bp_inv raw ?s1" "seen raw ?s1 = plain_write ?m (unat address) buf (seen raw ?s)"
      using t1(2) h1(2) by (intro written_inv [OF inv(1), of ?m "unat address" buf h1]; simp)+
    with t1(1) False inv(2) show ?thesis by auto
  qed
qed

section \<open>Planting and removing\<close>

lemma hides_same: "instructions_ok h is \<Longrightarrow> i \<in> set is \<Longrightarrow> j \<in> set is \<Longrightarrow> hides (h i) m a \<Longrightarrow> hides (h j) m a \<Longrightarrow> i = j"
  unfolding instructions_ok_def by blast

lemma planted_inv:
  assumes "bp_inv raw s" "i \<in> set (bs_instructions s)" "\<not> bi_planted (bs_bi s i)"
    and "bs_instructions s1 = bs_instructions s" "\<not> bs_planting_instruction s1" "bs_bi s1 = (bs_bi s)(i := bi)"
    and "cb_ctx bi = m" "cb_address bi = address" "bi_planted bi" "bi_saved_size bi = length enc" "bi_fits bi"
    and "bi_planted_code bi = enc @ post" "bi_saved_code bi = plain_read m (unat address) (length enc) (raw (bs_target s)) @ pad"
    and "raw (bs_target s1) = plain_write m (unat address) enc (raw (bs_target s))"
    and free: "\<And>j a. j \<in> set (bs_instructions s) \<Longrightarrow> hides (bs_bi s j) m a \<Longrightarrow> \<not> (unat address \<le> a \<and> a < unat address + length enc)"
  shows "bp_inv raw s1" "seen raw s1 = seen raw s"
proof -
  let ?h = "bs_bi s" and ?is = "bs_instructions s"
  have ok: "instructions_ok ?h ?is" using assms(1) by (simp add: bp_inv_def)
  have hi: "hides bi x a \<longleftrightarrow> x = m \<and> unat address \<le> a \<and> a < unat address + length enc" for x a using assms by (auto simp: hides_def)
  have hj: "hides (bs_bi s1 j) x a \<longleftrightarrow> (if j = i then hides bi x a else hides (?h j) x a)" for j x a by (simp add: assms(6))
  have old: "\<not> hides (?h i) x a" for x a using assms(3) by (simp add: hides_def)
  have ok1: "instructions_ok (bs_bi s1) ?is"
    unfolding instructions_ok_def hj
  proof (intro conjI ballI allI impI)
    show "distinct ?is" using ok by (simp add: instructions_ok_def)
    show "planted_fits (bs_bi s1 j)" if "j \<in> set ?is" for j using ok that assms(6,11) by (auto simp: instructions_ok_def planted_fits_def)
    fix j k x a
    assume "j \<in> set ?is" "k \<in> set ?is" "(if j = i then hides bi x a else hides (?h j) x a) \<and> (if k = i then hides bi x a else hides (?h k) x a)"
    then show "j = k" using free hi hides_same [OF ok] by (auto split: if_splits)
  qed
  have w: "raw (bs_target s1) x a = raw (bs_target s) x a" if "\<not> hides bi x a" for x a using that by (auto simp: assms(14) plain_write_def hi)
  show "bp_inv raw s1"
    unfolding bp_inv_def assms(4)
  proof (intro conjI ballI allI impI)
    fix j assume j: "j \<in> set ?is"
    show "length (bi_saved_code (bs_bi s1 j)) = MAX_BI_SIZE" "length (bi_planted_code (bs_bi s1 j)) = MAX_BI_SIZE"
      using j assms(1,6,11) by (auto simp: bp_inv_def bi_fits_def)
    fix x a assume h: "hides (bs_bi s1 j) x a"
    show "raw (bs_target s1) x a = bi_planted_code (bs_bi s1 j) ! (a - unat (cb_address (bs_bi s1 j)))"
    proof (cases "j = i")
      case True
      with h hj hi have "x = m" "unat address \<le> a" "a < unat address + length enc" by auto
      moreover from this have "a - unat address < length enc" by linarith
      ultimately show ?thesis using True assms(6,8,12) by (simp add: assms(14) plain_write_def nth_append)
    next
      case False
      with h hj have hh: "hides (?h j) x a" by simp
      then have "\<not> hides bi x a" using free [OF j] hi by auto
      with hh j False w assms(1,6) show ?thesis by (simp add: bp_inv_def)
    qed
  qed (use ok1 assms(5) in simp_all)
  show "seen raw s1 = seen raw s"
  proof (intro ext)
    fix x a
    show "seen raw s1 x a = seen raw s x a"
    proof (cases "hides bi x a")
      case True
      then have n: "hider ?h ?is x a = None" using free hi by (auto simp: hider_None)
      have "hider (bs_bi s1) ?is x a = Some i" using True hj by (intro hider_Some [OF ok1 assms(2)]) simp
      moreover have "x = m" "a - unat address < length enc" "unat address + (a - unat address) = a" using True hi by auto
      ultimately show ?thesis using n by (simp add: seen_def shown_def assms(4,6,8,13) nth_append plain_read_def)
    next
      case False
      then have e: "hides (bs_bi s1 j) x a = hides (?h j) x a" for j using hj old by auto
      then have "hider (bs_bi s1) ?is x a = hider ?h ?is x a" by (simp add: hider_def)
      moreover have "j \<noteq> i" if "hider ?h ?is x a = Some j" for j using hider_find [OF that] old by auto
      ultimately show ?thesis using w [OF False] by (auto simp: seen_def shown_def assms(4,6) split: option.splits)
    qed
  qed
qed

lemma removed_inv:
  assumes "bp_inv raw s" "i \<in> set (bs_instructions s)" "bi_planted (bs_bi s i)"
    and "bs_instructions s1 = bs_instructions s" "\<not> bs_planting_instruction s1" "bs_bi s1 = (bs_bi s)(i := (bs_bi s i)\<lparr>bi_planted := False, bi_dirty := False\<rparr>)"
    and "raw (bs_target s1) = plain_write (cb_ctx (bs_bi s i)) (unat (cb_address (bs_bi s i))) (take (bi_saved_size (bs_bi s i)) (bi_saved_code (bs_bi s i))) (raw (bs_target s))"
  shows "bp_inv raw s1" "seen raw s1 = seen raw s"
proof -
  let ?h = "bs_bi s" and ?is = "bs_instructions s" and ?bi = "bs_bi s i"
  have ok: "instructions_ok ?h ?is" using assms(1) by (simp add: bp_inv_def)
  then have fit: "bi_fits ?bi" using assms(2,3) by (simp add: instructions_ok_def planted_fits_def)
  have hj: "hides (bs_bi s1 j) x a \<longleftrightarrow> j \<noteq> i \<and> hides (?h j) x a" for j x a by (simp add: assms(6) hides_def)
  have ok1: "instructions_ok (bs_bi s1) ?is" using ok unfolding instructions_ok_def hj by (simp add: assms(6) planted_fits_def) blast
  have n: "length (take (bi_saved_size ?bi) (bi_saved_code ?bi)) = bi_saved_size ?bi" using fit by (simp add: bi_fits_def)
  have w: "raw (bs_target s1) x a = (if hides ?bi x a then bi_saved_code ?bi ! (a - unat (cb_address ?bi)) else raw (bs_target s) x a)" for x a
    using assms(3) n by (auto simp: assms(7) plain_write_def hides_def)
  have other: "\<not> hides ?bi x a" if "j \<in> set ?is" "j \<noteq> i" "hides (?h j) x a" for j x a using that hides_same [OF ok] assms(2) by blast
  show "bp_inv raw s1"
    using assms(1,5) ok1 other w unfolding bp_inv_def assms(4) hj by (auto simp: assms(6))
  show "seen raw s1 = seen raw s"
  proof (intro ext)
    fix x a
    show "seen raw s1 x a = seen raw s x a"
    proof (cases "hides ?bi x a")
      case True
      then have "hider ?h ?is x a = Some i" by (rule hider_Some [OF ok assms(2)])
      moreover have "hider (bs_bi s1) ?is x a = None" using True other hj by (auto simp: hider_None)
      ultimately show ?thesis using True w by (simp add: seen_def shown_def assms(4))
    next
      case False
      then have "hides (bs_bi s1 j) x a = hides (?h j) x a" for j using hj by auto
      then have "hider (bs_bi s1) ?is x a = hider ?h ?is x a" by (simp add: hider_def)
      moreover have "j \<noteq> i" if "hider ?h ?is x a = Some j" for j using hider_find [OF that] False by auto
      ultimately show ?thesis using w False by (auto simp: seen_def shown_def assms(4,6) split: option.splits)
    qed
  qed
qed

lemma bind_bm [pm_simps]:
  "bindP (get_bi i) k s = k (bs_bi s i) s" "bindP (set_bi i f) k2 s = k2 () (s\<lparr>bs_bi := (bs_bi s)(i := f (bs_bi s i))\<rparr>)"
  "bindP (set_planting b) k2 s = k2 () (s\<lparr>bs_planting_instruction := b\<rparr>)" "bindP (add_sw_bp_cnt n) k2 s = k2 () (s\<lparr>bs_planted_sw_bp_cnt := bs_planted_sw_bp_cnt s + n\<rparr>)"
  by (simp_all add: get_bi_def set_bi_def set_planting_def add_sw_bp_cnt_def bindP_getP bindP_modP)

lemma bind_asserts [pm_simps]: "b \<Longrightarrow> bindP (asserts b) k s = k () s"
  by (simp add: asserts_def)

definition target_after :: "'t bp_env \<Rightarrow> ctx \<Rightarrow> u64 \<Rightarrow> byte list \<Rightarrow> 't \<Rightarrow> 't" where
  "target_after env c address buf t =
     (case poke_words env (ev_pid env c) address (address + of_nat (length buf)) buf (word_start address) t of Some (_, t1) \<Rightarrow> t1 | None \<Rightarrow> t)"

lemma bind_read_planting:
  assumes "ptrace_ok env raw" "access_ok env c address n" "bs_planting_instruction s" "length buf = n"
  shows "bindP (context_read_mem env c address buf) k s = k (None, plain_read (ev_mem env c) (unat address) n (raw (bs_target s))) (s\<lparr>bs_mem_err_info := None\<rparr>)"
  using read_planting [OF assms(1) _ assms(3), of c address buf] assms(2,4) by (simp add: bindP_def)

lemma raw_target_after:
  assumes "ptrace_ok env raw" "access_ok env c address (length buf)"
  shows "raw (target_after env c address buf t) = plain_write (ev_mem env c) (unat address) buf (raw t)"
  using write_words [OF assms, of t] by (auto simp: target_after_def)

lemma code_updates:
  "bi_saved_code_update f (bi_planted_code_update g (b\<lparr>bi_saved_size := n\<rparr>)) =
     b\<lparr>bi_saved_size := n, bi_planted_code := g (bi_planted_code b), bi_saved_code := f (bi_saved_code b)\<rparr>"
  by (cases b) simp

lemma bind_write_planting:
  assumes "ptrace_ok env raw" "access_ok env c address (length buf)" "bs_planting_instruction s" "buf \<noteq> []"
  shows "bindP (context_write_mem env c address buf) k s = k None (s\<lparr>bs_mem_err_info := None, bs_target := target_after env c address buf (bs_target s)\<rparr>)"
proof -
  have x: "\<not> ev_exited env c" using assms(2) by (simp add: access_ok_def)
  from write_words [OF assms(1,2), of "bs_target s"] obtain t1 where
    "poke_words env (ev_pid env c) address (address + of_nat (length buf)) buf (word_start address) (bs_target s) = Some (Inr None, t1)" by blast
  then have "context_write_mem env c address buf s = (Inr None, s\<lparr>bs_mem_err_info := None, bs_target := target_after env c address buf (bs_target s)\<rparr>)"
    unfolding context_write_mem_def
    by (subst write_mem_in.simps) (simp add: assms(3,4) access_buffer(2) [OF assms(2)] x target_after_def check_breakpoints_on_memory_write_def bindP_getP ret_def
        retry_asserts_def retry_in_def write_done_def)
  then show "bindP (context_write_mem env c address buf) k s = k None (s\<lparr>bs_mem_err_info := None, bs_target := target_after env c address buf (bs_target s)\<rparr>)"
    by (simp add: bindP_def)
qed

lemma plant_code_at:
  fixes s :: "'t bps" and i :: bia
  defines "bi \<equiv> bs_bi s i"
  assumes "ptrace_ok env raw" "access_ok env (cb_ctx bi) (cb_address bi) (length enc)" "0 < length enc" "length enc \<le> MAX_BI_SIZE"
    and "length (bi_saved_code bi) = MAX_BI_SIZE" "ev_mem env (cb_ctx bi) = cb_ctx bi"
  shows "\<exists>s1. plant_code env i enc s = (Inr None, s1) \<and> bs_instructions s1 = bs_instructions s \<and> \<not> bs_planting_instruction s1 \<and>
    bs_bi s1 = (bs_bi s)(i := bi\<lparr>bi_saved_size := length enc, bi_planted_code := enc @ drop (length enc) (bi_planted_code bi),
        bi_saved_code := plain_read (cb_ctx bi) (unat (cb_address bi)) (length enc) (raw (bs_target s)) @ drop (length enc) (bi_saved_code bi)\<rparr>) \<and>
    raw (bs_target s1) = plain_write (cb_ctx bi) (unat (cb_address bi)) enc (raw (bs_target s))"
proof -
  have e: "enc \<noteq> []" using assms(4) by auto
  let ?r = "plant_code env i enc s"
  note u = code_updates [of "\<lambda>c. plain_read (cb_ctx bi) (unat (cb_address bi)) (length enc) (raw (bs_target s)) @ drop (length enc) c" "\<lambda>p. enc @ drop (length enc) p" "length enc" bi]
  have "fst ?r = Inr None \<and> bs_instructions (snd ?r) = bs_instructions s \<and> \<not> bs_planting_instruction (snd ?r) \<and>
    bs_bi (snd ?r) = (bs_bi s)(i := bi\<lparr>bi_saved_size := length enc, bi_planted_code := enc @ drop (length enc) (bi_planted_code bi),
        bi_saved_code := plain_read (cb_ctx bi) (unat (cb_address bi)) (length enc) (raw (bs_target s)) @ drop (length enc) (bi_saved_code bi)\<rparr>) \<and>
    raw (bs_target (snd ?r)) = plain_write (cb_ctx bi) (unat (cb_address bi)) enc (raw (bs_target s))"
    using assms(4-6) unfolding plant_code_def Let_def
    by (simp add: bind_bm bind_asserts ret_def bi_def [symmetric] bind_read_planting [OF assms(2,3)] bind_write_planting [OF assms(2,3) _ e] raw_target_after [OF assms(2,3)] u assms(7))
  then show ?thesis by (intro exI [of _ "snd ?r"]) (simp add: prod_eq_iff)
qed

lemma select_same:
  assumes "\<And>i. i \<in> set is \<Longrightarrow> bi_ph_ctx (g i) = bi_ph_ctx (h i) \<and> bi_ph_addr (g i) = bi_ph_addr (h i) \<and> bi_isa_conflict (g i) = bi_isa_conflict (h i) \<and> bi_bp_encoding (g i) = bi_bp_encoding (h i)"
  shows "select_sw_breakpoint_isa c a (map g is) e = select_sw_breakpoint_isa c a (map h is) e"
  using assms by (induction "is" arbitrary: e) auto

lemma for_each_set_bp: "\<exists>X. for_each (\<lambda>r. set_bp (f r) g) rs s = (Inr (), s\<lparr>bs_bp := X\<rparr>)"
proof (induction rs arbitrary: s)
  case Nil
  show ?case by (intro exI [of _ "bs_bp s"]) (simp add: ret_def)
next
  case (Cons r rs)
  from Cons [of "s\<lparr>bs_bp := (bs_bp s)(f r := g (bs_bp s (f r)))\<rparr>"] show ?case by (auto simp: set_bp_def bindP_modP)
qed

lemma end_planting_at:
  fixes s :: "'a bps"
  shows "\<exists>s1. end_planting i n err s = (Inr (), s1) \<and> bs_instructions s1 = bs_instructions s \<and> bs_planting_instruction s1 = bs_planting_instruction s \<and> bs_target s1 = bs_target s \<and>
    bs_bi s1 = (bs_bi s)(i := (bs_bi s i)\<lparr>bi_planting_error := err, bi_planted := (err = None)\<rparr>)"
proof -
  let ?c = "n \<noteq> bi_saved_size (bs_bi s i) \<or> bi_planting_error (bs_bi s i) \<noteq> err"
  let ?s1 = "s\<lparr>bs_bi := (bs_bi s)(i := (bs_bi s i)\<lparr>bi_planting_error := err\<rparr>)\<rparr>"
  obtain X where X: "(if ?c then bindP (set_bi i (bi_planting_error_update (\<lambda>_. err))) (\<lambda>_. status_changed i) else ret ()) s = (Inr (), ?s1\<lparr>bs_bp := X\<rparr>)"
  proof (cases ?c)
    case True
    obtain X where "status_changed i ?s1 = (Inr (), ?s1\<lparr>bs_bp := X\<rparr>)"
      using for_each_set_bp [of ref_bp "bp_status_changed_update (\<lambda>_. True)" "bi_refs (bs_bi ?s1 i)" ?s1] by (auto simp: status_changed_def bind_bm)
    with True show ?thesis by (intro that [of X]) (simp add: bind_bm)
  next
    case False
    then have "?s1\<lparr>bs_bp := bs_bp s\<rparr> = s" by (auto simp: fun_upd_idem)
    with False show ?thesis by (intro that [of "bs_bp s"]) (simp add: ret_def)
  qed
  have b: "bindP (if ?c then bindP (set_bi i (bi_planting_error_update (\<lambda>_. err))) (\<lambda>_. status_changed i) else ret ()) f s = f () (?s1\<lparr>bs_bp := X\<rparr>)" for f :: "unit \<Rightarrow> ('a bps, unit) sx"
    unfolding bindP_def [of "if ?c then _ else _"] X by simp
  show ?thesis unfolding end_planting_def bind_bm b by (auto simp: bind_bm add_sw_bp_cnt_def modP_def ret_def)
qed

text \<open>
  A software breakpoint can be planted: the debug registers do not support it, the encoding is known, the code can be accessed, and no other planted instruction is in the way.
\<close>

definition plant_ready :: "'t bp_env \<Rightarrow> 't bps \<Rightarrow> bia \<Rightarrow> byte list \<Rightarrow> bool" where
  "plant_ready env s i enc \<longleftrightarrow>
     (let bi = bs_bi s i in
      i \<in> set (bs_instructions s) \<and> can_plant env bi \<and> \<not> bi_virtual_addr bi \<and> \<not> bi_hardware bi \<and>
      (\<exists>e. ev_plant env (bs_target s) i (cb_ctx bi, cb_address bi, cb_length bi, cb_access_types bi) = (Some e, bs_target s) \<and> get_error_code e = Some ERR_UNSUPPORTED) \<and>
      select_sw_breakpoint_isa (cb_ctx bi) (cb_address bi) (map (bs_bi s) (bs_instructions s)) None = Inr (Some enc) \<and>
      0 < length enc \<and> length enc \<le> MAX_BI_SIZE \<and> access_ok env (cb_ctx bi) (cb_address bi) (length enc) \<and> ev_mem env (cb_ctx bi) = cb_ctx bi)"

definition plant_ok :: "'t bp_env \<Rightarrow> 't bps \<Rightarrow> bia \<Rightarrow> byte list \<Rightarrow> bool" where
  "plant_ok env s i enc \<longleftrightarrow> plant_ready env s i enc \<and>
     (\<forall>j \<in> set (bs_instructions s). \<forall>a. hides (bs_bi s j) (cb_ctx (bs_bi s i)) a \<longrightarrow>
       \<not> (unat (cb_address (bs_bi s i)) \<le> a \<and> a < unat (cb_address (bs_bi s i)) + length enc))"

lemma plant_effect:
  fixes s :: "'t bps" and i :: bia
  defines "bi \<equiv> bs_bi s i"
  assumes "ptrace_ok env raw" "plant_ready env s i enc" "length (bi_saved_code bi) = MAX_BI_SIZE"
  obtains s1 where "plant_instruction env i s = (Inr (), s1)" "bs_instructions s1 = bs_instructions s" "\<not> bs_planting_instruction s1"
    "bs_bi s1 = (bs_bi s)(i := bi\<lparr>bi_unsupported := True, bi_saved_size := length enc, bi_planted_code := enc @ drop (length enc) (bi_planted_code bi),
        bi_saved_code := plain_read (cb_ctx bi) (unat (cb_address bi)) (length enc) (raw (bs_target s)) @ drop (length enc) (bi_saved_code bi),
        bi_planting_error := None, bi_planted := True\<rparr>)"
    "raw (bs_target s1) = plain_write (cb_ctx bi) (unat (cb_address bi)) enc (raw (bs_target s))"
proof -
  define b1 where "b1 = bi\<lparr>bi_saved_size := 0, bi_unsupported := True\<rparr>"
  let ?is = "bs_instructions s" and ?n = "length enc"
  from assms(3) obtain e where
    p: "i \<in> set ?is" "can_plant env bi" "\<not> bi_virtual_addr bi" "\<not> bi_hardware bi"
      "ev_plant env (bs_target s) i (cb_ctx bi, cb_address bi, cb_length bi, cb_access_types bi) = (Some e, bs_target s)" "get_error_code e = Some ERR_UNSUPPORTED"
      "select_sw_breakpoint_isa (cb_ctx bi) (cb_address bi) (map (bs_bi s) ?is) None = Inr (Some enc)"
      "0 < ?n" "?n \<le> MAX_BI_SIZE" "access_ok env (cb_ctx bi) (cb_address bi) ?n" "ev_mem env (cb_ctx bi) = cb_ctx bi"
    unfolding plant_ready_def bi_def Let_def by blast
  let ?s1 = "s\<lparr>bs_bi := (bs_bi s)(i := b1), bs_target := bs_target s\<rparr>"
  have b1: "bs_bi ?s1 i = b1" "cb_ctx b1 = cb_ctx bi" "cb_address b1 = cb_address bi" "bi_saved_code b1 = bi_saved_code bi" "bi_planted_code b1 = bi_planted_code bi"
    by (simp_all add: b1_def)
  have sel: "select_sw_breakpoint_isa (cb_ctx bi) (cb_address bi) (map (bs_bi ?s1) ?is) None = Inr (Some enc)"
    using select_same [of ?is "bs_bi ?s1" "bs_bi s"] p(7) by (simp add: b1_def bi_def)
  have nc: "no_code bi = False" using p(3) by (simp add: no_code_def)
  have "plant_in_context env i (s\<lparr>bs_bi := (bs_bi s)(i := bi\<lparr>bi_saved_size := 0, bi_unsupported := False\<rparr>)\<rparr>) = (Inr (Some e), ?s1)"
    using p(5,6) by (simp add: plant_in_context_def bind_bm bindP_getP bindP_modP ret_def b1_def)
  then have 1: "plant_instruction env i s = bindP (plant_software env i) (end_planting i (bi_saved_size bi)) ?s1"
    unfolding plant_instruction_def using p(2-4) nc
    by (simp add: bind_bm bi_def [symmetric] bind_asserts bindP_def [of "plant_in_context _ _"]) (simp add: b1_def)
  have 2: "plant_software env i ?s1 = plant_code env i enc ?s1"
    unfolding plant_software_def using p(1) sel by (simp add: bind_bm bindP_getP bind_asserts b1(2,3))
  from plant_code_at [of env raw ?s1 i enc, unfolded b1, OF assms(2) p(10,8,9) assms(4) p(11)] obtain s2 where
    s2: "plant_code env i enc ?s1 = (Inr None, s2)" "bs_instructions s2 = ?is" "\<not> bs_planting_instruction s2"
      "bs_bi s2 = (bs_bi s)(i := b1\<lparr>bi_saved_size := ?n, bi_planted_code := enc @ drop ?n (bi_planted_code bi),
        bi_saved_code := plain_read (cb_ctx bi) (unat (cb_address bi)) ?n (raw (bs_target s)) @ drop ?n (bi_saved_code bi)\<rparr>)"
      "raw (bs_target s2) = plain_write (cb_ctx bi) (unat (cb_address bi)) enc (raw (bs_target s))" by auto
  from end_planting_at [of i "bi_saved_size bi" None s2] obtain s3 where
    s3: "end_planting i (bi_saved_size bi) None s2 = (Inr (), s3)" "bs_instructions s3 = bs_instructions s2" "bs_planting_instruction s3 = bs_planting_instruction s2" "bs_target s3 = bs_target s2"
      "bs_bi s3 = (bs_bi s2)(i := (bs_bi s2 i)\<lparr>bi_planting_error := None, bi_planted := True\<rparr>)" by auto
  show ?thesis
  proof (rule that [of s3])
    show "plant_instruction env i s = (Inr (), s3)" using 1 2 s2(1) s3(1) by (simp add: bindP_def)
  qed (use s2 s3 in \<open>simp_all add: b1_def\<close>)
qed

lemma plant_instruction_at:
  assumes "ptrace_ok env raw" "bp_inv raw s" "plant_ok env s i enc"
  shows "\<exists>s1. plant_instruction env i s = (Inr (), s1) \<and> bp_inv raw s1 \<and> seen raw s1 = seen raw s \<and> bi_planted (bs_bi s1 i) \<and> bi_planting_error (bs_bi s1 i) = None"
proof -
  define bi where "bi = bs_bi s i"
  let ?is = "bs_instructions s" and ?n = "length enc"
  have r: "plant_ready env s i enc" and free: "\<And>j a. j \<in> set ?is \<Longrightarrow> hides (bs_bi s j) (cb_ctx bi) a \<Longrightarrow> \<not> (unat (cb_address bi) \<le> a \<and> a < unat (cb_address bi) + ?n)"
    using assms(3) unfolding plant_ok_def bi_def by blast+
  have p: "i \<in> set ?is" "\<not> bi_planted (bs_bi s i)" "0 < ?n" "?n \<le> MAX_BI_SIZE" "access_ok env (cb_ctx bi) (cb_address bi) ?n"
    using r unfolding plant_ready_def Let_def can_plant_def bi_def by blast+
  have len: "length (bi_saved_code (bs_bi s i)) = MAX_BI_SIZE" "length (bi_planted_code (bs_bi s i)) = MAX_BI_SIZE" using assms(2) p(1) by (simp_all add: bp_inv_def)
  obtain s1 where s1: "plant_instruction env i s = (Inr (), s1)" "bs_instructions s1 = ?is" "\<not> bs_planting_instruction s1"
    "bs_bi s1 = (bs_bi s)(i := bi\<lparr>bi_unsupported := True, bi_saved_size := ?n, bi_planted_code := enc @ drop ?n (bi_planted_code bi),
        bi_saved_code := plain_read (cb_ctx bi) (unat (cb_address bi)) ?n (raw (bs_target s)) @ drop ?n (bi_saved_code bi),
        bi_planting_error := None, bi_planted := True\<rparr>)"
    "raw (bs_target s1) = plain_write (cb_ctx bi) (unat (cb_address bi)) enc (raw (bs_target s))"
    unfolding bi_def by (rule plant_effect [OF assms(1) r len(1)]) blast
  let ?bi = "bs_bi s1 i"
  have q: "bs_bi s1 = (bs_bi s)(i := ?bi)" "cb_ctx ?bi = cb_ctx bi" "cb_address ?bi = cb_address bi" "bi_planted ?bi" "bi_saved_size ?bi = ?n" using s1(4) by simp_all
  have fits: "bi_fits ?bi" using len p(3,4) access_buffer(4) [OF p(5)] by (simp add: s1(4) bi_fits_def plain_read_def bi_def)
  have c: "bi_planted_code ?bi = enc @ drop ?n (bi_planted_code bi)"
    "bi_saved_code ?bi = plain_read (cb_ctx bi) (unat (cb_address bi)) ?n (raw (bs_target s)) @ drop ?n (bi_saved_code bi)" using s1(4) by simp_all
  note inv = planted_inv [OF assms(2) p(1,2) s1(2,3) q fits c s1(5)]
  have "bp_inv raw s1" by (rule inv(1)) (rule free)
  moreover have "seen raw s1 = seen raw s" by (rule inv(2)) (rule free)
  moreover have "bi_planting_error (bs_bi s1 i) = None" by (simp add: s1(4))
  ultimately show ?thesis using s1(1) q(4) by blast
qed

definition remove_ok :: "'t bp_env \<Rightarrow> 't bps \<Rightarrow> bia \<Rightarrow> bool" where
  "remove_ok env s i \<longleftrightarrow>
     (let bi = bs_bi s i in
      i \<in> set (bs_instructions s) \<and> bi_planted bi \<and> bi_planting_error bi = None \<and> bi_address_error bi = None \<and> ev_all_stopped env (cb_ctx bi) \<and> bi_saved_size bi \<noteq> 0 \<and>
      access_ok env (cb_ctx bi) (cb_address bi) (bi_saved_size bi) \<and> ev_mem env (cb_ctx bi) = cb_ctx bi)"

lemma remove_effect:
  fixes s :: "'t bps" and i :: bia
  defines "bi \<equiv> bs_bi s i" and "m \<equiv> cb_ctx (bs_bi s i)" and "a \<equiv> unat (cb_address (bs_bi s i))" and "n \<equiv> bi_saved_size (bs_bi s i)"
  assumes "ptrace_ok env raw" "remove_ok env s i" "n \<le> length (bi_saved_code bi)"
  obtains s1 where "remove_instruction env i s = (Inr None, s1)" "bs_instructions s1 = bs_instructions s" "\<not> bs_planting_instruction s1"
    "bs_bi s1 = (bs_bi s)(i := bi\<lparr>bi_planted := False, bi_dirty := False\<rparr>)"
    "raw (bs_target s1) = (if plain_read m a n (raw (bs_target s)) = take n (bi_planted_code bi) then plain_write m a (take n (bi_saved_code bi)) (raw (bs_target s)) else raw (bs_target s))"
proof -
  from assms(6) have p: "bi_planted bi" "bi_planting_error bi = None" "bi_address_error bi = None" "ev_all_stopped env m" "n \<noteq> 0"
      "access_ok env m (cb_address bi) n" "ev_mem env m = m" unfolding remove_ok_def bi_def m_def n_def Let_def by blast+
  let ?code = "take n (bi_saved_code bi)"
  have l: "length ?code = n" "?code \<noteq> []" using p(5) assms(7) by auto
  have x: "\<not> ev_exited env m" using p(6) by (simp add: access_ok_def)
  have acc: "access_ok env m (cb_address bi) (length ?code)" using p(6) l(1) by simp
  let ?r = "remove_instruction env i s"
  have f: "bs_bi s i = bi" "cb_ctx bi = m" "unat (cb_address bi) = a" "bi_saved_size bi = n" by (simp_all add: bi_def m_def a_def n_def)
  have "fst ?r = Inr None \<and> bs_instructions (snd ?r) = bs_instructions s \<and> \<not> bs_planting_instruction (snd ?r) \<and>
    bs_bi (snd ?r) = (bs_bi s)(i := bi\<lparr>bi_planted := False, bi_dirty := False\<rparr>) \<and>
    raw (bs_target (snd ?r)) = (if plain_read m a n (raw (bs_target s)) = take n (bi_planted_code bi) then plain_write m a ?code (raw (bs_target s)) else raw (bs_target s))"
    using p(1-5) unfolding remove_instruction_def restore_code_def Let_def
    by (simp add: bind_bm bind_asserts ret_def x f bind_read_planting [OF assms(5) p(6)] p(7) bind_write_planting [OF assms(5) acc _ l(2)] raw_target_after [OF assms(5) acc])
  then show ?thesis by (intro that [of "snd ?r"]) (simp_all add: prod_eq_iff)
qed

lemma remove_instruction_at:
  assumes "ptrace_ok env raw" "bp_inv raw s" "remove_ok env s i"
  shows "\<exists>s1. remove_instruction env i s = (Inr None, s1) \<and> bp_inv raw s1 \<and> seen raw s1 = seen raw s \<and> \<not> bi_planted (bs_bi s1 i)"
proof -
  define bi where "bi = bs_bi s i"
  have p: "i \<in> set (bs_instructions s)" "bi_planted bi" using assms(3) unfolding remove_ok_def bi_def Let_def by blast+
  have fit: "bi_fits bi" using assms(2) p by (auto simp: bp_inv_def instructions_ok_def planted_fits_def bi_def)
  have h: "raw (bs_target s) (cb_ctx bi) (unat (cb_address bi) + k) = bi_planted_code bi ! k" if "k < bi_saved_size bi" for k
  proof -
    have "hides bi (cb_ctx bi) (unat (cb_address bi) + k)" using that p(2) by (simp add: hides_def)
    with assms(2) p(1) show ?thesis by (auto simp: bp_inv_def bi_def)
  qed
  have r: "plain_read (cb_ctx bi) (unat (cb_address bi)) (bi_saved_size bi) (raw (bs_target s)) = take (bi_saved_size bi) (bi_planted_code bi)"
    using fit h by (intro nth_equalityI) (auto simp: plain_read_def bi_fits_def)
  have "bi_saved_size (bs_bi s i) \<le> length (bi_saved_code (bs_bi s i))" using fit by (simp add: bi_fits_def bi_def)
  from remove_effect [OF assms(1,3) this] obtain s1 where
    f: "remove_instruction env i s = (Inr None, s1)" "bs_instructions s1 = bs_instructions s" "\<not> bs_planting_instruction s1"
      "bs_bi s1 = (bs_bi s)(i := bi\<lparr>bi_planted := False, bi_dirty := False\<rparr>)"
      "raw (bs_target s1) = plain_write (cb_ctx bi) (unat (cb_address bi)) (take (bi_saved_size bi) (bi_saved_code bi)) (raw (bs_target s))"
    unfolding bi_def [symmetric] using r by auto
  from removed_inv [OF assms(2) p(1) p(2) [unfolded bi_def] f(2,3) f(4,5) [unfolded bi_def]] f(1,4) show ?thesis by auto
qed

section \<open>Clients and breakpoints\<close>

text \<open>What happens to a target that is debugged: clients read and write its memory, the agent plants and removes breakpoints.\<close>

datatype mem_op = OpRead ctx u64 nat | OpWrite ctx u64 "byte list" | OpPlant bia "byte list" | OpRemove bia

definition mem_step :: "'t bp_env \<Rightarrow> mem_op \<Rightarrow> ('t, errno option \<times> byte list) bm" where
  "mem_step env op =
     (case op of
        OpRead c a n \<Rightarrow> context_read_mem env c a (replicate n 0)
      | OpWrite c a bs \<Rightarrow> bindP (context_write_mem env c a bs) (\<lambda>e. ret (e, []))
      | OpPlant i _ \<Rightarrow> bindP (plant_instruction env i) (\<lambda>_. bindP (get_bi i) (\<lambda>bi. ret (bi_planting_error bi, [])))
      | OpRemove i \<Rightarrow> bindP (remove_instruction env i) (\<lambda>e. ret (e, [])))"

definition op_ok :: "'t bp_env \<Rightarrow> 't bps \<Rightarrow> mem_op \<Rightarrow> bool" where
  "op_ok env s op =
     (case op of
        OpRead c a n \<Rightarrow> access_ok env c a n
      | OpWrite c a bs \<Rightarrow> access_ok env c a (length bs)
      | OpPlant i enc \<Rightarrow> plant_ok env s i enc
      | OpRemove i \<Rightarrow> remove_ok env s i)"

inductive mem_run :: "'t bp_env \<Rightarrow> 't bps \<Rightarrow> mem_op list \<Rightarrow> (errno option \<times> byte list) list \<Rightarrow> 't bps \<Rightarrow> bool" for env where
  mem_run_Nil: "mem_run env s [] [] s"
| mem_run_Cons: "op_ok env s op \<Longrightarrow> mem_step env op s = (Inr b, s1) \<Longrightarrow> mem_run env s1 ops bs s2 \<Longrightarrow> mem_run env s (op # ops) (b # bs) s2"

text \<open>The same on a memory without any breakpoints.\<close>

fun plain_op :: "(ctx \<Rightarrow> ctx) \<Rightarrow> mem_op \<Rightarrow> (ctx \<Rightarrow> nat \<Rightarrow> byte) \<Rightarrow> (errno option \<times> byte list) \<times> (ctx \<Rightarrow> nat \<Rightarrow> byte)" where
  "plain_op mem (OpRead c a n) f = ((None, plain_read (mem c) (unat a) n f), f)"
| "plain_op mem (OpWrite c a bs) f = ((None, []), plain_write (mem c) (unat a) bs f)"
| "plain_op mem (OpPlant i enc) f = ((None, []), f)"
| "plain_op mem (OpRemove i) f = ((None, []), f)"

fun plain_run :: "(ctx \<Rightarrow> ctx) \<Rightarrow> mem_op list \<Rightarrow> (ctx \<Rightarrow> nat \<Rightarrow> byte) \<Rightarrow> (errno option \<times> byte list) list \<times> (ctx \<Rightarrow> nat \<Rightarrow> byte)" where
  "plain_run mem [] f = ([], f)"
| "plain_run mem (op # ops) f = (case plain_op mem op f of (b, g) \<Rightarrow> case plain_run mem ops g of (bs, h) \<Rightarrow> (b # bs, h))"

lemma mem_step_at:
  assumes "ptrace_ok env raw" "direct env" "bp_inv raw s" "op_ok env s op"
  shows "\<exists>b s1. mem_step env op s = (Inr b, s1) \<and> bp_inv raw s1 \<and> plain_op (ev_mem env) op (seen raw s) = (b, seen raw s1)"
proof (cases op)
  case (OpRead c a n)
  with assms(4) have a: "access_ok env c a (length (replicate n (0 :: byte)))" by (simp add: op_ok_def)
  have "bp_inv raw (s\<lparr>bs_mem_err_info := None\<rparr>)" "seen raw (s\<lparr>bs_mem_err_info := None\<rparr>) = seen raw s" using assms(3) by (simp_all add: bp_inv_def seen_def fun_eq_iff)
  with OpRead read_seen [OF assms(1,2) a assms(3)] show ?thesis by (simp add: mem_step_def bindP_def ret_def)
next
  case (OpWrite c a bs)
  with assms(4) have a: "access_ok env c a (length bs)" by (simp add: op_ok_def)
  from OpWrite write_seen [OF assms(1,2) a assms(3)] show ?thesis by (auto simp: mem_step_def bindP_def ret_def)
next
  case (OpPlant i enc)
  with assms(4) have a: "plant_ok env s i enc" by (simp add: op_ok_def)
  from OpPlant plant_instruction_at [OF assms(1,3) a] show ?thesis by (auto simp: mem_step_def bindP_def ret_def get_bi_def getP_def)
next
  case (OpRemove i)
  with assms(4) have a: "remove_ok env s i" by (simp add: op_ok_def)
  from OpRemove remove_instruction_at [OF assms(1,3) a] show ?thesis by (auto simp: mem_step_def bindP_def ret_def)
qed

text \<open>
  C5: Breakpoints are invisible. Whatever clients read and write while the agent plants and removes software breakpoints that do not overlap, in any order,
  no operation reports an error and every read returns what it would return from a plain memory on which only the writes were done; when a breakpoint is planted in the middle of what
  is written the new code is the one that appears when it is removed. At every moment the instructions that are planted are in the memory.
\<close>

theorem breakpoints_invisible:
  assumes "mem_run env s ops bs s1" "ptrace_ok env raw" "direct env" "bp_inv raw s"
  shows "plain_run (ev_mem env) ops (seen raw s) = (bs, seen raw s1) \<and> bp_inv raw s1"
  using assms(1,4)
proof (induction rule: mem_run.induct)
  case (mem_run_Cons s op b s1 ops bs s2)
  from mem_step_at [OF assms(2,3) mem_run_Cons.prems mem_run_Cons.hyps(1)] mem_run_Cons.hyps(2) have
    "bp_inv raw s1" "plain_op (ev_mem env) op (seen raw s) = (b, seen raw s1)" by auto
  with mem_run_Cons.IH show ?case by simp
qed simp

text \<open>
  C6: Neither do the operations fail an assertion, access memory outside of a buffer or run forever: an access to accessible memory, planting at a free place and removing a planted instruction succeed, so that a
  run can always be continued with them.
\<close>

theorem breakpoint_ops_succeed:
  assumes "ptrace_ok env raw" "direct env" "bp_inv raw s" "op_ok env s op"
  shows "\<exists>b s1. mem_run env s [op] [(None, b)] s1 \<and> bp_inv raw s1"
proof -
  from mem_step_at [OF assms] obtain b s1 where "mem_step env op s = (Inr b, s1)" "bp_inv raw s1" "plain_op (ev_mem env) op (seen raw s) = (b, seen raw s1)" by blast
  moreover from this(3) have "b = (None, snd b)" by (cases op) auto
  ultimately show ?thesis using assms(4) by (metis mem_run.intros)
qed

section \<open>Examples\<close>

text \<open>A target whose memory is a function, with every address accessible, and no debug registers.\<close>

definition ram_env :: "byte list \<Rightarrow> (ctx \<Rightarrow> nat \<Rightarrow> byte) bp_env" where
  "ram_env encoding = \<lparr>ev_exited = (\<lambda>_. False), ev_exiting = (\<lambda>_. False), ev_all_stopped = (\<lambda>_. True), ev_process = id, ev_mem = id, ev_parent = (\<lambda>_. None), ev_children = (\<lambda>_. []),
     ev_pid = int, ev_process_state = (\<lambda>_. CHR ''t''), ev_canonical = linux_canonical id,
     ev_peek = (\<lambda>t pid w. Inr (map (\<lambda>i. t (nat pid) (unat w + i)) [0..<8])),
     ev_poke = (\<lambda>t pid w ws. Inr (\<lambda>m a. if m = nat pid \<and> unat w \<le> a \<and> a < unat w + 8 then ws ! (a - unat w) else t m a)),
     ev_plant = (\<lambda>t _ _. (Some (Tcf ERR_UNSUPPORTED), t)), ev_unplant = (\<lambda>t _ _. (None, t)), ev_line_ok = (\<lambda>_ _ _. True), ev_channels = [], ev_isa = (\<lambda>_ _ _. None),
     ev_break_instruction = (\<lambda>_. Some encoding)\<rparr>"

definition ram_bi :: "byte list \<Rightarrow> u64 \<Rightarrow> BreakInstruction" where
  "ram_bi encoding a = new_bi\<lparr>cb_ctx := 1, cb_address := a, cb_length := 1, cb_access_types := 4, bi_valid := True,
     bi_refs := [\<lparr>ref_bp = 0, ref_ctx = 1, ref_addr = a, ref_cnt = 1, ref_line_offs_error = False\<rparr>], bi_bp_encoding := Some encoding, bi_ph_ctx := Some 1, bi_ph_addr := a\<rparr>"

definition ram_state :: "byte list \<Rightarrow> (ctx \<Rightarrow> nat \<Rightarrow> byte) bps" where
  "ram_state encoding = \<lparr>bs_target = (\<lambda>m a. if 0x1000 \<le> a \<and> a < 0x1006 then of_nat (a - 0x0fff) else 0),
     bs_bp = (\<lambda>_. \<lparr>bp_type = None, bp_location = Some ''main'', bp_file = None, bp_line_offs_check = False, bp_access_mode = 0, bp_instruction_cnt = 2, bp_error = None,
       bp_attrs_changed = False, bp_status_changed = False, bp_hit_count = []\<rparr>),
     bs_bi = (\<lambda>i. ram_bi encoding (if i = 0 then 0x1000 else 0x1002)), bs_instructions = [0, 1], bs_next = 2, bs_ctx_instruction_cnt = (\<lambda>_. 2), bs_ctx_refs = (\<lambda>_. 3), bs_disposing = [],
     bs_stopped_by_cb = (\<lambda>_. []), bs_planting_instruction = False, bs_planted_sw_bp_cnt = 0, bs_mem_err_info = None\<rparr>"

lemma ram_hyps: "ptrace_ok (ram_env enc) (\<lambda>t. t)" "direct (ram_env enc)" "bp_inv (\<lambda>t. t) (ram_state enc)"
  by (auto simp: ptrace_ok_def ram_env_def fun_eq_iff intro!: linux_direct)
    (auto simp: bp_inv_def instructions_ok_def ram_state_def ram_bi_def new_bi_def planted_fits_def hides_def)

lemma ram_access: "unat a + n + 8 \<le> 2 ^ 64 \<Longrightarrow> access_ok (ram_env enc) c a n"
  by (simp add: access_ok_def ram_env_def accessible_def)

lemma ram_plant_ok: "plant_ok (ram_env [0x02, 0x90]) (ram_state [0x02, 0x90]) 0 [0x02, 0x90]"
proof -
  have "select_sw_breakpoint_isa 1 0x1000 (map (\<lambda>i. ram_bi [0x02, 0x90] (if i = 0 then 0x1000 else 0x1002)) [0, 1 :: bia]) None = Inr (Some [0x02, 0x90])"
    by (simp add: ram_bi_def new_bi_def)
  then show ?thesis using ram_access [of "0x1000" "Suc (Suc 0)" "[0x02, 0x90]" "Suc 0"]
    by (auto simp: plant_ok_def plant_ready_def ram_state_def can_plant_def hides_def ram_env_def MAX_BI_SIZE_def) (simp_all add: ram_bi_def new_bi_def)
qed

theorem breakpoint_ops_succeed_witness: "\<exists>b s1. mem_run (ram_env [0x02, 0x90]) (ram_state [0x02, 0x90]) [OpPlant 0 [0x02, 0x90]] [(None, b)] s1 \<and> bp_inv (\<lambda>t. t) s1"
  using breakpoint_ops_succeed [OF ram_hyps] ram_plant_ok by (simp add: op_ok_def)

theorem breakpoints_invisible_witness:
  "\<exists>s1. mem_run (ram_env [0x02, 0x90]) (ram_state [0x02, 0x90]) [OpPlant 0 [0x02, 0x90], OpRead 1 0x1000 3] [(None, []), (None, [1, 2, 3])] s1"
proof -
  let ?e = "ram_env [0x02, 0x90]" and ?s = "ram_state [0x02, 0x90]" and ?p = "OpPlant 0 [0x02, 0x90]" and ?r = "OpRead 1 0x1000 3"
  have p: "op_ok ?e ?s ?p" using ram_plant_ok by (simp add: op_ok_def)
  from mem_step_at [OF ram_hyps p] obtain b s1 where s1: "mem_step ?e ?p ?s = (Inr b, s1)" "bp_inv (\<lambda>t. t) s1" by blast
  have r: "op_ok ?e s1 ?r" using ram_access [of "0x1000" 3] by (simp add: op_ok_def)
  from mem_step_at [OF ram_hyps(1,2) s1(2) r] obtain d s2 where s2: "mem_step ?e ?r s1 = (Inr d, s2)" by blast
  have run: "mem_run ?e ?s [?p, ?r] [b, d] s2" by (rule mem_run_Cons [OF p s1(1) mem_run_Cons [OF r s2 mem_run_Nil]])
  have "seen (\<lambda>t. t) ?s m a = (if 0x1000 \<le> a \<and> a < 0x1006 then of_nat (a - 0x0fff) else 0)" for m a
    by (simp add: seen_def shown_def hider_def ram_state_def hides_def ram_bi_def new_bi_def)
  then have "plain_run (ev_mem ?e) [?p, ?r] (seen (\<lambda>t. t) ?s) = ([(None, []), (None, [1, 2, 3])], seen (\<lambda>t. t) ?s)" by (simp add: plain_read_def ram_env_def upt_rec)
  with breakpoints_invisible [OF run ram_hyps] run show ?thesis by auto
qed

text \<open>Two instructions of four bytes, two bytes apart, as on the 64-bit ARM, where the agent does not check that an address is aligned.\<close>

definition a64_bkpt :: "byte list" where
  "a64_bkpt = [0x00, 0x00, 0x20, 0xd4]"

lemma ram_env_simps [simp]:
  "ev_mem (ram_env enc) = id" "ev_exited (ram_env enc) = (\<lambda>_. False)" "ev_exiting (ram_env enc) = (\<lambda>_. False)" "ev_all_stopped (ram_env enc) = (\<lambda>_. True)"
  "ev_canonical (ram_env enc) = linux_canonical id" "ev_plant (ram_env enc) = (\<lambda>t _ _. (Some (Tcf ERR_UNSUPPORTED), t))"
  by (simp_all add: ram_env_def)

lemma ram_bi_simps [simp]:
  "cb_ctx (ram_bi enc a) = 1" "cb_address (ram_bi enc a) = a" "bi_stepping_over_bp (ram_bi enc a) = 0" "\<not> bi_planted (ram_bi enc a)" "\<not> bi_dirty (ram_bi enc a)" "bi_valid (ram_bi enc a)"
  "bi_refs (ram_bi enc a) \<noteq> []" "bi_address_error (ram_bi enc a) = None" "\<not> bi_virtual_addr (ram_bi enc a)" "\<not> bi_hardware (ram_bi enc a)" "bi_bp_encoding (ram_bi enc a) = Some enc"
  "bi_ph_ctx (ram_bi enc a) = Some 1" "bi_ph_addr (ram_bi enc a) = a" "\<not> bi_isa_conflict (ram_bi enc a)" "bi_saved_code (ram_bi enc a) = replicate 16 0" "bi_planted_code (ram_bi enc a) = replicate 16 0"
  by (simp_all add: ram_bi_def new_bi_def MAX_BI_SIZE_def)

definition planted_at :: "byte list \<Rightarrow> u64 \<Rightarrow> byte list \<Rightarrow> BreakInstruction" where
  "planted_at enc a code = (ram_bi enc a)\<lparr>bi_unsupported := True, bi_saved_size := 4, bi_planted_code := enc @ replicate 12 0, bi_saved_code := code @ replicate 12 0,
     bi_planting_error := None, bi_planted := True\<rparr>"

lemma ov_plant:
  assumes "i \<in> set (bs_instructions s)" "bs_bi s i = ram_bi enc a" "length enc = 4" "unat a + 12 \<le> 2 ^ 64"
    and sel: "select_sw_breakpoint_isa 1 a (map (bs_bi s) (bs_instructions s)) None = Inr (Some enc)"
  obtains s1 where "plant_instruction (ram_env enc) i s = (Inr (), s1)" "bs_instructions s1 = bs_instructions s"
    "bs_bi s1 = (bs_bi s)(i := planted_at enc a (plain_read 1 (unat a) 4 (bs_target s)))"
    "bs_target s1 = plain_write 1 (unat a) enc (bs_target s)"
proof -
  have n: "drop 4 (replicate 16 (0 :: byte)) = replicate 12 0" by simp
  have acc: "access_ok (ram_env enc) 1 a 4" by (rule ram_access) (use assms(4) in simp)
  have ne: "enc \<noteq> []" using assms(3) by auto
  have "plant_ready (ram_env enc) s i enc"
    using assms(1) acc sel ne by (simp add: plant_ready_def Let_def can_plant_def assms(2,3) MAX_BI_SIZE_def del: select_sw_breakpoint_isa.simps)
  moreover have "length (bi_saved_code (bs_bi s i)) = MAX_BI_SIZE" by (simp add: assms(2) MAX_BI_SIZE_def)
  ultimately obtain s1 where "plant_instruction (ram_env enc) i s = (Inr (), s1)" "bs_instructions s1 = bs_instructions s"
    "bs_bi s1 = (bs_bi s)(i := planted_at enc a (plain_read 1 (unat a) 4 (bs_target s)))"
    "bs_target s1 = plain_write 1 (unat a) enc (bs_target s)"
    by (rule plant_effect [OF ram_hyps(1)]) (auto simp: assms(2,3) n planted_at_def)
  then show ?thesis by (rule that)
qed

lemma ov_remove:
  assumes "i \<in> set (bs_instructions s)" "bs_bi s i = planted_at enc a code" "length enc = 4" "length code = 4" "unat a + 12 \<le> 2 ^ 64"
  obtains s1 where "remove_instruction (ram_env enc) i s = (Inr None, s1)" "bs_instructions s1 = bs_instructions s"
    "bs_bi s1 = (bs_bi s)(i := (planted_at enc a code)\<lparr>bi_planted := False, bi_dirty := False\<rparr>)"
    "bs_target s1 = (if plain_read 1 (unat a) 4 (bs_target s) = enc then plain_write 1 (unat a) code (bs_target s) else bs_target s)"
proof -
  have acc: "access_ok (ram_env enc) 1 a 4" by (rule ram_access) (use assms(5) in simp)
  have "remove_ok (ram_env enc) s i" using assms(1) acc by (simp add: remove_ok_def Let_def assms(2) planted_at_def)
  moreover have "bi_saved_size (bs_bi s i) \<le> length (bi_saved_code (bs_bi s i))" by (simp add: assms(2,4) planted_at_def)
  ultimately obtain s1 where "remove_instruction (ram_env enc) i s = (Inr None, s1)" "bs_instructions s1 = bs_instructions s"
    "bs_bi s1 = (bs_bi s)(i := (planted_at enc a code)\<lparr>bi_planted := False, bi_dirty := False\<rparr>)"
    "bs_target s1 = (if plain_read 1 (unat a) 4 (bs_target s) = enc then plain_write 1 (unat a) code (bs_target s) else bs_target s)"
    by (rule remove_effect [OF ram_hyps(1)]) (auto simp: assms(2,3,4) planted_at_def)
  then show ?thesis by (rule that)
qed

lemma map_upt6: "map f [0x1000..<0x1006] = [f 0x1000, f 0x1001, f 0x1002, f 0x1003, f 0x1004, f (0x1005 :: nat)]"
  by (simp add: upt_rec)

lemma plain_read4: "plain_read m a 4 f = [f m a, f m (a + 1), f m (a + 2), f m (a + 3)]"
  by (simp add: plain_read_def upt_rec numeral_eq_Suc)


end
