(* ===== verification/Spec2Isabelle.thy ===== *)
theory Spec2Isabelle
  imports JsonRoundtrip Channel_TCP InputChannel VMExpr EventOrder StreamDelivery CacheRuns QuerySpec TcfRpc FrameValues BreakMemory
begin

text \<open>
  The TCF agent (src/agent): a daemon that runs on or near a target and gives debuggers access to it over the Target Communication
  Framework protocol. This library models the core of the agent, from the bytes of a connection up to the protocol and some of its services,
  and of its debugger the part that evaluates DWARF expressions and unwinds stack frames and the part that plants breakpoints.

  \<^bold>\<open>The program.\<close>
  All of the agent runs in one thread, in the event loop of framework/events.c; other threads only post events. A channel
  (framework/channel_tcp.c) has an input buffer (inputbuf.c) and an output queue (outputbuf.c), which send and receive with asynchronous
  requests; it shows them to the rest of the program as a stream of symbols (streams.c): bytes and markers for the end of a message. The
  protocol (protocol.c) reads messages from the stream, finds the service a command or event is for, and matches replies with the commands that
  were sent. Arguments are JSON texts (json.c) with binary data in BASE64 (base64.c). Services need data of the target that may not be there yet;
  they run as clients of data caches (cache.c), which run them again when the data has come. Two of the services are modelled here: Streams
  (services/streamsservice.c), which delivers the output of programs to several clients, and ContextQuery (services/contextquery.c), the
  language in which clients select contexts. The debugger part has a machine for DWARF expressions (services/vm.c), location expressions
  (framework/cpudefs.c) that may embed such code, the reader of debug sections (services/dwarfio.c) and the frame information (services/dwarfframe.c),
  which yields location expressions for the registers of a caller. The Breakpoints service (services/breakpoints.c) overwrites code of the target
  with break instructions and, together with the access to target memory (context-linux.c under src/agent/system/GNU/Linux), hides them from clients.

  \<^bold>\<open>Conventions.\<close>
  Theory Prelude has the types: bytes are 8 bit words, C integers are words of their width wherever they can wrap around, symbols of a stream are
  integers (negative ones are markers). \<open>exception(no)\<close> is the left side of a sum, and so are failed assertions and accesses
  outside of a C array where the code can run into them. Theory StateExc has functions on a state that can raise, for the
  code that works on static variables: a fault is an exception, a failed assertion, an access out of bounds or a loop that does not end.
  The static variables of a C file are one record; a linked list is a list, and where the code or a claim depends on the address of a node the
  nodes have addresses. Code that is not part of a component (handlers of services, memory and registers of the target, symbols, relocation) is an
  argument or a record of functions.
  Recursion ends by a measure in most places; loops that may run forever are \<open>partial_function (option)\<close>, and a theorem then states
  that they return, or that they do not. \<open>evaluate_vm_expression\<close> (VM) takes the number of steps it may make as an argument: theory VMBounds
  shows that one more than the bytes of code that are left is enough when there are no backward jumps, nested expressions included; with backward
  jumps the code may not end.

  \<^bold>\<open>Theories.\<close>
  \<^item> Prelude, StateExc: see above.
  \<^item> Streams (framework/streams.c, streams.h): the two stream interfaces as locales (\<open>symbol_source\<close>, \<open>input_stream\<close>, \<open>output_stream\<close>,
    and \<open>windowed_stream\<close> for streams with a buffer between \<open>cur\<close> and \<open>end\<close>), interpreted on the byte array streams, the forwarding stream and,
    in the theories below, on the channel. A byte array stream delivers what was written.
  \<^item> Base64, JsonWrite, JsonRead, JsonRoundtrip (framework/base64.c, json.c): the encoders and decoders with their buffers. The readers invert the writers
    for strings of any bytes, integers, booleans, binary data in pieces of any size, and lists (locale \<open>json_codec\<close>); \<open>json_read_object\<close> copies
    any value and returns on every input.
  \<^item> OutputBuf (framework/outputbuf.c): the queue of buffers and its pool; it is a FIFO of bytes (locale \<open>byte_queue\<close>) under any interleaving of
    additions and partial writes.
  \<^item> Framing: what the bytes of a connection mean, as a decoder of one symbol after the other, the abstract counterpart of the next two.
  \<^item> Channel_TCP (framework/channel_tcp.c, output): escape sequences, blocks of binary data with and without zero copy, flushing and write requests.
    What is sent decodes to what was written, and all of it is sent.
  \<^item> InputBuf, InputChannel (framework/inputbuf.c, channel_tcp.c, input): the ring buffer with its growth, the counting of messages and the
    decoder that gives the message handler its window. The handler reads what is on the wire, no assertion fails on valid data, and no message is stuck.
  \<^item> TcfProtocol, TcfRpc (framework/protocol.c): tables of handlers, commands with tokens, replies, progress, events, the greeting, congestion, closing.
    A command goes to its handler and the reply to its sender; tokens of pending commands differ; both ends learn the services of
    the other; closing fails every pending command once.
  \<^item> Events, EventOrder (framework/events.c): the queue, the timers, the nodes, and the steps of the loop interleaved with those of other threads. The data structures
    are consistent in every reachable state, no assertion fails, timers are stably sorted and do not starve the queue, \<open>cancel_event\<close> is exact.
  \<^item> Cache, CacheRuns (framework/cache.c): clients that wait for data. No client is lost, none runs twice, locks and arguments are those of the waiting clients.
  \<^item> VirtualStream, StreamDelivery (services/streamsservice.c): a ring buffer with several readers. Each client gets all data from where it connected, in order.
  \<^item> ContextQuery, QuerySpec (services/contextquery.c): parser and matching, against the grammar and the meaning that contextquery.h documents.
  \<^item> VM, VMBounds, VMCode, VMExpr (services/vm.c): the machine with all of its instructions. The stack stays in its memory; evaluation ends without backward jumps;
    the machine computes the meaning of compiled expressions.
  \<^item> LocExpr (framework/cpudefs.c): location expressions and their pieces.
  \<^item> DwarfIO (services/dwarfio.c): position in a section, numbers, LEB128, addresses, texts.
  \<^item> FrameInfo (services/dwarfframe.c): register rules of all architectures, frame instructions, common information and frame descriptions, the search index, the
    commands that come out. FrameUnwind: the readers invert the encoding, and an instruction does what the DWARF standard says, on an abstract frame (a function
    from register numbers to rules). FrameTable: a program of instructions is a table of rows, and the agent stops at the row of its address. FrameValues:
    the commands of a row compute the values that the rules say; the binary search finds what a search through all ranges finds.
  \<^item> Breakpoints (services/breakpoints.c, context-linux.c): break instructions with their references, planting and removing them, \<open>flush_instructions\<close>,
    fork and exec, and access to target memory with the break instructions filtered out. BreakMemory: for clients that read and write while breakpoints
    are planted and removed the memory is a plain one, as long as breakpoints do not overlap, and no operation fails.

  The section below puts the two ends of a channel together: what one agent writes is what the handler of the other one reads.

  \<^bold>\<open>Flaws.\<close>
  Theorems about what goes wrong stand beside the others, in the theory of the component: an invalid escape sequence in a long message fails an
  assertion, a write that is longer than announced overruns its buffer, null in a greeting is used as a pointer (all three can be
  caused by a peer), an unwound register gets the frame address added, a length in the frame information can make the agent hang, and
  breakpoints that overlap leave a break instruction in the target when they are removed.

  \<^bold>\<open>Not modelled.\<close>
  Calls of the operating system and wrappers of the C library (asynchronous requests, sockets, processes, files, terminals, discovery),
  libraries (zlib, OpenSSL, libwebsockets, Lua), and message texts of errors. Of channel_tcp.c: connection set up, SSL, splicing; of
  protocol.c: redirection to other peers; of dwarfio.c: entries, attribute forms and units; of cpudefs.c: identifiers of registers and frames.
  Of the breakpoints: evaluation of locations and conditions, the commands of the service, events. Of the debugger: run control, symbols, C expressions, line numbers, disassemblers and
  the stack crawlers of the processors, which depend on the tree of contexts, on ptrace and on the DWARF cache as a whole. The DWARF entries
  and the frame information are read from memory that is loaded; mapping, relocation and addresses are arguments.
\<close>

section \<open>Two ends of a channel\<close>

lemma tcp_run_symbols: "tcp_run c xs c1 \<Longrightarrow> x \<in> set xs \<Longrightarrow> tcp_symbol x"
proof (induction rule: tcp_run.induct)
  case (tcp_run_step c xs c1 ys c2)
  from tcp_run_step.hyps(2) have "y \<in> set ys \<Longrightarrow> tcp_symbol y" for y
    by (cases rule: tcp_step.cases) (auto simp: tcp_symbol_def is_byte_def)
  with tcp_run_step show ?case by auto
qed simp

lemma sent_wire:
  assumes "tcp_run (tcp_initial zc) xs c" "tcp_sent c" "MARKER_EOS \<notin> set xs" "concat net = to_wire c" "[] \<notin> set net"
  shows "syms (concat net) = xs" "wire_ok net"
proof -
  show s: "syms (concat net) = xs" using tcp_sent_wire [OF assms(1,2)] assms(4) by simp
  have "BAD_SYM \<notin> set xs" using tcp_run_symbols [OF assms(1), of BAD_SYM] by (auto simp: tcp_symbol_def is_byte_def BAD_SYM_def)
  then show "wire_ok net" using decode_good [of d0 "concat net"] s assms(3,5) by (simp add: wire_ok_def)
qed

text \<open>
  C1: From one agent to the other: what one end writes to its channel, symbols, blocks and strings in
  any order, is what the message handler of the other end reads, however the bytes travel. At any
  moment the handler has read a prefix of it, and if it ends with the end of a message all of it can be
  read.
\<close>

theorem channel_end_to_end:
  assumes "tcp_run (tcp_initial zc) xs c" "tcp_sent c" "MARKER_EOS \<notin> set xs"
    and "concat net = to_wire c" "[] \<notin> set net" "2 \<le> length mem"
    and "chan_run (chan_initial mem net) (ib, net1, log)"
  shows "prefix log xs \<and> (last xs = MARKER_EOM \<longrightarrow> (\<exists>ib2 net2. chan_run (ib, net1, log) (ib2, net2, xs)))"
proof -
  note w = sent_wire [OF assms(1-5)]
  have g: "chan_good xs (ib, net1, log)" using run_good [OF assms(7) initial_good [OF w(2) assms(6)]] w(1) by simp
  with prefix_view good_delivers show ?thesis by blast
qed

theorem channel_end_to_end_witness:
  "\<exists>c net ib net1. tcp_run (tcp_initial True) [7, 3, MARKER_EOM] c \<and> concat net = to_wire c \<and>
     chan_run (chan_initial (replicate 8 0) net) (ib, net1, [7, 3, MARKER_EOM])"
proof -
  from tcp_message_state [of True] obtain c0 where c0: "tcp_run (tcp_initial True) [7, 3, MARKER_EOM] c0"
      "to_bin_block c0 = None" "0 < to_eom_cnt c0 \<or> to_cur c0 = 0" by blast
  from tcp_sent_reachable [OF c0] obtain c where c: "tcp_run (tcp_initial True) [7, 3, MARKER_EOM] c" "tcp_sent c" by blast
  let ?net = "map (\<lambda>b. [b]) (to_wire c)"
  have n: "concat ?net = to_wire c" "[] \<notin> set ?net" by (induction "to_wire c") auto
  obtain ib net1 where i: "chan_initial (replicate 8 0) ?net = (ib, net1, [])" by (auto simp: chan_initial_def)
  have "chan_run (chan_initial (replicate 8 0) ?net) (ib, net1, [])" by (simp add: i)
  from channel_end_to_end [OF c _ n _ this] obtain ib2 net2 where
      "chan_run (chan_initial (replicate 8 0) ?net) (ib2, net2, [7, 3, MARKER_EOM])" by (auto simp: i)
  with c(1) n(1) show ?thesis by blast
qed

end
